(* ===== verification/Prelude.thy ===== *)
theory Prelude
  imports Main "HOL-Library.Word" "HOL-Library.Multiset"
begin

text \<open>
  Shared vocabulary of the development: Go run-time faults as values, checked slice accesses,
  the collections of rewrite rules the component theories fill, the locales every component uses
  (invariants of a step relation, intersecting quorums), and generic lemmas on lists and counting
  that more than one component needs.
\<close>

section \<open>Go run-time faults and checked slice accesses\<close>

text \<open>
  A Go panic (index out of range, nil dereference) and a call of \<open>log.Fatalf\<close> both end the
  process. The model returns them as the left summand of a sum.
\<close>

datatype fault = IndexOutOfRange | SliceBounds | NilDereference | DivideByZero | LogFatal string | GoPanic string

type_synonym 'a res = "fault + 'a"

text \<open>\<open>xs[i]\<close>, \<open>xs[i] = v\<close>, \<open>xs[i:]\<close> and \<open>xs[lo:hi]\<close> of Go, with the bounds checks of the
  run time. Indices are signed.\<close>

definition idx_ok :: "'a list \<Rightarrow> int \<Rightarrow> bool" where
  "idx_ok xs i \<longleftrightarrow> 0 \<le> i \<and> i < int (length xs)"

definition slice_get :: "'a list \<Rightarrow> int \<Rightarrow> 'a res" where
  "slice_get xs i = (if idx_ok xs i then Inr (xs ! nat i) else Inl IndexOutOfRange)"

definition slice_set :: "'a list \<Rightarrow> int \<Rightarrow> 'a \<Rightarrow> 'a list res" where
  "slice_set xs i v = (if idx_ok xs i then Inr (xs[nat i := v]) else Inl IndexOutOfRange)"

definition slice_range :: "'a list \<Rightarrow> int \<Rightarrow> int \<Rightarrow> 'a list res" where
  "slice_range xs lo hi =
     (if 0 \<le> lo \<and> lo \<le> hi \<and> hi \<le> int (length xs)
      then Inr (take (nat hi - nat lo) (drop (nat lo) xs)) else Inl SliceBounds)"

definition slice_from :: "'a list \<Rightarrow> int \<Rightarrow> 'a list res" where
  "slice_from xs lo = slice_range xs lo (int (length xs))"

definition rbind :: "'a res \<Rightarrow> ('a \<Rightarrow> 'b res) \<Rightarrow> 'b res" where
  "rbind r f = (case r of Inl e \<Rightarrow> Inl e | Inr x \<Rightarrow> f x)"

named_theorems go_simps \<open>rewrite rules for checked Go accesses and the result type\<close>
named_theorems inv_intros \<open>preservation of component invariants, one rule per operation\<close>

lemma rbind_Inr [simp, go_simps]: "rbind (Inr x) f = f x"
  by (simp add: rbind_def)

lemma rbind_Inl [simp, go_simps]: "rbind (Inl e) f = Inl e"
  by (simp add: rbind_def)

lemma rbind_eq_Inr: "rbind r f = Inr y \<longleftrightarrow> (\<exists>x. r = Inr x \<and> f x = Inr y)"
  by (auto simp: rbind_def split: sum.splits)

lemma slice_get_in [go_simps]: "idx_ok xs i \<Longrightarrow> slice_get xs i = Inr (xs ! nat i)"
  by (simp add: slice_get_def)

lemma slice_get_eq_Inr [go_simps]:
  "slice_get xs i = Inr x \<longleftrightarrow> idx_ok xs i \<and> xs ! nat i = x"
  by (auto simp: slice_get_def)

lemma slice_set_in [go_simps]: "idx_ok xs i \<Longrightarrow> slice_set xs i v = Inr (xs[nat i := v])"
  by (simp add: slice_set_def)

lemma slice_set_eq_Inr [go_simps]:
  "slice_set xs i v = Inr ys \<longleftrightarrow> idx_ok xs i \<and> ys = xs[nat i := v]"
  by (auto simp: slice_set_def)

lemma slice_from_in [go_simps]:
  "0 \<le> lo \<Longrightarrow> lo \<le> int (length xs) \<Longrightarrow> slice_from xs lo = Inr (drop (nat lo) xs)"
  by (simp add: slice_from_def slice_range_def)

lemma slice_from_eq_Inr [go_simps]:
  "slice_from xs lo = Inr ys \<longleftrightarrow> 0 \<le> lo \<and> lo \<le> int (length xs) \<and> ys = drop (nat lo) xs"
  by (auto simp: slice_from_def slice_range_def)

lemma idx_ok_nat [simp]: "idx_ok xs (int k) \<longleftrightarrow> k < length xs"
  by (simp add: idx_ok_def)

lemma idx_ok_update [simp]: "idx_ok (xs[k := v]) i = idx_ok xs i"
  by (simp add: idx_ok_def)

lemma idx_okD: "idx_ok xs i \<Longrightarrow> nat i < length xs \<and> 0 \<le> i"
  by (auto simp: idx_ok_def)

section \<open>Invariants of a step relation\<close>

text \<open>
  The states reached from a set of initial states, and in a bounded number of steps. Every
  protocol of the development is a step relation, and its safety theorems come from the one
  lemma below.
\<close>

inductive reach :: "('s \<Rightarrow> bool) \<Rightarrow> ('s \<Rightarrow> 's \<Rightarrow> bool) \<Rightarrow> 's \<Rightarrow> bool" for init step where
  reach_init: "init s \<Longrightarrow> reach init step s"
| reach_step: "reach init step s \<Longrightarrow> step s t \<Longrightarrow> reach init step t"

inductive reach_in :: "('s \<Rightarrow> bool) \<Rightarrow> ('s \<Rightarrow> 's \<Rightarrow> bool) \<Rightarrow> nat \<Rightarrow> 's \<Rightarrow> bool" for init step where
  reach_in_init: "init s \<Longrightarrow> reach_in init step 0 s"
| reach_in_step: "reach_in init step n s \<Longrightarrow> step s t \<Longrightarrow> reach_in init step (Suc n) t"

locale invariant_system =
  fixes init :: "'s \<Rightarrow> bool"
    and step :: "'s \<Rightarrow> 's \<Rightarrow> bool"
    and inv :: "'s \<Rightarrow> bool"
  assumes init_inv: "init s \<Longrightarrow> inv s"
    and step_inv: "inv s \<Longrightarrow> step s t \<Longrightarrow> inv t"
begin

lemma reach_inv: "reach init step s \<Longrightarrow> inv s"
  by (induction rule: reach.induct) (auto intro: init_inv step_inv)

lemma reach_in_inv: "reach_in init step n s \<Longrightarrow> inv s"
  by (induction rule: reach_in.induct) (auto intro: init_inv step_inv)

end

lemma reach_steps: "reach init stp s \<Longrightarrow> stp\<^sup>*\<^sup>* s t \<Longrightarrow> reach init stp t"
  by (rotate_tac, induction rule: rtranclp_induct) (auto intro: reach.intros)

lemma reach_mono:
  assumes "reach init step s" and "\<And>s t. step s t \<Longrightarrow> step' s t"
  shows "reach init step' s"
  using assms(1) by (induction rule: reach.induct) (auto intro: reach.intros assms(2))

section \<open>Quorums\<close>

text \<open>
  Two families of sets of servers such that every set of the first meets every set of the second.
  Raft uses it with the sets that can elect a leader on both sides, and with the sets that can
  commit an entry against those that can elect a leader.
\<close>

locale quorum_pair =
  fixes Q1 :: "'a set \<Rightarrow> bool" and Q2 :: "'a set \<Rightarrow> bool"
  assumes meet: "Q1 A \<Longrightarrow> Q2 B \<Longrightarrow> A \<inter> B \<noteq> {}"
begin

lemma agree:
  assumes "Q1 {x. f x = Some a}" and "Q2 {x. f x = Some b}"
  shows "a = b"
  using meet [OF assms] by auto

lemma common_member: "Q1 A \<Longrightarrow> Q2 B \<Longrightarrow> \<exists>x. x \<in> A \<and> x \<in> B"
  using meet by blast

end

lemma card_meet:
  assumes "A \<subseteq> S" "B \<subseteq> S" "finite S" "card S < card A + card B"
  shows "A \<inter> B \<noteq> {}"
proof
  assume "A \<inter> B = {}"
  then have "card (A \<union> B) = card A + card B"
    using assms by (meson card_Un_disjoint finite_subset)
  moreover have "card (A \<union> B) \<le> card S"
    using assms by (meson card_mono Un_least)
  ultimately show False using assms(4) by simp
qed

section \<open>Lists and counting\<close>

lemma length_filter_update_gain:
  "i < length xs \<Longrightarrow> \<not> P (xs ! i) \<Longrightarrow> P v
    \<Longrightarrow> length (filter P (xs[i := v])) = Suc (length (filter P xs))"
  by (induction xs arbitrary: i) (auto split: nat.splits)

lemma length_filter_update_same:
  "P (xs ! i) = P v \<Longrightarrow> length (filter P (xs[i := v])) = length (filter P xs)"
  by (induction xs arbitrary: i) (auto split: nat.splits)

lemma length_filter_full:
  "length (filter P xs) = length xs \<longleftrightarrow> (\<forall>x \<in> set xs. P x)"
proof
  assume "length (filter P xs) = length xs"
  then show "\<forall>x \<in> set xs. P x" by (metis length_filter_less nat_neq_iff)
qed (simp add: filter_True)

section \<open>Machine words\<close>

lemma unat_inc:
  fixes w :: "'a::len word"
  assumes "unat w + 1 < 2 ^ LENGTH('a)"
  shows "unat (w + 1) = Suc (unat w)"
  using assms by (simp add: unat_word_ariths)

lemma unat_add_nat:
  fixes w :: "'a::len word"
  assumes "unat w + n < 2 ^ LENGTH('a)"
  shows "unat (w + of_nat n) = unat w + n"
  using assms by (simp add: unat_word_ariths unat_of_nat)

lemma word_add_nat_neq:
  fixes w :: "'a::len word"
  assumes "0 < n" and "n < 2 ^ LENGTH('a)"
  shows "w + of_nat n \<noteq> w"
  using assms by (metis add_cancel_left_right nat_less_le of_nat_0_eq_iff of_nat_inverse unat_0)

section \<open>Decimal numbers\<close>

text \<open>\<open>strconv.Itoa\<close> of a number that is not negative.\<close>

definition digit :: "nat \<Rightarrow> char" where
  "digit n = char_of (48 + n)"

fun itoa :: "nat \<Rightarrow> string" where
  "itoa n = (if n < 10 then [digit n] else itoa (n div 10) @ [digit (n mod 10)])"

declare itoa.simps [simp del]

lemma of_char_digit: "d < 10 \<Longrightarrow> of_char (digit d) = 48 + d"
  by (simp add: digit_def)

lemma itoa_nonempty [simp]: "itoa n \<noteq> []"
  by (subst itoa.simps) simp

lemma itoa_digits: "c \<in> set (itoa n) \<Longrightarrow> \<exists>d < 10. c = digit d"
proof (induction n rule: itoa.induct)
  case (1 n)
  show ?case
  proof (cases "n < 10")
    case True
    then have "itoa n = [digit n]" by (subst itoa.simps) simp
    then show ?thesis using "1.prems" True by auto
  next
    case False
    then have "itoa n = itoa (n div 10) @ [digit (n mod 10)]" by (subst itoa.simps) simp
    moreover have "n mod 10 < 10" by simp
    ultimately show ?thesis using "1.IH" [OF False] "1.prems" by (auto intro: exI [of _ "n mod 10"])
  qed
qed

definition atoi :: "string \<Rightarrow> nat" where
  "atoi s = foldl (\<lambda>a c. a * 10 + (of_char c - 48)) 0 s"

lemma atoi_itoa [simp]: "atoi (itoa n) = n"
proof (induction n rule: itoa.induct)
  case (1 n)
  show ?case
  proof (cases "n < 10")
    case True
    then have "itoa n = [digit n]" by (subst itoa.simps) simp
    then show ?thesis using True by (simp add: atoi_def of_char_digit)
  next
    case False
    then have "itoa n = itoa (n div 10) @ [digit (n mod 10)]" by (subst itoa.simps) simp
    then show ?thesis using "1.IH" [OF False] by (simp add: atoi_def of_char_digit)
  qed
qed

lemma itoa_inj [simp]: "itoa m = itoa n \<longleftrightarrow> m = n"
  by (metis atoi_itoa)

lemma digit_neq: "d < 10 \<Longrightarrow> digit d \<noteq> CHR ''-''" "d < 10 \<Longrightarrow> digit d \<noteq> CHR ''o''"
proof -
  have *: "of_char (CHR ''-'') = (45 :: nat)" "of_char (CHR ''o'') = (111 :: nat)" by simp_all
  show "digit d \<noteq> CHR ''-''" if "d < 10" using of_char_digit [OF that] * by (metis add_leE not_numeral_le_zero numeral_le_iff semiring_norm le_add1 of_char_digit)
  show "digit d \<noteq> CHR ''o''" if "d < 10" using of_char_digit [OF that] * that by fastforce
qed

lemma itoa_split:
  "takeWhile (\<lambda>c. c \<noteq> CHR ''-'') (itoa k @ CHR ''-'' # s) = itoa k"
  "dropWhile (\<lambda>c. c \<noteq> CHR ''-'') (itoa k @ CHR ''-'' # s) = CHR ''-'' # s"
proof -
  have "\<forall>c \<in> set (itoa k). c \<noteq> CHR ''-''" using itoa_digits [of _ k] digit_neq(1) by metis
  then show "takeWhile (\<lambda>c. c \<noteq> CHR ''-'') (itoa k @ CHR ''-'' # s) = itoa k"
    "dropWhile (\<lambda>c. c \<noteq> CHR ''-'') (itoa k @ CHR ''-'' # s) = CHR ''-'' # s"
    by (simp_all add: takeWhile_append dropWhile_append)
qed

lemma itoa_pair_inj: "itoa m @ CHR ''-'' # itoa r = itoa m' @ CHR ''-'' # itoa r' \<Longrightarrow> m = m' \<and> r = r'"
  by (metis itoa_split itoa_inj list.inject)

section \<open>Hashing\<close>

text \<open>\<open>hash/fnv.New32a\<close>: FNV-1a with 32 bits.\<close>

unbundle bit_operations_syntax

definition fnv_step :: "32 word \<Rightarrow> char \<Rightarrow> 32 word" where
  "fnv_step h c = (h XOR of_nat (of_char c)) * 16777619"

definition fnv32a :: "string \<Rightarrow> 32 word" where
  "fnv32a s = foldl fnv_step 2166136261 s"

end
