(* ===== verification/Kvsrv.thy ===== *)
theory Kvsrv
  imports Prelude
begin

text \<open>
  The versioned key/value server of \<open>src/src/kvsrv1\<close>: the RPC types (\<open>rpc/rpc.go\<close>), the server
  (\<open>server.go\<close>) and the clerk with its retry loop (\<open>client.go\<close>). The network between clerk and
  server is the schedule of the clerk's RPC attempts: what other clients did to the server before
  the attempt, and whether the request or the reply was lost.
\<close>

section \<open>RPC types (rpc/rpc.go)\<close>

text \<open>\<open>type Err string\<close> with its constants; \<open>ErrZero\<close> is the empty string, the zero value.\<close>

datatype Err = ErrZero | OK | ErrNoKey | ErrVersion | ErrMaybe | ErrWrongLeader | ErrWrongGroup | ErrLocked

fun err_string :: "Err \<Rightarrow> string" where
  "err_string ErrZero = ''''"
| "err_string OK = ''OK''"
| "err_string ErrNoKey = ''ErrNoKey''"
| "err_string ErrVersion = ''ErrVersion''"
| "err_string ErrMaybe = ''ErrMaybe''"
| "err_string ErrWrongLeader = ''ErrWrongLeader''"
| "err_string ErrWrongGroup = ''ErrWrongGroup''"
| "err_string ErrLocked = ''ErrLocked''"

type_synonym Tversion = "64 word"

record PutArgs =
  pa_Key :: string
  pa_Value :: string
  pa_Version :: Tversion

record PutReply =
  pr_Err :: Err

record GetArgs =
  ga_Key :: string

record GetReply =
  gr_Value :: string
  gr_Version :: Tversion
  gr_Err :: Err

section \<open>The server (server.go)\<close>

record KVData =
  kd_val :: string
  kd_version :: Tversion

record KVServer =
  kv_version :: Tversion
  kv_data :: "string \<rightharpoonup> KVData"

definition MakeKVServer :: KVServer where
  "MakeKVServer = \<lparr>kv_version = 0, kv_data = Map.empty\<rparr>"

text \<open>A handler fills the reply it is given; an RPC passes in the zero value.\<close>

definition kv_Get :: "KVServer \<Rightarrow> GetArgs \<Rightarrow> GetReply \<Rightarrow> GetReply" where
  "kv_Get kv args rep =
     (case kv_data kv (ga_Key args) of
        None \<Rightarrow> rep\<lparr>gr_Err := ErrNoKey\<rparr>
      | Some d \<Rightarrow> rep\<lparr>gr_Value := kd_val d, gr_Version := kd_version d, gr_Err := OK\<rparr>)"

definition kv_Put :: "KVServer \<Rightarrow> PutArgs \<Rightarrow> PutReply \<Rightarrow> KVServer \<times> PutReply" where
  "kv_Put kv args rep =
     (case kv_data kv (pa_Key args) of
        None \<Rightarrow>
          (if pa_Version args \<noteq> 0 then (kv, rep\<lparr>pr_Err := ErrNoKey\<rparr>)
           else (kv\<lparr>kv_data := (kv_data kv)(pa_Key args \<mapsto>
                    \<lparr>kd_val = pa_Value args, kd_version = 1\<rparr>)\<rparr>,
                 rep\<lparr>pr_Err := OK\<rparr>))
      | Some d \<Rightarrow>
          (if kd_version d \<noteq> pa_Version args then (kv, rep\<lparr>pr_Err := ErrVersion\<rparr>)
           else (kv\<lparr>kv_data := (kv_data kv)(pa_Key args \<mapsto>
                    \<lparr>kd_val = pa_Value args, kd_version = kd_version d + 1\<rparr>)\<rparr>,
                 rep\<lparr>pr_Err := OK\<rparr>)))"

definition StartKVServer :: KVServer where
  "StartKVServer = MakeKVServer"

abbreviation zeroGetReply :: GetReply where
  "zeroGetReply \<equiv> \<lparr>gr_Value = '''', gr_Version = 0, gr_Err = ErrZero\<rparr>"

abbreviation zeroPutReply :: PutReply where
  "zeroPutReply \<equiv> \<lparr>pr_Err = ErrZero\<rparr>"

section \<open>The clerk (client.go)\<close>

text \<open>
  One RPC attempt: the puts other clients got executed before it reached the server, and its fate.
  \<open>Call\<close> returns true only when it was \<open>Delivered\<close>; a request whose reply is lost was executed.
\<close>

datatype fate = RequestLost | ReplyLost | Delivered

type_synonym attempt = "PutArgs list \<times> fate"

fun run_puts :: "KVServer \<Rightarrow> PutArgs list \<Rightarrow> KVServer" where
  "run_puts kv [] = kv"
| "run_puts kv (a # as) = run_puts (fst (kv_Put kv a zeroPutReply)) as"

text \<open>
  \<open>Clerk.Get\<close> and \<open>Clerk.Put\<close> retry until a call succeeds. The result is \<open>None\<close> when the schedule
  ends before an attempt is delivered (the loop is still running).
\<close>

fun clerk_Get :: "KVServer \<Rightarrow> attempt list \<Rightarrow> string \<Rightarrow> (KVServer \<times> (string \<times> Tversion \<times> Err)) option" where
  "clerk_Get kv [] key = None"
| "clerk_Get kv ((others, ft) # as) key =
     (let kv' = run_puts kv others;
          reply = kv_Get kv' \<lparr>ga_Key = key\<rparr> zeroGetReply
      in if ft = Delivered then Some (kv', gr_Value reply, gr_Version reply, gr_Err reply)
         else clerk_Get kv' as key)"

fun clerk_Put_loop :: "nat \<Rightarrow> KVServer \<Rightarrow> attempt list \<Rightarrow> PutArgs \<Rightarrow> (KVServer \<times> Err) option" where
  "clerk_Put_loop iteration kv [] args = None"
| "clerk_Put_loop iteration kv ((others, ft) # as) args =
     (let kv' = run_puts kv others in
      case ft of
        RequestLost \<Rightarrow> clerk_Put_loop (iteration + 1) kv' as args
      | ReplyLost \<Rightarrow> clerk_Put_loop (iteration + 1) (fst (kv_Put kv' args zeroPutReply)) as args
      | Delivered \<Rightarrow>
          (let (kv'', reply) = kv_Put kv' args zeroPutReply in
           Some (kv'', if iteration > 0 \<and> pr_Err reply = ErrVersion then ErrMaybe
                       else pr_Err reply)))"

definition clerk_Put :: "KVServer \<Rightarrow> attempt list \<Rightarrow> string \<Rightarrow> string \<Rightarrow> Tversion \<Rightarrow> (KVServer \<times> Err) option" where
  "clerk_Put kv as key value ver =
     clerk_Put_loop 0 kv as \<lparr>pa_Key = key, pa_Value = value, pa_Version = ver\<rparr>"

text \<open>A put that the server would apply.\<close>

definition put_applies :: "KVServer \<Rightarrow> PutArgs \<Rightarrow> bool" where
  "put_applies kv args \<longleftrightarrow> pr_Err (snd (kv_Put kv args zeroPutReply)) = OK"

definition n_others :: "attempt list \<Rightarrow> nat" where
  "n_others as = sum_list (map (\<lambda>a. length (fst a)) as)"

text \<open>The puts of other clients that fall into a call, which ends with the first attempt that is delivered.\<close>

definition others_during :: "attempt list \<Rightarrow> PutArgs list" where
  "others_during as = concat (map fst (take (Suc (length (takeWhile (\<lambda>a. snd a \<noteq> Delivered) as))) as))"

section \<open>The contract of a versioned store\<close>

text \<open>
  What clients (the clerk loop, the lock) rely on: a put either changes nothing or, when its
  version is the current one, installs the value and increments the version; it touches no other
  key. The current version of an absent key is 0.
\<close>

definition ver_of :: "KVServer \<Rightarrow> string \<Rightarrow> Tversion" where
  "ver_of kv k = (case kv_data kv k of None \<Rightarrow> 0 | Some d \<Rightarrow> kd_version d)"

definition val_of :: "KVServer \<Rightarrow> string \<Rightarrow> string" where
  "val_of kv k = (case kv_data kv k of None \<Rightarrow> '''' | Some d \<Rightarrow> kd_val d)"

locale versioned_store =
  fixes ver :: "'s \<Rightarrow> string \<Rightarrow> Tversion"
    and vals :: "'s \<Rightarrow> string \<Rightarrow> string"
    and put :: "'s \<Rightarrow> string \<Rightarrow> string \<Rightarrow> Tversion \<Rightarrow> 's"
  assumes put_hit_ver: "ver s k = v \<Longrightarrow> ver (put s k x v) k = v + 1"
    and put_hit_val: "ver s k = v \<Longrightarrow> vals (put s k x v) k = x"
    and put_miss: "ver s k \<noteq> v \<Longrightarrow> put s k x v = s"
    and put_other_ver: "k' \<noteq> k \<Longrightarrow> ver (put s k x v) k' = ver s k'"
    and put_other_val: "k' \<noteq> k \<Longrightarrow> vals (put s k x v) k' = vals s k'"
begin

lemma put_ver_cases: "ver (put s k x v) k' = ver s k' \<or> ver (put s k x v) k' = ver s k' + 1"
  by (cases "k' = k"; cases "ver s k = v") (auto simp: put_hit_ver put_miss put_other_ver)

lemma put_val_keep: "ver (put s k x v) k' = ver s k' \<Longrightarrow> vals (put s k x v) k' = vals s k'"
  by (cases "k' = k"; cases "ver s k = v") (auto simp: put_hit_ver put_miss put_other_val)

text \<open>Counted without wrap-around: a put moves the version of a key by at most one.\<close>

lemma put_unat_bound:
  assumes "unat (ver s k') \<le> n" and "Suc n < 2 ^ 64"
  shows "unat (ver (put s k x v) k') \<le> Suc n"
proof -
  have "unat (ver s k' + 1) = Suc (unat (ver s k'))"
    using assms by (intro unat_inc) simp
  then show ?thesis using put_ver_cases [of s k x v k'] assms(1) by auto
qed

lemma put_unat_mono:
  assumes "unat (ver s k') + 1 < 2 ^ 64"
  shows "unat (ver s k') \<le> unat (ver (put s k x v) k')"
proof -
  have "unat (ver s k' + 1) = Suc (unat (ver s k'))"
    using assms by (intro unat_inc) simp
  then show ?thesis using put_ver_cases [of s k x v k'] by auto
qed

end

abbreviation put_state :: "KVServer \<Rightarrow> string \<Rightarrow> string \<Rightarrow> Tversion \<Rightarrow> KVServer" where
  "put_state kv k x v \<equiv> fst (kv_Put kv \<lparr>pa_Key = k, pa_Value = x, pa_Version = v\<rparr> zeroPutReply)"

interpretation kvs: versioned_store ver_of val_of put_state
  by unfold_locales (auto simp: ver_of_def val_of_def kv_Put_def split: option.splits)

section \<open>Lemmas on the server\<close>

lemma put_applies_iff: "put_applies kv args \<longleftrightarrow> ver_of kv (pa_Key args) = pa_Version args"
  by (auto simp: put_applies_def kv_Put_def ver_of_def split: option.splits)

lemma put_applies_ver:
  "put_applies kv args \<Longrightarrow>
   ver_of (fst (kv_Put kv args zeroPutReply)) (pa_Key args) = pa_Version args + 1"
  by (cases args) (simp add: put_applies_iff kvs.put_hit_ver)

lemma put_not_applies: "\<not> put_applies kv args \<Longrightarrow> fst (kv_Put kv args zeroPutReply) = kv"
  by (cases args) (simp add: put_applies_iff kvs.put_miss)

text \<open>A list of puts moves the version of a key forward by at most its length.\<close>

lemma run_puts_ver:
  "\<exists>j \<le> length as. ver_of (run_puts kv as) k = ver_of kv k + of_nat j"
proof (induction as arbitrary: kv)
  case (Cons a as)
  let ?kv = "fst (kv_Put kv a zeroPutReply)"
  from Cons.IH [of ?kv] obtain j where
    j: "j \<le> length as" "ver_of (run_puts ?kv as) k = ver_of ?kv k + of_nat j" by auto
  have "ver_of ?kv k = ver_of kv k \<or> ver_of ?kv k = ver_of kv k + 1"
    using kvs.put_ver_cases [of kv "pa_Key a" "pa_Value a" "pa_Version a" k] by (cases a) simp
  then show ?case
  proof
    assume "ver_of ?kv k = ver_of kv k"
    with j show ?thesis by (intro exI [of _ j]) simp
  next
    assume "ver_of ?kv k = ver_of kv k + 1"
    with j show ?thesis by (intro exI [of _ "Suc j"]) (simp add: algebra_simps)
  qed
qed auto

lemma n_others_Cons [simp]: "n_others ((os, ft) # as) = length os + n_others as"
  by (simp add: n_others_def)

lemma others_during_Cons [simp]: "others_during ((os, ft) # as) = os @ (if ft = Delivered then [] else others_during as)"
  by (simp add: others_during_def)

lemma run_puts_append: "run_puts kv (as @ bs) = run_puts (run_puts kv as) bs"
  by (induction as arbitrary: kv) simp_all

lemma put_reply_cases: "pr_Err (snd (kv_Put kv args zeroPutReply)) \<in> {OK, ErrNoKey, ErrVersion}"
  by (auto simp: kv_Put_def split: option.splits)

text \<open>A key, once written, exists forever, so a put whose earlier execution applied never sees
  \<open>ErrNoKey\<close>.\<close>

lemma put_keeps_key: "kv_data kv k \<noteq> None \<Longrightarrow> kv_data (fst (kv_Put kv a zeroPutReply)) k \<noteq> None"
  by (auto simp: kv_Put_def split: option.splits)

lemma run_puts_keeps_key: "kv_data kv k \<noteq> None \<Longrightarrow> kv_data (run_puts kv as) k \<noteq> None"
  by (induction as arbitrary: kv) (use put_keeps_key in \<open>fastforce+\<close>)

lemma put_nokey_iff:
  "pr_Err (snd (kv_Put kv args zeroPutReply)) = ErrNoKey
     \<longleftrightarrow> kv_data kv (pa_Key args) = None \<and> pa_Version args \<noteq> 0"
  by (auto simp: kv_Put_def split: option.splits)

lemma put_applies_key:
  "put_applies kv args \<Longrightarrow> kv_data (fst (kv_Put kv args zeroPutReply)) (pa_Key args) \<noteq> None"
  by (auto simp: put_applies_def kv_Put_def split: option.splits if_splits)

text \<open>Once the version of the key has moved past the version of the put, no later execution of
  that put applies, unless the 64-bit version wraps around, and a resent request is answered with \<open>ErrMaybe\<close>.\<close>

lemma clerk_loop_stale:
  assumes "clerk_Put_loop i kv as args = Some (kv', e)" "0 < i" "kv_data kv (pa_Key args) \<noteq> None"
    and "ver_of kv (pa_Key args) = pa_Version args + of_nat m" "0 < m" "m + n_others as < 2 ^ 64"
  shows "kv' = run_puts kv (others_during as) \<and> e = ErrMaybe"
  using assms
proof (induction i kv as args arbitrary: m rule: clerk_Put_loop.induct)
  case (2 i kv os ft as args)
  let ?kv = "run_puts kv os"
  from run_puts_ver [of os kv "pa_Key args"] obtain j where
    j: "j \<le> length os" "ver_of ?kv (pa_Key args) = ver_of kv (pa_Key args) + of_nat j" by auto
  have v: "ver_of ?kv (pa_Key args) = pa_Version args + of_nat (m + j)"
    using j(2) "2.prems"(4) by (simp add: algebra_simps)
  have b: "m + j + n_others as < 2 ^ 64" "m + j < 2 ^ 64" "0 < m + j" using "2.prems"(5,6) j(1) by auto
  have na: "\<not> put_applies ?kv args"
    using v b word_add_nat_neq [of "m + j" "pa_Version args"] by (simp add: put_applies_iff)
  note put = put_not_applies [OF na] and key = run_puts_keeps_key [OF "2.prems"(3), of os]
  show ?case
  proof (cases ft)
    case Delivered
    obtain kv2 rep where r: "kv_Put ?kv args zeroPutReply = (kv2, rep)" by fastforce
    have "pr_Err rep = ErrVersion" using put_reply_cases [of ?kv args] put_nokey_iff [of ?kv args] na key r by (auto simp: put_applies_def)
    then show ?thesis using "2.prems"(1,2) Delivered r put by (simp add: Let_def)
  next
    case RequestLost
    then show ?thesis using "2.IH"(1) [OF refl RequestLost _ _ key v b(3,1)] "2.prems"(1) by (simp add: Let_def run_puts_append)
  next
    case ReplyLost
    then show ?thesis using "2.IH"(2) [OF refl ReplyLost, of "m + j"] put key v b "2.prems"(1) by (simp add: Let_def run_puts_append)
  qed
qed simp

lemma clerk_loop_once:
  assumes "clerk_Put_loop i kv as args = Some (kv', e)" "n_others as + 1 < 2 ^ 64"
  shows "\<exists>pre post. others_during as = pre @ post
    \<and> (kv' = run_puts kv (pre @ post) \<and> e \<in> {ErrVersion, ErrNoKey, ErrMaybe}
      \<or> kv' = run_puts kv (pre @ args # post) \<and> put_applies (run_puts kv pre) args \<and> e \<in> {OK, ErrMaybe})"
  using assms
proof (induction i kv as args rule: clerk_Put_loop.induct)
  case (2 i kv os ft as args)
  let ?kv = "run_puts kv os" and ?put = "fst (kv_Put (run_puts kv os) args zeroPutReply)"
  have go: ?case if f: "ft \<noteq> Delivered" and ih: "\<exists>pre post. others_during as = pre @ post
      \<and> (kv' = run_puts ?kv (pre @ post) \<and> e \<in> {ErrVersion, ErrNoKey, ErrMaybe}
        \<or> kv' = run_puts ?kv (pre @ args # post) \<and> put_applies (run_puts ?kv pre) args \<and> e \<in> {OK, ErrMaybe})"
  proof -
    from ih obtain pre post where p: "others_during as = pre @ post"
      "kv' = run_puts ?kv (pre @ post) \<and> e \<in> {ErrVersion, ErrNoKey, ErrMaybe}
        \<or> kv' = run_puts ?kv (pre @ args # post) \<and> put_applies (run_puts ?kv pre) args \<and> e \<in> {OK, ErrMaybe}" by blast
    then show ?thesis using f by (intro exI [of _ "os @ pre"] exI [of _ post]) (auto simp: run_puts_append)
  qed
  show ?case
  proof (cases ft)
    case Delivered
    obtain kv2 rep where r: "kv_Put ?kv args zeroPutReply = (kv2, rep)" by fastforce
    then have k: "kv' = kv2" "e = (if i > 0 \<and> pr_Err rep = ErrVersion then ErrMaybe else pr_Err rep)"
      using "2.prems"(1) Delivered by (auto simp: Let_def)
    show ?thesis
    proof (cases "put_applies ?kv args")
      case True
      then have "kv' = run_puts kv (os @ [args])" "e = OK" using k r by (auto simp: run_puts_append put_applies_def)
      then show ?thesis using True Delivered by (intro exI [of _ os] exI [of _ "[]"]) simp
    next
      case False
      have "kv' = ?kv" using put_not_applies [OF False] k r by simp
      moreover have "e \<in> {ErrVersion, ErrNoKey, ErrMaybe}" using put_reply_cases [of ?kv args] False k r by (auto simp: put_applies_def)
      ultimately show ?thesis using Delivered by (intro exI [of _ os] exI [of _ "[]"]) simp
    qed
  next
    case RequestLost
    then show ?thesis using go "2.IH"(1) [OF refl RequestLost] "2.prems" by (simp add: Let_def)
  next
    case ReplyLost
    have run: "clerk_Put_loop (i + 1) ?put as args = Some (kv', e)" using "2.prems"(1) ReplyLost by (simp add: Let_def)
    show ?thesis
    proof (cases "put_applies ?kv args")
      case True
      have "kv' = run_puts ?put (others_during as) \<and> e = ErrMaybe"
        by (rule clerk_loop_stale [OF run, where m = 1]) (use put_applies_ver [OF True] put_applies_key [OF True] "2.prems"(2) in auto)
      then show ?thesis using True ReplyLost by (intro exI [of _ os] exI [of _ "others_during as"]) (simp add: run_puts_append)
    next
      case False
      then show ?thesis using go "2.IH"(2) [OF refl ReplyLost] "2.prems"(2) run put_not_applies [OF False] ReplyLost by simp
    qed
  qed
qed simp

lemma clerk_loop_returns:
  "(\<exists>r. clerk_Put_loop i kv as args = Some r) \<longleftrightarrow> Delivered \<in> snd ` set as"
  by (induction i kv as args rule: clerk_Put_loop.induct)
    (auto simp: Let_def split: fate.splits prod.splits)

section \<open>Properties\<close>

text \<open>The put handler, on every branch. It answers \<open>OK\<close> exactly when the request's version is
  the current one (0 for a key that does not exist), and then installs the value with the next
  version; on an error it changes nothing, \<open>ErrNoKey\<close> exactly for a missing key with a non-zero
  version; it never touches another key.\<close>

theorem kv_Put_spec:
  assumes "kv_Put kv args zeroPutReply = (kv', rep)"
  shows "(pr_Err rep = OK \<longleftrightarrow> ver_of kv (pa_Key args) = pa_Version args)
    \<and> (pr_Err rep = ErrNoKey \<longleftrightarrow> kv_data kv (pa_Key args) = None \<and> pa_Version args \<noteq> 0)
    \<and> (pr_Err rep = OK \<longrightarrow> ver_of kv' (pa_Key args) = pa_Version args + 1
                        \<and> val_of kv' (pa_Key args) = pa_Value args)
    \<and> (pr_Err rep \<noteq> OK \<longrightarrow> kv' = kv)
    \<and> (\<forall>k. k \<noteq> pa_Key args \<longrightarrow> kv_data kv' k = kv_data kv k)"
  using assms by (auto simp: kv_Put_def ver_of_def val_of_def split: option.splits if_splits)

theorem kv_Put_spec_witness:
  "kv_Put MakeKVServer \<lparr>pa_Key = ''k'', pa_Value = ''x'', pa_Version = 0\<rparr> zeroPutReply
     = (MakeKVServer\<lparr>kv_data := [''k'' \<mapsto> \<lparr>kd_val = ''x'', kd_version = 1\<rparr>]\<rparr>, \<lparr>pr_Err = OK\<rparr>)
   \<and> ver_of (MakeKVServer\<lparr>kv_data := [''k'' \<mapsto> \<lparr>kd_val = ''x'', kd_version = 1\<rparr>]\<rparr>) ''k'' = 1"
proof -
  have h: "kv_Put MakeKVServer \<lparr>pa_Key = ''k'', pa_Value = ''x'', pa_Version = 0\<rparr> zeroPutReply
     = (MakeKVServer\<lparr>kv_data := [''k'' \<mapsto> \<lparr>kd_val = ''x'', kd_version = 1\<rparr>]\<rparr>, \<lparr>pr_Err = OK\<rparr>)"
    by (simp add: kv_Put_def MakeKVServer_def)
  show ?thesis using h kv_Put_spec [OF h] by simp
qed

text \<open>C6: a clerk's \<open>Put\<close> takes effect at most once, whatever requests and replies the network
  loses and whatever other clients do in between, as long as fewer than \<open>2^64 - 1\<close> puts of other
  clients fall into the call (after that the version wraps around). When \<open>Put\<close> returns, the server is where the puts of the other clients
  alone would have taken it, or where they take it with this put inserted at one place, at which its version is the
  current one; \<open>OK\<close> is only returned in the second case, \<open>ErrVersion\<close> and \<open>ErrNoKey\<close> only in the first, and \<open>ErrMaybe\<close> is the
  only other answer.\<close>

theorem clerk_Put_at_most_once:
  assumes "clerk_Put kv as key value v = Some (kv', e)" "n_others as + 1 < 2 ^ 64"
  shows "\<exists>pre post. others_during as = pre @ post
    \<and> (kv' = run_puts kv (pre @ post) \<and> e \<in> {ErrVersion, ErrNoKey, ErrMaybe}
      \<or> kv' = run_puts kv (pre @ \<lparr>pa_Key = key, pa_Value = value, pa_Version = v\<rparr> # post)
          \<and> ver_of (run_puts kv pre) key = v \<and> e \<in> {OK, ErrMaybe})"
  using clerk_loop_once [OF assms(1) [unfolded clerk_Put_def] assms(2)] by (simp add: put_applies_iff)

theorem clerk_Put_at_most_once_witness:
  "\<exists>kv'. clerk_Put MakeKVServer [([], ReplyLost), ([], Delivered)] ''k'' ''x'' 0 = Some (kv', ErrMaybe)
     \<and> (kv' = run_puts MakeKVServer [] \<or> kv' = run_puts MakeKVServer [\<lparr>pa_Key = ''k'', pa_Value = ''x'', pa_Version = 0\<rparr>])"
proof -
  let ?kv = "MakeKVServer\<lparr>kv_data := [''k'' \<mapsto> \<lparr>kd_val = ''x'', kd_version = 1\<rparr>]\<rparr>"
  have c: "clerk_Put MakeKVServer [([], ReplyLost), ([], Delivered)] ''k'' ''x'' 0 = Some (?kv, ErrMaybe)"
    by (simp add: clerk_Put_def kv_Put_def MakeKVServer_def)
  have n: "n_others [([], ReplyLost), ([], Delivered)] + 1 < 2 ^ 64" by (simp add: n_others_def)
  have o: "others_during [([], ReplyLost), ([], Delivered)] = []" by (simp add: others_during_def)
  show ?thesis using c clerk_Put_at_most_once [OF c n] unfolding o by auto
qed

text \<open>C23: The retry loop returns exactly when some attempt is delivered: it never gives up before,
  and never runs on after, a call that succeeds.\<close>

theorem clerk_Put_returns_iff:
  "(\<exists>r. clerk_Put kv as key value v = Some r) \<longleftrightarrow> Delivered \<in> snd ` set as"
  by (simp only: clerk_Put_def clerk_loop_returns)

end
