(* ===== verification/Lock.thy ===== *)
theory Lock
  imports Kvsrv
begin

text \<open>
  The lock of \<open>src/src/kvsrv1/lock/lock.go\<close>, built on the clerk's \<open>Get\<close> and \<open>Put\<close>. Each loop is cut
  at its clerk calls, the points where other clients may run; a client's program counter says
  which call is next and carries the local variables that are live there. Any number of clients
  interleave in the step relation \<open>lock_step\<close>.
\<close>

section \<open>Clients\<close>

record Lock =
  lockName :: string
  clientID :: string

text \<open>\<open>kvtest.RandValue\<close>: one letter per random number (\<open>rand.Int63\<close> is never negative).\<close>

definition letterBytes :: string where
  "letterBytes = ''abcdefghijklmnopqrstuvwxyzABCDEFGHIJKLMNOPQRSTUVWXYZ''"

definition RandValue :: "nat \<Rightarrow> (nat \<Rightarrow> nat) \<Rightarrow> string" where
  "RandValue n rnd = map (\<lambda>i. letterBytes ! (rnd i mod length letterBytes)) [0..<n]"

definition MakeLock :: "string \<Rightarrow> (nat \<Rightarrow> nat) \<Rightarrow> Lock" where
  "MakeLock lockname rnd = \<lparr>lockName = lockname, clientID = RandValue 8 rnd\<rparr>"

text \<open>
  \<open>AcqGet\<close>: at the head of the loop of \<open>Acquire\<close>; \<open>AcqPut ver\<close>: about to put the client's id with the
  version it read; \<open>AcqCheck\<close>: about to read back; \<open>Held\<close>: \<open>Acquire\<close> has returned; \<open>RelGet\<close>: at the
  head of the loop of \<open>Release\<close>; \<open>RelPut ver\<close>: about to put the empty string.
\<close>

datatype pc = Idle | AcqGet | AcqPut Tversion | AcqCheck | Held | RelGet | RelPut Tversion

abbreviation ck_Get :: "KVServer \<Rightarrow> string \<Rightarrow> GetReply" where
  "ck_Get kv key \<equiv> kv_Get kv \<lparr>ga_Key = key\<rparr> zeroGetReply"

definition acquire_get :: "KVServer \<Rightarrow> Lock \<Rightarrow> pc" where
  "acquire_get kv lk =
     (let r = ck_Get kv (lockName lk)
      in if gr_Err r = ErrNoKey \<or> gr_Value r = '''' then AcqPut (gr_Version r) else AcqCheck)"

definition acquire_put :: "KVServer \<Rightarrow> Lock \<Rightarrow> Tversion \<Rightarrow> KVServer" where
  "acquire_put kv lk ver = put_state kv (lockName lk) (clientID lk) ver"

definition acquire_check :: "KVServer \<Rightarrow> Lock \<Rightarrow> pc" where
  "acquire_check kv lk = (if gr_Value (ck_Get kv (lockName lk)) = clientID lk then Held else AcqGet)"

definition release_get :: "KVServer \<Rightarrow> Lock \<Rightarrow> pc" where
  "release_get kv lk =
     (let r = ck_Get kv (lockName lk)
      in if gr_Value r = clientID lk then RelPut (gr_Version r) else RelGet)"

definition release_put :: "KVServer \<Rightarrow> Lock \<Rightarrow> Tversion \<Rightarrow> KVServer" where
  "release_put kv lk ver = put_state kv (lockName lk) '''' ver"

text \<open>One iteration of the loop of \<open>Acquire\<close>, and a whole \<open>Release\<close> pass, with nobody in between.\<close>

definition Acquire_iter :: "KVServer \<Rightarrow> Lock \<Rightarrow> KVServer \<times> bool" where
  "Acquire_iter kv lk =
     (let kv' = (case acquire_get kv lk of AcqPut ver \<Rightarrow> acquire_put kv lk ver | _ \<Rightarrow> kv)
      in (kv', acquire_check kv' lk = Held))"

definition Release_iter :: "KVServer \<Rightarrow> Lock \<Rightarrow> KVServer \<times> bool" where
  "Release_iter kv lk =
     (case release_get kv lk of RelPut ver \<Rightarrow> (release_put kv lk ver, True) | _ \<Rightarrow> (kv, False))"

section \<open>Interleaved clients\<close>

record lock_sys =
  ls_kv :: KVServer
  ls_pc :: "nat \<Rightarrow> pc"

text \<open>
  A \<open>Put\<close> of the clerk may be executed several times when replies are lost: the steps \<open>_exec\<close> are
  executions whose reply is lost (the clerk stays in its loop), the steps \<open>_done\<close> the delivered one.
  \<open>env\<close>: anybody writes a key that is no lock.
\<close>

inductive lock_step :: "(nat \<Rightarrow> Lock) \<Rightarrow> lock_sys \<Rightarrow> lock_sys \<Rightarrow> bool" for lks where
  call_acquire: "ls_pc s i = Idle \<Longrightarrow> lock_step lks s (s\<lparr>ls_pc := (ls_pc s)(i := AcqGet)\<rparr>)"
| acq_get: "ls_pc s i = AcqGet \<Longrightarrow>
    lock_step lks s (s\<lparr>ls_pc := (ls_pc s)(i := acquire_get (ls_kv s) (lks i))\<rparr>)"
| acq_put_exec: "ls_pc s i = AcqPut ver \<Longrightarrow>
    lock_step lks s (s\<lparr>ls_kv := acquire_put (ls_kv s) (lks i) ver\<rparr>)"
| acq_put_done: "ls_pc s i = AcqPut ver \<Longrightarrow>
    lock_step lks s (s\<lparr>ls_kv := acquire_put (ls_kv s) (lks i) ver, ls_pc := (ls_pc s)(i := AcqCheck)\<rparr>)"
| acq_check: "ls_pc s i = AcqCheck \<Longrightarrow>
    lock_step lks s (s\<lparr>ls_pc := (ls_pc s)(i := acquire_check (ls_kv s) (lks i))\<rparr>)"
| call_release: "ls_pc s i = Held \<Longrightarrow> lock_step lks s (s\<lparr>ls_pc := (ls_pc s)(i := RelGet)\<rparr>)"
| rel_get: "ls_pc s i = RelGet \<Longrightarrow>
    lock_step lks s (s\<lparr>ls_pc := (ls_pc s)(i := release_get (ls_kv s) (lks i))\<rparr>)"
| rel_put_exec: "ls_pc s i = RelPut ver \<Longrightarrow>
    lock_step lks s (s\<lparr>ls_kv := release_put (ls_kv s) (lks i) ver\<rparr>)"
| rel_put_done: "ls_pc s i = RelPut ver \<Longrightarrow>
    lock_step lks s (s\<lparr>ls_kv := release_put (ls_kv s) (lks i) ver, ls_pc := (ls_pc s)(i := Idle)\<rparr>)"
| env: "(\<forall>i. lockName (lks i) \<noteq> k) \<Longrightarrow>
    lock_step lks s (s\<lparr>ls_kv := put_state (ls_kv s) k x ver\<rparr>)"

definition lock_init :: "lock_sys \<Rightarrow> bool" where
  "lock_init s \<longleftrightarrow> ls_kv s = MakeKVServer \<and> (\<forall>i. ls_pc s i = Idle)"

text \<open>The ids of two clients of the same lock differ (they are random), and no id is empty.\<close>

definition good_ids :: "(nat \<Rightarrow> Lock) \<Rightarrow> bool" where
  "good_ids lks \<longleftrightarrow> (\<forall>i. clientID (lks i) \<noteq> '''') \<and>
     (\<forall>i j. lockName (lks i) = lockName (lks j) \<longrightarrow> clientID (lks i) = clientID (lks j) \<longrightarrow> i = j)"

section \<open>The invariant\<close>

text \<open>What a client's program counter says about the key of its lock: \<open>kv\<close> is the store, \<open>k\<close> the
  key and \<open>c\<close> the client's id.\<close>

fun pc_inv :: "KVServer \<Rightarrow> string \<Rightarrow> string \<Rightarrow> pc \<Rightarrow> bool" where
  "pc_inv kv k c (AcqPut v) \<longleftrightarrow> unat v \<le> unat (ver_of kv k) \<and> (ver_of kv k = v \<longrightarrow> val_of kv k = '''')"
| "pc_inv kv k c (RelPut v) \<longleftrightarrow> ver_of kv k = v \<and> val_of kv k = c \<or> unat v < unat (ver_of kv k)"
| "pc_inv kv k c Held \<longleftrightarrow> val_of kv k = c"
| "pc_inv kv k c RelGet \<longleftrightarrow> val_of kv k = c"
| "pc_inv kv k c _ \<longleftrightarrow> True"

definition lock_inv :: "(nat \<Rightarrow> Lock) \<Rightarrow> lock_sys \<Rightarrow> bool" where
  "lock_inv lks s \<longleftrightarrow> (\<forall>i. pc_inv (ls_kv s) (lockName (lks i)) (clientID (lks i)) (ls_pc s i))"

definition ver_bound :: "nat \<Rightarrow> KVServer \<Rightarrow> bool" where
  "ver_bound n kv \<longleftrightarrow> (\<forall>k. unat (ver_of kv k) \<le> n)"

lemma ck_Get_val: "gr_Value (ck_Get kv k) = val_of kv k"
  by (simp add: kv_Get_def val_of_def split: option.splits)

lemma ck_Get_ver: "gr_Version (ck_Get kv k) = ver_of kv k"
  by (simp add: kv_Get_def ver_of_def split: option.splits)

lemma ck_Get_nokey: "gr_Err (ck_Get kv k) = ErrNoKey \<Longrightarrow> val_of kv k = ''''"
  by (simp add: kv_Get_def val_of_def split: option.splits)

lemmas lock_defs = acquire_get_def acquire_put_def acquire_check_def release_get_def release_put_def
lemmas ck_Get_simps = ck_Get_val ck_Get_ver

text \<open>The reads establish what the next program counter claims.\<close>

lemma acquire_get_inv: "pc_inv kv (lockName lk) (clientID lk) (acquire_get kv lk)"
  by (auto simp: acquire_get_def Let_def ck_Get_simps dest: ck_Get_nokey)

lemma acquire_check_inv: "pc_inv kv (lockName lk) (clientID lk) (acquire_check kv lk)"
  by (auto simp: acquire_check_def ck_Get_simps)

lemma release_get_inv:
  "pc_inv kv (lockName lk) (clientID lk) RelGet
    \<Longrightarrow> pc_inv kv (lockName lk) (clientID lk) (release_get kv lk)"
  by (auto simp: release_get_def Let_def ck_Get_simps)

text \<open>A put that misses changes nothing; one that hits moves the version strictly forward. So a
  put of one client keeps the claim of another, given that a hit happens only over a value the
  other client does not rely on.\<close>

lemma put_keeps_pc_inv:
  assumes "pc_inv kv k c p" and b: "unat (ver_of kv k) + 1 < 2 ^ 64"
    and val: "k' = k \<Longrightarrow> ver_of kv k = v \<Longrightarrow> val_of kv k \<noteq> c"
  shows "pc_inv (put_state kv k' x v) k c p"
proof (cases "k' = k \<and> ver_of kv k = v")
  case True
  then have "ver_of (put_state kv k' x v) k = ver_of kv k + 1" and "val_of kv k \<noteq> c"
    using kvs.put_hit_ver [of kv k v x] val by auto
  moreover have "unat (ver_of kv k + 1) = Suc (unat (ver_of kv k))" using b by (intro unat_inc) simp
  ultimately show ?thesis using assms(1) by (cases p) auto
next
  case False
  then have "ver_of (put_state kv k' x v) k = ver_of kv k" "val_of (put_state kv k' x v) k = val_of kv k"
    using kvs.put_miss [of kv k v x] kvs.put_other_ver [of k k' kv x v]
      kvs.put_other_val [of k k' kv x v] by metis+
  then show ?thesis using assms(1) by (cases p) auto
qed

lemma own_put_stale:
  assumes "unat v \<le> unat (ver_of kv k)" and b: "unat (ver_of kv k) + 1 < 2 ^ 64"
  shows "unat v < unat (ver_of (put_state kv k x v) k)"
proof (cases "ver_of kv k = v")
  case True
  then show ?thesis using kvs.put_hit_ver [of kv k v x] unat_inc [of v] b by simp
next
  case False
  then have "unat v < unat (ver_of kv k)" using assms(1) by (metis le_neq_implies_less unsigned_word_eqI)
  then show ?thesis using kvs.put_miss [OF False, of x] by simp
qed

lemma own_put_pc_inv:
  assumes "pc_inv kv k c p" "p = AcqPut v \<or> p = RelPut v" and b: "unat (ver_of kv k) + 1 < 2 ^ 64"
  shows "pc_inv (put_state kv k x v) k c p"
proof -
  have "unat v \<le> unat (ver_of kv k)" using assms(1,2) by auto
  from own_put_stale [OF this b, of x] show ?thesis using assms(2) by auto
qed

lemma lock_invD: "lock_inv lks s \<Longrightarrow> pc_inv (ls_kv s) (lockName (lks i)) (clientID (lks i)) (ls_pc s i)"
  by (simp add: lock_inv_def)

lemma lock_inv_pc_update:
  "lock_inv lks s \<Longrightarrow> pc_inv (ls_kv s) (lockName (lks i)) (clientID (lks i)) p
    \<Longrightarrow> lock_inv lks (s\<lparr>ls_pc := (ls_pc s)(i := p)\<rparr>)"
  by (simp add: lock_inv_def)

text \<open>A put of client \<open>i\<close> keeps the invariant of every other client: it hits only when the value is
  empty (acquiring) or \<open>i\<close>'s own id (releasing).\<close>

lemma lock_inv_put:
  assumes inv: "lock_inv lks s" and ids: "good_ids lks" and b: "ver_bound n (ls_kv s)" "n + 1 < 2 ^ 64"
    and hit: "ver_of (ls_kv s) (lockName (lks i)) = v
        \<Longrightarrow> val_of (ls_kv s) (lockName (lks i)) \<in> {'''', clientID (lks i)}"
    and own: "pc_inv (put_state (ls_kv s) (lockName (lks i)) x v) (lockName (lks i)) (clientID (lks i)) p"
  shows "lock_inv lks (s\<lparr>ls_kv := put_state (ls_kv s) (lockName (lks i)) x v, ls_pc := (ls_pc s)(i := p)\<rparr>)"
proof -
  have "pc_inv (put_state (ls_kv s) (lockName (lks i)) x v) (lockName (lks j)) (clientID (lks j)) (ls_pc s j)"
    if "j \<noteq> i" for j
  proof (rule put_keeps_pc_inv [OF lock_invD [OF inv, of j]])
    show "unat (ver_of (ls_kv s) (lockName (lks j))) + 1 < 2 ^ 64"
      using b unfolding ver_bound_def by (meson add_le_mono1 le_less_trans)
  next
    assume "lockName (lks i) = lockName (lks j)" "ver_of (ls_kv s) (lockName (lks j)) = v"
    then show "val_of (ls_kv s) (lockName (lks j)) \<noteq> clientID (lks j)"
      using hit ids that unfolding good_ids_def by (metis insertE singletonD)
  qed
  then show ?thesis using own by (simp add: lock_inv_def)
qed

lemma lock_inv_put_exec:
  assumes "lock_inv lks s" "good_ids lks" "ver_bound n (ls_kv s)" "n + 1 < 2 ^ 64"
    and "ver_of (ls_kv s) (lockName (lks i)) = v
        \<Longrightarrow> val_of (ls_kv s) (lockName (lks i)) \<in> {'''', clientID (lks i)}"
    and "pc_inv (put_state (ls_kv s) (lockName (lks i)) x v) (lockName (lks i)) (clientID (lks i)) (ls_pc s i)"
  shows "lock_inv lks (s\<lparr>ls_kv := put_state (ls_kv s) (lockName (lks i)) x v\<rparr>)"
  using lock_inv_put [OF assms] by (simp add: lock_inv_def)

lemma ver_bound_put: "ver_bound n kv \<Longrightarrow> n + 1 < 2 ^ 64 \<Longrightarrow> ver_bound (Suc n) (put_state kv k x v)"
  unfolding ver_bound_def by (metis Suc_eq_plus1 kvs.put_unat_bound)

lemma ver_bound_Suc: "ver_bound n kv \<Longrightarrow> ver_bound (Suc n) kv"
  by (simp add: ver_bound_def le_SucI)

lemma lock_step_ver_bound:
  "lock_step lks s t \<Longrightarrow> ver_bound n (ls_kv s) \<Longrightarrow> n + 1 < 2 ^ 64 \<Longrightarrow> ver_bound (Suc n) (ls_kv t)"
  by (induction rule: lock_step.induct) (simp_all add: lock_defs ver_bound_put ver_bound_Suc)

lemma lock_step_inv:
  assumes "lock_step lks s t" "lock_inv lks s" "good_ids lks" "ver_bound n (ls_kv s)" "n + 1 < 2 ^ 64"
  shows "lock_inv lks t"
proof -
  have b: "unat (ver_of (ls_kv s) k) + 1 < 2 ^ 64" for k
    using assms(4,5) unfolding ver_bound_def by (meson add_le_mono1 le_less_trans)
  note put = lock_inv_put [OF assms(2-5)] lock_inv_put_exec [OF assms(2-5)]
  from assms(1) show ?thesis
  proof cases
    case (acq_put_exec i ver)
    then show ?thesis using put(2) [of i ver "clientID (lks i)"] lock_invD [OF assms(2), of i]
        own_put_pc_inv [OF lock_invD [OF assms(2), of i] _ b] by (auto simp: acquire_put_def)
  next
    case (acq_put_done i ver)
    then show ?thesis using put(1) [of i ver "clientID (lks i)" AcqCheck] lock_invD [OF assms(2), of i]
      by (auto simp: acquire_put_def)
  next
    case (rel_put_exec i ver)
    then show ?thesis using put(2) [of i ver "''''"] lock_invD [OF assms(2), of i]
        own_put_pc_inv [OF lock_invD [OF assms(2), of i] _ b] by (auto simp: release_put_def)
  next
    case (rel_put_done i ver)
    then show ?thesis using put(1) [of i ver "''''" Idle] lock_invD [OF assms(2), of i]
      by (auto simp: release_put_def)
  next
    case (rel_get i)
    then show ?thesis
      using lock_inv_pc_update [OF assms(2)] release_get_inv lock_invD [OF assms(2), of i] by simp
  next
    case (call_release i)
    then show ?thesis
      using lock_inv_pc_update [OF assms(2), of i RelGet] lock_invD [OF assms(2), of i] by simp
  next
    case (env k x ver)
    then have "pc_inv (ls_kv t) (lockName (lks i)) (clientID (lks i)) (ls_pc s i)" for i
      using put_keeps_pc_inv [OF lock_invD [OF assms(2), of i] b, of k ver x] by auto
    then show ?thesis using env by (simp add: lock_inv_def)
  qed (auto intro: lock_inv_pc_update [OF assms(2)] acquire_get_inv acquire_check_inv)
qed

lemma lock_reach_inv:
  "reach_in lock_init (lock_step lks) n s \<Longrightarrow> good_ids lks \<Longrightarrow> n < 2 ^ 64
    \<Longrightarrow> lock_inv lks s \<and> ver_bound n (ls_kv s)"
proof (induction rule: reach_in.induct)
  case (reach_in_init s)
  then show ?case
    by (simp add: lock_init_def lock_inv_def ver_bound_def MakeKVServer_def ver_of_def)
next
  case (reach_in_step n s t)
  then have "lock_inv lks s" "ver_bound n (ls_kv s)" "n + 1 < 2 ^ 64" by auto
  with reach_in_step show ?case by (meson lock_step_inv lock_step_ver_bound)
qed

lemma RandValue_nonempty: "0 < n \<Longrightarrow> RandValue n rnd \<noteq> ''''"
  by (simp add: RandValue_def)

lemma acquire_get_free: "val_of kv (lockName lk) = '''' \<Longrightarrow> acquire_get kv lk = AcqPut (ver_of kv (lockName lk))"
  by (simp add: acquire_get_def Let_def ck_Get_simps)

lemma acquire_get_taken: "val_of kv (lockName lk) \<noteq> '''' \<Longrightarrow> acquire_get kv lk = AcqCheck"
  by (auto simp: acquire_get_def Let_def ck_Get_simps dest: ck_Get_nokey)

section \<open>Properties\<close>

text \<open>C8: Mutual exclusion. With different non-empty client ids, in every run of fewer than
  \<open>2^64\<close> steps, whatever replies are lost and puts re-executed, two clients that are between the
  return of \<open>Acquire\<close> and the put of \<open>Release\<close> on the same lock are the same client.\<close>

theorem lock_mutual_exclusion:
  assumes "reach_in lock_init (lock_step lks) n s" and "good_ids lks" and "n < 2 ^ 64"
    and "lockName (lks i) = lockName (lks j)"
    and "ls_pc s i \<in> {Held, RelGet}" and "ls_pc s j \<in> {Held, RelGet}"
  shows "i = j"
proof -
  have "lock_inv lks s" using lock_reach_inv assms(1-3) by blast
  from lock_invD [OF this, of i] lock_invD [OF this, of j] have "clientID (lks i) = clientID (lks j)"
    using assms(4-6) by auto
  with assms(2,4) show ?thesis unfolding good_ids_def by blast
qed

theorem lock_mutual_exclusion_witness:
  "let lks = (\<lambda>i. \<lparr>lockName = ''l'', clientID = replicate (Suc i) (CHR ''a'')\<rparr>);
       s = \<lparr>ls_kv = MakeKVServer\<lparr>kv_data := [''l'' \<mapsto> \<lparr>kd_val = ''a'', kd_version = 1\<rparr>]\<rparr>,
            ls_pc = (\<lambda>_. Idle)(0 := Held)\<rparr>
   in reach_in lock_init (lock_step lks) 4 s \<and> good_ids lks \<and> ls_pc s 0 = Held \<and> (0::nat) = 0"
proof -
  let ?lks = "\<lambda>i. \<lparr>lockName = ''l'', clientID = replicate (Suc i) (CHR ''a'')\<rparr>"
  let ?kv = "MakeKVServer\<lparr>kv_data := [''l'' \<mapsto> \<lparr>kd_val = ''a'', kd_version = 1\<rparr>]\<rparr>"
  let ?s = "\<lparr>ls_kv = ?kv, ls_pc = (\<lambda>_. Idle)(0 := Held)\<rparr>"
  let ?init = "\<lparr>ls_kv = MakeKVServer, ls_pc = (\<lambda>_. Idle)\<rparr>"
  have 0: "reach_in lock_init (lock_step ?lks) 0 ?init"
    by (rule reach_in_init) (simp add: lock_init_def)
  have 1: "lock_step ?lks ?init (?init\<lparr>ls_pc := (\<lambda>_. Idle)(0 := AcqGet)\<rparr>)"
    using call_acquire [of ?init 0 ?lks] by simp
  have 2: "lock_step ?lks (?init\<lparr>ls_pc := (\<lambda>_. Idle)(0 := AcqGet)\<rparr>) (?init\<lparr>ls_pc := (\<lambda>_. Idle)(0 := AcqPut 0)\<rparr>)"
    using acq_get [of "?init\<lparr>ls_pc := (\<lambda>_. Idle)(0 := AcqGet)\<rparr>" 0 ?lks]
    by (simp add: acquire_get_def kv_Get_def MakeKVServer_def)
  have 3: "lock_step ?lks (?init\<lparr>ls_pc := (\<lambda>_. Idle)(0 := AcqPut 0)\<rparr>) (?s\<lparr>ls_pc := (\<lambda>_. Idle)(0 := AcqCheck)\<rparr>)"
    using acq_put_done [of "?init\<lparr>ls_pc := (\<lambda>_. Idle)(0 := AcqPut 0)\<rparr>" 0 0 ?lks]
    by (simp add: acquire_put_def kv_Put_def MakeKVServer_def)
  have 4: "lock_step ?lks (?s\<lparr>ls_pc := (\<lambda>_. Idle)(0 := AcqCheck)\<rparr>) ?s"
    using acq_check [of "?s\<lparr>ls_pc := (\<lambda>_. Idle)(0 := AcqCheck)\<rparr>" 0 ?lks]
    by (simp add: acquire_check_def kv_Get_def MakeKVServer_def)
  note st = reach_in_step [where init = lock_init and step = "lock_step ?lks"]
  have r: "reach_in lock_init (lock_step ?lks) 4 ?s"
    using st [OF st [OF st [OF st [OF 0 1] 2] 3] 4] by (simp add: numeral_eq_Suc)
  have g: "good_ids ?lks" by (auto simp: good_ids_def)
  have "(0::nat) = 0"
    by (rule lock_mutual_exclusion [OF r g]) simp_all
  with r g show ?thesis by (simp add: Let_def)
qed

text \<open>One loop iteration of \<open>Acquire\<close> without interference: on a free lock (missing key or empty
  value) it returns holding the lock; on a lock some other client holds it does not return and
  changes nothing. \<open>Release\<close> then frees the lock it holds, so the next \<open>Acquire\<close> of any client
  succeeds.\<close>

theorem lock_uncontended:
  assumes "clientID lk \<noteq> ''''" and "clientID lk' \<noteq> ''''" and "clientID lk' \<noteq> clientID lk"
    and "lockName lk' = lockName lk" and "val_of kv (lockName lk) = ''''"
    and "Acquire_iter kv lk = (kv1, b1)" and "Release_iter kv1 lk = (kv2, b2)"
  shows "b1 \<and> val_of kv1 (lockName lk) = clientID lk \<and> Acquire_iter kv1 lk' = (kv1, False)
    \<and> b2 \<and> val_of kv2 (lockName lk) = '''' \<and> snd (Acquire_iter kv2 lk')"
proof -
  let ?k = "lockName lk"
  have kv1: "kv1 = put_state kv ?k (clientID lk) (ver_of kv ?k)"
    using assms(5,6) acquire_get_free by (simp add: Acquire_iter_def acquire_put_def Let_def)
  have v1: "val_of kv1 ?k = clientID lk" using kv1 kvs.put_hit_val by simp
  have b1: b1 using assms(5,6) v1 kv1 acquire_get_free
    by (auto simp: Acquire_iter_def acquire_put_def acquire_check_def Let_def ck_Get_simps)
  have t: "Acquire_iter kv1 lk' = (kv1, False)"
    using assms(1,3,4) v1 acquire_get_taken [of kv1 lk']
    by (simp add: Acquire_iter_def acquire_check_def Let_def ck_Get_simps)
  have rg: "release_get kv1 lk = RelPut (ver_of kv1 ?k)"
    using v1 by (simp add: release_get_def Let_def ck_Get_simps)
  have r: "kv2 = put_state kv1 ?k '''' (ver_of kv1 ?k)" "b2"
    using assms(7) rg by (auto simp: Release_iter_def release_put_def)
  have v2: "val_of kv2 ?k = ''''" using r kvs.put_hit_val by simp
  have "snd (Acquire_iter kv2 lk')"
    using v2 assms(4) acquire_get_free [of kv2 lk'] kvs.put_hit_val [of kv2 ?k]
    by (simp add: Acquire_iter_def acquire_put_def acquire_check_def Let_def ck_Get_simps)
  with b1 v1 t r v2 show ?thesis by simp
qed

theorem lock_uncontended_witness:
  "let lk = \<lparr>lockName = ''l'', clientID = ''a''\<rparr>; lk' = \<lparr>lockName = ''l'', clientID = ''b''\<rparr>
   in val_of MakeKVServer ''l'' = ''''
      \<and> snd (Acquire_iter MakeKVServer lk)
      \<and> Acquire_iter (fst (Acquire_iter MakeKVServer lk)) lk' = (fst (Acquire_iter MakeKVServer lk), False)"
proof -
  let ?lk = "\<lparr>lockName = ''l'', clientID = ''a''\<rparr>" and ?lk' = "\<lparr>lockName = ''l'', clientID = ''b''\<rparr>"
  have "val_of MakeKVServer ''l'' = ''''" by (simp add: val_of_def MakeKVServer_def)
  then show ?thesis
    using lock_uncontended [of ?lk ?lk' MakeKVServer "fst (Acquire_iter MakeKVServer ?lk)" "snd (Acquire_iter MakeKVServer ?lk)"
        "fst (Release_iter (fst (Acquire_iter MakeKVServer ?lk)) ?lk)" "snd (Release_iter (fst (Acquire_iter MakeKVServer ?lk)) ?lk)"]
    by simp
qed

end
