(* ===== verification/Kv_Model.thy ===== *)
theory Kv_Model
  imports Kvsrv "HOL-Library.List_Lexorder" "HOL-Library.Char_ord"
begin

text \<open>
  The sequential specification \<open>KvModel\<close> of \<open>src/src/models1/kv.go\<close>, which the linearizability
  checker runs against client histories, and the refinement between it and the server of
  \<open>Kvsrv\<close>: which answers of the server the model accepts.
\<close>

section \<open>The model (models1/kv.go)\<close>

record KvInput =
  ki_Op :: "8 word"
  ki_Key :: string
  ki_Value :: string
  ki_Version :: "64 word"

record KvOutput =
  ko_Value :: string
  ko_Version :: "64 word"
  ko_Err :: string

record KvState =
  ks_Value :: string
  ks_Version :: "64 word"

text \<open>\<open>porcupine.Operation\<close>, the fields the model and the operation log use.\<close>

record Operation =
  op_ClientId :: int
  op_Input :: KvInput
  op_Call :: int
  op_Output :: KvOutput
  op_Return :: int

text \<open>\<open>m[key] = append(m[key], v)\<close> on a map kept as an association list.\<close>

fun append_at :: "'k \<Rightarrow> 'v \<Rightarrow> ('k \<times> 'v list) list \<Rightarrow> ('k \<times> 'v list) list" where
  "append_at k v [] = [(k, [v])]"
| "append_at k v ((k', vs) # m) = (if k = k' then (k', vs @ [v]) # m else (k', vs) # append_at k v m)"

fun kv_partition_map :: "(string \<times> Operation list) list \<Rightarrow> Operation list \<Rightarrow> (string \<times> Operation list) list" where
  "kv_partition_map m [] = m"
| "kv_partition_map m (v # vs) = kv_partition_map (append_at (ki_Key (op_Input v)) v m) vs"

definition kv_Partition :: "Operation list \<Rightarrow> Operation list list" where
  "kv_Partition history =
     (let m = kv_partition_map [] history; ks = sort (map fst m)
      in map (\<lambda>k. the (map_of m k)) ks)"

definition kv_Init :: KvState where
  "kv_Init = \<lparr>ks_Value = '''', ks_Version = 0\<rparr>"

text \<open>The next state of an unknown operation is the string \<open>"<invalid>"\<close>, here \<open>None\<close>.\<close>

definition kv_Step :: "KvState \<Rightarrow> KvInput \<Rightarrow> KvOutput \<Rightarrow> bool \<times> KvState option" where
  "kv_Step st inp out =
     (if ki_Op inp = 0 then (ko_Value out = ks_Value st, Some st)
      else if ki_Op inp = 1 then
        (if ks_Version st = ki_Version inp
         then (ko_Err out = ''OK'' \<or> ko_Err out = ''ErrMaybe'',
               Some \<lparr>ks_Value = ki_Value inp, ks_Version = ks_Version st + 1\<rparr>)
         else (ko_Err out = ''ErrVersion'' \<or> ko_Err out = ''ErrMaybe'', Some st))
      else (False, None))"

text \<open>\<open>quoted s\<close> is \<open>s\<close> between apostrophes; \<open>itoa (unat v)\<close> is \<open>%d\<close>.\<close>

definition quoted :: "string \<Rightarrow> string" where
  "quoted s = [char_of (39 :: nat)] @ s @ [char_of (39 :: nat)]"

definition DescribeOperation :: "KvInput \<Rightarrow> KvOutput \<Rightarrow> string" where
  "DescribeOperation inp out =
     (if ki_Op inp = 0
      then ''get('' @ quoted (ki_Key inp) @ '') -> ('' @ quoted (ko_Value out) @ '', '' @ quoted (itoa (unat (ko_Version out))) @ '', '' @ quoted (ko_Err out) @ '')''
      else if ki_Op inp = 1
      then ''put('' @ quoted (ki_Key inp) @ '', '' @ quoted (ki_Value inp) @ '', '' @ quoted (itoa (unat (ki_Version inp))) @ '') -> ('' @ quoted (ko_Err out) @ '')''
      else ''<invalid>'')"

text \<open>A sequential history is legal when every step accepts its output.\<close>

fun kv_legal :: "KvState \<Rightarrow> (KvInput \<times> KvOutput) list \<Rightarrow> bool" where
  "kv_legal st [] = True"
| "kv_legal st ((inp, out) # h) =
     (case kv_Step st inp out of
        (True, Some st') \<Rightarrow> kv_legal st' h
      | _ \<Rightarrow> False)"

section \<open>Running the server\<close>

datatype request = RGet GetArgs | RPut PutArgs

fun req_key :: "request \<Rightarrow> string" where
  "req_key (RGet a) = ga_Key a"
| "req_key (RPut a) = pa_Key a"

text \<open>The input and output a client records for a request (as in \<open>kvtest1/porcupine.go\<close>).\<close>

definition get_input :: "GetArgs \<Rightarrow> KvInput" where
  "get_input a = \<lparr>ki_Op = 0, ki_Key = ga_Key a, ki_Value = '''', ki_Version = 0\<rparr>"

definition get_output :: "GetReply \<Rightarrow> KvOutput" where
  "get_output r = \<lparr>ko_Value = gr_Value r, ko_Version = gr_Version r, ko_Err = err_string (gr_Err r)\<rparr>"

definition put_input :: "PutArgs \<Rightarrow> KvInput" where
  "put_input a = \<lparr>ki_Op = 1, ki_Key = pa_Key a, ki_Value = pa_Value a, ki_Version = pa_Version a\<rparr>"

definition put_output :: "PutReply \<Rightarrow> KvOutput" where
  "put_output r = \<lparr>ko_Value = '''', ko_Version = 0, ko_Err = err_string (pr_Err r)\<rparr>"

fun serve :: "KVServer \<Rightarrow> request \<Rightarrow> KVServer \<times> KvInput \<times> KvOutput" where
  "serve kv (RGet a) = (kv, get_input a, get_output (kv_Get kv a zeroGetReply))"
| "serve kv (RPut a) = (let (kv', r) = kv_Put kv a zeroPutReply in (kv', put_input a, put_output r))"

fun serve_all :: "KVServer \<Rightarrow> request list \<Rightarrow> (KvInput \<times> KvOutput) list" where
  "serve_all kv [] = []"
| "serve_all kv (r # rs) = (let (kv', io) = serve kv r in io # serve_all kv' rs)"

text \<open>The put the model does not know: a missing key with a non-zero version.\<close>

fun nokey_put :: "KVServer \<Rightarrow> request \<Rightarrow> bool" where
  "nokey_put kv (RGet a) = False"
| "nokey_put kv (RPut a) = (kv_data kv (pa_Key a) = None \<and> pa_Version a \<noteq> 0)"

fun no_nokey :: "KVServer \<Rightarrow> request list \<Rightarrow> bool" where
  "no_nokey kv [] = True"
| "no_nokey kv (r # rs) = (\<not> nokey_put kv r \<and> no_nokey (fst (serve kv r)) rs)"

definition kv_abs :: "KVServer \<Rightarrow> string \<Rightarrow> KvState" where
  "kv_abs kv k = \<lparr>ks_Value = val_of kv k, ks_Version = ver_of kv k\<rparr>"

section \<open>Refinement lemmas\<close>

lemmas serve_defs = get_input_def get_output_def put_input_def put_output_def kv_Get_def kv_Put_def
  kv_abs_def val_of_def ver_of_def kv_Step_def

lemma serve_key: "serve kv r = (kv', inp, out) \<Longrightarrow> ki_Key inp = req_key r"
  by (cases r) (auto simp: serve_defs split: option.splits if_splits)

lemma serve_step:
  "serve kv r = (kv', inp, out) \<Longrightarrow> \<not> nokey_put kv r
    \<Longrightarrow> kv_Step (kv_abs kv (req_key r)) inp out = (True, Some (kv_abs kv' (req_key r)))"
  by (cases r) (auto simp: serve_defs split: option.splits if_splits)

lemma serve_frame:
  "serve kv r = (kv', inp, out) \<Longrightarrow> k \<noteq> req_key r \<Longrightarrow> kv_abs kv' k = kv_abs kv k"
  by (cases r) (auto simp: serve_defs split: option.splits if_splits)

lemma serve_all_legal:
  "no_nokey kv rs
    \<Longrightarrow> kv_legal (kv_abs kv k) (filter (\<lambda>io. ki_Key (fst io) = k) (serve_all kv rs))"
proof (induction rs arbitrary: kv)
  case (Cons r rs)
  obtain kv' inp out where s: "serve kv r = (kv', inp, out)" by (cases "serve kv r") auto
  have ih: "kv_legal (kv_abs kv' k) (filter (\<lambda>io. ki_Key (fst io) = k) (serve_all kv' rs))"
    using Cons.IH Cons.prems s by simp
  show ?case
  proof (cases "req_key r = k")
    case True
    then show ?thesis using ih s serve_key [OF s] serve_step [OF s] Cons.prems by auto
  next
    case False
    then show ?thesis using ih s serve_key [OF s] serve_frame [OF s, of k] by auto
  qed
qed simp

section \<open>Lemmas on the partition\<close>

abbreviation op_key :: "Operation \<Rightarrow> string" where
  "op_key v \<equiv> ki_Key (op_Input v)"

lemma map_of_append_at:
  "map_of (append_at k v m) k' =
     (if k' = k then Some ((case map_of m k of None \<Rightarrow> [] | Some vs \<Rightarrow> vs) @ [v]) else map_of m k')"
  by (induction m) auto

lemma keys_append_at: "fst ` set (append_at k v m) = insert k (fst ` set m)"
  by (induction k v m rule: append_at.induct) (simp_all add: insert_commute)

lemma distinct_append_at: "distinct (map fst m) \<Longrightarrow> distinct (map fst (append_at k v m))"
proof (induction m)
  case (Cons p m)
  then show ?case by (cases p) (simp add: keys_append_at)
qed simp

lemma kv_partition_map_lookup:
  "map_of (kv_partition_map m hist) k =
     (case map_of m k of
        Some vs \<Rightarrow> Some (vs @ filter (\<lambda>v. op_key v = k) hist)
      | None \<Rightarrow> if k \<in> op_key ` set hist then Some (filter (\<lambda>v. op_key v = k) hist) else None)"
  by (induction m hist rule: kv_partition_map.induct)
    (auto simp: map_of_append_at split: option.splits)

lemma kv_partition_map_keys:
  "fst ` set (kv_partition_map m hist) = fst ` set m \<union> op_key ` set hist"
  by (induction m hist rule: kv_partition_map.induct) (simp_all add: keys_append_at)

lemma kv_partition_map_distinct:
  "distinct (map fst m) \<Longrightarrow> distinct (map fst (kv_partition_map m hist))"
  by (induction m hist rule: kv_partition_map.induct) (auto intro: distinct_append_at)

lemma kv_Partition_eq:
  "kv_Partition hist = map (\<lambda>k. filter (\<lambda>v. op_key v = k) hist) (sorted_list_of_set (op_key ` set hist))"
proof -
  let ?m = "kv_partition_map [] hist"
  have d: "distinct (map fst ?m)" by (rule kv_partition_map_distinct) simp
  have k: "set (map fst ?m) = op_key ` set hist" using kv_partition_map_keys [of "[]" hist] by simp
  have "sort (map fst ?m) = sorted_list_of_set (op_key ` set hist)"
    using d k by (metis distinct_remdups_id sorted_list_of_set_sort_remdups)
  moreover have "the (map_of ?m x) = filter (\<lambda>v. op_key v = x) hist"
    if "x \<in> op_key ` set hist" for x
    using that kv_partition_map_lookup [of "[]" hist x] by simp
  ultimately show ?thesis by (simp add: kv_Partition_def Let_def)
qed

lemma mset_partition_keys:
  "finite K \<Longrightarrow> f ` set xs \<subseteq> K \<Longrightarrow> (\<Sum>k\<in>K. mset (filter (\<lambda>v. f v = k) xs)) = mset xs"
proof (induction xs)
  case (Cons x xs)
  have "(\<Sum>k\<in>K. mset (filter (\<lambda>v. f v = k) (x # xs)))
      = (\<Sum>k\<in>K. (if f x = k then {#x#} else {#}) + mset (filter (\<lambda>v. f v = k) xs))"
    by (rule sum.cong) auto
  also have "\<dots> = {#x#} + mset xs"
    using Cons by (simp add: sum.distrib sum.delta')
  finally show ?case by simp
qed simp

section \<open>Properties\<close>

text \<open>The server refines \<open>KvModel\<close>: started empty, any sequence of gets and puts without a put
  to a missing key at a non-zero version gives, for every key, a history that the model accepts
  step by step from its initial state.\<close>

theorem server_refines_KvModel:
  assumes "no_nokey MakeKVServer rs"
  shows "kv_legal kv_Init (filter (\<lambda>io. ki_Key (fst io) = k) (serve_all MakeKVServer rs))"
proof -
  have "kv_abs MakeKVServer k = kv_Init"
    by (simp add: kv_abs_def kv_Init_def MakeKVServer_def val_of_def ver_of_def)
  then show ?thesis using serve_all_legal [OF assms, of k] by simp
qed

theorem server_refines_KvModel_witness:
  "no_nokey MakeKVServer [RPut \<lparr>pa_Key = ''k'', pa_Value = ''x'', pa_Version = 0\<rparr>, RGet \<lparr>ga_Key = ''k''\<rparr>]
   \<and> kv_legal kv_Init (filter (\<lambda>io. ki_Key (fst io) = ''k'')
        (serve_all MakeKVServer [RPut \<lparr>pa_Key = ''k'', pa_Value = ''x'', pa_Version = 0\<rparr>, RGet \<lparr>ga_Key = ''k''\<rparr>]))"
proof -
  have h: "no_nokey MakeKVServer
      [RPut \<lparr>pa_Key = ''k'', pa_Value = ''x'', pa_Version = 0\<rparr>, RGet \<lparr>ga_Key = ''k''\<rparr>]"
    by (simp add: MakeKVServer_def)
  show ?thesis using h server_refines_KvModel [OF h, of "''k''"] by blast
qed

text \<open>The exception is real and exact: for a put to a missing key, the model rejects the
  server's answer if and only if the version is not 0 (the server says \<open>ErrNoKey\<close>, the model wants
  \<open>ErrVersion\<close> or \<open>ErrMaybe\<close>).\<close>

theorem KvModel_rejects_nokey_put:
  assumes "kv_data kv (pa_Key a) = None"
  shows "fst (kv_Step (kv_abs kv (pa_Key a)) (put_input a)
               (put_output (snd (kv_Put kv a zeroPutReply)))) \<longleftrightarrow> pa_Version a = 0"
  using assms by (auto simp: serve_defs)

theorem KvModel_rejects_nokey_put_witness:
  "kv_data MakeKVServer ''k'' = None
   \<and> \<not> fst (kv_Step (kv_abs MakeKVServer ''k'')
              (put_input \<lparr>pa_Key = ''k'', pa_Value = ''x'', pa_Version = 1\<rparr>)
              (put_output (snd (kv_Put MakeKVServer \<lparr>pa_Key = ''k'', pa_Value = ''x'', pa_Version = 1\<rparr> zeroPutReply))))"
proof -
  let ?a = "\<lparr>pa_Key = ''k'', pa_Value = ''x'', pa_Version = 1\<rparr>"
  have h: "kv_data MakeKVServer (pa_Key ?a) = None" by (simp add: MakeKVServer_def)
  show ?thesis using h KvModel_rejects_nokey_put [OF h] by simp
qed

text \<open>\<open>Partition\<close> loses and invents nothing: the parts together are a permutation of the
  history, each part is the history restricted to one key in its original order, and the parts
  come in strictly increasing order of their keys.\<close>

theorem kv_Partition_correct:
  "mset (concat (kv_Partition hist)) = mset hist
   \<and> kv_Partition hist = map (\<lambda>k. filter (\<lambda>v. op_key v = k) hist) (sorted_list_of_set (op_key ` set hist))
   \<and> sorted_wrt (<) (map (\<lambda>p. op_key (hd p)) (kv_Partition hist))"
proof -
  let ?K = "sorted_list_of_set (op_key ` set hist)"
  have "mset (concat (kv_Partition hist)) = (\<Sum>k\<leftarrow>?K. mset (filter (\<lambda>v. op_key v = k) hist))"
    by (simp add: kv_Partition_eq mset_concat comp_def)
  also have "\<dots> = (\<Sum>k\<in>op_key ` set hist. mset (filter (\<lambda>v. op_key v = k) hist))"
    by (simp add: sum_list_distinct_conv_sum_set)
  also have "\<dots> = mset hist" by (rule mset_partition_keys) auto
  finally have m: "mset (concat (kv_Partition hist)) = mset hist" .
  have "op_key (hd (filter (\<lambda>v. op_key v = k) hist)) = k" if "k \<in> op_key ` set hist" for k
  proof -
    have "filter (\<lambda>v. op_key v = k) hist \<noteq> []" using that by (auto simp: filter_empty_conv)
    then have "hd (filter (\<lambda>v. op_key v = k) hist) \<in> set (filter (\<lambda>v. op_key v = k) hist)"
      by (rule hd_in_set)
    then show ?thesis by simp
  qed
  then have "map (\<lambda>p. op_key (hd p)) (kv_Partition hist) = ?K"
    unfolding kv_Partition_eq by (simp add: comp_def) (rule map_idI, simp)
  then show ?thesis using m kv_Partition_eq by simp
qed

end
