(* ===== verification/Persister.thy ===== *)
theory Persister
  imports Prelude
begin

text \<open>
  The persister of \<open>src/src/tester1/persister.go\<close>: the two byte strings a server saves. A nil slice
  and an empty one behave the same in every caller (they test the length), so both are the empty
  list; \<open>clone\<close> copies, which on values is the identity but is kept as the code has it.
\<close>

type_synonym bytes = "8 word list"

record Persister =
  p_raftstate :: bytes
  p_snapshot :: bytes

definition MakePersister :: Persister where
  "MakePersister = \<lparr>p_raftstate = [], p_snapshot = []\<rparr>"

text \<open>Go's \<open>copy(dst, src)\<close>: the shorter length is copied.\<close>

definition copy_slice :: "'a list \<Rightarrow> 'a list \<Rightarrow> 'a list" where
  "copy_slice dst src = take (length dst) src @ drop (length src) dst"

definition clone :: "bytes \<Rightarrow> bytes" where
  "clone orig = copy_slice (replicate (length orig) 0) orig"

definition Checkpoint :: "Persister \<Rightarrow> Persister" where
  "Checkpoint ps = MakePersister\<lparr>p_raftstate := clone (p_raftstate ps), p_snapshot := clone (p_snapshot ps)\<rparr>"

definition ReadRaftState :: "Persister \<Rightarrow> bytes" where
  "ReadRaftState ps = clone (p_raftstate ps)"

definition RaftStateSize :: "Persister \<Rightarrow> nat" where
  "RaftStateSize ps = length (p_raftstate ps)"

definition Save :: "bytes \<Rightarrow> bytes \<Rightarrow> Persister \<Rightarrow> Persister" where
  "Save raftstate snap ps = ps\<lparr>p_raftstate := clone raftstate, p_snapshot := clone snap\<rparr>"

definition ReadSnapshot :: "Persister \<Rightarrow> bytes" where
  "ReadSnapshot ps = clone (p_snapshot ps)"

definition SnapshotSize :: "Persister \<Rightarrow> nat" where
  "SnapshotSize ps = length (p_snapshot ps)"

lemma copy_slice_same_length [simp]: "length dst = length src \<Longrightarrow> copy_slice dst src = src"
  by (simp add: copy_slice_def)

lemma length_copy_slice [simp]: "length (copy_slice dst src) = length dst"
  by (simp add: copy_slice_def min_def)

lemma clone_id [simp]: "clone b = b"
  by (simp add: clone_def)

lemma read_saved [simp]:
  "ReadRaftState (Save r s ps) = r" "ReadSnapshot (Save r s ps) = s"
  by (simp_all add: ReadRaftState_def ReadSnapshot_def Save_def)

lemma Checkpoint_id [simp]: "Checkpoint ps = ps"
  by (simp add: Checkpoint_def MakePersister_def)

end
