(* ===== verification/Raft.thy ===== *)
theory Raft
  imports Persister
begin

text \<open>
  One Raft peer: the state and every operation of \<open>src/src/raft1/raft.go\<close>, with the message types of
  \<open>src/src/raftapi/raftapi.go\<close>. A function of this theory is one critical section of \<open>rf.mu\<close>; a Go
  function that releases the lock in the middle (\<open>InstallSnapshot\<close>, \<open>applier\<close>, \<open>batchPersister\<close>,
  \<open>replicator\<close>, \<open>attemptElection\<close>) is cut there into several. Index and slice panics are left
  results. Terms and log indices are unbounded (\<open>int\<close>); time is in nanoseconds. \<open>now\<close> is the reading
  of the clock and \<open>r\<close> the random number an operation draws.
\<close>

section \<open>Data\<close>

record 'c EntryData =
  ed_Term :: int
  ed_Command :: "'c option"

datatype role = CANDIDATE | FOLLOWER | LEADER

text \<open>The condition variables; a broadcast puts one into \<open>woken\<close>, the goroutine that wakes up takes
  it out.\<close>

datatype cond = ApplyCond | PersistCond | ReplCond nat

record 'c ApplyMsg =
  am_CommandValid :: bool
  am_Command :: "'c option"
  am_CommandIndex :: int
  am_SnapshotValid :: bool
  am_Snapshot :: bytes
  am_SnapshotTerm :: int
  am_SnapshotIndex :: int

text \<open>\<open>npeers\<close> is \<open>len(rf.peers)\<close>; \<open>applied\<close> is everything sent on \<open>rf.applyCh\<close> so far, oldest first. In
  \<open>lastSent\<close>, \<open>None\<close> is the zero time.\<close>

record 'c Raft =
  npeers :: nat
  me :: nat
  currentTerm :: int
  votedFor :: int
  rlog :: "'c EntryData list"
  dirty :: bool
  commitIndex :: int
  lastApplied :: int
  nextIndex :: "int list"
  matchIndex :: "int list"
  rstate :: role
  lastHeartBeat :: int
  electionTimeout :: int
  persistedLogLen :: nat
  lastSent :: "int option list"
  inFlight :: "bool list"
  sendSeq :: "int list"
  snapshot :: bytes
  snapshotIndex :: int
  snapshotTerm :: int
  applied :: "'c ApplyMsg list"
  woken :: "cond set"

definition broadcast :: "cond \<Rightarrow> 'c Raft \<Rightarrow> 'c Raft" where
  "broadcast c rf = rf\<lparr>woken := insert c (woken rf)\<rparr>"

definition heartBeatInterval :: int where
  "heartBeatInterval = 100 * 1000000"

definition resetElection :: "int \<Rightarrow> int \<Rightarrow> 'c Raft \<Rightarrow> 'c Raft" where
  "resetElection now r rf =
     (let ms = 150 + (r mod 300)
      in rf\<lparr>lastHeartBeat := now, electionTimeout := ms * 1000000\<rparr>)"

definition GetState :: "'c Raft \<Rightarrow> int \<times> bool" where
  "GetState rf = (currentTerm rf, rstate rf = LEADER)"

definition relIdx :: "'c Raft \<Rightarrow> int \<Rightarrow> int" where
  "relIdx rf idx = idx - snapshotIndex rf"

definition absIdx :: "'c Raft \<Rightarrow> int \<Rightarrow> int" where
  "absIdx rf idx = idx + snapshotIndex rf"

abbreviation loglen :: "'c Raft \<Rightarrow> int" where
  "loglen rf \<equiv> int (length (rlog rf))"

section \<open>Persistent state\<close>

text \<open>The five values \<open>encodeState\<close> writes and \<open>readPersist\<close> reads, in their order. The gob encoding
  is a parameter: \<open>enc\<close> writes them, \<open>dec\<close> reads them back or fails.\<close>

record 'c pstate =
  ps_term :: int
  ps_votedFor :: int
  ps_log :: "'c EntryData list"
  ps_snapshotIndex :: int
  ps_snapshotTerm :: int

definition persistent :: "'c Raft \<Rightarrow> 'c pstate" where
  "persistent rf = \<lparr>ps_term = currentTerm rf, ps_votedFor = votedFor rf, ps_log = rlog rf,
     ps_snapshotIndex = snapshotIndex rf, ps_snapshotTerm = snapshotTerm rf\<rparr>"

definition encodeState :: "('c pstate \<Rightarrow> bytes) \<Rightarrow> 'c Raft \<Rightarrow> bytes" where
  "encodeState enc rf = enc (persistent rf)"

definition readPersist :: "(bytes \<Rightarrow> 'c pstate option) \<Rightarrow> bytes \<Rightarrow> 'c Raft \<Rightarrow> 'c Raft res" where
  "readPersist dec data rf =
     (if length data < 1 then Inr rf
      else case dec data of
        None \<Rightarrow> Inl (LogFatal ''Could not decode persisted data'')
      | Some p \<Rightarrow> Inr (rf\<lparr>currentTerm := ps_term p, votedFor := ps_votedFor p, rlog := ps_log p,
                         snapshotIndex := ps_snapshotIndex p, snapshotTerm := ps_snapshotTerm p\<rparr>))"

definition PersistBytes :: "Persister \<Rightarrow> nat" where
  "PersistBytes ps = RaftStateSize ps"

section \<open>Terms and commit index\<close>

definition stepDownToFollower :: "int \<Rightarrow> 'c Raft \<Rightarrow> 'c Raft" where
  "stepDownToFollower term rf =
     (if term > currentTerm rf then rf\<lparr>currentTerm := term, votedFor := -1, dirty := True\<rparr> else rf)
       \<lparr>rstate := FOLLOWER\<rparr>"

definition updateCommitIndex :: "'c Raft \<Rightarrow> 'c Raft res" where
  "updateCommitIndex rf =
     rbind (slice_set (copy_slice (replicate (npeers rf) 0) (matchIndex rf)) (int (me rf))
                      (absIdx rf (loglen rf) - 1)) (\<lambda>matches.
     rbind (slice_get (sort matches) (int (npeers rf div 2))) (\<lambda>majorityIndex.
     if majorityIndex > commitIndex rf \<and> majorityIndex > snapshotIndex rf then
       rbind (slice_get (rlog rf) (relIdx rf majorityIndex)) (\<lambda>e.
       if ed_Term e = currentTerm rf
       then Inr (broadcast ApplyCond (rf\<lparr>commitIndex := majorityIndex\<rparr>))
       else Inr rf)
     else Inr rf))"

section \<open>Snapshots\<close>

record InstallSnapshotArgs =
  is_Term :: int
  is_LeaderId :: int
  is_LastIncludedIndex :: int
  is_LastIncludedTerm :: int
  is_Data :: bytes

text \<open>\<open>InstallSnapshot\<close> up to the point where it hands the snapshot to the service with the lock
  released, and from there on. The reply carries the term read at the start.\<close>

definition InstallSnapshot_begin :: "'c Raft \<Rightarrow> InstallSnapshotArgs \<Rightarrow> 'c Raft \<times> int \<times> bool" where
  "InstallSnapshot_begin rf args =
     (if is_Term args < currentTerm rf then (rf, currentTerm rf, False)
      else if snapshotIndex rf \<ge> is_LastIncludedIndex args then (rf, currentTerm rf, False)
      else (rf\<lparr>applied := applied rf @
               [\<lparr>am_CommandValid = False, am_Command = None, am_CommandIndex = 0,
                 am_SnapshotValid = True, am_Snapshot = is_Data args,
                 am_SnapshotTerm = is_LastIncludedTerm args,
                 am_SnapshotIndex = is_LastIncludedIndex args\<rparr>]\<rparr>, currentTerm rf, True))"

definition InstallSnapshot_end :: "'c Raft \<Rightarrow> InstallSnapshotArgs \<Rightarrow> 'c Raft res" where
  "InstallSnapshot_end rf args =
     (if snapshotIndex rf \<ge> is_LastIncludedIndex args then Inr rf
      else
        let oldRel = is_LastIncludedIndex args - snapshotIndex rf in
        rbind (if oldRel < loglen rf
               then rbind (slice_get (rlog rf) oldRel) (\<lambda>e.
                      if ed_Term e = is_LastIncludedTerm args then slice_from (rlog rf) oldRel
                      else Inr [\<lparr>ed_Term = is_LastIncludedTerm args, ed_Command = None\<rparr>])
               else Inr [\<lparr>ed_Term = is_LastIncludedTerm args, ed_Command = None\<rparr>]) (\<lambda>newLog.
        Inr (broadcast PersistCond
          (rf\<lparr>rlog := newLog, snapshot := is_Data args,
              snapshotIndex := is_LastIncludedIndex args,
              snapshotTerm := is_LastIncludedTerm args,
              commitIndex := (if commitIndex rf < is_LastIncludedIndex args
                              then is_LastIncludedIndex args else commitIndex rf),
              lastApplied := (if lastApplied rf < is_LastIncludedIndex args
                              then is_LastIncludedIndex args else lastApplied rf),
              dirty := True\<rparr>))))"

text \<open>The whole handler when nothing else runs while the lock is released.\<close>

definition InstallSnapshot :: "'c Raft \<Rightarrow> InstallSnapshotArgs \<Rightarrow> ('c Raft \<times> int) res" where
  "InstallSnapshot rf args =
     (case InstallSnapshot_begin rf args of
        (rf', t, False) \<Rightarrow> Inr (rf', t)
      | (rf', t, True) \<Rightarrow> rbind (InstallSnapshot_end rf' args) (\<lambda>rf''. Inr (rf'', t)))"

definition Snapshot :: "int \<Rightarrow> bytes \<Rightarrow> 'c Raft \<Rightarrow> 'c Raft res" where
  "Snapshot index data rf =
     (let relIndex = relIdx rf index in
      if relIndex \<le> 0 \<or> relIndex \<ge> loglen rf then Inr rf
      else rbind (slice_get (rlog rf) relIndex) (\<lambda>e.
           rbind (slice_from (rlog rf) relIndex) (\<lambda>newLog.
           Inr (broadcast PersistCond
             (rf\<lparr>snapshot := data, snapshotIndex := index, snapshotTerm := ed_Term e,
                 rlog := newLog, dirty := True\<rparr>)))))"

section \<open>Votes\<close>

record RequestVoteArgs =
  rv_Term :: int
  rv_CandidateId :: int
  rv_LastLogIndex :: int
  rv_LastLogTerm :: int

record RequestVoteReply =
  vr_Term :: int
  vr_VoteGranted :: bool

definition RequestVote :: "int \<Rightarrow> int \<Rightarrow> 'c Raft \<Rightarrow> RequestVoteArgs \<Rightarrow> ('c Raft \<times> RequestVoteReply) res" where
  "RequestVote now r rf args =
     (if rv_Term args < currentTerm rf
      then Inr (rf, \<lparr>vr_Term = currentTerm rf, vr_VoteGranted = False\<rparr>)
      else
        let rf1 = (if rv_Term args > currentTerm rf then stepDownToFollower (rv_Term args) rf else rf);
            lastIndex = absIdx rf1 (loglen rf1 - 1)
        in rbind (slice_get (rlog rf1) (loglen rf1 - 1)) (\<lambda>e.
           let lastTerm = ed_Term e;
               uptoDate = (rv_LastLogTerm args > lastTerm
                           \<or> rv_LastLogTerm args = lastTerm \<and> rv_LastLogIndex args \<ge> lastIndex)
           in if (votedFor rf1 = -1 \<or> votedFor rf1 = rv_CandidateId args) \<and> uptoDate
              then Inr (broadcast PersistCond (resetElection now r
                          (rf1\<lparr>votedFor := rv_CandidateId args, dirty := True\<rparr>)),
                        \<lparr>vr_Term = currentTerm rf1, vr_VoteGranted = True\<rparr>)
              else Inr (broadcast PersistCond rf1,
                        \<lparr>vr_Term = currentTerm rf1, vr_VoteGranted = False\<rparr>)))"

section \<open>Appending entries\<close>

record 'c AppendEntriesArgs =
  ae_Term :: int
  ae_LeaderId :: int
  ae_PrevLogIndex :: int
  ae_PrevLogTerm :: int
  ae_Entries :: "'c EntryData list"
  ae_LeaderCommit :: int

record AppendEntriesReply =
  ar_Term :: int
  ar_Success :: bool
  ar_ConflictingTerm :: int
  ar_ConflictingIndex :: int
  ar_ConflictingLogLen :: int

text \<open>\<open>for n > 0 && rf.log[n-1].Term == conflictingTerm { n-- }\<close>\<close>

fun conflict_scan :: "'c EntryData list \<Rightarrow> int \<Rightarrow> nat \<Rightarrow> nat" where
  "conflict_scan lg t 0 = 0"
| "conflict_scan lg t (Suc n) = (if ed_Term (lg ! n) = t then conflict_scan lg t n else Suc n)"

text \<open>The loop over \<open>args.Entries\<close>: \<open>idx\<close> is the position in the log of the next entry. The second
  component says whether the log was changed (the loop then breaks).\<close>

fun merge_entries :: "'c EntryData list \<Rightarrow> nat \<Rightarrow> 'c EntryData list \<Rightarrow> 'c EntryData list \<times> bool" where
  "merge_entries lg idx [] = (lg, False)"
| "merge_entries lg idx (e # es) =
     (if idx < length lg then
        (if ed_Term (lg ! idx) \<noteq> ed_Term e then (take idx lg @ e # es, True)
         else merge_entries lg (Suc idx) es)
      else (lg @ e # es, True))"

text \<open>The arguments after a request that starts below the snapshot was cut to start at it; \<open>None\<close> when
  the snapshot covers all of its entries.\<close>

definition trim_args :: "'c Raft \<Rightarrow> 'c AppendEntriesArgs \<Rightarrow> 'c AppendEntriesArgs option" where
  "trim_args rf args =
     (if ae_PrevLogIndex args < snapshotIndex rf then
        let skip = snapshotIndex rf - ae_PrevLogIndex args in
        if skip > int (length (ae_Entries args)) then None
        else Some \<lparr>ae_Term = ae_Term args, ae_LeaderId = ae_LeaderId args,
                   ae_PrevLogIndex = snapshotIndex rf, ae_PrevLogTerm = snapshotTerm rf,
                   ae_Entries = drop (nat skip) (ae_Entries args),
                   ae_LeaderCommit = ae_LeaderCommit args\<rparr>
      else Some args)"

text \<open>From the consistency check on, for trimmed arguments.\<close>

definition append_checked :: "'c Raft \<Rightarrow> 'c AppendEntriesArgs \<Rightarrow> AppendEntriesReply
    \<Rightarrow> ('c Raft \<times> AppendEntriesReply) res" where
  "append_checked rf args rep =
     (if ae_PrevLogIndex args \<ge> absIdx rf (loglen rf)
      then Inr (rf, rep\<lparr>ar_ConflictingLogLen := absIdx rf (loglen rf)\<rparr>)
      else rbind (slice_get (rlog rf) (relIdx rf (ae_PrevLogIndex args))) (\<lambda>e.
        if ed_Term e \<noteq> ae_PrevLogTerm args then
          let conflictingTerm = ed_Term e;
              n = conflict_scan (rlog rf) conflictingTerm (nat (relIdx rf (ae_PrevLogIndex args)))
          in Inr (rf, rep\<lparr>ar_ConflictingTerm := conflictingTerm,
                          ar_ConflictingIndex := absIdx rf (int n)\<rparr>)
        else
          let (lg, changed) = merge_entries (rlog rf)
                (Suc (nat (relIdx rf (ae_PrevLogIndex args)))) (ae_Entries args);
              rf1 = rf\<lparr>rlog := lg, dirty := (dirty rf \<or> changed)\<rparr>;
              newCommit = min (ae_LeaderCommit args)
                              (ae_PrevLogIndex args + int (length (ae_Entries args)));
              rf2 = (if ae_LeaderCommit args > commitIndex rf1 \<and> newCommit > commitIndex rf1
                     then broadcast ApplyCond (rf1\<lparr>commitIndex := newCommit\<rparr>) else rf1)
          in Inr (broadcast PersistCond rf2, rep\<lparr>ar_Success := True\<rparr>)))"

definition AppendEntries :: "int \<Rightarrow> int \<Rightarrow> 'c Raft \<Rightarrow> 'c AppendEntriesArgs \<Rightarrow> ('c Raft \<times> AppendEntriesReply) res" where
  "AppendEntries now r rf args =
     (let rep = \<lparr>ar_Term = 0, ar_Success = False, ar_ConflictingTerm = -1,
                 ar_ConflictingIndex = -1, ar_ConflictingLogLen = -1\<rparr> in
      if ae_Term args < currentTerm rf then Inr (rf, rep\<lparr>ar_Term := currentTerm rf\<rparr>)
      else
        let rf1 = (if ae_Term args > currentTerm rf \<or> rstate rf = CANDIDATE
                   then stepDownToFollower (ae_Term args) rf else rf);
            rep1 = rep\<lparr>ar_Term := currentTerm rf1\<rparr>;
            rf2 = resetElection now r rf1
        in case trim_args rf2 args of
             None \<Rightarrow> Inr (rf2, rep1\<lparr>ar_Success := True\<rparr>)
           | Some args' \<Rightarrow> append_checked rf2 args' rep1)"

section \<open>Replication by the leader\<close>

text \<open>\<open>for idx := len(rf.log) - 1; idx > 0; idx--\<close>: the last position above 0 with the term, or -1.\<close>

fun last_of_term :: "'c EntryData list \<Rightarrow> int \<Rightarrow> nat \<Rightarrow> int" where
  "last_of_term lg t 0 = -1"
| "last_of_term lg t (Suc n) = (if ed_Term (lg ! Suc n) = t then int (Suc n) else last_of_term lg t n)"

text \<open>The branch of \<open>handleAppendEntriesResponse\<close> for a success, the next index a conflict asks for, and
  the branch for a conflict.\<close>

definition handle_success :: "nat \<Rightarrow> 'c AppendEntriesArgs \<Rightarrow> 'c Raft \<Rightarrow> 'c Raft res" where
  "handle_success server args rf =
     (let match = ae_PrevLogIndex args + int (length (ae_Entries args)) in
      rbind (slice_get (matchIndex rf) (int server)) (\<lambda>old.
      rbind (if match > old
             then updateCommitIndex (rf\<lparr>matchIndex := (matchIndex rf)[server := match]\<rparr>)
             else Inr rf) (\<lambda>rf1.
      rbind (slice_get (nextIndex rf1) (int server)) (\<lambda>nx.
      rbind (slice_get (matchIndex rf1) (int server)) (\<lambda>mt.
      Inr (rf1\<lparr>nextIndex := (nextIndex rf1)[server := max nx (mt + 1)]\<rparr>))))))"

definition backoff :: "'c Raft \<Rightarrow> AppendEntriesReply \<Rightarrow> int" where
  "backoff rf reply =
     (if ar_ConflictingLogLen reply \<noteq> -1 then ar_ConflictingLogLen reply
      else let n = last_of_term (rlog rf) (ar_ConflictingTerm reply) (length (rlog rf) - 1)
           in if n = -1 then ar_ConflictingIndex reply else absIdx rf n + 1)"

definition handle_conflict :: "nat \<Rightarrow> 'c AppendEntriesArgs \<Rightarrow> AppendEntriesReply \<Rightarrow> 'c Raft \<Rightarrow> 'c Raft res" where
  "handle_conflict server args reply rf =
     rbind (slice_get (nextIndex rf) (int server)) (\<lambda>nx.
     if ae_PrevLogIndex args + 1 \<noteq> nx then Inr rf
     else rbind (slice_get (matchIndex rf) (int server)) (\<lambda>mt.
          Inr (rf\<lparr>nextIndex := (nextIndex rf)[server := max (max (backoff rf reply) (mt + 1)) 1]\<rparr>)))"

definition handleAppendEntriesResponse :: "int \<Rightarrow> int \<Rightarrow> nat \<Rightarrow> 'c AppendEntriesArgs \<Rightarrow> AppendEntriesReply
    \<Rightarrow> 'c Raft \<Rightarrow> 'c Raft res" where
  "handleAppendEntriesResponse now r server args reply rf =
     (if ar_Term reply > currentTerm rf
      then Inr (resetElection now r (stepDownToFollower (ar_Term reply) rf))
      else if ar_Success reply then handle_success server args rf
      else handle_conflict server args reply rf)"

text \<open>\<open>time.Since\<close> of the zero time is the largest duration.\<close>

definition since :: "int \<Rightarrow> int option \<Rightarrow> int" where
  "since now t = (case t of None \<Rightarrow> 2 ^ 63 - 1 | Some u \<Rightarrow> now - u)"

definition shouldSend :: "int \<Rightarrow> nat \<Rightarrow> 'c Raft \<Rightarrow> bool res" where
  "shouldSend now server rf =
     (if rstate rf \<noteq> LEADER then Inr False
      else rbind (slice_get (lastSent rf) (int server)) (\<lambda>t.
        if since now t \<ge> heartBeatInterval then Inr True
        else rbind (slice_get (nextIndex rf) (int server)) (\<lambda>nx.
             rbind (slice_get (inFlight rf) (int server)) (\<lambda>fl.
             Inr (nx < absIdx rf (loglen rf) \<and> \<not> fl)))))"

text \<open>What happens when the call started by \<open>sendAndHandle\<close> returns: \<open>None\<close> is a failed call.\<close>

definition sendAndHandle :: "int \<Rightarrow> int \<Rightarrow> nat \<Rightarrow> 'c AppendEntriesArgs \<Rightarrow> int \<Rightarrow> AppendEntriesReply option
    \<Rightarrow> 'c Raft \<Rightarrow> 'c Raft res" where
  "sendAndHandle now r server args sq result rf =
     rbind (slice_get (sendSeq rf) (int server)) (\<lambda>cur.
     let rf1 = (if sq = cur then rf\<lparr>inFlight := (inFlight rf)[server := False]\<rparr> else rf) in
     case result of
       None \<Rightarrow> Inr rf1
     | Some reply \<Rightarrow>
         if rstate rf1 \<noteq> LEADER \<or> currentTerm rf1 \<noteq> ae_Term args then Inr rf1
         else rbind (handleAppendEntriesResponse now r server args reply rf1) (\<lambda>rf2.
              Inr (broadcast PersistCond (broadcast (ReplCond server) rf2))))"

datatype 'c send = SendSnapshot InstallSnapshotArgs | SendAppend "'c AppendEntriesArgs" int

text \<open>One pass of the loop of \<open>replicator\<close> up to the send: \<open>None\<close> when it waits.\<close>

definition replicator_send :: "int \<Rightarrow> nat \<Rightarrow> 'c Raft \<Rightarrow> ('c Raft \<times> 'c send option) res" where
  "replicator_send now server rf =
     rbind (shouldSend now server rf) (\<lambda>go.
     if \<not> go then Inr (rf, None)
     else rbind (slice_get (nextIndex rf) (int server)) (\<lambda>nx.
       if nx \<le> snapshotIndex rf then
         Inr (rf\<lparr>lastSent := (lastSent rf)[server := Some now]\<rparr>,
              Some (SendSnapshot \<lparr>is_Term = currentTerm rf, is_LeaderId = int (me rf),
                is_LastIncludedIndex = snapshotIndex rf, is_LastIncludedTerm = snapshotTerm rf,
                is_Data = snapshot rf\<rparr>))
       else
         let prev = nx - 1 in
         rbind (slice_get (inFlight rf) (int server)) (\<lambda>fl.
         rbind (if \<not> fl then slice_from (rlog rf) (relIdx rf prev + 1) else Inr []) (\<lambda>entries.
         rbind (slice_get (rlog rf) (relIdx rf prev)) (\<lambda>e.
         rbind (slice_get (sendSeq rf) (int server)) (\<lambda>sq.
         Inr (rf\<lparr>lastSent := (lastSent rf)[server := Some now],
                 inFlight := (inFlight rf)[server := True],
                 sendSeq := (sendSeq rf)[server := sq + 1]\<rparr>,
              Some (SendAppend \<lparr>ae_Term = currentTerm rf, ae_LeaderId = int (me rf),
                ae_PrevLogIndex = prev, ae_PrevLogTerm = ed_Term e, ae_Entries = entries,
                ae_LeaderCommit = commitIndex rf\<rparr> (sq + 1)))))))))"

text \<open>The rest of the pass after an \<open>InstallSnapshot\<close> call: its reply term, or \<open>None\<close> for a failed
  call.\<close>

definition replicator_snapshot_done :: "int \<Rightarrow> int \<Rightarrow> nat \<Rightarrow> InstallSnapshotArgs \<Rightarrow> int option
    \<Rightarrow> 'c Raft \<Rightarrow> 'c Raft res" where
  "replicator_snapshot_done now r server args result rf =
     (case result of
        None \<Rightarrow> Inr rf
      | Some rterm \<Rightarrow>
          if rstate rf = LEADER \<and> currentTerm rf = is_Term args then
            (if rterm > currentTerm rf
             then Inr (broadcast PersistCond (resetElection now r (stepDownToFollower rterm rf)))
             else rbind (slice_get (nextIndex rf) (int server)) (\<lambda>nx.
                  rbind (slice_get (matchIndex rf) (int server)) (\<lambda>mt.
                  Inr (rf\<lparr>nextIndex := (nextIndex rf)[server := max nx (snapshotIndex rf + 1)],
                          matchIndex := (matchIndex rf)[server := max mt (snapshotIndex rf)]\<rparr>))))
          else Inr rf)"

section \<open>Applying committed entries\<close>

text \<open>\<open>applier\<close>: take the batch (index of the first entry, index of the last, entries) under the lock,
  deliver it without the lock one message at a time, then advance \<open>lastApplied\<close>. A negative length
  in \<open>make\<close> panics.\<close>

definition applier_take :: "'c Raft \<Rightarrow> (int \<times> int \<times> 'c EntryData list) option res" where
  "applier_take rf =
     (if lastApplied rf \<ge> commitIndex rf then Inr None
      else
        let lo0 = lastApplied rf + 1;
            lo = (if lo0 \<le> snapshotIndex rf then snapshotIndex rf + 1 else lo0);
            hi = commitIndex rf
        in if hi - lo + 1 < 0 then Inl SliceBounds
           else rbind (slice_range (rlog rf) (relIdx rf lo) (relIdx rf hi + 1)) (\<lambda>es.
                Inr (Some (lo, hi, copy_slice (replicate (nat (hi - lo + 1)) \<lparr>ed_Term = 0, ed_Command = None\<rparr>) es))))"

definition command_msg :: "int \<Rightarrow> 'c EntryData \<Rightarrow> 'c ApplyMsg" where
  "command_msg idx e = \<lparr>am_CommandValid = True, am_Command = ed_Command e, am_CommandIndex = idx,
     am_SnapshotValid = False, am_Snapshot = [], am_SnapshotTerm = 0, am_SnapshotIndex = 0\<rparr>"

definition applier_send :: "int \<Rightarrow> 'c EntryData \<Rightarrow> 'c Raft \<Rightarrow> 'c Raft" where
  "applier_send idx e rf = rf\<lparr>applied := applied rf @ [command_msg idx e]\<rparr>"

fun applier_deliver :: "int \<Rightarrow> 'c EntryData list \<Rightarrow> 'c Raft \<Rightarrow> 'c Raft" where
  "applier_deliver idx [] rf = rf"
| "applier_deliver idx (e # es) rf = applier_deliver (idx + 1) es (applier_send idx e rf)"

definition applier_finish :: "int \<Rightarrow> 'c Raft \<Rightarrow> 'c Raft" where
  "applier_finish hi rf = (if lastApplied rf < hi then rf\<lparr>lastApplied := hi\<rparr> else rf)"

text \<open>One pass of the loop when nothing else runs in between.\<close>

definition applier_pass :: "'c Raft \<Rightarrow> 'c Raft res" where
  "applier_pass rf =
     rbind (applier_take rf) (\<lambda>b. case b of
       None \<Rightarrow> Inr rf
     | Some (lo, hi, es) \<Rightarrow> Inr (applier_finish hi (applier_deliver lo es rf)))"

section \<open>Elections\<close>

definition startElectionState :: "int \<Rightarrow> int \<Rightarrow> 'c Raft \<Rightarrow> 'c Raft" where
  "startElectionState now r rf =
     resetElection now r (rf\<lparr>rstate := CANDIDATE, currentTerm := currentTerm rf + 1,
       votedFor := int (me rf), dirty := True\<rparr>)"

text \<open>\<open>attemptElection\<close> up to the requests: the arguments every goroutine sends, or \<open>None\<close> when no
  election starts. The vote count starts at 1.\<close>

definition attemptElection :: "int \<Rightarrow> int \<Rightarrow> 'c Raft \<Rightarrow> ('c Raft \<times> RequestVoteArgs option) res" where
  "attemptElection now r rf =
     (if rstate rf = LEADER \<or> now - lastHeartBeat rf \<le> electionTimeout rf then Inr (rf, None)
      else
        let rf1 = startElectionState now r rf in
        rbind (slice_get (rlog rf1) (loglen rf1 - 1)) (\<lambda>e.
        Inr (broadcast PersistCond rf1,
             Some \<lparr>rv_Term = currentTerm rf1, rv_CandidateId = int (me rf1),
                   rv_LastLogIndex = absIdx rf1 (loglen rf1) - 1, rv_LastLogTerm = ed_Term e\<rparr>)))"

definition reset_peer :: "nat \<Rightarrow> 'c Raft \<Rightarrow> 'c Raft" where
  "reset_peer i rf = broadcast (ReplCond i)
     (rf\<lparr>nextIndex := (nextIndex rf)[i := absIdx rf (loglen rf)],
         matchIndex := (matchIndex rf)[i := 0],
         lastSent := (lastSent rf)[i := None],
         inFlight := (inFlight rf)[i := False]\<rparr>)"

fun reset_peers :: "nat list \<Rightarrow> 'c Raft \<Rightarrow> 'c Raft" where
  "reset_peers [] rf = rf"
| "reset_peers (i # is) rf = reset_peers is (if i = me rf then rf else reset_peer i rf)"

definition becomeLeader :: "'c Raft \<Rightarrow> 'c Raft" where
  "becomeLeader rf =
     (let rf1 = reset_peers [0..<npeers rf] (rf\<lparr>rstate := LEADER\<rparr>)
      in rf1\<lparr>matchIndex := (matchIndex rf1)[me rf1 := absIdx rf1 (loglen rf1) - 1]\<rparr>)"

text \<open>A reply to a vote request: \<open>votes\<close> is the count the election's goroutines share.\<close>

definition handleVoteReply :: "int \<Rightarrow> int \<Rightarrow> RequestVoteArgs \<Rightarrow> RequestVoteReply \<Rightarrow> nat \<Rightarrow> 'c Raft \<Rightarrow> 'c Raft \<times> nat" where
  "handleVoteReply now r args reply votes rf =
     (if currentTerm rf \<noteq> rv_Term args \<or> rstate rf \<noteq> CANDIDATE then (rf, votes)
      else if vr_Term reply > currentTerm rf
      then (broadcast PersistCond (resetElection now r (stepDownToFollower (vr_Term reply) rf)), votes)
      else
        let votes1 = (if vr_VoteGranted reply then votes + 1 else votes)
        in (if votes1 > npeers rf div 2 then becomeLeader rf else rf, votes1))"

section \<open>Saving the persistent state\<close>

text \<open>\<open>batchPersister\<close>: under the lock it encodes the state; then, without the lock, it saves; then,
  under the lock again, it clears \<open>dirty\<close>.\<close>

definition batchPersister_begin :: "('c pstate \<Rightarrow> bytes) \<Rightarrow> 'c Raft \<Rightarrow> (nat \<times> bytes \<times> bytes) option" where
  "batchPersister_begin enc rf =
     (if dirty rf then Some (length (rlog rf), encodeState enc rf, snapshot rf) else None)"

fun wake_replicators :: "nat list \<Rightarrow> 'c Raft \<Rightarrow> 'c Raft" where
  "wake_replicators [] rf = rf"
| "wake_replicators (i # is) rf = wake_replicators is (if i \<noteq> me rf then broadcast (ReplCond i) rf else rf)"

definition batchPersister_end :: "nat \<Rightarrow> 'c Raft \<Rightarrow> 'c Raft" where
  "batchPersister_end persistingLen rf =
     wake_replicators [0..<npeers rf]
       (rf\<lparr>dirty := False,
           persistedLogLen := (if persistingLen > persistedLogLen rf then persistingLen else persistedLogLen rf)\<rparr>)"

section \<open>Service interface and start-up\<close>

definition Start :: "'c \<Rightarrow> 'c Raft \<Rightarrow> 'c Raft \<times> int \<times> int \<times> bool" where
  "Start command rf =
     (if rstate rf \<noteq> LEADER then (rf, absIdx rf (loglen rf), currentTerm rf, False)
      else
        let rf1 = rf\<lparr>rlog := rlog rf @ [\<lparr>ed_Term = currentTerm rf, ed_Command = Some command\<rparr>]\<rparr>;
            rf2 = broadcast PersistCond
                    (rf1\<lparr>matchIndex := (matchIndex rf1)[me rf1 := absIdx rf1 (loglen rf1) - 1], dirty := True\<rparr>);
            rf3 = wake_replicators [0..<npeers rf2] rf2
        in (rf3, absIdx rf3 (loglen rf3) - 1, currentTerm rf3, rstate rf3 = LEADER))"

fun wake_stale :: "int \<Rightarrow> nat list \<Rightarrow> 'c Raft \<Rightarrow> 'c Raft res" where
  "wake_stale now [] rf = Inr rf"
| "wake_stale now (i # is) rf =
     (if i = me rf then wake_stale now is rf
      else rbind (slice_get (lastSent rf) (int i)) (\<lambda>t.
           wake_stale now is (if since now t \<ge> heartBeatInterval then broadcast (ReplCond i) rf else rf)))"

text \<open>One round of \<open>ticker\<close>. The election runs in a critical section of its own, which repeats the
  test of the timeout.\<close>

definition ticker :: "int \<Rightarrow> int \<Rightarrow> 'c Raft \<Rightarrow> ('c Raft \<times> RequestVoteArgs option) res" where
  "ticker now r rf =
     (if rstate rf = LEADER
      then rbind (wake_stale now [0..<npeers rf] rf) (\<lambda>rf1. Inr (rf1, None))
      else if now - lastHeartBeat rf > electionTimeout rf then attemptElection now r rf
      else Inr (rf, None))"

definition Make :: "(bytes \<Rightarrow> 'c pstate option) \<Rightarrow> int \<Rightarrow> int \<Rightarrow> nat \<Rightarrow> nat \<Rightarrow> Persister \<Rightarrow> 'c Raft res" where
  "Make dec now r n self ps =
     (let rf0 = \<lparr>npeers = n, me = self, currentTerm = 0, votedFor = -1,
                 rlog = [\<lparr>ed_Term = 0, ed_Command = None\<rparr>], dirty = False,
                 commitIndex = 0, lastApplied = 0,
                 nextIndex = replicate n 1, matchIndex = replicate n 0, rstate = FOLLOWER,
                 lastHeartBeat = 0, electionTimeout = 0, persistedLogLen = 0,
                 lastSent = replicate n None, inFlight = replicate n False, sendSeq = replicate n 0,
                 snapshot = [], snapshotIndex = 0, snapshotTerm = 0, applied = [], woken = {}\<rparr>
      in rbind (readPersist dec (ReadRaftState ps) (resetElection now r rf0)) (\<lambda>rf1.
         let rf2 = rf1\<lparr>snapshot := ReadSnapshot ps,
                       lastApplied := (if lastApplied rf1 < snapshotIndex rf1 then snapshotIndex rf1 else lastApplied rf1),
                       commitIndex := (if commitIndex rf1 < snapshotIndex rf1 then snapshotIndex rf1 else commitIndex rf1)\<rparr>
         in Inr (rf2\<lparr>nextIndex := map (\<lambda>i. if i = self then nextIndex rf2 ! i else absIdx rf2 (loglen rf2)) [0..<n]\<rparr>)))"

end
