(* ===== verification/Raft_Node.thy ===== *)
theory Raft_Node
  imports Raft
begin

text \<open>
  A single Raft peer: the invariant of its state, that every operation of \<open>Raft\<close> keeps it and never
  panics, and what each operation does to the log, the term and the vote.
\<close>

section \<open>The invariant of a peer\<close>

definition lastIdx :: "'c Raft \<Rightarrow> int" where
  "lastIdx rf = absIdx rf (loglen rf) - 1"

text \<open>The arrays have one slot per peer, the log holds at least the entry the snapshot ends with, and
  the indices are ordered.\<close>

definition raft_wf :: "'c Raft \<Rightarrow> bool" where
  "raft_wf rf \<longleftrightarrow> me rf < npeers rf
     \<and> length (nextIndex rf) = npeers rf \<and> length (matchIndex rf) = npeers rf
     \<and> length (lastSent rf) = npeers rf \<and> length (inFlight rf) = npeers rf
     \<and> length (sendSeq rf) = npeers rf
     \<and> rlog rf \<noteq> [] \<and> ed_Term (hd (rlog rf)) = snapshotTerm rf
     \<and> 0 \<le> snapshotIndex rf \<and> snapshotIndex rf \<le> commitIndex rf \<and> lastApplied rf \<le> commitIndex rf"

definition commit_ok :: "'c Raft \<Rightarrow> bool" where
  "commit_ok rf \<longleftrightarrow> commitIndex rf \<le> lastIdx rf"

definition leader_ok :: "'c Raft \<Rightarrow> bool" where
  "leader_ok rf \<longleftrightarrow> (rstate rf = LEADER \<longrightarrow> (\<forall>i < npeers rf. i \<noteq> me rf \<longrightarrow>
     1 \<le> nextIndex rf ! i \<and> nextIndex rf ! i \<le> lastIdx rf + 1 \<and> matchIndex rf ! i \<le> lastIdx rf))"

definition peer_inv :: "'c Raft \<Rightarrow> bool" where
  "peer_inv rf \<longleftrightarrow> raft_wf rf \<and> commit_ok rf \<and> leader_ok rf"

lemmas idx_defs = relIdx_def absIdx_def lastIdx_def
lemmas inv_defs = peer_inv_def raft_wf_def commit_ok_def leader_ok_def

text \<open>The bookkeeping operations change none of the fields the invariant reads.\<close>

lemma broadcast_fields [simp]:
  "npeers (broadcast c rf) = npeers rf" "me (broadcast c rf) = me rf"
  "currentTerm (broadcast c rf) = currentTerm rf" "votedFor (broadcast c rf) = votedFor rf"
  "rlog (broadcast c rf) = rlog rf" "dirty (broadcast c rf) = dirty rf"
  "commitIndex (broadcast c rf) = commitIndex rf" "lastApplied (broadcast c rf) = lastApplied rf"
  "nextIndex (broadcast c rf) = nextIndex rf" "matchIndex (broadcast c rf) = matchIndex rf"
  "rstate (broadcast c rf) = rstate rf" "lastSent (broadcast c rf) = lastSent rf"
  "inFlight (broadcast c rf) = inFlight rf" "sendSeq (broadcast c rf) = sendSeq rf"
  "snapshot (broadcast c rf) = snapshot rf" "snapshotIndex (broadcast c rf) = snapshotIndex rf"
  "snapshotTerm (broadcast c rf) = snapshotTerm rf" "applied (broadcast c rf) = applied rf"
  "woken (broadcast c rf) = insert c (woken rf)"
  by (simp_all add: broadcast_def)

lemma resetElection_fields [simp]:
  "npeers (resetElection now r rf) = npeers rf" "me (resetElection now r rf) = me rf"
  "currentTerm (resetElection now r rf) = currentTerm rf" "votedFor (resetElection now r rf) = votedFor rf"
  "rlog (resetElection now r rf) = rlog rf" "dirty (resetElection now r rf) = dirty rf"
  "commitIndex (resetElection now r rf) = commitIndex rf" "lastApplied (resetElection now r rf) = lastApplied rf"
  "nextIndex (resetElection now r rf) = nextIndex rf" "matchIndex (resetElection now r rf) = matchIndex rf"
  "rstate (resetElection now r rf) = rstate rf" "lastSent (resetElection now r rf) = lastSent rf"
  "inFlight (resetElection now r rf) = inFlight rf" "sendSeq (resetElection now r rf) = sendSeq rf"
  "snapshot (resetElection now r rf) = snapshot rf" "snapshotIndex (resetElection now r rf) = snapshotIndex rf"
  "snapshotTerm (resetElection now r rf) = snapshotTerm rf" "applied (resetElection now r rf) = applied rf"
  "woken (resetElection now r rf) = woken rf"
  by (simp_all add: resetElection_def Let_def)

lemma stepDown_fields [simp]:
  "npeers (stepDownToFollower t rf) = npeers rf" "me (stepDownToFollower t rf) = me rf"
  "rlog (stepDownToFollower t rf) = rlog rf"
  "commitIndex (stepDownToFollower t rf) = commitIndex rf" "lastApplied (stepDownToFollower t rf) = lastApplied rf"
  "nextIndex (stepDownToFollower t rf) = nextIndex rf" "matchIndex (stepDownToFollower t rf) = matchIndex rf"
  "rstate (stepDownToFollower t rf) = FOLLOWER" "lastSent (stepDownToFollower t rf) = lastSent rf"
  "inFlight (stepDownToFollower t rf) = inFlight rf" "sendSeq (stepDownToFollower t rf) = sendSeq rf"
  "snapshot (stepDownToFollower t rf) = snapshot rf" "snapshotIndex (stepDownToFollower t rf) = snapshotIndex rf"
  "snapshotTerm (stepDownToFollower t rf) = snapshotTerm rf" "applied (stepDownToFollower t rf) = applied rf"
  "currentTerm (stepDownToFollower t rf) = max t (currentTerm rf)"
  "votedFor (stepDownToFollower t rf) = (if t > currentTerm rf then -1 else votedFor rf)"
  "woken (stepDownToFollower t rf) = woken rf"
  "dirty (stepDownToFollower t rf) = (dirty rf \<or> t > currentTerm rf)"
  by (simp_all add: stepDownToFollower_def)

lemma wake_replicators_fields [simp]:
  "npeers (wake_replicators is rf) = npeers rf" "me (wake_replicators is rf) = me rf"
  "currentTerm (wake_replicators is rf) = currentTerm rf" "votedFor (wake_replicators is rf) = votedFor rf"
  "rlog (wake_replicators is rf) = rlog rf" "dirty (wake_replicators is rf) = dirty rf"
  "commitIndex (wake_replicators is rf) = commitIndex rf" "lastApplied (wake_replicators is rf) = lastApplied rf"
  "nextIndex (wake_replicators is rf) = nextIndex rf" "matchIndex (wake_replicators is rf) = matchIndex rf"
  "rstate (wake_replicators is rf) = rstate rf" "lastSent (wake_replicators is rf) = lastSent rf"
  "inFlight (wake_replicators is rf) = inFlight rf" "sendSeq (wake_replicators is rf) = sendSeq rf"
  "snapshot (wake_replicators is rf) = snapshot rf" "snapshotIndex (wake_replicators is rf) = snapshotIndex rf"
  "snapshotTerm (wake_replicators is rf) = snapshotTerm rf" "applied (wake_replicators is rf) = applied rf"
  by (induction "is" rf rule: wake_replicators.induct) simp_all

lemma reset_peer_fields [simp]:
  "npeers (reset_peer i rf) = npeers rf" "me (reset_peer i rf) = me rf"
  "currentTerm (reset_peer i rf) = currentTerm rf" "votedFor (reset_peer i rf) = votedFor rf"
  "rlog (reset_peer i rf) = rlog rf" "dirty (reset_peer i rf) = dirty rf"
  "commitIndex (reset_peer i rf) = commitIndex rf" "lastApplied (reset_peer i rf) = lastApplied rf"
  "nextIndex (reset_peer i rf) = (nextIndex rf)[i := absIdx rf (loglen rf)]"
  "matchIndex (reset_peer i rf) = (matchIndex rf)[i := 0]"
  "lastSent (reset_peer i rf) = (lastSent rf)[i := None]"
  "inFlight (reset_peer i rf) = (inFlight rf)[i := False]"
  "rstate (reset_peer i rf) = rstate rf" "sendSeq (reset_peer i rf) = sendSeq rf"
  "snapshot (reset_peer i rf) = snapshot rf" "snapshotIndex (reset_peer i rf) = snapshotIndex rf"
  "snapshotTerm (reset_peer i rf) = snapshotTerm rf" "applied (reset_peer i rf) = applied rf"
  by (simp_all add: reset_peer_def)

lemma reset_peers_fields [simp]:
  "npeers (reset_peers is rf) = npeers rf" "me (reset_peers is rf) = me rf"
  "currentTerm (reset_peers is rf) = currentTerm rf" "votedFor (reset_peers is rf) = votedFor rf"
  "rlog (reset_peers is rf) = rlog rf" "dirty (reset_peers is rf) = dirty rf"
  "commitIndex (reset_peers is rf) = commitIndex rf" "lastApplied (reset_peers is rf) = lastApplied rf"
  "length (nextIndex (reset_peers is rf)) = length (nextIndex rf)"
  "length (matchIndex (reset_peers is rf)) = length (matchIndex rf)"
  "rstate (reset_peers is rf) = rstate rf"
  "length (lastSent (reset_peers is rf)) = length (lastSent rf)"
  "length (inFlight (reset_peers is rf)) = length (inFlight rf)"
  "sendSeq (reset_peers is rf) = sendSeq rf"
  "snapshot (reset_peers is rf) = snapshot rf" "snapshotIndex (reset_peers is rf) = snapshotIndex rf"
  "snapshotTerm (reset_peers is rf) = snapshotTerm rf" "applied (reset_peers is rf) = applied rf"
  by (induction "is" rf rule: reset_peers.induct) simp_all

lemma reset_peers_nextIndex:
  "i < length (nextIndex rf) \<Longrightarrow> nextIndex (reset_peers is rf) ! i =
     (if i \<in> set is \<and> i \<noteq> me rf then absIdx rf (loglen rf) else nextIndex rf ! i)"
proof (induction "is" arbitrary: rf)
  case (Cons j js)
  then show ?case by (cases "j = me rf") (auto simp: absIdx_def nth_list_update)
qed simp

lemma reset_peers_matchIndex:
  "i < length (matchIndex rf) \<Longrightarrow> matchIndex (reset_peers is rf) ! i =
     (if i \<in> set is \<and> i \<noteq> me rf then 0 else matchIndex rf ! i)"
proof (induction "is" arbitrary: rf)
  case (Cons j js)
  then show ?case by (cases "j = me rf") (auto simp: nth_list_update)
qed simp

lemma becomeLeader_fields [simp]:
  "npeers (becomeLeader rf) = npeers rf" "me (becomeLeader rf) = me rf"
  "currentTerm (becomeLeader rf) = currentTerm rf" "votedFor (becomeLeader rf) = votedFor rf"
  "rlog (becomeLeader rf) = rlog rf" "dirty (becomeLeader rf) = dirty rf"
  "commitIndex (becomeLeader rf) = commitIndex rf" "lastApplied (becomeLeader rf) = lastApplied rf"
  "rstate (becomeLeader rf) = LEADER" "snapshotIndex (becomeLeader rf) = snapshotIndex rf"
  "snapshotTerm (becomeLeader rf) = snapshotTerm rf" "applied (becomeLeader rf) = applied rf"
  "snapshot (becomeLeader rf) = snapshot rf"
  by (simp_all add: becomeLeader_def Let_def)

section \<open>The merge loop\<close>

text \<open>The loop over the entries of a request: either every entry is already in the log with its term
  and nothing changes, or the log is cut at the first difference and the rest of the entries
  follow.\<close>

lemma merge_entries_spec:
  assumes "merge_entries lg idx es = (lg', ch)" and "idx \<le> length lg"
  shows "(\<not> ch \<longrightarrow> lg' = lg \<and> idx + length es \<le> length lg
            \<and> (\<forall>k < length es. ed_Term (lg ! (idx + k)) = ed_Term (es ! k)))
       \<and> (ch \<longrightarrow> (\<exists>m < length es. lg' = take (idx + m) lg @ drop m es \<and> idx + m \<le> length lg
            \<and> (\<forall>k < m. ed_Term (lg ! (idx + k)) = ed_Term (es ! k))
            \<and> (idx + m < length lg \<longrightarrow> ed_Term (lg ! (idx + m)) \<noteq> ed_Term (es ! m))))"
  using assms
proof (induction lg idx es rule: merge_entries.induct)
  case (2 lg idx e es)
  show ?case
  proof (cases "idx < length lg \<and> ed_Term (lg ! idx) = ed_Term e")
    case True
    then have ih: "(\<not> ch \<longrightarrow> lg' = lg \<and> Suc idx + length es \<le> length lg
            \<and> (\<forall>k < length es. ed_Term (lg ! (Suc idx + k)) = ed_Term (es ! k)))
       \<and> (ch \<longrightarrow> (\<exists>m < length es. lg' = take (Suc idx + m) lg @ drop m es \<and> Suc idx + m \<le> length lg
            \<and> (\<forall>k < m. ed_Term (lg ! (Suc idx + k)) = ed_Term (es ! k))
            \<and> (Suc idx + m < length lg \<longrightarrow> ed_Term (lg ! (Suc idx + m)) \<noteq> ed_Term (es ! m))))"
      using "2.IH" "2.prems" by simp
    show ?thesis
    proof (cases ch)
      case True
      with ih obtain m where m: "m < length es" "lg' = take (Suc idx + m) lg @ drop m es"
        "Suc idx + m \<le> length lg" "\<forall>k < m. ed_Term (lg ! (Suc idx + k)) = ed_Term (es ! k)"
        "Suc idx + m < length lg \<longrightarrow> ed_Term (lg ! (Suc idx + m)) \<noteq> ed_Term (es ! m)" by auto
      have "\<forall>k < Suc m. ed_Term (lg ! (idx + k)) = ed_Term ((e # es) ! k)"
        using m(4) \<open>idx < length lg \<and> ed_Term (lg ! idx) = ed_Term e\<close> by (auto simp: less_Suc_eq_0_disj)
      with m True show ?thesis by (intro conjI impI exI [of _ "Suc m"]) auto
    next
      case False
      with ih \<open>idx < length lg \<and> ed_Term (lg ! idx) = ed_Term e\<close> show ?thesis
        by (auto simp: less_Suc_eq_0_disj)
    qed
  next
    case False
    with "2.prems" show ?thesis by (auto intro!: exI [of _ 0] split: if_splits)
  qed
qed auto

lemma merge_entries_prefix:
  assumes "merge_entries lg idx es = (lg', ch)" "idx \<le> length lg"
  shows "take idx lg' = take idx lg" and "idx + length es \<le> length lg'"
    and "\<And>k. k < length es \<Longrightarrow> ed_Term (lg' ! (idx + k)) = ed_Term (es ! k)"
proof -
  note sp = merge_entries_spec [OF assms]
  show "take idx lg' = take idx lg" using sp assms(2) by (cases ch) auto
  show "idx + length es \<le> length lg'" using sp by (cases ch) auto
  show "ed_Term (lg' ! (idx + k)) = ed_Term (es ! k)" if "k < length es" for k
  proof (cases ch)
    case True
    with sp obtain m where m: "m < length es" "lg' = take (idx + m) lg @ drop m es" "idx + m \<le> length lg"
      "\<forall>k < m. ed_Term (lg ! (idx + k)) = ed_Term (es ! k)" by auto
    show ?thesis
    proof (cases "k < m")
      case True
      then show ?thesis using m by (simp add: nth_append)
    next
      case False
      then show ?thesis using m that by (simp add: nth_append)
    qed
  next
    case False
    then show ?thesis using sp that by auto
  qed
qed

text \<open>A position both in the log and covered by entries that agree there survives.\<close>

lemma merge_entries_keeps:
  assumes "merge_entries lg idx es = (lg', ch)" "idx \<le> length lg" "p < length lg"
    and "\<And>q. idx \<le> q \<Longrightarrow> q \<le> p \<Longrightarrow> q < idx + length es \<Longrightarrow> ed_Term (lg ! q) = ed_Term (es ! (q - idx))"
  shows "p < length lg' \<and> lg' ! p = lg ! p"
proof (cases ch)
  case True
  with merge_entries_spec [OF assms(1,2)] obtain m where
    m: "m < length es" "lg' = take (idx + m) lg @ drop m es" "idx + m \<le> length lg"
      "idx + m < length lg \<longrightarrow> ed_Term (lg ! (idx + m)) \<noteq> ed_Term (es ! m)" by auto
  have "p < idx + m"
  proof (rule ccontr)
    assume "\<not> p < idx + m"
    then have "idx + m < length lg" and "ed_Term (lg ! (idx + m)) = ed_Term (es ! m)"
      using assms(3) assms(4) [of "idx + m"] m(1) by auto
    with m(4) show False by simp
  qed
  with m show ?thesis by (simp add: nth_append)
next
  case False
  with merge_entries_spec [OF assms(1,2)] assms(3) show ?thesis by auto
qed

lemma conflict_scan_spec:
  "conflict_scan lg t n \<le> n
   \<and> (\<forall>k. conflict_scan lg t n \<le> k \<longrightarrow> k < n \<longrightarrow> ed_Term (lg ! k) = t)
   \<and> (0 < conflict_scan lg t n \<longrightarrow> ed_Term (lg ! (conflict_scan lg t n - 1)) \<noteq> t)"
proof (induction n)
  case (Suc n)
  then show ?case by (auto simp: less_Suc_eq)
qed simp

lemma last_of_term_cases:
  "last_of_term lg t n = -1 \<and> (\<forall>k. 0 < k \<longrightarrow> k \<le> n \<longrightarrow> ed_Term (lg ! k) \<noteq> t)
   \<or> (\<exists>m. last_of_term lg t n = int m \<and> 0 < m \<and> m \<le> n \<and> ed_Term (lg ! m) = t
        \<and> (\<forall>k. m < k \<longrightarrow> k \<le> n \<longrightarrow> ed_Term (lg ! k) \<noteq> t))"
proof (induction n)
  case (Suc n)
  show ?case
  proof (cases "ed_Term (lg ! Suc n) = t")
    case True
    then show ?thesis by (intro disjI2 exI [of _ "Suc n"]) auto
  next
    case False
    then show ?thesis using Suc by (auto simp: le_Suc_eq)
  qed
qed auto

section \<open>Every operation keeps the invariant and does not panic\<close>

lemma idx_ok_last [simp]: "idx_ok xs (int (length xs) - 1) \<longleftrightarrow> xs \<noteq> []"
  by (cases xs) (simp_all add: idx_ok_def)

lemma peer_inv_not_leader:
  "raft_wf rf \<Longrightarrow> commit_ok rf \<Longrightarrow> rstate rf \<noteq> LEADER \<Longrightarrow> peer_inv rf"
  by (simp add: peer_inv_def leader_ok_def)

lemma stepDown_inv [inv_intros]: "peer_inv rf \<Longrightarrow> peer_inv (stepDownToFollower t rf)"
  by (simp add: inv_defs idx_defs)

lemma broadcast_inv [simp]: "peer_inv (broadcast c rf) = peer_inv rf"
  by (simp add: inv_defs idx_defs)

lemma resetElection_inv [simp]: "peer_inv (resetElection now r rf) = peer_inv rf"
  by (simp add: inv_defs idx_defs)

lemma wake_replicators_inv [simp]: "peer_inv (wake_replicators is rf) = peer_inv rf"
  by (simp add: inv_defs idx_defs)

lemma peer_inv_vote [simp]: "peer_inv (rf\<lparr>votedFor := v, dirty := d\<rparr>) = peer_inv rf"
  by (simp add: inv_defs idx_defs)

lemma peer_inv_dirty [simp]: "peer_inv (rf\<lparr>dirty := d, persistedLogLen := l\<rparr>) = peer_inv rf"
  by (simp add: inv_defs idx_defs)

lemma peer_inv_applied [simp]: "peer_inv (rf\<lparr>applied := a\<rparr>) = peer_inv rf"
  by (simp add: inv_defs idx_defs)

lemma peer_inv_log_nonempty: "peer_inv rf \<Longrightarrow> rlog rf \<noteq> []"
  by (simp add: inv_defs)

lemma RequestVote_inv:
  assumes "peer_inv rf"
  shows "\<exists>rf' rep. RequestVote now r rf args = Inr (rf', rep) \<and> peer_inv rf'"
  using assms peer_inv_log_nonempty [OF assms] stepDown_inv [OF assms]
  by (auto simp: RequestVote_def Let_def go_simps)

text \<open>What an \<open>AppendEntries\<close> request must not do for the committed prefix to stay in the log: differ
  in term from a committed entry.\<close>

definition respects_committed :: "'c Raft \<Rightarrow> 'c AppendEntriesArgs \<Rightarrow> bool" where
  "respects_committed rf args \<longleftrightarrow> (\<forall>k < length (ae_Entries args).
     let i = ae_PrevLogIndex args + 1 + int k in
     snapshotIndex rf < i \<longrightarrow> i \<le> commitIndex rf
       \<longrightarrow> ed_Term (rlog rf ! nat (relIdx rf i)) = ed_Term (ae_Entries args ! k))"

lemma respects_committedD:
  "respects_committed rf args \<Longrightarrow> k < length (ae_Entries args)
    \<Longrightarrow> snapshotIndex rf < ae_PrevLogIndex args + 1 + int k
    \<Longrightarrow> ae_PrevLogIndex args + 1 + int k \<le> commitIndex rf
    \<Longrightarrow> ed_Term (rlog rf ! nat (relIdx rf (ae_PrevLogIndex args + 1 + int k))) = ed_Term (ae_Entries args ! k)"
  by (auto simp: respects_committed_def Let_def)

lemma trim_args_Some:
  assumes "trim_args rf args = Some args'"
  shows "snapshotIndex rf \<le> ae_PrevLogIndex args'"
    and "ae_PrevLogIndex args' + int (length (ae_Entries args')) = ae_PrevLogIndex args + int (length (ae_Entries args))"
    and "ae_LeaderCommit args' = ae_LeaderCommit args"
    and "respects_committed rf args \<Longrightarrow> respects_committed rf args'"
proof -
  show "snapshotIndex rf \<le> ae_PrevLogIndex args'"
    using assms by (auto simp: trim_args_def Let_def split: if_splits)
  show "ae_PrevLogIndex args' + int (length (ae_Entries args')) = ae_PrevLogIndex args + int (length (ae_Entries args))"
    using assms by (auto simp: trim_args_def Let_def split: if_splits)
  show "ae_LeaderCommit args' = ae_LeaderCommit args"
    using assms by (auto simp: trim_args_def Let_def split: if_splits)
  assume rc: "respects_committed rf args"
  show "respects_committed rf args'"
  proof (cases "ae_PrevLogIndex args < snapshotIndex rf")
    case False
    with assms rc show ?thesis by (simp add: trim_args_def)
  next
    case True
    define skip where "skip = nat (snapshotIndex rf - ae_PrevLogIndex args)"
    have a: "ae_PrevLogIndex args' = snapshotIndex rf" "ae_Entries args' = drop skip (ae_Entries args)"
      using assms True by (auto simp: trim_args_def Let_def skip_def split: if_splits)
    have s: "ae_PrevLogIndex args + int skip = snapshotIndex rf" using True by (simp add: skip_def)
    show ?thesis unfolding respects_committed_def Let_def
    proof (intro allI impI)
      fix k assume k: "k < length (ae_Entries args')" "snapshotIndex rf < ae_PrevLogIndex args' + 1 + int k"
        "ae_PrevLogIndex args' + 1 + int k \<le> commitIndex rf"
      have e: "ae_PrevLogIndex args + 1 + int (skip + k) = ae_PrevLogIndex args' + 1 + int k"
        using s a by simp
      have "skip + k < length (ae_Entries args)" using k(1) a by simp
      from respects_committedD [OF rc this] k
      have "ed_Term (rlog rf ! nat (relIdx rf (ae_PrevLogIndex args' + 1 + int k))) = ed_Term (ae_Entries args ! (skip + k))"
        unfolding e by blast
      then show "ed_Term (rlog rf ! nat (relIdx rf (ae_PrevLogIndex args' + 1 + int k))) = ed_Term (ae_Entries args' ! k)"
        using a(2) \<open>skip + k < length (ae_Entries args)\<close> by simp
    qed
  qed
qed

text \<open>The merge keeps every committed position and makes room for all entries of the request.\<close>

lemma merge_keeps_committed:
  assumes inv: "raft_wf rf" "commit_ok rf" and rc: "respects_committed rf args"
    and prev: "snapshotIndex rf \<le> ae_PrevLogIndex args" "ae_PrevLogIndex args < absIdx rf (loglen rf)"
    and m: "merge_entries (rlog rf) (Suc (nat (relIdx rf (ae_PrevLogIndex args)))) (ae_Entries args) = (lg, ch)"
  shows "lg \<noteq> [] \<and> hd lg = hd (rlog rf)"
    and "commitIndex rf < int (length lg) + snapshotIndex rf"
    and "ae_PrevLogIndex args + int (length (ae_Entries args)) < int (length lg) + snapshotIndex rf"
    and "\<And>p. p \<le> nat (relIdx rf (commitIndex rf)) \<Longrightarrow> lg ! p = rlog rf ! p"
proof -
  define j where "j = nat (relIdx rf (ae_PrevLogIndex args))"
  have j: "int j = ae_PrevLogIndex args - snapshotIndex rf" "j < length (rlog rf)"
    using prev by (auto simp: j_def idx_defs)
  have m': "merge_entries (rlog rf) (Suc j) (ae_Entries args) = (lg, ch)" using m by (simp add: j_def)
  note pre = merge_entries_prefix [OF m', simplified]
  have t: "take (Suc j) lg = take (Suc j) (rlog rf)" using pre(1) j by simp
  then have "lg \<noteq> []" using j by (cases lg) auto
  moreover have "hd lg = hd (rlog rf)" using t calculation j by (cases lg; cases "rlog rf") auto
  ultimately show "lg \<noteq> [] \<and> hd lg = hd (rlog rf)" by simp
  show "ae_PrevLogIndex args + int (length (ae_Entries args)) < int (length lg) + snapshotIndex rf"
    using pre(2) j by simp
  have keep: "p < length lg \<and> lg ! p = rlog rf ! p" if "p \<le> nat (relIdx rf (commitIndex rf))" for p
  proof (rule merge_entries_keeps [OF m'])
    show "Suc j \<le> length (rlog rf)" using j by simp
    show "p < length (rlog rf)" using that inv by (auto simp: raft_wf_def commit_ok_def idx_defs)
    fix q assume q: "Suc j \<le> q" "q \<le> p" "q < Suc j + length (ae_Entries args)"
    have e: "ae_PrevLogIndex args + 1 + int (q - Suc j) = int q + snapshotIndex rf"
      using q(1) j by simp
    have "int q + snapshotIndex rf \<le> commitIndex rf"
      using q(2) that inv(1) by (auto simp: relIdx_def raft_wf_def)
    then show "ed_Term (rlog rf ! q) = ed_Term (ae_Entries args ! (q - Suc j))"
      using respects_committedD [OF rc, of "q - Suc j", unfolded e] q by (simp add: relIdx_def)
  qed
  show "\<And>p. p \<le> nat (relIdx rf (commitIndex rf)) \<Longrightarrow> lg ! p = rlog rf ! p" using keep by simp
  show "commitIndex rf < int (length lg) + snapshotIndex rf"
    using keep [of "nat (relIdx rf (commitIndex rf))"] inv(1) by (auto simp: relIdx_def raft_wf_def)
qed

lemma append_checked_inv:
  assumes inv: "raft_wf rf" "commit_ok rf" "rstate rf \<noteq> LEADER" and rc: "respects_committed rf args"
    and prev: "snapshotIndex rf \<le> ae_PrevLogIndex args"
  shows "\<exists>rf' rep'. append_checked rf args rep = Inr (rf', rep') \<and> peer_inv rf'"
proof (cases "ae_PrevLogIndex args < absIdx rf (loglen rf)")
  case False
  then show ?thesis using inv by (simp add: append_checked_def peer_inv_not_leader)
next
  case True
  obtain lg ch where m: "merge_entries (rlog rf) (Suc (nat (relIdx rf (ae_PrevLogIndex args)))) (ae_Entries args) = (lg, ch)"
    by (cases "merge_entries (rlog rf) (Suc (nat (relIdx rf (ae_PrevLogIndex args)))) (ae_Entries args)") auto
  note k = merge_keeps_committed [OF inv(1,2) rc prev True m]
  have ok: "idx_ok (rlog rf) (relIdx rf (ae_PrevLogIndex args))"
    using prev True by (simp add: idx_ok_def idx_defs)
  have p1: "peer_inv (rf\<lparr>rlog := lg, dirty := d\<rparr>)" for d
    using inv k(1,2) by (simp add: inv_defs idx_defs)
  moreover have "peer_inv (rf\<lparr>rlog := lg, dirty := d, commitIndex := min (ae_LeaderCommit args) (ae_PrevLogIndex args + int (length (ae_Entries args)))\<rparr>)"
    if "commitIndex rf < min (ae_LeaderCommit args) (ae_PrevLogIndex args + int (length (ae_Entries args)))" for d
    using that inv k(1,3) by (auto simp: inv_defs idx_defs)
  ultimately show ?thesis using True ok m inv
    by (auto simp: append_checked_def go_simps Let_def peer_inv_not_leader)
qed

lemma AppendEntries_inv:
  assumes inv: "peer_inv rf" and rc: "respects_committed rf args"
    and nl: "\<not> (rstate rf = LEADER \<and> ae_Term args = currentTerm rf)"
  shows "\<exists>rf' rep. AppendEntries now r rf args = Inr (rf', rep) \<and> peer_inv rf'"
proof (cases "ae_Term args < currentTerm rf")
  case True
  then show ?thesis using inv by (simp add: AppendEntries_def Let_def)
next
  case False
  let ?rf1 = "if ae_Term args > currentTerm rf \<or> rstate rf = CANDIDATE then stepDownToFollower (ae_Term args) rf else rf"
  let ?rf2 = "resetElection now r ?rf1"
  have i2: "peer_inv ?rf2" using inv stepDown_inv by auto
  have f2: "rstate ?rf2 \<noteq> LEADER" using nl False by (auto split: if_splits)
  have rc2: "respects_committed ?rf2 args" using rc by (auto simp: respects_committed_def relIdx_def)
  show ?thesis
  proof (cases "trim_args ?rf2 args")
    case None
    then show ?thesis using False i2 by (simp add: AppendEntries_def Let_def)
  next
    case (Some args')
    have "raft_wf ?rf2" "commit_ok ?rf2" using i2 by (simp_all only: peer_inv_def)
    from append_checked_inv [OF this f2 trim_args_Some(4) [OF Some rc2] trim_args_Some(1) [OF Some]]
    obtain rf' rep' where "append_checked ?rf2 args' \<lparr>ar_Term = currentTerm ?rf1, ar_Success = False,
        ar_ConflictingTerm = -1, ar_ConflictingIndex = -1, ar_ConflictingLogLen = -1\<rparr> = Inr (rf', rep')" "peer_inv rf'"
      by blast
    then show ?thesis using False Some by (simp add: AppendEntries_def Let_def)
  qed
qed

end
