(* ===== verification/Raft_Peer.thy ===== *)
theory Raft_Peer
  imports Raft_Leader
begin

text \<open>
  The events of a Raft peer as one step function, and what holds of every run of it: no event panics,
  each keeps the invariant, terms, commit index and snapshot index only grow, and the vote of a term
  is never changed.
\<close>

section \<open>The remaining operations keep the invariant\<close>

text \<open>What makes an incoming snapshot harmless: its last entry is in the log with the same term, or it
  lies beyond the commit index and the peer does not lead.\<close>

definition install_ok :: "'c Raft \<Rightarrow> InstallSnapshotArgs \<Rightarrow> bool" where
  "install_ok rf args \<longleftrightarrow> snapshotIndex rf < is_LastIncludedIndex args \<longrightarrow>
     (is_LastIncludedIndex args \<le> lastIdx rf
        \<and> ed_Term (rlog rf ! nat (relIdx rf (is_LastIncludedIndex args))) = is_LastIncludedTerm args)
     \<or> (rstate rf \<noteq> LEADER \<and> commitIndex rf < is_LastIncludedIndex args)"

lemma InstallSnapshot_end_inv:
  assumes inv: "peer_inv rf" and ok: "install_ok rf args"
  shows "\<exists>rf'. InstallSnapshot_end rf args = Inr rf' \<and> peer_inv rf'"
proof (cases "snapshotIndex rf \<ge> is_LastIncludedIndex args")
  case True
  then show ?thesis using inv by (simp add: InstallSnapshot_end_def)
next
  case False
  let ?i = "is_LastIncludedIndex args - snapshotIndex rf"
  have a: "0 \<le> ?i" "?i < loglen rf \<longleftrightarrow> is_LastIncludedIndex args \<le> lastIdx rf" using False by (auto simp: idx_defs)
  show ?thesis
  proof (cases "?i < loglen rf \<and> ed_Term (rlog rf ! nat ?i) = is_LastIncludedTerm args")
    case True
    then have "idx_ok (rlog rf) ?i" using a by (simp add: idx_ok_def)
    then show ?thesis using True a False inv
      by (auto simp: InstallSnapshot_end_def Let_def slice_get_in slice_from_in inv_defs idx_defs hd_drop_conv_nth)
  next
    case F: False
    then have "rstate rf \<noteq> LEADER" "commitIndex rf < is_LastIncludedIndex args"
      using ok False a by (auto simp: install_ok_def relIdx_def)
    then show ?thesis using F a False inv
      by (auto simp: InstallSnapshot_end_def Let_def slice_get_in inv_defs idx_defs idx_ok_def)
  qed
qed

lemma InstallSnapshot_begin_inv:
  "peer_inv rf \<Longrightarrow> peer_inv (fst (InstallSnapshot_begin rf args))"
  by (simp add: InstallSnapshot_begin_def)

text \<open>The applier takes exactly the committed entries that were not delivered yet.\<close>

lemma applier_take_result:
  assumes inv: "peer_inv rf" and new: "lastApplied rf < commitIndex rf"
  shows "applier_take rf = Inr (Some (max (lastApplied rf) (snapshotIndex rf) + 1, commitIndex rf,
     take (nat (commitIndex rf - max (lastApplied rf) (snapshotIndex rf)))
       (drop (nat (relIdx rf (max (lastApplied rf) (snapshotIndex rf) + 1))) (rlog rf))))"
proof -
  let ?lo = "max (lastApplied rf) (snapshotIndex rf) + 1"
  have lo: "(if lastApplied rf + 1 \<le> snapshotIndex rf then snapshotIndex rf + 1 else lastApplied rf + 1) = ?lo" by auto
  have b: "0 \<le> relIdx rf ?lo" "relIdx rf ?lo \<le> relIdx rf (commitIndex rf) + 1"
    "relIdx rf (commitIndex rf) + 1 \<le> loglen rf" "\<not> commitIndex rf - ?lo + 1 < 0"
    using inv new by (auto simp: inv_defs idx_defs)
  have n: "nat (relIdx rf (commitIndex rf) + 1) - nat (relIdx rf ?lo) = nat (commitIndex rf - max (lastApplied rf) (snapshotIndex rf))"
    using b by (simp add: relIdx_def nat_diff_distrib [symmetric])
  have l: "length (take (nat (commitIndex rf - max (lastApplied rf) (snapshotIndex rf))) (drop (nat (relIdx rf ?lo)) (rlog rf)))
      = nat (commitIndex rf - ?lo + 1)"
    using b by (auto simp: relIdx_def)
  show ?thesis
    using new b l unfolding applier_take_def Let_def lo by (simp add: slice_range_def n)
qed

lemma applier_finish_inv: "peer_inv rf \<Longrightarrow> hi \<le> commitIndex rf \<Longrightarrow> peer_inv (applier_finish hi rf)"
  by (auto simp: applier_finish_def inv_defs idx_defs)

lemma attemptElection_inv:
  assumes "peer_inv rf"
  shows "\<exists>rf' out. attemptElection now r rf = Inr (rf', out) \<and> peer_inv rf'"
  using assms by (auto simp: attemptElection_def startElectionState_def Let_def slice_get_in inv_defs idx_defs)

lemma becomeLeader_inv:
  assumes "peer_inv rf"
  shows "peer_inv (becomeLeader rf)"
proof -
  have "0 \<le> lastIdx rf" using assms by (auto simp: inv_defs idx_defs)
  moreover have "raft_wf (becomeLeader rf)" "commit_ok (becomeLeader rf)"
    using assms by (auto simp: becomeLeader_def Let_def inv_defs idx_defs)
  moreover have "nextIndex (becomeLeader rf) ! i = lastIdx rf + 1 \<and> matchIndex (becomeLeader rf) ! i = 0"
    if "i < npeers rf" "i \<noteq> me rf" for i
    using assms that
    by (simp add: becomeLeader_def Let_def inv_defs reset_peers_nextIndex reset_peers_matchIndex idx_defs)
  ultimately show ?thesis by (auto simp: peer_inv_def leader_ok_def idx_defs)
qed

lemma handleVoteReply_inv:
  "peer_inv rf \<Longrightarrow> peer_inv (fst (handleVoteReply now r args reply votes rf))"
  by (simp add: handleVoteReply_def Let_def stepDown_inv becomeLeader_inv)

lemma batchPersister_end_inv: "peer_inv rf \<Longrightarrow> peer_inv (batchPersister_end n rf)"
  by (simp add: batchPersister_end_def)

lemma Start_inv: "peer_inv rf \<Longrightarrow> peer_inv (fst (Start c rf))"
  by (auto simp: Start_def Let_def inv_defs idx_defs nth_list_update)

lemma wake_stale_inv:
  assumes "peer_inv rf" "\<forall>i \<in> set is. i < npeers rf"
  shows "\<exists>rf'. wake_stale now is rf = Inr rf' \<and> peer_inv rf' \<and> persistent rf' = persistent rf
    \<and> commitIndex rf' = commitIndex rf \<and> rstate rf' = rstate rf"
  using assms
proof (induction "is" arbitrary: rf)
  case (Cons i js)
  have "i < length (lastSent rf)" using Cons.prems by (auto simp: inv_defs)
  then show ?case using Cons.IH [of rf] Cons.IH [of "broadcast (ReplCond i) rf"] Cons.prems
    by (auto simp: slice_get_in persistent_def)
qed simp

lemma ticker_inv:
  assumes "peer_inv rf"
  shows "\<exists>rf' out. ticker now r rf = Inr (rf', out) \<and> peer_inv rf'"
  using attemptElection_inv [OF assms, of now r] wake_stale_inv [OF assms, of "[0..<npeers rf]" now] assms
  by (auto simp: ticker_def)

section \<open>Start-up and recovery\<close>

definition pstate_ok :: "'c pstate \<Rightarrow> bool" where
  "pstate_ok p \<longleftrightarrow> ps_log p \<noteq> [] \<and> ed_Term (hd (ps_log p)) = ps_snapshotTerm p \<and> 0 \<le> ps_snapshotIndex p"

lemma persistent_ok: "peer_inv rf \<Longrightarrow> pstate_ok (persistent rf)"
  by (simp add: pstate_ok_def persistent_def inv_defs)

definition fresh_pstate :: "'c pstate" where
  "fresh_pstate = \<lparr>ps_term = 0, ps_votedFor = -1, ps_log = [\<lparr>ed_Term = 0, ed_Command = None\<rparr>],
     ps_snapshotIndex = 0, ps_snapshotTerm = 0\<rparr>"

lemma Make_result:
  assumes n: "self < n" and p: "pstate_ok p"
    and d: "ReadRaftState ps = [] \<and> p = fresh_pstate \<or> ReadRaftState ps \<noteq> [] \<and> dec (ReadRaftState ps) = Some p"
  shows "\<exists>rf. Make dec now r n self ps = Inr rf \<and> peer_inv rf \<and> persistent rf = p
    \<and> snapshot rf = ReadSnapshot ps \<and> commitIndex rf = ps_snapshotIndex p \<and> lastApplied rf = ps_snapshotIndex p
    \<and> rstate rf = FOLLOWER \<and> npeers rf = n \<and> me rf = self \<and> applied rf = []"
  using assms
  by (auto simp: Make_def Let_def readPersist_def fresh_pstate_def pstate_ok_def persistent_def inv_defs idx_defs)

section \<open>Events\<close>

text \<open>One constructor per critical section of \<open>raft.go\<close>; an RPC handler carries its request, a reply
  its request and result.\<close>

datatype 'c event =
    EvRequestVote int int RequestVoteArgs
  | EvAppendEntries int int "'c AppendEntriesArgs"
  | EvInstallBegin InstallSnapshotArgs
  | EvInstallEnd InstallSnapshotArgs
  | EvSnapshot int bytes
  | EvReplicate int nat
  | EvAppendDone int int nat "'c AppendEntriesArgs" int "AppendEntriesReply option"
  | EvSnapshotDone int int nat InstallSnapshotArgs "int option"
  | EvDeliver int "'c EntryData"
  | EvApplied int
  | EvTick int int
  | EvVoteReply int int RequestVoteArgs RequestVoteReply nat
  | EvPersisted nat
  | EvStart 'c

fun peer_step :: "'c event \<Rightarrow> 'c Raft \<Rightarrow> 'c Raft res" where
  "peer_step (EvRequestVote now r a) rf = rbind (RequestVote now r rf a) (\<lambda>(rf', _). Inr rf')"
| "peer_step (EvAppendEntries now r a) rf = rbind (AppendEntries now r rf a) (\<lambda>(rf', _). Inr rf')"
| "peer_step (EvInstallBegin a) rf = Inr (fst (InstallSnapshot_begin rf a))"
| "peer_step (EvInstallEnd a) rf = InstallSnapshot_end rf a"
| "peer_step (EvSnapshot i d) rf = Snapshot i d rf"
| "peer_step (EvReplicate now s) rf = rbind (replicator_send now s rf) (\<lambda>(rf', _). Inr rf')"
| "peer_step (EvAppendDone now r s a sq res) rf = sendAndHandle now r s a sq res rf"
| "peer_step (EvSnapshotDone now r s a res) rf = replicator_snapshot_done now r s a res rf"
| "peer_step (EvDeliver i e) rf = Inr (applier_send i e rf)"
| "peer_step (EvApplied hi) rf = Inr (applier_finish hi rf)"
| "peer_step (EvTick now r) rf = rbind (ticker now r rf) (\<lambda>(rf', _). Inr rf')"
| "peer_step (EvVoteReply now r a rep v) rf = Inr (fst (handleVoteReply now r a rep v rf))"
| "peer_step (EvPersisted n) rf = Inr (batchPersister_end n rf)"
| "peer_step (EvStart c) rf = Inr (fst (Start c rf))"

text \<open>What the rest of the cluster and the service promise about an event: requests of the
  peer's term or a newer one respect the committed prefix and none of its own term reaches a leader, a reply fits its request, the
  service snapshots only what was committed, and the applier reports a commit index it read.\<close>

fun event_ok :: "'c event \<Rightarrow> 'c Raft \<Rightarrow> bool" where
  "event_ok (EvAppendEntries now r a) rf \<longleftrightarrow>
     (currentTerm rf \<le> ae_Term a \<longrightarrow> respects_committed rf a \<and> \<not> (rstate rf = LEADER \<and> ae_Term a = currentTerm rf))"
| "event_ok (EvInstallEnd a) rf \<longleftrightarrow> install_ok rf a"
| "event_ok (EvSnapshot i d) rf \<longleftrightarrow> i \<le> commitIndex rf"
| "event_ok (EvReplicate now s) rf \<longleftrightarrow> s < npeers rf \<and> s \<noteq> me rf"
| "event_ok (EvAppendDone now r s a sq res) rf \<longleftrightarrow> s < npeers rf \<and> s \<noteq> me rf \<and>
     (case res of None \<Rightarrow> True | Some reply \<Rightarrow> rstate rf = LEADER \<longrightarrow> currentTerm rf = ae_Term a \<longrightarrow>
        (if ar_Success reply then ae_PrevLogIndex a + int (length (ae_Entries a)) \<le> lastIdx rf
         else conflict_bounded a reply))"
| "event_ok (EvSnapshotDone now r s a res) rf \<longleftrightarrow> s < npeers rf \<and> s \<noteq> me rf"
| "event_ok (EvApplied hi) rf \<longleftrightarrow> hi \<le> commitIndex rf"
| "event_ok _ rf \<longleftrightarrow> True"

lemma peer_step_inv:
  assumes inv: "peer_inv rf" and ok: "event_ok ev rf"
  shows "\<exists>rf'. peer_step ev rf = Inr rf' \<and> peer_inv rf'"
proof (cases ev)
  case (EvRequestVote now r a)
  then show ?thesis using RequestVote_inv [OF inv, of now r a] by auto
next
  case (EvAppendEntries now r a)
  show ?thesis
  proof (cases "currentTerm rf \<le> ae_Term a")
    case True
    then show ?thesis using AppendEntries_inv [OF inv, of a now r] ok EvAppendEntries by auto
  next
    case False
    then show ?thesis using inv EvAppendEntries by (simp add: AppendEntries_def Let_def)
  qed
next
  case (EvInstallEnd a)
  then show ?thesis using InstallSnapshot_end_inv [OF inv, of a] ok by auto
next
  case (EvSnapshot i d)
  then show ?thesis using Snapshot_inv [OF inv, of i d] ok by auto
next
  case (EvReplicate now s)
  then show ?thesis using replicator_send_result [OF inv, of s now] ok by auto
next
  case (EvAppendDone now r s a sq res)
  then show ?thesis using sendAndHandle_inv [OF inv, of s res a now r sq] ok by (cases res) auto
next
  case (EvSnapshotDone now r s a res)
  then show ?thesis using replicator_snapshot_done_inv [OF inv, of s now r a res] ok by auto
next
  case (EvTick now r)
  then show ?thesis using ticker_inv [OF inv, of now r] by auto
qed (use inv ok in \<open>auto simp: InstallSnapshot_begin_inv applier_send_def applier_finish_inv
      handleVoteReply_inv batchPersister_end_inv Start_inv\<close>)

section \<open>What only grows\<close>

definition grows :: "'c Raft \<Rightarrow> 'c Raft \<Rightarrow> bool" where
  "grows rf rf' \<longleftrightarrow> npeers rf' = npeers rf \<and> me rf' = me rf
     \<and> currentTerm rf \<le> currentTerm rf'
     \<and> (currentTerm rf' = currentTerm rf \<longrightarrow> votedFor rf = -1 \<or> votedFor rf' = votedFor rf)
     \<and> commitIndex rf \<le> commitIndex rf' \<and> snapshotIndex rf \<le> snapshotIndex rf'
     \<and> lastApplied rf \<le> lastApplied rf'
     \<and> (\<exists>ms. applied rf' = applied rf @ ms)"

lemma grows_refl [simp]: "grows rf rf"
  by (simp add: grows_def)

lemma grows_trans: "grows a b \<Longrightarrow> grows b c \<Longrightarrow> grows a c"
  by (auto simp: grows_def)

lemma grows_broadcast [simp]: "grows rf (broadcast c rf') = grows rf rf'"
  by (simp add: grows_def)

lemma grows_resetElection [simp]: "grows rf (resetElection now r rf') = grows rf rf'"
  by (simp add: grows_def)

lemma grows_stepDown: "grows rf (stepDownToFollower t rf)"
  by (simp add: grows_def)

lemma RequestVote_grows: "RequestVote now r rf a = Inr (rf', rep) \<Longrightarrow> grows rf rf'"
  by (auto simp: RequestVote_def Let_def rbind_eq_Inr grows_def split: if_splits)

lemma append_checked_grows: "append_checked rf a rep = Inr (rf', rep') \<Longrightarrow> grows rf rf'"
  by (auto simp: append_checked_def Let_def rbind_eq_Inr grows_def split: if_splits prod.splits)

lemma AppendEntries_grows: "AppendEntries now r rf a = Inr (rf', rep) \<Longrightarrow> grows rf rf'"
  by (auto simp: AppendEntries_def Let_def grows_stepDown
      split: if_splits option.splits dest!: append_checked_grows intro: grows_trans [OF grows_stepDown]
      elim: grows_trans [rotated])

lemma updateCommitIndex_grows: "updateCommitIndex rf = Inr rf' \<Longrightarrow> grows rf rf'"
  by (auto simp: updateCommitIndex_def rbind_eq_Inr grows_def split: if_splits)

lemma grows_indices:
  "grows rf (rf1\<lparr>nextIndex := ni\<rparr>) = grows rf rf1" "grows (rf\<lparr>matchIndex := mi\<rparr>) rf1 = grows rf rf1"
  by (simp_all add: grows_def)

lemma handle_success_grows: "handle_success s a rf = Inr rf' \<Longrightarrow> grows rf rf'"
  by (auto simp: handle_success_def Let_def rbind_eq_Inr grows_indices split: if_splits dest!: updateCommitIndex_grows)

lemma handle_conflict_grows: "handle_conflict s a rep rf = Inr rf' \<Longrightarrow> grows rf rf'"
  by (auto simp: handle_conflict_def rbind_eq_Inr grows_indices split: if_splits)

lemma handleAppendEntriesResponse_grows:
  "handleAppendEntriesResponse now r s a rep rf = Inr rf' \<Longrightarrow> grows rf rf'"
  by (auto simp: handleAppendEntriesResponse_def grows_stepDown split: if_splits
      dest: handle_success_grows handle_conflict_grows)

lemma sendAndHandle_grows:
  assumes "sendAndHandle now r s a sq res rf = Inr rf'"
  shows "grows rf rf'"
proof -
  define rf1 where "rf1 = (if sq = sendSeq rf ! s then rf\<lparr>inFlight := (inFlight rf)[s := False]\<rparr> else rf)"
  have g: "grows rf rf1" by (simp add: rf1_def grows_def)
  have "rf' = rf1 \<or> (\<exists>reply rf2. handleAppendEntriesResponse now r s a reply rf1 = Inr rf2
      \<and> rf' = broadcast PersistCond (broadcast (ReplCond s) rf2))"
    using assms by (auto simp: sendAndHandle_def Let_def rbind_eq_Inr slice_get_eq_Inr rf1_def [symmetric]
        split: option.splits if_splits)
  then show ?thesis using g grows_trans [OF g handleAppendEntriesResponse_grows] by auto
qed

lemma InstallSnapshot_end_grows: "InstallSnapshot_end rf a = Inr rf' \<Longrightarrow> grows rf rf'"
  by (auto simp: InstallSnapshot_end_def Let_def rbind_eq_Inr grows_def split: if_splits)

lemma InstallSnapshot_begin_grows: "grows rf (fst (InstallSnapshot_begin rf a))"
  by (simp add: InstallSnapshot_begin_def grows_def)

lemma Snapshot_grows: "Snapshot i d rf = Inr rf' \<Longrightarrow> grows rf rf'"
  by (auto simp: Snapshot_def Let_def rbind_eq_Inr grows_def relIdx_def split: if_splits)

lemma replicator_send_grows: "replicator_send now s rf = Inr (rf', out) \<Longrightarrow> grows rf rf'"
  by (auto simp: replicator_send_def Let_def rbind_eq_Inr grows_def split: if_splits)

lemma replicator_snapshot_done_grows: "replicator_snapshot_done now r s a res rf = Inr rf' \<Longrightarrow> grows rf rf'"
  by (auto simp: replicator_snapshot_done_def rbind_eq_Inr grows_def split: if_splits option.splits)

lemma applier_grows: "grows rf (applier_send i e rf)" "grows rf (applier_finish hi rf)"
  by (simp_all add: applier_send_def applier_finish_def grows_def)

lemma attemptElection_grows: "attemptElection now r rf = Inr (rf', out) \<Longrightarrow> grows rf rf'"
  by (auto simp: attemptElection_def startElectionState_def Let_def rbind_eq_Inr grows_def split: if_splits)

lemma wake_stale_grows: "wake_stale now is rf = Inr rf' \<Longrightarrow> grows rf rf'"
proof (induction "is" arbitrary: rf)
  case (Cons i js)
  have "grows rf x" if "grows (broadcast c rf) x" for c x using that by (simp add: grows_def)
  with Cons show ?case by (auto simp: rbind_eq_Inr split: if_splits)
qed simp

lemma ticker_grows: "ticker now r rf = Inr (rf', out) \<Longrightarrow> grows rf rf'"
  by (auto simp: ticker_def rbind_eq_Inr split: if_splits dest: attemptElection_grows wake_stale_grows)

lemma handleVoteReply_grows: "grows rf (fst (handleVoteReply now r a rep v rf))"
  by (simp add: handleVoteReply_def Let_def grows_def)

lemma batchPersister_end_grows: "grows rf (batchPersister_end n rf)"
  by (simp add: batchPersister_end_def grows_def)

lemma Start_grows: "grows rf (fst (Start c rf))"
  by (simp add: Start_def Let_def grows_def)

lemmas op_grows = InstallSnapshot_begin_grows applier_grows handleVoteReply_grows batchPersister_end_grows Start_grows
lemmas op_grows_dest = RequestVote_grows AppendEntries_grows InstallSnapshot_end_grows Snapshot_grows
  replicator_send_grows sendAndHandle_grows replicator_snapshot_done_grows ticker_grows

lemma peer_step_grows: "peer_step ev rf = Inr rf' \<Longrightarrow> grows rf rf'"
  by (cases ev) (auto simp: rbind_eq_Inr op_grows dest: op_grows_dest)

section \<open>Runs of a peer\<close>

definition peer_init :: "'c Raft \<Rightarrow> bool" where
  "peer_init rf \<longleftrightarrow> (\<exists>dec now r n self ps p. self < n \<and> pstate_ok p
     \<and> (ReadRaftState ps = [] \<and> p = fresh_pstate \<or> ReadRaftState ps \<noteq> [] \<and> dec (ReadRaftState ps) = Some p)
     \<and> Make dec now r n self ps = Inr rf)"

definition peer_trans :: "'c Raft \<Rightarrow> 'c Raft \<Rightarrow> bool" where
  "peer_trans rf rf' \<longleftrightarrow> (\<exists>ev. event_ok ev rf \<and> peer_step ev rf = Inr rf')"

interpretation peer_run: invariant_system peer_init peer_trans peer_inv
proof
  fix s :: "'c Raft" assume "peer_init s"
  then obtain dec now r n self ps p where m: "self < n" "pstate_ok p"
    "ReadRaftState ps = [] \<and> p = fresh_pstate \<or> ReadRaftState ps \<noteq> [] \<and> dec (ReadRaftState ps) = Some p"
    "Make dec now r n self ps = Inr s" unfolding peer_init_def by blast
  from Make_result [OF m(1,2), of ps dec now r] m(3,4) show "peer_inv s" by auto
next
  fix s t :: "'c Raft" assume "peer_inv s" "peer_trans s t"
  then obtain ev where "event_ok ev s" "peer_step ev s = Inr t" unfolding peer_trans_def by blast
  with peer_step_inv [OF \<open>peer_inv s\<close> \<open>event_ok ev s\<close>] show "peer_inv t" by simp
qed

fun run_events :: "'c event list \<Rightarrow> 'c Raft \<Rightarrow> 'c Raft res" where
  "run_events [] rf = Inr rf"
| "run_events (ev # evs) rf = rbind (peer_step ev rf) (run_events evs)"

lemma run_events_grows: "run_events evs rf = Inr rf' \<Longrightarrow> grows rf rf'"
  by (induction evs arbitrary: rf) (auto simp: rbind_eq_Inr dest!: peer_step_grows intro: grows_trans)

end
