(* ===== verification/Raft_Replication.thy ===== *)
theory Raft_Replication
  imports Raft_Peer
begin

text \<open>
  What one exchange between a leader and a follower achieves: the consistency check and the merge of
  \<open>AppendEntries\<close>, the conflict it reports, the leader's step back, and what the applier and a
  snapshot do with the log.
\<close>

section \<open>AppendEntries in one equation\<close>

text \<open>The peer after the term check of a request that is not stale.\<close>

definition ae_enter :: "int \<Rightarrow> int \<Rightarrow> 'c Raft \<Rightarrow> 'c AppendEntriesArgs \<Rightarrow> 'c Raft" where
  "ae_enter now r rf args = resetElection now r
     (if ae_Term args > currentTerm rf \<or> rstate rf = CANDIDATE then stepDownToFollower (ae_Term args) rf else rf)"

lemma ae_enter_fields [simp]:
  "rlog (ae_enter now r rf a) = rlog rf" "snapshotIndex (ae_enter now r rf a) = snapshotIndex rf"
  "snapshotTerm (ae_enter now r rf a) = snapshotTerm rf" "commitIndex (ae_enter now r rf a) = commitIndex rf"
  "lastApplied (ae_enter now r rf a) = lastApplied rf" "applied (ae_enter now r rf a) = applied rf"
  "npeers (ae_enter now r rf a) = npeers rf" "me (ae_enter now r rf a) = me rf"
  "\<not> ae_Term a < currentTerm rf \<Longrightarrow> currentTerm (ae_enter now r rf a) = ae_Term a"
  by (auto simp: ae_enter_def)

lemma ae_enter_inv: "peer_inv rf \<Longrightarrow> peer_inv (ae_enter now r rf a)"
  by (simp add: ae_enter_def stepDown_inv)

lemma entry_at_enter [simp]: "entry_at (ae_enter now r rf a) i = entry_at rf i"
  by (simp add: entry_at_def relIdx_def)

lemma lastIdx_enter [simp]: "lastIdx (ae_enter now r rf a) = lastIdx rf"
  by (simp add: idx_defs)

definition fresh_reply :: "int \<Rightarrow> AppendEntriesReply" where
  "fresh_reply t = \<lparr>ar_Term = t, ar_Success = False, ar_ConflictingTerm = -1, ar_ConflictingIndex = -1,
     ar_ConflictingLogLen = -1\<rparr>"

lemma AppendEntries_current:
  assumes "\<not> ae_Term args < currentTerm rf"
  shows "AppendEntries now r rf args =
    (case trim_args (ae_enter now r rf args) args of
       None \<Rightarrow> Inr (ae_enter now r rf args, (fresh_reply (ae_Term args))\<lparr>ar_Success := True\<rparr>)
     | Some args' \<Rightarrow> append_checked (ae_enter now r rf args) args' (fresh_reply (ae_Term args)))"
  using assms
  by (auto simp: AppendEntries_def Let_def ae_enter_def fresh_reply_def split: option.splits)

section \<open>The consistency check and the merge\<close>

text \<open>\<open>append_checked\<close> on its three branches, for a request that starts at or above the snapshot.\<close>

definition holds_prev :: "'c Raft \<Rightarrow> 'c AppendEntriesArgs \<Rightarrow> bool" where
  "holds_prev rf args \<longleftrightarrow> (\<exists>e. entry_at rf (ae_PrevLogIndex args) = Some e \<and> ed_Term e = ae_PrevLogTerm args)"

lemma append_checked_missing:
  assumes "lastIdx rf < ae_PrevLogIndex args"
  shows "append_checked rf args rep = Inr (rf, rep\<lparr>ar_ConflictingLogLen := lastIdx rf + 1\<rparr>)"
  using assms by (simp add: append_checked_def lastIdx_def)

lemma append_checked_conflicting:
  assumes "snapshotIndex rf \<le> ae_PrevLogIndex args" "ae_PrevLogIndex args \<le> lastIdx rf" "\<not> holds_prev rf args"
  shows "\<exists>e n. entry_at rf (ae_PrevLogIndex args) = Some e
    \<and> append_checked rf args rep = Inr (rf, rep\<lparr>ar_ConflictingTerm := ed_Term e, ar_ConflictingIndex := n\<rparr>)
    \<and> snapshotIndex rf \<le> n \<and> n \<le> ae_PrevLogIndex args
    \<and> (\<forall>i. n \<le> i \<longrightarrow> i \<le> ae_PrevLogIndex args \<longrightarrow> map_option ed_Term (entry_at rf i) = Some (ed_Term e))
    \<and> (snapshotIndex rf < n \<longrightarrow> map_option ed_Term (entry_at rf (n - 1)) \<noteq> Some (ed_Term e))"
proof -
  define j where "j = nat (relIdx rf (ae_PrevLogIndex args))"
  define e where "e = rlog rf ! j"
  define c where "c = conflict_scan (rlog rf) (ed_Term e) j"
  have ok: "idx_ok (rlog rf) (relIdx rf (ae_PrevLogIndex args))" using assms(1,2) by (simp add: idx_ok_def idx_defs)
  then have en: "entry_at rf (ae_PrevLogIndex args) = Some e" by (simp add: entry_at_def e_def j_def)
  then have ne: "ed_Term e \<noteq> ae_PrevLogTerm args" using assms(3) by (simp add: holds_prev_def)
  have j: "j < length (rlog rf)" "int j + snapshotIndex rf = ae_PrevLogIndex args"
    using ok assms(1) by (auto simp: j_def idx_ok_def idx_defs)
  have at: "entry_at rf (int k + snapshotIndex rf) = Some (rlog rf ! k)" if "k \<le> j" for k
    using that j(1) by (simp add: entry_at_def relIdx_def)
  note sp = conflict_scan_spec [of "rlog rf" "ed_Term e" j, folded c_def]
  have run: "map_option ed_Term (entry_at rf i) = Some (ed_Term e)"
    if "absIdx rf (int c) \<le> i" "i \<le> ae_PrevLogIndex args" for i
  proof -
    have i: "i = int (nat (i - snapshotIndex rf)) + snapshotIndex rf" "nat (i - snapshotIndex rf) \<le> j"
      "c \<le> nat (i - snapshotIndex rf)" using that j(2) by (auto simp: absIdx_def)
    have "ed_Term (rlog rf ! nat (i - snapshotIndex rf)) = ed_Term e"
      using sp i(2,3) by (cases "nat (i - snapshotIndex rf) = j") (auto simp: e_def)
    then show ?thesis using at [OF i(2)] i(1) by simp
  qed
  have stop: "map_option ed_Term (entry_at rf (absIdx rf (int c) - 1)) \<noteq> Some (ed_Term e)"
    if "snapshotIndex rf < absIdx rf (int c)"
  proof -
    have "0 < c" using that by (simp add: absIdx_def)
    moreover have "absIdx rf (int c) - 1 = int (c - 1) + snapshotIndex rf" using calculation by (simp add: absIdx_def)
    moreover have "entry_at rf (int (c - 1) + snapshotIndex rf) = Some (rlog rf ! (c - 1))"
      using sp at [of "c - 1"] by linarith
    ultimately show ?thesis using sp by (simp del: of_nat_diff)
  qed
  have "append_checked rf args rep = Inr (rf, rep\<lparr>ar_ConflictingTerm := ed_Term e, ar_ConflictingIndex := absIdx rf (int c)\<rparr>)"
    using ok ne assms(2) by (simp add: append_checked_def slice_get_in Let_def lastIdx_def e_def j_def c_def)
  moreover have "snapshotIndex rf \<le> absIdx rf (int c)" "absIdx rf (int c) \<le> ae_PrevLogIndex args"
    using sp j by (auto simp: absIdx_def)
  ultimately show ?thesis using en run stop by blast
qed

text \<open>The accepting branch: what is below the request stays, what the request carries is there with its
  terms, and the commit index follows the leader's up to the end of the request.\<close>

definition accepted :: "'c Raft \<Rightarrow> 'c AppendEntriesArgs \<Rightarrow> 'c Raft \<Rightarrow> bool" where
  "accepted rf args rf' \<longleftrightarrow>
     snapshotIndex rf' = snapshotIndex rf
     \<and> (\<forall>i. i \<le> max (ae_PrevLogIndex args) (snapshotIndex rf) \<longrightarrow> entry_at rf' i = entry_at rf i)
     \<and> (\<forall>k < length (ae_Entries args). snapshotIndex rf < ae_PrevLogIndex args + 1 + int k \<longrightarrow>
          map_option ed_Term (entry_at rf' (ae_PrevLogIndex args + 1 + int k)) = Some (ed_Term (ae_Entries args ! k)))
     \<and> commitIndex rf' = max (commitIndex rf)
          (min (ae_LeaderCommit args) (ae_PrevLogIndex args + int (length (ae_Entries args))))
     \<and> (rlog rf' = rlog rf \<or> dirty rf')"

lemma entry_at_log: "entry_at rf (int k + snapshotIndex rf) = (if k < length (rlog rf) then Some (rlog rf ! k) else None)"
  by (simp add: entry_at_def relIdx_def)

lemma entry_at_below: "i < snapshotIndex rf \<Longrightarrow> entry_at rf i = None"
  by (simp add: entry_at_def idx_ok_def relIdx_def)

lemma append_checked_accepts:
  assumes sn: "snapshotIndex rf \<le> ae_PrevLogIndex args" and h: "holds_prev rf args"
  shows "\<exists>rf'. append_checked rf args rep = Inr (rf', rep\<lparr>ar_Success := True\<rparr>) \<and> accepted rf args rf'
    \<and> currentTerm rf' = currentTerm rf"
proof -
  define j where "j = nat (relIdx rf (ae_PrevLogIndex args))"
  have ok: "idx_ok (rlog rf) (relIdx rf (ae_PrevLogIndex args))" and e: "ed_Term (rlog rf ! j) = ae_PrevLogTerm args"
    using h by (auto simp: holds_prev_def entry_at_def j_def split: if_splits)
  have j: "j < length (rlog rf)" "ae_PrevLogIndex args = int j + snapshotIndex rf" "ae_PrevLogIndex args < absIdx rf (loglen rf)"
    using ok sn by (auto simp: idx_ok_def j_def relIdx_def absIdx_def)
  obtain lg ch where m: "merge_entries (rlog rf) (Suc j) (ae_Entries args) = (lg, ch)" by fastforce
  note pre = merge_entries_prefix [OF m]
  define nc where "nc = min (ae_LeaderCommit args) (ae_PrevLogIndex args + int (length (ae_Entries args)))"
  define rf1 where "rf1 = rf\<lparr>rlog := lg, dirty := (dirty rf \<or> ch)\<rparr>"
  define rf' where "rf' = broadcast PersistCond (if ae_LeaderCommit args > commitIndex rf1 \<and> nc > commitIndex rf1
      then broadcast ApplyCond (rf1\<lparr>commitIndex := nc\<rparr>) else rf1)"
  have r': "snapshotIndex rf' = snapshotIndex rf" "rlog rf' = lg" "commitIndex rf' = max (commitIndex rf) nc"
    "dirty rf' = (dirty rf \<or> ch)" "currentTerm rf' = currentTerm rf"
    by (auto simp: rf'_def rf1_def nc_def)
  have run: "append_checked rf args rep = Inr (rf', rep\<lparr>ar_Success := True\<rparr>)"
    using ok e j(3) m by (simp add: append_checked_def slice_get_in j_def [symmetric] Let_def rf'_def rf1_def nc_def)
  have below: "entry_at rf' i = entry_at rf i" if "i \<le> ae_PrevLogIndex args" for i
  proof (cases "i < snapshotIndex rf")
    case True
    then show ?thesis using r' by (simp add: entry_at_below)
  next
    case False
    then obtain k where i: "i = int k + snapshotIndex rf" by (metis add.commute nonneg_int_cases diff_add_cancel not_less diff_ge_0_iff_ge)
    have k: "k < Suc j" "k < length lg" using that j i pre(2) by auto
    have "lg ! k = rlog rf ! k" using pre(1) j k by (metis Suc_leI nth_take)
    then show ?thesis unfolding i using r' entry_at_log [of rf' k] entry_at_log [of rf k] k j by simp
  qed
  have new: "map_option ed_Term (entry_at rf' (ae_PrevLogIndex args + 1 + int k)) = Some (ed_Term (ae_Entries args ! k))"
    if "k < length (ae_Entries args)" for k
    using entry_at_log [of rf' "Suc j + k"] pre(2) pre(3) [OF _ that] that r' j by (simp add: algebra_simps)
  have "merge_entries (rlog rf) (Suc j) (ae_Entries args) = (lg, False) \<Longrightarrow> lg = rlog rf"
    using merge_entries_spec j(1) by (metis Suc_leI)
  then have "rlog rf' = rlog rf \<or> dirty rf'" using r' m by (cases ch) auto
  with run below new r' sn show ?thesis by (auto simp: accepted_def nc_def max_def)
qed

lemma holds_prev_enter [simp]: "holds_prev (ae_enter now r rf a) args = holds_prev rf args"
  by (simp add: holds_prev_def)

lemma accepted_enter [simp]: "accepted (ae_enter now r rf a) args rf' \<Longrightarrow> accepted rf args rf'"
  by (simp add: accepted_def)

lemma entry_at_snapshot: "peer_inv rf \<Longrightarrow> map_option ed_Term (entry_at rf (snapshotIndex rf)) = Some (snapshotTerm rf)"
  by (auto simp: entry_at_def inv_defs relIdx_def idx_ok_def hd_conv_nth)

text \<open>A trimmed request has the same effect as the request itself.\<close>

lemma accepted_trim:
  assumes t: "trim_args rf args = Some args'" and a: "accepted rf args' rf'"
  shows "accepted rf args rf'"
proof (cases "ae_PrevLogIndex args < snapshotIndex rf")
  case False
  then show ?thesis using assms by (simp add: trim_args_def)
next
  case True
  define skip where "skip = nat (snapshotIndex rf - ae_PrevLogIndex args)"
  have f: "ae_PrevLogIndex args' = snapshotIndex rf" "ae_Entries args' = drop skip (ae_Entries args)"
    "ae_LeaderCommit args' = ae_LeaderCommit args"
    using t True by (auto simp: trim_args_def Let_def skip_def split: if_splits)
  have s: "ae_PrevLogIndex args + int skip = snapshotIndex rf" using True by (simp add: skip_def)
  have "map_option ed_Term (entry_at rf' (ae_PrevLogIndex args + 1 + int k)) = Some (ed_Term (ae_Entries args ! k))"
    if "k < length (ae_Entries args)" "snapshotIndex rf < ae_PrevLogIndex args + 1 + int k" for k
  proof -
    have "skip \<le> k" using that(2) s by simp
    then obtain q where k: "k = skip + q" by (auto simp: le_iff_add)
    have i: "snapshotIndex rf + 1 + int q = ae_PrevLogIndex args + 1 + int k" using s k by simp
    have "map_option ed_Term (entry_at rf' (snapshotIndex rf + 1 + int q)) = Some (ed_Term (drop skip (ae_Entries args) ! q))"
      using a that(1) k f by (auto simp: accepted_def)
    then show ?thesis unfolding i using k that(1) by simp
  qed
  then show ?thesis using a f trim_args_Some(2) [OF t] True by (simp add: accepted_def max_def)
qed

lemma AppendEntries_accepts:
  assumes inv: "peer_inv rf" and t: "\<not> ae_Term args < currentTerm rf"
    and h: "ae_PrevLogIndex args < snapshotIndex rf \<or> holds_prev rf args"
  shows "\<exists>rf'. AppendEntries now r rf args = Inr (rf', (fresh_reply (ae_Term args))\<lparr>ar_Success := True\<rparr>)
    \<and> accepted rf args rf' \<and> currentTerm rf' = ae_Term args"
proof (cases "trim_args (ae_enter now r rf args) args")
  case None
  then have "snapshotIndex rf > ae_PrevLogIndex args + int (length (ae_Entries args))"
    by (auto simp: trim_args_def Let_def split: if_splits)
  then have "accepted rf args (ae_enter now r rf args)"
    using inv by (auto simp: accepted_def inv_defs)
  then show ?thesis using None t by (simp add: AppendEntries_current)
next
  case (Some args')
  have "holds_prev rf args'"
  proof (cases "ae_PrevLogIndex args < snapshotIndex rf")
    case True
    then have "ae_PrevLogIndex args' = snapshotIndex rf" "ae_PrevLogTerm args' = snapshotTerm rf"
      using Some by (auto simp: trim_args_def Let_def split: if_splits)
    then show ?thesis using entry_at_snapshot [OF inv] by (auto simp: holds_prev_def)
  next
    case False
    then show ?thesis using Some h by (simp add: trim_args_def)
  qed
  then obtain rf' where r': "append_checked (ae_enter now r rf args) args' (fresh_reply (ae_Term args))
      = Inr (rf', (fresh_reply (ae_Term args))\<lparr>ar_Success := True\<rparr>)"
    "accepted (ae_enter now r rf args) args' rf'" "currentTerm rf' = currentTerm (ae_enter now r rf args)"
    using append_checked_accepts [of "ae_enter now r rf args" args' "fresh_reply (ae_Term args)"]
      trim_args_Some(1) [OF Some] by auto
  from accepted_trim [OF Some r'(2)] have "accepted rf args rf'" by (rule accepted_enter)
  then show ?thesis using Some t r' by (simp add: AppendEntries_current)
qed

lemma AppendEntries_rejects:
  assumes t: "\<not> ae_Term args < currentTerm rf"
    and h: "snapshotIndex rf \<le> ae_PrevLogIndex args" "\<not> holds_prev rf args"
  shows "AppendEntries now r rf args = append_checked (ae_enter now r rf args) args (fresh_reply (ae_Term args))"
  using assms by (simp add: AppendEntries_current trim_args_def)

text \<open>What a refusal reports: the length of a log that is too short, or the conflicting term and the first
  index of its run.\<close>

definition reports_conflict :: "'c Raft \<Rightarrow> 'c AppendEntriesArgs \<Rightarrow> AppendEntriesReply \<Rightarrow> bool" where
  "reports_conflict rf args rep \<longleftrightarrow>
     (if lastIdx rf < ae_PrevLogIndex args then ar_ConflictingLogLen rep = lastIdx rf + 1
      else ar_ConflictingLogLen rep = -1
        \<and> map_option ed_Term (entry_at rf (ae_PrevLogIndex args)) = Some (ar_ConflictingTerm rep)
        \<and> snapshotIndex rf \<le> ar_ConflictingIndex rep \<and> ar_ConflictingIndex rep \<le> ae_PrevLogIndex args
        \<and> (\<forall>i. ar_ConflictingIndex rep \<le> i \<longrightarrow> i \<le> ae_PrevLogIndex args \<longrightarrow>
             map_option ed_Term (entry_at rf i) = Some (ar_ConflictingTerm rep))
        \<and> (snapshotIndex rf < ar_ConflictingIndex rep \<longrightarrow>
             map_option ed_Term (entry_at rf (ar_ConflictingIndex rep - 1)) \<noteq> Some (ar_ConflictingTerm rep)))"

lemma append_checked_rejects:
  assumes h: "snapshotIndex rf \<le> ae_PrevLogIndex args" "\<not> holds_prev rf args"
  shows "\<exists>rep. append_checked rf args (fresh_reply t) = Inr (rf, rep) \<and> \<not> ar_Success rep \<and> ar_Term rep = t
    \<and> reports_conflict rf args rep"
proof (cases "lastIdx rf < ae_PrevLogIndex args")
  case True
  then show ?thesis by (simp add: append_checked_missing reports_conflict_def fresh_reply_def)
next
  case False
  then have "ae_PrevLogIndex args \<le> lastIdx rf" by simp
  from append_checked_conflicting [OF h(1) this h(2), of "fresh_reply t"] obtain e n where
    a: "append_checked rf args (fresh_reply t) = Inr (rf, (fresh_reply t)\<lparr>ar_ConflictingTerm := ed_Term e, ar_ConflictingIndex := n\<rparr>)"
    and b: "entry_at rf (ae_PrevLogIndex args) = Some e" "snapshotIndex rf \<le> n" "n \<le> ae_PrevLogIndex args"
      "\<forall>i. n \<le> i \<longrightarrow> i \<le> ae_PrevLogIndex args \<longrightarrow> map_option ed_Term (entry_at rf i) = Some (ed_Term e)"
      "snapshotIndex rf < n \<longrightarrow> map_option ed_Term (entry_at rf (n - 1)) \<noteq> Some (ed_Term e)" by blast
  show ?thesis
    by (rule exI, rule conjI, rule a) (use False b in \<open>simp add: reports_conflict_def fresh_reply_def\<close>)
qed

lemma reports_conflict_enter [simp]: "reports_conflict (ae_enter now r rf a) args rep = reports_conflict rf args rep"
  by (simp add: reports_conflict_def)

lemma AppendEntries_result:
  assumes inv: "peer_inv rf"
  shows "\<exists>rf' rep. AppendEntries now r rf args = Inr (rf', rep) \<and>
    (if ae_Term args < currentTerm rf then rf' = rf \<and> \<not> ar_Success rep \<and> ar_Term rep = currentTerm rf
     else currentTerm rf' = ae_Term args \<and> ar_Term rep = ae_Term args
       \<and> ar_Success rep = (ae_PrevLogIndex args < snapshotIndex rf \<or> holds_prev rf args)
       \<and> (if ar_Success rep then accepted rf args rf'
          else rlog rf' = rlog rf \<and> commitIndex rf' = commitIndex rf \<and> reports_conflict rf args rep))"
proof (cases "ae_Term args < currentTerm rf")
  case True
  then show ?thesis by (simp add: AppendEntries_def Let_def)
next
  case t: False
  show ?thesis
  proof (cases "ae_PrevLogIndex args < snapshotIndex rf \<or> holds_prev rf args")
    case True
    from AppendEntries_accepts [OF inv t True, of now r] obtain rf' where
      "AppendEntries now r rf args = Inr (rf', (fresh_reply (ae_Term args))\<lparr>ar_Success := True\<rparr>)"
      "accepted rf args rf'" "currentTerm rf' = ae_Term args" by blast
    then show ?thesis using t True
      by (intro exI [of _ rf'] exI [of _ "(fresh_reply (ae_Term args))\<lparr>ar_Success := True\<rparr>"]) (simp add: fresh_reply_def)
  next
    case False
    then have h: "snapshotIndex rf \<le> ae_PrevLogIndex args" "\<not> holds_prev rf args" by auto
    with append_checked_rejects [of "ae_enter now r rf args" args "ae_Term args"] obtain rep where
      "append_checked (ae_enter now r rf args) args (fresh_reply (ae_Term args)) = Inr (ae_enter now r rf args, rep)"
      "\<not> ar_Success rep" "ar_Term rep = ae_Term args" "reports_conflict rf args rep" by auto
    then show ?thesis using t h
      by (intro exI [of _ "ae_enter now r rf args"] exI [of _ rep]) (simp add: AppendEntries_rejects)
  qed
qed

text \<open>What becomes of the log, entry by entry. The request's entry \<open>k\<close> is for index \<open>PrevLogIndex + 1 + k\<close>; those up to the
  snapshot are skipped. The peer agrees at \<open>k\<close> when its log has an entry of the same term there. If it agrees everywhere, its
  log stays as it is, with whatever follows the request; otherwise its log is what it was up to the first disagreement
  followed by the rest of the request, and is marked for saving.\<close>

definition agrees_at :: "'c Raft \<Rightarrow> 'c AppendEntriesArgs \<Rightarrow> nat \<Rightarrow> bool" where
  "agrees_at rf args k \<longleftrightarrow> map_option ed_Term (entry_at rf (ae_PrevLogIndex args + 1 + int k)) = Some (ed_Term (ae_Entries args ! k))"

definition merged :: "'c Raft \<Rightarrow> 'c AppendEntriesArgs \<Rightarrow> 'c Raft \<Rightarrow> bool" where
  "merged rf args rf' \<longleftrightarrow> (let new = (\<lambda>k. k < length (ae_Entries args) \<and> snapshotIndex rf < ae_PrevLogIndex args + 1 + int k) in
     (\<forall>k. new k \<longrightarrow> agrees_at rf args k) \<and> rlog rf' = rlog rf
     \<or> (\<exists>k. new k \<and> \<not> agrees_at rf args k \<and> (\<forall>q < k. new q \<longrightarrow> agrees_at rf args q)
          \<and> rlog rf' = take (nat (relIdx rf (ae_PrevLogIndex args + 1 + int k))) (rlog rf) @ drop k (ae_Entries args) \<and> dirty rf'))"

lemma append_checked_merged:
  assumes sn: "snapshotIndex rf \<le> ae_PrevLogIndex args" and h: "holds_prev rf args"
    and run: "append_checked rf args rep = Inr (rf', rep')"
  shows "merged rf args rf'"
proof -
  define j where "j = nat (relIdx rf (ae_PrevLogIndex args))"
  have ok: "idx_ok (rlog rf) (relIdx rf (ae_PrevLogIndex args))" and e: "ed_Term (rlog rf ! j) = ae_PrevLogTerm args"
    using h by (auto simp: holds_prev_def entry_at_def j_def split: if_splits)
  have j: "j < length (rlog rf)" "ae_PrevLogIndex args = int j + snapshotIndex rf" "ae_PrevLogIndex args < absIdx rf (loglen rf)"
    using ok sn by (auto simp: idx_ok_def j_def relIdx_def absIdx_def)
  obtain lg ch where m: "merge_entries (rlog rf) (Suc j) (ae_Entries args) = (lg, ch)" by fastforce
  have r: "rlog rf' = lg" "dirty rf' = (dirty rf \<or> ch)"
    using run ok e j(3) m by (auto simp: append_checked_def slice_get_in j_def [symmetric] Let_def split: if_splits)
  have at: "agrees_at rf args k \<longleftrightarrow> Suc j + k < length (rlog rf) \<and> ed_Term (rlog rf ! (Suc j + k)) = ed_Term (ae_Entries args ! k)" for k
    using entry_at_log [of rf "Suc j + k"] j(2) by (simp add: agrees_at_def algebra_simps)
  have pos: "nat (relIdx rf (ae_PrevLogIndex args + 1 + int k)) = Suc j + k" "snapshotIndex rf < ae_PrevLogIndex args + 1 + int k" for k
    using j(2) by (auto simp: relIdx_def)
  note sp = merge_entries_spec [OF m Suc_leI [OF j(1)]]
  show ?thesis
  proof (cases ch)
    case False
    then show ?thesis using sp r at by (simp add: merged_def Let_def)
  next
    case True
    with sp obtain k where k: "k < length (ae_Entries args)" "lg = take (Suc j + k) (rlog rf) @ drop k (ae_Entries args)" "Suc j + k \<le> length (rlog rf)"
      "\<forall>q < k. ed_Term (rlog rf ! (Suc j + q)) = ed_Term (ae_Entries args ! q)"
      "Suc j + k < length (rlog rf) \<longrightarrow> ed_Term (rlog rf ! (Suc j + k)) \<noteq> ed_Term (ae_Entries args ! k)" by blast
    then have "\<not> agrees_at rf args k" "\<forall>q < k. agrees_at rf args q" "dirty rf'" using at True r(2) by auto
    then show ?thesis unfolding merged_def Let_def using k(1,2) r(1) pos by (intro disjI2 exI [of _ k]) simp
  qed
qed

lemma agrees_at_enter [simp]: "agrees_at (ae_enter now r rf a) args k = agrees_at rf args k"
  by (simp add: agrees_at_def)

lemma merged_enter [simp]: "merged (ae_enter now r rf a) args rf' = merged rf args rf'"
  by (simp add: merged_def relIdx_def)

lemma merged_trim:
  assumes t: "trim_args rf args = Some args'" and m: "merged rf args' rf'"
  shows "merged rf args rf'"
proof (cases "ae_PrevLogIndex args < snapshotIndex rf")
  case False
  then show ?thesis using assms by (simp add: trim_args_def)
next
  case True
  define skip where "skip = nat (snapshotIndex rf - ae_PrevLogIndex args)"
  have f: "ae_PrevLogIndex args' = snapshotIndex rf" "ae_Entries args' = drop skip (ae_Entries args)" "skip \<le> length (ae_Entries args)"
    using t True by (auto simp: trim_args_def Let_def skip_def split: if_splits)
  have s: "ae_PrevLogIndex args + int skip = snapshotIndex rf" using True by (simp add: skip_def)
  have idx: "snapshotIndex rf + 1 + int k = ae_PrevLogIndex args + 1 + int (skip + k)" for k using s by simp
  have ag: "agrees_at rf args' k \<longleftrightarrow> agrees_at rf args (skip + k)" if "k < length (ae_Entries args')" for k
    unfolding agrees_at_def f(1) idx using that f(2,3) by simp
  have new: "snapshotIndex rf < ae_PrevLogIndex args + 1 + int k \<longleftrightarrow> skip \<le> k" for k using s by auto
  have all: "agrees_at rf args k"
    if "\<forall>q < b. q < length (ae_Entries args') \<longrightarrow> agrees_at rf args' q" "k < length (ae_Entries args)" "skip \<le> k" "k < skip + b" for k b
  proof -
    have "k - skip < length (ae_Entries args')" "k - skip < b" "skip + (k - skip) = k" using that f(2) by auto
    then show ?thesis using that(1) ag [of "k - skip"] by simp
  qed
  consider (same) "\<forall>k < length (ae_Entries args'). agrees_at rf args' k" "rlog rf' = rlog rf"
    | (cut) k where "k < length (ae_Entries args')" "\<not> agrees_at rf args' k" "\<forall>q < k. q < length (ae_Entries args') \<longrightarrow> agrees_at rf args' q"
        "rlog rf' = take (nat (relIdx rf (snapshotIndex rf + 1 + int k))) (rlog rf) @ drop k (ae_Entries args')" "dirty rf'"
    using m by (auto simp: merged_def f(1))
  then show ?thesis
  proof cases
    case same
    then have "agrees_at rf args k" if "k < length (ae_Entries args)" "skip \<le> k" for k
      using all [where b = "length (ae_Entries args)", OF _ that] that by simp
    then show ?thesis using same(2) unfolding merged_def Let_def new by blast
  next
    case (cut k)
    have "rlog rf' = take (nat (relIdx rf (ae_PrevLogIndex args + 1 + int (skip + k)))) (rlog rf) @ drop (skip + k) (ae_Entries args)"
      unfolding cut(4) idx f(2) by (simp add: add.commute)
    moreover have "\<not> agrees_at rf args (skip + k)" "skip + k < length (ae_Entries args)" using cut(1,2) ag [OF cut(1)] f(2) by auto
    moreover have "agrees_at rf args q" if "q < skip + k" "q < length (ae_Entries args)" "skip \<le> q" for q
      by (rule all [OF cut(3) that(2,3,1)])
    ultimately show ?thesis using cut(5) unfolding merged_def Let_def new by (intro disjI2 exI [of _ "skip + k"]) auto
  qed
qed

lemma AppendEntries_merged:
  assumes inv: "peer_inv rf" and t: "\<not> ae_Term args < currentTerm rf" and run: "AppendEntries now r rf args = Inr (rf', rep)" "ar_Success rep"
  shows "merged rf args rf'"
proof (cases "trim_args (ae_enter now r rf args) args")
  case None
  then have "snapshotIndex rf > ae_PrevLogIndex args + int (length (ae_Entries args))" "rf' = ae_enter now r rf args"
    using run(1) t by (auto simp: trim_args_def Let_def AppendEntries_current split: if_splits)
  then show ?thesis by (auto simp: merged_def)
next
  case (Some args')
  then have c: "append_checked (ae_enter now r rf args) args' (fresh_reply (ae_Term args)) = Inr (rf', rep)" using run(1) t by (simp add: AppendEntries_current)
  have sn: "snapshotIndex (ae_enter now r rf args) \<le> ae_PrevLogIndex args'" using trim_args_Some(1) [OF Some] by simp
  have h: "holds_prev (ae_enter now r rf args) args'"
    using append_checked_rejects [OF sn, of "ae_Term args"] c run(2) by (cases "holds_prev (ae_enter now r rf args) args'") auto
  show ?thesis using merged_trim [OF Some append_checked_merged [OF sn h c]] by simp
qed

text \<open>C13: \<open>AppendEntries\<close> in full, on a peer that satisfies the invariant: a request of an older term
  changes nothing and is refused; otherwise the peer takes over the term and accepts exactly when
  the snapshot covers the previous entry or the log has it with the requested term. Accepting leaves exactly the merged log
  above: the old log, including anything after the request, when it agrees with the whole request, and otherwise the old log up to
  the first entry that is missing or has another term, followed by the entries of the request from there on, terms and commands. It keeps
  everything up to the previous entry and raises the commit index to the leader's, bounded by the end of the request. Refusing keeps the log
  and reports either the length of a log that is too short, or the conflicting term and the first
  index of its run.\<close>

theorem AppendEntries_spec:
  assumes inv: "peer_inv rf"
  shows "\<exists>rf' rep. AppendEntries now r rf args = Inr (rf', rep) \<and>
    (if ae_Term args < currentTerm rf then rf' = rf \<and> \<not> ar_Success rep \<and> ar_Term rep = currentTerm rf
     else currentTerm rf' = ae_Term args \<and> ar_Term rep = ae_Term args
       \<and> ar_Success rep = (ae_PrevLogIndex args < snapshotIndex rf \<or> holds_prev rf args)
       \<and> (if ar_Success rep then accepted rf args rf' \<and> merged rf args rf'
          else rlog rf' = rlog rf \<and> commitIndex rf' = commitIndex rf \<and> reports_conflict rf args rep))"
proof -
  obtain rf' rep where r: "AppendEntries now r rf args = Inr (rf', rep)"
    "if ae_Term args < currentTerm rf then rf' = rf \<and> \<not> ar_Success rep \<and> ar_Term rep = currentTerm rf
     else currentTerm rf' = ae_Term args \<and> ar_Term rep = ae_Term args
       \<and> ar_Success rep = (ae_PrevLogIndex args < snapshotIndex rf \<or> holds_prev rf args)
       \<and> (if ar_Success rep then accepted rf args rf'
          else rlog rf' = rlog rf \<and> commitIndex rf' = commitIndex rf \<and> reports_conflict rf args rep)"
    using AppendEntries_result [OF assms, of now r args] by blast
  have "merged rf args rf'" if "\<not> ae_Term args < currentTerm rf" "ar_Success rep"
    by (rule AppendEntries_merged [OF inv that(1) r(1) that(2)])
  then show ?thesis using r by (intro exI [of _ rf'] exI [of _ rep]) (simp split: if_splits)
qed

text \<open>A peer with five log entries, the last three after its snapshot, used in examples.\<close>

definition demo_peer :: "nat Raft" where
  "demo_peer = \<lparr>npeers = 3, me = 1, currentTerm = 3, votedFor = -1,
     rlog = [\<lparr>ed_Term = 1, ed_Command = Some 10\<rparr>, \<lparr>ed_Term = 2, ed_Command = Some 11\<rparr>,
             \<lparr>ed_Term = 2, ed_Command = Some 12\<rparr>, \<lparr>ed_Term = 2, ed_Command = Some 13\<rparr>],
     dirty = False, commitIndex = 3, lastApplied = 2, nextIndex = [6, 6, 4], matchIndex = [3, 5, 2],
     rstate = FOLLOWER, lastHeartBeat = 0, electionTimeout = 200000000, persistedLogLen = 0,
     lastSent = [None, None, None], inFlight = [False, False, False], sendSeq = [0, 0, 0],
     snapshot = [7], snapshotIndex = 2, snapshotTerm = 1, applied = [], woken = {}\<rparr>"

lemma demo_peer_inv: "peer_inv demo_peer"
  by (simp add: demo_peer_def inv_defs idx_defs)

text \<open>A request of term 3 that agrees up to index 3 and replaces index 4.\<close>

definition demo_append :: "nat AppendEntriesArgs" where
  "demo_append = \<lparr>ae_Term = 3, ae_LeaderId = 0, ae_PrevLogIndex = 3, ae_PrevLogTerm = 2,
     ae_Entries = [\<lparr>ed_Term = 3, ed_Command = Some 20\<rparr>], ae_LeaderCommit = 9\<rparr>"

lemma demo_holds_prev: "holds_prev demo_peer demo_append"
  by (simp add: holds_prev_def entry_at_def demo_peer_def demo_append_def idx_ok_def relIdx_def)

theorem AppendEntries_spec_witness:
  "\<exists>rf' rep. AppendEntries 0 0 demo_peer demo_append = Inr (rf', rep) \<and> ar_Success rep \<and> accepted demo_peer demo_append rf'
     \<and> merged demo_peer demo_append rf'"
proof -
  have t: "\<not> ae_Term demo_append < currentTerm demo_peer" by (simp add: demo_append_def demo_peer_def)
  from AppendEntries_spec [OF demo_peer_inv, of 0 0 demo_append] t demo_holds_prev
  show ?thesis by auto
qed

section \<open>Duplicated and delayed requests\<close>

lemma merge_entries_same:
  "idx + length es \<le> length lg \<Longrightarrow> \<forall>k < length es. ed_Term (lg ! (idx + k)) = ed_Term (es ! k)
    \<Longrightarrow> merge_entries lg idx es = (lg, False)"
proof (induction es arbitrary: idx)
  case (Cons e es)
  have "ed_Term (lg ! idx) = ed_Term e" using Cons.prems(2) by force
  moreover have "merge_entries lg (Suc idx) es = (lg, False)"
    using Cons.prems by (intro Cons.IH) force+
  ultimately show ?case using Cons.prems(1) by simp
qed simp

definition covers :: "'c Raft \<Rightarrow> 'c AppendEntriesArgs \<Rightarrow> bool" where
  "covers rf args \<longleftrightarrow> (\<forall>k < length (ae_Entries args). snapshotIndex rf < ae_PrevLogIndex args + 1 + int k \<longrightarrow>
     map_option ed_Term (entry_at rf (ae_PrevLogIndex args + 1 + int k)) = Some (ed_Term (ae_Entries args ! k)))"

lemma coversD:
  "covers rf args \<Longrightarrow> k < length (ae_Entries args) \<Longrightarrow> snapshotIndex rf < ae_PrevLogIndex args + 1 + int k
    \<Longrightarrow> map_option ed_Term (entry_at rf (ae_PrevLogIndex args + 1 + int k)) = Some (ed_Term (ae_Entries args ! k))"
  by (simp add: covers_def)

lemma append_checked_covered:
  assumes sn: "snapshotIndex rf \<le> ae_PrevLogIndex args" and h: "holds_prev rf args" and c: "covers rf args"
    and run: "append_checked rf args rep = Inr (rf', rep')"
  shows "rlog rf' = rlog rf \<and> dirty rf' = dirty rf"
proof -
  define j where "j = nat (relIdx rf (ae_PrevLogIndex args))"
  have ok: "idx_ok (rlog rf) (relIdx rf (ae_PrevLogIndex args))" and e: "ed_Term (rlog rf ! j) = ae_PrevLogTerm args"
    using h by (auto simp: holds_prev_def entry_at_def j_def split: if_splits)
  have j: "j < length (rlog rf)" "ae_PrevLogIndex args = int j + snapshotIndex rf" "ae_PrevLogIndex args < absIdx rf (loglen rf)"
    using ok sn by (auto simp: idx_ok_def j_def relIdx_def absIdx_def)
  have k: "Suc j + k < length (rlog rf) \<and> ed_Term (rlog rf ! (Suc j + k)) = ed_Term (ae_Entries args ! k)"
    if "k < length (ae_Entries args)" for k
  proof -
    have i: "ae_PrevLogIndex args + 1 + int k = int (Suc j + k) + snapshotIndex rf" using j(2) by simp
    have "map_option ed_Term (entry_at rf (int (Suc j + k) + snapshotIndex rf)) = Some (ed_Term (ae_Entries args ! k))"
      using coversD [OF c that] sn unfolding i by simp
    then show ?thesis unfolding entry_at_log by (auto split: if_splits)
  qed
  have "Suc j + length (ae_Entries args) \<le> length (rlog rf)"
    using k [of "length (ae_Entries args) - 1"] j(1) by (cases "ae_Entries args") auto
  with k have "merge_entries (rlog rf) (Suc j) (ae_Entries args) = (rlog rf, False)"
    by (intro merge_entries_same) auto
  then show ?thesis using run ok e j(3)
    by (auto simp: append_checked_def slice_get_in j_def [symmetric] Let_def split: if_splits)
qed

lemma covers_trim:
  assumes t: "trim_args rf args = Some args'" and c: "covers rf args"
  shows "covers rf args'"
proof (cases "ae_PrevLogIndex args < snapshotIndex rf")
  case False
  then show ?thesis using assms by (simp add: trim_args_def)
next
  case True
  define skip where "skip = nat (snapshotIndex rf - ae_PrevLogIndex args)"
  have f: "ae_PrevLogIndex args' = snapshotIndex rf" "ae_Entries args' = drop skip (ae_Entries args)"
    using t True by (auto simp: trim_args_def Let_def skip_def split: if_splits)
  have s: "snapshotIndex rf + 1 + int q = ae_PrevLogIndex args + 1 + int (skip + q)" for q using True by (simp add: skip_def)
  show ?thesis unfolding covers_def f s
  proof (intro allI impI)
    fix q assume q: "q < length (drop skip (ae_Entries args))" "snapshotIndex rf < ae_PrevLogIndex args + 1 + int (skip + q)"
    then have "skip + q < length (ae_Entries args)" by simp
    from coversD [OF c this q(2)] this
    show "map_option ed_Term (entry_at rf (ae_PrevLogIndex args + 1 + int (skip + q)))
        = Some (ed_Term (drop skip (ae_Entries args) ! q))" by simp
  qed
qed

lemma covers_enter [simp]: "covers (ae_enter now r rf a) args = covers rf args"
  by (simp add: covers_def)

text \<open>A request whose entries are all in the log already, with their terms, leaves the log as it is,
  whatever the log holds beyond them: a duplicated or delayed request of the current leader never
  cuts the log.\<close>

theorem AppendEntries_keeps_covered:
  assumes run: "AppendEntries now r rf args = Inr (rf', rep)" and c: "covers rf args"
  shows "rlog rf' = rlog rf"
proof (cases "ae_Term args < currentTerm rf")
  case True
  then show ?thesis using run by (simp add: AppendEntries_def Let_def)
next
  case t: False
  show ?thesis
  proof (cases "trim_args (ae_enter now r rf args) args")
    case None
    then show ?thesis using run t by (auto simp: AppendEntries_current)
  next
    case (Some args')
    have run': "append_checked (ae_enter now r rf args) args' (fresh_reply (ae_Term args)) = Inr (rf', rep)"
      using run t Some by (simp add: AppendEntries_current)
    show ?thesis
    proof (cases "holds_prev (ae_enter now r rf args) args'")
      case True
      from append_checked_covered [OF trim_args_Some(1) [OF Some] True covers_trim [OF Some] run'] c
      show ?thesis by simp
    next
      case False
      from append_checked_rejects [OF trim_args_Some(1) [OF Some] False, of "ae_Term args"] run'
      show ?thesis by auto
    qed
  qed
qed

text \<open>The example request agrees with index 4 of a peer that already has more entries.\<close>

definition demo_dup :: "nat AppendEntriesArgs" where
  "demo_dup = \<lparr>ae_Term = 3, ae_LeaderId = 0, ae_PrevLogIndex = 3, ae_PrevLogTerm = 2,
     ae_Entries = [\<lparr>ed_Term = 2, ed_Command = Some 12\<rparr>], ae_LeaderCommit = 3\<rparr>"

theorem AppendEntries_keeps_covered_witness:
  "\<exists>rf' rep. AppendEntries 0 0 demo_peer demo_dup = Inr (rf', rep) \<and> rlog rf' = rlog demo_peer \<and> length (rlog rf') = 4"
proof -
  have c: "covers demo_peer demo_dup"
    by (simp add: covers_def demo_peer_def demo_dup_def entry_at_def relIdx_def idx_ok_def)
  have h: "holds_prev demo_peer demo_dup" "\<not> ae_Term demo_dup < currentTerm demo_peer"
    by (simp_all add: holds_prev_def entry_at_def demo_peer_def demo_dup_def idx_ok_def relIdx_def)
  from AppendEntries_accepts [OF demo_peer_inv h(2) disjI2 [OF h(1)], of 0 0] obtain rf' rep where
    a: "AppendEntries 0 0 demo_peer demo_dup = Inr (rf', rep)" by blast
  with AppendEntries_keeps_covered [OF a c] show ?thesis by (simp add: demo_peer_def)
qed

section \<open>One exchange between leader and follower\<close>

lemma entry_at_nth:
  "snapshotIndex rf \<le> i \<Longrightarrow> i \<le> lastIdx rf \<Longrightarrow> entry_at rf i = Some (rlog rf ! nat (relIdx rf i))"
  by (simp add: entry_at_def idx_ok_def idx_defs)

lemma replicator_send_append:
  assumes inv: "peer_inv L" and srv: "server < npeers L" "server \<noteq> me L"
    and send: "replicator_send now server L = Inr (L', Some (SendAppend a sq))"
  shows "map_option ed_Term (entry_at L (ae_PrevLogIndex a)) = Some (ae_PrevLogTerm a)"
    and "\<And>k. k < length (ae_Entries a) \<Longrightarrow> entry_at L (ae_PrevLogIndex a + 1 + int k) = Some (ae_Entries a ! k)"
    and "ae_Term a = currentTerm L" "rlog L' = rlog L" "snapshotIndex L' = snapshotIndex L"
    and "nextIndex L' = nextIndex L" "matchIndex L' = matchIndex L" "ae_PrevLogIndex a = nextIndex L ! server - 1"
    and "snapshotIndex L \<le> ae_PrevLogIndex a" "ae_PrevLogIndex a \<le> lastIdx L"
proof -
  let ?p = "ae_PrevLogIndex a"
  from replicator_send_result [OF inv srv, of now] send have r: "snapshotIndex L \<le> ?p"
    "?p + int (length (ae_Entries a)) \<le> lastIdx L" "ae_Term a = currentTerm L"
    "ae_PrevLogTerm a = ed_Term (rlog L ! nat (relIdx L ?p))"
    "ae_Entries a = [] \<or> ae_Entries a = drop (nat (relIdx L ?p) + 1) (rlog L)" by auto
  show "ae_Term a = currentTerm L" "snapshotIndex L \<le> ?p" "?p \<le> lastIdx L" using r(1-3) by auto
  then show "map_option ed_Term (entry_at L ?p) = Some (ae_PrevLogTerm a)" using r(4) by (simp add: entry_at_nth)
  show "entry_at L (?p + 1 + int k) = Some (ae_Entries a ! k)" if "k < length (ae_Entries a)" for k
  proof -
    have e: "ae_Entries a = drop (nat (relIdx L ?p) + 1) (rlog L)" using r(5) that by auto
    have "nat (relIdx L (?p + 1 + int k)) = nat (relIdx L ?p) + 1 + k" using r(1) by (simp add: relIdx_def)
    moreover have "entry_at L (?p + 1 + int k) = Some (rlog L ! nat (relIdx L (?p + 1 + int k)))"
      by (rule entry_at_nth) (use r(1,2) that in auto)
    ultimately show ?thesis using that e by simp
  qed
  show "rlog L' = rlog L" "snapshotIndex L' = snapshotIndex L" "nextIndex L' = nextIndex L"
    "matchIndex L' = matchIndex L" "?p = nextIndex L ! server - 1"
    using send by (auto simp: replicator_send_def Let_def rbind_eq_Inr slice_get_eq_Inr split: if_splits)
qed

text \<open>When a follower accepts a request the leader's replicator sent, the two logs agree in term on
  the previous index and on every index of the request that the follower's snapshot does not cover;
  what the follower marks committed is bounded by the leader's commit index.\<close>

theorem replication_agrees:
  assumes inv: "peer_inv L" "peer_inv F" and srv: "server < npeers L" "server \<noteq> me L"
    and send: "replicator_send now server L = Inr (L', Some (SendAppend a sq))"
    and recv: "AppendEntries now' r F a = Inr (F', rep)" "ar_Success rep"
  shows "(\<forall>i. snapshotIndex F < i \<longrightarrow> ae_PrevLogIndex a \<le> i \<longrightarrow> i \<le> ae_PrevLogIndex a + int (length (ae_Entries a)) \<longrightarrow>
      map_option ed_Term (entry_at F' i) = map_option ed_Term (entry_at L i) \<and> entry_at L i \<noteq> None)
    \<and> commitIndex F' \<le> max (commitIndex F) (ae_LeaderCommit a)"
proof -
  note snd = replicator_send_append [OF inv(1) srv send]
  have t: "\<not> ae_Term a < currentTerm F"
    and h: "ae_PrevLogIndex a < snapshotIndex F \<or> holds_prev F a" and acc: "accepted F a F'"
    using AppendEntries_result [OF inv(2), of now' r a] recv by (auto split: if_splits)
  have "map_option ed_Term (entry_at F' i) = map_option ed_Term (entry_at L i) \<and> entry_at L i \<noteq> None"
    if i: "snapshotIndex F < i" "ae_PrevLogIndex a \<le> i" "i \<le> ae_PrevLogIndex a + int (length (ae_Entries a))" for i
  proof (cases "i = ae_PrevLogIndex a")
    case True
    then have "entry_at F' i = entry_at F i" using acc by (auto simp: accepted_def)
    moreover have "holds_prev F a" using h i True by simp
    ultimately show ?thesis using snd(1) True by (auto simp: holds_prev_def)
  next
    case False
    define k where "k = nat (i - ae_PrevLogIndex a - 1)"
    have k: "k < length (ae_Entries a)" "i = ae_PrevLogIndex a + 1 + int k" using False i(2,3) by (auto simp: k_def)
    have "map_option ed_Term (entry_at F' i) = Some (ed_Term (ae_Entries a ! k))"
      using acc k i(1) unfolding accepted_def by blast
    then show ?thesis using snd(2) [OF k(1)] k(2) by simp
  qed
  moreover have "commitIndex F' \<le> max (commitIndex F) (ae_LeaderCommit a)" using acc by (auto simp: accepted_def)
  ultimately show ?thesis by blast
qed

text \<open>A leader of term 3 that sends index 4 to server 1.\<close>

definition demo_leader :: "nat Raft" where
  "demo_leader = \<lparr>npeers = 3, me = 0, currentTerm = 3, votedFor = 0,
     rlog = [\<lparr>ed_Term = 0, ed_Command = None\<rparr>, \<lparr>ed_Term = 1, ed_Command = Some 9\<rparr>, \<lparr>ed_Term = 1, ed_Command = Some 10\<rparr>,
             \<lparr>ed_Term = 2, ed_Command = Some 11\<rparr>, \<lparr>ed_Term = 3, ed_Command = Some 20\<rparr>],
     dirty = False, commitIndex = 3, lastApplied = 3, nextIndex = [5, 4, 5], matchIndex = [4, 0, 3],
     rstate = LEADER, lastHeartBeat = 0, electionTimeout = 200000000, persistedLogLen = 0,
     lastSent = [None, None, None], inFlight = [False, False, False], sendSeq = [0, 0, 0],
     snapshot = [], snapshotIndex = 0, snapshotTerm = 0, applied = [], woken = {}\<rparr>"

lemma demo_leader_inv: "peer_inv demo_leader"
  by (auto simp: demo_leader_def inv_defs idx_defs less_Suc_eq numeral_3_eq_3)

definition demo_sent :: "nat AppendEntriesArgs" where
  "demo_sent = \<lparr>ae_Term = 3, ae_LeaderId = 0, ae_PrevLogIndex = 3, ae_PrevLogTerm = 2,
     ae_Entries = [\<lparr>ed_Term = 3, ed_Command = Some 20\<rparr>], ae_LeaderCommit = 3\<rparr>"

lemma demo_leader_sends:
  "\<exists>L'. replicator_send 5 1 demo_leader = Inr (L', Some (SendAppend demo_sent 1))"
  by (simp add: replicator_send_def shouldSend_def demo_leader_def demo_sent_def since_def heartBeatInterval_def
      slice_get_def slice_from_def slice_range_def idx_ok_def relIdx_def Let_def)

theorem replication_agrees_witness:
  "\<exists>F' rep. AppendEntries 0 0 demo_peer demo_sent = Inr (F', rep) \<and> ar_Success rep
     \<and> map_option ed_Term (entry_at F' 4) = map_option ed_Term (entry_at demo_leader 4)"
proof -
  have h: "holds_prev demo_peer demo_sent" "\<not> ae_Term demo_sent < currentTerm demo_peer"
    by (simp_all add: holds_prev_def entry_at_def demo_peer_def demo_sent_def idx_ok_def relIdx_def)
  from AppendEntries_accepts [OF demo_peer_inv h(2) disjI2 [OF h(1)], of 0 0] obtain F' rep where
    a: "AppendEntries 0 0 demo_peer demo_sent = Inr (F', rep)" "ar_Success rep" by auto
  obtain L' where s: "replicator_send 5 1 demo_leader = Inr (L', Some (SendAppend demo_sent 1))"
    using demo_leader_sends by blast
  have "snapshotIndex demo_peer < 4" "ae_PrevLogIndex demo_sent \<le> 4"
    "4 \<le> ae_PrevLogIndex demo_sent + int (length (ae_Entries demo_sent))" "1 < npeers demo_leader" "1 \<noteq> me demo_leader"
    by (simp_all add: demo_peer_def demo_sent_def demo_leader_def)
  with replication_agrees [OF demo_leader_inv demo_peer_inv _ _ s a] a show ?thesis by blast
qed

end
