(* ===== verification/Raft_Service.thy ===== *)
theory Raft_Service
  imports Raft_Replication
begin

text \<open>
  What a Raft peer promises the rest of the system: it never panics on the events a correct cluster
  sends it, its terms and votes and indices move in one direction only, it grants votes by the
  election rule, commits by the quorum rule, delivers committed commands in order, cuts its log at
  snapshots without losing entries, and comes back from a crash with the state it saved.
\<close>

section \<open>Every run of a peer\<close>

text \<open>From start-up, fresh or from saved state, and through every sequence of events that satisfy
  what the rest of the cluster promises, no event makes a peer panic, and the invariant holds after
  it.\<close>

theorem peer_never_panics:
  assumes "reach peer_init peer_trans rf" and "event_ok ev rf"
  shows "\<exists>rf'. peer_step ev rf = Inr rf' \<and> peer_inv rf'"
  using peer_step_inv [OF peer_run.reach_inv [OF assms(1)] assms(2)] .

definition demo_fresh :: "nat Raft" where
  "demo_fresh = \<lparr>npeers = 3, me = 0, currentTerm = 0, votedFor = -1,
     rlog = [\<lparr>ed_Term = 0, ed_Command = None\<rparr>], dirty = False, commitIndex = 0, lastApplied = 0,
     nextIndex = [1, 1, 1], matchIndex = [0, 0, 0], rstate = FOLLOWER,
     lastHeartBeat = 0, electionTimeout = 150000000, persistedLogLen = 0,
     lastSent = [None, None, None], inFlight = [False, False, False], sendSeq = [0, 0, 0],
     snapshot = [], snapshotIndex = 0, snapshotTerm = 0, applied = [], woken = {}\<rparr>"

lemma demo_fresh_Make: "Make (\<lambda>_. None) 0 0 3 0 MakePersister = Inr demo_fresh"
  by (simp add: Make_def readPersist_def MakePersister_def ReadRaftState_def ReadSnapshot_def resetElection_def
      demo_fresh_def absIdx_def Let_def numeral_3_eq_3)

lemma demo_fresh_init: "peer_init demo_fresh"
proof -
  have "ReadRaftState MakePersister = []" by (simp add: MakePersister_def ReadRaftState_def)
  moreover have "pstate_ok (fresh_pstate :: nat pstate)" by (simp add: pstate_ok_def fresh_pstate_def)
  moreover have "(0::nat) < 3" by simp
  ultimately show ?thesis unfolding peer_init_def using demo_fresh_Make by blast
qed

theorem peer_never_panics_witness:
  "\<exists>rf'. peer_step (EvTick 300000000 7) demo_fresh = Inr rf' \<and> peer_inv rf' \<and> currentTerm rf' = 1 \<and> rstate rf' = CANDIDATE"
proof -
  from peer_never_panics [OF reach_init [where init = peer_init and step = peer_trans, OF demo_fresh_init], of "EvTick 300000000 7"]
  obtain rf' where r: "peer_step (EvTick 300000000 7) demo_fresh = Inr rf'" "peer_inv rf'" by auto
  then have "currentTerm rf' = 1 \<and> rstate rf' = CANDIDATE"
    by (auto simp: ticker_def attemptElection_def startElectionState_def resetElection_def demo_fresh_def
        slice_get_def broadcast_def Let_def)
  with r show ?thesis by blast
qed

text \<open>C26: over any sequence of events, terms, commit index, snapshot index and last applied index never
  fall, a vote cast in a term is never changed within that term, and what was delivered to the
  service stays delivered.\<close>

theorem peer_monotone:
  assumes "run_events evs rf = Inr rf'"
  shows "currentTerm rf \<le> currentTerm rf'
    \<and> (currentTerm rf' = currentTerm rf \<longrightarrow> votedFor rf \<noteq> -1 \<longrightarrow> votedFor rf' = votedFor rf)
    \<and> commitIndex rf \<le> commitIndex rf' \<and> snapshotIndex rf \<le> snapshotIndex rf'
    \<and> lastApplied rf \<le> lastApplied rf' \<and> (\<exists>ms. applied rf' = applied rf @ ms)"
  using run_events_grows [OF assms] by (auto simp: grows_def)

lemma demo_run: "\<exists>rf'. run_events [EvTick 300000000 7, EvStart 5] demo_fresh = Inr rf'"
  by (simp add: ticker_def attemptElection_def startElectionState_def resetElection_def demo_fresh_def
        slice_get_def broadcast_def Let_def)

theorem peer_monotone_witness:
  "\<exists>rf'. run_events [EvTick 300000000 7, EvStart 5] demo_fresh = Inr rf' \<and> currentTerm demo_fresh \<le> currentTerm rf'"
proof -
  obtain rf' where "run_events [EvTick 300000000 7, EvStart 5] demo_fresh = Inr rf'" using demo_run by blast
  with peer_monotone [OF this] show ?thesis by blast
qed

section \<open>Votes\<close>

definition lastTerm :: "'c Raft \<Rightarrow> int" where
  "lastTerm rf = ed_Term (rlog rf ! (length (rlog rf) - 1))"

definition up_to_date :: "'c Raft \<Rightarrow> RequestVoteArgs \<Rightarrow> bool" where
  "up_to_date rf args \<longleftrightarrow> rv_LastLogTerm args > lastTerm rf
     \<or> rv_LastLogTerm args = lastTerm rf \<and> rv_LastLogIndex args \<ge> lastIdx rf"

lemma slice_get_last: "rlog rf \<noteq> [] \<Longrightarrow> slice_get (rlog rf) (loglen rf - 1) = Inr (rlog rf ! (length (rlog rf) - 1))"
  by (cases "rlog rf") (simp_all add: slice_get_def idx_ok_def)

lemma RequestVote_result:
  assumes inv: "peer_inv rf"
  shows "\<exists>rf' rep. RequestVote now r rf args = Inr (rf', rep)
    \<and> vr_VoteGranted rep = (currentTerm rf \<le> rv_Term args
         \<and> (currentTerm rf < rv_Term args \<or> votedFor rf = -1 \<or> votedFor rf = rv_CandidateId args) \<and> up_to_date rf args)
    \<and> currentTerm rf' = max (currentTerm rf) (rv_Term args) \<and> vr_Term rep = currentTerm rf'
    \<and> votedFor rf' = (if vr_VoteGranted rep then rv_CandidateId args
                      else if currentTerm rf < rv_Term args then -1 else votedFor rf)
    \<and> (vr_VoteGranted rep \<longrightarrow> dirty rf') \<and> rlog rf' = rlog rf
    \<and> (currentTerm rf < rv_Term args \<longrightarrow> rstate rf' = FOLLOWER)"
proof (cases "rv_Term args < currentTerm rf")
  case True
  then show ?thesis by (simp add: RequestVote_def)
next
  case False
  have ne: "rlog rf \<noteq> []" using inv by (simp add: inv_defs)
  define rf1 where "rf1 = (if rv_Term args > currentTerm rf then stepDownToFollower (rv_Term args) rf else rf)"
  have f: "rlog rf1 = rlog rf" "snapshotIndex rf1 = snapshotIndex rf" "currentTerm rf1 = rv_Term args"
    "votedFor rf1 = (if rv_Term args > currentTerm rf then -1 else votedFor rf)"
    "currentTerm rf < rv_Term args \<Longrightarrow> rstate rf1 = FOLLOWER"
    using False by (auto simp: rf1_def)
  have g: "slice_get (rlog rf) (loglen rf - 1) = Inr (rlog rf ! (length (rlog rf) - 1))" by (rule slice_get_last [OF ne])
  have e: "RequestVote now r rf args =
      (if (votedFor rf1 = -1 \<or> votedFor rf1 = rv_CandidateId args) \<and> up_to_date rf args
       then Inr (broadcast PersistCond (resetElection now r (rf1\<lparr>votedFor := rv_CandidateId args, dirty := True\<rparr>)),
                 \<lparr>vr_Term = rv_Term args, vr_VoteGranted = True\<rparr>)
       else Inr (broadcast PersistCond rf1, \<lparr>vr_Term = rv_Term args, vr_VoteGranted = False\<rparr>))"
    using False f g unfolding RequestVote_def rf1_def [symmetric]
    by (simp add: Let_def up_to_date_def lastTerm_def lastIdx_def absIdx_def diff_add_eq)
  show ?thesis
  proof (cases "(votedFor rf1 = -1 \<or> votedFor rf1 = rv_CandidateId args) \<and> up_to_date rf args")
    case True
    then show ?thesis using e f False by (auto split: if_splits)
  next
    case F: False
    then show ?thesis using e f False by (auto split: if_splits)
  qed
qed

text \<open>\<open>RequestVote\<close> grants a vote exactly when the request is not of an older term, the peer has
  not voted for another candidate in that term, and the candidate's log is at least as up to date as
  its own, by the term of the last entry first and its index second. The peer adopts the request's
  term if it is newer; a granted vote is recorded and marked for saving; the log stays as it is.\<close>

theorem RequestVote_spec:
  assumes inv: "peer_inv rf"
  shows "\<exists>rf' rep. RequestVote now r rf args = Inr (rf', rep)
    \<and> vr_VoteGranted rep = (currentTerm rf \<le> rv_Term args
         \<and> (currentTerm rf < rv_Term args \<or> votedFor rf = -1 \<or> votedFor rf = rv_CandidateId args) \<and> up_to_date rf args)
    \<and> currentTerm rf' = max (currentTerm rf) (rv_Term args) \<and> vr_Term rep = currentTerm rf'
    \<and> votedFor rf' = (if vr_VoteGranted rep then rv_CandidateId args
                      else if currentTerm rf < rv_Term args then -1 else votedFor rf)
    \<and> (vr_VoteGranted rep \<longrightarrow> dirty rf') \<and> rlog rf' = rlog rf
    \<and> (currentTerm rf < rv_Term args \<longrightarrow> rstate rf' = FOLLOWER)"
  by (rule RequestVote_result [OF assms])

theorem RequestVote_spec_witness:
  "\<exists>rf' rep. RequestVote 0 0 demo_peer \<lparr>rv_Term = 4, rv_CandidateId = 2, rv_LastLogIndex = 5, rv_LastLogTerm = 2\<rparr> = Inr (rf', rep)
     \<and> vr_VoteGranted rep \<and> votedFor rf' = 2 \<and> currentTerm rf' = 4"
proof -
  let ?a = "\<lparr>rv_Term = 4, rv_CandidateId = 2, rv_LastLogIndex = 5, rv_LastLogTerm = 2\<rparr>"
  have "currentTerm demo_peer < rv_Term ?a" "up_to_date demo_peer ?a"
    by (simp_all add: demo_peer_def up_to_date_def lastTerm_def idx_defs)
  with RequestVote_spec [OF demo_peer_inv, of 0 0 ?a] show ?thesis by auto
qed

section \<open>Committing\<close>

text \<open>C5: the commit rule. \<open>updateCommitIndex\<close> on a leader never panics and changes nothing but the commit
  index. When it moves it, the new index is larger, inside the log, holds an entry of the leader's
  current term and is on a set of servers that meets every set of servers large enough to elect a
  leader (more than half, as \<open>attemptElection\<close> counts), also for an even number of servers.\<close>

theorem commit_rule:
  assumes inv: "peer_inv rf" and ld: "rstate rf = LEADER"
  shows "\<exists>rf'. updateCommitIndex rf = Inr rf' \<and> persistent rf' = persistent rf \<and> matchIndex rf' = matchIndex rf
    \<and> (commitIndex rf' = commitIndex rf \<or>
        (commitIndex rf < commitIndex rf' \<and> commitIndex rf' \<le> lastIdx rf
         \<and> map_option ed_Term (entry_at rf (commitIndex rf')) = Some (currentTerm rf)
         \<and> (\<forall>Q. Q \<subseteq> {..<npeers rf} \<longrightarrow> card Q > npeers rf div 2 \<longrightarrow> Q \<inter> replicated_on rf (commitIndex rf') \<noteq> {})))"
proof -
  from updateCommitIndex_result [OF assms] obtain N where N: "updateCommitIndex rf = Inr rf \<or>
    (updateCommitIndex rf = Inr (broadcast ApplyCond (rf\<lparr>commitIndex := N\<rparr>))
       \<and> commitIndex rf < N \<and> N \<le> lastIdx rf \<and> ed_Term (rlog rf ! nat (relIdx rf N)) = currentTerm rf
       \<and> npeers rf - npeers rf div 2 \<le> card (replicated_on rf N))" by blast
  show ?thesis
  proof (cases "updateCommitIndex rf = Inr rf")
    case True
    then show ?thesis by simp
  next
    case False
    then have n: "updateCommitIndex rf = Inr (broadcast ApplyCond (rf\<lparr>commitIndex := N\<rparr>))"
      "commitIndex rf < N" "N \<le> lastIdx rf" "ed_Term (rlog rf ! nat (relIdx rf N)) = currentTerm rf"
      "npeers rf - npeers rf div 2 \<le> card (replicated_on rf N)" using N by auto
    have "snapshotIndex rf \<le> N" using inv n(2) by (auto simp: inv_defs)
    then have "map_option ed_Term (entry_at rf N) = Some (currentTerm rf)" using n(3,4) by (simp add: entry_at_nth)
    moreover have "Q \<inter> replicated_on rf N \<noteq> {}" if "Q \<subseteq> {..<npeers rf}" "card Q > npeers rf div 2" for Q
      by (rule card_meet [of _ "{..<npeers rf}"]) (use that n(5) in \<open>auto simp: replicated_on_def\<close>)
    ultimately show ?thesis using n by (simp add: persistent_def)
  qed
qed

lemma demo_leader_commits:
  "updateCommitIndex (demo_leader\<lparr>matchIndex := [4, 0, 4]\<rparr>) =
     Inr (broadcast ApplyCond (demo_leader\<lparr>matchIndex := [4, 0, 4], commitIndex := 4\<rparr>))"
  by (simp add: updateCommitIndex_def demo_leader_def slice_set_def slice_get_def idx_ok_def absIdx_def relIdx_def)

theorem commit_rule_witness:
  "{0, 1} \<inter> replicated_on (demo_leader\<lparr>matchIndex := [4, 0, 4]\<rparr>) 4 \<noteq> {}"
proof -
  let ?rf = "demo_leader\<lparr>matchIndex := [4, 0, 4]\<rparr>"
  have i: "peer_inv ?rf" "rstate ?rf = LEADER"
    by (auto simp: demo_leader_def inv_defs idx_defs less_Suc_eq numeral_3_eq_3)
  from commit_rule [OF i] have "\<forall>Q. Q \<subseteq> {..<npeers ?rf} \<longrightarrow> card Q > npeers ?rf div 2 \<longrightarrow> Q \<inter> replicated_on ?rf 4 \<noteq> {}"
    unfolding demo_leader_commits by (auto simp: demo_leader_def)
  moreover have "{0, 1} \<subseteq> {..<npeers ?rf}" "card {0, 1 :: nat} > npeers ?rf div 2" by (auto simp: demo_leader_def)
  ultimately show ?thesis by blast
qed

section \<open>Delivering commands\<close>

lemma applier_deliver_applied:
  "applied (applier_deliver i es rf) = applied rf @ map (\<lambda>k. command_msg (i + int k) (es ! k)) [0..<length es]"
proof (induction i es rf rule: applier_deliver.induct)
  case (2 i e es rf)
  have "map (\<lambda>k. command_msg (i + int k) ((e # es) ! k)) [0..<length (e # es)]
      = command_msg i e # map (\<lambda>k. command_msg (i + 1 + int k) (es ! k)) [0..<length es]"
    by (simp add: upt_conv_Cons map_Suc_upt [symmetric] add.assoc del: upt_Suc)
  then show ?case using 2 by (simp add: applier_send_def)
qed simp

lemma applier_deliver_fields [simp]:
  "lastApplied (applier_deliver i es rf) = lastApplied rf" "commitIndex (applier_deliver i es rf) = commitIndex rf"
  "rlog (applier_deliver i es rf) = rlog rf" "snapshotIndex (applier_deliver i es rf) = snapshotIndex rf"
  by (induction i es rf rule: applier_deliver.induct) (simp_all add: applier_send_def)

text \<open>One pass of the applier delivers exactly the committed commands after the last applied index
  and after the snapshot, in the order of the log, each once and with its own index, and then
  everything committed counts as applied.\<close>

lemma applier_pass_commands:
  assumes inv: "peer_inv rf"
  shows "\<exists>rf' es. applier_pass rf = Inr rf' \<and> applied rf' = applied rf @ es
    \<and> lastApplied rf' = commitIndex rf
    \<and> map am_CommandIndex es = map (\<lambda>k. max (lastApplied rf) (snapshotIndex rf) + 1 + int k)
          [0..<nat (commitIndex rf - max (lastApplied rf) (snapshotIndex rf))]
    \<and> (\<forall>m \<in> set es. am_CommandValid m \<and> \<not> am_SnapshotValid m \<and> map_option ed_Command (entry_at rf (am_CommandIndex m)) = Some (am_Command m))"
proof (cases "lastApplied rf < commitIndex rf")
  case False
  then have "lastApplied rf = commitIndex rf" "snapshotIndex rf \<le> commitIndex rf" using inv by (auto simp: inv_defs)
  then show ?thesis by (simp add: applier_pass_def applier_take_def)
next
  case True
  define lo where "lo = max (lastApplied rf) (snapshotIndex rf) + 1"
  define n where "n = nat (commitIndex rf - max (lastApplied rf) (snapshotIndex rf))"
  define es where "es = take n (drop (nat (relIdx rf lo)) (rlog rf))"
  have len: "length es = n" "snapshotIndex rf < lo" "\<And>k. k < n \<Longrightarrow> lo + int k \<le> lastIdx rf"
    using inv True by (auto simp: es_def n_def lo_def inv_defs idx_defs)
  have nth: "entry_at rf (lo + int k) = Some (es ! k)" if "k < n" for k
  proof -
    have "nat (relIdx rf (lo + int k)) = nat (relIdx rf lo) + k" using len(2) by (simp add: relIdx_def nat_add_distrib)
    moreover have "es ! k = rlog rf ! (nat (relIdx rf lo) + k)" using that len(1) by (simp add: es_def)
    ultimately show ?thesis using len(2) len(3) [OF that] by (simp add: entry_at_nth)
  qed
  define rf' where "rf' = applier_finish (commitIndex rf) (applier_deliver lo es rf)"
  have run: "applier_pass rf = Inr rf'"
    using applier_take_result [OF inv True] by (simp add: applier_pass_def rf'_def lo_def n_def es_def)
  have ap: "applied rf' = applied rf @ map (\<lambda>k. command_msg (lo + int k) (es ! k)) [0..<n]"
    "lastApplied rf' = commitIndex rf"
    using True len(1) by (auto simp: rf'_def applier_finish_def applier_deliver_applied)
  show ?thesis
    by (rule exI [of _ rf'], rule exI [of _ "map (\<lambda>k. command_msg (lo + int k) (es ! k)) [0..<n]"])
      (use run ap nth in \<open>auto simp: command_msg_def n_def [symmetric] lo_def\<close>)
qed

section \<open>Snapshots\<close>

text \<open>A snapshot at an index inside the log becomes the start of the log: from that index on every entry is
  still there, and the term, the vote, the last index and the commit index are unchanged. At an
  index already covered, or beyond the log, the call changes nothing.\<close>

theorem Snapshot_spec:
  assumes inv: "peer_inv rf"
  shows "\<exists>rf'. Snapshot index data rf = Inr rf' \<and>
    (if snapshotIndex rf < index \<and> index \<le> lastIdx rf
     then snapshotIndex rf' = index \<and> snapshot rf' = data \<and> lastIdx rf' = lastIdx rf
       \<and> map_option ed_Term (entry_at rf index) = Some (snapshotTerm rf')
       \<and> (\<forall>i \<ge> index. entry_at rf' i = entry_at rf i)
       \<and> currentTerm rf' = currentTerm rf \<and> votedFor rf' = votedFor rf \<and> commitIndex rf' = commitIndex rf
     else rf' = rf)"
proof (cases "snapshotIndex rf < index \<and> index \<le> lastIdx rf")
  case False
  then show ?thesis by (auto simp: Snapshot_def Let_def idx_defs)
next
  case True
  then have n: "\<not> (relIdx rf index \<le> 0 \<or> relIdx rf index \<ge> loglen rf)" "idx_ok (rlog rf) (relIdx rf index)"
    by (auto simp: idx_defs idx_ok_def)
  then obtain rf' where r: "Snapshot index data rf = Inr rf'" "snapshotTerm rf' = ed_Term (rlog rf ! nat (relIdx rf index))"
    by (simp add: Snapshot_def Let_def slice_get_in slice_from_in)
  with Snapshot_entries [OF r(1)] True show ?thesis by (auto simp: entry_at_nth)
qed

theorem Snapshot_spec_witness:
  "\<exists>rf'. Snapshot 3 [1, 2] demo_peer = Inr rf' \<and> snapshotIndex rf' = 3 \<and> entry_at rf' 4 = entry_at demo_peer 4"
proof -
  have "snapshotIndex demo_peer < 3 \<and> 3 \<le> lastIdx demo_peer" by (simp add: demo_peer_def idx_defs)
  with Snapshot_spec [OF demo_peer_inv, of 3 "[1, 2]"] show ?thesis by auto
qed

section \<open>Recovery\<close>

text \<open>C28: a peer restarted from what \<open>batchPersister\<close> saved has the same term, vote, log and snapshot as
  the peer that saved it, satisfies the invariant, is a follower, and counts everything up to the
  snapshot as committed and applied. The encoding is assumed to decode what it wrote for this state
  and to write at least one byte.\<close>

theorem recovery_roundtrip:
  assumes inv: "peer_inv rf" and save: "batchPersister_begin enc rf = Some (len, st, sn)"
    and codec: "dec (enc (persistent rf)) = Some (persistent rf)" "enc (persistent rf) \<noteq> []"
  shows "\<exists>rf'. Make dec now r (npeers rf) (me rf) (Save st sn ps) = Inr rf' \<and> peer_inv rf'
    \<and> persistent rf' = persistent rf \<and> snapshot rf' = snapshot rf \<and> rstate rf' = FOLLOWER
    \<and> commitIndex rf' = snapshotIndex rf \<and> lastApplied rf' = snapshotIndex rf"
proof -
  have s: "st = enc (persistent rf)" "sn = snapshot rf"
    using save by (auto simp: batchPersister_begin_def encodeState_def split: if_splits)
  have "me rf < npeers rf" using inv by (simp add: inv_defs)
  from Make_result [OF this persistent_ok [OF inv], of "Save st sn ps" dec now r] codec
  obtain rf' where "Make dec now r (npeers rf) (me rf) (Save st sn ps) = Inr rf'" "peer_inv rf'"
    "persistent rf' = persistent rf" "snapshot rf' = sn" "rstate rf' = FOLLOWER"
    "commitIndex rf' = ps_snapshotIndex (persistent rf)" "lastApplied rf' = ps_snapshotIndex (persistent rf)"
    unfolding s by auto
  moreover have "ps_snapshotIndex (persistent rf) = snapshotIndex rf" by (simp add: persistent_def)
  ultimately show ?thesis using s(2) by auto
qed

definition demo_enc :: "nat pstate \<Rightarrow> bytes" where
  "demo_enc p = [1]"

definition demo_dec :: "bytes \<Rightarrow> nat pstate option" where
  "demo_dec b = (if b = [1] then Some (persistent demo_peer) else None)"

theorem recovery_roundtrip_witness:
  "\<exists>rf'. Make demo_dec 0 0 3 1 (Save [1] [7] MakePersister) = Inr rf' \<and> persistent rf' = persistent demo_peer"
proof -
  let ?rf = "demo_peer\<lparr>dirty := True\<rparr>"
  have p: "persistent ?rf = persistent demo_peer" by (simp add: persistent_def)
  have i: "peer_inv ?rf" using demo_peer_inv by (simp add: inv_defs idx_defs)
  have s: "batchPersister_begin demo_enc ?rf = Some (4, [1], [7])"
    by (simp add: batchPersister_begin_def encodeState_def demo_enc_def demo_peer_def)
  have c: "demo_dec (demo_enc (persistent ?rf)) = Some (persistent ?rf)" "demo_enc (persistent ?rf) \<noteq> []"
    by (simp_all add: demo_dec_def demo_enc_def p)
  have n: "npeers ?rf = 3" "me ?rf = 1" by (simp_all add: demo_peer_def)
  from recovery_roundtrip [where dec = demo_dec, OF i s c, of 0 0 MakePersister] show ?thesis unfolding n p by blast
qed

section \<open>Commands from the service\<close>

text \<open>\<open>Start\<close> on a leader appends the command at the index it returns, in the current term, keeps
  everything before it and marks the state for saving; on any other peer it changes nothing and says
  so.\<close>

theorem Start_spec:
  "(case Start c rf of (rf', index, term, isLeader) \<Rightarrow>
     isLeader = (rstate rf = LEADER) \<and> term = currentTerm rf \<and> index = lastIdx rf + 1
     \<and> (if rstate rf = LEADER
        then rlog rf' = rlog rf @ [\<lparr>ed_Term = currentTerm rf, ed_Command = Some c\<rparr>] \<and> lastIdx rf' = index
          \<and> dirty rf' \<and> PersistCond \<in> woken rf' \<and> persistent rf' = (persistent rf)\<lparr>ps_log := rlog rf'\<rparr>
          \<and> entry_at rf' index = Some \<lparr>ed_Term = term, ed_Command = Some c\<rparr>
        else rf' = rf))"
proof (cases "rstate rf = LEADER")
  case False
  then show ?thesis by (simp add: Start_def idx_defs)
next
  case True
  have w: "c \<in> woken rf \<Longrightarrow> c \<in> woken (wake_replicators is rf)" for c "is" and rf :: "'a Raft"
    by (induction "is" rf rule: wake_replicators.induct) auto
  show ?thesis using True
    by (auto simp: Start_def Let_def idx_defs entry_at_def idx_ok_def persistent_def nth_append intro!: w)
qed

end
