(* ===== verification/Raft_Spec.thy ===== *)
theory Raft_Spec
  imports Raft "HOL-Library.Sublist"
begin

text \<open>
  The protocol the Raft peers follow, without snapshots, indices, timers and messages: every server has a
  term and a whole log, votes are a set, a term has at most one leader and one log, and a server takes
  over a prefix of the log of a term. The invariant of this system makes the committed prefixes of any
  two servers comparable. \<open>Raft_Log\<close> proves that the peers of \<open>raft1/raft.go\<close> refine it.
\<close>

section \<open>Quorums\<close>

definition vote_quorum :: "nat \<Rightarrow> nat set \<Rightarrow> bool" where
  "vote_quorum n Q \<longleftrightarrow> Q \<subseteq> {..<n} \<and> n div 2 < card Q"

definition commit_quorum :: "nat \<Rightarrow> nat set \<Rightarrow> bool" where
  "commit_quorum n Q \<longleftrightarrow> Q \<subseteq> {..<n} \<and> n - n div 2 \<le> card Q"

interpretation vq: quorum_pair "vote_quorum n" "vote_quorum n" for n
proof
  fix A B assume "vote_quorum n A" "vote_quorum n B"
  then show "A \<inter> B \<noteq> {}" by (intro card_meet [of _ "{..<n}"]) (auto simp: vote_quorum_def)
qed

interpretation cq: quorum_pair "commit_quorum n" "vote_quorum n" for n
proof
  fix A B assume "commit_quorum n A" "vote_quorum n B"
  then show "A \<inter> B \<noteq> {}" by (intro card_meet [of _ "{..<n}"]) (auto simp: vote_quorum_def commit_quorum_def)
qed

section \<open>The abstract system\<close>

text \<open>A log is the list of all entries from index 1 on. \<open>s_ballots\<close> holds \<open>(j, t, c)\<close> when server \<open>j\<close> gave its vote
  of term \<open>t\<close> to \<open>c\<close>, \<open>s_claims\<close> holds \<open>(c, t, lt, li)\<close> when \<open>c\<close> stood in term \<open>t\<close> with a log that ends in term \<open>lt\<close> at
  index \<open>li\<close>, \<open>s_tlog t\<close> is the log of the leader of term \<open>t\<close>, and \<open>s_acks\<close> holds \<open>(j, t, m)\<close> when server \<open>j\<close> confirmed
  in term \<open>t\<close> to have the first \<open>m\<close> entries of it.\<close>

record 'c spec =
  s_term :: "nat \<Rightarrow> int"
  s_standing :: "nat \<Rightarrow> bool"
  s_log :: "nat \<Rightarrow> 'c EntryData list"
  s_commit :: "nat \<Rightarrow> nat"
  s_ballots :: "(nat \<times> int \<times> nat) set"
  s_claims :: "(nat \<times> int \<times> int \<times> nat) set"
  s_leader :: "int \<Rightarrow> nat option"
  s_tlog :: "int \<Rightarrow> 'c EntryData list"
  s_acks :: "(nat \<times> int \<times> nat) set"

definition term_at :: "'c EntryData list \<Rightarrow> nat \<Rightarrow> int" where
  "term_at l k = (if k = 0 then 0 else ed_Term (l ! (k - 1)))"

abbreviation last_term_of :: "'c EntryData list \<Rightarrow> int" where
  "last_term_of l \<equiv> term_at l (length l)"

definition newer :: "'c EntryData list \<Rightarrow> int \<Rightarrow> nat \<Rightarrow> bool" where
  "newer l lt li \<longleftrightarrow> lt > last_term_of l \<or> lt = last_term_of l \<and> li \<ge> length l"

text \<open>Taking over a prefix \<open>p\<close> keeps a log that already starts with it.\<close>

definition sync :: "'c EntryData list \<Rightarrow> 'c EntryData list \<Rightarrow> 'c EntryData list" where
  "sync l p = (if prefix p l then l else p)"

definition acked :: "'c spec \<Rightarrow> nat \<Rightarrow> int \<Rightarrow> nat \<Rightarrow> bool" where
  "acked s j t k \<longleftrightarrow> (\<exists>m \<ge> k. (j, t, m) \<in> s_acks s)"

text \<open>Index \<open>k\<close> of the log of term \<open>t\<close> is an entry of that term; it is committed when a quorum confirmed it, and
  it is choosable as long as a quorum confirmed it or may still do so.\<close>

definition own :: "'c spec \<Rightarrow> int \<Rightarrow> nat \<Rightarrow> bool" where
  "own s t k \<longleftrightarrow> 0 < k \<and> k \<le> length (s_tlog s t) \<and> term_at (s_tlog s t) k = t"

definition committed :: "nat \<Rightarrow> 'c spec \<Rightarrow> int \<Rightarrow> nat \<Rightarrow> bool" where
  "committed n s t k \<longleftrightarrow> own s t k \<and> commit_quorum n {j. j < n \<and> acked s j t k}"

definition choosable :: "nat \<Rightarrow> 'c spec \<Rightarrow> int \<Rightarrow> nat \<Rightarrow> bool" where
  "choosable n s t k \<longleftrightarrow> commit_quorum n {j. j < n \<and> (acked s j t k \<or> s_term s j \<le> t)}"

definition chosen_by :: "nat \<Rightarrow> 'c spec \<Rightarrow> int \<Rightarrow> 'c EntryData list \<Rightarrow> bool" where
  "chosen_by n s t p \<longleftrightarrow> p = [] \<or> (\<exists>u \<le> t. \<exists>k. committed n s u k \<and> prefix p (take k (s_tlog s u)))"

definition spec_init :: "nat \<Rightarrow> 'c spec \<Rightarrow> bool" where
  "spec_init n s \<longleftrightarrow> (\<forall>i < n. s_term s i = 0 \<and> \<not> s_standing s i \<and> s_log s i = [] \<and> s_commit s i = 0)
     \<and> s_ballots s = {} \<and> s_claims s = {} \<and> s_leader s = Map.empty \<and> (\<forall>t. s_tlog s t = []) \<and> s_acks s = {}"

inductive spec_step :: "nat \<Rightarrow> 'c spec \<Rightarrow> 'c spec \<Rightarrow> bool" for n where
  advance: "i < n \<Longrightarrow> s_term s i \<le> t
    \<Longrightarrow> spec_step n s (s\<lparr>s_term := (s_term s)(i := t), s_standing := (s_standing s)(i := False)\<rparr>)"
| stand: "i < n \<Longrightarrow> t = s_term s i + 1
    \<Longrightarrow> spec_step n s (s\<lparr>s_term := (s_term s)(i := t), s_standing := (s_standing s)(i := True),
          s_ballots := insert (i, t, i) (s_ballots s),
          s_claims := insert (i, t, last_term_of (s_log s i), length (s_log s i)) (s_claims s)\<rparr>)"
| grant: "j < n \<Longrightarrow> (c, t, lt, li) \<in> s_claims s \<Longrightarrow> s_term s j \<le> t
    \<Longrightarrow> (\<And>c'. (j, t, c') \<in> s_ballots s \<Longrightarrow> c' = c) \<Longrightarrow> newer (s_log s j) lt li
    \<Longrightarrow> spec_step n s (s\<lparr>s_term := (s_term s)(j := t), s_standing := (s_standing s)(j := s_standing s j \<and> s_term s j = t),
          s_ballots := insert (j, t, c) (s_ballots s)\<rparr>)"
| win: "c < n \<Longrightarrow> s_standing s c \<Longrightarrow> t = s_term s c \<Longrightarrow> vote_quorum n {j. j < n \<and> (j, t, c) \<in> s_ballots s}
    \<Longrightarrow> spec_step n s (s\<lparr>s_standing := (s_standing s)(c := False), s_leader := (s_leader s)(t \<mapsto> c),
          s_tlog := (s_tlog s)(t := s_log s c), s_acks := insert (c, t, length (s_log s c)) (s_acks s)\<rparr>)"
| propose: "c < n \<Longrightarrow> t = s_term s c \<Longrightarrow> s_leader s t = Some c \<Longrightarrow> l = s_log s c @ [\<lparr>ed_Term = t, ed_Command = x\<rparr>]
    \<Longrightarrow> spec_step n s (s\<lparr>s_log := (s_log s)(c := l), s_tlog := (s_tlog s)(t := l),
          s_acks := insert (c, t, length l) (s_acks s)\<rparr>)"
| accept: "j < n \<Longrightarrow> s_leader s t = Some c \<Longrightarrow> c \<noteq> j \<Longrightarrow> s_term s j \<le> t \<Longrightarrow> m \<le> length (s_tlog s t)
    \<Longrightarrow> k = s_commit s j \<or> s_commit s j \<le> k \<and> k \<le> m \<and> chosen_by n s t (take k (s_tlog s t))
    \<Longrightarrow> spec_step n s (s\<lparr>s_term := (s_term s)(j := t), s_standing := (s_standing s)(j := False),
          s_log := (s_log s)(j := sync (s_log s j) (take m (s_tlog s t))),
          s_acks := insert (j, t, m) (s_acks s), s_commit := (s_commit s)(j := k)\<rparr>)"
| install: "j < n \<Longrightarrow> \<not> s_standing s j \<Longrightarrow> chosen_by n s t p \<Longrightarrow> t \<le> s_term s j
    \<Longrightarrow> spec_step n s (s\<lparr>s_log := (s_log s)(j := sync (s_log s j) p),
          s_commit := (s_commit s)(j := max (s_commit s j) (length p))\<rparr>)"
| commit: "c < n \<Longrightarrow> t = s_term s c \<Longrightarrow> s_leader s t = Some c \<Longrightarrow> committed n s t k
    \<Longrightarrow> spec_step n s (s\<lparr>s_commit := (s_commit s)(c := k)\<rparr>)"
| restart: "i < n \<Longrightarrow> k \<le> s_commit s i
    \<Longrightarrow> spec_step n s (s\<lparr>s_standing := (s_standing s)(i := False), s_commit := (s_commit s)(i := k)\<rparr>)"

section \<open>Prefixes\<close>

lemma prefix_sync [simp]: "prefix p (sync l p)"
  by (simp add: sync_def)

lemma sync_cases: "sync l p = l \<or> sync l p = p"
  by (simp add: sync_def)

lemma sync_keeps:
  assumes "prefix a l" "prefix a L" "prefix p L"
  shows "prefix a (sync l p)"
  using assms prefix_same_cases [OF assms(2,3)] by (auto simp: sync_def intro: prefix_order.trans)

lemma prefix_take_le: "prefix a L \<Longrightarrow> length a \<le> k \<Longrightarrow> prefix a (take k L)"
  by (metis prefix_def take_all take_append)

lemma take_prefix_mono: "prefix p L \<Longrightarrow> k \<le> length p \<Longrightarrow> take k L = take k p"
  by (auto simp: prefix_def)

lemma term_at_prefix: "prefix p L \<Longrightarrow> k \<le> length p \<Longrightarrow> term_at p k = term_at L k"
  by (auto simp: prefix_def term_at_def nth_append)

lemma term_at_take: "k \<le> m \<Longrightarrow> term_at (take m L) k = term_at L k"
  by (simp add: term_at_def)

lemma term_at_mem: "0 < k \<Longrightarrow> k \<le> length l \<Longrightarrow> \<exists>e \<in> set l. ed_Term e = term_at l k"
  by (auto simp: term_at_def intro!: bexI [of _ "l ! (k - 1)"])

section \<open>The invariant\<close>

definition rooted :: "'c spec \<Rightarrow> 'c EntryData list \<Rightarrow> bool" where
  "rooted s l \<longleftrightarrow> (\<forall>k. 0 < k \<longrightarrow> k \<le> length l \<longrightarrow>
     prefix (take k l) (s_tlog s (term_at l k)) \<and> s_leader s (term_at l k) \<noteq> None)"

definition ballots_ok :: "nat \<Rightarrow> 'c spec \<Rightarrow> bool" where
  "ballots_ok n s \<longleftrightarrow>
     (\<forall>j t c. (j, t, c) \<in> s_ballots s \<longrightarrow> j < n \<and> t \<le> s_term s j \<and> (\<exists>lt li. (c, t, lt, li) \<in> s_claims s))
     \<and> (\<forall>j t c c'. (j, t, c) \<in> s_ballots s \<longrightarrow> (j, t, c') \<in> s_ballots s \<longrightarrow> c = c')"

definition claims_ok :: "nat \<Rightarrow> 'c spec \<Rightarrow> bool" where
  "claims_ok n s \<longleftrightarrow> (\<forall>j < n. 0 \<le> s_term s j)
     \<and> (\<forall>c t lt li. (c, t, lt, li) \<in> s_claims s \<longrightarrow> c < n \<and> 0 < t \<and> t \<le> s_term s c)
     \<and> (\<forall>c t lt li lt' li'. (c, t, lt, li) \<in> s_claims s \<longrightarrow> (c, t, lt', li') \<in> s_claims s \<longrightarrow> lt = lt' \<and> li = li')"

definition leaders_ok :: "nat \<Rightarrow> 'c spec \<Rightarrow> bool" where
  "leaders_ok n s \<longleftrightarrow>
     (\<forall>c < n. s_standing s c \<longrightarrow> (c, s_term s c, last_term_of (s_log s c), length (s_log s c)) \<in> s_claims s
          \<and> s_leader s (s_term s c) \<noteq> Some c)
     \<and> (\<forall>t c. s_leader s t = Some c \<longrightarrow> c < n \<and> 0 < t \<and> t \<le> s_term s c \<and> vote_quorum n {j. j < n \<and> (j, t, c) \<in> s_ballots s})"

definition logs_ok :: "nat \<Rightarrow> 'c spec \<Rightarrow> bool" where
  "logs_ok n s \<longleftrightarrow>
     (\<forall>t. s_leader s t = None \<longrightarrow> s_tlog s t = [])
     \<and> (\<forall>t. rooted s (s_tlog s t)) \<and> (\<forall>j < n. rooted s (s_log s j))
     \<and> (\<forall>t. \<forall>e \<in> set (s_tlog s t). 0 < ed_Term e \<and> ed_Term e \<le> t)
     \<and> (\<forall>t. sorted (map ed_Term (s_tlog s t)))
     \<and> (\<forall>j < n. \<forall>e \<in> set (s_log s j). ed_Term e \<le> s_term s j)
     \<and> (\<forall>t c. s_leader s t = Some c \<longrightarrow> s_term s c = t \<longrightarrow> s_log s c = s_tlog s t)"

definition acks_ok :: "nat \<Rightarrow> 'c spec \<Rightarrow> bool" where
  "acks_ok n s \<longleftrightarrow> (\<forall>j t m. (j, t, m) \<in> s_acks s \<longrightarrow>
       j < n \<and> t \<le> s_term s j \<and> m \<le> length (s_tlog s t) \<and> s_leader s t \<noteq> None)
     \<and> (\<forall>t c. s_leader s t = Some c \<longrightarrow> acked s c t (length (s_tlog s t)))"

text \<open>A server keeps what it confirmed, a leader has what was choosable before its term, a candidate that got
  the vote of a server is not behind what that server confirmed, and what a server regards as committed
  is chosen.\<close>

definition kept :: "nat \<Rightarrow> 'c spec \<Rightarrow> bool" where
  "kept n s \<longleftrightarrow> (\<forall>j t k. acked s j t k \<longrightarrow> own s t k \<longrightarrow> choosable n s t k \<longrightarrow> prefix (take k (s_tlog s t)) (s_log s j))"

definition complete :: "nat \<Rightarrow> 'c spec \<Rightarrow> bool" where
  "complete n s \<longleftrightarrow> (\<forall>t t' k. s_leader s t' \<noteq> None \<longrightarrow> t < t' \<longrightarrow> own s t k \<longrightarrow> choosable n s t k \<longrightarrow>
     prefix (take k (s_tlog s t)) (s_tlog s t'))"

definition not_behind :: "nat \<Rightarrow> 'c spec \<Rightarrow> bool" where
  "not_behind n s \<longleftrightarrow> (\<forall>j t t' c lt li k. (j, t', c) \<in> s_ballots s \<longrightarrow> (c, t', lt, li) \<in> s_claims s \<longrightarrow>
     acked s j t k \<longrightarrow> t < t' \<longrightarrow> own s t k \<longrightarrow> choosable n s t k \<longrightarrow> t < lt \<or> t = lt \<and> k \<le> li)"

definition commits_ok :: "nat \<Rightarrow> 'c spec \<Rightarrow> bool" where
  "commits_ok n s \<longleftrightarrow> (\<forall>j < n. s_commit s j \<le> length (s_log s j) \<and> chosen_by n s (s_term s j) (take (s_commit s j) (s_log s j)))"

definition spec_inv :: "nat \<Rightarrow> 'c spec \<Rightarrow> bool" where
  "spec_inv n s \<longleftrightarrow> ballots_ok n s \<and> claims_ok n s \<and> leaders_ok n s \<and> logs_ok n s \<and> acks_ok n s \<and> kept n s \<and> complete n s \<and> not_behind n s \<and> commits_ok n s"

lemma ballots_okD:
  assumes "ballots_ok n s"
  shows "\<And>j t c. (j, t, c) \<in> s_ballots s \<Longrightarrow> j < n \<and> t \<le> s_term s j \<and> (\<exists>lt li. (c, t, lt, li) \<in> s_claims s)"
    and "\<And>j t c c'. (j, t, c) \<in> s_ballots s \<Longrightarrow> (j, t, c') \<in> s_ballots s \<Longrightarrow> c = c'"
  using assms unfolding ballots_ok_def by blast+

lemma claims_okD:
  assumes "claims_ok n s"
  shows "\<And>j. j < n \<Longrightarrow> 0 \<le> s_term s j"
    and "\<And>c t lt li. (c, t, lt, li) \<in> s_claims s \<Longrightarrow> c < n \<and> 0 < t \<and> t \<le> s_term s c"
    and "\<And>c t lt li lt' li'. (c, t, lt, li) \<in> s_claims s \<Longrightarrow> (c, t, lt', li') \<in> s_claims s \<Longrightarrow> lt = lt' \<and> li = li'"
  using assms unfolding claims_ok_def by blast+

lemma leaders_okD:
  assumes "leaders_ok n s"
  shows "\<And>c. c < n \<Longrightarrow> s_standing s c \<Longrightarrow> (c, s_term s c, last_term_of (s_log s c), length (s_log s c)) \<in> s_claims s
          \<and> s_leader s (s_term s c) \<noteq> Some c"
    and "\<And>t c. s_leader s t = Some c \<Longrightarrow> c < n \<and> 0 < t \<and> t \<le> s_term s c \<and> vote_quorum n {j. j < n \<and> (j, t, c) \<in> s_ballots s}"
  using assms unfolding leaders_ok_def by blast+

lemma logs_okD:
  assumes "logs_ok n s"
  shows "\<And>t. s_leader s t = None \<Longrightarrow> s_tlog s t = []" "\<And>t. rooted s (s_tlog s t)" "\<And>j. j < n \<Longrightarrow> rooted s (s_log s j)"
    and "\<And>t e. e \<in> set (s_tlog s t) \<Longrightarrow> 0 < ed_Term e \<and> ed_Term e \<le> t" "\<And>t. sorted (map ed_Term (s_tlog s t))"
    and "\<And>j e. j < n \<Longrightarrow> e \<in> set (s_log s j) \<Longrightarrow> ed_Term e \<le> s_term s j"
    and "\<And>t c. s_leader s t = Some c \<Longrightarrow> s_term s c = t \<Longrightarrow> s_log s c = s_tlog s t"
  using assms unfolding logs_ok_def by blast+

lemma acks_okD:
  "acks_ok n s \<Longrightarrow> (j, t, m) \<in> s_acks s \<Longrightarrow> j < n \<and> t \<le> s_term s j \<and> m \<le> length (s_tlog s t) \<and> s_leader s t \<noteq> None"
  unfolding acks_ok_def by blast

lemma leader_acked: "acks_ok n s \<Longrightarrow> s_leader s t = Some c \<Longrightarrow> k \<le> length (s_tlog s t) \<Longrightarrow> acked s c t k"
  unfolding acks_ok_def acked_def by (meson order_trans)

lemma ackedD: "acks_ok n s \<Longrightarrow> acked s j t k \<Longrightarrow> j < n \<and> t \<le> s_term s j \<and> k \<le> length (s_tlog s t) \<and> s_leader s t \<noteq> None"
  by (auto simp: acked_def dest: acks_okD)

lemma rootedD:
  "rooted s l \<Longrightarrow> 0 < k \<Longrightarrow> k \<le> length l \<Longrightarrow> prefix (take k l) (s_tlog s (term_at l k))"
  "rooted s l \<Longrightarrow> 0 < k \<Longrightarrow> k \<le> length l \<Longrightarrow> s_leader s (term_at l k) \<noteq> None"
  by (auto simp: rooted_def)

lemma rooted_prefix: "rooted s l \<Longrightarrow> prefix p l \<Longrightarrow> rooted s p"
  unfolding rooted_def by (metis prefix_length_le take_prefix_mono term_at_prefix order_trans)

lemma rooted_whole: "rooted s l \<Longrightarrow> l \<noteq> [] \<Longrightarrow> prefix l (s_tlog s (last_term_of l)) \<and> s_leader s (last_term_of l) \<noteq> None"
  using rootedD [of s l "length l"] by simp

lemma rooted_sorted:
  assumes "logs_ok n s" "rooted s l"
  shows "sorted (map ed_Term l)"
proof (cases "l = []")
  case False
  then obtain r where "s_tlog s (last_term_of l) = l @ r" using rooted_whole [OF assms(2)] by (auto simp: prefix_def)
  with logs_okD(5) [OF assms(1), of "last_term_of l"] show ?thesis by (simp add: sorted_append)
qed simp

lemma own_pos: "logs_ok n s \<Longrightarrow> own s t k \<Longrightarrow> 0 < t \<and> s_leader s t \<noteq> None"
proof -
  assume l: "logs_ok n s" and o: "own s t k"
  then obtain e where "e \<in> set (s_tlog s t)" "ed_Term e = t" using term_at_mem [of k "s_tlog s t"] by (auto simp: own_def)
  then show ?thesis using logs_okD(1) [OF l, of t] logs_okD(4) [OF l, of e t] by fastforce
qed

section \<open>What a step keeps\<close>

definition extends :: "nat \<Rightarrow> 'c spec \<Rightarrow> 'c spec \<Rightarrow> bool" where
  "extends n s s' \<longleftrightarrow> (\<forall>j < n. s_term s j \<le> s_term s' j) \<and> s_ballots s \<subseteq> s_ballots s' \<and> s_claims s \<subseteq> s_claims s'
     \<and> (\<forall>t c. s_leader s t = Some c \<longrightarrow> s_leader s' t = Some c) \<and> (\<forall>t. prefix (s_tlog s t) (s_tlog s' t))
     \<and> s_acks s \<subseteq> s_acks s' \<and> (\<forall>j t m. (j, t, m) \<in> s_acks s' \<longrightarrow> (j, t, m) \<in> s_acks s \<or> s_term s j \<le> t \<and> s_term s' j = t)"

lemma extends_refl [simp]: "extends n s s"
  by (simp add: extends_def)

lemma acked_mono: "extends n s s' \<Longrightarrow> acked s j t k \<Longrightarrow> acked s' j t k"
  by (auto simp: extends_def acked_def)

lemma acked_back: "extends n s s' \<Longrightarrow> acked s' j t k \<Longrightarrow> acked s j t k \<or> s_term s j \<le> t \<and> s_term s' j = t"
  by (auto simp: extends_def acked_def) (metis subsetD)+

lemma commit_quorum_mono: "commit_quorum n A \<Longrightarrow> A \<subseteq> B \<Longrightarrow> B \<subseteq> {..<n} \<Longrightarrow> commit_quorum n B"
  using card_mono [of B A] finite_subset [of B "{..<n}"] by (auto simp: commit_quorum_def)

lemma choosable_back: "extends n s s' \<Longrightarrow> choosable n s' t k \<Longrightarrow> choosable n s t k"
  unfolding choosable_def
proof (erule commit_quorum_mono)
  assume e: "extends n s s'"
  then have "s_term s j \<le> s_term s' j" if "j < n" for j using that by (simp add: extends_def)
  then show "{j. j < n \<and> (acked s' j t k \<or> s_term s' j \<le> t)} \<subseteq> {j. j < n \<and> (acked s j t k \<or> s_term s j \<le> t)}"
    using acked_back [OF e] by fastforce
qed auto

lemma own_mono: "extends n s s' \<Longrightarrow> own s t k \<Longrightarrow> own s' t k"
  by (auto simp: own_def extends_def) (metis prefix_length_le order_trans, metis term_at_prefix)

lemma committed_mono: "extends n s s' \<Longrightarrow> committed n s t k \<Longrightarrow> committed n s' t k"
  unfolding committed_def by (auto intro: own_mono elim!: commit_quorum_mono dest: acked_mono)

lemma committed_choosable: "committed n s t k \<Longrightarrow> choosable n s t k"
  unfolding committed_def choosable_def by (auto elim!: commit_quorum_mono)

lemma chosen_mono:
  assumes "extends n s s'" "chosen_by n s t p" "t \<le> t'"
  shows "chosen_by n s' t' p"
proof (cases "p = []")
  case False
  then obtain u k where u: "u \<le> t" "committed n s u k" "prefix p (take k (s_tlog s u))"
    using assms(2) by (auto simp: chosen_by_def)
  have "k \<le> length (s_tlog s u)" "prefix (s_tlog s u) (s_tlog s' u)" using u(2) assms(1) by (auto simp: committed_def own_def extends_def)
  then have "take k (s_tlog s' u) = take k (s_tlog s u)" by (rule take_prefix_mono [rotated])
  then show ?thesis using u assms(3) committed_mono [OF assms(1) u(2)] unfolding chosen_by_def by (metis order_trans)
qed (simp add: chosen_by_def)

lemma chosen_sub: "chosen_by n s t p \<Longrightarrow> prefix q p \<Longrightarrow> chosen_by n s t q"
  unfolding chosen_by_def by (metis prefix_order.trans prefix_Nil)

lemma rooted_mono: "extends n s s' \<Longrightarrow> rooted s l \<Longrightarrow> rooted s' l"
  unfolding rooted_def extends_def by (metis not_None_eq prefix_order.trans)

lemma spec_invD:
  assumes "spec_inv n s"
  shows "ballots_ok n s" "claims_ok n s" "leaders_ok n s" "logs_ok n s" "acks_ok n s" "kept n s" "complete n s"
    "not_behind n s" "commits_ok n s"
  using assms by (simp_all add: spec_inv_def)

lemma winner_new:
  assumes inv: "ballots_ok n s" "leaders_ok n s" and c: "c < n" "s_standing s c"
    and q: "vote_quorum n {j. j < n \<and> (j, s_term s c, c) \<in> s_ballots s}"
  shows "s_leader s (s_term s c) = None"
proof (rule ccontr)
  assume "s_leader s (s_term s c) \<noteq> None"
  then obtain d where d: "s_leader s (s_term s c) = Some d" by blast
  obtain j where "(j, s_term s c, c) \<in> s_ballots s" "(j, s_term s c, d) \<in> s_ballots s"
    using vq.common_member [OF q] leaders_okD(2) [OF inv(2) d] by blast
  then show False using ballots_okD(2) [OF inv(1)] leaders_okD(1) [OF inv(2) c] d by blast
qed

lemma step_extends:
  assumes inv: "spec_inv n s" and st: "spec_step n s s'"
  shows "extends n s s'"
  using st
proof cases
  case (win c t)
  have "s_leader s t = None" using winner_new [OF spec_invD(1,3) [OF inv] win(2,3)] win(4,5) by simp
  then show ?thesis using win logs_okD(1) [OF spec_invD(4) [OF inv]] by (auto simp: extends_def)
next
  case (propose c t l x)
  have "s_log s c = s_tlog s t" using logs_okD(7) [OF spec_invD(4) [OF inv] propose(4)] propose(3) by simp
  then show ?thesis using propose by (auto simp: extends_def)
qed (auto simp: extends_def)

text \<open>A new ballot or claim must be the first of its kind.\<close>

lemma ballots_new:
  assumes b: "ballots_ok n s" and e: "extends n s s'" and sub: "s_ballots s' \<subseteq> insert (j, t, c) (s_ballots s)"
    and new: "(j, t, c) \<in> s_ballots s' \<Longrightarrow> j < n \<and> t \<le> s_term s' j \<and> (\<exists>lt li. (c, t, lt, li) \<in> s_claims s')"
      "\<And>c'. (j, t, c') \<in> s_ballots s \<Longrightarrow> c' = c"
  shows "ballots_ok n s'"
  unfolding ballots_ok_def
proof (intro conjI allI impI)
  fix i u d assume m: "(i, u, d) \<in> s_ballots s'"
  have g: "i < n \<and> u \<le> s_term s' i \<and> (\<exists>lt li. (d, u, lt, li) \<in> s_claims s')"
  proof (cases "(i, u, d) \<in> s_ballots s")
    case True
    from ballots_okD(1) [OF b True] e show ?thesis unfolding extends_def by (meson order_trans subsetD)
  next
    case False
    then show ?thesis using m sub new(1) by blast
  qed
  then show "i < n" "u \<le> s_term s' i" "\<exists>lt li. (d, u, lt, li) \<in> s_claims s'" by blast+
  fix d' assume "(i, u, d') \<in> s_ballots s'"
  then show "d = d'" using m sub new(2) ballots_okD(2) [OF b] by blast
qed

lemma ballots_step:
  assumes inv: "spec_inv n s" and st: "spec_step n s s'"
  shows "ballots_ok n s'"
proof -
  note ext = step_extends [OF inv st] and b = spec_invD(1) [OF inv]
  from st show ?thesis
  proof cases
    case (stand i t)
    have "(i, t, c) \<notin> s_ballots s" for c using ballots_okD(1) [OF b, of i t c] stand(3) by auto
    then show ?thesis using stand by (intro ballots_new [OF b ext, of i t i]) auto
  next
    case (grant j c t lt li)
    then show ?thesis by (intro ballots_new [OF b ext, of j t c]) auto
  next
    case (win c t)
    have "(c, - 1, 0) \<notin> s_ballots s" for c using ballots_okD(1) [OF b] claims_okD(2) [OF spec_invD(2) [OF inv]] by fastforce
    then show ?thesis using b win by (auto simp: ballots_ok_def)
  qed (use b in \<open>auto simp: ballots_ok_def intro: order_trans\<close>)
qed

lemma claims_step:
  assumes inv: "spec_inv n s" and st: "spec_step n s s'"
  shows "claims_ok n s'"
proof -
  note ext = step_extends [OF inv st] and d = claims_okD [OF spec_invD(2) [OF inv]]
  have same: "claims_ok n s'" if "s_claims s' = s_claims s"
    unfolding claims_ok_def that using d ext unfolding extends_def by (meson order_trans)
  from st show ?thesis
  proof cases
    case (stand i t)
    have "(i, t, lt, li) \<notin> s_claims s" for lt li using d(2) [of i t lt li] stand(3) by auto
    then show ?thesis using stand d by (auto simp: claims_ok_def) (meson order_trans zle_add1_eq_le order_less_imp_le)+
  qed (use same in auto)
qed

lemma quorum_voters_mono:
  "vote_quorum n {j. j < n \<and> (j, t, c) \<in> A} \<Longrightarrow> A \<subseteq> B \<Longrightarrow> vote_quorum n {j. j < n \<and> (j, t, c) \<in> B}"
  using card_mono [of "{j. j < n \<and> (j, t, c) \<in> B}" "{j. j < n \<and> (j, t, c) \<in> A}"] by (force simp: vote_quorum_def)

text \<open>Who leads and with which votes only changes when a candidate wins.\<close>

lemma leaders_same:
  assumes l: "leaders_ok n s" and e: "extends n s s'" and "s_leader s' = s_leader s"
    and "\<And>c. c < n \<Longrightarrow> s_standing s' c \<Longrightarrow> (c, s_term s' c, last_term_of (s_log s' c), length (s_log s' c)) \<in> s_claims s'
          \<and> s_leader s (s_term s' c) \<noteq> Some c"
  shows "leaders_ok n s'"
  unfolding leaders_ok_def assms(3)
proof (intro conjI allI impI)
  fix t c assume lc: "s_leader s t = Some c"
  note d = leaders_okD(2) [OF l lc]
  show "c < n" "0 < t" using d by auto
  have "s_term s c \<le> s_term s' c" "s_ballots s \<subseteq> s_ballots s'" using d e by (simp_all add: extends_def)
  then show "t \<le> s_term s' c" "vote_quorum n {j. j < n \<and> (j, t, c) \<in> s_ballots s'}"
    using d quorum_voters_mono [of n t c "s_ballots s" "s_ballots s'"] by simp_all
qed (use assms(4) in auto)

lemma leaders_step:
  assumes inv: "spec_inv n s" and st: "spec_step n s s'"
  shows "leaders_ok n s'"
proof -
  note ext = step_extends [OF inv st] and l = spec_invD(3) [OF inv] and d = leaders_okD [OF spec_invD(3) [OF inv]]
  from st show ?thesis
  proof cases
    case (win c t)
    have t: "0 < t" using d(1) [OF win(2,3)] claims_okD(2) [OF spec_invD(2) [OF inv]] win(4) by blast
    have new: "s_leader s t = None" using winner_new [OF spec_invD(1,3) [OF inv] win(2,3)] win(4,5) by simp
    then show ?thesis using win t d by (auto simp: leaders_ok_def)
  next
    case (stand i t)
    have "s_leader s t \<noteq> Some i" using d(2) [of t i] stand(3) by auto
    then show ?thesis using stand d(1) by (intro leaders_same [OF l ext]) (auto split: if_splits)
  next
    case (propose c t l x)
    have "\<not> s_standing s c" using d(1) [OF propose(2)] propose(3,4) by auto
    then show ?thesis using propose d(1) by (intro leaders_same [OF l ext]) (auto split: if_splits)
  qed (use d(1) in \<open>(intro leaders_same [OF l ext]; auto split: if_splits)\<close>)+
qed

text \<open>What is chosen up to a term is in the log of every leader from that term on, and what may be chosen later
  agrees with what is chosen.\<close>

lemma completeD: "complete n s \<Longrightarrow> s_leader s t' \<noteq> None \<Longrightarrow> t \<le> t' \<Longrightarrow> own s t k \<Longrightarrow> choosable n s t k
    \<Longrightarrow> prefix (take k (s_tlog s t)) (s_tlog s t')"
  unfolding complete_def by (cases "t = t'") (auto simp: take_is_prefix)

lemma chosen_in_leader:
  assumes inv: "complete n s" and ch: "chosen_by n s t p" and t: "t \<le> t'" "s_leader s t' \<noteq> None"
  shows "prefix p (s_tlog s t')"
proof (cases "p = []")
  case False
  then obtain u k where u: "u \<le> t" "committed n s u k" "prefix p (take k (s_tlog s u))" using ch by (auto simp: chosen_by_def)
  have "own s u k" using u(2) by (simp add: committed_def)
  from completeD [OF inv t(2) _ this committed_choosable [OF u(2)]] u(1,3) t(1) show ?thesis
    by (meson order_trans prefix_order.trans)
qed simp

lemma chosen_meets:
  assumes inv: "complete n s" "logs_ok n s" and ch: "chosen_by n s t p"
    and k: "own s t' k" "choosable n s t' k"
  shows "\<exists>L. prefix p L \<and> prefix (take k (s_tlog s t')) L"
proof (cases "p = []")
  case False
  then obtain u m where u: "committed n s u m" "prefix p (take m (s_tlog s u))" using ch by (auto simp: chosen_by_def)
  have o: "own s u m" using u(1) by (simp add: committed_def)
  show ?thesis
  proof (cases "t' \<le> u")
    case True
    have "prefix (take k (s_tlog s t')) (s_tlog s u)"
      by (rule completeD [OF inv(1) _ True k]) (use own_pos [OF inv(2) o] in simp)
    then show ?thesis using u(2) by (meson prefix_order.trans take_is_prefix)
  next
    case F: False
    have "prefix (take m (s_tlog s u)) (s_tlog s t')"
      by (rule completeD [OF inv(1) _ _ o committed_choosable [OF u(1)]]) (use F own_pos [OF inv(2) k(1)] in simp_all)
    then show ?thesis using u(2) by (meson prefix_order.trans take_is_prefix)
  qed
qed auto

lemma chosen_agree:
  assumes inv: "complete n s" "logs_ok n s" and ch: "chosen_by n s t p" "chosen_by n s t' q"
  shows "\<exists>L. prefix p L \<and> prefix q L"
proof (cases "q = []")
  case False
  then obtain u m where u: "committed n s u m" "prefix q (take m (s_tlog s u))" using ch(2) by (auto simp: chosen_by_def)
  have o: "own s u m" using u(1) by (simp add: committed_def)
  from chosen_meets [OF inv ch(1) o committed_choosable [OF u(1)]] u(2) show ?thesis by (meson prefix_order.trans)
qed auto

lemma chosen_rooted:
  assumes l: "logs_ok n s" and ch: "chosen_by n s t p"
  shows "rooted s p" "e \<in> set p \<Longrightarrow> ed_Term e \<le> t"
proof -
  have "rooted s p \<and> (e \<in> set p \<longrightarrow> ed_Term e \<le> t)"
  proof (cases "p = []")
    case False
    then obtain u k where u: "u \<le> t" "prefix p (s_tlog s u)"
      using ch unfolding chosen_by_def by (meson prefix_order.trans take_is_prefix)
    then have "rooted s p" using rooted_prefix [OF logs_okD(2) [OF l]] by blast
    moreover have "ed_Term e \<le> t" if "e \<in> set p"
      using logs_okD(4) [OF l, of e u] set_mono_prefix [OF u(2)] that u(1) by auto
    ultimately show ?thesis by blast
  qed (simp add: rooted_def)
  then show "rooted s p" "e \<in> set p \<Longrightarrow> ed_Term e \<le> t" by auto
qed

lemma logs_same:
  assumes l: "logs_ok n s" and e: "extends n s s'" and same: "s_leader s' = s_leader s" "s_tlog s' = s_tlog s"
    and new: "\<And>j. j < n \<Longrightarrow> rooted s (s_log s' j)" "\<And>j e. j < n \<Longrightarrow> e \<in> set (s_log s' j) \<Longrightarrow> ed_Term e \<le> s_term s' j"
      "\<And>t c. s_leader s t = Some c \<Longrightarrow> s_term s' c = t \<Longrightarrow> s_log s' c = s_tlog s t"
  shows "logs_ok n s'"
  unfolding logs_ok_def same using logs_okD(1,2,4,5) [OF l] new rooted_mono [OF e] by auto

lemma logs_step:
  assumes inv: "spec_inv n s" and st: "spec_step n s s'"
  shows "logs_ok n s'"
proof -
  note ext = step_extends [OF inv st] and l = spec_invD(4) [OF inv] and d = logs_okD [OF spec_invD(4) [OF inv]]
    and ld = leaders_okD(2) [OF spec_invD(3) [OF inv]]
  have lead: "s_log s c = s_tlog s u" if "s_leader s u = Some c" "s_term s' c = u" for u c
  proof -
    have "s_term s c \<le> u" "u \<le> s_term s c" using ext ld [OF that(1)] that(2) by (auto simp: extends_def)
    then show ?thesis using d(7) [OF that(1)] by simp
  qed
  have up: "ed_Term e \<le> s_term s' j" if "j < n" "e \<in> set (s_log s j)" for j e
    using d(6) [OF that] ext that(1) by (auto simp: extends_def intro: order_trans)
  have same: "logs_ok n s'" if "s_leader s' = s_leader s" "s_tlog s' = s_tlog s" "s_log s' = s_log s"
    by (rule logs_same [OF l ext that(1,2)]) (simp_all add: that(3) d(3) up lead)
  from st show ?thesis
  proof cases
    case (win c t)
    have r: "rooted s (s_log s c)" by (rule d(3) [OF win(2)])
    have pos: "0 < ed_Term e" if "e \<in> set (s_log s c)" for e
    proof -
      have "prefix (s_log s c) (s_tlog s (last_term_of (s_log s c)))" using rooted_whole [OF r] that by (metis empty_iff empty_set)
      then show ?thesis using d(4) set_mono_prefix that by blast
    qed
    have "rooted s' (s_tlog s' u)" for u using rooted_mono [OF ext r] rooted_mono [OF ext d(2)] win(1) by simp
    moreover have "rooted s' (s_log s' j)" if "j < n" for j using rooted_mono [OF ext d(3) [OF that]] win(1) by simp
    moreover have "0 < ed_Term e \<and> ed_Term e \<le> u" if "e \<in> set (s_tlog s' u)" for u e
      using that win(1,4) d(4) [of e u] pos d(6) [OF win(2), of e] by (auto split: if_splits)
    moreover have "sorted (map ed_Term (s_tlog s' u))" for u using win(1) d(5) rooted_sorted [OF l r] by simp
    moreover have "s_log s' b = s_tlog s' u" if "s_leader s' u = Some b" "s_term s' b = u" for u b
      using that win(1,4) d(7) [of u b] by (auto split: if_splits)
    moreover have "s_tlog s' u = []" if "s_leader s' u = None" for u using that win(1) d(1) by (auto split: if_splits)
    moreover have "ed_Term e \<le> s_term s' j" if "j < n" "e \<in> set (s_log s' j)" for j e using that win(1) d(6) by simp
    ultimately show ?thesis unfolding logs_ok_def by blast
  next
    case (propose c t l x)
    have old: "s_log s c = s_tlog s t" using d(7) [OF propose(4)] propose(3) by simp
    have t: "0 < t" using ld [OF propose(4)] by simp
    have r: "rooted s' l" unfolding rooted_def
    proof (intro allI impI)
      fix k assume k: "0 < k" "k \<le> length l"
      show "prefix (take k l) (s_tlog s' (term_at l k)) \<and> s_leader s' (term_at l k) \<noteq> None"
      proof (cases "k = length l")
        case True
        then show ?thesis using propose by (simp add: term_at_def)
      next
        case False
        then have "take k l = take k (s_log s c)" "term_at l k = term_at (s_log s c) k" "k \<le> length (s_log s c)"
          using k propose(5) by (auto simp: term_at_def nth_append)
        then show ?thesis using rooted_mono [OF ext d(3) [OF propose(2)]] k(1) unfolding rooted_def by simp
      qed
    qed
    have "rooted s' (s_tlog s' u)" for u using r rooted_mono [OF ext d(2)] propose(1) by simp
    moreover have "rooted s' (s_log s' j)" if "j < n" for j using r rooted_mono [OF ext d(3) [OF that]] propose(1) by simp
    moreover have "0 < ed_Term e \<and> ed_Term e \<le> u" if "e \<in> set (s_tlog s' u)" for u e
      using that propose(1,5) d(4) [of e u] old t by (auto split: if_splits)
    moreover have "sorted (map ed_Term (s_tlog s' u))" for u
      using propose(1,5) d(5) [of u] d(4) [of _ t] old by (auto simp: sorted_append)
    moreover have "s_log s' b = s_tlog s' u" if "s_leader s' u = Some b" "s_term s' b = u" for u b
      using that propose(1,3,4) d(7) [of u b] by (auto split: if_splits)
    moreover have "s_tlog s' u = []" if "s_leader s' u = None" for u using that propose(1,4) d(1) by (auto split: if_splits)
    moreover have "ed_Term e \<le> s_term s' j" if "j < n" "e \<in> set (s_log s' j)" for j e
      using that propose(1,3,5) d(6) [of j e] by (auto split: if_splits)
    ultimately show ?thesis unfolding logs_ok_def by blast
  next
    case (accept j t c m k)
    have p: "prefix (take m (s_tlog s t)) (s_tlog s t)" by (rule take_is_prefix)
    have r: "rooted s (sync (s_log s j) (take m (s_tlog s t)))"
      using sync_cases d(3) [OF accept(2)] rooted_prefix [OF d(2) p] by metis
    have "ed_Term e \<le> t" if "e \<in> set (sync (s_log s j) (take m (s_tlog s t)))" for e
      using sync_cases [of "s_log s j" "take m (s_tlog s t)"] d(6) [OF accept(2), of e] d(4) [of e t] accept(5) that
        in_set_takeD [of e m "s_tlog s t"] by auto
    then show ?thesis using accept r d(3,6,7) by (intro logs_same [OF l ext]) (auto split: if_splits)
  next
    case (install j t p)
    have r: "rooted s (sync (s_log s j) p)" using sync_cases d(3) [OF install(2)] chosen_rooted(1) [OF l install(4)] by metis
    have "ed_Term e \<le> s_term s j" if "e \<in> set (sync (s_log s j) p)" for e
      using sync_cases [of "s_log s j" p] d(6) [OF install(2), of e] chosen_rooted(2) [OF l install(4), of e] install(5) that by fastforce
    moreover have "sync (s_log s j) p = s_log s j" if "s_leader s (s_term s j) = Some j"
      using chosen_in_leader [OF spec_invD(7) [OF inv] install(4,5)] d(7) [OF that] that by (simp add: sync_def)
    ultimately show ?thesis using install r d(3,6,7) by (intro logs_same [OF l ext]) (auto split: if_splits)
  qed (rule same; simp)+
qed

lemma acks_step:
  assumes inv: "spec_inv n s" and st: "spec_step n s s'"
  shows "acks_ok n s'"
proof -
  note ext = step_extends [OF inv st]
  have old: "j < n \<and> t \<le> s_term s' j \<and> m \<le> length (s_tlog s' t) \<and> s_leader s' t \<noteq> None" if "(j, t, m) \<in> s_acks s" for j t m
  proof -
    note a = acks_okD [OF spec_invD(5) [OF inv] that]
    then obtain c where "s_leader s t = Some c" by blast
    then have "s_leader s' t = Some c" "s_term s j \<le> s_term s' j" "length (s_tlog s t) \<le> length (s_tlog s' t)"
      using ext a by (simp_all add: extends_def prefix_length_le)
    then show ?thesis using a by simp
  qed
  have "j < n \<and> t \<le> s_term s' j \<and> m \<le> length (s_tlog s' t) \<and> s_leader s' t \<noteq> None" if "(j, t, m) \<in> s_acks s'" for j t m
  proof (cases "(j, t, m) \<in> s_acks s")
    case False
    from st show ?thesis by cases (use that False in auto)
  qed (rule old)
  moreover have "acked s' c t (length (s_tlog s' t))" if "s_leader s' t = Some c" for t c
  proof -
    have same: "acked s' c t (length (s_tlog s' t))" if "s_leader s t = Some c" "s_tlog s' t = s_tlog s t"
      using acked_mono [OF ext leader_acked [OF spec_invD(5) [OF inv] that(1) order_refl]] that(2) by simp
    from st show ?thesis
    proof cases
      case (win b u)
      then show ?thesis using that same by (cases "t = u") (auto simp: acked_def)
    next
      case (propose b u l x)
      then show ?thesis using that same by (cases "t = u") (auto simp: acked_def)
    qed (use that same in simp_all)
  qed
  ultimately show ?thesis unfolding acks_ok_def by blast
qed

text \<open>An entry of its own term appears in the log of a term only when the leader proposes it; then only the
  leader has it.\<close>

lemma own_back:
  assumes inv: "spec_inv n s" and st: "spec_step n s s'" and o: "own s' t k"
  shows "own s t k \<or> (\<exists>c. c < n \<and> s_term s' c = t \<and> s_log s' c = s_tlog s' t \<and> (\<forall>j. acked s' j t k \<longrightarrow> j = c))"
proof (cases "own s t k")
  case new: False
  note d = logs_okD [OF spec_invD(4) [OF inv]]
  from st show ?thesis
  proof cases
    case (win c u)
    have "t = u" using new o win(1) by (auto simp: own_def split: if_splits)
    then have "rooted s (s_log s c)" "0 < k" "k \<le> length (s_log s c)" "term_at (s_log s c) k = t"
      using o win(1) d(3) [OF win(2)] by (auto simp: own_def)
    then have "s_leader s t \<noteq> None" using rootedD(2) by blast
    then show ?thesis using winner_new [OF spec_invD(1,3) [OF inv] win(2,3)] win(4,5) \<open>t = u\<close> by simp
  next
    case (propose c u l x)
    have u: "t = u" using new o propose(1) by (auto simp: own_def split: if_splits)
    have old: "s_log s c = s_tlog s u" using d(7) [OF propose(4)] propose(3) by simp
    have k: "k = length l"
      using new o propose(1,5) u old by (auto simp: own_def term_at_def nth_append split: if_splits)
    have "j = c" if a: "acked s' j t k" for j
    proof (rule ccontr)
      assume "j \<noteq> c"
      then have "acked s j t k" using a propose(1) by (auto simp: acked_def)
      then have "k \<le> length (s_tlog s t)" using ackedD [OF spec_invD(5) [OF inv]] by blast
      then show False using k u old propose(5) by simp
    qed
    then show ?thesis using propose u by auto
  qed (use new o in \<open>simp_all add: own_def\<close>)
qed simp

lemma take_own: "extends n s s' \<Longrightarrow> own s t k \<Longrightarrow> take k (s_tlog s' t) = take k (s_tlog s t)"
  unfolding extends_def own_def using take_prefix_mono by blast

lemma log_step_keeps:
  assumes inv: "spec_inv n s" and st: "spec_step n s s'" and j: "acked s j t k" "own s t k" "choosable n s t k"
  shows "prefix (take k (s_tlog s t)) (s_log s' j)"
proof -
  let ?a = "take k (s_tlog s t)"
  note c = spec_invD(7) [OF inv]
  have a: "prefix ?a (s_log s j)" using spec_invD(6) [OF inv] j unfolding kept_def by blast
  from st show ?thesis
  proof cases
    case (propose b u l x)
    then show ?thesis using a by (auto intro: prefix_order.trans)
  next
    case (accept i u b m q)
    show ?thesis
    proof (cases "i = j")
      case True
      have "t \<le> u" using ackedD [OF spec_invD(5) [OF inv] j(1)] accept(5) True by simp
      then have "prefix ?a (s_tlog s u)" using completeD [OF c _ _ j(2,3)] accept(3) by simp
      then show ?thesis using sync_keeps [OF a _ take_is_prefix] accept(1) True by simp
    qed (use a accept in simp)
  next
    case (install i u p)
    show ?thesis
    proof (cases "i = j")
      case True
      obtain L where "prefix p L" "prefix ?a L" using chosen_meets [OF c spec_invD(4) [OF inv] install(4) j(2,3)] by blast
      then show ?thesis using sync_keeps [OF a] install(1) True by simp
    qed (use a install in simp)
  qed (use a in simp_all)
qed

lemma kept_step:
  assumes inv: "spec_inv n s" and st: "spec_step n s s'"
  shows "kept n s'"
  unfolding kept_def
proof (intro allI impI)
  fix j t k assume a: "acked s' j t k" and o: "own s' t k" and c: "choosable n s' t k"
  note ext = step_extends [OF inv st]
  show "prefix (take k (s_tlog s' t)) (s_log s' j)"
  proof (cases "own s t k")
    case own: True
    show ?thesis
    proof (cases "acked s j t k")
      case True
      then show ?thesis using log_step_keeps [OF inv st True own choosable_back [OF ext c]] take_own [OF ext own] by simp
    next
      case False
      from st show ?thesis
      proof cases
        case (win b u)
        then have "s_tlog s t = []" using False a winner_new [OF spec_invD(1,3) [OF inv] win(2,3)] logs_okD(1) [OF spec_invD(4) [OF inv], of u]
          by (auto simp: acked_def)
        then show ?thesis using own by (simp add: own_def)
      next
        case (propose b u l x)
        then have "j = b" "t = u" using False a by (auto simp: acked_def)
        then show ?thesis using propose(1) by (simp add: take_is_prefix)
      next
        case (accept i u b m q)
        then have "j = i" "t = u" "k \<le> m" using False a by (auto simp: acked_def)
        moreover from this have "prefix (take k (s_tlog s t)) (take m (s_tlog s t))" by (metis min.absorb1 take_is_prefix take_take)
        ultimately show ?thesis using accept(1) by (auto intro: prefix_order.trans [OF _ prefix_sync])
      qed (use False a in \<open>auto simp: acked_def\<close>)
    qed
  next
    case False
    then obtain b where "s_log s' b = s_tlog s' t" "\<And>i. acked s' i t k \<Longrightarrow> i = b" using own_back [OF inv st o] by blast
    then show ?thesis using a take_is_prefix by metis
  qed
qed

text \<open>What the log of a server that was asked for its vote contains puts a bound on the candidates it accepts.\<close>

lemma newer_bound:
  assumes l: "logs_ok n s" "rooted s l" and o: "own s t k" and p: "prefix (take k (s_tlog s t)) l" and nw: "newer l lt li"
  shows "t < lt \<or> t = lt \<and> k \<le> li"
proof -
  have k: "0 < k" "k \<le> length (s_tlog s t)" "term_at (s_tlog s t) k = t" using o by (auto simp: own_def)
  then have len: "k \<le> length l" using prefix_length_le [OF p] by simp
  have "term_at l k = t" using term_at_prefix [OF p, of k] term_at_take [of k k "s_tlog s t"] k by simp
  then have "t \<le> last_term_of l"
    using sorted_nth_mono [OF rooted_sorted [OF l], of "k - 1" "length l - 1"] k(1) len by (auto simp: term_at_def split: if_splits)
  then show ?thesis using nw len by (auto simp: newer_def)
qed

lemma not_behind_step:
  assumes inv: "spec_inv n s" and st: "spec_step n s s'"
  shows "not_behind n s'"
  unfolding not_behind_def
proof (intro allI impI)
  fix j t t' c lt li k
  assume b: "(j, t', c) \<in> s_ballots s'" and cl: "(c, t', lt, li) \<in> s_claims s'" and a: "acked s' j t k"
    and tt: "t < t'" and o: "own s' t k" and ch: "choosable n s' t k"
  note ext = step_extends [OF inv st] and l = spec_invD(4) [OF inv]
  have t': "j < n" "t' \<le> s_term s' j" using ballots_okD(1) [OF ballots_step [OF inv st] b] by auto
  have ack: "acked s j t k" using acked_back [OF ext a] t' tt by auto
  have own: "own s t k" using own_back [OF inv st o] a t' tt by auto
  note chs = choosable_back [OF ext ch]
  have kp: "prefix (take k (s_tlog s t)) (s_log s j)" using spec_invD(6) [OF inv] ack own chs unfolding kept_def by blast
  have old: "t < lt \<or> t = lt \<and> k \<le> li" if bo: "(j, t', c) \<in> s_ballots s"
  proof -
    obtain lt' li' where c: "(c, t', lt', li') \<in> s_claims s" using ballots_okD(1) [OF spec_invD(1) [OF inv] bo] by blast
    then have "(c, t', lt', li') \<in> s_claims s'" using ext by (auto simp: extends_def)
    then have "lt' = lt" "li' = li" using claims_okD(3) [OF claims_step [OF inv st] cl] by auto
    then show ?thesis using spec_invD(8) [OF inv] bo c ack tt own chs unfolding not_behind_def by blast
  qed
  have new: "t < lt \<or> t = lt \<and> k \<le> li" if "newer (s_log s j) lt li"
    using newer_bound [OF l logs_okD(3) [OF l t'(1)] own kp that] .
  from st show "t < lt \<or> t = lt \<and> k \<le> li"
  proof cases
    case (stand i u)
    have "newer (s_log s j) lt li" if "(j, t', c) \<notin> s_ballots s"
    proof -
      have e: "j = i" "c = i" "t' = u" using that b stand(1) by auto
      have "(i, u, last_term_of (s_log s i), length (s_log s i)) \<in> s_claims s'" using stand(1) by simp
      then show ?thesis using claims_okD(3) [OF claims_step [OF inv st] cl] e by (auto simp: newer_def)
    qed
    then show ?thesis using old new by blast
  next
    case (grant i d u lt' li')
    have "newer (s_log s j) lt li" if "(j, t', c) \<notin> s_ballots s"
    proof -
      have e: "j = i" "c = d" "t' = u" using that b grant(1) by auto
      have "(d, u, lt', li') \<in> s_claims s'" using grant(1,3) by simp
      then show ?thesis using claims_okD(3) [OF claims_step [OF inv st] cl] e grant(6) by auto
    qed
    then show ?thesis using old new by blast
  qed (use old b in simp_all)
qed

text \<open>A server that counts towards a choosable index and voted in a later term has confirmed the index.\<close>

lemma choosable_voter:
  assumes b: "ballots_ok n s" and ch: "choosable n s t k" and q: "vote_quorum n {j. j < n \<and> (j, t', c) \<in> s_ballots s}" and t: "t < t'"
  shows "\<exists>j. j < n \<and> acked s j t k \<and> (j, t', c) \<in> s_ballots s"
proof -
  obtain j where j: "j < n" "acked s j t k \<or> s_term s j \<le> t" "(j, t', c) \<in> s_ballots s"
    using cq.common_member [OF ch [unfolded choosable_def] q] by blast
  then show ?thesis using ballots_okD(1) [OF b j(3)] t by auto
qed

text \<open>A new leader has everything that is choosable in an earlier term.\<close>

lemma winner_complete:
  assumes inv: "spec_inv n s" and c: "c < n" "s_standing s c" and q: "vote_quorum n {j. j < n \<and> (j, s_term s c, c) \<in> s_ballots s}"
    and k: "t < s_term s c" "own s t k" "choosable n s t k"
  shows "prefix (take k (s_tlog s t)) (s_log s c)"
proof -
  let ?l = "s_log s c" and ?a = "take k (s_tlog s t)"
  note lg = spec_invD(4) [OF inv]
  have cl: "(c, s_term s c, last_term_of ?l, length ?l) \<in> s_claims s" using leaders_okD(1) [OF spec_invD(3) [OF inv] c] by blast
  obtain j where "acked s j t k" "(j, s_term s c, c) \<in> s_ballots s"
    using choosable_voter [OF spec_invD(1) [OF inv] k(3) q k(1)] by blast
  then have up: "t < last_term_of ?l \<or> t = last_term_of ?l \<and> k \<le> length ?l"
    using spec_invD(8) [OF inv] cl k unfolding not_behind_def by blast
  have t: "0 < t" "k \<le> length (s_tlog s t)" using own_pos [OF lg k(2)] k(2) by (auto simp: own_def)
  then have ne: "?l \<noteq> []" using up by (auto simp: term_at_def)
  note w = rooted_whole [OF logs_okD(3) [OF lg c(1)] ne]
  have a: "prefix ?a (s_tlog s (last_term_of ?l))"
    using completeD [OF spec_invD(7) [OF inv] _ _ k(2,3)] w up by (auto simp: take_is_prefix)
  show ?thesis
  proof (cases "prefix ?l ?a")
    case True
    have "last ?l \<in> set (s_tlog s t)" using ne True set_mono_prefix [OF True] by (meson in_set_takeD last_in_set subsetD)
    then have "last_term_of ?l \<le> t" using logs_okD(4) [OF lg, of "last ?l" t] ne by (simp add: term_at_def last_conv_nth)
    then have k: "k \<le> length ?l" using up by auto
    obtain zs where z: "?a = ?l @ zs" using True by (auto simp: prefix_def)
    have "length ?a = length (?l @ zs)" using z by (rule arg_cong)
    then have "zs = []" using t(2) k by simp
    then show ?thesis using z by simp
  next
    case False
    then show ?thesis using prefix_same_cases [OF a conjunct1 [OF w]] by blast
  qed
qed

lemma complete_step:
  assumes inv: "spec_inv n s" and st: "spec_step n s s'"
  shows "complete n s'"
  unfolding complete_def
proof (intro allI impI)
  fix t t' k assume el: "s_leader s' t' \<noteq> None" and tt: "t < t'" and o: "own s' t k" and ch: "choosable n s' t k"
  note ext = step_extends [OF inv st]
  obtain c where c: "s_leader s' t' = Some c" using el by blast
  have "vote_quorum n {j. j < n \<and> (j, t', c) \<in> s_ballots s'}" using leaders_okD(2) [OF leaders_step [OF inv st] c] by blast
  from choosable_voter [OF ballots_step [OF inv st] ch this tt]
  obtain j where j: "acked s' j t k" "t' \<le> s_term s' j" using ballots_okD(1) [OF ballots_step [OF inv st]] by blast
  have own: "own s t k" using own_back [OF inv st o] j tt by auto
  note chs = choosable_back [OF ext ch]
  have old: "prefix (take k (s_tlog s' t)) (s_tlog s' t')" if "s_leader s t' \<noteq> None"
    using completeD [OF spec_invD(7) [OF inv] that _ own chs] tt take_own [OF ext own] ext
    unfolding extends_def by (metis less_imp_le prefix_order.trans)
  from st show "prefix (take k (s_tlog s' t)) (s_tlog s' t')"
  proof cases
    case (win b u)
    show ?thesis
    proof (cases "t' = u")
      case True
      have "prefix (take k (s_tlog s t)) (s_log s b)"
        by (rule winner_complete [OF inv win(2,3) _ _ own chs]) (use win(4,5) True tt in simp_all)
      then show ?thesis using win(1) True tt by simp
    qed (use old el win(1) in simp)
  qed (use old el in simp_all)
qed

lemma commits_step:
  assumes inv: "spec_inv n s" and st: "spec_step n s s'"
  shows "commits_ok n s'"
  unfolding commits_ok_def
proof (intro allI impI)
  fix j assume j: "j < n"
  note ext = step_extends [OF inv st] and lg = spec_invD(4) [OF inv] and cp = spec_invD(7) [OF inv]
  let ?k = "s_commit s j" and ?ok = "\<lambda>k l. k \<le> length l \<and> chosen_by n s' (s_term s' j) (take k l)"
  let ?a = "take ?k (s_log s j)"
  have o: "?k \<le> length (s_log s j)" "chosen_by n s (s_term s j) ?a" using spec_invD(9) [OF inv] j unfolding commits_ok_def by auto
  have up: "s_term s j \<le> s_term s' j" using ext j by (simp add: extends_def)
  have keep: "?ok ?k l" if "prefix ?a l" for l
    using that o(1) take_prefix_mono [OF that, of ?k] prefix_length_le [OF that] chosen_mono [OF ext o(2) up] by simp
  have same: "?ok (s_commit s' j) (s_log s' j)" if "s_log s' j = s_log s j" "s_commit s' j = ?k"
    using keep [OF take_is_prefix] that by simp
  from st show "?ok (s_commit s' j) (s_log s' j)"
  proof cases
    case (propose c t l x)
    then show ?thesis using keep [of l] same by (cases "c = j") (auto intro: prefix_order.trans [OF take_is_prefix])
  next
    case (accept i t c m k)
    show ?thesis
    proof (cases "i = j")
      case True
      have "prefix ?a (s_tlog s t)" by (rule chosen_in_leader [OF cp o(2)]) (use accept(3,5) True in simp_all)
      then have a: "prefix ?a (s_log s' j)" using sync_keeps [OF take_is_prefix _ take_is_prefix] accept(1) True by simp
      have p: "prefix (take m (s_tlog s t)) (s_log s' j)" using accept(1) True by simp
      show ?thesis
      proof (cases "k = ?k")
        case True
        then show ?thesis using keep [OF a] accept(1) \<open>i = j\<close> by simp
      next
        case False
        then have k: "k \<le> m" "chosen_by n s t (take k (s_tlog s t))" using accept(7) True by auto
        have "take k (s_log s' j) = take k (s_tlog s t)" "k \<le> length (s_log s' j)"
          using take_prefix_mono [OF p, of k] prefix_length_le [OF p] k(1) accept(6) by auto
        then show ?thesis using chosen_mono [OF ext k(2), of "s_term s' j"] accept(1) True by simp
      qed
    qed (use same accept in simp)
  next
    case (install i t p)
    show ?thesis
    proof (cases "i = j")
      case True
      obtain L where "prefix p L" "prefix ?a L" using chosen_agree [OF cp lg install(4) o(2)] by blast
      then have a: "prefix ?a (s_log s' j)" using sync_keeps [OF take_is_prefix] install(1) True by simp
      have p: "prefix p (s_log s' j)" using install(1) True by simp
      have t: "t \<le> s_term s' j" using install(1,5) True by simp
      have "s_commit s' j = max ?k (length p)" using install(1) True by simp
      then show ?thesis using keep [OF a] prefix_length_le [OF p] take_prefix_mono [OF p, of "length p"]
          chosen_mono [OF ext install(4) t] by (auto simp: max_def)
    qed (use same install in simp)
  next
    case (commit c t k)
    show ?thesis
    proof (cases "c = j")
      case True
      have "s_log s j = s_tlog s t" using logs_okD(7) [OF lg commit(4)] commit(3) True by simp
      moreover have "k \<le> length (s_tlog s t)" "chosen_by n s t (take k (s_tlog s t))"
        using commit(5) by (auto simp: committed_def own_def chosen_by_def)
      ultimately show ?thesis using chosen_mono [OF ext, of t _ t] commit(1,3) True by simp
    qed (use same commit in simp)
  next
    case (restart i k)
    show ?thesis
    proof (cases "i = j")
      case True
      have "prefix (take k (s_log s j)) ?a" using restart(3) True by (metis min.absorb1 take_is_prefix take_take)
      then show ?thesis using chosen_mono [OF ext chosen_sub [OF o(2)] up] restart(1,3) True o(1) by simp
    qed (use same restart in simp)
  qed (use same in simp_all)
qed

interpretation spec: invariant_system "spec_init n" "spec_step n" "spec_inv n" for n
proof
  fix s :: "'c spec" assume i: "spec_init n s"
  then have "\<not> acked s j t k" "\<not> own s t k" for j t k by (auto simp: spec_init_def acked_def own_def)
  then show "spec_inv n s" using i
    by (auto simp: spec_init_def spec_inv_def ballots_ok_def claims_ok_def leaders_ok_def logs_ok_def acks_ok_def kept_def
        complete_def not_behind_def commits_ok_def rooted_def chosen_by_def)
next
  fix s t :: "'c spec" assume "spec_inv n s" "spec_step n s t"
  note steps = ballots_step [OF this] claims_step [OF this] leaders_step [OF this] logs_step [OF this] acks_step [OF this]
    kept_step [OF this] complete_step [OF this] not_behind_step [OF this] commits_step [OF this]
  show "spec_inv n t" unfolding spec_inv_def by (intro conjI steps)
qed

section \<open>Agreement\<close>

text \<open>In every reachable state, of what two servers regard as committed, one is a prefix of the other, and two logs
  that have an entry of the same index and term are the same up to there.\<close>

lemma spec_agreement:
  assumes "reach (spec_init n) (spec_step n) s" "i < n" "j < n"
  shows "prefix (take (s_commit s i) (s_log s i)) (take (s_commit s j) (s_log s j))
    \<or> prefix (take (s_commit s j) (s_log s j)) (take (s_commit s i) (s_log s i))"
proof -
  note inv = spec.reach_inv [OF assms(1)]
  have "chosen_by n s (s_term s k) (take (s_commit s k) (s_log s k))" if "k < n" for k
    using spec_invD(9) [OF inv] that unfolding commits_ok_def by blast
  from chosen_agree [OF spec_invD(7,4) [OF inv] this this, OF assms(2,3)] show ?thesis using prefix_same_cases by blast
qed

lemma spec_log_matching:
  assumes "reach (spec_init n) (spec_step n) s" "i < n" "j < n"
    and k: "0 < k" "k \<le> length (s_log s i)" "k \<le> length (s_log s j)" "term_at (s_log s i) k = term_at (s_log s j) k"
  shows "take k (s_log s i) = take k (s_log s j)"
proof -
  note l = logs_okD(3) [OF spec_invD(4) [OF spec.reach_inv [OF assms(1)]]]
  have "prefix (take k (s_log s i)) (s_tlog s (term_at (s_log s i) k))" "prefix (take k (s_log s j)) (s_tlog s (term_at (s_log s i) k))"
    using rootedD(1) [OF l [OF assms(2)] k(1,2)] rootedD(1) [OF l [OF assms(3)] k(1,3)] k(4) by simp_all
  then show ?thesis using k(2,3) by (metis length_take min.absorb2 prefix_length_prefix prefix_order.antisym order_refl)
qed

end
