(* ===== verification/Raft_Cluster.thy ===== *)
theory Raft_Cluster
  imports Raft_Service Raft_Spec
begin

text \<open>
  Several Raft peers and their vote messages: a step relation in which requests and replies are
  delayed, lost and reordered at will and every other operation of a peer may run at any time, and
  the proof that no term has two leaders as long as no peer loses state. A peer that crashes before
  \<open>batchPersister\<close> has saved its vote can vote twice; the last section shows how.
\<close>

section \<open>The cluster\<close>

text \<open>\<open>requests\<close> and \<open>replies\<close> are the vote messages sent so far, \<open>votes c t\<close> is the variable \<open>votes\<close> of
  the election \<open>c\<close> started in term \<open>t\<close>, and \<open>handled\<close> holds \<open>(j, c, t)\<close> once that election's goroutine
  for server \<open>j\<close> has seen its reply.\<close>

record 'c cluster =
  nodes :: "nat \<Rightarrow> 'c Raft"
  requests :: "RequestVoteArgs set"
  replies :: "(nat \<times> RequestVoteArgs \<times> RequestVoteReply) set"
  votes :: "nat \<Rightarrow> int \<Rightarrow> nat"
  handled :: "(nat \<times> nat \<times> int) set"

text \<open>The events that do not take part in elections.\<close>

fun local_event :: "'c event \<Rightarrow> bool" where
  "local_event (EvRequestVote now r a) = False"
| "local_event (EvTick now r) = False"
| "local_event (EvVoteReply now r a rep v) = False"
| "local_event _ = True"

definition cluster_init :: "nat \<Rightarrow> 'c cluster \<Rightarrow> bool" where
  "cluster_init n s \<longleftrightarrow> (\<forall>i < n. \<exists>dec now r ps. Make dec now r n i ps = Inr (nodes s i))
     \<and> requests s = {} \<and> replies s = {} \<and> handled s = {} \<and> (\<forall>c t. votes s c t = 0)"

inductive vote_step :: "nat \<Rightarrow> 'c cluster \<Rightarrow> 'c cluster \<Rightarrow> bool" for n where
  tick: "i < n \<Longrightarrow> ticker now r (nodes s i) = Inr (rf', None)
    \<Longrightarrow> vote_step n s (s\<lparr>nodes := (nodes s)(i := rf')\<rparr>)"
| elect: "i < n \<Longrightarrow> ticker now r (nodes s i) = Inr (rf', Some a)
    \<Longrightarrow> vote_step n s (s\<lparr>nodes := (nodes s)(i := rf'), requests := insert a (requests s),
          votes := (votes s)(i := (votes s i)(rv_Term a := 1))\<rparr>)"
| request: "j < n \<Longrightarrow> a \<in> requests s \<Longrightarrow> rv_CandidateId a \<noteq> int j
    \<Longrightarrow> RequestVote now r (nodes s j) a = Inr (rf', rep)
    \<Longrightarrow> vote_step n s (s\<lparr>nodes := (nodes s)(j := rf'), replies := insert (j, a, rep) (replies s)\<rparr>)"
| reply: "(j, a, rep) \<in> replies s \<Longrightarrow> rv_CandidateId a = int c \<Longrightarrow> (j, c, rv_Term a) \<notin> handled s
    \<Longrightarrow> handleVoteReply now r a rep (votes s c (rv_Term a)) (nodes s c) = (rf', v)
    \<Longrightarrow> vote_step n s (s\<lparr>nodes := (nodes s)(c := rf'), votes := (votes s)(c := (votes s c)(rv_Term a := v)),
          handled := insert (j, c, rv_Term a) (handled s)\<rparr>)"

text \<open>A server that crashed and comes back has the persistent state it had when it crashed.\<close>

inductive cluster_step :: "nat \<Rightarrow> 'c cluster \<Rightarrow> 'c cluster \<Rightarrow> bool" for n where
  vote: "vote_step n s t \<Longrightarrow> cluster_step n s t"
| local: "i < n \<Longrightarrow> local_event ev \<Longrightarrow> peer_step ev (nodes s i) = Inr rf'
    \<Longrightarrow> cluster_step n s (s\<lparr>nodes := (nodes s)(i := rf')\<rparr>)"
| reboot: "i < n \<Longrightarrow> Make dec now r n i ps = Inr rf' \<Longrightarrow> persistent rf' = persistent (nodes s i)
    \<Longrightarrow> cluster_step n s (s\<lparr>nodes := (nodes s)(i := rf')\<rparr>)"

section \<open>Operations that make no leader\<close>

definition vote_grows :: "'c Raft \<Rightarrow> 'c Raft \<Rightarrow> bool" where
  "vote_grows rf rf' \<longleftrightarrow> npeers rf' = npeers rf \<and> me rf' = me rf \<and> currentTerm rf \<le> currentTerm rf'
     \<and> (currentTerm rf' = currentTerm rf \<longrightarrow> votedFor rf = -1 \<or> votedFor rf' = votedFor rf)"

lemma grows_vote: "grows rf rf' \<Longrightarrow> vote_grows rf rf'"
  by (simp add: grows_def vote_grows_def)

definition keeps :: "'c Raft \<Rightarrow> 'c Raft \<Rightarrow> bool" where
  "keeps rf rf' \<longleftrightarrow> vote_grows rf rf' \<and> (rstate rf' = LEADER \<longrightarrow> rstate rf = LEADER \<and> currentTerm rf' = currentTerm rf)"

definition no_new_leader :: "'c Raft \<Rightarrow> 'c Raft \<Rightarrow> bool" where
  "no_new_leader rf rf' \<longleftrightarrow> (rstate rf' = LEADER \<longrightarrow> rstate rf = LEADER \<and> currentTerm rf' = currentTerm rf)"

lemma no_new_leader_refl [simp]: "no_new_leader rf rf"
  by (simp add: no_new_leader_def)

lemma no_new_leader_simps [simp]:
  "no_new_leader rf (broadcast c rf') = no_new_leader rf rf'"
  "no_new_leader rf (resetElection now r rf') = no_new_leader rf rf'"
  "no_new_leader rf (stepDownToFollower t rf')"
  "no_new_leader rf (wake_replicators is rf') = no_new_leader rf rf'"
  by (simp_all add: no_new_leader_def)

lemma no_new_leader_fields [simp]:
  "no_new_leader rf (rf'\<lparr>nextIndex := ni\<rparr>) = no_new_leader rf rf'"
  "no_new_leader (rf\<lparr>matchIndex := mi\<rparr>) rf' = no_new_leader rf rf'"
  "no_new_leader (rf\<lparr>inFlight := fl\<rparr>) rf' = no_new_leader rf rf'"
  by (simp_all add: no_new_leader_def)

lemma append_checked_nnl: "append_checked rf a rep = Inr (rf', rep') \<Longrightarrow> no_new_leader rf rf'"
  by (auto simp: append_checked_def Let_def rbind_eq_Inr no_new_leader_def split: if_splits prod.splits)

lemma AppendEntries_nnl:
  assumes "AppendEntries now r rf a = Inr (rf', rep)"
  shows "no_new_leader rf rf'"
proof (cases "ae_Term a < currentTerm rf")
  case True
  then show ?thesis using assms by (simp add: AppendEntries_def Let_def)
next
  case False
  have e: "no_new_leader rf (ae_enter now r rf a)" by (simp add: ae_enter_def)
  have "rf' = ae_enter now r rf a \<or> no_new_leader (ae_enter now r rf a) rf'"
    using assms False by (auto simp: AppendEntries_current split: option.splits dest: append_checked_nnl)
  then show ?thesis using e by (auto simp: no_new_leader_def)
qed

lemma updateCommitIndex_nnl: "updateCommitIndex rf = Inr rf' \<Longrightarrow> no_new_leader rf rf'"
  by (auto simp: updateCommitIndex_def rbind_eq_Inr no_new_leader_def split: if_splits)

lemma handle_nnl:
  "handle_success s a rf = Inr rf' \<Longrightarrow> no_new_leader rf rf'"
  "handle_conflict s a rep rf = Inr rf' \<Longrightarrow> no_new_leader rf rf'"
  by (auto simp: handle_success_def handle_conflict_def Let_def rbind_eq_Inr split: if_splits dest!: updateCommitIndex_nnl)

lemma handleAppendEntriesResponse_nnl:
  "handleAppendEntriesResponse now r s a rep rf = Inr rf' \<Longrightarrow> no_new_leader rf rf'"
  by (auto simp: handleAppendEntriesResponse_def split: if_splits dest: handle_nnl)

lemma sendAndHandle_nnl:
  assumes "sendAndHandle now r s a sq res rf = Inr rf'"
  shows "no_new_leader rf rf'"
proof -
  define rf1 where "rf1 = (if sq = sendSeq rf ! s then rf\<lparr>inFlight := (inFlight rf)[s := False]\<rparr> else rf)"
  have "rf' = rf1 \<or> (\<exists>reply rf2. handleAppendEntriesResponse now r s a reply rf1 = Inr rf2
      \<and> rf' = broadcast PersistCond (broadcast (ReplCond s) rf2))"
    using assms by (auto simp: sendAndHandle_def Let_def rbind_eq_Inr slice_get_eq_Inr rf1_def [symmetric]
        split: option.splits if_splits)
  then have "no_new_leader rf1 rf'" using handleAppendEntriesResponse_nnl by auto
  then show ?thesis by (simp add: rf1_def split: if_splits)
qed

lemma local_nnl:
  assumes "local_event ev" "peer_step ev rf = Inr rf'"
  shows "no_new_leader rf rf'"
proof (cases ev)
  case (EvAppendEntries now r a)
  then show ?thesis using assms by (auto simp: rbind_eq_Inr dest: AppendEntries_nnl)
next
  case (EvAppendDone now r s a sq res)
  then show ?thesis using assms by (auto dest: sendAndHandle_nnl)
qed (use assms in \<open>auto simp: no_new_leader_def rbind_eq_Inr InstallSnapshot_begin_def InstallSnapshot_end_def Snapshot_def
      replicator_send_def replicator_snapshot_done_def applier_send_def applier_finish_def batchPersister_end_def
      Start_def Let_def split: if_splits option.splits\<close>)

lemma local_keeps: "local_event ev \<Longrightarrow> peer_step ev rf = Inr rf' \<Longrightarrow> keeps rf rf'"
  using local_nnl grows_vote [OF peer_step_grows] by (auto simp: keeps_def no_new_leader_def)

section \<open>What the election operations do\<close>

lemma wake_stale_same:
  "wake_stale now is rf = Inr rf' \<Longrightarrow> persistent rf' = persistent rf \<and> rstate rf' = rstate rf"
proof (induction "is" arbitrary: rf)
  case (Cons i js)
  then show ?case by (fastforce simp: rbind_eq_Inr persistent_def split: if_splits)
qed simp

lemma ticker_idle:
  assumes "ticker now r rf = Inr (rf', None)"
  shows "keeps rf rf'"
proof -
  have "no_new_leader rf rf'"
    using assms by (auto simp: ticker_def attemptElection_def no_new_leader_def rbind_eq_Inr Let_def persistent_def
        split: if_splits dest!: wake_stale_same)
  then show ?thesis using grows_vote [OF ticker_grows [OF assms]] by (simp add: keeps_def no_new_leader_def)
qed

lemma ticker_elects:
  assumes "ticker now r rf = Inr (rf', Some a)"
  shows "currentTerm rf' = currentTerm rf + 1" "rv_Term a = currentTerm rf + 1" "rv_CandidateId a = int (me rf)"
    and "votedFor rf' = int (me rf)" "rstate rf' = CANDIDATE"
  using assms by (auto simp: ticker_def attemptElection_def startElectionState_def rbind_eq_Inr Let_def split: if_splits)

lemma RequestVote_grants:
  assumes "RequestVote now r rf a = Inr (rf', rep)"
  shows "keeps rf rf'"
    and "vr_VoteGranted rep \<Longrightarrow> currentTerm rf' = rv_Term a \<and> votedFor rf' = rv_CandidateId a
           \<and> (currentTerm rf < rv_Term a \<or> votedFor rf = -1 \<or> votedFor rf = rv_CandidateId a)"
proof -
  have "no_new_leader rf rf'"
    using assms by (auto simp: RequestVote_def rbind_eq_Inr Let_def no_new_leader_def split: if_splits)
  then show "keeps rf rf'" using grows_vote [OF RequestVote_grows [OF assms]] by (simp add: keeps_def no_new_leader_def)
  show "currentTerm rf' = rv_Term a \<and> votedFor rf' = rv_CandidateId a
           \<and> (currentTerm rf < rv_Term a \<or> votedFor rf = -1 \<or> votedFor rf = rv_CandidateId a)" if "vr_VoteGranted rep"
    using assms that by (auto simp: RequestVote_def rbind_eq_Inr Let_def split: if_splits)
qed

lemma handleVoteReply_counts:
  assumes "handleVoteReply now r a rep v rf = (rf', v')"
  shows "vote_grows rf rf'" "v' = v \<or> (v' = Suc v \<and> vr_VoteGranted rep)"
    and "rstate rf' = LEADER \<Longrightarrow> no_new_leader rf rf' \<or> (currentTerm rf' = rv_Term a \<and> npeers rf div 2 < v')"
proof -
  show "vote_grows rf rf'" using grows_vote [OF handleVoteReply_grows [of rf now r a rep v]] assms by simp
  show "v' = v \<or> (v' = Suc v \<and> vr_VoteGranted rep)"
    using assms by (auto simp: handleVoteReply_def Let_def split: if_splits)
  show "no_new_leader rf rf' \<or> (currentTerm rf' = rv_Term a \<and> npeers rf div 2 < v')" if "rstate rf' = LEADER"
    using assms that by (auto simp: handleVoteReply_def Let_def split: if_splits)
qed

section \<open>The election invariant\<close>

text \<open>\<open>voted s j t c\<close>: server \<open>j\<close> gave its vote of term \<open>t\<close> to \<open>c\<close>, by a granted reply or by being the candidate
  itself.\<close>

definition voted :: "'c cluster \<Rightarrow> nat \<Rightarrow> int \<Rightarrow> nat \<Rightarrow> bool" where
  "voted s j t c \<longleftrightarrow>
     (\<exists>a rep. (j, a, rep) \<in> replies s \<and> vr_VoteGranted rep \<and> rv_Term a = t \<and> rv_CandidateId a = int c)
     \<or> (j = c \<and> (\<exists>a \<in> requests s. rv_Term a = t \<and> rv_CandidateId a = int c))"

definition voters :: "nat \<Rightarrow> 'c cluster \<Rightarrow> int \<Rightarrow> nat \<Rightarrow> nat set" where
  "voters n s t c = {j. j < n \<and> voted s j t c}"

definition counted :: "nat \<Rightarrow> 'c cluster \<Rightarrow> int \<Rightarrow> nat \<Rightarrow> nat set" where
  "counted n s t c = {j. j < n \<and> voted s j t c \<and> (j = c \<or> (j, c, t) \<in> handled s)}"

definition shape_inv :: "nat \<Rightarrow> 'c cluster \<Rightarrow> bool" where
  "shape_inv n s \<longleftrightarrow> (\<forall>i < n. me (nodes s i) = i \<and> npeers (nodes s i) = n)
     \<and> (\<forall>a \<in> requests s. \<exists>c < n. rv_CandidateId a = int c)
     \<and> (\<forall>(j, a, rep) \<in> replies s. j < n \<and> a \<in> requests s \<and> rv_CandidateId a \<noteq> int j)"

definition vote_inv :: "nat \<Rightarrow> 'c cluster \<Rightarrow> bool" where
  "vote_inv n s \<longleftrightarrow> (\<forall>j < n. \<forall>t c. voted s j t c \<longrightarrow>
     t < currentTerm (nodes s j) \<or> t = currentTerm (nodes s j) \<and> votedFor (nodes s j) = int c)"

definition unique_inv :: "nat \<Rightarrow> 'c cluster \<Rightarrow> bool" where
  "unique_inv n s \<longleftrightarrow> (\<forall>j < n. \<forall>t c c'. voted s j t c \<longrightarrow> voted s j t c' \<longrightarrow> c = c')"

definition count_inv :: "nat \<Rightarrow> 'c cluster \<Rightarrow> bool" where
  "count_inv n s \<longleftrightarrow> (\<forall>c < n. \<forall>t. votes s c t \<le> card (counted n s t c))"

definition leader_inv :: "nat \<Rightarrow> 'c cluster \<Rightarrow> bool" where
  "leader_inv n s \<longleftrightarrow> (\<forall>c < n. rstate (nodes s c) = LEADER \<longrightarrow> vote_quorum n (voters n s (currentTerm (nodes s c)) c))"

definition election_inv :: "nat \<Rightarrow> 'c cluster \<Rightarrow> bool" where
  "election_inv n s \<longleftrightarrow> shape_inv n s \<and> vote_inv n s \<and> unique_inv n s \<and> count_inv n s \<and> leader_inv n s"

lemmas election_defs = election_inv_def shape_inv_def vote_inv_def unique_inv_def count_inv_def leader_inv_def

lemma vote_quorum_mono: "vote_quorum n A \<Longrightarrow> A \<subseteq> B \<Longrightarrow> B \<subseteq> {..<n} \<Longrightarrow> vote_quorum n B"
  by (auto simp: vote_quorum_def intro: order_less_le_trans card_mono finite_subset)

lemma voters_sub [simp]: "voters n s t c \<subseteq> {..<n}"
  by (auto simp: voters_def)

lemma finite_voters [simp]: "finite (voters n s t c)"
  by (rule finite_subset [OF voters_sub]) simp

lemma finite_counted [simp]: "finite (counted n s t c)"
  by (rule finite_subset [of _ "{..<n}"]) (auto simp: counted_def)

lemma counted_sub: "counted n s t c \<subseteq> voters n s t c"
  by (auto simp: counted_def voters_def)

text \<open>A vote recorded before an operation is still recorded after it.\<close>

lemma vote_kept:
  assumes "vote_grows rf rf'" "t < currentTerm rf \<or> t = currentTerm rf \<and> votedFor rf = int c"
  shows "t < currentTerm rf' \<or> t = currentTerm rf' \<and> votedFor rf' = int c"
  using assms by (auto simp: vote_grows_def)

text \<open>Changing one node by an operation that makes no leader keeps the invariant; the messages and
  counters are the same.\<close>

lemma node_step_inv:
  assumes inv: "election_inv n s" and i: "i < n" and k: "keeps (nodes s i) rf'"
  shows "election_inv n (s\<lparr>nodes := (nodes s)(i := rf')\<rparr>)"
proof -
  let ?s = "s\<lparr>nodes := (nodes s)(i := rf')\<rparr>"
  have v: "voted ?s = voted s" "voters n ?s = voters n s" "counted n ?s = counted n s"
    by (auto simp: voted_def voters_def counted_def fun_eq_iff)
  have g: "vote_grows (nodes s i) rf'" using k by (simp add: keeps_def)
  have "shape_inv n ?s" using inv g by (auto simp: election_defs vote_grows_def)
  moreover have "vote_inv n ?s" using inv vote_kept [OF g] unfolding vote_inv_def v by (auto simp: election_defs)
  moreover have "unique_inv n ?s" "count_inv n ?s" using inv unfolding unique_inv_def count_inv_def v by (auto simp: election_defs)
  moreover have "leader_inv n ?s" using inv k unfolding leader_inv_def v by (auto simp: election_defs keeps_def)
  ultimately show ?thesis by (simp add: election_inv_def)
qed

lemma election_invD:
  assumes "election_inv n s"
  shows "\<And>i. i < n \<Longrightarrow> me (nodes s i) = i \<and> npeers (nodes s i) = n"
    and "\<And>a. a \<in> requests s \<Longrightarrow> \<exists>c < n. rv_CandidateId a = int c"
    and "\<And>j a rep. (j, a, rep) \<in> replies s \<Longrightarrow> j < n \<and> a \<in> requests s \<and> rv_CandidateId a \<noteq> int j"
    and "\<And>j t c. j < n \<Longrightarrow> voted s j t c \<Longrightarrow>
           t < currentTerm (nodes s j) \<or> t = currentTerm (nodes s j) \<and> votedFor (nodes s j) = int c"
    and "\<And>j t c c'. j < n \<Longrightarrow> voted s j t c \<Longrightarrow> voted s j t c' \<Longrightarrow> c = c'"
    and "\<And>c t. c < n \<Longrightarrow> votes s c t \<le> card (counted n s t c)"
    and "\<And>c. c < n \<Longrightarrow> rstate (nodes s c) = LEADER \<Longrightarrow> vote_quorum n (voters n s (currentTerm (nodes s c)) c)"
proof -
  have i: "shape_inv n s" "vote_inv n s" "unique_inv n s" "count_inv n s" "leader_inv n s"
    using assms by (simp_all add: election_inv_def)
  from i(1) show "\<And>i. i < n \<Longrightarrow> me (nodes s i) = i \<and> npeers (nodes s i) = n"
    "\<And>a. a \<in> requests s \<Longrightarrow> \<exists>c < n. rv_CandidateId a = int c"
    "\<And>j a rep. (j, a, rep) \<in> replies s \<Longrightarrow> j < n \<and> a \<in> requests s \<and> rv_CandidateId a \<noteq> int j"
    unfolding shape_inv_def by auto
  from i(2) show "\<And>j t c. j < n \<Longrightarrow> voted s j t c \<Longrightarrow>
      t < currentTerm (nodes s j) \<or> t = currentTerm (nodes s j) \<and> votedFor (nodes s j) = int c"
    unfolding vote_inv_def by blast
  from i(3) show "\<And>j t c c'. j < n \<Longrightarrow> voted s j t c \<Longrightarrow> voted s j t c' \<Longrightarrow> c = c'" unfolding unique_inv_def by blast
  from i(4) show "\<And>c t. c < n \<Longrightarrow> votes s c t \<le> card (counted n s t c)" unfolding count_inv_def by blast
  from i(5) show "\<And>c. c < n \<Longrightarrow> rstate (nodes s c) = LEADER \<Longrightarrow> vote_quorum n (voters n s (currentTerm (nodes s c)) c)"
    unfolding leader_inv_def by blast
qed

text \<open>Votes and handled replies are never taken back.\<close>

definition more_votes :: "'c cluster \<Rightarrow> 'c cluster \<Rightarrow> bool" where
  "more_votes s s' \<longleftrightarrow> (\<forall>j t c. voted s j t c \<longrightarrow> voted s' j t c) \<and> handled s \<subseteq> handled s'"

lemma counted_mono: "more_votes s s' \<Longrightarrow> card (counted n s t c) \<le> card (counted n s' t c)"
  by (rule card_mono) (auto simp: more_votes_def counted_def)

lemma voters_mono: "more_votes s s' \<Longrightarrow> vote_quorum n (voters n s t c) \<Longrightarrow> vote_quorum n (voters n s' t c)"
  by (erule vote_quorum_mono) (auto simp: more_votes_def voters_def)

lemma leader_inv_step:
  assumes inv: "election_inv n s" and mv: "more_votes s s'"
    and keep: "\<And>c. c < n \<Longrightarrow> rstate (nodes s' c) = LEADER \<Longrightarrow>
      (rstate (nodes s c) = LEADER \<and> currentTerm (nodes s' c) = currentTerm (nodes s c))
      \<or> vote_quorum n (voters n s' (currentTerm (nodes s' c)) c)"
  shows "leader_inv n s'"
  unfolding leader_inv_def
proof (intro allI impI)
  fix c assume c: "c < n" "rstate (nodes s' c) = LEADER"
  from keep [OF c] election_invD(7) [OF inv c(1)] voters_mono [OF mv]
  show "vote_quorum n (voters n s' (currentTerm (nodes s' c)) c)" by metis
qed

text \<open>A new election: nobody can have voted in its term for anyone at this server, and its only vote is the
  candidate's own.\<close>

lemma elect_inv:
  assumes inv: "election_inv n s" and i: "i < n" and el: "ticker now r (nodes s i) = Inr (rf', Some a)"
  shows "election_inv n (s\<lparr>nodes := (nodes s)(i := rf'), requests := insert a (requests s),
          votes := (votes s)(i := (votes s i)(rv_Term a := 1))\<rparr>)" (is "election_inv n ?s")
proof -
  note e = ticker_elects [OF el] and d = election_invD [OF inv]
  have m: "me (nodes s i) = i" "npeers (nodes s i) = n" using d(1) i by auto
  have g: "vote_grows (nodes s i) rf'" by (rule grows_vote [OF ticker_grows [OF el]])
  have v: "voted ?s j t c \<longleftrightarrow> voted s j t c \<or> (j = i \<and> c = i \<and> t = rv_Term a)" for j t c
    using e(3) m by (auto simp: voted_def)
  have mv: "more_votes s ?s" unfolding more_votes_def v by simp
  have old: "\<not> voted s i (rv_Term a) c" for c using d(4) [OF i, of "rv_Term a" c] e(2) by auto
  have "shape_inv n ?s" using d(1-3) g e(3) m i by (auto simp: shape_inv_def vote_grows_def)
  moreover have "vote_inv n ?s"
    unfolding vote_inv_def v using d(4) vote_kept [OF g d(4) [OF i]] e(1,2,4) m by auto
  moreover have "unique_inv n ?s" using d(5) old unfolding unique_inv_def v by blast
  moreover have "count_inv n ?s" unfolding count_inv_def
  proof (intro allI impI)
    fix c t assume c: "c < n"
    have "i \<in> counted n ?s (rv_Term a) i" using i unfolding counted_def v by simp
    then have "1 \<le> card (counted n ?s (rv_Term a) i)" by (auto simp: Suc_le_eq card_gt_0_iff)
    then show "votes ?s c t \<le> card (counted n ?s t c)"
      using order_trans [OF d(6) [OF c] counted_mono [OF mv]] by auto
  qed
  moreover have "leader_inv n ?s" by (rule leader_inv_step [OF inv mv]) (use e(5) in \<open>auto split: if_splits\<close>)
  ultimately show ?thesis by (simp add: election_inv_def)
qed

text \<open>A voter answers a request.\<close>

lemma request_inv:
  assumes inv: "election_inv n s" and j: "j < n" and a: "a \<in> requests s" "rv_CandidateId a \<noteq> int j"
    and rv: "RequestVote now r (nodes s j) a = Inr (rf', rep)"
  shows "election_inv n (s\<lparr>nodes := (nodes s)(j := rf'), replies := insert (j, a, rep) (replies s)\<rparr>)" (is "election_inv n ?s")
proof -
  note g = RequestVote_grants [OF rv] and d = election_invD [OF inv]
  have gr: "vote_grows (nodes s j) rf'" using g(1) by (simp add: keeps_def)
  have v: "voted ?s k t c \<longleftrightarrow> voted s k t c \<or> (k = j \<and> vr_VoteGranted rep \<and> t = rv_Term a \<and> rv_CandidateId a = int c)" for k t c
    by (auto simp: voted_def)
  have mv: "more_votes s ?s" unfolding more_votes_def v by simp
  have same: "int c = rv_CandidateId a" if "voted s j (rv_Term a) c" "vr_VoteGranted rep" for c
    using d(4) [OF j that(1)] g(2) [OF that(2)] gr by (auto simp: vote_grows_def)
  have "shape_inv n ?s" using d(1-3) gr j a by (auto simp: shape_inv_def vote_grows_def)
  moreover have "vote_inv n ?s"
    unfolding vote_inv_def v using d(4) vote_kept [OF gr d(4) [OF j]] g(2) by auto
  moreover have "unique_inv n ?s" unfolding unique_inv_def v
  proof (intro allI impI)
    fix k t c c' assume k: "k < n" and vc: "voted s k t c \<or> k = j \<and> vr_VoteGranted rep \<and> t = rv_Term a \<and> rv_CandidateId a = int c"
      and vc': "voted s k t c' \<or> k = j \<and> vr_VoteGranted rep \<and> t = rv_Term a \<and> rv_CandidateId a = int c'"
    from vc vc' d(5) [OF k] same [of c] same [of c'] show "c = c'" by (metis of_nat_eq_iff)
  qed
  moreover have "count_inv n ?s" unfolding count_inv_def
  proof (intro allI impI)
    fix c t assume c: "c < n"
    show "votes ?s c t \<le> card (counted n ?s t c)" using order_trans [OF d(6) [OF c] counted_mono [OF mv]] by simp
  qed
  moreover have "leader_inv n ?s"
    by (rule leader_inv_step [OF inv mv]) (use g(1) in \<open>auto simp: keeps_def split: if_splits\<close>)
  ultimately show ?thesis by (simp add: election_inv_def)
qed

text \<open>A candidate sees a reply for the first time: the vote counter grows by at most the new voter.\<close>

lemma reply_gain:
  fixes s s' :: "'c cluster"
  assumes le: "k \<le> card (counted n s t c)" and same: "voted s' = voted s" "handled s' = insert (j, c, t) (handled s)"
    and j: "j < n" "j \<noteq> c" "(j, c, t) \<notin> handled s" and k': "k' = k \<or> k' = Suc k \<and> voted s j t c"
  shows "k' \<le> card (counted n s' t c)"
proof (cases "k' = k")
  case True
  have "more_votes s s'" using same by (auto simp: more_votes_def)
  then show ?thesis using True order_trans [OF le counted_mono] by simp
next
  case False
  then have "insert j (counted n s t c) \<subseteq> counted n s' t c" "j \<notin> counted n s t c"
    using j k' same by (auto simp: counted_def)
  then have "Suc (card (counted n s t c)) \<le> card (counted n s' t c)"
    by (metis card_insert_disjoint card_mono finite_counted)
  then show ?thesis using le k' False by simp
qed

lemma reply_inv:
  assumes inv: "election_inv n s" and rep: "(j, a, rep) \<in> replies s" "rv_CandidateId a = int c"
    and new: "(j, c, rv_Term a) \<notin> handled s"
    and hv: "handleVoteReply now r a rep (votes s c (rv_Term a)) (nodes s c) = (rf', v)"
  shows "election_inv n (s\<lparr>nodes := (nodes s)(c := rf'), votes := (votes s)(c := (votes s c)(rv_Term a := v)),
          handled := insert (j, c, rv_Term a) (handled s)\<rparr>)" (is "election_inv n ?s")
proof -
  note h = handleVoteReply_counts [OF hv] and d = election_invD [OF inv]
  have j: "j < n" "a \<in> requests s" "j \<noteq> c" using d(3) [OF rep(1)] rep(2) by auto
  have c: "c < n" "npeers (nodes s c) = n" using d(2) [OF j(2)] rep(2) d(1) by auto
  have vv: "voted ?s = voted s" "voters n ?s = voters n s" by (auto simp: voted_def voters_def fun_eq_iff)
  have mv: "more_votes s ?s" by (auto simp: more_votes_def vv)
  have gain: "v \<le> card (counted n ?s (rv_Term a) c)"
    by (rule reply_gain [OF d(6) [OF c(1)] vv(1) _ j(1,3) new]) (use h(2) rep in \<open>auto simp: voted_def\<close>)
  have "shape_inv n ?s" using d(1-3) h(1) by (auto simp: shape_inv_def vote_grows_def)
  moreover have "vote_inv n ?s" unfolding vote_inv_def vv using d(4) vote_kept [OF h(1) d(4) [OF c(1)]] by auto
  moreover have "unique_inv n ?s" using d(5) unfolding unique_inv_def vv by blast
  moreover have "count_inv n ?s" unfolding count_inv_def
    using gain order_trans [OF d(6) counted_mono [OF mv]] by auto
  moreover have "leader_inv n ?s"
  proof (rule leader_inv_step [OF inv mv])
    fix b assume b: "b < n" "rstate (nodes ?s b) = LEADER"
    have "vote_quorum n (voters n s (rv_Term a) c)" if "n div 2 < v"
      using order_less_le_trans [OF that gain] card_mono [OF _ counted_sub [of n ?s "rv_Term a" c]] vv(2)
      by (auto simp: vote_quorum_def)
    then show "(rstate (nodes s b) = LEADER \<and> currentTerm (nodes ?s b) = currentTerm (nodes s b))
        \<or> vote_quorum n (voters n ?s (currentTerm (nodes ?s b)) b)"
      unfolding vv using b h(3) c(2) by (auto simp: no_new_leader_def split: if_splits)
  qed
  ultimately show ?thesis by (simp add: election_inv_def)
qed

lemma Make_follower:
  assumes "Make dec now r n i ps = Inr rf"
  shows "me rf = i" "npeers rf = n" "rstate rf = FOLLOWER"
  using assms by (auto simp: Make_def readPersist_def Let_def rbind_eq_Inr split: if_splits option.splits)

lemma vote_step_inv:
  assumes inv: "election_inv n s" and st: "vote_step n s t"
  shows "election_inv n t"
  using st
proof cases
  case (tick i now r rf')
  show ?thesis using node_step_inv [OF inv tick(2) ticker_idle [OF tick(3)]] by (simp only: tick(1))
next
  case (elect i now r rf' a)
  show ?thesis using elect_inv [OF inv elect(2,3)] by (simp only: elect(1))
next
  case (request j a now r rf' rep)
  show ?thesis using request_inv [OF inv request(2-5)] by (simp only: request(1))
next
  case (reply j a rep c now r rf' v)
  show ?thesis using reply_inv [OF inv reply(2-5)] by (simp only: reply(1))
qed

interpretation election: invariant_system "cluster_init n" "cluster_step n" "election_inv n" for n
proof
  fix s :: "'c cluster" assume i: "cluster_init n s"
  have m: "me (nodes s i) = i" "npeers (nodes s i) = n" "rstate (nodes s i) = FOLLOWER" if lt: "i < n" for i
  proof -
    obtain dec now r ps where "Make dec now r n i ps = Inr (nodes s i)" using i lt unfolding cluster_init_def by blast
    from Make_follower [OF this] show "me (nodes s i) = i" "npeers (nodes s i) = n" "rstate (nodes s i) = FOLLOWER" .
  qed
  have "\<not> voted s j t c" for j t c using i by (simp add: cluster_init_def voted_def)
  then show "election_inv n s" using i m by (auto simp: election_defs cluster_init_def)
next
  fix s t :: "'c cluster" assume inv: "election_inv n s" and "cluster_step n s t"
  from this(2) show "election_inv n t"
  proof (cases rule: cluster_step.cases)
    case vote
    show ?thesis by (rule vote_step_inv [OF inv vote])
  next
    case (local i ev rf')
    show ?thesis using node_step_inv [OF inv local(2) local_keeps [OF local(3,4)]] by (simp only: local(1))
  next
    case (reboot i dec now r ps rf')
    have "currentTerm rf' = currentTerm (nodes s i)" "votedFor rf' = votedFor (nodes s i)"
      using reboot(4) by (simp_all add: persistent_def)
    then have "keeps (nodes s i) rf'"
      using Make_follower [OF reboot(3)] election_invD(1) [OF inv reboot(2)] by (simp add: keeps_def vote_grows_def)
    then show ?thesis using node_step_inv [OF inv reboot(2)] by (simp only: reboot(1))
  qed
qed

section \<open>Election safety\<close>

text \<open>C4: in every state a cluster reaches, for any number of servers, with vote requests and replies
  delayed, lost, duplicated and reordered, every other operation of the peers interleaved at will,
  and servers that crash and come back with the persistent state they had, two leaders of the same
  term are the same server.\<close>

theorem election_safety:
  assumes run: "reach (cluster_init n) (cluster_step n) s"
    and c: "c < n" "rstate (nodes s c) = LEADER" and d: "d < n" "rstate (nodes s d) = LEADER"
    and t: "currentTerm (nodes s c) = currentTerm (nodes s d)"
  shows "c = d"
proof -
  note inv = election.reach_inv [OF run]
  from vq.common_member [OF election_invD(7) [OF inv c] election_invD(7) [OF inv d]]
  obtain j where "j < n" "voted s j (currentTerm (nodes s c)) c" "voted s j (currentTerm (nodes s d)) d"
    by (auto simp: voters_def)
  then show ?thesis using election_invD(5) [OF inv] t by metis
qed

text \<open>Three fresh peers elect server 0 in term 1 with the vote of server 1.\<close>

definition demo_cluster :: "nat cluster" where
  "demo_cluster = \<lparr>nodes = (\<lambda>i. demo_fresh\<lparr>me := i\<rparr>), requests = {}, replies = {}, votes = (\<lambda>_ _. 0), handled = {}\<rparr>"

lemma demo_cluster_init: "cluster_init 3 demo_cluster"
proof -
  have "Make (\<lambda>_. None) 0 0 3 i MakePersister = Inr (demo_fresh\<lparr>me := i\<rparr>)" if "i < 3" for i
    using that by (auto simp: Make_def readPersist_def MakePersister_def ReadRaftState_def ReadSnapshot_def resetElection_def
      demo_fresh_def absIdx_def Let_def less_Suc_eq numeral_3_eq_3)
  then have "\<forall>i < 3. \<exists>dec now r ps. Make dec now r 3 i ps = Inr (demo_fresh\<lparr>me := i\<rparr>)" by blast
  then show ?thesis by (simp add: cluster_init_def demo_cluster_def)
qed

definition demo_vote :: RequestVoteArgs where
  "demo_vote = \<lparr>rv_Term = 1, rv_CandidateId = 0, rv_LastLogIndex = 0, rv_LastLogTerm = 0\<rparr>"

lemma demo_elects:
  "\<exists>rf'. ticker 300000000 7 (demo_fresh\<lparr>me := 0\<rparr>) = Inr (rf', Some demo_vote) \<and> currentTerm rf' = 1 \<and> rstate rf' = CANDIDATE \<and> npeers rf' = 3"
  by (simp add: ticker_def attemptElection_def startElectionState_def resetElection_def demo_fresh_def demo_vote_def
      absIdx_def slice_get_def broadcast_def Let_def)

lemma demo_grants:
  "\<exists>rf'. RequestVote 0 0 (demo_fresh\<lparr>me := 1\<rparr>) demo_vote = Inr (rf', \<lparr>vr_Term = 1, vr_VoteGranted = True\<rparr>)"
  by (simp add: RequestVote_def demo_fresh_def demo_vote_def absIdx_def slice_get_def Let_def)

lemma demo_wins:
  "rstate rf = CANDIDATE \<Longrightarrow> currentTerm rf = 1 \<Longrightarrow> npeers rf = 3
    \<Longrightarrow> handleVoteReply 0 0 demo_vote \<lparr>vr_Term = 1, vr_VoteGranted = True\<rparr> 1 rf = (becomeLeader rf, 2)"
  by (simp add: handleVoteReply_def demo_vote_def Let_def)

lemma demo_leader_steps:
  "\<exists>s. (cluster_step 3)\<^sup>*\<^sup>* demo_cluster s \<and> rstate (nodes s 0) = LEADER \<and> currentTerm (nodes s 0) = 1"
proof -
  let ?R = "(cluster_step 3)\<^sup>*\<^sup>* demo_cluster"
  obtain c where c: "ticker 300000000 7 (nodes demo_cluster 0) = Inr (c, Some demo_vote)"
    "currentTerm c = 1" "rstate c = CANDIDATE" "npeers c = 3" using demo_elects by (auto simp: demo_cluster_def)
  define s1 where "s1 = demo_cluster\<lparr>nodes := (nodes demo_cluster)(0 := c), requests := insert demo_vote (requests demo_cluster),
          votes := (votes demo_cluster)(0 := (votes demo_cluster 0)(rv_Term demo_vote := 1))\<rparr>"
  have r1: "?R s1" unfolding s1_def
    by (rule r_into_rtranclp, rule cluster_step.vote, rule vote_step.elect [OF _ c(1)]) simp
  obtain w where w: "RequestVote 0 0 (nodes s1 1) demo_vote = Inr (w, \<lparr>vr_Term = 1, vr_VoteGranted = True\<rparr>)"
    using demo_grants by (auto simp: s1_def demo_cluster_def)
  define s2 where "s2 = s1\<lparr>nodes := (nodes s1)(1 := w), replies := insert (1, demo_vote, \<lparr>vr_Term = 1, vr_VoteGranted = True\<rparr>) (replies s1)\<rparr>"
  have r2: "?R s2" unfolding s2_def
    by (rule rtranclp.rtrancl_into_rtrancl [OF r1], rule cluster_step.vote, rule vote_step.request [OF _ _ _ w])
      (simp_all add: s1_def demo_vote_def)
  have h: "handleVoteReply 0 0 demo_vote \<lparr>vr_Term = 1, vr_VoteGranted = True\<rparr> (votes s2 0 (rv_Term demo_vote)) (nodes s2 0) = (becomeLeader c, 2)"
    using demo_wins [OF c(3,2,4)] by (simp add: s2_def s1_def)
  define s3 where "s3 = s2\<lparr>nodes := (nodes s2)(0 := becomeLeader c), votes := (votes s2)(0 := (votes s2 0)(rv_Term demo_vote := 2)),
          handled := insert (1, 0, rv_Term demo_vote) (handled s2)\<rparr>"
  have "?R s3" unfolding s3_def
    by (rule rtranclp.rtrancl_into_rtrancl [OF r2], rule cluster_step.vote, rule vote_step.reply [OF _ _ _ h])
      (simp_all add: s2_def s1_def demo_vote_def demo_cluster_def)
  moreover have "nodes s3 0 = becomeLeader c" by (simp add: s3_def)
  ultimately show ?thesis using c(2) by (metis becomeLeader_fields(3,9))
qed

lemma demo_leader_reached:
  "\<exists>s :: nat cluster. reach (cluster_init 3) (cluster_step 3) s \<and> rstate (nodes s 0) = LEADER \<and> currentTerm (nodes s 0) = 1"
  using demo_leader_steps reach_steps [where init = "cluster_init 3", OF reach_init [where init = "cluster_init 3", OF demo_cluster_init]] by blast

theorem election_safety_witness:
  "\<exists>s :: nat cluster. reach (cluster_init 3) (cluster_step 3) s \<and> rstate (nodes s 0) = LEADER
     \<and> (\<forall>d. d < 3 \<and> rstate (nodes s d) = LEADER \<and> currentTerm (nodes s d) = 1 \<longrightarrow> d = 0)"
proof -
  obtain s :: "nat cluster" where s: "reach (cluster_init 3) (cluster_step 3) s" "rstate (nodes s 0) = LEADER"
    "currentTerm (nodes s 0) = 1" using demo_leader_reached by blast
  have "d = 0" if "d < 3" "rstate (nodes s d) = LEADER" "currentTerm (nodes s d) = 1" for d
    using election_safety [OF s(1) that(1,2) _ s(2)] that(3) s(3) by simp
  with s show ?thesis by blast
qed

section \<open>A vote that is lost in a crash\<close>

text \<open>C29: a vote does not survive a crash unless \<open>batchPersister\<close> ran in between, because \<open>RequestVote\<close>
  replies before the vote is saved. A peer started from some saved state grants its vote of a term
  to one candidate; restarted from the same saved state it grants the vote of the same term to
  another. Any two requests will do whose term is newer than the saved one and whose logs are up to
  date.\<close>

theorem vote_lost_on_crash:
  assumes start: "Make dec now r n self ps = Inr rf" and inv: "peer_inv rf"
    and new: "currentTerm rf < rv_Term a1" "rv_Term a2 = rv_Term a1"
    and log: "up_to_date rf a1" "up_to_date rf a2"
  shows "\<exists>rf1 rep1 rf2 rep2. RequestVote now1 r1 rf a1 = Inr (rf1, rep1) \<and> vr_VoteGranted rep1
    \<and> votedFor rf1 = rv_CandidateId a1 \<and> dirty rf1
    \<and> rbind (Make dec now r n self ps) (\<lambda>rf0. RequestVote now2 r2 rf0 a2) = Inr (rf2, rep2) \<and> vr_VoteGranted rep2
    \<and> votedFor rf2 = rv_CandidateId a2"
proof -
  have g: "\<exists>rf' rep. RequestVote t q rf a = Inr (rf', rep) \<and> vr_VoteGranted rep \<and> votedFor rf' = rv_CandidateId a \<and> dirty rf'"
    if "currentTerm rf < rv_Term a" "up_to_date rf a" for t q a
    using RequestVote_result [OF inv, of t q a] that by auto
  have "currentTerm rf < rv_Term a2" using new by simp
  from g [OF new(1) log(1), of now1 r1] g [OF this log(2), of now2 r2] show ?thesis
    unfolding start rbind_Inr by blast
qed

theorem vote_lost_on_crash_witness:
  "\<exists>rf1 rep1 rf2 rep2. RequestVote 0 0 demo_fresh (demo_vote\<lparr>rv_CandidateId := 1\<rparr>) = Inr (rf1, rep1)
    \<and> vr_VoteGranted rep1 \<and> votedFor rf1 = 1
    \<and> rbind (Make (\<lambda>_. None) 0 0 3 0 MakePersister) (\<lambda>rf0. RequestVote 0 0 rf0 (demo_vote\<lparr>rv_CandidateId := 2\<rparr>)) = Inr (rf2 :: nat Raft, rep2)
    \<and> vr_VoteGranted rep2 \<and> votedFor rf2 = 2"
proof -
  have i: "peer_inv demo_fresh"
    by (simp add: demo_fresh_def inv_defs idx_defs)
  have a: "currentTerm demo_fresh < rv_Term (demo_vote\<lparr>rv_CandidateId := 1\<rparr>)"
    "rv_Term (demo_vote\<lparr>rv_CandidateId := 2\<rparr>) = rv_Term (demo_vote\<lparr>rv_CandidateId := 1\<rparr>)"
    "up_to_date demo_fresh (demo_vote\<lparr>rv_CandidateId := 1\<rparr>)" "up_to_date demo_fresh (demo_vote\<lparr>rv_CandidateId := 2\<rparr>)"
    by (simp_all add: demo_fresh_def demo_vote_def up_to_date_def lastTerm_def idx_defs)
  have c: "rv_CandidateId (demo_vote\<lparr>rv_CandidateId := c\<rparr>) = c" for c by simp
  from vote_lost_on_crash [OF demo_fresh_Make i a, of 0 0 0 0] show ?thesis unfolding c by blast
qed

end
