(* ===== verification/Raft_Net.thy ===== *)
theory Raft_Net
  imports Raft_Cluster
begin

text \<open>
  A whole Raft cluster: the votes of \<open>Raft_Cluster\<close> together with the \<open>AppendEntries\<close> and \<open>InstallSnapshot\<close> messages the
  replicators send, the batches the appliers deliver, snapshots by the service, the persisters and restarts from them. The
  second part says what each operation of a peer does to its whole log, of which the peer holds only the
  entries after its snapshot.
\<close>

section \<open>The cluster with its messages\<close>

text \<open>\<open>appends\<close> and \<open>installs\<close> are the requests sent so far with their destination, \<open>append_replies\<close> the answers;
  \<open>batch i\<close> is what the applier of server \<open>i\<close> has taken but not delivered (next index, last index, entries), and
  \<open>delivered\<close> is every command message any incarnation of a server has put on its apply channel. \<open>disk i\<close> is the persister
  of server \<open>i\<close>, \<open>saving i\<close> what its \<open>batchPersister\<close> has encoded but not yet saved, and \<open>saved i\<close> the length of the log it has
  saved, until it takes the lock again.

  \<open>lapse\<close> is not part of the program: it records that the run has left the protocol. The code lets that happen in two
  ways, both of which are steps of \<open>rnet_step\<close>: a peer takes over a snapshot of a newer term without adopting the term, or
  as a candidate (\<open>off_term\<close>), and a server comes back from a crash with another persistent state than it had,
  because \<open>batchPersister\<close> had not saved it. Nothing reads the flag, and no step clears it.\<close>

record 'c net =
  base :: "'c cluster"
  appends :: "(nat \<times> 'c AppendEntriesArgs) set"
  append_replies :: "(nat \<times> 'c AppendEntriesArgs \<times> AppendEntriesReply) set"
  installs :: "(nat \<times> InstallSnapshotArgs) set"
  batch :: "nat \<Rightarrow> (int \<times> int \<times> 'c EntryData list) option"
  delivered :: "(nat \<times> 'c ApplyMsg) set"
  disk :: "nat \<Rightarrow> Persister"
  saving :: "nat \<Rightarrow> (nat \<times> bytes \<times> bytes) option"
  saved :: "nat \<Rightarrow> nat option"
  lapse :: bool

abbreviation node :: "'c net \<Rightarrow> nat \<Rightarrow> 'c Raft" where
  "node s i \<equiv> nodes (base s) i"

definition set_node :: "nat \<Rightarrow> 'c Raft \<Rightarrow> 'c net \<Rightarrow> 'c net" where
  "set_node i rf s = s\<lparr>base := (base s)\<lparr>nodes := (nodes (base s))(i := rf)\<rparr>\<rparr>"

definition rnet_init :: "nat \<Rightarrow> 'c net \<Rightarrow> bool" where
  "rnet_init n s \<longleftrightarrow> cluster_init n (base s)
     \<and> (\<forall>i < n. \<exists>dec now r. ReadRaftState (disk s i) = [] \<and> Make dec now r n i (disk s i) = Inr (node s i))
     \<and> appends s = {} \<and> append_replies s = {} \<and> installs s = {} \<and> (\<forall>i. batch s i = None) \<and> delivered s = {}
     \<and> (\<forall>i. saving s i = None \<and> saved s i = None) \<and> \<not> lapse s"

text \<open>Requests may be delivered any number of times and in any order, or never, and so may answers. The
  service takes a snapshot up to an index that is committed. \<open>batchPersister\<close> encodes the state, saves it and takes
  the lock again in three steps, with anything in between; a crash loses what is not on the disk, and \<open>Make\<close> starts
  the next incarnation from the disk. \<open>enc\<close> and \<open>dec\<close> stand for the encoding of \<open>labgob\<close>, of which nothing is
  assumed.\<close>

definition off_term :: "'c Raft \<Rightarrow> InstallSnapshotArgs \<Rightarrow> bool" where
  "off_term rf b \<longleftrightarrow> snapshotIndex rf < is_LastIncludedIndex b \<and> (currentTerm rf < is_Term b \<or> rstate rf = CANDIDATE)"

inductive rnet_step :: "nat \<Rightarrow> ('c pstate \<Rightarrow> bytes) \<Rightarrow> (bytes \<Rightarrow> 'c pstate option) \<Rightarrow> 'c net \<Rightarrow> 'c net \<Rightarrow> bool" for n enc dec where
  vote: "vote_step n (base s) b \<Longrightarrow> rnet_step n enc dec s (s\<lparr>base := b\<rparr>)"
| start: "i < n \<Longrightarrow> Start c (node s i) = (rf', out) \<Longrightarrow> rnet_step n enc dec s (set_node i rf' s)"
| send_append: "i < n \<Longrightarrow> j < n \<Longrightarrow> j \<noteq> i \<Longrightarrow> replicator_send now j (node s i) = Inr (rf', Some (SendAppend a sq))
    \<Longrightarrow> rnet_step n enc dec s ((set_node i rf' s)\<lparr>appends := insert (j, a) (appends s)\<rparr>)"
| send_install: "i < n \<Longrightarrow> j < n \<Longrightarrow> j \<noteq> i \<Longrightarrow> replicator_send now j (node s i) = Inr (rf', Some (SendSnapshot b))
    \<Longrightarrow> rnet_step n enc dec s ((set_node i rf' s)\<lparr>installs := insert (j, b) (installs s)\<rparr>)"
| append: "(j, a) \<in> appends s \<Longrightarrow> AppendEntries now r (node s j) a = Inr (rf', rep)
    \<Longrightarrow> rnet_step n enc dec s ((set_node j rf' s)\<lparr>append_replies := insert (j, a, rep) (append_replies s)\<rparr>)"
| append_done: "(j, a, rep) \<in> append_replies s \<Longrightarrow> ae_LeaderId a = int i
    \<Longrightarrow> sendAndHandle now r j a sq (Some rep) (node s i) = Inr rf' \<Longrightarrow> rnet_step n enc dec s (set_node i rf' s)"
| append_failed: "i < n \<Longrightarrow> j < n \<Longrightarrow> j \<noteq> i
    \<Longrightarrow> sendAndHandle now r j a sq None (node s i) = Inr rf' \<Longrightarrow> rnet_step n enc dec s (set_node i rf' s)"
| install_begin: "(j, b) \<in> installs s \<Longrightarrow> InstallSnapshot_begin (node s j) b = (rf', t, go) \<Longrightarrow> rnet_step n enc dec s (set_node j rf' s)"
| install_end: "(j, b) \<in> installs s \<Longrightarrow> InstallSnapshot_end (node s j) b = Inr rf'
    \<Longrightarrow> rnet_step n enc dec s ((set_node j rf' s)\<lparr>lapse := lapse s \<or> off_term (node s j) b\<rparr>)"
| install_done: "i < n \<Longrightarrow> j < n \<Longrightarrow> j \<noteq> i
    \<Longrightarrow> replicator_snapshot_done now r j b res (node s i) = Inr rf' \<Longrightarrow> rnet_step n enc dec s (set_node i rf' s)"
| snapshot: "i < n \<Longrightarrow> idx \<le> commitIndex (node s i) \<Longrightarrow> Snapshot idx d (node s i) = Inr rf' \<Longrightarrow> rnet_step n enc dec s (set_node i rf' s)"
| take_batch: "i < n \<Longrightarrow> batch s i = None \<Longrightarrow> applier_take (node s i) = Inr (Some b)
    \<Longrightarrow> rnet_step n enc dec s (s\<lparr>batch := (batch s)(i := Some b)\<rparr>)"
| deliver: "i < n \<Longrightarrow> batch s i = Some (lo, hi, e # es)
    \<Longrightarrow> rnet_step n enc dec s ((set_node i (applier_send lo e (node s i)) s)
          \<lparr>batch := (batch s)(i := Some (lo + 1, hi, es)), delivered := insert (i, command_msg lo e) (delivered s)\<rparr>)"
| finish: "i < n \<Longrightarrow> batch s i = Some (lo, hi, [])
    \<Longrightarrow> rnet_step n enc dec s ((set_node i (applier_finish hi (node s i)) s)\<lparr>batch := (batch s)(i := None)\<rparr>)"
| save_begin: "i < n \<Longrightarrow> saving s i = None \<Longrightarrow> saved s i = None \<Longrightarrow> batchPersister_begin enc (node s i) = Some w
    \<Longrightarrow> rnet_step n enc dec s (s\<lparr>saving := (saving s)(i := Some w)\<rparr>)"
| save_write: "i < n \<Longrightarrow> saving s i = Some (m, st, sn)
    \<Longrightarrow> rnet_step n enc dec s (s\<lparr>disk := (disk s)(i := Save st sn (disk s i)), saving := (saving s)(i := None), saved := (saved s)(i := Some m)\<rparr>)"
| save_end: "i < n \<Longrightarrow> saved s i = Some m
    \<Longrightarrow> rnet_step n enc dec s ((set_node i (batchPersister_end m (node s i)) s)\<lparr>saved := (saved s)(i := None)\<rparr>)"
| restart: "i < n \<Longrightarrow> Make dec now r n i (disk s i) = Inr rf'
    \<Longrightarrow> rnet_step n enc dec s ((set_node i rf' s)\<lparr>batch := (batch s)(i := None), saving := (saving s)(i := None), saved := (saved s)(i := None),
          lapse := lapse s \<or> persistent rf' \<noteq> persistent (node s i)\<rparr>)"

lemma set_node_simps [simp]:
  "base (set_node i rf s) = (base s)\<lparr>nodes := (nodes (base s))(i := rf)\<rparr>"
  "appends (set_node i rf s) = appends s" "append_replies (set_node i rf s) = append_replies s"
  "installs (set_node i rf s) = installs s" "batch (set_node i rf s) = batch s" "delivered (set_node i rf s) = delivered s"
  "disk (set_node i rf s) = disk s" "saving (set_node i rf s) = saving s" "saved (set_node i rf s) = saved s" "lapse (set_node i rf s) = lapse s"
  by (simp_all add: set_node_def)

lemma lapse_stays: "rnet_step n enc dec s s' \<Longrightarrow> lapse s \<Longrightarrow> lapse s'"
  by (induction rule: rnet_step.induct) simp_all

text \<open>A server whose whole state is on its disk does not lapse when it comes back.\<close>

lemma saved_restart:
  assumes "ReadRaftState (disk s i) \<noteq> []" "dec (ReadRaftState (disk s i)) = Some (persistent (node s i))" "Make dec now r n i (disk s i) = Inr rf'"
  shows "persistent rf' = persistent (node s i)"
  using assms by (auto simp: Make_def Let_def readPersist_def rbind_eq_Inr persistent_def)

section \<open>The whole log of a peer\<close>

text \<open>\<open>l\<close> is the whole log of \<open>rf\<close>: all entries from index 1 on. The peer keeps those after the snapshot and, in front,
  an entry that carries the term of the last one before them.\<close>

definition full_log :: "'c Raft \<Rightarrow> 'c EntryData list \<Rightarrow> bool" where
  "full_log rf l \<longleftrightarrow> (\<exists>S. snapshotIndex rf = int S \<and> S \<le> length l \<and> rlog rf \<noteq> [] \<and> tl (rlog rf) = drop S l
     \<and> ed_Term (hd (rlog rf)) = term_at l S \<and> snapshotTerm rf = term_at l S)"

lemma full_logE:
  assumes "full_log rf l"
  obtains S x where "snapshotIndex rf = int S" "S \<le> length l" "rlog rf = x # drop S l" "ed_Term x = term_at l S"
    "snapshotTerm rf = term_at l S"
proof -
  obtain S where S: "snapshotIndex rf = int S" "S \<le> length l" "rlog rf \<noteq> []" "tl (rlog rf) = drop S l"
    "ed_Term (hd (rlog rf)) = term_at l S" "snapshotTerm rf = term_at l S" using assms by (auto simp: full_log_def)
  then have "rlog rf = hd (rlog rf) # drop S l" using list.collapse [OF S(3)] by simp
  then show ?thesis using that [of S "hd (rlog rf)"] S by simp
qed

lemma full_log_lastIdx: "full_log rf l \<Longrightarrow> lastIdx rf = int (length l)"
  by (erule full_logE) (simp add: idx_defs)

lemma full_log_nth:
  assumes f: "full_log rf l" and k: "snapshotIndex rf \<le> int k" "k \<le> length l"
  shows "ed_Term (rlog rf ! nat (relIdx rf (int k))) = term_at l k"
    and "snapshotIndex rf < int k \<Longrightarrow> rlog rf ! nat (relIdx rf (int k)) = l ! (k - 1)"
proof -
  from f obtain S x where S: "snapshotIndex rf = int S" "S \<le> length l" "rlog rf = x # drop S l" "ed_Term x = term_at l S"
    by (rule full_logE)
  obtain q where q: "k = S + q" using k(1) S(1) by (auto simp: le_iff_add)
  have r: "nat (relIdx rf (int k)) = q" using S(1) q by (simp add: relIdx_def)
  show "ed_Term (rlog rf ! nat (relIdx rf (int k))) = term_at l k"
    unfolding r using S q k(2) by (cases q) (simp_all add: term_at_def)
  show "rlog rf ! nat (relIdx rf (int k)) = l ! (k - 1)" if "snapshotIndex rf < int k"
    unfolding r using S q k(2) that by (cases q) simp_all
qed

lemma full_log_lastTerm: "full_log rf l \<Longrightarrow> lastTerm rf = last_term_of l"
proof -
  assume f: "full_log rf l"
  then have "snapshotIndex rf \<le> int (length l)" "rlog rf \<noteq> []" by (auto simp: full_log_def)
  moreover have "nat (relIdx rf (int (length l))) = length (rlog rf) - 1"
    using full_log_lastIdx [OF f] by (auto simp: idx_defs)
  ultimately show ?thesis using full_log_nth(1) [OF f, of "length l"] by (simp add: lastTerm_def)
qed

lemma full_log_cong:
  "rlog rf' = rlog rf \<Longrightarrow> snapshotIndex rf' = snapshotIndex rf \<Longrightarrow> snapshotTerm rf' = snapshotTerm rf
    \<Longrightarrow> full_log rf' l = full_log rf l"
  by (simp add: full_log_def)

section \<open>What the operations do to the whole log\<close>

definition matching :: "'c EntryData list \<Rightarrow> 'c EntryData list \<Rightarrow> bool" where
  "matching l T \<longleftrightarrow> (\<forall>k. 0 < k \<longrightarrow> k \<le> length l \<longrightarrow> k \<le> length T \<longrightarrow> term_at l k = term_at T k \<longrightarrow> take k l = take k T)"

lemma matchingD: "matching l T \<Longrightarrow> k \<le> length l \<Longrightarrow> k \<le> length T \<Longrightarrow> term_at l k = term_at T k \<Longrightarrow> take k l = take k T"
  by (cases "k = 0") (auto simp: matching_def)

text \<open>The loop of \<open>AppendEntries\<close>: merging entries \<open>q + 1\<close> to \<open>m\<close> of a matching log \<open>T\<close> makes the first \<open>m\<close> entries those of \<open>T\<close>
  and keeps a log that has them.\<close>

lemma merge_sync:
  assumes m: "matching l T" and q: "take q l = take q T" "q \<le> length l" "S \<le> q" "q \<le> m" "m \<le> length T"
  shows "fst (merge_entries (x # drop S l) (Suc (q - S)) (take (m - q) (drop q T))) = x # drop S (sync l (take m T))"
  using q
proof (induction "m - q" arbitrary: q)
  case 0
  then have "m = q" by simp
  then have "prefix (take m T) l" using 0 by (metis take_is_prefix)
  then show ?case using \<open>m = q\<close> by (simp add: sync_def)
next
  case (Suc d)
  have qT: "q < length T" "q < m" using Suc by simp_all
  have es: "take (m - q) (drop q T) = T ! q # take (m - Suc q) (drop (Suc q) T)"
    using qT by (metis Cons_nth_drop_Suc Suc_diff_Suc take_Suc_Cons)
  have T: "take m T = take q T @ take (m - q) (drop q T)" using qT by (metis le_add_diff_inverse less_imp_le take_add)
  have lm: "length (take m T) = m" using Suc.prems by simp
  show ?case
  proof (cases "q < length l")
    case False
    then have l: "l = take q T" "length l = q" using Suc.prems by auto
    have "\<not> prefix (take m T) l" using prefix_length_le [of "take m T" l] lm l(2) qT by auto
    then have "sync l (take m T) = l @ take (m - q) (drop q T)" using T l by (simp add: sync_def)
    then show ?thesis using False l Suc.prems by (simp add: es)
  next
    case True
    have nth: "(x # drop S l) ! Suc (q - S) = l ! q" "Suc (q - S) < length (x # drop S l)" using True Suc.prems by auto
    have t: "term_at l (Suc q) = ed_Term (l ! q)" "term_at T (Suc q) = ed_Term (T ! q)" by (simp_all add: term_at_def)
    show ?thesis
    proof (cases "ed_Term (l ! q) = ed_Term (T ! q)")
      case True
      then have "take (Suc q) l = take (Suc q) T"
        using matchingD [OF m, of "Suc q"] t \<open>q < length l\<close> qT by simp
      then have "fst (merge_entries (x # drop S l) (Suc (Suc q - S)) (take (m - Suc q) (drop (Suc q) T))) = x # drop S (sync l (take m T))"
        using Suc.hyps(1) [of "Suc q"] Suc.hyps(2) Suc.prems \<open>q < length l\<close> qT by simp
      then show ?thesis using nth True Suc.prems by (simp add: es Suc_diff_le)
    next
      case False
      have "\<not> prefix (take m T) l"
      proof
        assume "prefix (take m T) l"
        then have "take m T ! q = l ! q" using lm qT by (auto simp: prefix_def nth_append)
        then show False using False qT by simp
      qed
      then have "sync l (take m T) = take q l @ take (m - q) (drop q T)" using T Suc.prems(1) by (simp add: sync_def)
      moreover have "take (Suc (q - S)) (x # drop S l) = x # drop S (take q l)" by (simp add: drop_take)
      moreover have "merge_entries (x # drop S l) (Suc (q - S)) (T ! q # take (m - Suc q) (drop (Suc q) T))
          = (take (Suc (q - S)) (x # drop S l) @ T ! q # take (m - Suc q) (drop (Suc q) T), True)"
        using nth False by simp
      ultimately show ?thesis using Suc.prems \<open>q < length l\<close> by (simp add: es)
    qed
  qed
qed

text \<open>A request of the leader whose log is \<open>T\<close>: it carries the entries after index \<open>p\<close>.\<close>

definition carries :: "'c AppendEntriesArgs \<Rightarrow> 'c EntryData list \<Rightarrow> nat \<Rightarrow> bool" where
  "carries a T p \<longleftrightarrow> ae_PrevLogIndex a = int p \<and> p + length (ae_Entries a) \<le> length T
     \<and> ae_Entries a = take (length (ae_Entries a)) (drop p T) \<and> ae_PrevLogTerm a = term_at T p"

lemma append_checked_rlog:
  assumes "append_checked rf a rep = Inr (rf', rep')" "ar_Success rep'" "\<not> ar_Success rep"
  shows "rlog rf' = fst (merge_entries (rlog rf) (Suc (nat (relIdx rf (ae_PrevLogIndex a)))) (ae_Entries a))"
    and "snapshotIndex rf' = snapshotIndex rf" "snapshotTerm rf' = snapshotTerm rf" "rstate rf' = rstate rf"
    and "matchIndex rf' = matchIndex rf"
  using assms by (auto simp: append_checked_def Let_def rbind_eq_Inr split: if_splits prod.splits)

lemma append_full_log:
  assumes inv: "peer_inv rf" and f: "full_log rf l" and m: "matching l T" and a: "carries a T p"
    and sn: "prefix (take (nat (snapshotIndex rf)) l) T"
    and run: "AppendEntries now r rf a = Inr (rf', rep)" "ar_Success rep"
  shows "full_log rf' (sync l (take (p + length (ae_Entries a)) T))"
proof -
  let ?m = "p + length (ae_Entries a)"
  have t: "\<not> ae_Term a < currentTerm rf" and h: "ae_PrevLogIndex a < snapshotIndex rf \<or> holds_prev rf a"
    using AppendEntries_result [OF inv, of now r a] run by (auto split: if_splits)
  define rf1 where "rf1 = ae_enter now r rf a"
  have f1: "full_log rf1 l" "relIdx rf1 = relIdx rf" using f full_log_cong [of rf1 rf l] by (auto simp: rf1_def relIdx_def fun_eq_iff)
  from f1(1) obtain S x where S: "snapshotIndex rf1 = int S" "S \<le> length l" "rlog rf1 = x # drop S l" "ed_Term x = term_at l S"
    "snapshotTerm rf1 = term_at l S" by (rule full_logE)
  have S': "snapshotIndex rf = int S" using S(1) by (simp add: rf1_def)
  have T: "take S l = take S T" using take_prefix_mono [OF sn, of S] S' S(2) by simp
  have c: "ae_PrevLogIndex a = int p" "?m \<le> length T" "ae_Entries a = take (length (ae_Entries a)) (drop p T)"
    "ae_PrevLogTerm a = term_at T p" using a by (auto simp: carries_def)
  have fin: "full_log rf' (sync l (take ?m T))"
    if q: "take q l = take q T" "q \<le> length l" "S \<le> q" "q \<le> ?m"
      and r: "append_checked rf1 b (fresh_reply (ae_Term a)) = Inr (rf', rep)"
      and b: "ae_PrevLogIndex b = int q" "ae_Entries b = take (?m - q) (drop q T)" for q b
  proof -
    note k = append_checked_rlog [OF r run(2)]
    have ns: "\<not> ar_Success (fresh_reply (ae_Term a))" by (simp add: fresh_reply_def)
    have "nat (relIdx rf1 (int q)) = q - S" using S(1) q(3) by (simp add: relIdx_def nat_diff_distrib)
    then have lg: "rlog rf' = x # drop S (sync l (take ?m T))"
      using k(1) [OF ns] b S(3) merge_sync [OF m q(1-4) c(2), of x] by simp
    have pre: "prefix (take S l) (sync l (take ?m T))"
      by (rule sync_keeps [OF take_is_prefix _ take_is_prefix]) (simp add: T take_is_prefix)
    then have "S \<le> length (sync l (take ?m T))" "term_at (sync l (take ?m T)) S = term_at l S"
      using prefix_length_le [OF pre] term_at_prefix [OF pre, of S] S(2) term_at_take [of S S l] by simp_all
    then show ?thesis using lg k(2,3) [OF ns] S unfolding full_log_def by (intro exI [of _ S]) simp
  qed
  show ?thesis
  proof (cases "trim_args rf1 a")
    case None
    then have "?m < S" "rf' = rf1"
      using t run c(1) S(1) by (auto simp: trim_args_def Let_def AppendEntries_current rf1_def split: if_splits)
    then have "take ?m T = take ?m l" using T by (metis less_imp_le min.absorb1 take_take)
    then have "sync l (take ?m T) = l" by (simp add: sync_def take_is_prefix)
    then show ?thesis using f1 \<open>rf' = rf1\<close> by simp
  next
    case (Some b)
    then have r: "append_checked rf1 b (fresh_reply (ae_Term a)) = Inr (rf', rep)"
      using t run by (simp add: AppendEntries_current rf1_def)
    show ?thesis
    proof (cases "p < S")
      case True
      then have "ae_PrevLogIndex b = int S" "ae_Entries b = drop (S - p) (ae_Entries a)" "S - p \<le> length (ae_Entries a)"
        using Some c(1) S(1) by (auto simp: trim_args_def Let_def nat_diff_distrib split: if_splits)
      moreover have "drop (S - p) (ae_Entries a) = take (?m - S) (drop S T)"
        by (subst c(3)) (use True in \<open>simp add: drop_take add.commute\<close>)
      ultimately show ?thesis using fin [OF T S(2) _ _ r] by simp
    next
      case False
      then have b: "b = a" using Some c(1) S(1) by (simp add: trim_args_def)
      have "holds_prev rf a" using h False c(1) S' by simp
      then have "int p \<le> lastIdx rf" "ed_Term (rlog rf ! nat (relIdx rf (int p))) = term_at T p"
        using c by (auto simp: holds_prev_def entry_at_def idx_ok_def idx_defs split: if_splits)
      then have p: "p \<le> length l" "term_at l p = term_at T p"
        using full_log_lastIdx [OF f] full_log_nth(1) [OF f, of p] False S' by auto
      then have "take p l = take p T" using matchingD [OF m] c(2) by simp
      then show ?thesis using fin [OF _ p(1) _ _ r] b c False by simp
    qed
  qed
qed

lemma install_full_log:
  assumes f: "full_log rf l" and m: "matching l p" and b: "is_LastIncludedIndex b = int (length p)" "is_LastIncludedTerm b = last_term_of p"
    and new: "snapshotIndex rf < int (length p)" and run: "InstallSnapshot_end rf b = Inr rf'"
  shows "full_log rf' (sync l p)" "snapshotIndex rf' = int (length p)"
    and "commitIndex rf' = max (commitIndex rf) (int (length p))"
proof -
  from f obtain S x where S: "snapshotIndex rf = int S" "S \<le> length l" "rlog rf = x # drop S l" "ed_Term x = term_at l S" by (rule full_logE)
  define q where "q = length p - S"
  have q: "length p = S + q" "0 < q" using new S(1) by (simp_all add: q_def)
  have rel: "is_LastIncludedIndex b - snapshotIndex rf = int q" using b(1) S(1) q by simp
  have len: "int q < loglen rf \<longleftrightarrow> length p \<le> length l" using S(2,3) q by auto
  have same: "prefix p l \<longleftrightarrow> length p \<le> length l \<and> ed_Term (rlog rf ! q) = is_LastIncludedTerm b"
  proof (cases "length p \<le> length l")
    case True
    have e: "ed_Term (rlog rf ! q) = term_at l (length p)"
      using S(3) q True by (cases q) (auto simp: term_at_def)
    have "prefix p l \<longleftrightarrow> take (length p) l = p" by (metis append_eq_conv_conj prefix_def take_is_prefix)
    also have "\<dots> \<longleftrightarrow> term_at l (length p) = last_term_of p"
      using matchingD [OF m True] term_at_take [of "length p" "length p" l] by auto
    finally show ?thesis using True e b(2) by simp
  next
    case False
    then show ?thesis using prefix_length_le by blast
  qed
  have nn: "\<not> is_LastIncludedIndex b \<le> snapshotIndex rf" using b(1) new by simp
  have ok: "length p \<le> length l \<Longrightarrow> idx_ok (rlog rf) (int q)" using len by (simp add: idx_ok_def)
  have fields: "snapshotIndex rf' = int (length p) \<and> snapshotTerm rf' = last_term_of p
      \<and> commitIndex rf' = max (commitIndex rf) (int (length p))
      \<and> rlog rf' = (if prefix p l then drop q (rlog rf) else [\<lparr>ed_Term = last_term_of p, ed_Command = None\<rparr>])"
    using run nn b ok unfolding InstallSnapshot_end_def Let_def rel len same
    by (auto simp: slice_get_in slice_from_in idx_ok_def max_def split: if_splits)
  then show "snapshotIndex rf' = int (length p)" "commitIndex rf' = max (commitIndex rf) (int (length p))" by auto
  show "full_log rf' (sync l p)"
  proof (cases "prefix p l")
    case True
    have k: "length p \<le> length l" "term_at l (length p) = last_term_of p"
      using prefix_length_le [OF True] term_at_prefix [OF True, of "length p"] by auto
    have "tl (drop q (rlog rf)) = drop (length p) l" using S(3) q by (cases q) (simp_all add: drop_Suc tl_drop [symmetric] add.commute)
    moreover have "hd (drop q (rlog rf)) = rlog rf ! q" "drop q (rlog rf) \<noteq> []" using len k(1) by (simp_all add: hd_drop_conv_nth)
    moreover have "ed_Term (rlog rf ! q) = last_term_of p" using same True b(2) by simp
    ultimately show ?thesis using True fields k unfolding full_log_def by (intro exI [of _ "length p"]) (simp add: sync_def)
  next
    case False
    then show ?thesis using fields unfolding full_log_def by (intro exI [of _ "length p"]) (simp add: sync_def)
  qed
qed

lemma snapshot_full_log:
  assumes f: "full_log rf l" and run: "Snapshot idx d rf = Inr rf'"
  shows "full_log rf' l"
proof (cases "relIdx rf idx \<le> 0 \<or> relIdx rf idx \<ge> loglen rf")
  case True
  then show ?thesis using assms by (simp add: Snapshot_def Let_def)
next
  case False
  from f obtain S x where S: "snapshotIndex rf = int S" "S \<le> length l" "rlog rf = x # drop S l" by (rule full_logE)
  obtain q where q: "relIdx rf idx = int q" "0 < q" using False by (metis not_le nonneg_int_cases less_imp_le of_nat_0_less_iff)
  have idx: "idx = int (S + q)" "S + q \<le> length l" "q < length (rlog rf)" using q False S by (auto simp: relIdx_def)
  have r: "rlog rf' = drop q (rlog rf)" "snapshotIndex rf' = idx" "snapshotTerm rf' = ed_Term (rlog rf ! q)"
    using run False q by (auto simp: Snapshot_def Let_def rbind_eq_Inr slice_get_eq_Inr slice_from_def slice_range_def split: if_splits)
  have t: "ed_Term (rlog rf ! q) = term_at l (S + q)" using full_log_nth(1) [OF f, of "S + q"] S(1) idx(2) by (simp add: relIdx_def)
  have "tl (drop q (rlog rf)) = drop (S + q) l" using S(3) q(2) by (cases q) (simp_all add: drop_Suc tl_drop [symmetric] add.commute)
  moreover have "hd (drop q (rlog rf)) = rlog rf ! q" "drop q (rlog rf) \<noteq> []" using idx(3) by (simp_all add: hd_drop_conv_nth)
  ultimately show ?thesis unfolding full_log_def r using idx t by (intro exI [of _ "S + q"]) simp
qed

lemma start_full_log:
  assumes f: "full_log rf l" and run: "Start c rf = (rf', out)" and ld: "rstate rf = LEADER"
  shows "full_log rf' (l @ [\<lparr>ed_Term = currentTerm rf, ed_Command = Some c\<rparr>])"
proof -
  from f obtain S x where S: "snapshotIndex rf = int S" "S \<le> length l" "rlog rf = x # drop S l" "ed_Term x = term_at l S"
    "snapshotTerm rf = term_at l S" by (rule full_logE)
  have "rlog rf' = rlog rf @ [\<lparr>ed_Term = currentTerm rf, ed_Command = Some c\<rparr>]" "snapshotIndex rf' = snapshotIndex rf"
    "snapshotTerm rf' = snapshotTerm rf"
    using run ld by (auto simp: Start_def Let_def)
  moreover have "term_at (l @ [e]) S = term_at l S" for e using S(2) term_at_prefix [of l "l @ [e]" S] by simp
  ultimately show ?thesis using S unfolding full_log_def by (intro exI [of _ S]) simp
qed

lemma send_append_carries:
  assumes inv: "peer_inv rf" and srv: "j < npeers rf" "j \<noteq> me rf" and f: "full_log rf l"
    and run: "replicator_send now j rf = Inr (rf', Some (SendAppend a sq))"
  shows "\<exists>p. carries a l p" "rstate rf = LEADER" "ae_Term a = currentTerm rf" "ae_LeaderId a = int (me rf)"
    "ae_LeaderCommit a = commitIndex rf"
proof -
  from replicator_send_result [OF inv srv, of now] run have r: "rstate rf = LEADER" "ae_Term a = currentTerm rf"
    "snapshotIndex rf \<le> ae_PrevLogIndex a" "ae_PrevLogIndex a + int (length (ae_Entries a)) \<le> lastIdx rf"
    "ae_PrevLogTerm a = ed_Term (rlog rf ! nat (relIdx rf (ae_PrevLogIndex a)))"
    "ae_Entries a = [] \<or> ae_Entries a = drop (nat (relIdx rf (ae_PrevLogIndex a)) + 1) (rlog rf)" by auto
  from f obtain S x where S: "snapshotIndex rf = int S" "S \<le> length l" "rlog rf = x # drop S l" by (rule full_logE)
  obtain q where q: "ae_PrevLogIndex a = int (S + q)" using r(3) S(1) by (metis nonneg_int_cases diff_add_cancel add.commute diff_ge_0_iff_ge of_nat_add)
  have "relIdx rf (ae_PrevLogIndex a) = int q" using q S(1) by (simp add: relIdx_def)
  then have es: "ae_Entries a = [] \<or> ae_Entries a = drop (S + q) l" using r(6) S(3) by (auto simp: add.commute)
  have len: "S + q + length (ae_Entries a) \<le> length l" using r(4) q full_log_lastIdx [OF f] by simp
  have "ae_PrevLogTerm a = term_at l (S + q)" using r(5) q full_log_nth(1) [OF f, of "S + q"] S(1) len by simp
  then have "carries a l (S + q)" using q es len by (auto simp: carries_def)
  then show "\<exists>p. carries a l p" by blast
  show "rstate rf = LEADER" "ae_Term a = currentTerm rf" using r by auto
  show "ae_LeaderId a = int (me rf)" "ae_LeaderCommit a = commitIndex rf"
    using run by (auto simp: replicator_send_def Let_def rbind_eq_Inr split: if_splits)
qed

lemma send_install_fields:
  assumes inv: "peer_inv rf" "j < npeers rf" and f: "full_log rf l" and run: "replicator_send now j rf = Inr (rf', Some (SendSnapshot b))"
  shows "\<exists>S. S \<le> length l \<and> int S \<le> commitIndex rf \<and> is_LastIncludedIndex b = int S \<and> is_LastIncludedTerm b = term_at l S"
    "rstate rf = LEADER" "is_Term b = currentTerm rf"
proof -
  have "is_LastIncludedIndex b = snapshotIndex rf" "is_LastIncludedTerm b = snapshotTerm rf" "is_Term b = currentTerm rf"
    using run by (auto simp: replicator_send_def Let_def rbind_eq_Inr split: if_splits)
  moreover have "snapshotIndex rf \<le> commitIndex rf" using inv(1) by (simp add: inv_defs)
  ultimately show "\<exists>S. S \<le> length l \<and> int S \<le> commitIndex rf \<and> is_LastIncludedIndex b = int S \<and> is_LastIncludedTerm b = term_at l S"
    "is_Term b = currentTerm rf" using f by (auto elim!: full_logE)
  show "rstate rf = LEADER" using run shouldSend_total [OF inv, of now] by (auto simp: replicator_send_def rbind_eq_Inr split: if_splits)
qed

lemma up_to_date_newer:
  "full_log rf l \<Longrightarrow> rv_LastLogIndex a = int li \<Longrightarrow> up_to_date rf a \<longleftrightarrow> newer l (rv_LastLogTerm a) li"
  by (auto simp: up_to_date_def newer_def full_log_lastTerm full_log_lastIdx)

lemma ticker_claims:
  assumes f: "full_log rf l" and run: "ticker now r rf = Inr (rf', Some a)"
  shows "rv_LastLogIndex a = int (length l)" "rv_LastLogTerm a = last_term_of l" "rlog rf' = rlog rf"
    "snapshotIndex rf' = snapshotIndex rf" "snapshotTerm rf' = snapshotTerm rf" "commitIndex rf' = commitIndex rf"
proof -
  have ne: "rlog rf \<noteq> []" using f by (auto simp: full_log_def)
  have "rv_LastLogIndex a = lastIdx rf \<and> rv_LastLogTerm a = lastTerm rf \<and> rlog rf' = rlog rf
    \<and> snapshotIndex rf' = snapshotIndex rf \<and> snapshotTerm rf' = snapshotTerm rf \<and> commitIndex rf' = commitIndex rf"
    using run slice_get_last [OF ne]
    by (auto simp: ticker_def attemptElection_def startElectionState_def rbind_eq_Inr Let_def lastTerm_def idx_defs split: if_splits)
  then show "rv_LastLogIndex a = int (length l)" "rv_LastLogTerm a = last_term_of l" "rlog rf' = rlog rf"
    "snapshotIndex rf' = snapshotIndex rf" "snapshotTerm rf' = snapshotTerm rf" "commitIndex rf' = commitIndex rf"
    using full_log_lastIdx [OF f] full_log_lastTerm [OF f] by auto
qed

end
