(* ===== verification/Raft_Log.thy ===== *)
theory Raft_Log
  imports Raft_Net
begin

text \<open>
  The cluster of \<open>Raft_Net\<close> refines the protocol of \<open>Raft_Spec\<close>: a relation between their states that every step
  keeps. From it follow, for the peers themselves, that logs match, that no two servers ever deliver
  different commands for one index, and that no peer panics.
\<close>

section \<open>The simulation relation\<close>

definition node_sim :: "nat \<Rightarrow> 'c spec \<Rightarrow> nat \<Rightarrow> 'c Raft \<Rightarrow> bool" where
  "node_sim n A i rf \<longleftrightarrow> peer_inv rf \<and> currentTerm rf = s_term A i \<and> s_standing A i = (rstate rf = CANDIDATE)
     \<and> full_log rf (s_log A i) \<and> commitIndex rf = int (s_commit A i)
     \<and> (rstate rf = LEADER \<longrightarrow> s_leader A (s_term A i) = Some i
          \<and> (\<forall>j < n. j \<noteq> i \<longrightarrow> matchIndex rf ! j \<le> commitIndex rf \<or> acked A j (s_term A i) (nat (matchIndex rf ! j))))"

definition votes_sim :: "'c cluster \<Rightarrow> 'c spec \<Rightarrow> bool" where
  "votes_sim b A \<longleftrightarrow> s_ballots A = {(j, t, c). voted b j t c}
     \<and> (\<forall>a \<in> requests b. \<forall>c. rv_CandidateId a = int c \<longrightarrow>
          (\<exists>li. rv_LastLogIndex a = int li \<and> (c, rv_Term a, rv_LastLogTerm a, li) \<in> s_claims A))"

definition append_ok :: "nat \<Rightarrow> 'c spec \<Rightarrow> nat \<Rightarrow> 'c AppendEntriesArgs \<Rightarrow> bool" where
  "append_ok n A j a \<longleftrightarrow> j < n \<and> (\<exists>c p k. s_leader A (ae_Term a) = Some c \<and> c \<noteq> j \<and> ae_LeaderId a = int c
     \<and> carries a (s_tlog A (ae_Term a)) p \<and> ae_LeaderCommit a = int k \<and> k \<le> length (s_tlog A (ae_Term a))
     \<and> chosen_by n A (ae_Term a) (take k (s_tlog A (ae_Term a))))"

text \<open>A refusal in the sender's term: the log is too short, or it has another term at the previous index, and then it is the term of
  an entry of a log of the protocol there.\<close>

definition refused :: "'c spec \<Rightarrow> 'c AppendEntriesArgs \<Rightarrow> AppendEntriesReply \<Rightarrow> bool" where
  "refused A a rep \<longleftrightarrow> (ar_Term rep \<le> ae_Term a \<longrightarrow>
     (if ar_ConflictingLogLen rep = -1 then ar_ConflictingIndex rep \<le> ae_PrevLogIndex a \<and> ar_ConflictingTerm rep \<noteq> ae_PrevLogTerm a
        \<and> (\<exists>l p. ae_PrevLogIndex a = int p \<and> rooted A l \<and> p \<le> length l \<and> term_at l p = ar_ConflictingTerm rep)
      else ar_ConflictingLogLen rep \<le> ae_PrevLogIndex a))"

definition reply_ok :: "nat \<Rightarrow> 'c spec \<Rightarrow> nat \<Rightarrow> 'c AppendEntriesArgs \<Rightarrow> AppendEntriesReply \<Rightarrow> bool" where
  "reply_ok n A j a rep \<longleftrightarrow> append_ok n A j a
     \<and> (if ar_Success rep then acked A j (ae_Term a) (nat (ae_PrevLogIndex a) + length (ae_Entries a)) else conflict_bounded a rep \<and> refused A a rep)"

definition snap_ok :: "nat \<Rightarrow> 'c spec \<Rightarrow> nat \<Rightarrow> InstallSnapshotArgs \<Rightarrow> bool" where
  "snap_ok n A j b \<longleftrightarrow> j < n \<and> (\<exists>p. is_LastIncludedIndex b = int (length p) \<and> is_LastIncludedTerm b = last_term_of p
     \<and> chosen_by n A (is_Term b) p)"

definition chosen_at :: "nat \<Rightarrow> 'c spec \<Rightarrow> int \<Rightarrow> 'c EntryData \<Rightarrow> bool" where
  "chosen_at n A k e \<longleftrightarrow> (\<exists>t p. chosen_by n A t p \<and> 0 < k \<and> k \<le> int (length p) \<and> p ! (nat k - 1) = e)"

definition batch_ok :: "nat \<Rightarrow> 'c spec \<Rightarrow> 'c Raft \<Rightarrow> (int \<times> int \<times> 'c EntryData list) option \<Rightarrow> bool" where
  "batch_ok n A rf b \<longleftrightarrow> (case b of None \<Rightarrow> True
     | Some (lo, hi, es) \<Rightarrow> hi \<le> commitIndex rf \<and> (\<forall>x < length es. chosen_at n A (lo + int x) (es ! x)))"

definition msgs_sim :: "nat \<Rightarrow> 'c net \<Rightarrow> 'c spec \<Rightarrow> bool" where
  "msgs_sim n s A \<longleftrightarrow> (\<forall>(j, a) \<in> appends s. append_ok n A j a) \<and> (\<forall>(j, a, rep) \<in> append_replies s. reply_ok n A j a rep)
     \<and> (\<forall>(j, b) \<in> installs s. snap_ok n A j b)
     \<and> (\<forall>(i, m) \<in> delivered s. \<exists>e. am_Command m = ed_Command e \<and> chosen_at n A (am_CommandIndex m) e)"

definition sim :: "nat \<Rightarrow> 'c net \<Rightarrow> 'c spec \<Rightarrow> bool" where
  "sim n s A \<longleftrightarrow> election_inv n (base s) \<and> spec_inv n A \<and> votes_sim (base s) A \<and> msgs_sim n s A
     \<and> (\<forall>i < n. node_sim n A i (node s i) \<and> batch_ok n A (node s i) (batch s i))"

lemma sim_private [simp]:
  "sim n (s\<lparr>disk := x\<rparr>) A = sim n s A" "sim n (s\<lparr>saving := y\<rparr>) A = sim n s A"
  "sim n (s\<lparr>saved := z\<rparr>) A = sim n s A" "sim n (s\<lparr>lapse := f\<rparr>) A = sim n s A"
  by (simp_all add: sim_def msgs_sim_def)

lemma simD:
  assumes "sim n s A"
  shows "election_inv n (base s)" "spec_inv n A" "votes_sim (base s) A" "msgs_sim n s A"
    and "\<And>i. i < n \<Longrightarrow> node_sim n A i (node s i)" "\<And>i. i < n \<Longrightarrow> batch_ok n A (node s i) (batch s i)"
  using assms by (simp_all add: sim_def)

lemma node_simD:
  assumes "node_sim n A i rf"
  shows "peer_inv rf" "currentTerm rf = s_term A i" "s_standing A i = (rstate rf = CANDIDATE)" "full_log rf (s_log A i)"
    "commitIndex rf = int (s_commit A i)" "rstate rf = LEADER \<Longrightarrow> s_leader A (s_term A i) = Some i"
    "\<And>j. rstate rf = LEADER \<Longrightarrow> j < n \<Longrightarrow> j \<noteq> i \<Longrightarrow>
      matchIndex rf ! j \<le> commitIndex rf \<or> acked A j (s_term A i) (nat (matchIndex rf ! j))"
  using assms unfolding node_sim_def by blast+

section \<open>What an abstract step keeps of the relation\<close>

definition astep :: "nat \<Rightarrow> 'c spec \<Rightarrow> 'c spec \<Rightarrow> bool" where
  "astep n A A' \<longleftrightarrow> A' = A \<or> spec_step n A A'"

lemma astep_inv: "spec_inv n A \<Longrightarrow> astep n A A' \<Longrightarrow> spec_inv n A' \<and> extends n A A'"
  unfolding astep_def using spec.step_inv step_extends by (metis extends_refl)

lemma carries_mono: "carries a T p \<Longrightarrow> prefix T T' \<Longrightarrow> carries a T' p"
  unfolding carries_def using term_at_prefix [of T T' p] prefix_length_le [of T T'] by (auto simp: prefix_def)

lemma append_ok_mono:
  assumes e: "extends n A A'" and a: "append_ok n A j a"
  shows "append_ok n A' j a"
proof -
  let ?T = "s_tlog A (ae_Term a)" and ?T' = "s_tlog A' (ae_Term a)"
  obtain c p k where c: "j < n" "s_leader A (ae_Term a) = Some c" "c \<noteq> j" "ae_LeaderId a = int c" "carries a ?T p"
    "ae_LeaderCommit a = int k" "k \<le> length ?T" "chosen_by n A (ae_Term a) (take k ?T)" using a by (auto simp: append_ok_def)
  have T: "prefix ?T ?T'" "s_leader A' (ae_Term a) = Some c" using e c(2) by (auto simp: extends_def)
  have "take k ?T' = take k ?T" by (rule take_prefix_mono [OF T(1) c(7)])
  then have "chosen_by n A' (ae_Term a) (take k ?T')" using chosen_mono [OF e c(8)] by simp
  then show ?thesis unfolding append_ok_def
    using c T carries_mono [OF c(5) T(1)] prefix_length_le [OF T(1)] by (metis order_trans)
qed

lemma refused_mono: "extends n A A' \<Longrightarrow> refused A a rep \<Longrightarrow> refused A' a rep"
  unfolding refused_def by (cases "ar_ConflictingLogLen rep = -1") (simp_all, blast intro: rooted_mono)

lemma reply_ok_mono: "extends n A A' \<Longrightarrow> reply_ok n A j a rep \<Longrightarrow> reply_ok n A' j a rep"
  unfolding reply_ok_def using append_ok_mono acked_mono refused_mono by (metis (full_types))

lemma snap_ok_mono: "extends n A A' \<Longrightarrow> snap_ok n A j b \<Longrightarrow> snap_ok n A' j b"
  unfolding snap_ok_def using chosen_mono by blast

lemma chosen_at_mono: "extends n A A' \<Longrightarrow> chosen_at n A k e \<Longrightarrow> chosen_at n A' k e"
  unfolding chosen_at_def using chosen_mono by blast

lemma batch_ok_mono: "extends n A A' \<Longrightarrow> commitIndex rf \<le> commitIndex rf' \<Longrightarrow> batch_ok n A rf b \<Longrightarrow> batch_ok n A' rf' b"
  by (auto simp: batch_ok_def split: option.splits intro: chosen_at_mono)

lemma node_sim_frame:
  assumes e: "extends n A A'" and s: "node_sim n A i rf"
    and "s_term A' i = s_term A i" "s_standing A' i = s_standing A i" "s_log A' i = s_log A i" "s_commit A' i = s_commit A i"
  shows "node_sim n A' i rf"
  using s acked_mono [OF e] e unfolding node_sim_def assms(3-6) extends_def by blast

lemma node_sim_log:
  assumes "node_sim n A i rf" "peer_inv rf'" "currentTerm rf' = currentTerm rf" "rstate rf' = rstate rf"
    "full_log rf' (s_log A i)" "commitIndex rf' = commitIndex rf" "rstate rf = LEADER \<Longrightarrow> matchIndex rf' = matchIndex rf"
  shows "node_sim n A i rf'"
  using assms by (auto simp: node_sim_def)

lemma node_sim_same:
  assumes "node_sim n A i rf" "peer_inv rf'" "currentTerm rf' = currentTerm rf" "rstate rf' = rstate rf"
    "rlog rf' = rlog rf" "snapshotIndex rf' = snapshotIndex rf" "snapshotTerm rf' = snapshotTerm rf"
    "commitIndex rf' = commitIndex rf" "rstate rf = LEADER \<Longrightarrow> matchIndex rf' = matchIndex rf"
  shows "node_sim n A i rf'"
  using node_sim_log [OF assms(1-4)] assms(5-9) full_log_cong [of rf' rf] node_simD(4) [OF assms(1)] by simp

lemma msgs_sim_mono:
  assumes e: "extends n A A'" and m: "msgs_sim n s A"
    and new: "\<And>j a. (j, a) \<in> appends s' \<Longrightarrow> (j, a) \<in> appends s \<or> append_ok n A' j a"
      "\<And>j a rep. (j, a, rep) \<in> append_replies s' \<Longrightarrow> (j, a, rep) \<in> append_replies s \<or> reply_ok n A' j a rep"
      "\<And>j b. (j, b) \<in> installs s' \<Longrightarrow> (j, b) \<in> installs s \<or> snap_ok n A' j b"
      "\<And>j m. (j, m) \<in> delivered s' \<Longrightarrow> (j, m) \<in> delivered s
          \<or> (\<exists>e. am_Command m = ed_Command e \<and> chosen_at n A' (am_CommandIndex m) e)"
  shows "msgs_sim n s' A'"
  unfolding msgs_sim_def
proof (intro conjI ballI; clarify)
  fix j a assume "(j, a) \<in> appends s'"
  then show "append_ok n A' j a" using new(1) m append_ok_mono [OF e] by (fastforce simp: msgs_sim_def)
next
  fix j a rep assume "(j, a, rep) \<in> append_replies s'"
  then show "reply_ok n A' j a rep" using new(2) m reply_ok_mono [OF e] by (fastforce simp: msgs_sim_def)
next
  fix j b assume "(j, b) \<in> installs s'"
  then show "snap_ok n A' j b" using new(3) m snap_ok_mono [OF e] by (fastforce simp: msgs_sim_def)
next
  fix j m' assume "(j, m') \<in> delivered s'"
  then show "\<exists>e. am_Command m' = ed_Command e \<and> chosen_at n A' (am_CommandIndex m') e"
    using new(4) m chosen_at_mono [OF e] by (fastforce simp: msgs_sim_def)
qed

text \<open>A step of one server that is no vote: the others and what was sent stay related.\<close>

definition moves :: "nat \<Rightarrow> nat \<Rightarrow> 'c spec \<Rightarrow> 'c spec \<Rightarrow> bool" where
  "moves n i A A' \<longleftrightarrow> astep n A A' \<and> s_ballots A' = s_ballots A \<and> s_claims A' = s_claims A
     \<and> (\<forall>j. j \<noteq> i \<longrightarrow> s_term A' j = s_term A j \<and> s_standing A' j = s_standing A j \<and> s_log A' j = s_log A j \<and> s_commit A' j = s_commit A j)"

lemma moves_refl [simp]: "moves n i A A"
  by (simp add: moves_def astep_def)

lemma sim_node_step:
  assumes sm: "sim n s A" and i: "i < n" and mv: "moves n i A A'" and k: "keeps (node s i) rf'"
    and b: "base s' = (base s)\<lparr>nodes := (nodes (base s))(i := rf')\<rparr>"
    and nd: "node_sim n A' i rf'" and bt: "batch_ok n A' rf' (batch s' i)" "\<And>j. j \<noteq> i \<Longrightarrow> batch s' j = batch s j"
    and ms: "extends n A A' \<Longrightarrow> msgs_sim n s' A'"
  shows "sim n s' A'"
proof -
  note d = simD [OF sm]
  have a: "spec_inv n A'" "extends n A A'" using astep_inv [OF d(2)] mv by (auto simp: moves_def)
  have "election_inv n (base s')" using node_step_inv [OF d(1) i k] b by simp
  moreover have "votes_sim (base s') A'" using d(3) mv b by (simp add: votes_sim_def moves_def voted_def)
  moreover have "node_sim n A' j (node s' j) \<and> batch_ok n A' (node s' j) (batch s' j)" if "j < n" for j
  proof (cases "j = i")
    case False
    have "node_sim n A' j (node s j)" by (rule node_sim_frame [OF a(2) d(5) [OF that]]) (use mv False in \<open>auto simp: moves_def\<close>)
    then show ?thesis using batch_ok_mono [OF a(2) order_refl d(6) [OF that]] bt(2) [OF False] b False by simp
  qed (use nd bt b in simp)
  ultimately show ?thesis using a(1) ms [OF a(2)] by (simp add: sim_def)
qed

section \<open>Steps that do not move the protocol\<close>

lemma sim_shape: "sim n s A \<Longrightarrow> i < n \<Longrightarrow> me (node s i) = i \<and> npeers (node s i) = n"
  using election_invD(1) simD(1) by blast

lemma peer_step_keeps_inv:
  "sim n s A \<Longrightarrow> i < n \<Longrightarrow> event_ok ev (node s i) \<Longrightarrow> peer_step ev (node s i) = Inr rf' \<Longrightarrow> peer_inv rf'"
  using peer_step_inv [OF node_simD(1) [OF simD(5)], of n s A i ev] by auto

text \<open>The fields the relation reads are the same.\<close>

definition same_core :: "'c Raft \<Rightarrow> 'c Raft \<Rightarrow> bool" where
  "same_core rf rf' \<longleftrightarrow> currentTerm rf' = currentTerm rf \<and> rstate rf' = rstate rf \<and> rlog rf' = rlog rf
     \<and> snapshotIndex rf' = snapshotIndex rf \<and> snapshotTerm rf' = snapshotTerm rf \<and> commitIndex rf' = commitIndex rf
     \<and> matchIndex rf' = matchIndex rf"

lemma sim_idle:
  assumes sm: "sim n s A" and i: "i < n" and ev: "local_event ev" "event_ok ev (node s i)" "peer_step ev (node s i) = Inr rf'"
    and c: "same_core (node s i) rf'" and b: "base s' = (base s)\<lparr>nodes := (nodes (base s))(i := rf')\<rparr>"
    and bt: "batch_ok n A rf' (batch s' i)" "\<And>j. j \<noteq> i \<Longrightarrow> batch s' j = batch s j" and ms: "msgs_sim n s' A"
  shows "sim n s' A"
proof (rule sim_node_step [OF sm i moves_refl local_keeps [OF ev(1,3)] b _ bt ms])
  show "node_sim n A i rf'"
    by (rule node_sim_same [OF simD(5) [OF sm i] peer_step_keeps_inv [OF sm i ev(2,3)]]) (use c in \<open>simp_all add: same_core_def\<close>)
qed

lemma batch_ok_core: "sim n s A \<Longrightarrow> i < n \<Longrightarrow> same_core (node s i) rf' \<Longrightarrow> batch_ok n A rf' (batch s i)"
  by (rule batch_ok_mono [OF extends_refl _ simD(6)]) (simp_all add: same_core_def)

lemma msgs_same: "sim n s A \<Longrightarrow> appends s' = appends s \<Longrightarrow> append_replies s' = append_replies s \<Longrightarrow> installs s' = installs s
    \<Longrightarrow> delivered s' = delivered s \<Longrightarrow> msgs_sim n s' A"
  using simD(4) by (fastforce simp: msgs_sim_def)

lemma replicator_send_core: "replicator_send now j rf = Inr (rf', out) \<Longrightarrow> same_core rf rf'"
  by (auto simp: replicator_send_def Let_def rbind_eq_Inr same_core_def split: if_splits)

lemma sim_send_append:
  assumes sm: "sim n s A" and i: "i < n" "j < n" "j \<noteq> i"
    and run: "replicator_send now j (node s i) = Inr (rf', Some (SendAppend a sq))"
  shows "sim n ((set_node i rf' s)\<lparr>appends := insert (j, a) (appends s)\<rparr>) A" (is "sim n ?s A")
proof -
  note d = node_simD [OF simD(5) [OF sm i(1)]] and lg = spec_invD(4) [OF simD(2) [OF sm]]
  have sh: "j < npeers (node s i)" "j \<noteq> me (node s i)" using sim_shape [OF sm i(1)] i by auto
  note c = send_append_carries [OF d(1) sh d(4) run]
  have T: "s_tlog A (s_term A i) = s_log A i" using logs_okD(7) [OF lg d(6) [OF c(2)]] by simp
  obtain p where "carries a (s_log A i) p" using c(1) by blast
  moreover have "s_commit A i \<le> length (s_log A i) \<and> chosen_by n A (s_term A i) (take (s_commit A i) (s_log A i))"
    using spec_invD(9) [OF simD(2) [OF sm]] i(1) unfolding commits_ok_def by blast
  ultimately have ok: "append_ok n A j a"
    unfolding append_ok_def using i d(2,5,6) c(2-5) T sim_shape [OF sm i(1)] by auto
  show ?thesis
  proof (rule sim_idle [OF sm i(1), of "EvReplicate now j" rf'])
    show "same_core (node s i) rf'" by (rule replicator_send_core [OF run])
    show "batch_ok n A rf' (batch ?s i)" using batch_ok_core [OF sm i(1) replicator_send_core [OF run]] by simp
    show "msgs_sim n ?s A" by (rule msgs_sim_mono [OF extends_refl simD(4) [OF sm]]) (use ok in auto)
  qed (use run sh in auto)
qed

lemma sim_send_install:
  assumes sm: "sim n s A" and i: "i < n" "j < n" "j \<noteq> i"
    and run: "replicator_send now j (node s i) = Inr (rf', Some (SendSnapshot b))"
  shows "sim n ((set_node i rf' s)\<lparr>installs := insert (j, b) (installs s)\<rparr>) A" (is "sim n ?s A")
proof -
  note d = node_simD [OF simD(5) [OF sm i(1)]]
  have sh: "j < npeers (node s i)" "j \<noteq> me (node s i)" using sim_shape [OF sm i(1)] i by auto
  note c = send_install_fields [OF d(1) sh(1) d(4) run]
  obtain S where S: "S \<le> length (s_log A i)" "S \<le> s_commit A i" "is_LastIncludedIndex b = int S" "is_LastIncludedTerm b = term_at (s_log A i) S"
    using c(1) d(5) by auto
  have "chosen_by n A (s_term A i) (take (s_commit A i) (s_log A i))"
    using spec_invD(9) [OF simD(2) [OF sm]] i(1) unfolding commits_ok_def by blast
  moreover have "prefix (take S (s_log A i)) (take (s_commit A i) (s_log A i))" using S(2) by (metis min.absorb1 take_is_prefix take_take)
  ultimately have "chosen_by n A (s_term A i) (take S (s_log A i))" using chosen_sub by blast
  then have ok: "snap_ok n A j b" unfolding snap_ok_def using S i(2) c(3) d(2) term_at_take [of S S "s_log A i"]
    by (intro conjI exI [of _ "take S (s_log A i)"]) auto
  show ?thesis
  proof (rule sim_idle [OF sm i(1), of "EvReplicate now j" rf'])
    show "same_core (node s i) rf'" by (rule replicator_send_core [OF run])
    show "batch_ok n A rf' (batch ?s i)" using batch_ok_core [OF sm i(1) replicator_send_core [OF run]] by simp
    show "msgs_sim n ?s A" by (rule msgs_sim_mono [OF extends_refl simD(4) [OF sm]]) (use ok in auto)
  qed (use run sh in auto)
qed

text \<open>An operation of a server that leaves messages and batches alone.\<close>

lemma sim_quiet:
  assumes sm: "sim n s A" and i: "i < n" and ev: "local_event ev" "event_ok ev (node s i)" "peer_step ev (node s i) = Inr rf'"
    and c: "same_core (node s i) rf'"
  shows "sim n (set_node i rf' s) A"
  by (rule sim_idle [OF sm i ev c]) (use batch_ok_core [OF sm i c] msgs_same [OF sm] in auto)

lemma sim_append_failed:
  assumes sm: "sim n s A" and i: "i < n" "j < n" "j \<noteq> i" and run: "sendAndHandle now r j a sq None (node s i) = Inr rf'"
  shows "sim n (set_node i rf' s) A"
  by (rule sim_quiet [OF sm i(1), of "EvAppendDone now r j a sq None"])
    (use run i sim_shape [OF sm i(1)] in \<open>auto simp: sendAndHandle_def rbind_eq_Inr same_core_def Let_def\<close>)

lemma sim_install_begin:
  assumes sm: "sim n s A" and j: "(j, b) \<in> installs s" and run: "InstallSnapshot_begin (node s j) b = (rf', t, go)"
  shows "sim n (set_node j rf' s) A"
proof (rule sim_quiet [OF sm, of _ "EvInstallBegin b"])
  show "j < n" using j simD(4) [OF sm] by (auto simp: msgs_sim_def snap_ok_def)
qed (use run in \<open>auto simp: InstallSnapshot_begin_def same_core_def split: if_splits\<close>)

lemma sim_persisted:
  assumes sm: "sim n s A" and i: "i < n"
  shows "sim n (set_node i (batchPersister_end m (node s i)) s) A"
  by (rule sim_quiet [OF sm i, of "EvPersisted m"]) (auto simp: batchPersister_end_def same_core_def)

lemma sim_snapshot:
  assumes sm: "sim n s A" and i: "i < n" and le: "idx \<le> commitIndex (node s i)" and run: "Snapshot idx d (node s i) = Inr rf'"
  shows "sim n (set_node i rf' s) A"
proof (rule sim_node_step [OF sm i moves_refl])
  have e: "local_event (EvSnapshot idx d)" "event_ok (EvSnapshot idx d) (node s i)" "peer_step (EvSnapshot idx d) (node s i) = Inr rf'"
    using le run by auto
  show "keeps (node s i) rf'" by (rule local_keeps [OF e(1,3)])
  have f: "currentTerm rf' = currentTerm (node s i)" "rstate rf' = rstate (node s i)" "commitIndex rf' = commitIndex (node s i)"
    "matchIndex rf' = matchIndex (node s i)"
    using run by (auto simp: Snapshot_def Let_def rbind_eq_Inr split: if_splits)
  show "node_sim n A i rf'"
    using node_sim_log [OF simD(5) [OF sm i] peer_step_keeps_inv [OF sm i e(2,3)] f(1,2)]
      snapshot_full_log [OF node_simD(4) [OF simD(5) [OF sm i]] run] f(3,4) by simp
  show "batch_ok n A rf' (batch (set_node i rf' s) i)" using batch_ok_mono [OF extends_refl _ simD(6) [OF sm i]] f by simp
qed (use msgs_same [OF sm] in auto)

section \<open>The applier\<close>

lemma sim_take_batch:
  assumes sm: "sim n s A" and i: "i < n" and run: "applier_take (node s i) = Inr (Some b)"
  shows "sim n (s\<lparr>batch := (batch s)(i := Some b)\<rparr>) A"
proof -
  let ?rf = "node s i" and ?l = "s_log A i"
  note d = node_simD [OF simD(5) [OF sm i]]
  have new: "lastApplied ?rf < commitIndex ?rf" using run by (auto simp: applier_take_def split: if_splits)
  define m where "m = max (lastApplied ?rf) (snapshotIndex ?rf)"
  define es where "es = take (nat (commitIndex ?rf - m)) (drop (nat (relIdx ?rf (m + 1))) (rlog ?rf))"
  have b: "b = (m + 1, commitIndex ?rf, es)" using applier_take_result [OF d(1) new] run by (simp add: m_def es_def)
  have S: "0 \<le> snapshotIndex ?rf" "snapshotIndex ?rf \<le> m" using d(1) by (auto simp: inv_defs m_def)
  have ch: "s_commit A i \<le> length ?l" "chosen_by n A (s_term A i) (take (s_commit A i) ?l)"
    using spec_invD(9) [OF simD(2) [OF sm]] i unfolding commits_ok_def by auto
  have "chosen_at n A (m + 1 + int x) (es ! x)" if x: "x < length es" for x
  proof -
    define k where "k = nat (m + 1) + x"
    have k: "int k = m + 1 + int x" "0 < k" "snapshotIndex ?rf < int k" using S by (auto simp: k_def)
    have le: "k \<le> s_commit A i" using x d(5) S by (auto simp: es_def k_def)
    have "nat (relIdx ?rf (int k)) = nat (relIdx ?rf (m + 1)) + x" using S k(1) by (auto simp: relIdx_def)
    moreover have "nat (relIdx ?rf (m + 1)) \<le> length (rlog ?rf)" by (rule ccontr) (use x in \<open>simp add: es_def\<close>)
    ultimately have "es ! x = rlog ?rf ! nat (relIdx ?rf (int k))" using x by (simp add: es_def)
    also have "\<dots> = ?l ! (k - 1)" by (rule full_log_nth(2) [OF d(4)]) (use k(3) le ch(1) in auto)
    finally have "take (s_commit A i) ?l ! (k - 1) = es ! x" using k(2) le by simp
    then show ?thesis unfolding chosen_at_def k(1) [symmetric]
      using ch k(2) le by (intro exI [of _ "s_term A i"] exI [of _ "take (s_commit A i) ?l"]) simp
  qed
  then have "batch_ok n A ?rf (Some b)" by (simp add: batch_ok_def b)
  moreover have "msgs_sim n (s\<lparr>batch := (batch s)(i := Some b)\<rparr>) A" by (rule msgs_same [OF sm]) simp_all
  ultimately show ?thesis using sm by (simp add: sim_def)
qed

lemma sim_deliver:
  assumes sm: "sim n s A" and i: "i < n" and b: "batch s i = Some (lo, hi, e # es)"
  shows "sim n ((set_node i (applier_send lo e (node s i)) s)
          \<lparr>batch := (batch s)(i := Some (lo + 1, hi, es)), delivered := insert (i, command_msg lo e) (delivered s)\<rparr>) A"
    (is "sim n ?s A")
proof (rule sim_idle [OF sm i, of "EvDeliver lo e"])
  have k: "hi \<le> commitIndex (node s i)" "\<And>x. x < length (e # es) \<Longrightarrow> chosen_at n A (lo + int x) ((e # es) ! x)"
    using simD(6) [OF sm i] b by (auto simp: batch_ok_def)
  have "chosen_at n A (lo + 1 + int x) (es ! x)" if "x < length es" for x using k(2) [of "Suc x"] that by (simp add: algebra_simps)
  then show "batch_ok n A (applier_send lo e (node s i)) (batch ?s i)" using k(1) by (simp add: batch_ok_def applier_send_def)
  have "chosen_at n A lo e" using k(2) [of 0] by simp
  then show "msgs_sim n ?s A"
    by (intro msgs_sim_mono [OF extends_refl simD(4) [OF sm]]) (auto simp: command_msg_def)
qed (auto simp: applier_send_def same_core_def)

lemma sim_finish:
  assumes sm: "sim n s A" and i: "i < n" and b: "batch s i = Some (lo, hi, [])"
  shows "sim n ((set_node i (applier_finish hi (node s i)) s)\<lparr>batch := (batch s)(i := None)\<rparr>) A"
proof (rule sim_idle [OF sm i, of "EvApplied hi"])
  show "event_ok (EvApplied hi) (node s i)" using simD(6) [OF sm i] b by (simp add: batch_ok_def)
qed (use msgs_same [OF sm] in \<open>auto simp: applier_finish_def same_core_def batch_ok_def\<close>)

section \<open>Proposals and restarts\<close>

lemma sim_start:
  assumes sm: "sim n s A" and i: "i < n" and run: "Start c (node s i) = (rf', out)"
  shows "\<exists>A'. astep n A A' \<and> sim n (set_node i rf' s) A'"
proof (cases "rstate (node s i) = LEADER")
  case False
  then have "rf' = node s i" using run by (simp add: Start_def)
  then have "sim n (set_node i rf' s) A"
    using sim_quiet [OF sm i, of "EvStart c" rf'] run False by (simp add: same_core_def)
  then show ?thesis unfolding astep_def by blast
next
  case True
  let ?t = "s_term A i" and ?e = "\<lparr>ed_Term = s_term A i, ed_Command = Some c\<rparr>"
  define l where "l = s_log A i @ [?e]"
  define A' where "A' = A\<lparr>s_log := (s_log A)(i := l), s_tlog := (s_tlog A)(?t := l), s_acks := insert (i, ?t, length l) (s_acks A)\<rparr>"
  note d = node_simD [OF simD(5) [OF sm i]]
  have st: "spec_step n A A'" unfolding A'_def by (rule spec_step.propose [OF i refl d(6) [OF True]]) (simp add: l_def)
  note ext = step_extends [OF simD(2) [OF sm] st]
  have ev: "local_event (EvStart c)" "event_ok (EvStart c) (node s i)" "peer_step (EvStart c) (node s i) = Inr rf'"
    using run by simp_all
  have f: "currentTerm rf' = currentTerm (node s i)" "rstate rf' = rstate (node s i)" "commitIndex rf' = commitIndex (node s i)"
    "\<And>j. j \<noteq> i \<Longrightarrow> matchIndex rf' ! j = matchIndex (node s i) ! j"
    using run True sim_shape [OF sm i] by (auto simp: Start_def Let_def)
  have fl: "full_log rf' l" using start_full_log [OF d(4) run True] d(2) by (simp add: l_def)
  have "sim n (set_node i rf' s) A'"
  proof (rule sim_node_step [OF sm i _ local_keeps [OF ev(1,3)]])
    show "moves n i A A'" unfolding moves_def astep_def using st by (simp add: A'_def)
    have "matchIndex rf' ! j \<le> commitIndex rf' \<or> acked A' j ?t (nat (matchIndex rf' ! j))" if "j < n" "j \<noteq> i" for j
      using d(7) [OF True that] f(3) f(4) [OF that(2)] acked_mono [OF ext] by auto
    then show "node_sim n A' i rf'" unfolding node_sim_def
      using d f(1-3) fl peer_step_keeps_inv [OF sm i ev(2,3)] True by (auto simp: A'_def)
    show "batch_ok n A' rf' (batch (set_node i rf' s) i)"
      using batch_ok_mono [OF ext _ simD(6) [OF sm i], of rf'] f(3) by simp
    show "msgs_sim n (set_node i rf' s) A'" by (rule msgs_sim_mono [OF ext simD(4) [OF sm]]) auto
  qed auto
  then show ?thesis using st unfolding astep_def by blast
qed

lemma Make_persistent:
  assumes "Make dec now r n i ps = Inr rf'"
  obtains p where "ReadRaftState ps = [] \<and> p = fresh_pstate \<or> ReadRaftState ps \<noteq> [] \<and> dec (ReadRaftState ps) = Some p" "persistent rf' = p"
  using assms by (cases "ReadRaftState ps = []"; cases "dec (ReadRaftState ps)")
    (auto simp: Make_def Let_def readPersist_def rbind_eq_Inr fresh_pstate_def persistent_def)

lemma Make_restart:
  assumes run: "Make dec now r n i ps = Inr rf'" and p: "persistent rf' = persistent rf" and inv: "peer_inv rf" and i: "i < n"
  shows "peer_inv rf'" "commitIndex rf' = snapshotIndex rf" "rstate rf' = FOLLOWER"
proof -
  obtain q where q: "ReadRaftState ps = [] \<and> q = fresh_pstate \<or> ReadRaftState ps \<noteq> [] \<and> dec (ReadRaftState ps) = Some q" "persistent rf' = q"
    using Make_persistent [OF run] .
  then have "pstate_ok q" using persistent_ok [OF inv] p by simp
  from Make_result [where dec = dec, OF i this q(1), of now r] run q(2) p show "peer_inv rf'" "commitIndex rf' = snapshotIndex rf" "rstate rf' = FOLLOWER"
    by (auto simp: persistent_def)
qed

lemma sim_restart:
  assumes sm: "sim n s A" and i: "i < n" and run: "Make dec now r n i ps = Inr rf'" "persistent rf' = persistent (node s i)"
  shows "\<exists>A'. astep n A A' \<and> sim n ((set_node i rf' s)\<lparr>batch := (batch s)(i := None)\<rparr>) A'" (is "\<exists>A'. _ \<and> sim n ?s A'")
proof -
  note d = node_simD [OF simD(5) [OF sm i]] and m = Make_restart [OF run node_simD(1) [OF simD(5) [OF sm i]] i]
  define k where "k = nat (snapshotIndex (node s i))"
  have k: "k \<le> s_commit A i" "commitIndex rf' = int k" using d(1,5) m(2) by (auto simp: k_def inv_defs)
  define A' where "A' = A\<lparr>s_standing := (s_standing A)(i := False), s_commit := (s_commit A)(i := k)\<rparr>"
  have st: "spec_step n A A'" unfolding A'_def by (rule spec_step.restart [OF i k(1)])
  have p: "currentTerm rf' = currentTerm (node s i)" "votedFor rf' = votedFor (node s i)" "rlog rf' = rlog (node s i)"
    "snapshotIndex rf' = snapshotIndex (node s i)" "snapshotTerm rf' = snapshotTerm (node s i)" using run(2) by (simp_all add: persistent_def)
  have "sim n ?s A'"
  proof (rule sim_node_step [OF sm i])
    show "moves n i A A'" unfolding moves_def astep_def using st by (simp add: A'_def)
    show "keeps (node s i) rf'" using Make_follower [OF run(1)] sim_shape [OF sm i] p by (simp add: keeps_def vote_grows_def)
    show "node_sim n A' i rf'" unfolding node_sim_def
      using d(2,4) m p k(2) full_log_cong [OF p(3-5)] by (simp add: A'_def)
    show "msgs_sim n ?s A'" if "extends n A A'" by (rule msgs_sim_mono [OF that simD(4) [OF sm]]) auto
  qed (auto simp: batch_ok_def)
  then show ?thesis using st unfolding astep_def by blast
qed

section \<open>Requests to append\<close>

lemma rooted_matching: "rooted A l \<Longrightarrow> rooted A L \<Longrightarrow> matching l L"
  unfolding matching_def
proof (intro allI impI)
  fix k assume r: "rooted A l" "rooted A L" and k: "0 < k" "k \<le> length l" "k \<le> length L" "term_at l k = term_at L k"
  have "prefix (take k l) (s_tlog A (term_at l k))" "prefix (take k L) (s_tlog A (term_at l k))"
    using rootedD(1) [OF r(1) k(1,2)] rootedD(1) [OF r(2) k(1,3)] k(4) by simp_all
  then show "take k l = take k L" using k(2,3) by (metis length_take min.absorb2 prefix_length_prefix prefix_order.antisym order_refl)
qed

text \<open>What a request finds at its destination.\<close>

lemma append_arrives:
  assumes sm: "sim n s A" and a: "(j, a) \<in> appends s"
  shows "append_ok n A j a" "j < n" "event_ok (EvAppendEntries now r a) (node s j)"
    and "\<not> ae_Term a < currentTerm (node s j) \<Longrightarrow> prefix (take (s_commit A j) (s_log A j)) (s_tlog A (ae_Term a))"
    and "\<not> ae_Term a < currentTerm (node s j) \<Longrightarrow> rstate (node s j) = LEADER \<Longrightarrow> currentTerm (node s j) < ae_Term a"
proof -
  let ?rf = "node s j" and ?T = "s_tlog A (ae_Term a)"
  show ok: "append_ok n A j a" using simD(4) [OF sm] a by (auto simp: msgs_sim_def)
  then show j: "j < n" by (simp add: append_ok_def)
  obtain c p where c: "s_leader A (ae_Term a) = Some c" "c \<noteq> j" "carries a ?T p" using ok by (auto simp: append_ok_def)
  note d = node_simD [OF simD(5) [OF sm j]]
  have cm: "s_commit A j \<le> length (s_log A j)" "chosen_by n A (s_term A j) (take (s_commit A j) (s_log A j))"
    using spec_invD(9) [OF simD(2) [OF sm]] j unfolding commits_ok_def by auto
  show pre: "prefix (take (s_commit A j) (s_log A j)) ?T" if "\<not> ae_Term a < currentTerm ?rf"
    by (rule chosen_in_leader [OF spec_invD(7) [OF simD(2) [OF sm]] cm(2)]) (use that d(2) c(1) in auto)
  show ld: "currentTerm ?rf < ae_Term a" if "\<not> ae_Term a < currentTerm ?rf" "rstate ?rf = LEADER"
    using that d(2,6) c(1,2) by (cases "ae_Term a = s_term A j") auto
  have "respects_committed ?rf a" if t: "\<not> ae_Term a < currentTerm ?rf"
    unfolding respects_committed_def Let_def
  proof (intro allI impI)
    fix k assume k: "k < length (ae_Entries a)" "snapshotIndex ?rf < ae_PrevLogIndex a + 1 + int k" "ae_PrevLogIndex a + 1 + int k \<le> commitIndex ?rf"
    define q where "q = p + 1 + k"
    have q: "ae_PrevLogIndex a + 1 + int k = int q" using c(3) by (simp add: carries_def q_def)
    have le: "q \<le> s_commit A j" using k(3) d(5) q by simp
    have "ed_Term (rlog ?rf ! nat (relIdx ?rf (int q))) = term_at (s_log A j) q"
      by (rule full_log_nth(1) [OF d(4)]) (use k(2) q le cm(1) in auto)
    also have "\<dots> = term_at ?T q"
      using term_at_prefix [OF pre [OF t], of q] term_at_take [OF le, of "s_log A j"] le cm(1) by simp
    also have "\<dots> = ed_Term (ae_Entries a ! k)"
    proof -
      have "ae_Entries a = take (length (ae_Entries a)) (drop p ?T)" "p + length (ae_Entries a) \<le> length ?T" using c(3) by (auto simp: carries_def)
      then have "ae_Entries a ! k = ?T ! (p + k)" using k(1) by (metis add_leD1 nth_drop nth_take)
      then show ?thesis by (simp add: term_at_def q_def)
    qed
    finally show "ed_Term (rlog ?rf ! nat (relIdx ?rf (ae_PrevLogIndex a + 1 + int k))) = ed_Term (ae_Entries a ! k)" using q by simp
  qed
  then show "event_ok (EvAppendEntries now r a) ?rf"
    using ld by auto
qed

lemma append_checked_same:
  assumes "append_checked rf a rep = Inr (rf', rep')"
  shows "rstate rf' = rstate rf" "snapshotIndex rf' = snapshotIndex rf" "snapshotTerm rf' = snapshotTerm rf"
  using assms by (auto simp: append_checked_def Let_def rbind_eq_Inr split: if_splits prod.splits)

lemma AppendEntries_role:
  assumes run: "AppendEntries now r rf a = Inr (rf', rep)" and t: "\<not> ae_Term a < currentTerm rf"
    and ld: "rstate rf = LEADER \<Longrightarrow> currentTerm rf < ae_Term a"
  shows "rstate rf' = FOLLOWER" "snapshotIndex rf' = snapshotIndex rf" "snapshotTerm rf' = snapshotTerm rf"
proof -
  have e: "rstate (ae_enter now r rf a) = FOLLOWER"
    using ld t by (cases "rstate rf") (auto simp: ae_enter_def)
  have "rstate rf' = rstate (ae_enter now r rf a) \<and> snapshotIndex rf' = snapshotIndex (ae_enter now r rf a)
      \<and> snapshotTerm rf' = snapshotTerm (ae_enter now r rf a)"
    using run by (auto simp: AppendEntries_current [OF t] split: option.splits dest: append_checked_same)
  then show "rstate rf' = FOLLOWER" "snapshotIndex rf' = snapshotIndex rf" "snapshotTerm rf' = snapshotTerm rf"
    using e by auto
qed

lemma append_refused:
  assumes sm: "sim n s A" and a: "(j, a) \<in> appends s" and run: "AppendEntries now r (node s j) a = Inr (rf', rep)" "\<not> ar_Success rep"
  shows "refused A a rep"
proof (cases "ae_Term a < currentTerm (node s j)")
  case True
  then show ?thesis using run by (simp add: AppendEntries_def Let_def refused_def) auto
next
  case False
  note ar = append_arrives [OF sm a]
  let ?rf = "node s j" and ?l = "s_log A j"
  note d = node_simD [OF simD(5) [OF sm ar(2)]]
  have rc: "reports_conflict ?rf a rep" "\<not> holds_prev ?rf a" using AppendEntries_result [OF d(1), of now r a] run False by auto
  show ?thesis
  proof (cases "lastIdx ?rf < ae_PrevLogIndex a")
    case True
    have "0 \<le> lastIdx ?rf" using full_log_lastIdx [OF d(4)] by simp
    then show ?thesis using rc(1) True by (simp add: reports_conflict_def refused_def)
  next
    case f: False
    obtain e where e: "entry_at ?rf (ae_PrevLogIndex a) = Some e" "ed_Term e = ar_ConflictingTerm rep" "ar_ConflictingLogLen rep = -1"
      "ar_ConflictingIndex rep \<le> ae_PrevLogIndex a" using rc(1) f by (auto simp: reports_conflict_def)
    then have ne: "ar_ConflictingTerm rep \<noteq> ae_PrevLogTerm a" using rc(2) by (auto simp: holds_prev_def)
    have le: "snapshotIndex ?rf \<le> ae_PrevLogIndex a" using e(1) by (auto simp: entry_at_def idx_ok_def relIdx_def split: if_splits)
    then obtain p where p: "ae_PrevLogIndex a = int p" using d(4) by (metis full_logE nonneg_int_cases order_trans of_nat_0_le_iff)
    have "p \<le> length ?l" using f full_log_lastIdx [OF d(4)] p by simp
    moreover have "term_at ?l p = ar_ConflictingTerm rep"
      using full_log_nth(1) [OF d(4), of p] le p calculation e(1,2) by (auto simp: entry_at_def split: if_splits)
    moreover have "rooted A ?l" by (rule logs_okD(3) [OF spec_invD(4) [OF simD(2) [OF sm]] ar(2)])
    ultimately show ?thesis using e ne p unfolding refused_def by auto
  qed
qed

lemma sim_append:
  assumes sm: "sim n s A" and a: "(j, a) \<in> appends s" and run: "AppendEntries now r (node s j) a = Inr (rf', rep)"
  shows "\<exists>A'. astep n A A' \<and> sim n ((set_node j rf' s)\<lparr>append_replies := insert (j, a, rep) (append_replies s)\<rparr>) A'"
    (is "\<exists>A'. _ \<and> sim n ?s A'")
proof -
  let ?rf = "node s j" and ?T = "s_tlog A (ae_Term a)" and ?l = "s_log A j"
  note ar = append_arrives [OF sm a] and inv = simD(2) [OF sm]
  note j = ar(2) and d = node_simD [OF simD(5) [OF sm ar(2)]]
  have ev: "local_event (EvAppendEntries now r a)" "event_ok (EvAppendEntries now r a) ?rf"
    "peer_step (EvAppendEntries now r a) ?rf = Inr rf'" using ar(3) run by auto
  note res = AppendEntries_result [OF d(1), of now r a] and p' = peer_step_keeps_inv [OF sm j ev(2,3)]
  have cb: "\<not> ar_Success rep \<Longrightarrow> conflict_bounded a rep \<and> refused A a rep" using AppendEntries_conflict [OF run d(1)] append_refused [OF sm a run] by blast
  have go: ?thesis if mv: "moves n j A A'" and nd: "node_sim n A' j rf'"
      and ack: "ar_Success rep \<Longrightarrow> acked A' j (ae_Term a) (nat (ae_PrevLogIndex a) + length (ae_Entries a))"
      and cm: "commitIndex ?rf \<le> commitIndex rf'" for A'
  proof -
    have "sim n ?s A'"
    proof (rule sim_node_step [OF sm j mv local_keeps [OF ev(1,3)] _ nd])
      assume e: "extends n A A'"
      have "reply_ok n A' j a rep" using append_ok_mono [OF e ar(1)] ack cb refused_mono [OF e] by (auto simp: reply_ok_def)
      then show "msgs_sim n ?s A'" by (intro msgs_sim_mono [OF e simD(4) [OF sm]]) auto
    next
      have "extends n A A'" using astep_inv [OF inv] mv by (auto simp: moves_def)
      then show "batch_ok n A' rf' (batch ?s j)" using batch_ok_mono [OF _ cm simD(6) [OF sm j]] by simp
    qed auto
    then show ?thesis using mv by (auto simp: moves_def)
  qed
  show ?thesis
  proof (cases "ae_Term a < currentTerm ?rf")
    case True
    then have "rf' = ?rf" "\<not> ar_Success rep" using res run by auto
    then show ?thesis using go [OF moves_refl] simD(5) [OF sm j] by simp
  next
    case t: False
    note ro = AppendEntries_role [OF run t ar(5) [OF t]]
    have term': "currentTerm rf' = ae_Term a" "s_term A j \<le> ae_Term a" using res run t d(2) by auto
    obtain c p k where c: "s_leader A (ae_Term a) = Some c" "c \<noteq> j" "carries a ?T p" "ae_LeaderCommit a = int k" "k \<le> length ?T"
      "chosen_by n A (ae_Term a) (take k ?T)" using ar(1) by (auto simp: append_ok_def)
    show ?thesis
    proof (cases "ar_Success rep")
      case False
      define A' where "A' = A\<lparr>s_term := (s_term A)(j := ae_Term a), s_standing := (s_standing A)(j := False)\<rparr>"
      have "spec_step n A A'" unfolding A'_def by (rule spec_step.advance [OF j term'(2)])
      then have mv: "moves n j A A'" by (simp add: moves_def astep_def A'_def)
      have f: "rlog rf' = rlog ?rf" "commitIndex rf' = commitIndex ?rf" using res run t False by auto
      then have "node_sim n A' j rf'" unfolding node_sim_def
        using p' term'(1) ro full_log_cong [of rf' ?rf ?l] d(4,5) by (simp add: A'_def)
      then show ?thesis using go [OF mv] False f by simp
    next
      case True
      let ?m = "p + length (ae_Entries a)"
      have pi: "ae_PrevLogIndex a = int p" "?m \<le> length ?T" using c(3) by (auto simp: carries_def)
      have ci: "commitIndex rf' = max (commitIndex ?rf) (min (int k) (int ?m))"
        using res run t True c(4) pi(1) by (auto simp: accepted_def)
      define q where "q = max (s_commit A j) (min k ?m)"
      define A' where "A' = A\<lparr>s_term := (s_term A)(j := ae_Term a), s_standing := (s_standing A)(j := False),
          s_log := (s_log A)(j := sync ?l (take ?m ?T)), s_acks := insert (j, ae_Term a, ?m) (s_acks A), s_commit := (s_commit A)(j := q)\<rparr>"
      have q: "q = s_commit A j \<or> s_commit A j \<le> q \<and> q \<le> ?m \<and> chosen_by n A (ae_Term a) (take q ?T)"
      proof (cases "q = s_commit A j")
        case False
        then have "q = min k ?m" "q \<le> k" "q \<le> ?m" "s_commit A j \<le> q" by (auto simp: q_def max_def split: if_splits)
        moreover have "prefix (take q ?T) (take k ?T)" using \<open>q \<le> k\<close> by (metis min.absorb1 take_is_prefix take_take)
        ultimately show ?thesis using chosen_sub [OF c(6)] by blast
      qed simp
      have st: "spec_step n A A'" unfolding A'_def by (rule spec_step.accept [OF j c(1,2) term'(2) pi(2) q])
      then have mv: "moves n j A A'" by (simp add: moves_def astep_def A'_def)
      have "snapshotIndex ?rf \<le> commitIndex ?rf" "0 \<le> snapshotIndex ?rf" using d(1) by (auto simp: inv_defs)
      then have "prefix (take (nat (snapshotIndex ?rf)) ?l) (take (s_commit A j) ?l)"
        using d(5) by (metis min.absorb1 nat_int nat_mono take_is_prefix take_take)
      then have sn: "prefix (take (nat (snapshotIndex ?rf)) ?l) ?T" using ar(4) [OF t] by (rule prefix_order.trans)
      have mt: "matching ?l ?T" using rooted_matching logs_okD(2,3) [OF spec_invD(4) [OF inv]] j by blast
      have "full_log rf' (sync ?l (take ?m ?T))" by (rule append_full_log [OF d(1,4) mt c(3) sn run True])
      moreover have "commitIndex rf' = int q" using ci d(5) by (simp add: q_def of_nat_max of_nat_min)
      ultimately have "node_sim n A' j rf'" unfolding node_sim_def using p' term'(1) ro(1) by (simp add: A'_def)
      then show ?thesis using go [OF mv] ci pi(1) by (simp add: A'_def acked_def) blast
    qed
  qed
qed

section \<open>Snapshots between servers\<close>

lemma install_arrives:
  assumes sm: "sim n s A" and b: "(j, b) \<in> installs s" and g: "is_Term b \<le> currentTerm (node s j)"
  shows "install_ok (node s j) b"
proof -
  let ?rf = "node s j" and ?l = "s_log A j"
  note inv = simD(2) [OF sm]
  obtain p where j: "j < n" and p: "is_LastIncludedIndex b = int (length p)" "is_LastIncludedTerm b = last_term_of p" "chosen_by n A (is_Term b) p"
    using simD(4) [OF sm] b by (auto simp: msgs_sim_def snap_ok_def)
  note d = node_simD [OF simD(5) [OF sm j]]
  have t: "is_Term b \<le> s_term A j" using g d(2) by simp
  have cm: "s_commit A j \<le> length ?l" "chosen_by n A (s_term A j) (take (s_commit A j) ?l)"
    using spec_invD(9) [OF inv] j unfolding commits_ok_def by auto
  have lead: "prefix p ?l" if "rstate ?rf = LEADER"
    using chosen_in_leader [OF spec_invD(7) [OF inv] p(3) t] logs_okD(7) [OF spec_invD(4) [OF inv] d(6) [OF that]] d(6) [OF that] by simp
  obtain L where L: "prefix p L" "prefix (take (s_commit A j) ?l) L" using chosen_agree [OF spec_invD(7,4) [OF inv] p(3) cm(2)] by blast
  show ?thesis unfolding install_ok_def p
  proof (rule impI)
    assume new: "snapshotIndex ?rf < int (length p)"
    have "int (length p) \<le> lastIdx ?rf \<and> ed_Term (rlog ?rf ! nat (relIdx ?rf (int (length p)))) = last_term_of p" if "prefix p ?l"
      using full_log_lastIdx [OF d(4)] prefix_length_le [OF that] full_log_nth(1) [OF d(4), of "length p"] new
        term_at_prefix [OF that, of "length p"] by simp
    moreover have "prefix p ?l" if "\<not> commitIndex ?rf < int (length p)"
    proof -
      have "length p \<le> length (take (s_commit A j) ?l)" using that d(5) cm(1) by simp
      then have "prefix p (take (s_commit A j) ?l)" using prefix_length_prefix [OF L] by blast
      then show ?thesis using prefix_order.trans [OF _ take_is_prefix] by blast
    qed
    ultimately show "int (length p) \<le> lastIdx ?rf \<and> ed_Term (rlog ?rf ! nat (relIdx ?rf (int (length p)))) = last_term_of p
        \<or> rstate ?rf \<noteq> LEADER \<and> commitIndex ?rf < int (length p)" using lead by blast
  qed
qed

lemma sim_install_end:
  assumes sm: "sim n s A" and b: "(j, b) \<in> installs s" and on: "\<not> off_term (node s j) b"
    and run: "InstallSnapshot_end (node s j) b = Inr rf'"
  shows "\<exists>A'. astep n A A' \<and> sim n (set_node j rf' s) A'"
proof -
  let ?rf = "node s j" and ?l = "s_log A j"
  note inv = simD(2) [OF sm]
  obtain p where j: "j < n" and p: "is_LastIncludedIndex b = int (length p)" "is_LastIncludedTerm b = last_term_of p" "chosen_by n A (is_Term b) p"
    using simD(4) [OF sm] b by (auto simp: msgs_sim_def snap_ok_def)
  note d = node_simD [OF simD(5) [OF sm j]]
  show ?thesis
  proof (cases "snapshotIndex ?rf < int (length p)")
    case False
    then have e: "rf' = ?rf" using run p(1) by (simp add: InstallSnapshot_end_def)
    have "sim n (set_node j rf' s) A"
      by (rule sim_node_step [OF sm j moves_refl])
        (use simD(5,6) [OF sm j] msgs_same [OF sm] e in \<open>auto simp: keeps_def vote_grows_def\<close>)
    then show ?thesis unfolding astep_def by blast
  next
    case new: True
    then have g: "is_Term b \<le> currentTerm ?rf" "rstate ?rf \<noteq> CANDIDATE" using on p(1) by (simp_all add: off_term_def)
    have t: "is_Term b \<le> s_term A j" using g(1) d(2) by simp
    define A' where "A' = A\<lparr>s_log := (s_log A)(j := sync ?l p), s_commit := (s_commit A)(j := max (s_commit A j) (length p))\<rparr>"
    have st: "spec_step n A A'" unfolding A'_def by (rule spec_step.install [OF j _ p(3) t]) (use d(3) g(2) in simp)
    then have mv: "moves n j A A'" by (simp add: moves_def astep_def A'_def)
    note ext = step_extends [OF inv st]
    have "rooted A p" by (rule chosen_rooted(1) [OF spec_invD(4) [OF inv] p(3)])
    then have mt: "matching ?l p" using rooted_matching logs_okD(3) [OF spec_invD(4) [OF inv] j] by blast
    note fl = install_full_log [OF d(4) mt p(1,2) new run]
    have ok: "install_ok ?rf b" by (rule install_arrives [OF sm b g(1)])
    have ev: "local_event (EvInstallEnd b)" "event_ok (EvInstallEnd b) ?rf" "peer_step (EvInstallEnd b) ?rf = Inr rf'" using ok run by auto
    have f: "currentTerm rf' = currentTerm ?rf" "rstate rf' = rstate ?rf" "matchIndex rf' = matchIndex ?rf"
      using run by (auto simp: InstallSnapshot_end_def Let_def rbind_eq_Inr split: if_splits)
    have "matchIndex rf' ! i \<le> commitIndex rf' \<or> acked A' i (s_term A j) (nat (matchIndex rf' ! i))"
      if "rstate ?rf = LEADER" "i < n" "i \<noteq> j" for i
      using d(7) [OF that] f(3) fl(3) acked_mono [OF ext] by auto
    then have nd: "node_sim n A' j rf'" unfolding node_sim_def
      using d f fl peer_step_keeps_inv [OF sm j ev(2,3)] by (auto simp: A'_def of_nat_max)
    have "sim n (set_node j rf' s) A'"
    proof (rule sim_node_step [OF sm j mv local_keeps [OF ev(1,3)] _ nd])
      show "batch_ok n A' rf' (batch (set_node j rf' s) j)" using batch_ok_mono [OF ext _ simD(6) [OF sm j], of rf'] fl(3) by simp
      show "msgs_sim n (set_node j rf' s) A'" by (rule msgs_sim_mono [OF ext simD(4) [OF sm]]) auto
    qed auto
    then show ?thesis using st unfolding astep_def by blast
  qed
qed

text \<open>A server that learns of a newer term.\<close>

lemma sim_advance:
  assumes sm: "sim n s A" and i: "i < n" and ev: "local_event ev" "event_ok ev (node s i)" "peer_step ev (node s i) = Inr rf'"
    and f: "currentTerm (node s i) < currentTerm rf'" "rstate rf' = FOLLOWER" "rlog rf' = rlog (node s i)"
      "snapshotIndex rf' = snapshotIndex (node s i)" "snapshotTerm rf' = snapshotTerm (node s i)" "commitIndex rf' = commitIndex (node s i)"
  shows "\<exists>A'. astep n A A' \<and> sim n (set_node i rf' s) A'"
proof -
  let ?t = "currentTerm rf'"
  note d = node_simD [OF simD(5) [OF sm i]]
  define A' where "A' = A\<lparr>s_term := (s_term A)(i := ?t), s_standing := (s_standing A)(i := False)\<rparr>"
  have st: "spec_step n A A'" unfolding A'_def by (rule spec_step.advance [OF i]) (use f(1) d(2) in simp)
  then have mv: "moves n i A A'" by (simp add: moves_def astep_def A'_def)
  note ext = step_extends [OF simD(2) [OF sm] st]
  have nd: "node_sim n A' i rf'" unfolding node_sim_def
    using f d(4,5) full_log_cong [OF f(3-5)] peer_step_keeps_inv [OF sm i ev(2,3)] by (simp add: A'_def)
  have "sim n (set_node i rf' s) A'"
  proof (rule sim_node_step [OF sm i mv local_keeps [OF ev(1,3)] _ nd])
    show "batch_ok n A' rf' (batch (set_node i rf' s) i)" using batch_ok_mono [OF ext _ simD(6) [OF sm i], of rf'] f(6) by simp
    show "msgs_sim n (set_node i rf' s) A'" by (rule msgs_sim_mono [OF ext simD(4) [OF sm]]) auto
  qed auto
  then show ?thesis using st unfolding astep_def by blast
qed

lemma snapshot_done_cases:
  assumes "replicator_snapshot_done now r j b res rf = Inr rf'"
  obtains (none) "rf' = rf" | (down) t where "currentTerm rf < t"
      "rf' = broadcast PersistCond (resetElection now r (stepDownToFollower t rf))"
    | (slot) "rstate rf = LEADER" "rf' = rf\<lparr>nextIndex := (nextIndex rf)[j := max (nextIndex rf ! j) (snapshotIndex rf + 1)],
          matchIndex := (matchIndex rf)[j := max (matchIndex rf ! j) (snapshotIndex rf)]\<rparr>"
proof (cases "\<exists>t. res = Some t \<and> rstate rf = LEADER \<and> currentTerm rf = is_Term b")
  case True
  then obtain t where "res = Some t" "rstate rf = LEADER" "currentTerm rf = is_Term b" by blast
  then show ?thesis using assms down slot
    by (cases "currentTerm rf < t") (auto simp: replicator_snapshot_done_def rbind_eq_Inr slice_get_eq_Inr)
next
  case False
  then show ?thesis using assms none by (auto simp: replicator_snapshot_done_def split: option.splits)
qed

lemma sim_install_done:
  assumes sm: "sim n s A" and i: "i < n" "j < n" "j \<noteq> i" and run: "replicator_snapshot_done now r j b res (node s i) = Inr rf'"
  shows "\<exists>A'. astep n A A' \<and> sim n (set_node i rf' s) A'"
proof -
  let ?rf = "node s i"
  note d = node_simD [OF simD(5) [OF sm i(1)]]
  have sh: "npeers ?rf = n" "me ?rf = i" using sim_shape [OF sm i(1)] by auto
  have ev: "local_event (EvSnapshotDone now r j b res)" "event_ok (EvSnapshotDone now r j b res) ?rf"
    "peer_step (EvSnapshotDone now r j b res) ?rf = Inr rf'" using i sh run by auto
  from run show ?thesis
  proof (cases rule: snapshot_done_cases)
    case none
    then have "sim n (set_node i rf' s) A" using sim_quiet [OF sm i(1) ev] by (simp add: same_core_def)
    then show ?thesis unfolding astep_def by blast
  next
    case (down t)
    then show ?thesis by (intro sim_advance [OF sm i(1) ev]) auto
  next
    case slot
    have sn: "snapshotIndex ?rf \<le> commitIndex ?rf" using d(1) by (simp add: inv_defs)
    have "matchIndex rf' ! k \<le> commitIndex ?rf \<or> acked A k (s_term A i) (nat (matchIndex rf' ! k))" if "k < n" "k \<noteq> i" for k
      using d(7) [OF slot(1) that] sn slot(2) leader_slotD(1) [OF d(1) slot(1), of j] i sh
      by (cases "k = j") (auto simp: max_def)
    then have nd: "node_sim n A i rf'" unfolding node_sim_def
      using d(1-6) slot peer_step_keeps_inv [OF sm i(1) ev(2,3)] full_log_cong [of rf' ?rf] by auto
    have "sim n (set_node i rf' s) A"
      by (rule sim_node_step [OF sm i(1) moves_refl local_keeps [OF ev(1,3)] _ nd])
        (use batch_ok_mono [OF extends_refl _ simD(6) [OF sm i(1)], of rf'] slot(2) msgs_same [OF sm] in auto)
    then show ?thesis unfolding astep_def by blast
  qed
qed

section \<open>Replies\<close>

text \<open>What a leader does with the reply of its own term: it records the match and perhaps commits, or only
  moves the next index.\<close>

lemma updateCommitIndex_commits:
  assumes inv: "peer_inv rf" and ld: "rstate rf = LEADER" and run: "updateCommitIndex rf = Inr rf'"
  shows "rf' = rf \<or> (\<exists>N. rf' = broadcast ApplyCond (rf\<lparr>commitIndex := N\<rparr>) \<and> commitIndex rf < N \<and> N \<le> lastIdx rf
      \<and> ed_Term (rlog rf ! nat (relIdx rf N)) = currentTerm rf \<and> npeers rf - npeers rf div 2 \<le> card (replicated_on rf N))"
  using updateCommitIndex_result [OF inv ld] run by auto

lemma handle_success_cases:
  assumes inv: "peer_inv rf" and ld: "rstate rf = LEADER" and j: "j < npeers rf" "j \<noteq> me rf"
    and m: "ae_PrevLogIndex a + int (length (ae_Entries a)) \<le> lastIdx rf" and run: "handle_success j a rf = Inr rf'"
  obtains mi where "same_core (rf\<lparr>matchIndex := mi\<rparr>) rf'" "length mi = npeers rf"
      "\<And>i. i < npeers rf \<Longrightarrow> mi ! i = matchIndex rf ! i \<or> i = j \<and> mi ! i = ae_PrevLogIndex a + int (length (ae_Entries a))"
  | mi N where "same_core (rf\<lparr>matchIndex := mi, commitIndex := N\<rparr>) rf'" "length mi = npeers rf"
      "\<And>i. i < npeers rf \<Longrightarrow> mi ! i = matchIndex rf ! i \<or> i = j \<and> mi ! i = ae_PrevLogIndex a + int (length (ae_Entries a))"
      "commitIndex rf < N" "N \<le> lastIdx rf" "ed_Term (rlog rf ! nat (relIdx rf N)) = currentTerm rf"
      "npeers rf - npeers rf div 2 \<le> card (replicated_on (rf\<lparr>matchIndex := mi\<rparr>) N)"
proof -
  let ?m = "ae_PrevLogIndex a + int (length (ae_Entries a))"
  note sl = leader_slotD [OF inv ld j]
  have len: "length (matchIndex rf) = npeers rf" using inv by (simp add: inv_defs)
  obtain rf1 x where r1: "(if ?m > matchIndex rf ! j then updateCommitIndex (rf\<lparr>matchIndex := (matchIndex rf)[j := ?m]\<rparr>) else Inr rf) = Inr rf1"
    "rf' = rf1\<lparr>nextIndex := x\<rparr>"
    using run sl(1) by (auto simp: handle_success_def Let_def rbind_eq_Inr slice_get_eq_Inr)
  show ?thesis
  proof (cases "?m > matchIndex rf ! j")
    case False
    then show ?thesis using that(1) [where mi = "matchIndex rf"] r1 len by (simp add: same_core_def)
  next
    case True
    define mi where "mi = (matchIndex rf)[j := ?m]"
    have mi: "length mi = npeers rf" "\<And>i. i < npeers rf \<Longrightarrow> mi ! i = matchIndex rf ! i \<or> i = j \<and> mi ! i = ?m"
      using len sl(1) by (simp add: mi_def, metis mi_def nth_list_update_eq nth_list_update_neq)
    have i0: "peer_inv (rf\<lparr>matchIndex := mi\<rparr>)" unfolding mi_def by (rule leader_slot_inv(3) [OF inv j, of 1]) (use m sl in auto)
    from updateCommitIndex_commits [OF i0 _, of rf1] r1(1) True ld consider "rf1 = rf\<lparr>matchIndex := mi\<rparr>"
      | N where "rf1 = broadcast ApplyCond (rf\<lparr>matchIndex := mi, commitIndex := N\<rparr>)" "commitIndex rf < N" "N \<le> lastIdx rf"
        "ed_Term (rlog rf ! nat (relIdx rf N)) = currentTerm rf" "npeers rf - npeers rf div 2 \<le> card (replicated_on (rf\<lparr>matchIndex := mi\<rparr>) N)"
      by (auto simp: mi_def idx_defs)
    then show ?thesis
    proof cases
      case 1
      then show ?thesis using that(1) [where mi = mi] r1(2) mi by (simp add: same_core_def)
    next
      case (2 N)
      then show ?thesis using that(2) [where mi = mi and N = N] r1(2) mi by (simp add: same_core_def)
    qed
  qed
qed

lemma handle_conflict_core: "handle_conflict j a rep rf = Inr rf' \<Longrightarrow> same_core rf rf'"
  by (auto simp: handle_conflict_def rbind_eq_Inr same_core_def split: if_splits)

lemma same_core_trans: "same_core a b \<Longrightarrow> same_core b c \<Longrightarrow> same_core a c"
  by (simp add: same_core_def)

lemma same_core_broadcast [simp]: "same_core rf (broadcast c rf') = same_core rf rf'"
  by (simp add: same_core_def)

lemma sendAndHandle_cases:
  assumes run: "sendAndHandle now r j a sq (Some rep) rf = Inr rf'"
  obtains (same) "same_core rf rf'"
    | (down) "rstate rf = LEADER" "currentTerm rf = ae_Term a" "currentTerm rf < ar_Term rep" "currentTerm rf' = ar_Term rep" "rstate rf' = FOLLOWER" "rlog rf' = rlog rf"
        "snapshotIndex rf' = snapshotIndex rf" "snapshotTerm rf' = snapshotTerm rf" "commitIndex rf' = commitIndex rf"
    | (success) rf1 rf2 where "rstate rf = LEADER" "currentTerm rf = ae_Term a" "ar_Success rep"
        "rf1 = rf \<or> rf1 = rf\<lparr>inFlight := (inFlight rf)[j := False]\<rparr>" "handle_success j a rf1 = Inr rf2" "same_core rf2 rf'"
proof -
  define rf1 where "rf1 = (if sq = sendSeq rf ! j then rf\<lparr>inFlight := (inFlight rf)[j := False]\<rparr> else rf)"
  have r1: "same_core rf rf1" "rf1 = rf \<or> rf1 = rf\<lparr>inFlight := (inFlight rf)[j := False]\<rparr>" by (auto simp: rf1_def same_core_def)
  have r: "if rstate rf1 \<noteq> LEADER \<or> currentTerm rf1 \<noteq> ae_Term a then rf' = rf1
      else \<exists>rf2. handleAppendEntriesResponse now r j a rep rf1 = Inr rf2 \<and> rf' = broadcast PersistCond (broadcast (ReplCond j) rf2)"
    using run by (auto simp: sendAndHandle_def Let_def rbind_eq_Inr slice_get_eq_Inr rf1_def [symmetric] split: if_splits)
  show ?thesis
  proof (cases "rstate rf1 \<noteq> LEADER \<or> currentTerm rf1 \<noteq> ae_Term a")
    case True
    then show ?thesis using r r1 same by simp
  next
    case False
    then obtain rf2 where h: "handleAppendEntriesResponse now r j a rep rf1 = Inr rf2" "rf' = broadcast PersistCond (broadcast (ReplCond j) rf2)"
      using r by auto
    have ld: "rstate rf = LEADER" "currentTerm rf = ae_Term a" using False r1(1) by (auto simp: same_core_def)
    consider "ar_Term rep > currentTerm rf1" | "\<not> ar_Term rep > currentTerm rf1" "ar_Success rep" | "\<not> ar_Term rep > currentTerm rf1" "\<not> ar_Success rep" by blast
    then show ?thesis
    proof cases
      case 1
      then have "rf2 = resetElection now r (stepDownToFollower (ar_Term rep) rf1)" using h by (simp add: handleAppendEntriesResponse_def)
      then show ?thesis using down ld 1 h(2) r1(1) by (simp add: same_core_def)
    next
      case 2
      then have "handle_success j a rf1 = Inr rf2" using h by (simp add: handleAppendEntriesResponse_def)
      moreover have "same_core rf2 rf'" using h(2) by (simp add: same_core_def)
      ultimately show ?thesis using success ld 2 r1(2) by blast
    next
      case 3
      then have "same_core rf1 rf2" using h handle_conflict_core by (simp add: handleAppendEntriesResponse_def)
      then show ?thesis using same same_core_trans [OF r1(1)] h(2) by simp
    qed
  qed
qed

text \<open>The commit rule of the leader is the commit step of the protocol.\<close>

lemma leader_commits:
  assumes sm: "sim n s A" and i: "i < n" and ld: "rstate (node s i) = LEADER"
    and mi: "\<And>x. x < n \<Longrightarrow> x \<noteq> i \<Longrightarrow> mi ! x = matchIndex (node s i) ! x \<or> acked A x (s_term A i) (nat (mi ! x))" "length mi = n"
    and N: "commitIndex (node s i) < N" "N \<le> lastIdx (node s i)" "ed_Term (rlog (node s i) ! nat (relIdx (node s i) N)) = currentTerm (node s i)"
      "n - n div 2 \<le> card {x. x < n \<and> N \<le> mi[i := lastIdx (node s i)] ! x}"
  shows "committed n A (s_term A i) (nat N)"
proof -
  let ?rf = "node s i" and ?t = "s_term A i" and ?k = "nat N"
  note d = node_simD [OF simD(5) [OF sm i]] and inv = simD(2) [OF sm]
  have T: "s_tlog A ?t = s_log A i" using logs_okD(7) [OF spec_invD(4) [OF inv] d(6) [OF ld]] by simp
  have k: "0 < ?k" "int ?k = N" "?k \<le> length (s_log A i)" "snapshotIndex ?rf \<le> N"
    using N(1,2) d(1,5) full_log_lastIdx [OF d(4)] by (auto simp: inv_defs)
  have "term_at (s_log A i) ?k = ?t" using full_log_nth(1) [OF d(4), of ?k] k N(3) d(2) by simp
  then have "own A ?t ?k" using k T by (simp add: own_def)
  moreover have "{x. x < n \<and> N \<le> mi[i := lastIdx ?rf] ! x} \<subseteq> {x. x < n \<and> acked A x ?t ?k}"
  proof clarify
    fix x assume x: "x < n" "N \<le> mi[i := lastIdx ?rf] ! x"
    show "acked A x ?t ?k"
    proof (cases "x = i")
      case True
      then show ?thesis using leader_acked [OF spec_invD(5) [OF inv] d(6) [OF ld], of ?k] k(3) T by simp
    next
      case False
      then have le: "N \<le> mi ! x" using x(2) by simp
      then have "acked A x ?t (nat (mi ! x))" using mi(1) [OF x(1) False] d(7) [OF ld x(1) False] N(1) by auto
      then show ?thesis using nat_mono [OF le] unfolding acked_def by (meson order_trans)
    qed
  qed
  ultimately show ?thesis unfolding committed_def commit_quorum_def
    using N(4) card_mono [of "{x. x < n \<and> acked A x ?t ?k}" "{x. x < n \<and> N \<le> mi[i := lastIdx ?rf] ! x}"] by auto
qed

lemma done_arrives:
  assumes sm: "sim n s A" and rep: "(j, a, rep) \<in> append_replies s" "ae_LeaderId a = int i"
  shows "i < n" "j < n" "j \<noteq> i" "nat (ae_PrevLogIndex a + int (length (ae_Entries a))) = nat (ae_PrevLogIndex a) + length (ae_Entries a)"
    and "rstate (node s i) = LEADER \<Longrightarrow> currentTerm (node s i) = ae_Term a
      \<Longrightarrow> ae_PrevLogIndex a + int (length (ae_Entries a)) \<le> lastIdx (node s i)"
    and "event_ok (EvAppendDone now r j a sq (Some rep)) (node s i)"
proof -
  let ?rf = "node s i" and ?m = "ae_PrevLogIndex a + int (length (ae_Entries a))"
  note inv = simD(2) [OF sm]
  have ok: "reply_ok n A j a rep" using simD(4) [OF sm] rep(1) by (auto simp: msgs_sim_def)
  then obtain p where j: "j < n" "j \<noteq> i" "s_leader A (ae_Term a) = Some i" and p: "carries a (s_tlog A (ae_Term a)) p"
    using rep(2) by (auto simp: reply_ok_def append_ok_def)
  have i: "i < n" using leaders_okD(2) [OF spec_invD(3) [OF inv] j(3)] by simp
  note d = node_simD [OF simD(5) [OF sm i]]
  show "i < n" "j < n" "j \<noteq> i" by (fact i, fact j(1), fact j(2))
  show "nat ?m = nat (ae_PrevLogIndex a) + length (ae_Entries a)" using p by (simp add: carries_def)
  show le: "?m \<le> lastIdx ?rf" if "rstate ?rf = LEADER" "currentTerm ?rf = ae_Term a"
    using p logs_okD(7) [OF spec_invD(4) [OF inv] d(6) [OF that(1)]] d(2) that(2) full_log_lastIdx [OF d(4)] by (simp add: carries_def)
  show "event_ok (EvAppendDone now r j a sq (Some rep)) ?rf"
    using j sim_shape [OF sm i] le ok by (auto simp: reply_ok_def)
qed

text \<open>What a refusal asks for lies at or below the previous index of the request.\<close>

lemma refused_backoff:
  assumes sm: "sim n s A" and rep: "(j, a, rep) \<in> append_replies s" "ae_LeaderId a = int i" "\<not> ar_Success rep" "ar_Term rep \<le> ae_Term a"
    and ld: "rstate (node s i) = LEADER" "currentTerm (node s i) = ae_Term a"
  shows "backoff (node s i) rep \<le> ae_PrevLogIndex a"
proof (cases "ar_ConflictingLogLen rep = -1")
  case False
  have "refused A a rep" using simD(4) [OF sm] rep by (auto simp: msgs_sim_def reply_ok_def)
  then show ?thesis using False rep(4) by (simp add: refused_def backoff_def)
next
  case True
  let ?rf = "node s i" and ?l = "s_log A i" and ?t = "ar_ConflictingTerm rep"
  note inv = simD(2) [OF sm] and i = done_arrives(1) [OF sm rep(1,2)]
  note d = node_simD [OF simD(5) [OF sm i]] and lg = logs_okD [OF spec_invD(4) [OF inv]]
  have ok: "append_ok n A j a" "refused A a rep" using simD(4) [OF sm] rep by (auto simp: msgs_sim_def reply_ok_def)
  obtain k p where k: "ae_PrevLogIndex a = int p" "rooted A k" "p \<le> length k" "term_at k p = ?t" "?t \<noteq> ae_PrevLogTerm a" "ar_ConflictingIndex rep \<le> int p"
    using ok(2) True rep(4) by (auto simp: refused_def)
  have "s_tlog A (ae_Term a) = ?l" using lg(7) [OF d(6) [OF ld(1)]] d(2) ld(2) by simp
  then have prev: "ae_PrevLogTerm a = term_at ?l p" "p \<le> length ?l" using ok(1) k(1) by (auto simp: append_ok_def carries_def)
  let ?n = "last_of_term (rlog ?rf) ?t (length (rlog ?rf) - 1)"
  have "absIdx ?rf ?n + 1 \<le> int p" if "?n \<noteq> -1"
  proof (rule ccontr)
    assume over: "\<not> ?thesis"
    from d(4) obtain S x where S: "snapshotIndex ?rf = int S" "S \<le> length ?l" "rlog ?rf = x # drop S ?l" by (rule full_logE)
    from that last_of_term_cases [of "rlog ?rf" ?t "length (rlog ?rf) - 1"]
    obtain m where m: "?n = int m" "m \<le> length (rlog ?rf) - 1" "ed_Term (rlog ?rf ! m) = ?t" by auto
    define q where "q = S + m"
    have q: "absIdx ?rf ?n = int q" "q \<le> length ?l" using m S by (auto simp: q_def absIdx_def)
    have tq: "term_at ?l q = ?t" using full_log_nth(1) [OF d(4), of q] q(2) S(1) m(3) by (simp add: q_def relIdx_def)
    then have pq: "p < q" using over q(1) prev(1) k(5) by (cases "q = p") auto
    have p0: "0 < p" using prev(1) k(4,5) by (cases p) (simp_all add: term_at_def)
    have "prefix (take q ?l) (s_tlog A ?t)" using rootedD(1) [OF lg(3) [OF i], of q] q(2) pq tq by simp
    moreover have "prefix (take p k) (s_tlog A ?t)" using rootedD(1) [OF k(2) p0 k(3)] k(4) by simp
    ultimately have "prefix (take p k) (take q ?l)" using pq q(2) k(3) prefix_length_prefix by fastforce
    then have "take p k = take p ?l" using k(3) pq q(2) by (metis min.absorb1 less_imp_le length_take min.absorb2 take_take append_eq_conv_conj prefix_def)
    then have "term_at ?l p = ?t" using k(4) term_at_take [of p p k] term_at_take [of p p ?l] k(3) prev(2) by simp
    then show False using prev(1) k(5) by simp
  qed
  then show ?thesis using True k(1,6) by (auto simp: backoff_def Let_def)
qed

lemma sim_append_done:
  assumes sm: "sim n s A" and rep: "(j, a, rep) \<in> append_replies s" "ae_LeaderId a = int i"
    and run: "sendAndHandle now r j a sq (Some rep) (node s i) = Inr rf'"
  shows "\<exists>A'. astep n A A' \<and> sim n (set_node i rf' s) A'"
proof -
  let ?rf = "node s i" and ?m = "ae_PrevLogIndex a + int (length (ae_Entries a))"
  note inv = simD(2) [OF sm]
  have ok: "reply_ok n A j a rep" using simD(4) [OF sm] rep(1) by (auto simp: msgs_sim_def)
  note ar = done_arrives [OF sm rep]
  note i = ar(1) and j = ar(2,3) and m = ar(4) and le = ar(5)
  note d = node_simD [OF simD(5) [OF sm i]]
  have sh: "npeers ?rf = n" "me ?rf = i" using sim_shape [OF sm i] by auto
  have ev: "local_event (EvAppendDone now r j a sq (Some rep))" "event_ok (EvAppendDone now r j a sq (Some rep)) ?rf"
    "peer_step (EvAppendDone now r j a sq (Some rep)) ?rf = Inr rf'" using run ar(6) by auto
  from run show ?thesis
  proof (cases rule: sendAndHandle_cases)
    case same
    then show ?thesis using sim_quiet [OF sm i ev] unfolding astep_def by blast
  next
    case down
    then show ?thesis by (intro sim_advance [OF sm i ev]) simp_all
  next
    case (success rf1 rf2)
    have t: "s_term A i = ae_Term a" using success(2) d(2) by simp
    have acm: "acked A j (s_term A i) (nat ?m)" using ok success(3) m t by (simp add: reply_ok_def)
    have f1: "same_core ?rf rf1" "npeers rf1 = n" "me rf1 = i" "lastIdx rf1 = lastIdx ?rf" "rlog rf1 = rlog ?rf" "relIdx rf1 = relIdx ?rf"
      using success(4) sh by (auto simp: same_core_def idx_defs fun_eq_iff)
    have i1: "peer_inv rf1" using success(4) d(1) by (auto simp: inv_defs idx_defs)
    have ld1: "rstate rf1 = LEADER" using f1(1) success(1) by (simp add: same_core_def)
    have p': "peer_inv rf'" by (rule peer_step_keeps_inv [OF sm i ev(2,3)])
    have fin: "\<exists>A'. astep n A A' \<and> sim n (set_node i rf' s) A'"
      if mv: "moves n i A A'" and nd: "node_sim n A' i rf'" and ci: "commitIndex ?rf \<le> commitIndex rf'" for A'
    proof -
      have e: "extends n A A'" using astep_inv [OF inv] mv by (auto simp: moves_def)
      have "sim n (set_node i rf' s) A'"
      proof (rule sim_node_step [OF sm i mv local_keeps [OF ev(1,3)] _ nd])
        show "batch_ok n A' rf' (batch (set_node i rf' s) i)" using batch_ok_mono [OF e ci simD(6) [OF sm i]] by simp
        show "msgs_sim n (set_node i rf' s) A'" by (rule msgs_sim_mono [OF e simD(4) [OF sm]]) auto
      qed auto
      then show ?thesis using mv by (auto simp: moves_def)
    qed
    have slots: "mi ! x = matchIndex ?rf ! x \<or> acked A x (s_term A i) (nat (mi ! x))"
      if "\<And>y. y < npeers rf1 \<Longrightarrow> mi ! y = matchIndex rf1 ! y \<or> y = j \<and> mi ! y = ?m" "x < n" for mi x
      using that(1) [of x] that(2) f1(1,2) acm by (auto simp: same_core_def)
    have jm: "j < npeers rf1" "j \<noteq> me rf1" "?m \<le> lastIdx rf1" using j f1 le [OF success(1,2)] by auto
    show ?thesis
    proof (rule handle_success_cases [OF i1 ld1 jm success(5)])
      fix mi assume mi: "same_core (rf1\<lparr>matchIndex := mi\<rparr>) rf2"
        "\<And>y. y < npeers rf1 \<Longrightarrow> mi ! y = matchIndex rf1 ! y \<or> y = j \<and> mi ! y = ?m"
      have c: "same_core (?rf\<lparr>matchIndex := mi\<rparr>) rf'"
        using same_core_trans [OF mi(1) success(6)] f1(1) by (simp add: same_core_def)
      have "matchIndex rf' ! x \<le> commitIndex rf' \<or> acked A x (s_term A i) (nat (matchIndex rf' ! x))" if "x < n" "x \<noteq> i" for x
        using slots [OF mi(2) that(1)] d(7) [OF success(1) that] c by (auto simp: same_core_def)
      then have "node_sim n A i rf'" unfolding node_sim_def
        using d(2-6) c p' full_log_cong [of rf' ?rf] by (auto simp: same_core_def)
      then show ?thesis using fin [OF moves_refl] c by (simp add: same_core_def)
    next
      fix mi N assume mi: "same_core (rf1\<lparr>matchIndex := mi, commitIndex := N\<rparr>) rf2" "length mi = npeers rf1"
        "\<And>y. y < npeers rf1 \<Longrightarrow> mi ! y = matchIndex rf1 ! y \<or> y = j \<and> mi ! y = ?m"
        and N: "commitIndex rf1 < N" "N \<le> lastIdx rf1" "ed_Term (rlog rf1 ! nat (relIdx rf1 N)) = currentTerm rf1"
          "npeers rf1 - npeers rf1 div 2 \<le> card (replicated_on (rf1\<lparr>matchIndex := mi\<rparr>) N)"
      have c: "same_core (?rf\<lparr>matchIndex := mi, commitIndex := N\<rparr>) rf'"
        using same_core_trans [OF mi(1) success(6)] f1(1) by (simp add: same_core_def)
      have N0: "commitIndex ?rf < N" "N \<le> lastIdx ?rf" "ed_Term (rlog ?rf ! nat (relIdx ?rf N)) = currentTerm ?rf"
        using N(1-3) f1 by (auto simp: same_core_def)
      have l1: "lastIdx (rf1\<lparr>matchIndex := mi\<rparr>) = lastIdx ?rf" using f1(4) by (simp add: idx_defs)
      have "committed n A (s_term A i) (nat N)"
      proof (rule leader_commits [OF sm i success(1) _ _ N0])
        show "mi ! x = matchIndex ?rf ! x \<or> acked A x (s_term A i) (nat (mi ! x))" if "x < n" "x \<noteq> i" for x
          by (rule slots [OF mi(3) that(1)])
        show "n - n div 2 \<le> card {x. x < n \<and> N \<le> mi[i := lastIdx ?rf] ! x}"
          using N(4) f1(2,3) l1 by (simp add: replicated_on_def matches_of_def)
      qed (use mi(2) f1(2) in simp)
      then have st: "spec_step n A (A\<lparr>s_commit := (s_commit A)(i := nat N)\<rparr>)"
        by (rule spec_step.commit [OF i refl d(6) [OF success(1)]])
      let ?A = "A\<lparr>s_commit := (s_commit A)(i := nat N)\<rparr>"
      have mv: "moves n i A ?A" using st by (simp add: moves_def astep_def)
      have Np: "int (nat N) = N" using N0(1) d(5) by simp
      have "matchIndex rf' ! x \<le> commitIndex rf' \<or> acked ?A x (s_term A i) (nat (matchIndex rf' ! x))" if "x < n" "x \<noteq> i" for x
        using slots [OF mi(3) that(1)] d(7) [OF success(1) that] c N0(1) by (auto simp: same_core_def acked_def)
      then have "node_sim n ?A i rf'" unfolding node_sim_def
        using d(2-6) c p' full_log_cong [of rf' ?rf] Np by (auto simp: same_core_def)
      then show ?thesis using fin [OF mv] c N0(1) by (simp add: same_core_def)
    qed
  qed
qed

section \<open>Votes\<close>

lemma votes_simD:
  assumes "votes_sim b A"
  shows "s_ballots A = {(j, t, c). voted b j t c}"
    and "a \<in> requests b \<Longrightarrow> rv_CandidateId a = int c \<Longrightarrow> \<exists>li. rv_LastLogIndex a = int li \<and> (c, rv_Term a, rv_LastLogTerm a, li) \<in> s_claims A"
  using assms unfolding votes_sim_def by blast+

lemma votes_simI:
  assumes "s_ballots A = {(j, t, c). voted b j t c}"
    and "\<And>a c. a \<in> requests b \<Longrightarrow> rv_CandidateId a = int c \<Longrightarrow> \<exists>li. rv_LastLogIndex a = int li \<and> (c, rv_Term a, rv_LastLogTerm a, li) \<in> s_claims A"
  shows "votes_sim b A"
  using assms unfolding votes_sim_def by blast

lemma sim_vote_step:
  assumes sm: "sim n s A" and st: "vote_step n (base s) b" and as: "astep n A A'" and vs: "votes_sim b A'"
    and b: "nodes b = (nodes (base s))(i := rf')" and nd: "node_sim n A' i rf'" and ci: "commitIndex (node s i) \<le> commitIndex rf'"
    and fr: "\<And>j. j \<noteq> i \<Longrightarrow> s_term A' j = s_term A j \<and> s_standing A' j = s_standing A j \<and> s_log A' j = s_log A j \<and> s_commit A' j = s_commit A j"
  shows "\<exists>A'. astep n A A' \<and> sim n (s\<lparr>base := b\<rparr>) A'"
proof -
  note d = simD [OF sm]
  have a: "spec_inv n A'" "extends n A A'" using astep_inv [OF d(2) as] by auto
  have "node_sim n A' j (nodes b j) \<and> batch_ok n A' (nodes b j) (batch s j)" if j: "j < n" for j
  proof (cases "j = i")
    case True
    then show ?thesis using nd b batch_ok_mono [OF a(2) ci, of "batch s i"] d(6) [OF j] by simp
  next
    case False
    have "node_sim n A' j (node s j)" by (rule node_sim_frame [OF a(2) d(5) [OF j]]) (use fr [OF False] in auto)
    then show ?thesis using batch_ok_mono [OF a(2) order_refl d(6) [OF j]] b False by simp
  qed
  moreover have "msgs_sim n (s\<lparr>base := b\<rparr>) A'" by (rule msgs_sim_mono [OF a(2) d(4)]) auto
  ultimately have "sim n (s\<lparr>base := b\<rparr>) A'" using a(1) vs vote_step_inv [OF d(1) st] by (simp add: sim_def)
  then show ?thesis using as by blast
qed

lemma wake_stale_core: "wake_stale now is rf = Inr rf' \<Longrightarrow> same_core rf rf'"
proof (induction "is" arbitrary: rf)
  case (Cons i js)
  then show ?case
    by (auto simp: rbind_eq_Inr split: if_splits dest!: Cons.IH) (auto simp: same_core_def)
qed (simp add: same_core_def)

lemma ticker_idle_core: "ticker now r rf = Inr (rf', None) \<Longrightarrow> same_core rf rf'"
  by (auto simp: ticker_def attemptElection_def rbind_eq_Inr Let_def split: if_splits dest: wake_stale_core) (auto simp: same_core_def)

lemma sim_tick:
  assumes sm: "sim n s A" and i: "i < n" and run: "ticker now r (node s i) = Inr (rf', None)"
  shows "sim n (s\<lparr>base := (base s)\<lparr>nodes := (nodes (base s))(i := rf')\<rparr>\<rparr>) A"
proof (rule sim_node_step [OF sm i moves_refl ticker_idle [OF run]])
  note c = ticker_idle_core [OF run] and d = simD(5) [OF sm i]
  have "peer_inv rf'" using ticker_inv [OF node_simD(1) [OF d], of now r] run by auto
  then show "node_sim n A i rf'" by (rule node_sim_same [OF d]) (use c in \<open>simp_all add: same_core_def\<close>)
  show "batch_ok n A rf' (batch (s\<lparr>base := (base s)\<lparr>nodes := (nodes (base s))(i := rf')\<rparr>\<rparr>) i)" using batch_ok_core [OF sm i c] by simp
qed (use msgs_same [OF sm] in auto)

lemma sim_elect:
  assumes sm: "sim n s A" and i: "i < n" and run: "ticker now r (node s i) = Inr (rf', Some a)"
  shows "\<exists>A'. astep n A A' \<and> sim n (s\<lparr>base := (base s)\<lparr>nodes := (nodes (base s))(i := rf'), requests := insert a (requests (base s)),
      votes := (votes (base s))(i := (votes (base s) i)(rv_Term a := 1))\<rparr>\<rparr>) A'" (is "\<exists>A'. _ \<and> sim n (s\<lparr>base := ?b\<rparr>) A'")
proof -
  note d = node_simD [OF simD(5) [OF sm i]] and e = ticker_elects [OF run]
  note c = ticker_claims [OF d(4) run]
  define t where "t = s_term A i + 1"
  define A' where "A' = A\<lparr>s_term := (s_term A)(i := t), s_standing := (s_standing A)(i := True),
     s_ballots := insert (i, t, i) (s_ballots A), s_claims := insert (i, t, last_term_of (s_log A i), length (s_log A i)) (s_claims A)\<rparr>"
  have as: "astep n A A'" unfolding astep_def A'_def t_def by (rule disjI2, rule spec_step.stand [OF i refl])
  have m: "me (node s i) = i" using sim_shape [OF sm i] by simp
  have t: "rv_Term a = t" "rv_CandidateId a = int i" using e(2,3) d(2) m by (simp_all add: t_def)
  have p: "peer_inv rf'" using ticker_inv [OF d(1), of now r] run by auto
  show ?thesis
  proof (rule sim_vote_step [OF sm vote_step.elect [OF i run] as])
    have "voted ?b j u x \<longleftrightarrow> voted (base s) j u x \<or> j = i \<and> u = t \<and> x = i" for j u x using t by (auto simp: voted_def)
    then have "s_ballots A' = {(j, u, x). voted ?b j u x}" using simD(3) [OF sm] by (auto simp: votes_sim_def A'_def)
    then show "votes_sim ?b A'"
    proof (rule votes_simI)
      fix a' x assume r: "a' \<in> requests ?b" "rv_CandidateId a' = int x"
      show "\<exists>li. rv_LastLogIndex a' = int li \<and> (x, rv_Term a', rv_LastLogTerm a', li) \<in> s_claims A'"
      proof (cases "a' = a")
        case True
        then show ?thesis using r t c(1,2) by (simp add: A'_def)
      next
        case False
        then show ?thesis using votes_simD(2) [OF simD(3) [OF sm], of a' x] r by (auto simp: A'_def)
      qed
    qed
    show "node_sim n A' i rf'" unfolding node_sim_def
      using p e(1,5) d(2,4,5) c(6) full_log_cong [OF c(3-5)] by (simp add: A'_def t_def)
  qed (use c(6) in \<open>auto simp: A'_def\<close>)
qed

lemma RequestVote_fields:
  assumes "RequestVote now r rf a = Inr (rf', rep)"
  shows "rlog rf' = rlog rf" "snapshotIndex rf' = snapshotIndex rf" "snapshotTerm rf' = snapshotTerm rf" "commitIndex rf' = commitIndex rf"
    "matchIndex rf' = matchIndex rf" "rstate rf' = (if currentTerm rf < rv_Term a then FOLLOWER else rstate rf)"
  using assms by (auto simp: RequestVote_def Let_def rbind_eq_Inr split: if_splits)

lemma sim_request:
  assumes sm: "sim n s A" and j: "j < n" and a: "a \<in> requests (base s)" "rv_CandidateId a \<noteq> int j"
    and run: "RequestVote now r (node s j) a = Inr (rf', rep)"
  shows "\<exists>A'. astep n A A' \<and> sim n (s\<lparr>base := (base s)\<lparr>nodes := (nodes (base s))(j := rf'),
      replies := insert (j, a, rep) (replies (base s))\<rparr>\<rparr>) A'" (is "\<exists>A'. _ \<and> sim n (s\<lparr>base := ?b\<rparr>) A'")
proof -
  let ?rf = "node s j" and ?t = "rv_Term a"
  note d = node_simD [OF simD(5) [OF sm j]] and f = RequestVote_fields [OF run] and ei = simD(1) [OF sm]
  have res: "vr_VoteGranted rep = (currentTerm ?rf \<le> ?t \<and> (currentTerm ?rf < ?t \<or> votedFor ?rf = -1 \<or> votedFor ?rf = rv_CandidateId a) \<and> up_to_date ?rf a)"
    "currentTerm rf' = max (currentTerm ?rf) ?t" using RequestVote_result [OF d(1), of now r a] run by auto
  have p: "peer_inv rf'" using RequestVote_inv [OF d(1), of now r a] run by auto
  have fl: "full_log rf' (s_log A j)" using full_log_cong [OF f(1-3)] d(4) by simp
  obtain c where c: "rv_CandidateId a = int c" using election_invD(2) [OF ei a(1)] by blast
  then obtain li where li: "rv_LastLogIndex a = int li" "(c, ?t, rv_LastLogTerm a, li) \<in> s_claims A"
    using votes_simD(2) [OF simD(3) [OF sm] a(1)] by blast
  have v: "voted ?b k t x \<longleftrightarrow> voted (base s) k t x \<or> (k = j \<and> vr_VoteGranted rep \<and> t = ?t \<and> x = c)" for k t x
    using c by (auto simp: voted_def)
  have nds: "nodes ?b = (nodes (base s))(j := rf')" "commitIndex ?rf \<le> commitIndex rf'" using f(4) by simp_all
  note stp = vote_step.request [OF j a run]
  show ?thesis
  proof (cases "vr_VoteGranted rep")
    case True
    define A' where "A' = A\<lparr>s_term := (s_term A)(j := ?t), s_standing := (s_standing A)(j := s_standing A j \<and> s_term A j = ?t),
          s_ballots := insert (j, ?t, c) (s_ballots A)\<rparr>"
    have le: "s_term A j \<le> ?t" using True res d(2) by simp
    have st: "spec_step n A A'" unfolding A'_def
    proof (rule spec_step.grant [OF j li(2) le])
      fix c' assume "(j, ?t, c') \<in> s_ballots A"
      then have "voted (base s) j ?t c'" using simD(3) [OF sm] by (simp add: votes_sim_def)
      then show "c' = c" using election_invD(4) [OF ei j, of ?t c'] True res c by auto
    next
      show "newer (s_log A j) (rv_LastLogTerm a) li" using up_to_date_newer [OF d(4) li(1)] True res(1) by simp
    qed
    have mt: "matchIndex rf' ! x \<le> commitIndex rf' \<or> acked A' x (s_term A j) (nat (matchIndex rf' ! x))"
      if "rstate ?rf = LEADER" "x < n" "x \<noteq> j" for x using d(7) [OF that] f(4,5) by (simp add: acked_def A'_def)
    have nd: "node_sim n A' j rf'"
    proof (cases "currentTerm ?rf < ?t")
      case True
      then show ?thesis unfolding node_sim_def using p fl f(4,6) res(2) d(2,5) by (simp add: A'_def)
    next
      case False
      then have "s_term A j = ?t" using le d(2) by simp
      then show ?thesis unfolding node_sim_def using p fl f(4,6) res(2) d(2,3,5,6) mt False by (simp add: A'_def)
    qed
    have "s_ballots A' = {(k, t, x). voted ?b k t x}"
      unfolding v using simD(3) [OF sm] True by (auto simp: votes_sim_def A'_def)
    then have vs: "votes_sim ?b A'" using simD(3) [OF sm] by (auto simp: votes_sim_def A'_def)
    show ?thesis by (rule sim_vote_step [OF sm stp _ vs nds(1) nd nds(2)]) (use st in \<open>auto simp: astep_def A'_def\<close>)
  next
    case False
    have vs: "votes_sim ?b A'" if "s_ballots A' = s_ballots A" "s_claims A' = s_claims A" for A'
      using simD(3) [OF sm] that False by (auto simp: votes_sim_def v)
    show ?thesis
    proof (cases "currentTerm ?rf < ?t")
      case True
      define A' where "A' = A\<lparr>s_term := (s_term A)(j := ?t), s_standing := (s_standing A)(j := False)\<rparr>"
      have st: "spec_step n A A'" unfolding A'_def by (rule spec_step.advance [OF j]) (use True d(2) in simp)
      have nd: "node_sim n A' j rf'" unfolding node_sim_def using p fl f res(2) d(5) True by (simp add: A'_def)
      show ?thesis by (rule sim_vote_step [OF sm stp _ _ nds(1) nd nds(2)]) (use st vs in \<open>auto simp: astep_def A'_def\<close>)
    next
      case old: False
      have nd: "node_sim n A j rf'" by (rule node_sim_log [OF simD(5) [OF sm j] p]) (use fl f res(2) old in simp_all)
      show ?thesis by (rule sim_vote_step [OF sm stp _ _ nds(1) nd nds(2)]) (use vs in \<open>auto simp: astep_def\<close>)
    qed
  qed
qed

lemma handleVoteReply_disj:
  assumes "handleVoteReply now r a rep v rf = (rf', v')"
  shows "rf' = rf \<or> currentTerm rf < vr_Term rep \<and> rf' = broadcast PersistCond (resetElection now r (stepDownToFollower (vr_Term rep) rf))
    \<or> currentTerm rf = rv_Term a \<and> rstate rf = CANDIDATE \<and> rf' = becomeLeader rf"
  using assms by (simp add: handleVoteReply_def Let_def split: if_splits)

lemma handleVoteReply_cases:
  assumes "handleVoteReply now r a rep v rf = (rf', v')"
  obtains (same) "rf' = rf"
    | (down) "currentTerm rf < vr_Term rep" "rf' = broadcast PersistCond (resetElection now r (stepDownToFollower (vr_Term rep) rf))"
    | (win) "currentTerm rf = rv_Term a" "rstate rf = CANDIDATE" "rf' = becomeLeader rf"
  using handleVoteReply_disj [OF assms] by blast

lemma becomeLeader_matchIndex:
  assumes "peer_inv rf" "x < npeers rf" "x \<noteq> me rf"
  shows "matchIndex (becomeLeader rf) ! x = 0"
  using assms by (simp add: becomeLeader_def Let_def inv_defs reset_peers_matchIndex)

lemma sim_reply:
  assumes sm: "sim n s A" and rep: "(j, a, rep) \<in> replies (base s)" "rv_CandidateId a = int c" "(j, c, rv_Term a) \<notin> handled (base s)"
    and run: "handleVoteReply now r a rep (votes (base s) c (rv_Term a)) (node s c) = (rf', v)"
  shows "\<exists>A'. astep n A A' \<and> sim n (s\<lparr>base := (base s)\<lparr>nodes := (nodes (base s))(c := rf'),
      votes := (votes (base s))(c := (votes (base s) c)(rv_Term a := v)), handled := insert (j, c, rv_Term a) (handled (base s))\<rparr>\<rparr>) A'"
    (is "\<exists>A'. _ \<and> sim n (s\<lparr>base := ?b\<rparr>) A'")
proof -
  let ?rf = "node s c" and ?t = "s_term A c"
  note ei = simD(1) [OF sm]
  have "a \<in> requests (base s)" using election_invD(3) [OF ei rep(1)] by simp
  then have c: "c < n" using election_invD(2) [OF ei, of a] rep(2) by auto
  note d = node_simD [OF simD(5) [OF sm c]]
  note stp = vote_step.reply [OF rep run]
  have p: "peer_inv rf'" using handleVoteReply_inv [OF d(1), of now r a rep "votes (base s) c (rv_Term a)"] run by simp
  have vd: "voted ?b = voted (base s)" by (auto simp: voted_def fun_eq_iff)
  have vs: "votes_sim ?b A'" if "s_ballots A' = s_ballots A" "s_claims A' = s_claims A" for A'
    using simD(3) [OF sm] that by (simp add: votes_sim_def vd)
  have nds: "nodes ?b = (nodes (base s))(c := rf')" by simp
  from run show ?thesis
  proof (cases rule: handleVoteReply_cases)
    case same
    then have nd: "node_sim n A c rf'" using simD(5) [OF sm c] by simp
    show ?thesis by (rule sim_vote_step [OF sm stp _ vs nds nd]) (use same in \<open>auto simp: astep_def\<close>)
  next
    case down
    define A' where "A' = A\<lparr>s_term := (s_term A)(c := vr_Term rep), s_standing := (s_standing A)(c := False)\<rparr>"
    have st: "spec_step n A A'" unfolding A'_def by (rule spec_step.advance [OF c]) (use down d(2) in simp)
    have f: "rlog rf' = rlog ?rf" "snapshotIndex rf' = snapshotIndex ?rf" "snapshotTerm rf' = snapshotTerm ?rf" "commitIndex rf' = commitIndex ?rf"
      "currentTerm rf' = vr_Term rep" "rstate rf' = FOLLOWER" using down by auto
    have nd: "node_sim n A' c rf'" unfolding node_sim_def using p f d(4,5) full_log_cong [OF f(1-3)] by (simp add: A'_def)
    show ?thesis by (rule sim_vote_step [OF sm stp _ vs nds nd]) (use f st in \<open>auto simp: astep_def A'_def\<close>)
  next
    case win
    define A' where "A' = A\<lparr>s_standing := (s_standing A)(c := False), s_leader := (s_leader A)(?t \<mapsto> c),
          s_tlog := (s_tlog A)(?t := s_log A c), s_acks := insert (c, ?t, length (s_log A c)) (s_acks A)\<rparr>"
    have f: "rlog rf' = rlog ?rf" "snapshotIndex rf' = snapshotIndex ?rf" "snapshotTerm rf' = snapshotTerm ?rf" "commitIndex rf' = commitIndex ?rf"
      "currentTerm rf' = currentTerm ?rf" "rstate rf' = LEADER" using win(3) by auto
    have "vote_quorum n (voters n ?b (currentTerm rf') c)"
      using election_invD(7) [OF vote_step_inv [OF ei stp] c] f(6) by simp
    moreover have "voters n ?b (currentTerm rf') c = {k. k < n \<and> (k, ?t, c) \<in> s_ballots A}"
      using votes_simD(1) [OF simD(3) [OF sm]] f(5) d(2) by (simp add: voters_def vd)
    ultimately have st: "spec_step n A A'" unfolding A'_def
      by (intro spec_step.win [OF c _ refl]) (use d(3) win(2) in auto)
    have "0 \<le> commitIndex rf'" using p by (auto simp: inv_defs)
    then have "matchIndex rf' ! x \<le> commitIndex rf'" if "x < n" "x \<noteq> c" for x
      using becomeLeader_matchIndex [OF d(1), of x] sim_shape [OF sm c] that win(3) by simp
    then have nd: "node_sim n A' c rf'" unfolding node_sim_def
      using p f d(2,4,5) full_log_cong [OF f(1-3)] by (simp add: A'_def)
    show ?thesis by (rule sim_vote_step [OF sm stp _ vs nds nd]) (use f st in \<open>auto simp: astep_def A'_def\<close>)
  qed
qed

section \<open>The simulation\<close>

lemma sim_vote:
  assumes sm: "sim n s A" and st: "vote_step n (base s) b"
  shows "\<exists>A'. astep n A A' \<and> sim n (s\<lparr>base := b\<rparr>) A'"
  using st
proof cases
  case (tick i now r rf')
  then show ?thesis using sim_tick [OF sm] unfolding astep_def by blast
next
  case (elect i now r rf' a)
  then show ?thesis using sim_elect [OF sm] by simp
next
  case (request j a now r rf' rep)
  then show ?thesis using sim_request [OF sm] by simp
next
  case (reply j a rep c now r rf' v)
  then show ?thesis using sim_reply [OF sm reply(2-5)] by simp
qed

lemma sim_step:
  assumes sm: "sim n s A" and st: "rnet_step n enc dec s s'" and ok: "\<not> lapse s'"
  shows "\<exists>A'. astep n A A' \<and> sim n s' A'"
proof -
  have idle: "sim n s' A \<Longrightarrow> ?thesis" unfolding astep_def by blast
  from st show ?thesis
  proof cases
    case (vote b)
    then show ?thesis using sim_vote [OF sm] by simp
  next
    case (start i c rf' out)
    then show ?thesis using sim_start [OF sm] by simp
  next
    case (send_append i j now rf' a sq)
    then show ?thesis using idle sim_send_append [OF sm] by simp
  next
    case (send_install i j now rf' b)
    then show ?thesis using idle sim_send_install [OF sm] by simp
  next
    case (append j a now r rf' rep)
    then show ?thesis using sim_append [OF sm] by simp
  next
    case (append_done j a rep i now r sq rf')
    then show ?thesis using sim_append_done [OF sm] by simp
  next
    case (append_failed i j now r a sq rf')
    then show ?thesis using idle sim_append_failed [OF sm] by simp
  next
    case (install_begin j b rf' t go)
    then show ?thesis using idle sim_install_begin [OF sm] by simp
  next
    case (install_end j b rf')
    then show ?thesis using sim_install_end [OF sm, of j b rf'] ok by simp
  next
    case (install_done i j now r b res rf')
    then show ?thesis using sim_install_done [OF sm] by simp
  next
    case (snapshot i idx d rf')
    then show ?thesis using idle sim_snapshot [OF sm] by simp
  next
    case (take_batch i b)
    then show ?thesis using idle sim_take_batch [OF sm] by simp
  next
    case (deliver i lo hi e es)
    then show ?thesis using idle sim_deliver [OF sm] by simp
  next
    case (finish i lo hi)
    then show ?thesis using idle sim_finish [OF sm] by simp
  next
    case (save_begin i w)
    then show ?thesis using idle sm by simp
  next
    case (save_write i m st sn)
    then show ?thesis using idle sm by simp
  next
    case (save_end i m)
    then show ?thesis using idle sim_persisted [OF sm] by simp
  next
    case (restart i now r rf')
    then show ?thesis using sim_restart [OF sm, of i dec now r "disk s i" rf'] ok by simp
  qed
qed

definition spec_start :: "'c spec" where
  "spec_start = \<lparr>s_term = (\<lambda>_. 0), s_standing = (\<lambda>_. False), s_log = (\<lambda>_. []), s_commit = (\<lambda>_. 0), s_ballots = {},
     s_claims = {}, s_leader = Map.empty, s_tlog = (\<lambda>_. []), s_acks = {}\<rparr>"

lemma spec_start_init: "spec_init n spec_start"
  by (simp add: spec_init_def spec_start_def)

lemma Make_fresh:
  assumes "ReadRaftState ps = []" "Make dec now r n i ps = Inr rf" "i < n"
  shows "node_sim n spec_start i rf"
proof -
  have "pstate_ok fresh_pstate" by (simp add: pstate_ok_def fresh_pstate_def)
  from Make_result [where dec = dec, OF assms(3) this, of ps now r] assms(1,2)
  have f: "peer_inv rf" "persistent rf = fresh_pstate" "commitIndex rf = 0" "rstate rf = FOLLOWER" by (auto simp: fresh_pstate_def)
  then have "currentTerm rf = 0" "full_log rf []"
    by (auto simp: persistent_def fresh_pstate_def full_log_def term_at_def)
  then show ?thesis using f by (simp add: node_sim_def spec_start_def)
qed

lemma sim_init:
  assumes "rnet_init n s"
  shows "sim n s spec_start"
proof -
  have "cluster_init n (base s)" using assms by (simp add: rnet_init_def)
  then have "election_inv n (base s)" by (rule election.init_inv)
  moreover have "spec_inv n spec_start" using spec.init_inv [OF spec_start_init] .
  moreover have "votes_sim (base s) spec_start"
    using assms by (auto simp: votes_sim_def rnet_init_def cluster_init_def voted_def spec_start_def)
  moreover have "msgs_sim n s spec_start" using assms by (simp add: rnet_init_def msgs_sim_def)
  moreover have "node_sim n spec_start i (node s i) \<and> batch_ok n spec_start (node s i) (batch s i)" if lt: "i < n" for i
  proof -
    obtain dec now r where "ReadRaftState (disk s i) = []" "Make dec now r n i (disk s i) = Inr (node s i)"
      using assms lt unfolding rnet_init_def by blast
    then have "node_sim n spec_start i (node s i)" by (rule Make_fresh) (rule lt)
    moreover have "batch s i = None" using assms by (simp add: rnet_init_def)
    ultimately show ?thesis by (simp add: batch_ok_def)
  qed
  ultimately show ?thesis by (simp add: sim_def)
qed

end
