(* ===== verification/Raft_Safety.thy ===== *)
theory Raft_Safety
  imports Raft_Log
begin

text \<open>
  What the refinement of \<open>Raft_Log\<close> gives for the peers of \<open>raft1/raft.go\<close>: matching logs, leaders that have everything
  committed, one command per index on every apply channel, and operations that never panic, in every state that a
  cluster reaches without a lapse. The last sections show what a snapshot of a newer term does to a leader, and a second way in which
  \<open>InstallSnapshot\<close> and the replicator fall short of the protocol.
\<close>

section \<open>The peers refine the protocol\<close>

lemma net_refines:
  assumes "reach (rnet_init n) (rnet_step n enc dec) s" "\<not> lapse s"
  shows "\<exists>A. reach (spec_init n) (spec_step n) A \<and> sim n s A"
  using assms
proof (induction rule: reach.induct)
  case (reach_init s)
  then show ?case using sim_init reach.reach_init [where init = "spec_init n", OF spec_start_init] by blast
next
  case (reach_step s t)
  then have "\<not> lapse s" using lapse_stays by blast
  with reach_step.IH obtain A where A: "reach (spec_init n) (spec_step n) A" "sim n s A" by blast
  from sim_step [OF A(2) reach_step.hyps(2) reach_step.prems] obtain A' where "astep n A A'" "sim n t A'" by blast
  then show ?case using A(1) reach.reach_step [of "spec_init n" "spec_step n" A A'] unfolding astep_def by blast
qed

lemma entry_at_full_log:
  assumes f: "full_log rf l" and k: "snapshotIndex rf < k"
  shows "entry_at rf k = (if k \<le> int (length l) then Some (l ! (nat k - 1)) else None)"
proof -
  from f obtain S x where S: "snapshotIndex rf = int S" "S \<le> length l" "rlog rf = x # drop S l" by (rule full_logE)
  show ?thesis
  proof (cases "k \<le> int (length l)")
    case True
    have "int (nat k) = k" using k S(1) by simp
    then show ?thesis using True k full_log_nth(2) [OF f, of "nat k"] S by (auto simp: entry_at_def idx_ok_def relIdx_def)
  next
    case False
    then show ?thesis using S k by (simp add: entry_at_def idx_ok_def relIdx_def)
  qed
qed

text \<open>C2: a cluster of peers refines the protocol of \<open>Raft_Spec\<close>, as long as it has not lapsed. Every state the peers reach, with
  requests and replies delayed, lost, duplicated and reordered, snapshots taken and installed, and servers that crash and come
  back from what their persisters hold, is related to a reachable state of the protocol, in which each server has the term, the
  whole log and the commit index of the peer, provided that so far no peer took over a snapshot of a term newer than its own, or as
  a candidate, and no server came back with another term, vote, log or snapshot than it had. The code excludes neither;
  what follows then is shown below and in \<open>Raft_Cluster\<close>.\<close>

theorem raft_refines_spec:
  assumes "reach (rnet_init n) (rnet_step n enc dec) s" "\<not> lapse s"
  shows "\<exists>A. reach (spec_init n) (spec_step n) A \<and> (\<forall>i < n. s_term A i = currentTerm (node s i)
    \<and> full_log (node s i) (s_log A i) \<and> int (s_commit A i) = commitIndex (node s i)
    \<and> (rstate (node s i) = LEADER \<longrightarrow> s_leader A (s_term A i) = Some i))"
proof -
  obtain A where A: "reach (spec_init n) (spec_step n) A" "sim n s A" using net_refines [OF assms] by blast
  have "s_term A i = currentTerm (node s i) \<and> full_log (node s i) (s_log A i) \<and> int (s_commit A i) = commitIndex (node s i)
    \<and> (rstate (node s i) = LEADER \<longrightarrow> s_leader A (s_term A i) = Some i)" if "i < n" for i
    using node_simD [OF simD(5) [OF A(2) that]] by simp
  with A(1) show ?thesis by blast
qed

section \<open>Matching logs\<close>

text \<open>C10: in a state reached without a lapse, if the logs of two servers have an entry of the same term at the same index, then they have the same
  entries at every index up to there that neither snapshot covers.\<close>

theorem log_matching:
  assumes run: "reach (rnet_init n) (rnet_step n enc dec) s" "\<not> lapse s" and ij: "i < n" "j < n"
    and k: "entry_at (node s i) k = Some e" "entry_at (node s j) k = Some e'" "ed_Term e = ed_Term e'"
    and q: "q \<le> k" "snapshotIndex (node s i) < q" "snapshotIndex (node s j) < q"
  shows "entry_at (node s i) q = entry_at (node s j) q \<and> entry_at (node s i) q \<noteq> None"
proof -
  obtain A where A: "reach (spec_init n) (spec_step n) A" "sim n s A" using net_refines [OF run] by blast
  note fi = node_simD(4) [OF simD(5) [OF A(2) ij(1)]] and fj = node_simD(4) [OF simD(5) [OF A(2) ij(2)]]
  have sk: "snapshotIndex (node s i) < k" "snapshotIndex (node s j) < k" "0 < q"
    using q fi by (auto elim!: full_logE)
  have e: "nat k \<le> length (s_log A i)" "nat k \<le> length (s_log A j)" "e = s_log A i ! (nat k - 1)" "e' = s_log A j ! (nat k - 1)"
    using k(1,2) entry_at_full_log [OF fi sk(1)] entry_at_full_log [OF fj sk(2)] by (auto split: if_splits)
  have kp: "0 < nat k" "nat q \<le> nat k" "0 < nat q" using sk(3) q(1) by auto
  have "take (nat k) (s_log A i) = take (nat k) (s_log A j)"
    by (rule spec_log_matching [OF A(1) ij kp(1) e(1,2)]) (use k(3) e(3,4) kp(1) in \<open>simp add: term_at_def\<close>)
  then have "s_log A i ! (nat q - 1) = s_log A j ! (nat q - 1)" using kp by (metis diff_less less_le_trans nth_take zero_less_one)
  then show ?thesis using entry_at_full_log [OF fi q(2)] entry_at_full_log [OF fj q(3)] e(1,2) kp q by auto
qed

section \<open>Leaders have what is committed\<close>

text \<open>C3: in a state reached without a lapse, what a server regards as committed is in the log of every leader of its term or a later one: the
  leader's log reaches the commit index and has the same entries as the server up to it, as far as
  neither snapshot covers them.\<close>

theorem leader_completeness:
  assumes run: "reach (rnet_init n) (rnet_step n enc dec) s" "\<not> lapse s" and ij: "i < n" "j < n"
    and ld: "rstate (node s j) = LEADER" "currentTerm (node s i) \<le> currentTerm (node s j)"
  shows "commitIndex (node s i) \<le> lastIdx (node s j)
    \<and> (\<forall>q. snapshotIndex (node s i) < q \<and> snapshotIndex (node s j) < q \<and> q \<le> commitIndex (node s i) \<longrightarrow>
         entry_at (node s i) q = entry_at (node s j) q \<and> entry_at (node s i) q \<noteq> None)"
proof -
  obtain A where A: "reach (spec_init n) (spec_step n) A" "sim n s A" using net_refines [OF run] by blast
  note inv = simD(2) [OF A(2)] and di = node_simD [OF simD(5) [OF A(2) ij(1)]] and dj = node_simD [OF simD(5) [OF A(2) ij(2)]]
  let ?p = "take (s_commit A i) (s_log A i)"
  have c: "s_commit A i \<le> length (s_log A i)" "chosen_by n A (s_term A i) ?p"
    using spec_invD(9) [OF inv] ij(1) unfolding commits_ok_def by auto
  have "prefix ?p (s_tlog A (s_term A j))"
    by (rule chosen_in_leader [OF spec_invD(7) [OF inv] c(2)]) (use ld dj(2,6) di(2) in auto)
  then have p: "prefix ?p (s_log A j)" using logs_okD(7) [OF spec_invD(4) [OF inv] dj(6) [OF ld(1)]] by simp
  then have len: "s_commit A i \<le> length (s_log A j)" using prefix_length_le [OF p] c(1) by simp
  have "entry_at (node s i) q = entry_at (node s j) q \<and> entry_at (node s i) q \<noteq> None"
    if q: "snapshotIndex (node s i) < q" "snapshotIndex (node s j) < q" "q \<le> commitIndex (node s i)" for q
  proof -
    have nq: "0 < nat q" "nat q \<le> s_commit A i" using q di(4,5) by (auto elim!: full_logE)
    have "take (s_commit A i) (s_log A j) = take (s_commit A i) (s_log A i)" using take_prefix_mono [OF p, of "s_commit A i"] c(1) by simp
    then have "s_log A i ! (nat q - 1) = s_log A j ! (nat q - 1)" using nq by (metis diff_less less_le_trans nth_take zero_less_one)
    then show ?thesis using entry_at_full_log [OF di(4) q(1)] entry_at_full_log [OF dj(4) q(2)] nq c(1) len by auto
  qed
  moreover have "commitIndex (node s i) \<le> lastIdx (node s j)" using len di(5) full_log_lastIdx [OF dj(4)] by simp
  ultimately show ?thesis by blast
qed

section \<open>One command per index\<close>

lemma chosen_at_unique:
  assumes inv: "spec_inv n A" and e: "chosen_at n A k e" "chosen_at n A k e'"
  shows "e = e'"
proof -
  obtain t p t' p' where p: "chosen_by n A t p" "0 < k" "k \<le> int (length p)" "p ! (nat k - 1) = e"
    "chosen_by n A t' p'" "k \<le> int (length p')" "p' ! (nat k - 1) = e'" using e by (auto simp: chosen_at_def)
  obtain L where L: "prefix p L" "prefix p' L" using chosen_agree [OF spec_invD(7,4) [OF inv] p(1,5)] by blast
  obtain r where r: "L = p @ r" using L(1) by (auto simp: prefix_def)
  obtain r' where r': "L = p' @ r'" using L(2) by (auto simp: prefix_def)
  have "nat k - 1 < length p" "nat k - 1 < length p'" using p(2,3,6) by auto
  then have "(p @ r) ! (nat k - 1) = e" "(p' @ r') ! (nat k - 1) = e'" using p(4,7) by (simp_all add: nth_append)
  then show ?thesis using r r' by simp
qed

lemma committed_chosen:
  assumes A: "sim n s A" and i: "i < n" "snapshotIndex (node s i) < k" "k \<le> commitIndex (node s i)" "entry_at (node s i) k = Some e"
  shows "chosen_at n A k e"
proof -
  note d = node_simD [OF simD(5) [OF A i(1)]]
  have c: "s_commit A i \<le> length (s_log A i)" "chosen_by n A (s_term A i) (take (s_commit A i) (s_log A i))"
    using spec_invD(9) [OF simD(2) [OF A]] i(1) unfolding commits_ok_def by auto
  have "0 \<le> snapshotIndex (node s i)" using d(4) by (auto elim!: full_logE)
  then have k: "0 < k" "k \<le> int (s_commit A i)" using i(2,3) d(5) by simp_all
  have "s_log A i ! (nat k - 1) = e" using entry_at_full_log [OF d(4) i(2)] i(4) by (simp split: if_splits)
  then have "take (s_commit A i) (s_log A i) ! (nat k - 1) = e" using k by simp
  moreover have "k \<le> int (length (take (s_commit A i) (s_log A i)))" using k c(1) by simp
  ultimately show ?thesis unfolding chosen_at_def using c(2) k(1) by blast
qed

lemma delivered_chosen:
  assumes "sim n s A" "(i, m) \<in> delivered s"
  obtains e where "am_Command m = ed_Command e" "chosen_at n A (am_CommandIndex m) e"
  using simD(4) [OF assms(1)] assms(2) unfolding msgs_sim_def by blast

text \<open>The commands of a run form one sequence: what is delivered for an index and what any server holds there as
  committed is the command of the sequence.\<close>

lemma cluster_sequence:
  assumes run: "reach (rnet_init n) (rnet_step n enc dec) s" "\<not> lapse s"
  shows "\<exists>L. L 0 = None \<and> (\<forall>i m. (i, m) \<in> delivered s \<longrightarrow> am_Command m = L (am_CommandIndex m))
    \<and> (\<forall>i < n. \<forall>k e. snapshotIndex (node s i) < k \<and> k \<le> commitIndex (node s i) \<and> entry_at (node s i) k = Some e \<longrightarrow> ed_Command e = L k)"
proof -
  obtain A where A: "sim n s A" using net_refines [OF run] by blast
  define L where "L k = (if \<exists>e. chosen_at n A k e then ed_Command (SOME e. chosen_at n A k e) else None)" for k
  have ch: "ed_Command e = L k" if c: "chosen_at n A k e" for k e
  proof -
    have "e = (SOME e. chosen_at n A k e)"
      by (rule chosen_at_unique [OF simD(2) [OF A] c]) (rule someI [of "chosen_at n A k", OF c])
    moreover have "\<exists>e. chosen_at n A k e" using c by blast
    ultimately show ?thesis by (simp add: L_def)
  qed
  have "am_Command m = L (am_CommandIndex m)" if m: "(i, m) \<in> delivered s" for i m
  proof -
    obtain e where "am_Command m = ed_Command e" "chosen_at n A (am_CommandIndex m) e" by (rule delivered_chosen [OF A m])
    then show ?thesis using ch by simp
  qed
  moreover have "L 0 = None" by (simp add: L_def chosen_at_def)
  moreover have "ed_Command e = L k"
    if "i < n" "snapshotIndex (node s i) < k" "k \<le> commitIndex (node s i)" "entry_at (node s i) k = Some e" for i k e
    by (rule ch [OF committed_chosen [OF A that]])
  ultimately show ?thesis by blast
qed

text \<open>C1: state machine safety. As long as the cluster has not lapsed, whatever two servers, or two incarnations of one server,
  have ever put on their apply channels for one index is the same command.\<close>

theorem state_machine_safety:
  assumes run: "reach (rnet_init n) (rnet_step n enc dec) s" "\<not> lapse s" and m: "(i, m) \<in> delivered s" "(j, m') \<in> delivered s"
    and k: "am_CommandIndex m = am_CommandIndex m'"
  shows "am_Command m = am_Command m'"
proof -
  obtain A where A: "sim n s A" using net_refines [OF run] by blast
  obtain e where e: "am_Command m = ed_Command e" "chosen_at n A (am_CommandIndex m) e" by (rule delivered_chosen [OF A m(1)])
  obtain e' where e': "am_Command m' = ed_Command e'" "chosen_at n A (am_CommandIndex m') e'" by (rule delivered_chosen [OF A m(2)])
  have "e = e'" by (rule chosen_at_unique [OF simD(2) [OF A] e(2)]) (use e'(2) k in simp)
  then show ?thesis using e(1) e'(1) by simp
qed

section \<open>The leader's step back\<close>

text \<open>C27: the leader's step back makes progress, however late a refusal comes. In a cluster that has not lapsed, let a refusal of an
  \<open>AppendEntries\<close> request, whose reply does not carry a newer term, reach the leader that sent it while it still leads the term of
  the request. If the next index of the follower is no longer the one the request was sent with, the refusal is ignored. Otherwise the
  next index falls strictly below that value, or sits at its lower bound just above what the follower is known to
  have; it never passes below that bound, and nothing else of the leader's state changes.\<close>

theorem backoff_progress:
  assumes run: "reach (rnet_init n) (rnet_step n enc dec) s" "\<not> lapse s"
    and rep: "(j, a, rep) \<in> append_replies s" "ae_LeaderId a = int i" "\<not> ar_Success rep" "ar_Term rep \<le> ae_Term a"
    and ld: "rstate (node s i) = LEADER" "currentTerm (node s i) = ae_Term a"
  shows "\<exists>nx. handleAppendEntriesResponse now r j a rep (node s i) = Inr ((node s i)\<lparr>nextIndex := (nextIndex (node s i))[j := nx]\<rparr>)
    \<and> (if ae_PrevLogIndex a + 1 \<noteq> nextIndex (node s i) ! j then nx = nextIndex (node s i) ! j
       else nx \<le> max (nextIndex (node s i) ! j - 1) (max (matchIndex (node s i) ! j + 1) 1) \<and> max (matchIndex (node s i) ! j + 1) 1 \<le> nx)"
proof -
  obtain A where A: "sim n s A" using net_refines [OF run] by blast
  let ?L = "node s i"
  note ij = done_arrives(1-3) [OF A rep(1,2)]
  note sh = sim_shape [OF A ij(1)]
  note slot = leader_slotD(1,2) [OF node_simD(1) [OF simD(5) [OF A ij(1)]] ld(1), of j]
  have len: "j < length (matchIndex ?L)" "j < length (nextIndex ?L)" using slot sh ij by auto
  note b = refused_backoff [OF A rep ld]
  have h: "handleAppendEntriesResponse now r j a rep ?L = (if ae_PrevLogIndex a + 1 \<noteq> nextIndex ?L ! j then Inr ?L
      else Inr (?L\<lparr>nextIndex := (nextIndex ?L)[j := max (max (backoff ?L rep) (matchIndex ?L ! j + 1)) 1]\<rparr>))"
    using rep(3,4) ld len by (simp add: handleAppendEntriesResponse_def handle_conflict_def slice_get_in)
  show ?thesis
  proof (cases "ae_PrevLogIndex a + 1 = nextIndex ?L ! j")
    case True
    then show ?thesis using h b by (intro exI [of _ "max (max (backoff ?L rep) (matchIndex ?L ! j + 1)) 1"]) auto
  next
    case False
    then show ?thesis using h by (intro exI [of _ "nextIndex ?L ! j"]) simp
  qed
qed

section \<open>No panic\<close>

text \<open>What may happen to server \<open>i\<close> in a state of the cluster: the arrival of a request that was sent to it or of an
  answer to a request of its own, a delivery of the applier, and the operations of the server itself.\<close>

fun net_event :: "nat \<Rightarrow> 'c net \<Rightarrow> nat \<Rightarrow> 'c event \<Rightarrow> bool" where
  "net_event n s i (EvRequestVote now r a) \<longleftrightarrow> a \<in> requests (base s)"
| "net_event n s i (EvAppendEntries now r a) \<longleftrightarrow> (i, a) \<in> appends s"
| "net_event n s i (EvInstallBegin b) \<longleftrightarrow> (i, b) \<in> installs s"
| "net_event n s i (EvInstallEnd b) \<longleftrightarrow> (i, b) \<in> installs s"
| "net_event n s i (EvSnapshot k d) \<longleftrightarrow> k \<le> commitIndex (node s i)"
| "net_event n s i (EvReplicate now j) \<longleftrightarrow> j < n \<and> j \<noteq> i"
| "net_event n s i (EvAppendDone now r j a sq res) \<longleftrightarrow> j < n \<and> j \<noteq> i \<and>
     (case res of None \<Rightarrow> True | Some rep \<Rightarrow> (j, a, rep) \<in> append_replies s \<and> ae_LeaderId a = int i)"
| "net_event n s i (EvSnapshotDone now r j b res) \<longleftrightarrow> j < n \<and> j \<noteq> i"
| "net_event n s i (EvApplied hi) \<longleftrightarrow> (case batch s i of None \<Rightarrow> False | Some (lo, h, es) \<Rightarrow> h = hi)"
| "net_event n s i _ \<longleftrightarrow> True"

lemma net_event_ok:
  assumes sm: "sim n s A" and i: "i < n" and ev: "net_event n s i ev" and on: "\<And>b. ev = EvInstallEnd b \<Longrightarrow> \<not> off_term (node s i) b"
  shows "event_ok ev (node s i)"
proof (cases ev)
  case (EvAppendEntries now r a)
  then show ?thesis using append_arrives(3) [OF sm] ev by simp
next
  case (EvInstallEnd b)
  then show ?thesis using install_arrives [OF sm, of i b] ev on by (cases "snapshotIndex (node s i) < is_LastIncludedIndex b") (auto simp: off_term_def install_ok_def)
next
  case (EvAppendDone now r j a sq res)
  then show ?thesis using done_arrives(6) [OF sm] ev sim_shape [OF sm i] by (cases res) auto
next
  case (EvApplied hi)
  then show ?thesis using simD(6) [OF sm i] ev by (auto simp: batch_ok_def split: option.splits)
qed (use ev sim_shape [OF sm i] in auto)

lemma InstallSnapshot_end_total: "\<exists>rf'. InstallSnapshot_end rf b = Inr rf'"
  by (auto simp: InstallSnapshot_end_def Let_def slice_get_in slice_from_in idx_ok_def)

text \<open>C11: no server panics while the cluster keeps to the protocol: in a state reached without a lapse, every operation that the
  messages sent so far, the applier or the service can start on a server returns, and so does the applier's read of the
  committed entries. Every such operation leaves the server in a state that satisfies the peer's invariant, with one
  exception: the end of an \<open>InstallSnapshot\<close> of a newer term, or on a candidate, returns too but may break the invariant; it
  sets \<open>lapse\<close>, and after it a leader can panic (\<open>stale_leader_panics\<close>).\<close>

theorem cluster_never_panics:
  assumes run: "reach (rnet_init n) (rnet_step n enc dec) s" "\<not> lapse s" and i: "i < n" and ev: "net_event n s i ev"
  shows "(\<exists>rf'. peer_step ev (node s i) = Inr rf' \<and> (peer_inv rf' \<or> (\<exists>b. ev = EvInstallEnd b \<and> off_term (node s i) b)))
    \<and> (\<exists>b. applier_take (node s i) = Inr b)"
proof -
  obtain A where A: "sim n s A" using net_refines [OF run] by blast
  note p = node_simD(1) [OF simD(5) [OF A i]]
  have "\<exists>b. applier_take (node s i) = Inr b"
    using applier_take_result [OF p] by (cases "lastApplied (node s i) < commitIndex (node s i)") (auto simp: applier_take_def)
  moreover have "\<exists>rf'. peer_step ev (node s i) = Inr rf' \<and> (peer_inv rf' \<or> (\<exists>b. ev = EvInstallEnd b \<and> off_term (node s i) b))"
  proof (cases "\<exists>b. ev = EvInstallEnd b \<and> off_term (node s i) b")
    case True
    then show ?thesis using InstallSnapshot_end_total [of "node s i"] by auto
  next
    case False
    then show ?thesis using peer_step_inv [OF p net_event_ok [OF A i ev]] by blast
  qed
  ultimately show ?thesis by blast
qed

section \<open>A run\<close>

text \<open>Three servers: server 0 wins the election of term 1 with the vote of server 1, gets the command 42, replicates
  it to server 1, commits and delivers it; the next request tells server 1, which delivers it too.\<close>

definition run_cand :: "nat Raft" where "run_cand = fst (projr (ticker 300000000 7 (demo_fresh\<lparr>me := 0\<rparr>)))"
definition run_voter :: "nat Raft" where "run_voter = fst (projr (RequestVote 0 0 (demo_fresh\<lparr>me := 1\<rparr>) demo_vote))"
definition run_lead1 :: "nat Raft" where "run_lead1 = fst (Start 42 (becomeLeader run_cand))"
definition run_lead2 :: "nat Raft" where "run_lead2 = fst (projr (replicator_send 0 1 run_lead1))"
definition run_app1 :: "nat AppendEntriesArgs" where
  "run_app1 = \<lparr>ae_Term = 1, ae_LeaderId = 0, ae_PrevLogIndex = 0, ae_PrevLogTerm = 0, ae_Entries = [\<lparr>ed_Term = 1, ed_Command = Some 42\<rparr>], ae_LeaderCommit = 0\<rparr>"
definition run_fol1 :: "nat Raft" where "run_fol1 = fst (projr (AppendEntries 0 0 run_voter run_app1))"
definition run_rep1 :: AppendEntriesReply where "run_rep1 = snd (projr (AppendEntries 0 0 run_voter run_app1))"
definition run_lead3 :: "nat Raft" where "run_lead3 = projr (sendAndHandle 0 0 1 run_app1 1 (Some run_rep1) run_lead2)"
definition run_entry :: "nat EntryData" where "run_entry = \<lparr>ed_Term = 1, ed_Command = Some 42\<rparr>"
definition run_lead4 :: "nat Raft" where "run_lead4 = applier_send 1 run_entry run_lead3"
definition run_lead5 :: "nat Raft" where "run_lead5 = fst (projr (replicator_send 200000000 1 run_lead4))"
definition run_app2 :: "nat AppendEntriesArgs" where
  "run_app2 = \<lparr>ae_Term = 1, ae_LeaderId = 0, ae_PrevLogIndex = 1, ae_PrevLogTerm = 1, ae_Entries = [], ae_LeaderCommit = 1\<rparr>"
definition run_fol2 :: "nat Raft" where "run_fol2 = fst (projr (AppendEntries 0 0 run_fol1 run_app2))"
definition run_rep2 :: AppendEntriesReply where "run_rep2 = snd (projr (AppendEntries 0 0 run_fol1 run_app2))"
definition run_fol3 :: "nat Raft" where "run_fol3 = applier_send 1 run_entry run_fol2"

lemmas run_defs = run_cand_def run_voter_def run_lead1_def run_lead2_def run_app1_def run_fol1_def run_rep1_def run_lead3_def
  run_entry_def run_lead4_def run_lead5_def run_app2_def run_fol2_def run_rep2_def run_fol3_def

lemma run_ops:
  "ticker 300000000 7 (demo_fresh\<lparr>me := 0\<rparr>) = Inr (run_cand, Some demo_vote)"
  "RequestVote 0 0 (demo_fresh\<lparr>me := 1\<rparr>) demo_vote = Inr (run_voter, \<lparr>vr_Term = 1, vr_VoteGranted = True\<rparr>)"
  "handleVoteReply 0 0 demo_vote \<lparr>vr_Term = 1, vr_VoteGranted = True\<rparr> 1 run_cand = (becomeLeader run_cand, 2)"
  by code_simp+

lemma run_ops2:
  "replicator_send 0 1 run_lead1 = Inr (run_lead2, Some (SendAppend run_app1 1))"
  "AppendEntries 0 0 run_voter run_app1 = Inr (run_fol1, run_rep1)"
  "sendAndHandle 0 0 1 run_app1 1 (Some run_rep1) run_lead2 = Inr run_lead3"
  by code_simp+

lemma run_ops3:
  "applier_take run_lead3 = Inr (Some (1, 1, [run_entry]))"
  "replicator_send 200000000 1 run_lead4 = Inr (run_lead5, Some (SendAppend run_app2 2))"
  "AppendEntries 0 0 run_fol1 run_app2 = Inr (run_fol2, run_rep2)"
  "applier_take run_fol2 = Inr (Some (1, 1, [run_entry]))"
  by code_simp+

lemma run_end:
  "entry_at run_lead5 1 = Some run_entry" "entry_at run_fol3 1 = Some run_entry" "rstate run_lead5 = LEADER" "currentTerm run_lead5 = 1"
  "currentTerm run_fol3 = 1" "snapshotIndex run_lead5 = 0" "snapshotIndex run_fol3 = 0" "commitIndex run_fol3 = 1"
  by code_simp+

definition run_net0 :: "nat net" where
  "run_net0 = \<lparr>base = demo_cluster, appends = {}, append_replies = {}, installs = {}, batch = (\<lambda>_. None), delivered = {},
     disk = (\<lambda>_. MakePersister), saving = (\<lambda>_. None), saved = (\<lambda>_. None), lapse = False\<rparr>"

lemma run_net0_init: "rnet_init 3 run_net0"
proof -
  have "Make (\<lambda>_. None) 0 0 3 i MakePersister = Inr (demo_fresh\<lparr>me := i\<rparr>)" if "i < 3" for i
    using that by (auto simp: Make_def readPersist_def MakePersister_def ReadRaftState_def ReadSnapshot_def resetElection_def
      demo_fresh_def absIdx_def Let_def less_Suc_eq numeral_3_eq_3)
  moreover have "ReadRaftState MakePersister = []" by (simp add: MakePersister_def ReadRaftState_def)
  ultimately have "\<forall>i < 3. ReadRaftState MakePersister = [] \<and> (\<exists>dec now r. Make dec now r 3 i MakePersister = Inr (demo_fresh\<lparr>me := i\<rparr> :: nat Raft))" by blast
  then show ?thesis using demo_cluster_init by (simp add: rnet_init_def run_net0_def) (simp add: demo_cluster_def)
qed

text \<open>The run up to the election, up to the commit, and up to the second delivery.\<close>

lemma reach_vote:
  assumes "reach (rnet_init n) (rnet_step n enc dec) (s\<lparr>base := b\<rparr>)" "vote_step n b b'"
  shows "reach (rnet_init n) (rnet_step n enc dec) (s\<lparr>base := b'\<rparr>)"
  using reach.reach_step [OF assms(1), of "s\<lparr>base := b'\<rparr>"] rnet_step.vote [of n "s\<lparr>base := b\<rparr>" b' enc dec] assms(2) by simp

lemma demo_vote_fields: "rv_Term demo_vote = 1" "rv_CandidateId demo_vote = 0"
  by (simp_all add: demo_vote_def)

lemma run_elects:
  "\<exists>s :: nat net. reach (rnet_init 3) (rnet_step 3 demo_enc demo_dec) s \<and> \<not> lapse s \<and> node s 0 = becomeLeader run_cand \<and> node s 1 = run_voter \<and> node s 2 = demo_fresh\<lparr>me := 2\<rparr>
     \<and> handled (base s) = {(1, 0, 1)} \<and> batch s = (\<lambda>_. None)"
proof -
  let ?R = "reach (rnet_init 3) (rnet_step 3 demo_enc demo_dec) :: nat net \<Rightarrow> bool" and ?yes = "\<lparr>vr_Term = 1, vr_VoteGranted = True\<rparr>"
  let ?b = "demo_cluster"
  have n0: "nodes ?b i = demo_fresh\<lparr>me := i\<rparr>" "requests ?b = {}" "handled ?b = {}" for i
    by (simp_all add: demo_cluster_def)
  have "run_net0\<lparr>base := ?b\<rparr> = run_net0" by (simp add: run_net0_def)
  then have r0: "?R (run_net0\<lparr>base := ?b\<rparr>)" using reach.reach_init [where init = "rnet_init 3", OF run_net0_init] by simp
  define b1 where "b1 = ?b\<lparr>nodes := (nodes ?b)(0 := run_cand), requests := insert demo_vote (requests ?b),
      votes := (votes ?b)(0 := (votes ?b 0)(rv_Term demo_vote := 1))\<rparr>"
  have b1: "nodes b1 0 = run_cand" "nodes b1 1 = demo_fresh\<lparr>me := 1\<rparr>" "demo_vote \<in> requests b1" "handled b1 = {}" "votes b1 0 1 = 1"
    by (simp_all add: b1_def n0 demo_vote_fields)
  have t: "ticker 300000000 7 (nodes ?b 0) = Inr (run_cand, Some demo_vote)" by (simp only: n0 run_ops)
  have "vote_step 3 ?b b1" unfolding b1_def by (rule vote_step.elect [OF _ t]) simp
  note r1 = reach_vote [OF r0 this]
  define b2 where "b2 = b1\<lparr>nodes := (nodes b1)(1 := run_voter), replies := insert (1, demo_vote, ?yes) (replies b1)\<rparr>"
  have b2: "nodes b2 0 = run_cand" "nodes b2 1 = run_voter" "(1, demo_vote, ?yes) \<in> replies b2" "handled b2 = {}" "votes b2 0 1 = 1"
    using b1 by (simp_all add: b2_def)
  have t: "RequestVote 0 0 (nodes b1 1) demo_vote = Inr (run_voter, ?yes)" by (simp only: b1 run_ops)
  have "vote_step 3 b1 b2" unfolding b2_def by (rule vote_step.request [OF _ b1(3) _ t]) (simp_all add: demo_vote_fields)
  note r2 = reach_vote [OF r1 this]
  define b3 where "b3 = b2\<lparr>nodes := (nodes b2)(0 := becomeLeader run_cand),
      votes := (votes b2)(0 := (votes b2 0)(rv_Term demo_vote := 2)), handled := insert (1, 0, rv_Term demo_vote) (handled b2)\<rparr>"
  have t: "handleVoteReply 0 0 demo_vote ?yes (votes b2 0 (rv_Term demo_vote)) (nodes b2 0) = (becomeLeader run_cand, 2)"
    by (simp only: b2 run_ops demo_vote_fields)
  have "vote_step 3 b2 b3" unfolding b3_def by (rule vote_step.reply [OF b2(3) _ _ t]) (simp_all add: demo_vote_fields b2)
  note r3 = reach_vote [OF r2 this]
  show ?thesis using r3 b2(2,4) n0(1) by (intro exI [of _ "run_net0\<lparr>base := b3\<rparr>"]) (simp add: b3_def b2_def b1_def run_net0_def demo_vote_fields)
qed

lemma run_commits:
  "\<exists>s :: nat net. reach (rnet_init 3) (rnet_step 3 demo_enc demo_dec) s \<and> \<not> lapse s \<and> node s 0 = run_lead4 \<and> node s 1 = run_fol1 \<and> node s 2 = demo_fresh\<lparr>me := 2\<rparr>
     \<and> handled (base s) = {(1, 0, 1)} \<and> batch s 1 = None \<and> (1, run_app1) \<in> appends s \<and> (0, command_msg 1 run_entry) \<in> delivered s"
proof -
  let ?R = "reach (rnet_init 3) (rnet_step 3 demo_enc demo_dec) :: nat net \<Rightarrow> bool"
  obtain s0 :: "nat net" where r0: "?R s0" and l0: "\<not> lapse s0" and s0: "node s0 0 = becomeLeader run_cand" "node s0 1 = run_voter" "batch s0 = (\<lambda>_. None)"
    and k0: "node s0 2 = demo_fresh\<lparr>me := 2\<rparr>" "handled (base s0) = {(1, 0, 1)}" using run_elects by blast
  have t: "Start 42 (node s0 0) = (run_lead1, snd (Start 42 (node s0 0)))" by (simp add: s0 run_lead1_def)
  define s1 where "s1 = set_node 0 run_lead1 s0"
  have s1: "node s1 0 = run_lead1" "node s1 1 = run_voter" "batch s1 = (\<lambda>_. None)" using s0 by (simp_all add: s1_def)
  have r1: "?R s1" unfolding s1_def by (rule reach.reach_step [OF r0], rule rnet_step.start [OF _ t]) simp
  have t: "replicator_send 0 1 (node s1 0) = Inr (run_lead2, Some (SendAppend run_app1 1))" by (simp only: s1 run_ops2)
  define s2 where "s2 = (set_node 0 run_lead2 s1)\<lparr>appends := insert (1, run_app1) (appends s1)\<rparr>"
  have s2: "node s2 0 = run_lead2" "node s2 1 = run_voter" "batch s2 = (\<lambda>_. None)" "(1, run_app1) \<in> appends s2" using s1 by (simp_all add: s2_def)
  have r2: "?R s2" unfolding s2_def by (rule reach.reach_step [OF r1], rule rnet_step.send_append [OF _ _ _ t]) simp_all
  have t: "AppendEntries 0 0 (node s2 1) run_app1 = Inr (run_fol1, run_rep1)" by (simp only: s2 run_ops2)
  define s3 where "s3 = (set_node 1 run_fol1 s2)\<lparr>append_replies := insert (1, run_app1, run_rep1) (append_replies s2)\<rparr>"
  have s3: "node s3 0 = run_lead2" "node s3 1 = run_fol1" "batch s3 = (\<lambda>_. None)" "(1, run_app1) \<in> appends s3"
    "(1, run_app1, run_rep1) \<in> append_replies s3" using s2 by (simp_all add: s3_def)
  have r3: "?R s3" unfolding s3_def by (rule reach.reach_step [OF r2], rule rnet_step.append [OF s2(4) t])
  have t: "sendAndHandle 0 0 1 run_app1 1 (Some run_rep1) (node s3 0) = Inr run_lead3" by (simp only: s3 run_ops2)
  have ld: "ae_LeaderId run_app1 = int 0" by (simp add: run_app1_def)
  define s4 where "s4 = set_node 0 run_lead3 s3"
  have s4: "node s4 0 = run_lead3" "node s4 1 = run_fol1" "batch s4 = (\<lambda>_. None)" "(1, run_app1) \<in> appends s4" using s3 by (simp_all add: s4_def)
  have r4: "?R s4" unfolding s4_def by (rule reach.reach_step [OF r3], rule rnet_step.append_done [OF s3(5) ld t])
  have t: "applier_take (node s4 0) = Inr (Some (1, 1, [run_entry]))" by (simp only: s4 run_ops3)
  define s5 where "s5 = s4\<lparr>batch := (batch s4)(0 := Some (1, 1, [run_entry]))\<rparr>"
  have s5: "node s5 0 = run_lead3" "node s5 1 = run_fol1" "batch s5 0 = Some (1, 1, [run_entry])" "batch s5 1 = None" "(1, run_app1) \<in> appends s5"
    using s4 by (simp_all add: s5_def)
  have r5: "?R s5" unfolding s5_def by (rule reach.reach_step [OF r4], rule rnet_step.take_batch [OF _ _ t]) (use s4 in simp_all)
  define s6 where "s6 = (set_node 0 (applier_send 1 run_entry (node s5 0)) s5)
          \<lparr>batch := (batch s5)(0 := Some (1 + 1, 1, [])), delivered := insert (0, command_msg 1 run_entry) (delivered s5)\<rparr>"
  have r6: "?R s6" unfolding s6_def by (rule reach.reach_step [OF r5], rule rnet_step.deliver [OF _ s5(3)]) simp
  have "\<not> lapse s6" using l0 by (simp add: s6_def s5_def s4_def s3_def s2_def s1_def)
  moreover have "node s6 2 = demo_fresh\<lparr>me := 2\<rparr>" "handled (base s6) = {(1, 0, 1)}" using k0 by (simp_all add: s6_def s5_def s4_def s3_def s2_def s1_def)
  moreover have "node s6 0 = run_lead4" "node s6 1 = run_fol1" "batch s6 1 = None" "(1, run_app1) \<in> appends s6" "(0, command_msg 1 run_entry) \<in> delivered s6"
    using s5 by (simp_all add: s6_def run_lead4_def)
  ultimately show ?thesis using r6 by blast
qed

lemma run_delivers:
  "\<exists>s :: nat net. reach (rnet_init 3) (rnet_step 3 demo_enc demo_dec) s \<and> \<not> lapse s \<and> node s 0 = run_lead5 \<and> node s 1 = run_fol3
     \<and> (1, run_app1) \<in> appends s \<and> (0, command_msg 1 run_entry) \<in> delivered s \<and> (1, command_msg 1 run_entry) \<in> delivered s"
proof -
  let ?R = "reach (rnet_init 3) (rnet_step 3 demo_enc demo_dec) :: nat net \<Rightarrow> bool" and ?m = "command_msg 1 run_entry"
  obtain s0 :: "nat net" where r0: "?R s0" and l0: "\<not> lapse s0" and s0: "node s0 0 = run_lead4" "node s0 1 = run_fol1" "batch s0 1 = None"
    "(1, run_app1) \<in> appends s0" "(0, ?m) \<in> delivered s0" using run_commits by blast
  have t: "replicator_send 200000000 1 (node s0 0) = Inr (run_lead5, Some (SendAppend run_app2 2))" by (simp only: s0 run_ops3)
  define s1 where "s1 = (set_node 0 run_lead5 s0)\<lparr>appends := insert (1, run_app2) (appends s0)\<rparr>"
  have s1: "node s1 0 = run_lead5" "node s1 1 = run_fol1" "batch s1 1 = None" "(1, run_app1) \<in> appends s1" "(1, run_app2) \<in> appends s1"
    "(0, ?m) \<in> delivered s1" using s0 by (simp_all add: s1_def)
  have r1: "?R s1" unfolding s1_def by (rule reach.reach_step [OF r0], rule rnet_step.send_append [OF _ _ _ t]) simp_all
  have t: "AppendEntries 0 0 (node s1 1) run_app2 = Inr (run_fol2, run_rep2)" by (simp only: s1 run_ops3)
  define s2 where "s2 = (set_node 1 run_fol2 s1)\<lparr>append_replies := insert (1, run_app2, run_rep2) (append_replies s1)\<rparr>"
  have s2: "node s2 0 = run_lead5" "node s2 1 = run_fol2" "batch s2 1 = None" "(1, run_app1) \<in> appends s2" "(0, ?m) \<in> delivered s2"
    using s1 by (simp_all add: s2_def)
  have r2: "?R s2" unfolding s2_def by (rule reach.reach_step [OF r1], rule rnet_step.append [OF s1(5) t])
  have t: "applier_take (node s2 1) = Inr (Some (1, 1, [run_entry]))" by (simp only: s2 run_ops3)
  define s3 where "s3 = s2\<lparr>batch := (batch s2)(1 := Some (1, 1, [run_entry]))\<rparr>"
  have s3: "node s3 0 = run_lead5" "node s3 1 = run_fol2" "batch s3 1 = Some (1, 1, [run_entry])" "(1, run_app1) \<in> appends s3" "(0, ?m) \<in> delivered s3"
    using s2 by (simp_all add: s3_def)
  have r3: "?R s3" unfolding s3_def by (rule reach.reach_step [OF r2], rule rnet_step.take_batch [OF _ _ t]) (use s2 in simp_all)
  define s4 where "s4 = (set_node 1 (applier_send 1 run_entry (node s3 1)) s3)
          \<lparr>batch := (batch s3)(1 := Some (1 + 1, 1, [])), delivered := insert (1, ?m) (delivered s3)\<rparr>"
  have r4: "?R s4" unfolding s4_def by (rule reach.reach_step [OF r3], rule rnet_step.deliver [OF _ s3(3)]) simp
  have "\<not> lapse s4" using l0 by (simp add: s4_def s3_def s2_def s1_def)
  moreover have "node s4 0 = run_lead5" "node s4 1 = run_fol3" "(1, run_app1) \<in> appends s4" "(0, ?m) \<in> delivered s4" "(1, ?m) \<in> delivered s4"
    using s3 by (simp_all add: s4_def run_fol3_def)
  ultimately show ?thesis using r4 by blast
qed

text \<open>Another end of the run: server 1 wins the election of term 2 with the vote of server 2, which has no entries and refuses the
  first request.\<close>

definition run_cand2 :: "nat Raft" where "run_cand2 = fst (projr (ticker 900000000 7 run_fol1))"
definition run_vote2 :: RequestVoteArgs where "run_vote2 = \<lparr>rv_Term = 2, rv_CandidateId = 1, rv_LastLogIndex = 1, rv_LastLogTerm = 1\<rparr>"
definition run_voter2 :: "nat Raft" where "run_voter2 = fst (projr (RequestVote 0 0 (demo_fresh\<lparr>me := 2\<rparr>) run_vote2))"
definition run_lead6 :: "nat Raft" where "run_lead6 = fst (projr (replicator_send 0 2 (becomeLeader run_cand2)))"
definition run_app3 :: "nat AppendEntriesArgs" where
  "run_app3 = \<lparr>ae_Term = 2, ae_LeaderId = 1, ae_PrevLogIndex = 1, ae_PrevLogTerm = 1, ae_Entries = [], ae_LeaderCommit = 0\<rparr>"
definition run_fol4 :: "nat Raft" where "run_fol4 = fst (projr (AppendEntries 0 0 run_voter2 run_app3))"
definition run_rep3 :: AppendEntriesReply where "run_rep3 = snd (projr (AppendEntries 0 0 run_voter2 run_app3))"

lemma run_ops4:
  "ticker 900000000 7 run_fol1 = Inr (run_cand2, Some run_vote2)"
  "RequestVote 0 0 (demo_fresh\<lparr>me := 2\<rparr>) run_vote2 = Inr (run_voter2, \<lparr>vr_Term = 2, vr_VoteGranted = True\<rparr>)"
  "handleVoteReply 0 0 run_vote2 \<lparr>vr_Term = 2, vr_VoteGranted = True\<rparr> 1 run_cand2 = (becomeLeader run_cand2, 2)"
  "replicator_send 0 2 (becomeLeader run_cand2) = Inr (run_lead6, Some (SendAppend run_app3 1))"
  "AppendEntries 0 0 run_voter2 run_app3 = Inr (run_fol4, run_rep3)"
  by code_simp+

lemma run_lead6_facts:
  "rstate run_lead6 = LEADER" "currentTerm run_lead6 = 2" "nextIndex run_lead6 ! 2 = 2" "matchIndex run_lead6 ! 2 = 0"
  "\<not> ar_Success run_rep3" "ar_Term run_rep3 = 2"
  by code_simp+

lemma run_refuses:
  "\<exists>s :: nat net. reach (rnet_init 3) (rnet_step 3 demo_enc demo_dec) s \<and> \<not> lapse s \<and> node s 1 = run_lead6 \<and> (2, run_app3, run_rep3) \<in> append_replies s"
proof -
  let ?R = "reach (rnet_init 3) (rnet_step 3 demo_enc demo_dec) :: nat net \<Rightarrow> bool" and ?yes = "\<lparr>vr_Term = 2, vr_VoteGranted = True\<rparr>"
  obtain s0 :: "nat net" where "?R s0" and l0: "\<not> lapse s0" and s0: "node s0 1 = run_fol1" "node s0 2 = demo_fresh\<lparr>me := 2\<rparr>"
    "handled (base s0) = {(1, 0, 1)}" using run_commits by blast
  then have r0: "?R (s0\<lparr>base := base s0\<rparr>)" by simp
  have v: "rv_Term run_vote2 = 2" "rv_CandidateId run_vote2 = 1" by (simp_all add: run_vote2_def)
  define b1 where "b1 = (base s0)\<lparr>nodes := (nodes (base s0))(1 := run_cand2), requests := insert run_vote2 (requests (base s0)),
      votes := (votes (base s0))(1 := (votes (base s0) 1)(rv_Term run_vote2 := 1))\<rparr>"
  have b1: "nodes b1 1 = run_cand2" "nodes b1 2 = demo_fresh\<lparr>me := 2\<rparr>" "run_vote2 \<in> requests b1" "handled b1 = {(1, 0, 1)}" "votes b1 1 2 = 1"
    using s0 by (simp_all add: b1_def v)
  have t: "ticker 900000000 7 (nodes (base s0) 1) = Inr (run_cand2, Some run_vote2)" by (simp only: s0 run_ops4)
  have "vote_step 3 (base s0) b1" unfolding b1_def by (rule vote_step.elect [OF _ t]) simp
  note r1 = reach_vote [OF r0 this]
  define b2 where "b2 = b1\<lparr>nodes := (nodes b1)(2 := run_voter2), replies := insert (2, run_vote2, ?yes) (replies b1)\<rparr>"
  have b2: "nodes b2 1 = run_cand2" "nodes b2 2 = run_voter2" "(2, run_vote2, ?yes) \<in> replies b2" "handled b2 = {(1, 0, 1)}" "votes b2 1 2 = 1"
    using b1 by (simp_all add: b2_def)
  have t: "RequestVote 0 0 (nodes b1 2) run_vote2 = Inr (run_voter2, ?yes)" by (simp only: b1 run_ops4)
  have "vote_step 3 b1 b2" unfolding b2_def by (rule vote_step.request [OF _ b1(3) _ t]) (simp_all add: v)
  note r2 = reach_vote [OF r1 this]
  define b3 where "b3 = b2\<lparr>nodes := (nodes b2)(1 := becomeLeader run_cand2),
      votes := (votes b2)(1 := (votes b2 1)(rv_Term run_vote2 := 2)), handled := insert (2, 1, rv_Term run_vote2) (handled b2)\<rparr>"
  have t: "handleVoteReply 0 0 run_vote2 ?yes (votes b2 1 (rv_Term run_vote2)) (nodes b2 1) = (becomeLeader run_cand2, 2)"
    by (simp only: b2 run_ops4 v)
  have "vote_step 3 b2 b3" unfolding b3_def by (rule vote_step.reply [OF b2(3) _ _ t]) (simp_all add: v b2)
  note r3 = reach_vote [OF r2 this]
  define s1 where "s1 = s0\<lparr>base := b3\<rparr>"
  have s1: "node s1 1 = becomeLeader run_cand2" "node s1 2 = run_voter2" using b2 by (simp_all add: s1_def b3_def)
  have t: "replicator_send 0 2 (node s1 1) = Inr (run_lead6, Some (SendAppend run_app3 1))" by (simp only: s1 run_ops4)
  define s2 where "s2 = (set_node 1 run_lead6 s1)\<lparr>appends := insert (2, run_app3) (appends s1)\<rparr>"
  have s2: "node s2 1 = run_lead6" "node s2 2 = run_voter2" "(2, run_app3) \<in> appends s2" using s1 by (simp_all add: s2_def)
  have r4: "?R s2" unfolding s2_def by (rule reach.reach_step [OF r3 [folded s1_def]], rule rnet_step.send_append [OF _ _ _ t]) simp_all
  have t: "AppendEntries 0 0 (node s2 2) run_app3 = Inr (run_fol4, run_rep3)" by (simp only: s2 run_ops4)
  define s3 where "s3 = (set_node 2 run_fol4 s2)\<lparr>append_replies := insert (2, run_app3, run_rep3) (append_replies s2)\<rparr>"
  have r5: "?R s3" unfolding s3_def by (rule reach.reach_step [OF r4], rule rnet_step.append [OF s2(3) t])
  have "\<not> lapse s3" "node s3 1 = run_lead6" "(2, run_app3, run_rep3) \<in> append_replies s3"
    using l0 s2(1) by (simp_all add: s3_def s2_def s1_def)
  then show ?thesis using r5 by blast
qed

text \<open>The run satisfies the hypotheses of the theorems above.\<close>

theorem raft_refines_spec_witness:
  "\<exists>(s :: nat net) A. reach (spec_init 3) (spec_step 3) A \<and> s_term A 0 = 1 \<and> full_log run_lead5 (s_log A 0) \<and> s_leader A 1 = Some 0"
proof -
  obtain s :: "nat net" where s: "reach (rnet_init 3) (rnet_step 3 demo_enc demo_dec) s" "\<not> lapse s" "node s 0 = run_lead5" using run_delivers by blast
  then show ?thesis using raft_refines_spec [OF s(1,2)] run_end by (auto 0 4)
qed

theorem log_matching_witness:
  "\<exists>s :: nat net. reach (rnet_init 3) (rnet_step 3 demo_enc demo_dec) s \<and> \<not> lapse s \<and> entry_at (node s 0) 1 = entry_at (node s 1) 1 \<and> entry_at (node s 0) 1 \<noteq> None"
proof -
  obtain s :: "nat net" where s: "reach (rnet_init 3) (rnet_step 3 demo_enc demo_dec) s" "\<not> lapse s" "node s 0 = run_lead5" "node s 1 = run_fol3" using run_delivers by blast
  have "entry_at (node s 0) 1 = entry_at (node s 1) 1 \<and> entry_at (node s 0) 1 \<noteq> None"
    by (rule log_matching [OF s(1,2), of 0 1 1 run_entry run_entry 1]) (unfold s(3,4) run_end, simp_all)
  then show ?thesis using s(1,2) by blast
qed

theorem leader_completeness_witness:
  "\<exists>s :: nat net. reach (rnet_init 3) (rnet_step 3 demo_enc demo_dec) s \<and> \<not> lapse s \<and> commitIndex (node s 1) = 1 \<and> 1 \<le> lastIdx (node s 0)
     \<and> entry_at (node s 1) 1 = entry_at (node s 0) 1"
proof -
  obtain s :: "nat net" where s: "reach (rnet_init 3) (rnet_step 3 demo_enc demo_dec) s" "\<not> lapse s" "node s 0 = run_lead5" "node s 1 = run_fol3" using run_delivers by blast
  have "commitIndex (node s 1) \<le> lastIdx (node s 0)
    \<and> (\<forall>q. snapshotIndex (node s 1) < q \<and> snapshotIndex (node s 0) < q \<and> q \<le> commitIndex (node s 1) \<longrightarrow>
         entry_at (node s 1) q = entry_at (node s 0) q \<and> entry_at (node s 1) q \<noteq> None)"
    by (rule leader_completeness [OF s(1,2)]) (unfold s(3,4) run_end, simp_all)
  then show ?thesis using s run_end by (intro exI [of _ s]) simp
qed

theorem state_machine_safety_witness:
  "\<exists>s :: nat net. reach (rnet_init 3) (rnet_step 3 demo_enc demo_dec) s \<and> \<not> lapse s \<and> (0, command_msg 1 run_entry) \<in> delivered s
     \<and> (\<forall>j m. (j, m) \<in> delivered s \<and> am_CommandIndex m = 1 \<longrightarrow> am_Command m = Some 42)"
proof -
  obtain s :: "nat net" where s: "reach (rnet_init 3) (rnet_step 3 demo_enc demo_dec) s" "\<not> lapse s" "(0, command_msg 1 run_entry) \<in> delivered s" using run_delivers by blast
  have "am_Command m = Some 42" if m: "(j, m) \<in> delivered s" "am_CommandIndex m = 1" for j m
    using state_machine_safety [OF s(1,2) m(1) s(3)] m(2) by (simp add: command_msg_def run_entry_def)
  then show ?thesis using s by blast
qed

theorem cluster_never_panics_witness:
  "\<exists>s :: nat net. reach (rnet_init 3) (rnet_step 3 demo_enc demo_dec) s \<and> \<not> lapse s \<and> (\<exists>rf'. peer_step (EvAppendEntries 0 0 run_app1) (node s 1) = Inr rf' \<and> peer_inv rf')"
proof -
  obtain s :: "nat net" where s: "reach (rnet_init 3) (rnet_step 3 demo_enc demo_dec) s" "\<not> lapse s" "(1, run_app1) \<in> appends s" using run_delivers by blast
  have "net_event 3 s 1 (EvAppendEntries 0 0 run_app1)" using s(3) by simp
  then show ?thesis using cluster_never_panics [OF s(1,2), of 1 "EvAppendEntries 0 0 run_app1"] s(1,2) by auto
qed

theorem backoff_progress_witness:
  "\<exists>(s :: nat net) nx. reach (rnet_init 3) (rnet_step 3 demo_enc demo_dec) s \<and> nextIndex (node s 1) ! 2 = 2 \<and> nx = 1
     \<and> handleAppendEntriesResponse 0 0 2 run_app3 run_rep3 (node s 1) = Inr ((node s 1)\<lparr>nextIndex := (nextIndex (node s 1))[2 := nx]\<rparr>)"
proof -
  obtain s :: "nat net" where s: "reach (rnet_init 3) (rnet_step 3 demo_enc demo_dec) s" "\<not> lapse s" "node s 1 = run_lead6"
    "(2, run_app3, run_rep3) \<in> append_replies s" using run_refuses by blast
  have a: "ae_LeaderId run_app3 = int 1" "ae_Term run_app3 = 2" "ae_PrevLogIndex run_app3 = 1" by (simp_all add: run_app3_def)
  have "handleAppendEntriesResponse 0 0 2 run_app3 run_rep3 run_lead6 = Inr (run_lead6\<lparr>nextIndex := (nextIndex run_lead6)[2 := 1]\<rparr>)"
    using backoff_progress [OF s(1,2,4) a(1) run_lead6_facts(5), of 0 0] unfolding s(3) a run_lead6_facts by auto
  then show ?thesis using s(1) run_lead6_facts(3) by (intro exI [of _ s] exI [of _ 1]) (simp only: s(3) simp_thms)
qed

section \<open>A leader that misses a newer term\<close>

lemma lastIdx_snoc: "rlog rf' = rlog rf @ [e] \<Longrightarrow> snapshotIndex rf' = snapshotIndex rf \<Longrightarrow> rlog rf \<noteq> [] \<Longrightarrow>
    lastIdx rf' = lastIdx rf + 1 \<and> entry_at rf' (lastIdx rf') = Some e"
  by (auto simp: idx_defs entry_at_def idx_ok_def nth_append)

lemma Start_leader:
  assumes "rstate rf = LEADER" "rlog rf \<noteq> []" "Start c rf = (rf', out)"
  shows "out = (lastIdx rf + 1, currentTerm rf, True) \<and> entry_at rf' (lastIdx rf + 1) = Some \<lparr>ed_Term = currentTerm rf, ed_Command = Some c\<rparr>"
proof -
  have l: "rlog rf' = rlog rf @ [\<lparr>ed_Term = currentTerm rf, ed_Command = Some c\<rparr>]" "snapshotIndex rf' = snapshotIndex rf"
    "out = (absIdx rf' (loglen rf') - 1, currentTerm rf, True)"
    using assms by (auto simp: Start_def Let_def)
  then show ?thesis using lastIdx_snoc [OF l(1,2) assms(2)] by (auto simp: idx_defs)
qed

text \<open>C24: \<open>InstallSnapshot\<close> does not adopt a higher term. A leader that gets a snapshot from the leader of a later
  term, with another entry than its own at the last index the snapshot covers, cuts its log there but stays leader of its
  old term; the next command it is given gets an index and a term that it gave to another command
  before. In a cluster such a step sets \<open>lapse\<close>.\<close>

theorem stale_leader_reuses_index:
  assumes ld: "rstate rf = LEADER" "currentTerm rf < is_Term b"
    and sn: "snapshotIndex rf < is_LastIncludedIndex b"
    and own: "entry_at rf (is_LastIncludedIndex b) = Some e" "ed_Term e \<noteq> is_LastIncludedTerm b"
      "entry_at rf (is_LastIncludedIndex b + 1) = Some e'" "ed_Term e' = currentTerm rf"
  shows "\<exists>rf1 rf2. InstallSnapshot rf b = Inr (rf1, currentTerm rf) \<and> rstate rf1 = LEADER \<and> currentTerm rf1 = currentTerm rf
    \<and> Start c rf1 = (rf2, is_LastIncludedIndex b + 1, currentTerm rf, True)
    \<and> entry_at rf2 (is_LastIncludedIndex b + 1) = Some \<lparr>ed_Term = ed_Term e', ed_Command = Some c\<rparr>"
proof -
  let ?q = "is_LastIncludedIndex b - snapshotIndex rf"
  obtain rf0 where b: "InstallSnapshot_begin rf b = (rf0, currentTerm rf, True)" "rlog rf0 = rlog rf" "snapshotIndex rf0 = snapshotIndex rf"
    "rstate rf0 = LEADER" "currentTerm rf0 = currentTerm rf"
    using ld sn by (simp add: InstallSnapshot_begin_def)
  have q: "idx_ok (rlog rf) ?q" "rlog rf ! nat ?q = e" using own(1) by (auto simp: entry_at_def relIdx_def split: if_splits)
  then have "?q < loglen rf" by (simp add: idx_ok_def)
  then obtain rf1 where i: "InstallSnapshot_end rf0 b = Inr rf1" "rlog rf1 = [\<lparr>ed_Term = is_LastIncludedTerm b, ed_Command = None\<rparr>]"
    "snapshotIndex rf1 = is_LastIncludedIndex b" "rstate rf1 = LEADER" "currentTerm rf1 = currentTerm rf"
    using b q sn own(2) by (simp add: InstallSnapshot_end_def Let_def slice_get_in)
  obtain rf2 out where s: "Start c rf1 = (rf2, out)" by (cases "Start c rf1")
  have "lastIdx rf1 = is_LastIncludedIndex b" using i by (simp add: idx_defs)
  then have "out = (is_LastIncludedIndex b + 1, currentTerm rf, True)"
    "entry_at rf2 (is_LastIncludedIndex b + 1) = Some \<lparr>ed_Term = ed_Term e', ed_Command = Some c\<rparr>"
    using Start_leader [OF i(4) _ s] i own(4) by simp_all
  then show ?thesis using b i s by (auto simp: InstallSnapshot_def)
qed

text \<open>The leader of term 3 with entries of term 3 at index 4 and 5 gets a snapshot of term 4 up to index 4.\<close>

definition demo_stale :: "nat Raft" where
  "demo_stale = fst (Start 21 demo_leader)"

definition demo_newer :: InstallSnapshotArgs where
  "demo_newer = \<lparr>is_Term = 5, is_LeaderId = 2, is_LastIncludedIndex = 4, is_LastIncludedTerm = 4, is_Data = [9]\<rparr>"

lemma demo_stale_facts:
  "rstate demo_stale = LEADER" "currentTerm demo_stale = 3" "snapshotIndex demo_stale = 0"
  "entry_at demo_stale 4 = Some \<lparr>ed_Term = 3, ed_Command = Some 20\<rparr>" "entry_at demo_stale 5 = Some \<lparr>ed_Term = 3, ed_Command = Some 21\<rparr>"
  by code_simp+

theorem stale_leader_reuses_index_witness:
  "entry_at demo_stale 5 = Some \<lparr>ed_Term = 3, ed_Command = Some 21\<rparr>
    \<and> (\<exists>rf1 rf2. InstallSnapshot demo_stale demo_newer = Inr (rf1, 3) \<and> entry_at rf2 5 = Some \<lparr>ed_Term = 3, ed_Command = Some 22\<rparr>
         \<and> Start 22 rf1 = (rf2, 5, 3, True))"
proof -
  have n: "is_Term demo_newer = 5" "is_LastIncludedIndex demo_newer = 4" "is_LastIncludedTerm demo_newer = 4" by (simp_all add: demo_newer_def)
  show ?thesis
    using stale_leader_reuses_index [where rf = demo_stale and b = demo_newer and c = 22
      and e = "\<lparr>ed_Term = 3, ed_Command = Some 20\<rparr>" and e' = "\<lparr>ed_Term = 3, ed_Command = Some 21\<rparr>"]
    unfolding n demo_stale_facts by (auto simp: demo_stale_facts)
qed

text \<open>Such a leader can also panic: when it has told itself that a follower needs entries after the one that
  follows the snapshot, its replicator slices the shortened log past its end at the next heartbeat.\<close>

theorem stale_leader_panics:
  assumes inv: "peer_inv rf" and ld: "rstate rf = LEADER" "currentTerm rf < is_Term b" and srv: "j < npeers rf" "j \<noteq> me rf"
    and sn: "snapshotIndex rf < is_LastIncludedIndex b"
    and own: "entry_at rf (is_LastIncludedIndex b) = Some e" "ed_Term e \<noteq> is_LastIncludedTerm b"
    and nx: "is_LastIncludedIndex b + 1 < nextIndex rf ! j" and hb: "since now (lastSent rf ! j) \<ge> heartBeatInterval"
  shows "\<exists>rf1 e. InstallSnapshot_end rf b = Inr rf1 \<and> rstate rf1 = LEADER \<and> replicator_send now j rf1 = Inl e"
proof -
  have q: "idx_ok (rlog rf) (is_LastIncludedIndex b - snapshotIndex rf)" "rlog rf ! nat (is_LastIncludedIndex b - snapshotIndex rf) = e"
    using own(1) by (auto simp: entry_at_def relIdx_def split: if_splits)
  then obtain rf1 where i: "InstallSnapshot_end rf b = Inr rf1" "rlog rf1 = [\<lparr>ed_Term = is_LastIncludedTerm b, ed_Command = None\<rparr>]"
    "snapshotIndex rf1 = is_LastIncludedIndex b" "rstate rf1 = LEADER" "nextIndex rf1 = nextIndex rf" "lastSent rf1 = lastSent rf"
    "inFlight rf1 = inFlight rf"
    using ld sn own(2) by (simp add: InstallSnapshot_end_def Let_def slice_get_in idx_ok_def)
  have len: "j < length (nextIndex rf)" "j < length (lastSent rf)" "j < length (inFlight rf)" using inv srv(1) by (auto simp: inv_defs)
  have "replicator_send now j rf1 = Inl (if inFlight rf ! j then IndexOutOfRange else SliceBounds)"
    using i nx hb len by (simp add: replicator_send_def shouldSend_def slice_get_in slice_get_def slice_from_def slice_range_def idx_ok_def relIdx_def rbind_def)
  then show ?thesis using i(1,4) by blast
qed

text \<open>The leader above, which believes that server 1 has everything.\<close>

theorem stale_leader_panics_witness:
  "\<exists>rf1 e. InstallSnapshot_end (demo_stale\<lparr>nextIndex := [5, 6, 5]\<rparr>) demo_newer = Inr rf1 \<and> replicator_send 200000000 1 rf1 = Inl e"
proof -
  let ?rf = "demo_stale\<lparr>nextIndex := [5, 6, 5]\<rparr>"
  have "peer_inv ?rf" using Start_inv [OF demo_leader_inv, of 21]
    by (auto simp: demo_stale_def demo_leader_def Start_def Let_def inv_defs idx_defs less_Suc_eq numeral_3_eq_3)
  moreover have "entry_at ?rf 4 = Some \<lparr>ed_Term = 3, ed_Command = Some 20\<rparr>" "rstate ?rf = LEADER" "currentTerm ?rf = 3" "snapshotIndex ?rf = 0"
    "npeers ?rf = 3" "me ?rf = 0" "nextIndex ?rf ! 1 = 6" "since 200000000 (lastSent ?rf ! 1) \<ge> heartBeatInterval" by code_simp+
  moreover have "is_Term demo_newer = 5" "is_LastIncludedIndex demo_newer = 4" "is_LastIncludedTerm demo_newer = 4" by (simp_all add: demo_newer_def)
  ultimately show ?thesis using stale_leader_panics [of ?rf demo_newer 1 _ 200000000] by auto
qed

section \<open>A follower counted for more than it was sent\<close>

text \<open>The leader believes the follower has entries it does not have, and would have to go below them.\<close>

definition overcounted :: "'c Raft \<Rightarrow> nat \<Rightarrow> 'c Raft \<Rightarrow> bool" where
  "overcounted L j F \<longleftrightarrow> rstate L = LEADER \<and> currentTerm F \<le> currentTerm L \<and> snapshotIndex L \<le> matchIndex L ! j
     \<and> snapshotIndex L < nextIndex L ! j \<and> lastIdx F < matchIndex L ! j \<and> lastIdx F + 1 < nextIndex L ! j"

lemma overcounted_round:
  assumes inv: "peer_inv L" "peer_inv F" and srv: "j < npeers L" "j \<noteq> me L" and oc: "overcounted L j F"
    and send: "replicator_send now j L = Inr (L1, Some w)"
  shows "\<exists>a sq F' rep L2. w = SendAppend a sq \<and> AppendEntries now2 r2 F a = Inr (F', rep) \<and> \<not> ar_Success rep \<and> rlog F' = rlog F
    \<and> handleAppendEntriesResponse now3 r3 j a rep L1 = Inr L2 \<and> overcounted L2 j F'"
proof -
  have o: "rstate L = LEADER" "currentTerm F \<le> currentTerm L" "snapshotIndex L \<le> matchIndex L ! j" "snapshotIndex L < nextIndex L ! j"
    "lastIdx F < matchIndex L ! j" "lastIdx F + 1 < nextIndex L ! j" using oc by (auto simp: overcounted_def)
  note slot = leader_slotD(1,2) [OF inv(1) o(1) srv]
  obtain a sq where w: "w = SendAppend a sq"
    using send o(4) slot by (auto simp: replicator_send_def Let_def rbind_eq_Inr slice_get_in split: if_splits)
  note sn = replicator_send_append [OF inv(1) srv send [unfolded w]]
  have l1: "currentTerm L1 = currentTerm L" "rstate L1 = LEADER"
    using send o(1) by (auto simp: replicator_send_def Let_def rbind_eq_Inr split: if_splits)
  have past: "lastIdx F < ae_PrevLogIndex a" "\<not> ae_Term a < currentTerm F" using sn(3,8) o by auto
  have nh: "\<not> (ae_PrevLogIndex a < snapshotIndex F \<or> holds_prev F a)"
    using past(1) inv(2) by (auto simp: holds_prev_def entry_at_def idx_ok_def inv_defs idx_defs split: if_splits)
  obtain F' rep where F': "AppendEntries now2 r2 F a = Inr (F', rep)" "\<not> ar_Success rep" "ar_Term rep = ae_Term a" "rlog F' = rlog F"
    "currentTerm F' = ae_Term a"
    using AppendEntries_result [OF inv(2), of now2 r2 a] past(2) nh by auto
  have sF: "snapshotIndex F' = snapshotIndex F"
    using F'(1) past by (auto simp: AppendEntries_current trim_args_def append_checked_missing Let_def lastIdx_def absIdx_def split: if_splits)
  let ?L2 = "L1\<lparr>nextIndex := (nextIndex L1)[j := max (max (backoff L1 rep) (matchIndex L1 ! j + 1)) 1]\<rparr>"
  have h: "handleAppendEntriesResponse now3 r3 j a rep L1 = Inr ?L2"
    using F'(2,3) sn(3,6,7,8) l1 slot by (simp add: handleAppendEntriesResponse_def handle_conflict_def slice_get_in)
  have "lastIdx F' = lastIdx F" using F'(4) sF by (simp add: idx_defs)
  then have "overcounted ?L2 j F'" using o sn(3,5,6,7) l1 F'(5) slot by (auto simp: overcounted_def)
  then show ?thesis using w F' h by blast
qed

text \<open>C25: when an \<open>InstallSnapshot\<close> call returns, the leader counts the follower for its own snapshot, which may be newer
  than the one it sent. A follower whose log ends before that index is then stuck: the replicator does not send it the newer
  snapshot, it refuses every request, and each refusal leaves the leader where it was, until the
  leader takes yet another snapshot.\<close>

theorem snapshot_done_overcounts:
  assumes inv: "peer_inv L" "peer_inv F" and ld: "rstate L = LEADER" "is_Term b = currentTerm L" "t \<le> currentTerm L"
    and srv: "j < npeers L" "j \<noteq> me L" and short: "lastIdx F < snapshotIndex L" "currentTerm F \<le> currentTerm L"
  shows "\<exists>L'. replicator_snapshot_done now r j b (Some t) L = Inr L' \<and> overcounted L' j F
    \<and> (\<forall>now1 L1 w. replicator_send now1 j L' = Inr (L1, Some w) \<longrightarrow>
         (\<exists>a sq F' rep L2. w = SendAppend a sq \<and> AppendEntries now2 r2 F a = Inr (F', rep) \<and> \<not> ar_Success rep \<and> rlog F' = rlog F
            \<and> handleAppendEntriesResponse now3 r3 j a rep L1 = Inr L2 \<and> overcounted L2 j F'))"
proof -
  note slot = leader_slotD(1,2) [OF inv(1) ld(1) srv]
  let ?L' = "L\<lparr>nextIndex := (nextIndex L)[j := max (nextIndex L ! j) (snapshotIndex L + 1)],
                matchIndex := (matchIndex L)[j := max (matchIndex L ! j) (snapshotIndex L)]\<rparr>"
  have d: "replicator_snapshot_done now r j b (Some t) L = Inr ?L'"
    using ld slot by (simp add: replicator_snapshot_done_def slice_get_in)
  have i: "peer_inv ?L'" using replicator_snapshot_done_inv [OF inv(1) srv, of now r b "Some t"] d by simp
  have oc: "overcounted ?L' j F" using ld short slot by (auto simp: overcounted_def)
  show ?thesis using d oc overcounted_round [OF i inv(2) _ _ oc] srv by auto
qed

text \<open>A leader that sent its snapshot up to index 2 and has since taken one up to index 3, and a follower with an empty log.\<close>

definition demo_snapped :: "nat Raft" where
  "demo_snapped = projr (Snapshot 3 [8] demo_leader)"

definition demo_older :: InstallSnapshotArgs where
  "demo_older = \<lparr>is_Term = 3, is_LeaderId = 0, is_LastIncludedIndex = 2, is_LastIncludedTerm = 1, is_Data = [7]\<rparr>"

lemma demo_snapped_facts:
  "rstate demo_snapped = LEADER" "currentTerm demo_snapped = 3" "snapshotIndex demo_snapped = 3" "npeers demo_snapped = 3" "me demo_snapped = 0"
  "lastIdx (demo_fresh\<lparr>me := 1\<rparr>) = 0" "currentTerm (demo_fresh\<lparr>me := 1\<rparr>) = 0"
  "Snapshot 3 [8] demo_leader = Inr demo_snapped"
  by code_simp+

lemma demo_snapped_inv: "peer_inv demo_snapped" "peer_inv (demo_fresh\<lparr>me := 1\<rparr>)"
  using Snapshot_inv [OF demo_leader_inv, of 3 "[8]"] demo_snapped_facts(8) by (auto simp: demo_leader_def demo_fresh_def inv_defs idx_defs)

theorem snapshot_done_overcounts_witness:
  "\<exists>L'. replicator_snapshot_done 0 0 1 demo_older (Some 0) demo_snapped = Inr L' \<and> overcounted L' 1 (demo_fresh\<lparr>me := 1\<rparr>)"
proof -
  have "is_Term demo_older = 3" by (simp add: demo_older_def)
  then show ?thesis
    using snapshot_done_overcounts [OF demo_snapped_inv, where b = demo_older and t = 0 and j = 1 and now = 0 and r = 0
      and ?now2.0 = 0 and ?r2.0 = 0 and ?now3.0 = 0 and ?r3.0 = 0] unfolding demo_snapped_facts by auto
qed

end
