(* ===== verification/Mr_Coordinator.thy ===== *)
theory Mr_Coordinator
  imports Prelude
begin

text \<open>
  The MapReduce coordinator of \<open>src/src/mr/coordinator.go\<close> with the RPC types of
  \<open>src/src/mr/rpc.go\<close>: handing out tasks, taking reports, the timeout of a task, and the step relation of
  a coordinator with any number of workers that may stop, stall or report late.
\<close>

section \<open>Data\<close>

datatype mr_phase = PhaseMap | PhaseReduce | PhaseDone

datatype status = STATUS_IDLE | STATUS_INPROGRESS | STATUS_COMPLETE

record TaskReply =
  tr_TaskType :: string
  tr_Filename :: string
  tr_MapTaskId :: int
  tr_ReduceTaskId :: int
  tr_NReduce :: int
  tr_NMap :: int

record ReportTaskArgs =
  rt_WorkerId :: int
  rt_TaskType :: string
  rt_TaskId :: int

text \<open>Times are nanoseconds; \<open>None\<close> is the zero time of a slot that was never written.\<close>

record Coordinator =
  co_files :: "string list"
  co_phase :: mr_phase
  co_mapStatuses :: "status list"
  co_mapTimes :: "int option list"
  co_mapsDone :: int
  co_reduceStatuses :: "status list"
  co_reduceTimes :: "int option list"
  co_reduceDone :: int
  co_nReduce :: int

definition MakeCoordinator :: "string list \<Rightarrow> nat \<Rightarrow> Coordinator" where
  "MakeCoordinator files nReduce =
     \<lparr>co_files = files, co_phase = PhaseMap,
      co_mapStatuses = replicate (length files) STATUS_IDLE, co_mapTimes = replicate (length files) None, co_mapsDone = 0,
      co_reduceStatuses = replicate nReduce STATUS_IDLE, co_reduceTimes = replicate nReduce None, co_reduceDone = 0,
      co_nReduce = int nReduce\<rparr>"

section \<open>Operations\<close>

definition task_timeout :: int where
  "task_timeout = 10 * 1000000000"

definition timed_out :: "int \<Rightarrow> int option \<Rightarrow> bool" where
  "timed_out now t = (case t of None \<Rightarrow> True | Some u \<Rightarrow> now - u > task_timeout)"

text \<open>The loop over the task statuses: take the first idle task; on the way, make a task idle again that is in
  progress for too long.\<close>

fun scan :: "int \<Rightarrow> nat list \<Rightarrow> status list \<Rightarrow> int option list \<Rightarrow> (status list \<times> int option list \<times> nat option) res" where
  "scan now [] ss ts = Inr (ss, ts, None)"
| "scan now (i # is) ss ts =
     rbind (slice_get ss (int i)) (\<lambda>st.
     if st = STATUS_IDLE then
       rbind (slice_set ts (int i) (Some now)) (\<lambda>ts'. Inr (ss[i := STATUS_INPROGRESS], ts', Some i))
     else if st = STATUS_INPROGRESS then
       rbind (slice_get ts (int i)) (\<lambda>t.
       scan now is (if timed_out now t then ss[i := STATUS_IDLE] else ss) ts)
     else scan now is ss ts)"

definition empty_reply :: TaskReply where
  "empty_reply = \<lparr>tr_TaskType = '''', tr_Filename = '''', tr_MapTaskId = 0, tr_ReduceTaskId = 0, tr_NReduce = 0, tr_NMap = 0\<rparr>"

definition RequestTask :: "int \<Rightarrow> Coordinator \<Rightarrow> (Coordinator \<times> TaskReply) res" where
  "RequestTask now c =
     (case co_phase c of
        PhaseMap \<Rightarrow>
          rbind (scan now [0..<length (co_mapStatuses c)] (co_mapStatuses c) (co_mapTimes c)) (\<lambda>(ss, ts, r).
          let c' = c\<lparr>co_mapStatuses := ss, co_mapTimes := ts\<rparr> in
          case r of
            Some i \<Rightarrow> rbind (slice_get (co_files c) (int i)) (\<lambda>f.
              Inr (c', empty_reply\<lparr>tr_TaskType := ''map'', tr_Filename := f, tr_MapTaskId := int i, tr_NReduce := co_nReduce c\<rparr>))
          | None \<Rightarrow> Inr (c', empty_reply\<lparr>tr_TaskType := ''wait''\<rparr>))
      | PhaseReduce \<Rightarrow>
          rbind (scan now [0..<length (co_reduceStatuses c)] (co_reduceStatuses c) (co_reduceTimes c)) (\<lambda>(ss, ts, r).
          let c' = c\<lparr>co_reduceStatuses := ss, co_reduceTimes := ts\<rparr> in
          case r of
            Some i \<Rightarrow> Inr (c', empty_reply\<lparr>tr_TaskType := ''reduce'', tr_ReduceTaskId := int i, tr_NMap := int (length (co_files c))\<rparr>)
          | None \<Rightarrow> Inr (c', empty_reply\<lparr>tr_TaskType := ''wait''\<rparr>))
      | PhaseDone \<Rightarrow> Inr (c, empty_reply\<lparr>tr_TaskType := ''wait''\<rparr>))"

definition ReportTaskComplete :: "ReportTaskArgs \<Rightarrow> Coordinator \<Rightarrow> Coordinator res" where
  "ReportTaskComplete args c =
     (if rt_TaskType args = ''map'' then
        rbind (slice_get (co_mapStatuses c) (rt_TaskId args)) (\<lambda>st.
        if st \<noteq> STATUS_COMPLETE then
          let c1 = c\<lparr>co_mapStatuses := (co_mapStatuses c)[nat (rt_TaskId args) := STATUS_COMPLETE],
                     co_mapsDone := co_mapsDone c + 1\<rparr>
          in Inr (if co_mapsDone c1 = int (length (co_files c1)) then c1\<lparr>co_phase := PhaseReduce\<rparr> else c1)
        else Inr c)
      else if rt_TaskType args = ''reduce'' then
        rbind (slice_get (co_reduceStatuses c) (rt_TaskId args)) (\<lambda>st.
        if st \<noteq> STATUS_COMPLETE then
          let c1 = c\<lparr>co_reduceStatuses := (co_reduceStatuses c)[nat (rt_TaskId args) := STATUS_COMPLETE],
                     co_reduceDone := co_reduceDone c + 1\<rparr>
          in Inr (if co_reduceDone c1 = co_nReduce c1 then c1\<lparr>co_phase := PhaseDone\<rparr> else c1)
        else Inr c)
      else Inr c)"

definition Done :: "Coordinator \<Rightarrow> bool" where
  "Done c \<longleftrightarrow> co_phase c = PhaseDone"

definition Example :: "int \<Rightarrow> int" where
  "Example x = x + 1"

section \<open>The loop over the statuses\<close>

definition same_work :: "status list \<Rightarrow> status list \<Rightarrow> bool" where
  "same_work ss ss' \<longleftrightarrow> length ss' = length ss
     \<and> (\<forall>i < length ss. (ss' ! i = STATUS_COMPLETE) = (ss ! i = STATUS_COMPLETE))"

lemma same_work_refl [simp]: "same_work ss ss"
  by (simp add: same_work_def)

text \<open>The scan never panics on lists of one length, completes no task and forgets none, and what it hands out was
  not complete.\<close>

lemma scan_spec:
  assumes "\<forall>i \<in> set is. i < length ss" "length ts = length ss"
  shows "\<exists>ss' ts' r. scan now is ss ts = Inr (ss', ts', r) \<and> same_work ss ss' \<and> length ts' = length ss
    \<and> (\<forall>i. r = Some i \<longrightarrow> i \<in> set is \<and> ss ! i \<noteq> STATUS_COMPLETE \<and> ss' ! i = STATUS_INPROGRESS)"
  using assms
proof (induction "is" arbitrary: ss)
  case (Cons i js)
  have i: "i < length ss" "\<forall>k \<in> set js. k < length ss" using Cons.prems by auto
  consider (idle) "ss ! i = STATUS_IDLE" | (late) "ss ! i = STATUS_INPROGRESS" "timed_out now (ts ! i)"
    | (other) "ss ! i = STATUS_INPROGRESS \<and> \<not> timed_out now (ts ! i) \<or> ss ! i = STATUS_COMPLETE" by (cases "ss ! i") auto
  then show ?case
  proof cases
    case idle
    then show ?thesis using i Cons.prems(2) by (auto simp: slice_get_in slice_set_in same_work_def nth_list_update)
  next
    case late
    have ih: "\<exists>ss' ts' r. scan now js (ss[i := STATUS_IDLE]) ts = Inr (ss', ts', r) \<and> same_work (ss[i := STATUS_IDLE]) ss' \<and> length ts' = length ss
      \<and> (\<forall>k. r = Some k \<longrightarrow> k \<in> set js \<and> ss[i := STATUS_IDLE] ! k \<noteq> STATUS_COMPLETE \<and> ss' ! k = STATUS_INPROGRESS)"
      using Cons.IH [of "ss[i := STATUS_IDLE]"] i Cons.prems(2) by simp
    moreover have eq: "(ss[i := STATUS_IDLE] ! k = STATUS_COMPLETE) = (ss ! k = STATUS_COMPLETE)" for k
      using late(1) i(1) by (cases "k = i") auto
    moreover have "same_work ss s'" if "same_work (ss[i := STATUS_IDLE]) s'" for s'
      using that by (auto simp: same_work_def eq)
    ultimately show ?thesis using late i Cons.prems(2) by (fastforce simp: slice_get_in)
  next
    case other
    then have "scan now (i # js) ss ts = scan now js ss ts" using i Cons.prems(2) by (auto simp: slice_get_in)
    then show ?thesis using Cons.IH [of ss] i Cons.prems(2) by (metis list.set_intros(2))
  qed
qed simp

section \<open>The invariant\<close>

definition n_complete :: "status list \<Rightarrow> nat" where
  "n_complete ss = length (filter (\<lambda>s. s = STATUS_COMPLETE) ss)"

lemma n_complete_same:
  assumes "same_work ss ss'"
  shows "n_complete ss' = n_complete ss"
proof -
  have "map (\<lambda>s. s = STATUS_COMPLETE) ss' = map (\<lambda>s. s = STATUS_COMPLETE) ss"
    using assms by (intro nth_equalityI) (auto simp: same_work_def)
  then have "length (filter id (map (\<lambda>s. s = STATUS_COMPLETE) ss')) = length (filter id (map (\<lambda>s. s = STATUS_COMPLETE) ss))" by simp
  then show ?thesis by (simp add: n_complete_def filter_map comp_def)
qed

lemma n_complete_report:
  "i < length ss \<Longrightarrow> ss ! i \<noteq> STATUS_COMPLETE \<Longrightarrow> n_complete (ss[i := STATUS_COMPLETE]) = Suc (n_complete ss)"
  by (simp add: n_complete_def length_filter_update_gain)

lemma n_complete_le: "n_complete ss \<le> length ss"
  by (simp add: n_complete_def)

lemma n_complete_all: "n_complete ss = length ss \<longleftrightarrow> (\<forall>s \<in> set ss. s = STATUS_COMPLETE)"
  unfolding n_complete_def by (rule length_filter_full)

lemma same_work_all:
  "same_work ss ss' \<Longrightarrow> (\<forall>s \<in> set ss'. s = STATUS_COMPLETE) = (\<forall>s \<in> set ss. s = STATUS_COMPLETE)"
  by (metis n_complete_all n_complete_same same_work_def)

definition all_complete :: "status list \<Rightarrow> bool" where
  "all_complete ss \<longleftrightarrow> (\<forall>s \<in> set ss. s = STATUS_COMPLETE)"

definition coord_inv :: "Coordinator \<Rightarrow> bool" where
  "coord_inv c \<longleftrightarrow>
     length (co_mapStatuses c) = length (co_files c) \<and> length (co_mapTimes c) = length (co_files c)
     \<and> int (length (co_reduceStatuses c)) = co_nReduce c \<and> length (co_reduceTimes c) = length (co_reduceStatuses c)
     \<and> co_mapsDone c = int (n_complete (co_mapStatuses c)) \<and> co_reduceDone c = int (n_complete (co_reduceStatuses c))
     \<and> (co_phase c = PhaseMap \<longrightarrow> n_complete (co_reduceStatuses c) = 0 \<and> (co_files c = [] \<or> \<not> all_complete (co_mapStatuses c)))
     \<and> (co_phase c \<noteq> PhaseMap \<longrightarrow> co_files c \<noteq> [])
     \<and> (co_phase c = PhaseReduce \<longrightarrow> all_complete (co_mapStatuses c) \<and> (co_reduceStatuses c = [] \<or> \<not> all_complete (co_reduceStatuses c)))
     \<and> (co_phase c = PhaseDone \<longrightarrow> all_complete (co_mapStatuses c) \<and> all_complete (co_reduceStatuses c))"

text \<open>The tasks workers were given so far. A worker reports only a task it was given; it may do so late, twice or
  never.\<close>

record job =
  coord :: Coordinator
  assigned :: "(string \<times> int) set"

definition given :: "TaskReply \<Rightarrow> (string \<times> int) set" where
  "given rep = (if tr_TaskType rep = ''map'' then {(''map'', tr_MapTaskId rep)}
     else if tr_TaskType rep = ''reduce'' then {(''reduce'', tr_ReduceTaskId rep)} else {})"

inductive job_step :: "job \<Rightarrow> job \<Rightarrow> bool" where
  request: "RequestTask now (coord s) = Inr (c', rep)
    \<Longrightarrow> job_step s (s\<lparr>coord := c', assigned := assigned s \<union> given rep\<rparr>)"
| report: "(ty, k) \<in> assigned s \<Longrightarrow> ReportTaskComplete \<lparr>rt_WorkerId = w, rt_TaskType = ty, rt_TaskId = k\<rparr> (coord s) = Inr c'
    \<Longrightarrow> job_step s (s\<lparr>coord := c'\<rparr>)"

definition job_init :: "string list \<Rightarrow> nat \<Rightarrow> job \<Rightarrow> bool" where
  "job_init files nReduce s \<longleftrightarrow> s = \<lparr>coord = MakeCoordinator files nReduce, assigned = {}\<rparr>"

definition job_inv :: "string list \<Rightarrow> nat \<Rightarrow> job \<Rightarrow> bool" where
  "job_inv files nReduce s \<longleftrightarrow> coord_inv (coord s) \<and> co_files (coord s) = files \<and> co_nReduce (coord s) = int nReduce
     \<and> (\<forall>(ty, k) \<in> assigned s. ty = ''map'' \<and> 0 \<le> k \<and> k < int (length files)
          \<or> ty = ''reduce'' \<and> 0 \<le> k \<and> k < int nReduce \<and> files \<noteq> [] \<and> all_complete (co_mapStatuses (coord s)))"

text \<open>The reply for the outcome of a scan, in the two phases.\<close>

definition map_reply :: "Coordinator \<Rightarrow> nat option \<Rightarrow> TaskReply" where
  "map_reply c r = (case r of
     Some i \<Rightarrow> empty_reply\<lparr>tr_TaskType := ''map'', tr_Filename := co_files c ! i, tr_MapTaskId := int i, tr_NReduce := co_nReduce c\<rparr>
   | None \<Rightarrow> empty_reply\<lparr>tr_TaskType := ''wait''\<rparr>)"

definition reduce_reply :: "Coordinator \<Rightarrow> nat option \<Rightarrow> TaskReply" where
  "reduce_reply c r = (case r of
     Some i \<Rightarrow> empty_reply\<lparr>tr_TaskType := ''reduce'', tr_ReduceTaskId := int i, tr_NMap := int (length (co_files c))\<rparr>
   | None \<Rightarrow> empty_reply\<lparr>tr_TaskType := ''wait''\<rparr>)"

lemma reply_simps [simp]:
  "tr_TaskType (map_reply c r) = (if r = None then ''wait'' else ''map'')"
  "tr_TaskType (reduce_reply c r) = (if r = None then ''wait'' else ''reduce'')"
  "tr_MapTaskId (map_reply c (Some i)) = int i" "tr_ReduceTaskId (reduce_reply c (Some i)) = int i"
  by (auto simp: map_reply_def reduce_reply_def split: option.splits)

lemma RequestTask_map:
  assumes "coord_inv c" "co_phase c = PhaseMap"
  shows "\<exists>ss ts r. RequestTask now c = Inr (c\<lparr>co_mapStatuses := ss, co_mapTimes := ts\<rparr>, map_reply c r)
    \<and> scan now [0..<length (co_mapStatuses c)] (co_mapStatuses c) (co_mapTimes c) = Inr (ss, ts, r)
    \<and> same_work (co_mapStatuses c) ss \<and> length ts = length (co_files c)
    \<and> (\<forall>i. r = Some i \<longrightarrow> i < length (co_files c) \<and> co_mapStatuses c ! i \<noteq> STATUS_COMPLETE \<and> ss ! i = STATUS_INPROGRESS)"
proof -
  have l: "length (co_mapTimes c) = length (co_mapStatuses c)" "length (co_mapStatuses c) = length (co_files c)"
    using assms(1) by (auto simp: coord_inv_def)
  from scan_spec [of "[0..<length (co_mapStatuses c)]" "co_mapStatuses c" "co_mapTimes c" now] l obtain ss ts r where
    s: "scan now [0..<length (co_mapStatuses c)] (co_mapStatuses c) (co_mapTimes c) = Inr (ss, ts, r)"
    "same_work (co_mapStatuses c) ss" "length ts = length (co_files c)"
    "\<forall>i. r = Some i \<longrightarrow> i < length (co_files c) \<and> co_mapStatuses c ! i \<noteq> STATUS_COMPLETE \<and> ss ! i = STATUS_INPROGRESS" by auto
  then show ?thesis using assms(2)
    by (intro exI [of _ ss] exI [of _ ts] exI [of _ r]) (auto simp: RequestTask_def Let_def slice_get_in map_reply_def split: option.splits)
qed

lemma RequestTask_reduce:
  assumes "coord_inv c" "co_phase c = PhaseReduce"
  shows "\<exists>ss ts r. RequestTask now c = Inr (c\<lparr>co_reduceStatuses := ss, co_reduceTimes := ts\<rparr>, reduce_reply c r)
    \<and> scan now [0..<length (co_reduceStatuses c)] (co_reduceStatuses c) (co_reduceTimes c) = Inr (ss, ts, r)
    \<and> same_work (co_reduceStatuses c) ss \<and> length ts = length ss
    \<and> (\<forall>i. r = Some i \<longrightarrow> i < length (co_reduceStatuses c) \<and> co_reduceStatuses c ! i \<noteq> STATUS_COMPLETE \<and> ss ! i = STATUS_INPROGRESS)"
proof -
  have l: "length (co_reduceTimes c) = length (co_reduceStatuses c)" using assms(1) by (auto simp: coord_inv_def)
  from scan_spec [of "[0..<length (co_reduceStatuses c)]" "co_reduceStatuses c" "co_reduceTimes c" now] l obtain ss ts r where
    s: "scan now [0..<length (co_reduceStatuses c)] (co_reduceStatuses c) (co_reduceTimes c) = Inr (ss, ts, r)"
    "same_work (co_reduceStatuses c) ss" "length ts = length (co_reduceStatuses c)"
    "\<forall>i. r = Some i \<longrightarrow> i < length (co_reduceStatuses c) \<and> co_reduceStatuses c ! i \<noteq> STATUS_COMPLETE \<and> ss ! i = STATUS_INPROGRESS" by auto
  then show ?thesis using assms(2)
    by (intro exI [of _ ss] exI [of _ ts] exI [of _ r])
      (auto simp: RequestTask_def Let_def same_work_def reduce_reply_def split: option.splits)
qed

lemma n_complete_0: "n_complete ss = 0 \<longleftrightarrow> STATUS_COMPLETE \<notin> set ss"
  by (auto simp: n_complete_def filter_empty_conv)

lemma same_work_empty: "same_work ss ss' \<Longrightarrow> (ss' = []) = (ss = [])"
  by (auto simp: same_work_def)

lemma same_work_all_complete: "same_work ss ss' \<Longrightarrow> all_complete ss' = all_complete ss"
  unfolding all_complete_def by (rule same_work_all)

lemma RequestTask_inv:
  assumes inv: "coord_inv c"
  shows "\<exists>c' rep. RequestTask now c = Inr (c', rep) \<and> coord_inv c' \<and> co_files c' = co_files c \<and> co_nReduce c' = co_nReduce c
    \<and> all_complete (co_mapStatuses c') = all_complete (co_mapStatuses c)
    \<and> (\<forall>(ty, k) \<in> given rep. ty = ''map'' \<and> 0 \<le> k \<and> k < int (length (co_files c))
         \<or> ty = ''reduce'' \<and> 0 \<le> k \<and> k < co_nReduce c \<and> co_files c \<noteq> [] \<and> all_complete (co_mapStatuses c))"
proof (cases "co_phase c")
  case PhaseMap
  from RequestTask_map [OF inv PhaseMap, of now] obtain ss ts r where
    "RequestTask now c = Inr (c\<lparr>co_mapStatuses := ss, co_mapTimes := ts\<rparr>, map_reply c r)"
    and s: "same_work (co_mapStatuses c) ss" "length ts = length (co_files c)"
      "\<forall>i. r = Some i \<longrightarrow> i < length (co_files c)" by blast
  moreover have "coord_inv (c\<lparr>co_mapStatuses := ss, co_mapTimes := ts\<rparr>)"
    using inv PhaseMap s same_work_all_complete [OF s(1)] n_complete_same [OF s(1)] by (auto simp: coord_inv_def same_work_def)
  ultimately show ?thesis using same_work_all_complete [OF s(1)] s(3) by (cases r) (auto simp: given_def)
next
  case PhaseReduce
  from RequestTask_reduce [OF inv PhaseReduce, of now] obtain ss ts r where
    "RequestTask now c = Inr (c\<lparr>co_reduceStatuses := ss, co_reduceTimes := ts\<rparr>, reduce_reply c r)"
    and s: "same_work (co_reduceStatuses c) ss" "length ts = length ss"
      "\<forall>i. r = Some i \<longrightarrow> i < length (co_reduceStatuses c)" by blast
  moreover have "coord_inv (c\<lparr>co_reduceStatuses := ss, co_reduceTimes := ts\<rparr>)"
    using inv PhaseReduce s same_work_all_complete [OF s(1)] n_complete_same [OF s(1)] same_work_empty [OF s(1)]
    by (auto simp: coord_inv_def same_work_def)
  moreover have "all_complete (co_mapStatuses c)" "int (length (co_reduceStatuses c)) = co_nReduce c" "co_files c \<noteq> []"
    using inv PhaseReduce by (auto simp: coord_inv_def)
  ultimately show ?thesis using s(3) by (cases r) (auto simp: given_def)
next
  case PhaseDone
  then show ?thesis using inv by (simp add: RequestTask_def given_def)
qed

lemma report_map_inv:
  assumes inv: "coord_inv c" and k: "k < length (co_files c)"
  shows "\<exists>c'. ReportTaskComplete \<lparr>rt_WorkerId = w, rt_TaskType = ''map'', rt_TaskId = int k\<rparr> c = Inr c' \<and> coord_inv c'
    \<and> co_files c' = co_files c \<and> co_nReduce c' = co_nReduce c \<and> (all_complete (co_mapStatuses c) \<longrightarrow> all_complete (co_mapStatuses c'))"
proof (cases "co_mapStatuses c ! k = STATUS_COMPLETE")
  case True
  then show ?thesis using inv k by (auto simp: ReportTaskComplete_def coord_inv_def slice_get_in)
next
  case False
  let ?ss = "(co_mapStatuses c)[k := STATUS_COMPLETE]"
  have l: "length (co_mapStatuses c) = length (co_files c)" using inv by (simp add: coord_inv_def)
  have nc: "n_complete ?ss = Suc (n_complete (co_mapStatuses c))" using False k l by (simp add: n_complete_report)
  have ph: "co_phase c = PhaseMap" "\<not> all_complete (co_mapStatuses c)"
    using inv False k l by (cases "co_phase c"; force simp: coord_inv_def all_complete_def)+
  have all: "all_complete ?ss \<longleftrightarrow> n_complete ?ss = length (co_files c)"
    using n_complete_all [of ?ss] l by (simp add: all_complete_def)
  have md: "co_mapsDone c = int (n_complete (co_mapStatuses c))" using inv by (simp add: coord_inv_def)
  have r0: "n_complete (co_reduceStatuses c) = 0" using inv ph by (simp add: coord_inv_def)
  then have "co_reduceStatuses c = [] \<or> \<not> all_complete (co_reduceStatuses c)"
    by (cases "co_reduceStatuses c") (auto simp: n_complete_0 all_complete_def)
  with inv ph nc all md l k False r0 show ?thesis
    by (auto simp: ReportTaskComplete_def slice_get_in Let_def coord_inv_def)
qed

lemma report_reduce_inv:
  assumes inv: "coord_inv c" and k: "int k < co_nReduce c" and m: "all_complete (co_mapStatuses c)" "co_files c \<noteq> []"
  shows "\<exists>c'. ReportTaskComplete \<lparr>rt_WorkerId = w, rt_TaskType = ''reduce'', rt_TaskId = int k\<rparr> c = Inr c' \<and> coord_inv c'
    \<and> co_files c' = co_files c \<and> co_nReduce c' = co_nReduce c \<and> co_mapStatuses c' = co_mapStatuses c"
proof (cases "co_reduceStatuses c ! k = STATUS_COMPLETE")
  case True
  then show ?thesis using inv k by (auto simp: ReportTaskComplete_def coord_inv_def slice_get_in)
next
  case False
  let ?ss = "(co_reduceStatuses c)[k := STATUS_COMPLETE]"
  have l: "int (length (co_reduceStatuses c)) = co_nReduce c" "k < length (co_reduceStatuses c)"
    using inv k by (auto simp: coord_inv_def)
  have nc: "n_complete ?ss = Suc (n_complete (co_reduceStatuses c))" using False l by (simp add: n_complete_report)
  have ph: "co_phase c = PhaseReduce"
    using inv False l m by (cases "co_phase c"; force simp: coord_inv_def all_complete_def)
  have all: "all_complete ?ss \<longleftrightarrow> int (n_complete ?ss) = co_nReduce c"
    using n_complete_all [of ?ss] l by (auto simp: all_complete_def)
  with inv ph nc m l False show ?thesis
    by (auto simp: ReportTaskComplete_def slice_get_in Let_def coord_inv_def)
qed

lemma job_step_inv:
  assumes inv: "job_inv files nReduce s" and st: "job_step s t"
  shows "job_inv files nReduce t"
  using st
proof cases
  case (request now c' rep)
  have ci: "coord_inv (coord s)" using inv by (simp add: job_inv_def)
  from RequestTask_inv [OF ci, of now] request(2) have
    "coord_inv c'" "co_files c' = files" "co_nReduce c' = int nReduce"
    "all_complete (co_mapStatuses c') = all_complete (co_mapStatuses (coord s))"
    "\<forall>(ty, k) \<in> given rep. ty = ''map'' \<and> 0 \<le> k \<and> k < int (length files)
         \<or> ty = ''reduce'' \<and> 0 \<le> k \<and> k < int nReduce \<and> files \<noteq> [] \<and> all_complete (co_mapStatuses (coord s))"
    using inv by (auto simp: job_inv_def)
  then show ?thesis using inv request(1) by (auto simp: job_inv_def)
next
  case (report ty k w c')
  have ci: "coord_inv (coord s)" "co_files (coord s) = files" "co_nReduce (coord s) = int nReduce"
    using inv by (auto simp: job_inv_def)
  consider "ty = ''map''" "0 \<le> k" "k < int (length files)"
    | "ty = ''reduce''" "0 \<le> k" "k < int nReduce" "files \<noteq> []" "all_complete (co_mapStatuses (coord s))"
    using inv report(2) by (auto simp: job_inv_def)
  then show ?thesis
  proof cases
    case 1
    then have "nat k < length (co_files (coord s))" "int (nat k) = k" using ci by auto
    from report_map_inv [OF ci(1) this(1), of w] report 1 this(2) ci inv show ?thesis by (auto simp: job_inv_def)
  next
    case 2
    then have "int (nat k) < co_nReduce (coord s)" "co_files (coord s) \<noteq> []" "int (nat k) = k" using ci by auto
    from report_reduce_inv [OF ci(1) this(1) 2(5) this(2), of w] report 2 this(3) ci inv show ?thesis by (auto simp: job_inv_def)
  qed
qed

interpretation mr: invariant_system "job_init files nReduce" job_step "job_inv files nReduce" for files nReduce
proof
  fix s assume "job_init files nReduce s"
  then show "job_inv files nReduce s"
    by (auto simp: job_init_def job_inv_def coord_inv_def MakeCoordinator_def n_complete_def all_complete_def)
next
  fix s t assume "job_inv files nReduce s" "job_step s t"
  then show "job_inv files nReduce t" by (rule job_step_inv)
qed

section \<open>Properties of a job\<close>

text \<open>C16: the barrier between the phases. In every state of a job, whatever the workers do with their tasks, a reduce
  task was handed out only if every map task has been reported complete; and \<open>Done\<close> answers true exactly when the
  coordinator has seen every map and every reduce task complete.\<close>

theorem phase_barrier:
  assumes run: "reach (job_init files nReduce) job_step s" and ne: "files \<noteq> []" "0 < nReduce"
  shows "((''reduce'', k) \<in> assigned s \<longrightarrow> all_complete (co_mapStatuses (coord s)))
    \<and> (Done (coord s) \<longleftrightarrow> all_complete (co_mapStatuses (coord s)) \<and> all_complete (co_reduceStatuses (coord s)))"
proof -
  have inv: "job_inv files nReduce s" by (rule mr.reach_inv [OF run])
  then have ci: "coord_inv (coord s)" "co_files (coord s) = files" "co_nReduce (coord s) = int nReduce"
    by (auto simp: job_inv_def)
  then have "co_reduceStatuses (coord s) \<noteq> []" using ne by (auto simp: coord_inv_def)
  then have "Done (coord s) \<longleftrightarrow> all_complete (co_mapStatuses (coord s)) \<and> all_complete (co_reduceStatuses (coord s))"
    using ci ne by (cases "co_phase (coord s)") (auto simp: coord_inv_def Done_def)
  moreover have "(''reduce'', k) \<in> assigned s \<longrightarrow> all_complete (co_mapStatuses (coord s))"
    using inv by (auto simp: job_inv_def)
  ultimately show ?thesis by blast
qed

text \<open>The handlers never panic: a request of any worker at any time, and the report of any task that was handed
  out, always return.\<close>

theorem coordinator_never_panics:
  assumes run: "reach (job_init files nReduce) job_step s"
  shows "(\<exists>r. RequestTask now (coord s) = Inr r)
    \<and> ((ty, k) \<in> assigned s \<longrightarrow> (\<exists>c'. ReportTaskComplete \<lparr>rt_WorkerId = w, rt_TaskType = ty, rt_TaskId = k\<rparr> (coord s) = Inr c'))"
proof -
  have inv: "job_inv files nReduce s" by (rule mr.reach_inv [OF run])
  then have ci: "coord_inv (coord s)" "co_files (coord s) = files" "co_nReduce (coord s) = int nReduce"
    by (auto simp: job_inv_def)
  have "\<exists>c'. ReportTaskComplete \<lparr>rt_WorkerId = w, rt_TaskType = ty, rt_TaskId = k\<rparr> (coord s) = Inr c'" if "(ty, k) \<in> assigned s"
  proof -
    have "ty = ''map'' \<and> 0 \<le> k \<and> k < int (length files) \<or> ty = ''reduce'' \<and> 0 \<le> k \<and> k < int nReduce \<and> files \<noteq> [] \<and> all_complete (co_mapStatuses (coord s))"
      using inv that by (auto simp: job_inv_def)
    then show ?thesis
    proof (elim disjE conjE)
      assume "ty = ''map''" "0 \<le> k" "k < int (length files)"
      moreover have "nat k < length (co_files (coord s))" using calculation ci(2) by auto
      ultimately show ?thesis using report_map_inv [OF ci(1), of "nat k" w] by auto
    next
      assume "ty = ''reduce''" "0 \<le> k" "k < int nReduce" "files \<noteq> []" "all_complete (co_mapStatuses (coord s))"
      then show ?thesis using report_reduce_inv [OF ci(1), of "nat k" w] ci(2,3) by auto
    qed
  qed
  then show ?thesis using RequestTask_inv [OF ci(1), of now] by blast
qed

text \<open>A job with one file and one reduce task, run to the end by one worker.\<close>

definition demo_job :: "job list" where
  "demo_job =
     (let c0 = MakeCoordinator [''a''] 1;
          c1 = c0\<lparr>co_mapStatuses := [STATUS_INPROGRESS], co_mapTimes := [Some 5]\<rparr>;
          c2 = c1\<lparr>co_mapStatuses := [STATUS_COMPLETE], co_mapsDone := 1, co_phase := PhaseReduce\<rparr>;
          c3 = c2\<lparr>co_reduceStatuses := [STATUS_INPROGRESS], co_reduceTimes := [Some 6]\<rparr>;
          c4 = c3\<lparr>co_reduceStatuses := [STATUS_COMPLETE], co_reduceDone := 1, co_phase := PhaseDone\<rparr>
      in [\<lparr>coord = c0, assigned = {}\<rparr>, \<lparr>coord = c1, assigned = {(''map'', 0)}\<rparr>, \<lparr>coord = c2, assigned = {(''map'', 0)}\<rparr>,
          \<lparr>coord = c3, assigned = {(''map'', 0), (''reduce'', 0)}\<rparr>, \<lparr>coord = c4, assigned = {(''map'', 0), (''reduce'', 0)}\<rparr>])"

lemmas demo_simps = demo_job_def Let_def MakeCoordinator_def RequestTask_def ReportTaskComplete_def given_def empty_reply_def
  slice_get_def slice_set_def idx_ok_def

lemma demo_requests:
  "RequestTask 5 (coord (demo_job ! 0)) = Inr (coord (demo_job ! 1),
     empty_reply\<lparr>tr_TaskType := ''map'', tr_Filename := ''a'', tr_MapTaskId := 0, tr_NReduce := 1\<rparr>)"
  "RequestTask 6 (coord (demo_job ! 2)) = Inr (coord (demo_job ! 3),
     empty_reply\<lparr>tr_TaskType := ''reduce'', tr_ReduceTaskId := 0, tr_NMap := 1\<rparr>)"
  by (simp_all add: demo_simps)

lemma demo_reports:
  "ReportTaskComplete \<lparr>rt_WorkerId = 1, rt_TaskType = ''map'', rt_TaskId = 0\<rparr> (coord (demo_job ! 1)) = Inr (coord (demo_job ! 2))"
  "ReportTaskComplete \<lparr>rt_WorkerId = 1, rt_TaskType = ''reduce'', rt_TaskId = 0\<rparr> (coord (demo_job ! 3)) = Inr (coord (demo_job ! 4))"
  by (simp_all add: demo_simps)

lemma demo_job_steps:
  "job_step (demo_job ! 0) (demo_job ! 1)" "job_step (demo_job ! 1) (demo_job ! 2)"
  "job_step (demo_job ! 2) (demo_job ! 3)" "job_step (demo_job ! 3) (demo_job ! 4)"
proof -
  show "job_step (demo_job ! 0) (demo_job ! 1)"
    using job_step.request [OF demo_requests(1)] by (simp add: demo_simps)
  show "job_step (demo_job ! 1) (demo_job ! 2)"
    using job_step.report [OF _ demo_reports(1)] by (simp add: demo_simps)
  show "job_step (demo_job ! 2) (demo_job ! 3)"
    using job_step.request [OF demo_requests(2)] by (simp add: demo_simps insert_commute)
  show "job_step (demo_job ! 3) (demo_job ! 4)"
    using job_step.report [OF _ demo_reports(2)] by (simp add: demo_simps)
qed

lemma demo_job_reach:
  "reach (job_init [''a''] 1) job_step (demo_job ! 3)" "reach (job_init [''a''] 1) job_step (demo_job ! 4)"
proof -
  have "job_init [''a''] 1 (demo_job ! 0)" by (simp add: job_init_def demo_simps)
  note r0 = reach_init [where init = "job_init [''a''] 1" and step = job_step, OF this]
  note r1 = reach_step [where init = "job_init [''a''] 1" and step = job_step, OF r0 demo_job_steps(1)]
  note r2 = reach_step [where init = "job_init [''a''] 1" and step = job_step, OF r1 demo_job_steps(2)]
  show r3: "reach (job_init [''a''] 1) job_step (demo_job ! 3)"
    by (rule reach_step [where init = "job_init [''a''] 1" and step = job_step, OF r2 demo_job_steps(3)])
  show "reach (job_init [''a''] 1) job_step (demo_job ! 4)"
    by (rule reach_step [where init = "job_init [''a''] 1" and step = job_step, OF r3 demo_job_steps(4)])
qed

theorem phase_barrier_witness:
  "(''reduce'', 0) \<in> assigned (demo_job ! 4) \<and> all_complete (co_mapStatuses (coord (demo_job ! 4))) \<and> Done (coord (demo_job ! 4))"
proof -
  have "(''reduce'', 0) \<in> assigned (demo_job ! 4)" "all_complete (co_reduceStatuses (coord (demo_job ! 4)))"
    by (simp_all add: demo_simps all_complete_def)
  with phase_barrier [OF demo_job_reach(2), of 0] show ?thesis by simp
qed

theorem coordinator_never_panics_witness:
  "\<exists>c'. ReportTaskComplete \<lparr>rt_WorkerId = 7, rt_TaskType = ''reduce'', rt_TaskId = 0\<rparr> (coord (demo_job ! 3)) = Inr c'"
proof -
  have "(''reduce'', 0) \<in> assigned (demo_job ! 3)" by (simp add: demo_simps)
  with coordinator_never_panics [OF demo_job_reach(1)] show ?thesis by blast
qed

section \<open>Tasks of stopped workers come back\<close>

lemma scan_None:
  assumes "scan now is ss ts = Inr (ss', ts', None)"
  shows "(\<forall>i. ss ! i = STATUS_IDLE \<longrightarrow> ss' ! i = STATUS_IDLE) \<and> ts' = ts
    \<and> (\<forall>i \<in> set is. ss ! i = STATUS_INPROGRESS \<longrightarrow> timed_out now (ts ! i) \<longrightarrow> ss' ! i = STATUS_IDLE)
    \<and> (\<forall>i \<in> set is. ss ! i \<noteq> STATUS_IDLE)"
  using assms
proof (induction "is" arbitrary: ss)
  case (Cons i js)
  have i: "i < length ss" "ss ! i \<noteq> STATUS_IDLE" using Cons.prems by (auto simp: rbind_eq_Inr slice_get_eq_Inr split: if_splits)
  consider (late) "ss ! i = STATUS_INPROGRESS" "timed_out now (ts ! i)"
    | (other) "\<not> (ss ! i = STATUS_INPROGRESS \<and> timed_out now (ts ! i))" by blast
  then show ?case
  proof cases
    case late
    then have "scan now js (ss[i := STATUS_IDLE]) ts = Inr (ss', ts', None)"
      using Cons.prems i by (auto simp: rbind_eq_Inr slice_get_eq_Inr split: if_splits)
    note ih = Cons.IH [OF this]
    have nth: "ss[i := STATUS_IDLE] ! k = (if k = i then STATUS_IDLE else ss ! k)" for k using i by (cases "k = i") auto
    from ih show ?thesis using late i unfolding nth by (auto split: if_splits)
  next
    case other
    then have "scan now js ss ts = Inr (ss', ts', None)"
      using Cons.prems i by (auto simp: rbind_eq_Inr slice_get_eq_Inr split: if_splits)
    from Cons.IH [OF this] show ?thesis using other i by auto
  qed
qed simp

lemma scan_finds_idle:
  assumes "scan now [0..<length ss] ss ts = Inr (ss', ts', r)" "i < length ss" "ss ! i = STATUS_IDLE"
  shows "r \<noteq> None"
  using scan_None [of now "[0..<length ss]" ss ts ss' ts'] assms by (cases r) auto

lemma scan_frees_stalled:
  assumes sc: "scan now [0..<length ss] ss ts = Inr (ss', ts', None)" and open_: "\<not> all_complete ss" and len: "length ss' = length ss"
    and stalled: "\<forall>i < length ss. ss ! i = STATUS_INPROGRESS \<longrightarrow> timed_out now (ts ! i)"
  shows "\<exists>i < length ss'. ss' ! i = STATUS_IDLE"
proof -
  obtain i where i: "i < length ss" "ss ! i \<noteq> STATUS_COMPLETE" using open_ by (auto simp: all_complete_def in_set_conv_nth)
  moreover have "ss ! i \<noteq> STATUS_IDLE" using scan_None [OF sc] i(1) by auto
  ultimately have "ss ! i = STATUS_INPROGRESS" by (cases "ss ! i") auto
  then show ?thesis using scan_None [OF sc] stalled i(1) len by auto
qed

definition stalled :: "int \<Rightarrow> status list \<Rightarrow> int option list \<Rightarrow> bool" where
  "stalled now ss ts \<longleftrightarrow> (\<forall>i < length ss. ss ! i = STATUS_INPROGRESS \<longrightarrow> timed_out now (ts ! i))"

lemma map_reassigned:
  assumes inv: "coord_inv c" and ph: "co_phase c = PhaseMap" "co_files c \<noteq> []" and st: "stalled now (co_mapStatuses c) (co_mapTimes c)"
    and r1: "RequestTask now c = Inr (c1, rep1)" and w: "tr_TaskType rep1 = ''wait''"
  shows "\<exists>c2 rep2. RequestTask now c1 = Inr (c2, rep2) \<and> tr_TaskType rep2 = ''map''"
proof -
  have nc: "\<not> all_complete (co_mapStatuses c)" using inv ph by (auto simp: coord_inv_def)
  from RequestTask_map [OF inv ph(1), of now] r1 obtain ss ts r where
    c1: "c1 = c\<lparr>co_mapStatuses := ss, co_mapTimes := ts\<rparr>" "same_work (co_mapStatuses c) ss"
    "scan now [0..<length (co_mapStatuses c)] (co_mapStatuses c) (co_mapTimes c) = Inr (ss, ts, r)"
    and rep: "rep1 = map_reply c r" by auto
  have "r = None" using rep w by (cases r) auto
  note c1 = c1 [unfolded this]
  have "length ss = length (co_mapStatuses c)" using c1(2) by (simp add: same_work_def)
  from scan_frees_stalled [OF c1(3) nc this] st obtain i where i: "i < length ss" "ss ! i = STATUS_IDLE"
    by (auto simp: stalled_def)
  have ci: "coord_inv c1" "co_phase c1 = PhaseMap" using RequestTask_inv [OF inv, of now] r1 c1(1) ph by auto
  from RequestTask_map [OF ci, of now] obtain ss2 ts2 r2 where
    r2: "RequestTask now c1 = Inr (c1\<lparr>co_mapStatuses := ss2, co_mapTimes := ts2\<rparr>, map_reply c1 r2)"
    "scan now [0..<length (co_mapStatuses c1)] (co_mapStatuses c1) (co_mapTimes c1) = Inr (ss2, ts2, r2)" by blast
  have "r2 \<noteq> None" using scan_finds_idle [OF r2(2), of i] i c1(1) by simp
  then show ?thesis using r2(1) by auto
qed

lemma reduce_reassigned:
  assumes inv: "coord_inv c" and ph: "co_phase c = PhaseReduce" "co_reduceStatuses c \<noteq> []" and st: "stalled now (co_reduceStatuses c) (co_reduceTimes c)"
    and r1: "RequestTask now c = Inr (c1, rep1)" and w: "tr_TaskType rep1 = ''wait''"
  shows "\<exists>c2 rep2. RequestTask now c1 = Inr (c2, rep2) \<and> tr_TaskType rep2 = ''reduce''"
proof -
  have nc: "\<not> all_complete (co_reduceStatuses c)" using inv ph by (auto simp: coord_inv_def)
  from RequestTask_reduce [OF inv ph(1), of now] r1 obtain ss ts r where
    c1: "c1 = c\<lparr>co_reduceStatuses := ss, co_reduceTimes := ts\<rparr>" "same_work (co_reduceStatuses c) ss"
    "scan now [0..<length (co_reduceStatuses c)] (co_reduceStatuses c) (co_reduceTimes c) = Inr (ss, ts, r)"
    and rep: "rep1 = reduce_reply c r" by auto
  have "r = None" using rep w by (cases r) auto
  note c1 = c1 [unfolded this]
  have "length ss = length (co_reduceStatuses c)" using c1(2) by (simp add: same_work_def)
  from scan_frees_stalled [OF c1(3) nc this] st obtain i where i: "i < length ss" "ss ! i = STATUS_IDLE"
    by (auto simp: stalled_def)
  have ci: "coord_inv c1" "co_phase c1 = PhaseReduce" using RequestTask_inv [OF inv, of now] r1 c1(1) ph by auto
  from RequestTask_reduce [OF ci, of now] obtain ss2 ts2 r2 where
    r2: "RequestTask now c1 = Inr (c1\<lparr>co_reduceStatuses := ss2, co_reduceTimes := ts2\<rparr>, reduce_reply c1 r2)"
    "scan now [0..<length (co_reduceStatuses c1)] (co_reduceStatuses c1) (co_reduceTimes c1) = Inr (ss2, ts2, r2)" by blast
  have "r2 \<noteq> None" using scan_finds_idle [OF r2(2), of i] i c1(1) by simp
  then show ?thesis using r2(1) by auto
qed

text \<open>The tasks of stopped workers come back. As long as a job is not done, and once every task in progress has
  been out for more than ten seconds, the next request or the one after it hands out a task of the
  current phase.\<close>

theorem stalled_tasks_come_back:
  assumes run: "reach (job_init files nReduce) job_step s" and ne: "files \<noteq> []" "0 < nReduce"
    and open_: "\<not> Done (coord s)"
    and st: "stalled now (co_mapStatuses (coord s)) (co_mapTimes (coord s))"
      "stalled now (co_reduceStatuses (coord s)) (co_reduceTimes (coord s))"
  shows "\<exists>c1 rep1. RequestTask now (coord s) = Inr (c1, rep1) \<and>
    (tr_TaskType rep1 \<noteq> ''wait'' \<or> (\<exists>c2 rep2. RequestTask now c1 = Inr (c2, rep2) \<and> tr_TaskType rep2 \<noteq> ''wait''))"
proof -
  have inv: "job_inv files nReduce s" by (rule mr.reach_inv [OF run])
  then have ci: "coord_inv (coord s)" "co_files (coord s) = files" "co_nReduce (coord s) = int nReduce"
    by (auto simp: job_inv_def)
  obtain c1 rep1 where r1: "RequestTask now (coord s) = Inr (c1, rep1)" using RequestTask_inv [OF ci(1), of now] by blast
  have ne2: "co_reduceStatuses (coord s) \<noteq> []" using ci ne by (auto simp: coord_inv_def)
  show ?thesis
  proof (cases "co_phase (coord s)")
    case PhaseMap
    then show ?thesis using map_reassigned [OF ci(1) PhaseMap _ st(1) r1] r1 ci(2) ne(1) by fastforce
  next
    case PhaseReduce
    then show ?thesis using reduce_reassigned [OF ci(1) PhaseReduce ne2 st(2) r1] r1 by fastforce
  next
    case PhaseDone
    then show ?thesis using open_ by (simp add: Done_def)
  qed
qed

theorem stalled_tasks_come_back_witness:
  "\<exists>c1 rep1. RequestTask 20000000000 (coord (demo_job ! 3)) = Inr (c1, rep1) \<and>
    (tr_TaskType rep1 \<noteq> ''wait'' \<or> (\<exists>c2 rep2. RequestTask 20000000000 c1 = Inr (c2, rep2) \<and> tr_TaskType rep2 \<noteq> ''wait''))"
proof -
  have "\<not> Done (coord (demo_job ! 3))" "stalled 20000000000 (co_mapStatuses (coord (demo_job ! 3))) (co_mapTimes (coord (demo_job ! 3)))"
    "stalled 20000000000 (co_reduceStatuses (coord (demo_job ! 3))) (co_reduceTimes (coord (demo_job ! 3)))"
    by (simp_all add: demo_simps Done_def stalled_def timed_out_def task_timeout_def)
  with stalled_tasks_come_back [OF demo_job_reach(1)] show ?thesis by simp
qed

end
