(* ===== verification/Go_Strings.thy ===== *)
theory Go_Strings
  imports Prelude
begin

text \<open>
  What the program uses of \<open>strings\<close> and \<open>path/filepath\<close> of the Go library: joining, splitting and trimming strings, and cleaning
  and joining paths.
\<close>

text \<open>\<open>strings.Join\<close>\<close>

fun strings_Join :: "string list \<Rightarrow> string \<Rightarrow> string" where
  "strings_Join [] sep = []"
| "strings_Join [s] sep = s"
| "strings_Join (s # t # ss) sep = s @ sep @ strings_Join (t # ss) sep"

abbreviation nl :: char where
  "nl \<equiv> char_of (10::nat)"

text \<open>\<open>strings.Split\<close> at one character, and \<open>strings.TrimSpace\<close>.\<close>

fun split_on :: "char \<Rightarrow> string \<Rightarrow> string list" where
  "split_on c [] = [[]]"
| "split_on c (x # xs) =
     (if x = c then [] # split_on c xs
      else (case split_on c xs of [] \<Rightarrow> [[x]] | y # ys \<Rightarrow> (x # y) # ys))"

definition is_space :: "char \<Rightarrow> bool" where
  "is_space c = (let n = of_char c :: nat in n = 32 \<or> 9 \<le> n \<and> n \<le> 13)"

definition TrimSpace :: "string \<Rightarrow> string" where
  "TrimSpace s = rev (dropWhile is_space (rev (dropWhile is_space s)))"

text \<open>\<open>filepath.Clean\<close>: the components of a path one after the other, with those that remain on a stack.\<close>

fun clean_comps :: "bool \<Rightarrow> string list \<Rightarrow> string list \<Rightarrow> string list" where
  "clean_comps rooted st [] = rev st"
| "clean_comps rooted st (c # cs) =
     (if c = '''' \<or> c = ''.'' then clean_comps rooted st cs
      else if c = ''..'' then
        (case st of
           t # ts \<Rightarrow> if t = ''..'' then clean_comps rooted (''..'' # st) cs else clean_comps rooted ts cs
         | [] \<Rightarrow> if rooted then clean_comps rooted [] cs else clean_comps rooted [''..''] cs)
      else clean_comps rooted (c # st) cs)"

definition Clean :: "string \<Rightarrow> string" where
  "Clean p =
     (if p = '''' then ''.''
      else let rooted = (hd p = CHR ''/''); cs = clean_comps rooted [] (split_on (CHR ''/'') p)
           in if rooted then CHR ''/'' # strings_Join cs ''/''
              else if cs = [] then ''.'' else strings_Join cs ''/'')"

definition filepath_Join :: "string list \<Rightarrow> string" where
  "filepath_Join es = (case dropWhile (\<lambda>e. e = '''') es of [] \<Rightarrow> '''' | e # r \<Rightarrow> Clean (strings_Join (e # r) ''/''))"

lemma nl_space: "is_space nl"
  by (simp add: is_space_def)

lemma split_on_nonempty: "split_on c s \<noteq> []"
  by (induction s) (auto split: list.splits)

lemma split_on_word: "c \<notin> set p \<Longrightarrow> split_on c (p @ c # s) = p # split_on c s"
  by (induction p) auto

lemma split_on_last: "c \<notin> set p \<Longrightarrow> split_on c p = [p]"
  by (induction p) auto

lemma split_on_Join: "ps \<noteq> [] \<Longrightarrow> (\<And>p. p \<in> set ps \<Longrightarrow> c \<notin> set p) \<Longrightarrow> split_on c (strings_Join ps [c]) = ps"
proof (induction ps "[c]" rule: strings_Join.induct)
  case (3 s t ss)
  then show ?case using split_on_word [of c s] by simp
qed (simp_all add: split_on_last)

lemma TrimSpace_ends:
  assumes "s \<noteq> []" "\<not> is_space (hd s)" "\<not> is_space (last s)" "is_space c"
  shows "TrimSpace (s @ [c]) = s"
proof -
  have "dropWhile is_space (s @ [c]) = s @ [c]" using assms(1,2) by (cases s) auto
  moreover have "dropWhile is_space (rev s) = rev s" using assms(1,3) by (cases "rev s") (auto simp: last_rev hd_rev [symmetric])
  ultimately show ?thesis using assms(4) by (simp add: TrimSpace_def)
qed

lemma clean_comps_up: "clean_comps False (st @ [''..'']) cs = ''..'' # clean_comps False st cs"
proof (induction False st cs rule: clean_comps.induct)
  case (2 st c cs)
  then show ?case by (cases st) auto
qed simp

lemma Join_Cons: "cs \<noteq> [] \<Longrightarrow> strings_Join (c # cs) sep = c @ sep @ strings_Join cs sep"
  by (cases cs) auto

end
