(* ===== verification/Mr_Worker.thy ===== *)
theory Mr_Worker
  imports Mr_Coordinator Go_Strings "HOL-Library.Char_ord" "HOL-Library.List_Lexorder"
begin

text \<open>
  The MapReduce worker of \<open>src/src/mr/worker.go\<close>, the sequential reference program
  \<open>src/src/main/mrsequential.go\<close>, and the applications of \<open>src/src/mrapps\<close>. Files are a map from path to
  contents. Texts are ASCII, one \<open>char\<close> per byte. The JSON encoder and decoder are the parameters \<open>jenc\<close> (one
  pair) and \<open>jdec\<close> (all pairs up to the end of the input), and the sorting routine of the library is the
  parameter \<open>srt\<close>, because \<open>sort.Sort\<close> does not say how it orders pairs with equal keys.
\<close>

section \<open>File names\<close>

definition inter_name :: "nat \<Rightarrow> nat \<Rightarrow> string" where
  "inter_name m r = ''mr-'' @ itoa m @ ''-'' @ itoa r"

definition out_name :: "nat \<Rightarrow> string" where
  "out_name r = ''mr-out-'' @ itoa r"

section \<open>Pairs and partitioning\<close>

record KeyValue =
  Key :: string
  Value :: string

type_synonym files = "string \<Rightarrow> string option"

text \<open>The hash, cut to 31 bits.\<close>

definition ihash :: "string \<Rightarrow> nat" where
  "ihash key = unat (fnv32a key AND 0x7fffffff)"

section \<open>Map tasks\<close>

text \<open>The loop over the pairs \<open>mapf\<close> returned: each is appended to the temporary file of its bucket. Taking the
  remainder by zero panics.\<close>

fun encode_all :: "(KeyValue \<Rightarrow> string) \<Rightarrow> nat \<Rightarrow> KeyValue list \<Rightarrow> string list \<Rightarrow> string list res" where
  "encode_all jenc n [] temps = Inr temps"
| "encode_all jenc n (kv # kvs) temps =
     (if n = 0 then Inl DivideByZero
      else rbind (slice_get temps (int (ihash (Key kv) mod n))) (\<lambda>s.
           encode_all jenc n kvs (temps[ihash (Key kv) mod n := s @ jenc kv])))"

text \<open>The loop that renames the temporary files.\<close>

fun rename_all :: "nat \<Rightarrow> nat \<Rightarrow> string list \<Rightarrow> files \<Rightarrow> files" where
  "rename_all m i [] fs = fs"
| "rename_all m i (s # ss) fs = rename_all m (Suc i) ss (fs(inter_name m i \<mapsto> s))"

definition report_of :: "string \<Rightarrow> int \<Rightarrow> ReportTaskArgs" where
  "report_of ty k = \<lparr>rt_WorkerId = 0, rt_TaskType = ty, rt_TaskId = k\<rparr>"

definition doMap :: "(KeyValue \<Rightarrow> string) \<Rightarrow> (string \<Rightarrow> string \<Rightarrow> KeyValue list) \<Rightarrow> TaskReply \<Rightarrow> files
    \<Rightarrow> (files \<times> ReportTaskArgs) res" where
  "doMap jenc mapf reply fs =
     (case fs (tr_Filename reply) of
        None \<Rightarrow> Inl (LogFatal ''cannot open'')
      | Some content \<Rightarrow>
          rbind (encode_all jenc (nat (tr_NReduce reply)) (mapf (tr_Filename reply) content)
                  (replicate (nat (tr_NReduce reply)) [])) (\<lambda>temps.
          Inr (rename_all (nat (tr_MapTaskId reply)) 0 temps fs, report_of (tr_TaskType reply) (tr_MapTaskId reply))))"

section \<open>Reduce tasks\<close>

text \<open>The loop over a sorted list of pairs: a run of pairs with one key is one call of \<open>reducef\<close>.\<close>

function reduce_loop :: "(string \<Rightarrow> string list \<Rightarrow> string) \<Rightarrow> KeyValue list \<Rightarrow> (string \<times> string) list" where
  "reduce_loop reducef [] = []"
| "reduce_loop reducef (kv # kvs) =
     (Key kv, reducef (Key kv) (Value kv # map Value (takeWhile (\<lambda>x. Key x = Key kv) kvs)))
       # reduce_loop reducef (dropWhile (\<lambda>x. Key x = Key kv) kvs)"
  by pat_completeness auto

termination
  by (relation "measure (\<lambda>(f, kvs). length kvs)") (auto simp: less_Suc_eq_le length_dropWhile_le)

definition format_line :: "string \<times> string \<Rightarrow> string" where
  "format_line p = fst p @ '' '' @ snd p @ [char_of (10::nat)]"

text \<open>The loop over the intermediate files of a reduce task; a file that cannot be opened is skipped.\<close>

fun read_inter :: "(string \<Rightarrow> KeyValue list) \<Rightarrow> files \<Rightarrow> nat list \<Rightarrow> nat \<Rightarrow> KeyValue list" where
  "read_inter jdec fs [] r = []"
| "read_inter jdec fs (i # is) r =
     (case fs (inter_name i r) of None \<Rightarrow> [] | Some s \<Rightarrow> jdec s) @ read_inter jdec fs is r"

definition doReduce :: "(string \<Rightarrow> KeyValue list) \<Rightarrow> (KeyValue list \<Rightarrow> KeyValue list) \<Rightarrow> (string \<Rightarrow> string list \<Rightarrow> string)
    \<Rightarrow> TaskReply \<Rightarrow> files \<Rightarrow> files \<times> ReportTaskArgs" where
  "doReduce jdec srt reducef reply fs =
     (let intermediate = srt (read_inter jdec fs [0..<nat (tr_NMap reply)] (nat (tr_ReduceTaskId reply)));
          out = concat (map format_line (reduce_loop reducef intermediate))
      in (fs(out_name (nat (tr_ReduceTaskId reply)) \<mapsto> out), report_of (tr_TaskType reply) (tr_ReduceTaskId reply)))"

section \<open>The worker's loop\<close>

text \<open>\<open>net/rpc\<close> decodes a reply with \<open>encoding/gob\<close>, which does not send fields with the zero value: they keep
  what the variable held. \<open>Worker\<close> uses one variable for all its requests.\<close>

definition gob_into :: "TaskReply \<Rightarrow> TaskReply \<Rightarrow> TaskReply" where
  "gob_into old new =
     \<lparr>tr_TaskType = (if tr_TaskType new = '''' then tr_TaskType old else tr_TaskType new),
      tr_Filename = (if tr_Filename new = '''' then tr_Filename old else tr_Filename new),
      tr_MapTaskId = (if tr_MapTaskId new = 0 then tr_MapTaskId old else tr_MapTaskId new),
      tr_ReduceTaskId = (if tr_ReduceTaskId new = 0 then tr_ReduceTaskId old else tr_ReduceTaskId new),
      tr_NReduce = (if tr_NReduce new = 0 then tr_NReduce old else tr_NReduce new),
      tr_NMap = (if tr_NMap new = 0 then tr_NMap old else tr_NMap new)\<rparr>"

text \<open>One round of the loop of \<open>Worker\<close>, from the answer of the coordinator: the variable after the call, the files
  and the report it sends. \<open>None\<close> when it waits.\<close>

definition worker_round :: "(KeyValue \<Rightarrow> string) \<Rightarrow> (string \<Rightarrow> KeyValue list) \<Rightarrow> (KeyValue list \<Rightarrow> KeyValue list)
    \<Rightarrow> (string \<Rightarrow> string \<Rightarrow> KeyValue list) \<Rightarrow> (string \<Rightarrow> string list \<Rightarrow> string)
    \<Rightarrow> TaskReply \<Rightarrow> TaskReply \<Rightarrow> files \<Rightarrow> (TaskReply \<times> files \<times> ReportTaskArgs option) res" where
  "worker_round jenc jdec srt mapf reducef old answer fs =
     (let reply = gob_into old answer in
      if tr_TaskType reply = ''map''
      then rbind (doMap jenc mapf reply fs) (\<lambda>(fs', rep). Inr (reply, fs', Some rep))
      else if tr_TaskType reply = ''reduce''
      then (let (fs', rep) = doReduce jdec srt reducef reply fs in Inr (reply, fs', Some rep))
      else Inr (reply, fs, None))"

section \<open>The sequential program\<close>

fun read_all :: "(string \<Rightarrow> string \<Rightarrow> KeyValue list) \<Rightarrow> files \<Rightarrow> string list \<Rightarrow> KeyValue list res" where
  "read_all mapf fs [] = Inr []"
| "read_all mapf fs (f # fls) =
     (case fs f of
        None \<Rightarrow> Inl (LogFatal ''cannot open'')
      | Some content \<Rightarrow> rbind (read_all mapf fs fls) (\<lambda>rest. Inr (mapf f content @ rest)))"

definition mrsequential :: "(KeyValue list \<Rightarrow> KeyValue list) \<Rightarrow> (string \<Rightarrow> string \<Rightarrow> KeyValue list)
    \<Rightarrow> (string \<Rightarrow> string list \<Rightarrow> string) \<Rightarrow> string list \<Rightarrow> files \<Rightarrow> files res" where
  "mrsequential srt mapf reducef fls fs =
     rbind (read_all mapf fs fls) (\<lambda>intermediate.
     Inr (fs(''mr-out-0'' \<mapsto> concat (map format_line (reduce_loop reducef (srt intermediate))))))"

section \<open>Applications\<close>

definition isLetter :: "char \<Rightarrow> bool" where
  "isLetter c = (let n = of_char c :: nat in 65 \<le> n \<and> n \<le> 90 \<or> 97 \<le> n \<and> n \<le> 122)"

text \<open>\<open>strings.FieldsFunc\<close>: the maximal runs of characters that are no separators.\<close>

function FieldsFunc :: "(char \<Rightarrow> bool) \<Rightarrow> string \<Rightarrow> string list" where
  "FieldsFunc sep s =
     (case dropWhile sep s of
        [] \<Rightarrow> []
      | c # cs \<Rightarrow> takeWhile (\<lambda>x. \<not> sep x) (c # cs) # FieldsFunc sep (dropWhile (\<lambda>x. \<not> sep x) (c # cs)))"
  by pat_completeness auto

termination
proof (relation "measure (\<lambda>(sep, s). length s)")
  fix sep s c cs assume d: "dropWhile sep s = c # cs"
  have "\<not> sep c" using hd_dropWhile [of sep s] d by simp
  then have "length (dropWhile (\<lambda>x. \<not> sep x) (c # cs)) \<le> length cs" by (simp add: length_dropWhile_le)
  also have "\<dots> < length s" using length_dropWhile_le [of sep s] d by simp
  finally show "((sep, dropWhile (\<lambda>x. \<not> sep x) (c # cs)), sep, s) \<in> measure (\<lambda>(sep, s). length s)" by simp
qed simp

declare FieldsFunc.simps [simp del]

definition wc_Map :: "string \<Rightarrow> string \<Rightarrow> KeyValue list" where
  "wc_Map filename contents =
     map (\<lambda>w. \<lparr>Key = w, Value = ''1''\<rparr>) (FieldsFunc (\<lambda>r. \<not> isLetter r) contents)"

definition wc_Reduce :: "string \<Rightarrow> string list \<Rightarrow> string" where
  "wc_Reduce key values = itoa (length values)"

text \<open>The indexer ranges over a Go map, in an order the language leaves open: \<open>order\<close> stands for it.\<close>

definition indexer_Map :: "(string list \<Rightarrow> string list) \<Rightarrow> string \<Rightarrow> string \<Rightarrow> KeyValue list" where
  "indexer_Map order document value =
     map (\<lambda>w. \<lparr>Key = w, Value = document\<rparr>) (order (remdups (FieldsFunc (\<lambda>x. \<not> isLetter x) value)))"

definition indexer_Reduce :: "string \<Rightarrow> string list \<Rightarrow> string" where
  "indexer_Reduce key values = itoa (length values) @ '' '' @ strings_Join (sort values) '',''"

definition nocrash_Map :: "string \<Rightarrow> string \<Rightarrow> KeyValue list" where
  "nocrash_Map filename contents =
     [\<lparr>Key = ''a'', Value = filename\<rparr>, \<lparr>Key = ''b'', Value = itoa (length filename)\<rparr>,
      \<lparr>Key = ''c'', Value = itoa (length contents)\<rparr>, \<lparr>Key = ''d'', Value = ''xyzzy''\<rparr>]"

definition nocrash_Reduce :: "string \<Rightarrow> string list \<Rightarrow> string" where
  "nocrash_Reduce key values = strings_Join (sort values) '' ''"

text \<open>\<open>crash.go\<close> is the same after a random number below 1000: below 330 the process exits.\<close>

definition crash_Map :: "nat \<Rightarrow> string \<Rightarrow> string \<Rightarrow> KeyValue list option" where
  "crash_Map rr filename contents = (if rr < 330 then None else Some (nocrash_Map filename contents))"

definition crash_Reduce :: "nat \<Rightarrow> string \<Rightarrow> string list \<Rightarrow> string option" where
  "crash_Reduce rr key values = (if rr < 330 then None else Some (nocrash_Reduce key values))"

definition early_exit_Map :: "string \<Rightarrow> string \<Rightarrow> KeyValue list" where
  "early_exit_Map filename contents = [\<lparr>Key = filename, Value = ''1''\<rparr>]"

definition early_exit_Reduce :: "string \<Rightarrow> string list \<Rightarrow> string" where
  "early_exit_Reduce key values = itoa (length values)"

definition rtiming_Map :: "string \<Rightarrow> string \<Rightarrow> KeyValue list" where
  "rtiming_Map filename contents =
     map (\<lambda>k. \<lparr>Key = k, Value = ''1''\<rparr>) [''a'', ''b'', ''c'', ''d'', ''e'', ''f'', ''g'', ''h'', ''i'', ''j'']"

end
