(* ===== verification/Mr_Job.thy ===== *)
theory Mr_Job
  imports Mr_Worker
begin

text \<open>
  What a MapReduce job computes: the files a map task writes, the output of a reduce task, and that the outputs
  of a distributed job hold exactly the lines of the sequential program, in whatever order and however often
  the tasks were executed. The last section shows what the reuse of the reply variable in the worker does.
\<close>

section \<open>File names are different\<close>

lemma inter_name_inj [simp]: "inter_name m r = inter_name m' r' \<longleftrightarrow> m = m' \<and> r = r'"
  by (auto simp: inter_name_def dest: itoa_pair_inj)

lemma inter_not_out [simp]: "inter_name m r \<noteq> out_name r'"
proof
  assume "inter_name m r = out_name r'"
  then have "hd (itoa m) = CHR ''o''" by (cases "itoa m") (auto simp: inter_name_def out_name_def)
  then show False using itoa_digits [of "CHR ''o''" m] digit_neq(2) by (metis hd_in_set itoa_nonempty)
qed

lemma out_name_inj [simp]: "out_name r = out_name r' \<longleftrightarrow> r = r'"
  by (simp add: out_name_def)

section \<open>What a map task writes\<close>

definition bucket :: "nat \<Rightarrow> KeyValue \<Rightarrow> nat" where
  "bucket n kv = ihash (Key kv) mod n"

definition part :: "nat \<Rightarrow> nat \<Rightarrow> KeyValue list \<Rightarrow> KeyValue list" where
  "part n i kvs = filter (\<lambda>kv. bucket n kv = i) kvs"

lemma encode_all_result:
  "0 < n \<Longrightarrow> length temps = n \<Longrightarrow>
    encode_all jenc n kvs temps = Inr (map (\<lambda>i. temps ! i @ concat (map jenc (part n i kvs))) [0..<n])"
proof (induction kvs arbitrary: temps)
  case Nil
  then show ?case using map_nth [of temps] by (simp add: part_def)
next
  case (Cons kv kvs)
  let ?b = "ihash (Key kv) mod n"
  have b: "?b < length temps" using Cons.prems by simp
  have "encode_all jenc n kvs (temps[?b := temps ! ?b @ jenc kv])
      = Inr (map (\<lambda>i. temps[?b := temps ! ?b @ jenc kv] ! i @ concat (map jenc (part n i kvs))) [0..<n])"
    using Cons.prems by (intro Cons.IH) simp_all
  also have "map (\<lambda>i. temps[?b := temps ! ?b @ jenc kv] ! i @ concat (map jenc (part n i kvs))) [0..<n]
      = map (\<lambda>i. temps ! i @ concat (map jenc (part n i (kv # kvs)))) [0..<n]"
    using Cons.prems by (intro map_cong) (auto simp: part_def bucket_def nth_list_update)
  finally show ?case using Cons.prems b by (simp add: slice_get_in)
qed

lemma rename_all_other: "(\<And>k. k < length ss \<Longrightarrow> p \<noteq> inter_name m (i + k)) \<Longrightarrow> rename_all m i ss fs p = fs p"
proof (induction ss arbitrary: i fs)
  case (Cons s ss)
  have "p \<noteq> inter_name m i" using Cons.prems [of 0] by simp
  moreover have "rename_all m (Suc i) ss (fs(inter_name m i \<mapsto> s)) p = (fs(inter_name m i \<mapsto> s)) p"
    using Cons.prems [of "Suc _"] by (intro Cons.IH) auto
  ultimately show ?case by simp
qed simp

lemma rename_all_in: "k < length ss \<Longrightarrow> rename_all m i ss fs (inter_name m (i + k)) = Some (ss ! k)"
proof (induction ss arbitrary: i k fs)
  case (Cons s ss)
  show ?case
  proof (cases k)
    case 0
    have "rename_all m (Suc i) ss (fs(inter_name m i \<mapsto> s)) (inter_name m i) = (fs(inter_name m i \<mapsto> s)) (inter_name m i)"
      by (rule rename_all_other) simp
    then show ?thesis using 0 by simp
  next
    case (Suc k')
    then show ?thesis using Cons.IH [of k' "Suc i"] Cons.prems by simp
  qed
qed simp

text \<open>A map task that finds its file writes, for every bucket, the pairs of the bucket in the order \<open>mapf\<close> gave
  them, and touches no other file.\<close>

lemma doMap_result:
  assumes f: "fs (tr_Filename reply) = Some content" and n: "tr_NReduce reply = int n" "0 < n" and m: "tr_MapTaskId reply = int m"
  shows "\<exists>fs'. doMap jenc mapf reply fs = Inr (fs', report_of (tr_TaskType reply) (int m))
    \<and> (\<forall>i < n. fs' (inter_name m i) = Some (concat (map jenc (part n i (mapf (tr_Filename reply) content)))))
    \<and> (\<forall>p. (\<forall>i < n. p \<noteq> inter_name m i) \<longrightarrow> fs' p = fs p)"
proof -
  define temps where "temps = map (\<lambda>i. concat (map jenc (part n i (mapf (tr_Filename reply) content)))) [0..<n]"
  have "encode_all jenc n (mapf (tr_Filename reply) content) (replicate n []) = Inr temps"
    using encode_all_result [OF n(2), of "replicate n []" jenc] by (simp add: temps_def cong: map_cong)
  then have "doMap jenc mapf reply fs = Inr (rename_all m 0 temps fs, report_of (tr_TaskType reply) (int m))"
    using f n m by (simp add: doMap_def)
  moreover have "rename_all m 0 temps fs (inter_name m i) = Some (concat (map jenc (part n i (mapf (tr_Filename reply) content))))" if "i < n" for i
    using rename_all_in [of i temps m 0 fs] that by (simp add: temps_def)
  moreover have "rename_all m 0 temps fs p = fs p" if "\<forall>i < n. p \<noteq> inter_name m i" for p
    by (rule rename_all_other) (use that in \<open>simp add: temps_def\<close>)
  ultimately show ?thesis by blast
qed

section \<open>What a reduce task writes\<close>

definition sorts_by_key :: "(KeyValue list \<Rightarrow> KeyValue list) \<Rightarrow> bool" where
  "sorts_by_key srt \<longleftrightarrow> (\<forall>xs. mset (srt xs) = mset xs \<and> sorted (map Key (srt xs)))"

definition keys :: "KeyValue list \<Rightarrow> string set" where
  "keys kvs = Key ` set kvs"

definition values_of :: "string \<Rightarrow> KeyValue list \<Rightarrow> string list" where
  "values_of k kvs = map Value (filter (\<lambda>kv. Key kv = k) kvs)"

lemma sorted_run:
  assumes "sorted (map Key (kv # kvs))"
  shows "takeWhile (\<lambda>x. Key x = Key kv) kvs = filter (\<lambda>x. Key x = Key kv) kvs"
    and "dropWhile (\<lambda>x. Key x = Key kv) kvs = filter (\<lambda>x. Key x \<noteq> Key kv) kvs"
proof -
  show "takeWhile (\<lambda>x. Key x = Key kv) kvs = filter (\<lambda>x. Key x = Key kv) kvs" using assms
  proof (induction kvs)
    case (Cons x xs)
    show ?case
    proof (cases "Key x = Key kv")
      case False
      then have "\<forall>y \<in> set (x # xs). Key y \<noteq> Key kv" using Cons.prems by auto
      then show ?thesis using False by (simp add: filter_False)
    qed (use Cons in auto)
  qed simp
  show "dropWhile (\<lambda>x. Key x = Key kv) kvs = filter (\<lambda>x. Key x \<noteq> Key kv) kvs" using assms
  proof (induction kvs)
    case (Cons x xs)
    show ?case
    proof (cases "Key x = Key kv")
      case False
      then have "\<forall>y \<in> set (x # xs). Key y \<noteq> Key kv" using Cons.prems by auto
      then show ?thesis using False by (simp add: filter_True)
    qed (use Cons in auto)
  qed simp
qed

text \<open>On a sorted list the loop calls \<open>reducef\<close> once for each key, in increasing order, with all its values.\<close>

lemma reduce_loop_sorted:
  "sorted (map Key kvs) \<Longrightarrow> reduce_loop f kvs = map (\<lambda>k. (k, f k (values_of k kvs))) (sorted_list_of_set (keys kvs))"
proof (induction f kvs rule: reduce_loop.induct)
  case (2 f kv kvs)
  let ?rest = "filter (\<lambda>x. Key x \<noteq> Key kv) kvs"
  note run = sorted_run [OF "2.prems"]
  have "sorted (map Key ?rest)" using "2.prems" by (simp add: sorted_filter)
  with "2.IH" run(2) have ih: "reduce_loop f ?rest = map (\<lambda>k. (k, f k (values_of k ?rest))) (sorted_list_of_set (keys ?rest))" by simp
  have ks: "keys (kv # kvs) = insert (Key kv) (keys ?rest)" by (auto simp: keys_def)
  have fin: "finite (keys ?rest)" and out: "Key kv \<notin> keys ?rest" by (auto simp: keys_def)
  have "\<forall>k \<in> keys ?rest. Key kv < k" using "2.prems" by (fastforce simp: keys_def)
  then have "sorted_list_of_set (keys (kv # kvs)) = Key kv # sorted_list_of_set (keys ?rest)"
    unfolding ks using fin out by (subst sorted_list_of_set_insert_remove) (auto intro!: insort_is_Cons less_imp_le)
  moreover have "values_of k ?rest = values_of k (kv # kvs)" if "k \<in> keys ?rest" for k
    using that out by (auto simp: values_of_def intro!: arg_cong [of _ _ "map Value"] filter_cong)
  moreover have "values_of (Key kv) (kv # kvs) = Value kv # map Value (filter (\<lambda>x. Key x = Key kv) kvs)" by (simp add: values_of_def)
  ultimately show ?case using ih run fin by simp
qed (simp add: keys_def)

section \<open>Jobs\<close>

text \<open>The tasks as the coordinator describes them.\<close>

definition map_task :: "string list \<Rightarrow> nat \<Rightarrow> nat \<Rightarrow> TaskReply" where
  "map_task fls n m = map_reply (MakeCoordinator fls n) (Some m)"

definition reduce_task :: "string list \<Rightarrow> nat \<Rightarrow> nat \<Rightarrow> TaskReply" where
  "reduce_task fls n r = reduce_reply (MakeCoordinator fls n) (Some r)"

fun run_maps :: "(KeyValue \<Rightarrow> string) \<Rightarrow> (string \<Rightarrow> string \<Rightarrow> KeyValue list) \<Rightarrow> string list \<Rightarrow> nat \<Rightarrow> nat list \<Rightarrow> files \<Rightarrow> files res" where
  "run_maps jenc mapf fls n [] fs = Inr fs"
| "run_maps jenc mapf fls n (m # ms) fs = rbind (doMap jenc mapf (map_task fls n m) fs) (\<lambda>(fs', _). run_maps jenc mapf fls n ms fs')"

fun run_reduces :: "(string \<Rightarrow> KeyValue list) \<Rightarrow> (KeyValue list \<Rightarrow> KeyValue list) \<Rightarrow> (string \<Rightarrow> string list \<Rightarrow> string)
    \<Rightarrow> string list \<Rightarrow> nat \<Rightarrow> nat list \<Rightarrow> files \<Rightarrow> files" where
  "run_reduces jdec srt reducef fls n [] fs = fs"
| "run_reduces jdec srt reducef fls n (r # rs) fs =
     run_reduces jdec srt reducef fls n rs (fst (doReduce jdec srt reducef (reduce_task fls n r) fs))"

text \<open>The pairs of the whole input, file by file.\<close>

definition all_pairs :: "(string \<Rightarrow> string \<Rightarrow> KeyValue list) \<Rightarrow> files \<Rightarrow> string list \<Rightarrow> KeyValue list" where
  "all_pairs mapf fs fls = concat (map (\<lambda>f. mapf f (the (fs f))) fls)"

definition input_ok :: "files \<Rightarrow> string list \<Rightarrow> bool" where
  "input_ok fs fls \<longleftrightarrow> (\<forall>f \<in> set fls. fs f \<noteq> None \<and> (\<forall>m i. f \<noteq> inter_name m i))"

definition maps_done :: "(KeyValue \<Rightarrow> string) \<Rightarrow> (string \<Rightarrow> string \<Rightarrow> KeyValue list) \<Rightarrow> string list \<Rightarrow> nat \<Rightarrow> files \<Rightarrow> nat set \<Rightarrow> files \<Rightarrow> bool" where
  "maps_done jenc mapf fls n fs0 M fs \<longleftrightarrow> (\<forall>f \<in> set fls. fs f = fs0 f)
     \<and> (\<forall>m \<in> M. \<forall>i < n. fs (inter_name m i) = Some (concat (map jenc (part n i (mapf (fls ! m) (the (fs0 (fls ! m))))))))"

lemma run_maps_result:
  assumes "input_ok fs0 fls" "0 < n" "set ms \<subseteq> {..<length fls}" "maps_done jenc mapf fls n fs0 M fs"
  shows "\<exists>fs'. run_maps jenc mapf fls n ms fs = Inr fs' \<and> maps_done jenc mapf fls n fs0 (M \<union> set ms) fs'"
  using assms(3,4)
proof (induction ms arbitrary: M fs)
  case (Cons m ms)
  have m: "m < length fls" "fls ! m \<in> set fls" using Cons.prems(1) by auto
  have "fs (fls ! m) = fs0 (fls ! m)" using Cons.prems(2) m by (simp add: maps_done_def)
  moreover obtain content where c: "fs0 (fls ! m) = Some content" using assms(1) m(2) unfolding input_ok_def by blast
  ultimately have f: "fs (tr_Filename (map_task fls n m)) = Some content"
    by (simp add: map_task_def map_reply_def MakeCoordinator_def)
  have t: "tr_NReduce (map_task fls n m) = int n" "tr_MapTaskId (map_task fls n m) = int m" "tr_Filename (map_task fls n m) = fls ! m"
    by (simp_all add: map_task_def map_reply_def MakeCoordinator_def)
  from doMap_result [where fs = fs, OF f t(1) assms(2) t(2), of jenc mapf] t(3) obtain fs1 where
    r: "doMap jenc mapf (map_task fls n m) fs = Inr (fs1, report_of (tr_TaskType (map_task fls n m)) (int m))"
    "\<forall>i < n. fs1 (inter_name m i) = Some (concat (map jenc (part n i (mapf (fls ! m) content))))"
    "\<forall>p. (\<forall>i < n. p \<noteq> inter_name m i) \<longrightarrow> fs1 p = fs p" by auto
  have inp: "\<forall>f \<in> set fls. fs1 f = fs0 f"
    using r(3) assms(1) Cons.prems(2) by (simp add: input_ok_def maps_done_def)
  have "maps_done jenc mapf fls n fs0 (insert m M) fs1"
    unfolding maps_done_def
  proof (intro conjI ballI allI impI)
    fix k i assume k: "k \<in> insert m M" "i < n"
    show "fs1 (inter_name k i) = Some (concat (map jenc (part n i (mapf (fls ! k) (the (fs0 (fls ! k)))))))"
    proof (cases "k = m")
      case True
      then show ?thesis using r(2) c k(2) by simp
    next
      case False
      then have "fs1 (inter_name k i) = fs (inter_name k i)" using r(3) by auto
      then show ?thesis using False k Cons.prems(2) by (auto simp: maps_done_def)
    qed
  qed (use inp in blast)
  from Cons.IH [OF _ this] Cons.prems(1) r(1) show ?case by (auto simp: Un_insert_left)
qed auto

lemma read_inter_result:
  assumes d: "maps_done jenc mapf fls n fs0 {..<length fls} fs" and r: "r < n"
    and codec: "\<And>kvs. jdec (concat (map jenc kvs)) = kvs"
  shows "read_inter jdec fs [0..<length fls] r = part n r (all_pairs mapf fs0 fls)"
proof -
  have "read_inter jdec fs is r = part n r (concat (map (\<lambda>m. mapf (fls ! m) (the (fs0 (fls ! m)))) is))"
    if "set is \<subseteq> {..<length fls}" for "is"
    using that
  proof (induction "is")
    case (Cons i js)
    then have "fs (inter_name i r) = Some (concat (map jenc (part n r (mapf (fls ! i) (the (fs0 (fls ! i)))))))"
      using d r by (auto simp: maps_done_def)
    then show ?case using Cons codec by (simp add: part_def)
  qed (simp add: part_def)
  from this [of "[0..<length fls]"] have "read_inter jdec fs [0..<length fls] r
      = part n r (concat (map (\<lambda>m. mapf (fls ! m) (the (fs0 (fls ! m)))) [0..<length fls]))" by (simp add: atLeast0LessThan)
  also have "map (\<lambda>m. mapf (fls ! m) (the (fs0 (fls ! m)))) [0..<length fls] = map (\<lambda>f. mapf f (the (fs0 f))) fls"
    by (rule nth_equalityI) simp_all
  finally show ?thesis by (simp add: all_pairs_def)
qed

lemma read_inter_cong: "(\<And>i. fs (inter_name i r) = fs' (inter_name i r)) \<Longrightarrow> read_inter jdec fs is r = read_inter jdec fs' is r"
  by (induction "is") auto

lemma run_reduces_result:
  fixes fs0 :: files
  shows "\<forall>m i. run_reduces jdec srt f fls n rs fs (inter_name m i) = fs (inter_name m i)"
    and "(\<forall>r \<in> R. fs (out_name r) = Some (concat (map format_line (reduce_loop f (srt (read_inter jdec fs [0..<length fls] r))))))
      \<Longrightarrow> (\<forall>r \<in> R \<union> set rs. run_reduces jdec srt f fls n rs fs (out_name r)
            = Some (concat (map format_line (reduce_loop f (srt (read_inter jdec fs [0..<length fls] r))))))"
proof -
  have step: "fst (doReduce jdec srt f (reduce_task fls n r) fs)
      = fs(out_name r \<mapsto> concat (map format_line (reduce_loop f (srt (read_inter jdec fs [0..<length fls] r)))))" for r fs
    by (simp add: doReduce_def Let_def reduce_task_def reduce_reply_def MakeCoordinator_def)
  show "\<forall>m i. run_reduces jdec srt f fls n rs fs (inter_name m i) = fs (inter_name m i)"
    by (induction rs arbitrary: fs) (simp_all add: step)
  assume "\<forall>r \<in> R. fs (out_name r) = Some (concat (map format_line (reduce_loop f (srt (read_inter jdec fs [0..<length fls] r)))))"
  then show "\<forall>r \<in> R \<union> set rs. run_reduces jdec srt f fls n rs fs (out_name r)
            = Some (concat (map format_line (reduce_loop f (srt (read_inter jdec fs [0..<length fls] r)))))"
  proof (induction rs arbitrary: fs R)
    case (Cons q qs)
    let ?fs = "fst (doReduce jdec srt f (reduce_task fls n q) fs)"
    have ri: "read_inter jdec ?fs is r = read_inter jdec fs is r" for "is" r by (rule read_inter_cong) (simp add: step)
    have "\<forall>r \<in> insert q R. ?fs (out_name r) = Some (concat (map format_line (reduce_loop f (srt (read_inter jdec ?fs [0..<length fls] r)))))"
      unfolding ri using Cons.prems by (auto simp: step)
    from Cons.IH [OF this] show ?case unfolding ri by simp
  qed simp
qed

section \<open>The distributed job against the sequential program\<close>

definition order_insensitive :: "(string \<Rightarrow> string list \<Rightarrow> string) \<Rightarrow> bool" where
  "order_insensitive reducef \<longleftrightarrow> (\<forall>k vs vs'. mset vs = mset vs' \<longrightarrow> reducef k vs = reducef k vs')"

lemma reduce_sorted_lines:
  assumes "sorts_by_key srt" "order_insensitive f"
  shows "reduce_loop f (srt xs) = map (\<lambda>k. (k, f k (values_of k xs))) (sorted_list_of_set (keys xs))"
proof -
  have s: "mset (srt xs) = mset xs" "sorted (map Key (srt xs))" using assms(1) unfolding sorts_by_key_def by blast+
  have "keys (srt xs) = keys xs" using mset_eq_setD [OF s(1)] by (simp add: keys_def)
  moreover have "f k (values_of k (srt xs)) = f k (values_of k xs)" for k
  proof -
    have "mset (values_of k (srt xs)) = mset (values_of k xs)" by (simp add: values_of_def s(1))
    then show ?thesis using assms(2) unfolding order_insensitive_def by blast
  qed
  ultimately show ?thesis using reduce_loop_sorted [OF s(2), of f] by simp
qed

lemma values_of_part:
  assumes "k \<in> keys (part n r xs)"
  shows "values_of k (part n r xs) = values_of k xs"
proof -
  have "ihash k mod n = r" using assms by (auto simp: keys_def part_def bucket_def)
  then show ?thesis by (auto simp: values_of_def part_def bucket_def intro!: arg_cong [of _ _ "map Value"] filter_cong)
qed

lemma mset_sorted_set: "finite A \<Longrightarrow> mset (sorted_list_of_set A) = mset_set A"
  by (metis distinct_sorted_list_of_set mset_set_set set_sorted_list_of_set)

lemma mset_disjoint_lists:
  fixes K :: "nat \<Rightarrow> string set"
  assumes "\<And>r q. r \<noteq> q \<Longrightarrow> K r \<inter> K q = {}" "\<And>r. finite (K r)"
  shows "mset (concat (map (\<lambda>r. map h (sorted_list_of_set (K r))) [0..<n])) = image_mset h (mset_set (\<Union>r<n. K r))"
proof (induction n)
  case (Suc n)
  have "(\<Union>r<Suc n. K r) = (\<Union>r<n. K r) \<union> K n" by (simp add: lessThan_Suc Un_commute)
  moreover have "K r \<inter> K n = {}" if "r < n" for r using assms(1) that by simp
  then have "(\<Union>r<n. K r) \<inter> K n = {}" by blast
  ultimately have "mset_set (\<Union>r<Suc n. K r) = mset_set (\<Union>r<n. K r) + mset_set (K n)"
    using mset_set_Union [of "\<Union>r<n. K r" "K n"] assms(2) by simp
  then show ?case using Suc mset_sorted_set [OF assms(2) [of n]] by simp
qed simp

lemma keys_parts: "0 < n \<Longrightarrow> (\<Union>r<n. keys (part n r xs)) = keys xs"
proof -
  assume n: "0 < n"
  have "kv \<in> set (part n (bucket n kv) xs)" "bucket n kv < n" if "kv \<in> set xs" for kv
    using that n by (simp_all add: part_def bucket_def)
  then have "keys xs \<subseteq> (\<Union>r<n. keys (part n r xs))" unfolding keys_def by blast
  moreover have "(\<Union>r<n. keys (part n r xs)) \<subseteq> keys xs" by (auto simp: keys_def part_def)
  ultimately show ?thesis by blast
qed

text \<open>Splitting the pairs into buckets, sorting and reducing each, gives together the lines of sorting and reducing
  them all.\<close>

lemma partitioned_lines:
  assumes s: "sorts_by_key srt" and f: "order_insensitive f" and n: "0 < n"
  shows "mset (concat (map (\<lambda>r. reduce_loop f (srt (part n r xs))) [0..<n])) = mset (reduce_loop f (srt xs))"
proof -
  let ?h = "\<lambda>k. (k, f k (values_of k xs))"
  have "reduce_loop f (srt (part n r xs)) = map ?h (sorted_list_of_set (keys (part n r xs)))" for r
    unfolding reduce_sorted_lines [OF s f] using values_of_part by (intro map_cong) (auto simp: keys_def)
  then have "mset (concat (map (\<lambda>r. reduce_loop f (srt (part n r xs))) [0..<n]))
      = mset (concat (map (\<lambda>r. map ?h (sorted_list_of_set (keys (part n r xs)))) [0..<n]))" by simp
  also have "\<dots> = image_mset ?h (mset_set (\<Union>r<n. keys (part n r xs)))"
    by (rule mset_disjoint_lists) (auto simp: keys_def part_def bucket_def)
  also have "\<dots> = mset (reduce_loop f (srt xs))"
    unfolding keys_parts [OF n] reduce_sorted_lines [OF s f] by (simp add: keys_def mset_sorted_set)
  finally show ?thesis .
qed

lemma read_all_result: "input_ok fs fls \<Longrightarrow> read_all mapf fs fls = Inr (all_pairs mapf fs fls)"
  by (induction fls) (auto simp: input_ok_def all_pairs_def)

text \<open>A distributed job computes what the sequential program computes. Every map task is executed at least once,
  then every reduce task, each in any order and any number of times, as it happens when workers stop or are
  slow. The job does not fail, and its output files together hold exactly the lines of \<open>mr-out-0\<close> of
  \<open>mrsequential\<close>, each as often. Assumed are that the input files exist and are not named like intermediate files,
  that the JSON decoder gives back what the encoder wrote, that sorting sorts by key, and that \<open>reducef\<close>
  does not depend on the order of its values.\<close>

theorem mapreduce_equals_sequential:
  assumes inp: "input_ok fs fls" and n: "0 < n"
    and ms: "set ms = {..<length fls}" and rs: "set rs = {..<n}"
    and codec: "\<And>kvs. jdec (concat (map jenc kvs)) = kvs"
    and s: "sorts_by_key srt" and f: "order_insensitive reducef"
  shows "\<exists>fs1 fs2 seq L. run_maps jenc mapf fls n ms fs = Inr fs1
    \<and> fs2 = run_reduces jdec srt reducef fls n rs fs1
    \<and> mrsequential srt mapf reducef fls fs = Inr (fs(''mr-out-0'' \<mapsto> concat (map format_line seq)))
    \<and> (\<forall>r < n. fs2 (out_name r) = Some (concat (map format_line (L r))))
    \<and> mset (concat (map L [0..<n])) = mset seq"
proof -
  let ?all = "all_pairs mapf fs fls"
  have "maps_done jenc mapf fls n fs {} fs" by (simp add: maps_done_def)
  from run_maps_result [OF inp n _ this, of ms] ms obtain fs1 where
    m: "run_maps jenc mapf fls n ms fs = Inr fs1" "maps_done jenc mapf fls n fs {..<length fls} fs1" by auto
  have red: "\<forall>r \<in> {} \<union> set rs. run_reduces jdec srt reducef fls n rs fs1 (out_name r)
      = Some (concat (map format_line (reduce_loop reducef (srt (read_inter jdec fs1 [0..<length fls] r)))))"
    by (rule run_reduces_result(2)) simp
  have out: "\<forall>r < n. run_reduces jdec srt reducef fls n rs fs1 (out_name r)
      = Some (concat (map format_line (reduce_loop reducef (srt (part n r ?all)))))"
    using red rs read_inter_result [OF m(2) _ codec] by simp
  have seq: "mrsequential srt mapf reducef fls fs
      = Inr (fs(''mr-out-0'' \<mapsto> concat (map format_line (reduce_loop reducef (srt ?all)))))"
    by (simp add: mrsequential_def read_all_result [OF inp])
  show ?thesis
    by (intro exI conjI) (rule m(1), rule refl, rule seq, rule out, rule partitioned_lines [OF s f n])
qed

section \<open>The applications\<close>

lemma sort_key_sorts: "sorts_by_key (sort_key Key)"
  by (simp add: sorts_by_key_def)

lemma sort_mset: "mset vs = mset vs' \<Longrightarrow> sort vs = sort (vs' :: string list)"
  by (metis mset_sort properties_for_sort sorted_sort)

text \<open>The applications whose output the tests compare with the sequential program do not depend on the order of
  the values of a key: word count, the indexer, the crash test without its crashes, and the early-exit
  test.\<close>

theorem apps_order_insensitive:
  "order_insensitive wc_Reduce \<and> order_insensitive indexer_Reduce \<and> order_insensitive nocrash_Reduce
   \<and> order_insensitive early_exit_Reduce"
proof (intro conjI)
  have len: "length vs = length vs'" if "mset vs = mset vs'" for vs vs' :: "string list" using that by (metis size_mset)
  show "order_insensitive wc_Reduce" "order_insensitive early_exit_Reduce"
    unfolding order_insensitive_def wc_Reduce_def early_exit_Reduce_def using len by metis+
  show "order_insensitive indexer_Reduce" unfolding order_insensitive_def indexer_Reduce_def using len sort_mset by metis
  show "order_insensitive nocrash_Reduce" unfolding order_insensitive_def nocrash_Reduce_def using sort_mset by metis
qed

lemma wc_insensitive: "order_insensitive wc_Reduce"
  unfolding order_insensitive_def wc_Reduce_def by (metis size_mset)

text \<open>A small encoding of pairs for the example: every character after a plus sign, every string ended by a minus
  sign.\<close>

fun esc :: "string \<Rightarrow> string" where
  "esc [] = ''-''"
| "esc (c # cs) = CHR ''+'' # c # esc cs"

definition demo_jenc :: "KeyValue \<Rightarrow> string" where
  "demo_jenc kv = esc (Key kv) @ esc (Value kv)"

fun tokens :: "string \<Rightarrow> string \<Rightarrow> string list" where
  "tokens acc [] = []"
| "tokens acc [x] = (if x = CHR ''-'' then [rev acc] else [])"
| "tokens acc (x # c # ys) = (if x = CHR ''-'' then rev acc # tokens [] (c # ys) else tokens (c # acc) ys)"

fun pair_up :: "string list \<Rightarrow> KeyValue list" where
  "pair_up (k # v # r) = \<lparr>Key = k, Value = v\<rparr> # pair_up r"
| "pair_up _ = []"

definition demo_jdec :: "string \<Rightarrow> KeyValue list" where
  "demo_jdec s = pair_up (tokens [] s)"

lemma tokens_esc: "tokens acc (esc s @ t) = (rev acc @ s) # tokens [] t"
proof (induction s arbitrary: acc)
  case Nil
  then show ?case by (cases t) auto
qed simp

lemma demo_codec: "demo_jdec (concat (map demo_jenc kvs)) = kvs"
  by (induction kvs) (auto simp: demo_jdec_def demo_jenc_def tokens_esc)

theorem mapreduce_equals_sequential_witness:
  "\<exists>fs1 fs2 seq L. run_maps demo_jenc wc_Map [''f'', ''g''] 2 [1, 0, 1] [''f'' \<mapsto> ''a b a'', ''g'' \<mapsto> ''b''] = Inr fs1
    \<and> fs2 = run_reduces demo_jdec (sort_key Key) wc_Reduce [''f'', ''g''] 2 [0, 1, 0] fs1
    \<and> mrsequential (sort_key Key) wc_Map wc_Reduce [''f'', ''g''] [''f'' \<mapsto> ''a b a'', ''g'' \<mapsto> ''b'']
        = Inr ([''f'' \<mapsto> ''a b a'', ''g'' \<mapsto> ''b''](''mr-out-0'' \<mapsto> concat (map format_line seq)))
    \<and> (\<forall>r < 2. fs2 (out_name r) = Some (concat (map format_line (L r))))
    \<and> mset (concat (map L [0..<2])) = mset seq"
proof (rule mapreduce_equals_sequential [OF _ _ _ _ demo_codec sort_key_sorts wc_insensitive])
  show "input_ok [''f'' \<mapsto> ''a b a'', ''g'' \<mapsto> ''b''] [''f'', ''g'']" by (auto simp: input_ok_def inter_name_def)
  show "set [1, 0, 1] = {..<length [''f'', ''g'']}" "set [0, 1, 0] = {..<2::nat}" by auto
qed simp

section \<open>The reply variable of the worker\<close>

text \<open>\<open>Worker\<close> uses one reply variable for all its requests, and the decoder leaves a field alone when the
  sender's value is zero. A worker that has executed map task \<open>k\<close> and is then given map task 0 executes the file of
  task 0 under the number \<open>k\<close>: it writes the intermediate files of task \<open>k\<close> over with pairs of the wrong
  file, and reports task \<open>k\<close>.\<close>

theorem stale_task_number:
  assumes old: "tr_TaskType old = ''map''" "tr_MapTaskId old = int k" "tr_NReduce old = int n" and n: "0 < n"
    and f: "fls \<noteq> []" "fls ! 0 \<noteq> ''''" "fs (fls ! 0) = Some content"
  shows "\<exists>fs'. worker_round jenc jdec srt mapf reducef old (map_task fls n 0) fs
      = Inr (gob_into old (map_task fls n 0), fs', Some (report_of ''map'' (int k)))
    \<and> (\<forall>i < n. fs' (inter_name k i) = Some (concat (map jenc (part n i (mapf (fls ! 0) content)))))"
proof -
  let ?reply = "gob_into old (map_task fls n 0)"
  have r: "tr_TaskType ?reply = ''map''" "tr_Filename ?reply = fls ! 0" "tr_MapTaskId ?reply = int k" "tr_NReduce ?reply = int n"
    using old f n by (simp_all add: gob_into_def map_task_def map_reply_def MakeCoordinator_def)
  have c: "fs (tr_Filename ?reply) = Some content" using f(3) r(2) by simp
  from doMap_result [where fs = fs, OF c r(4) n r(3), of jenc mapf] r(1,2) show ?thesis
    by (auto simp: worker_round_def Let_def)
qed

theorem stale_task_number_witness:
  "\<exists>fs'. worker_round demo_jenc demo_jdec (sort_key Key) wc_Map wc_Reduce (map_task [''f'', ''g''] 1 1) (map_task [''f'', ''g''] 1 0)
        [''f'' \<mapsto> ''a'', ''g'' \<mapsto> ''b'']
      = Inr (gob_into (map_task [''f'', ''g''] 1 1) (map_task [''f'', ''g''] 1 0), fs', Some (report_of ''map'' (int 1)))
    \<and> (\<forall>i < 1. fs' (inter_name 1 i) = Some (concat (map demo_jenc (part 1 i (wc_Map ([''f'', ''g''] ! 0) ''a'')))))"
  by (rule stale_task_number) (simp_all add: map_task_def map_reply_def MakeCoordinator_def)

end
