(* ===== verification/Mr_System.thy ===== *)
theory Mr_System
  imports Mr_Job
begin

text \<open>
  A MapReduce job as a system: the coordinator of \<open>src/src/mr/coordinator.go\<close>, any number of worker processes
  (\<open>Worker\<close>, \<open>doMap\<close> and \<open>doReduce\<close> of \<open>src/src/mr/worker.go\<close>) and the files they share. A worker is cut where other
  processes can be seen or can see it: at its calls of the coordinator, at each file it reads and at each file it
  renames into place; it may stop at any of these points. The variable \<open>reply\<close> of \<open>Worker\<close> lives as long as the
  process. Temporary files can be created and renamed: the code does not look at the error of \<open>os.Rename\<close>.
\<close>

section \<open>State\<close>

text \<open>The two functions of the application, and the library routines the worker is given as parameters.\<close>

record mr_app =
  jenc :: "KeyValue \<Rightarrow> string"
  jdec :: "string \<Rightarrow> KeyValue list"
  srt :: "KeyValue list \<Rightarrow> KeyValue list"
  mapf :: "string \<Rightarrow> string \<Rightarrow> KeyValue list"
  reducef :: "string \<Rightarrow> string list \<Rightarrow> string"

text \<open>Where a worker stands: about to ask for a task, with a task it has not begun, renaming the temporary files of a
  map task, reading the intermediate files of a reduce task, with the output of a reduce task in a temporary file,
  about to report, or stopped.\<close>

datatype wpc = WAsk | WTask | WRename "string list" nat | WRead "KeyValue list" nat | WOut string | WReport ReportTaskArgs | WGone

record mr_worker =
  wk_reply :: TaskReply
  wk_pc :: wpc

record mrsys =
  sy_coord :: Coordinator
  sy_files :: files
  sy_workers :: "nat \<Rightarrow> mr_worker"
  sy_stale :: bool

definition new_worker :: mr_worker where
  "new_worker = \<lparr>wk_reply = empty_reply, wk_pc = WAsk\<rparr>"

definition mr_start :: "string list \<Rightarrow> nat \<Rightarrow> files \<Rightarrow> mrsys \<Rightarrow> bool" where
  "mr_start fls n fs0 s \<longleftrightarrow> s = \<lparr>sy_coord = MakeCoordinator fls n, sy_files = fs0, sy_workers = (\<lambda>_. new_worker), sy_stale = False\<rparr>"

section \<open>Steps\<close>

text \<open>Whether the variable holds the task of the answer once the answer is decoded into it. \<open>sy_stale\<close> records that it did not
  at some time.\<close>

definition same_task :: "TaskReply \<Rightarrow> TaskReply \<Rightarrow> bool" where
  "same_task ans reply \<longleftrightarrow> tr_TaskType reply = tr_TaskType ans
     \<and> (tr_TaskType ans = ''map'' \<longrightarrow> tr_Filename reply = tr_Filename ans \<and> tr_MapTaskId reply = tr_MapTaskId ans \<and> tr_NReduce reply = tr_NReduce ans)
     \<and> (tr_TaskType ans = ''reduce'' \<longrightarrow> tr_ReduceTaskId reply = tr_ReduceTaskId ans \<and> tr_NMap reply = tr_NMap ans)"

text \<open>No task in progress has been out for too long.\<close>

definition in_time :: "int \<Rightarrow> Coordinator \<Rightarrow> bool" where
  "in_time now c \<longleftrightarrow> (\<forall>i < length (co_mapStatuses c). co_mapStatuses c ! i = STATUS_INPROGRESS \<longrightarrow> \<not> timed_out now (co_mapTimes c ! i))
     \<and> (\<forall>i < length (co_reduceStatuses c). co_reduceStatuses c ! i = STATUS_INPROGRESS \<longrightarrow> \<not> timed_out now (co_reduceTimes c ! i))"

definition has_task :: "TaskReply \<Rightarrow> bool" where
  "has_task reply \<longleftrightarrow> tr_TaskType reply = ''map'' \<or> tr_TaskType reply = ''reduce''"

definition set_pc :: "nat \<Rightarrow> wpc \<Rightarrow> mrsys \<Rightarrow> mrsys" where
  "set_pc w pc s = s\<lparr>sy_workers := (sy_workers s)(w := (sy_workers s w)\<lparr>wk_pc := pc\<rparr>)\<rparr>"

definition take_answer :: "nat \<Rightarrow> Coordinator \<Rightarrow> TaskReply \<Rightarrow> mrsys \<Rightarrow> mrsys" where
  "take_answer w c ans s =
     (let reply = gob_into (wk_reply (sy_workers s w)) ans in
      s\<lparr>sy_coord := c,
        sy_workers := (sy_workers s)(w := \<lparr>wk_reply = reply, wk_pc = (if has_task reply then WTask else WAsk)\<rparr>),
        sy_stale := sy_stale s \<or> \<not> same_task ans reply\<rparr>)"

text \<open>\<open>late\<close> says whether a request may find a task that is out for more than ten seconds. \<open>stop\<close>: the process crashes, exits
  because a call failed, or has a fatal error; a call that the coordinator handled and whose answer was lost is the call
  followed by \<open>stop\<close>.\<close>

inductive mr_step :: "mr_app \<Rightarrow> bool \<Rightarrow> mrsys \<Rightarrow> mrsys \<Rightarrow> bool" for A late where
  ask: "wk_pc (sy_workers s w) = WAsk \<Longrightarrow> late \<or> in_time now (sy_coord s) \<Longrightarrow> RequestTask now (sy_coord s) = Inr (c', ans)
    \<Longrightarrow> mr_step A late s (take_answer w c' ans s)"
| map_begin: "wk_pc (sy_workers s w) = WTask \<Longrightarrow> wk_reply (sy_workers s w) = reply \<Longrightarrow> tr_TaskType reply = ''map''
    \<Longrightarrow> sy_files s (tr_Filename reply) = Some content
    \<Longrightarrow> encode_all (jenc A) (nat (tr_NReduce reply)) (mapf A (tr_Filename reply) content) (replicate (nat (tr_NReduce reply)) []) = Inr temps
    \<Longrightarrow> mr_step A late s (set_pc w (WRename temps 0) s)"
| map_rename: "wk_pc (sy_workers s w) = WRename temps i \<Longrightarrow> i < length temps \<Longrightarrow> wk_reply (sy_workers s w) = reply
    \<Longrightarrow> mr_step A late s (set_pc w (WRename temps (Suc i)) (s\<lparr>sy_files := (sy_files s)(inter_name (nat (tr_MapTaskId reply)) i \<mapsto> temps ! i)\<rparr>))"
| map_end: "wk_pc (sy_workers s w) = WRename temps i \<Longrightarrow> i = length temps \<Longrightarrow> wk_reply (sy_workers s w) = reply
    \<Longrightarrow> mr_step A late s (set_pc w (WReport (report_of (tr_TaskType reply) (tr_MapTaskId reply))) s)"
| reduce_begin: "wk_pc (sy_workers s w) = WTask \<Longrightarrow> tr_TaskType (wk_reply (sy_workers s w)) = ''reduce''
    \<Longrightarrow> mr_step A late s (set_pc w (WRead [] 0) s)"
| reduce_read: "wk_pc (sy_workers s w) = WRead acc i \<Longrightarrow> wk_reply (sy_workers s w) = reply \<Longrightarrow> int i < tr_NMap reply
    \<Longrightarrow> mr_step A late s (set_pc w (WRead (acc @ read_inter (jdec A) (sy_files s) [i] (nat (tr_ReduceTaskId reply))) (Suc i)) s)"
| reduce_run: "wk_pc (sy_workers s w) = WRead acc i \<Longrightarrow> \<not> int i < tr_NMap (wk_reply (sy_workers s w))
    \<Longrightarrow> mr_step A late s (set_pc w (WOut (concat (map format_line (reduce_loop (reducef A) (srt A acc))))) s)"
| reduce_end: "wk_pc (sy_workers s w) = WOut out \<Longrightarrow> wk_reply (sy_workers s w) = reply
    \<Longrightarrow> mr_step A late s (set_pc w (WReport (report_of (tr_TaskType reply) (tr_ReduceTaskId reply)))
          (s\<lparr>sy_files := (sy_files s)(out_name (nat (tr_ReduceTaskId reply)) \<mapsto> out)\<rparr>))"
| report: "wk_pc (sy_workers s w) = WReport args \<Longrightarrow> ReportTaskComplete args (sy_coord s) = Inr c'
    \<Longrightarrow> mr_step A late s (set_pc w WAsk (s\<lparr>sy_coord := c'\<rparr>))"
| stop: "mr_step A late s (set_pc w WGone s)"

lemma set_pc_simps [simp]:
  "sy_coord (set_pc w pc s) = sy_coord s" "sy_files (set_pc w pc s) = sy_files s" "sy_stale (set_pc w pc s) = sy_stale s"
  "sy_workers (set_pc w pc s) v = (if v = w then (sy_workers s w)\<lparr>wk_pc := pc\<rparr> else sy_workers s v)"
  by (simp_all add: set_pc_def)

lemma set_pc_same: "wk_pc (sy_workers s w) = pc \<Longrightarrow> set_pc w pc s = s"
proof -
  assume "wk_pc (sy_workers s w) = pc"
  then have "(sy_workers s)(w := (sy_workers s w)\<lparr>wk_pc := pc\<rparr>) = sy_workers s" by (intro fun_upd_idem) simp
  then show ?thesis by (simp add: set_pc_def)
qed

lemma take_answer_simps [simp]:
  "sy_coord (take_answer w c ans s) = c" "sy_files (take_answer w c ans s) = sy_files s"
  "sy_workers (take_answer w c ans s) v = (if v = w then \<lparr>wk_reply = gob_into (wk_reply (sy_workers s w)) ans,
     wk_pc = (if has_task (gob_into (wk_reply (sy_workers s w)) ans) then WTask else WAsk)\<rparr> else sy_workers s v)"
  "sy_stale (take_answer w c ans s) = (sy_stale s \<or> \<not> same_task ans (gob_into (wk_reply (sy_workers s w)) ans))"
  by (simp_all add: take_answer_def Let_def)

section \<open>One worker alone executes the task functions\<close>

lemma rename_steps:
  assumes "wk_pc (sy_workers s w) = WRename temps i" "i \<le> length temps" "wk_reply (sy_workers s w) = reply"
  shows "(mr_step A late)\<^sup>*\<^sup>* s (set_pc w (WReport (report_of (tr_TaskType reply) (tr_MapTaskId reply)))
     (s\<lparr>sy_files := rename_all (nat (tr_MapTaskId reply)) i (drop i temps) (sy_files s)\<rparr>))"
  using assms
proof (induction "length temps - i" arbitrary: i s)
  case 0
  then have "i = length temps" by simp
  from mr_step.map_end [OF 0(2) this 0(4)] this show ?case by auto
next
  case (Suc k)
  let ?s = "set_pc w (WRename temps (Suc i)) (s\<lparr>sy_files := (sy_files s)(inter_name (nat (tr_MapTaskId reply)) i \<mapsto> temps ! i)\<rparr>)"
  have i: "i < length temps" using Suc.hyps(2) by simp
  have st: "mr_step A late s ?s" by (rule mr_step.map_rename [OF Suc.prems(1) i Suc.prems(3)])
  have "(mr_step A late)\<^sup>*\<^sup>* ?s (set_pc w (WReport (report_of (tr_TaskType reply) (tr_MapTaskId reply)))
     (?s\<lparr>sy_files := rename_all (nat (tr_MapTaskId reply)) (Suc i) (drop (Suc i) temps) (sy_files ?s)\<rparr>))"
    by (rule Suc.hyps(1)) (use Suc.hyps(2) Suc.prems i in simp_all)
  moreover have "drop i temps = temps ! i # drop (Suc i) temps" using i by (simp add: Cons_nth_drop_Suc)
  ultimately show ?case using st by (simp add: set_pc_def converse_rtranclp_into_rtranclp)
qed

lemma doMap_steps:
  assumes "wk_pc (sy_workers s w) = WTask" "tr_TaskType (wk_reply (sy_workers s w)) = ''map''"
    and d: "doMap (jenc A) (mapf A) (wk_reply (sy_workers s w)) (sy_files s) = Inr (fs', rep)"
  shows "(mr_step A late)\<^sup>*\<^sup>* s (set_pc w (WReport rep) (s\<lparr>sy_files := fs'\<rparr>))"
proof -
  let ?r = "wk_reply (sy_workers s w)"
  from d obtain content temps where f: "sy_files s (tr_Filename ?r) = Some content"
    "encode_all (jenc A) (nat (tr_NReduce ?r)) (mapf A (tr_Filename ?r) content) (replicate (nat (tr_NReduce ?r)) []) = Inr temps"
    and r: "fs' = rename_all (nat (tr_MapTaskId ?r)) 0 temps (sy_files s)" "rep = report_of (tr_TaskType ?r) (tr_MapTaskId ?r)"
    by (auto simp: doMap_def rbind_eq_Inr split: option.splits)
  have "mr_step A late s (set_pc w (WRename temps 0) s)" by (rule mr_step.map_begin [OF assms(1) refl assms(2) f])
  moreover have "(mr_step A late)\<^sup>*\<^sup>* (set_pc w (WRename temps 0) s) (set_pc w (WReport rep) (s\<lparr>sy_files := fs'\<rparr>))"
    using rename_steps [of "set_pc w (WRename temps 0) s" w temps 0 ?r A late] by (simp add: set_pc_def r)
  ultimately show ?thesis by (rule converse_rtranclp_into_rtranclp)
qed

lemma read_inter_append: "read_inter d fs (is @ js) r = read_inter d fs is r @ read_inter d fs js r"
  by (induction "is") auto

lemma read_steps:
  assumes "wk_pc (sy_workers s w) = WRead (read_inter (jdec A) (sy_files s) [0..<i] r) i" "i \<le> m"
    "tr_NMap (wk_reply (sy_workers s w)) = int m" "nat (tr_ReduceTaskId (wk_reply (sy_workers s w))) = r"
  shows "(mr_step A late)\<^sup>*\<^sup>* s (set_pc w (WRead (read_inter (jdec A) (sy_files s) [0..<m] r) m) s)"
  using assms
proof (induction "m - i" arbitrary: i s)
  case 0
  then have "set_pc w (WRead (read_inter (jdec A) (sy_files s) [0..<m] r) m) s = s" by (intro set_pc_same) simp
  then show ?case by simp
next
  case (Suc k)
  let ?s = "set_pc w (WRead (read_inter (jdec A) (sy_files s) [0..<Suc i] r) (Suc i)) s"
  have "int i < tr_NMap (wk_reply (sy_workers s w))" using Suc.hyps(2) Suc.prems(3) by simp
  from mr_step.reduce_read [OF Suc.prems(1) refl this] Suc.prems(4) have "mr_step A late s ?s" by (simp add: read_inter_append)
  moreover have "(mr_step A late)\<^sup>*\<^sup>* ?s (set_pc w (WRead (read_inter (jdec A) (sy_files ?s) [0..<m] r) m) ?s)"
    by (rule Suc.hyps(1) [of "Suc i"]) (use Suc.hyps(2) Suc.prems in simp_all)
  ultimately show ?case by (simp add: set_pc_def converse_rtranclp_into_rtranclp)
qed

lemma doReduce_steps:
  assumes pc: "wk_pc (sy_workers s w) = WTask" and ty: "tr_TaskType (wk_reply (sy_workers s w)) = ''reduce''"
    and m: "tr_NMap (wk_reply (sy_workers s w)) = int m"
    and d: "doReduce (jdec A) (srt A) (reducef A) (wk_reply (sy_workers s w)) (sy_files s) = (fs', rep)"
  shows "(mr_step A late)\<^sup>*\<^sup>* s (set_pc w (WReport rep) (s\<lparr>sy_files := fs'\<rparr>))"
proof -
  let ?r = "wk_reply (sy_workers s w)"
  let ?acc = "read_inter (jdec A) (sy_files s) [0..<m] (nat (tr_ReduceTaskId ?r))"
  let ?out = "concat (map format_line (reduce_loop (reducef A) (srt A ?acc)))"
  have fr: "fs' = (sy_files s)(out_name (nat (tr_ReduceTaskId ?r)) \<mapsto> ?out)" "rep = report_of (tr_TaskType ?r) (tr_ReduceTaskId ?r)"
    using d m by (auto simp: doReduce_def Let_def)
  have "mr_step A late s (set_pc w (WRead [] 0) s)" by (rule mr_step.reduce_begin [OF pc ty])
  moreover have "(mr_step A late)\<^sup>*\<^sup>* (set_pc w (WRead [] 0) s) (set_pc w (WRead ?acc m) s)"
    using read_steps [of "set_pc w (WRead [] 0) s" w A 0 "nat (tr_ReduceTaskId ?r)" m late] m by (simp add: set_pc_def)
  moreover have "mr_step A late (set_pc w (WRead ?acc m) s) (set_pc w (WOut ?out) s)"
    using mr_step.reduce_run [of "set_pc w (WRead ?acc m) s" w ?acc m A late] m by (simp add: set_pc_def)
  moreover have "mr_step A late (set_pc w (WOut ?out) s) (set_pc w (WReport rep) (s\<lparr>sy_files := fs'\<rparr>))"
    using mr_step.reduce_end [of "set_pc w (WOut ?out) s" w ?out ?r A late] by (simp add: set_pc_def fr)
  ultimately show ?thesis by (meson converse_rtranclp_into_rtranclp rtranclp.rtrancl_into_rtrancl)
qed

section \<open>What the coordinator's handlers change\<close>

definition map_task_of :: "string list \<Rightarrow> nat \<Rightarrow> TaskReply \<Rightarrow> nat \<Rightarrow> bool" where
  "map_task_of fls n reply m \<longleftrightarrow> tr_TaskType reply = ''map'' \<and> m < length fls \<and> tr_MapTaskId reply = int m
     \<and> tr_Filename reply = fls ! m \<and> tr_NReduce reply = int n"

definition reduce_task_of :: "string list \<Rightarrow> nat \<Rightarrow> TaskReply \<Rightarrow> nat \<Rightarrow> bool" where
  "reduce_task_of fls n reply r \<longleftrightarrow> tr_TaskType reply = ''reduce'' \<and> r < n \<and> tr_ReduceTaskId reply = int r
     \<and> tr_NMap reply = int (length fls)"

text \<open>A request changes no completed work, and its answer is a task of the current phase that is not complete, or to wait.\<close>

lemma RequestTask_effect:
  assumes inv: "coord_inv c" and fn: "co_files c = fls" "co_nReduce c = int n" and r: "RequestTask now c = Inr (c', ans)"
  shows "coord_inv c' \<and> co_files c' = fls \<and> co_nReduce c' = int n
    \<and> same_work (co_mapStatuses c) (co_mapStatuses c') \<and> same_work (co_reduceStatuses c) (co_reduceStatuses c')
    \<and> (tr_TaskType ans = ''wait'' \<or> (\<exists>m. map_task_of fls n ans m \<and> co_mapStatuses c ! m \<noteq> STATUS_COMPLETE)
       \<or> (\<exists>k. reduce_task_of fls n ans k \<and> co_reduceStatuses c ! k \<noteq> STATUS_COMPLETE) \<and> fls \<noteq> [] \<and> all_complete (co_mapStatuses c))"
proof -
  have base: "coord_inv c'" "co_files c' = fls" "co_nReduce c' = int n" using RequestTask_inv [OF inv, of now] r fn by auto
  show ?thesis
  proof (cases "co_phase c")
    case PhaseMap
    from RequestTask_map [OF inv PhaseMap, of now] r obtain ss ts x where
      "c' = c\<lparr>co_mapStatuses := ss, co_mapTimes := ts\<rparr>" "ans = map_reply c x" "same_work (co_mapStatuses c) ss"
      "\<forall>i. x = Some i \<longrightarrow> i < length (co_files c) \<and> co_mapStatuses c ! i \<noteq> STATUS_COMPLETE" by auto
    then show ?thesis using base fn by (cases x) (auto simp: map_task_of_def map_reply_def)
  next
    case PhaseReduce
    from RequestTask_reduce [OF inv PhaseReduce, of now] r obtain ss ts x where
      "c' = c\<lparr>co_reduceStatuses := ss, co_reduceTimes := ts\<rparr>" "ans = reduce_reply c x" "same_work (co_reduceStatuses c) ss"
      "\<forall>i. x = Some i \<longrightarrow> i < length (co_reduceStatuses c) \<and> co_reduceStatuses c ! i \<noteq> STATUS_COMPLETE" by auto
    moreover have "all_complete (co_mapStatuses c)" "int (length (co_reduceStatuses c)) = int n" "fls \<noteq> []"
      using inv PhaseReduce fn by (auto simp: coord_inv_def)
    ultimately show ?thesis using base fn by (cases x) (auto simp: reduce_task_of_def reduce_reply_def)
  next
    case PhaseDone
    then show ?thesis using base r by (auto simp: RequestTask_def)
  qed
qed

lemma update_idem: "xs ! k = v \<Longrightarrow> xs = xs[k := v]"
  by (metis list_update_id)

lemma report_map_effect:
  assumes inv: "coord_inv c" and k: "k < length (co_files c)" and r: "ReportTaskComplete (report_of ''map'' (int k)) c = Inr c'"
  shows "coord_inv c' \<and> co_files c' = co_files c \<and> co_nReduce c' = co_nReduce c
    \<and> co_mapStatuses c' = (co_mapStatuses c)[k := STATUS_COMPLETE] \<and> co_reduceStatuses c' = co_reduceStatuses c"
proof -
  have l: "k < length (co_mapStatuses c)" using inv k by (simp add: coord_inv_def)
  have "co_mapStatuses c' = (co_mapStatuses c)[k := STATUS_COMPLETE] \<and> co_reduceStatuses c' = co_reduceStatuses c"
    using r l by (auto simp: ReportTaskComplete_def report_of_def slice_get_in Let_def split: if_splits intro: update_idem)
  then show ?thesis using report_map_inv [OF inv k, of 0] r by (auto simp: report_of_def)
qed

lemma report_reduce_effect:
  assumes inv: "coord_inv c" and k: "int k < co_nReduce c" and m: "all_complete (co_mapStatuses c)" "co_files c \<noteq> []"
    and r: "ReportTaskComplete (report_of ''reduce'' (int k)) c = Inr c'"
  shows "coord_inv c' \<and> co_files c' = co_files c \<and> co_nReduce c' = co_nReduce c
    \<and> co_reduceStatuses c' = (co_reduceStatuses c)[k := STATUS_COMPLETE] \<and> co_mapStatuses c' = co_mapStatuses c"
proof -
  have l: "k < length (co_reduceStatuses c)" using inv k by (simp add: coord_inv_def)
  have "co_reduceStatuses c' = (co_reduceStatuses c)[k := STATUS_COMPLETE] \<and> co_mapStatuses c' = co_mapStatuses c"
    using r l by (auto simp: ReportTaskComplete_def report_of_def slice_get_in Let_def split: if_splits intro: update_idem)
  then show ?thesis using report_reduce_inv [OF inv k m, of 0] r by (auto simp: report_of_def)
qed

section \<open>What the files hold\<close>

definition good_inter :: "mr_app \<Rightarrow> string list \<Rightarrow> nat \<Rightarrow> files \<Rightarrow> nat \<Rightarrow> nat \<Rightarrow> string" where
  "good_inter A fls n fs0 m i = concat (map (jenc A) (part n i (mapf A (fls ! m) (the (fs0 (fls ! m))))))"

definition good_out :: "mr_app \<Rightarrow> string list \<Rightarrow> nat \<Rightarrow> files \<Rightarrow> nat \<Rightarrow> string" where
  "good_out A fls n fs0 r = concat (map format_line (reduce_loop (reducef A) (srt A (part n r (all_pairs (mapf A) fs0 fls)))))"

definition has_map :: "mr_app \<Rightarrow> string list \<Rightarrow> nat \<Rightarrow> files \<Rightarrow> files \<Rightarrow> nat \<Rightarrow> nat \<Rightarrow> bool" where
  "has_map A fls n fs0 fs m k \<longleftrightarrow> (\<forall>i < k. fs (inter_name m i) = Some (good_inter A fls n fs0 m i))"

definition has_out :: "mr_app \<Rightarrow> string list \<Rightarrow> nat \<Rightarrow> files \<Rightarrow> files \<Rightarrow> nat \<Rightarrow> bool" where
  "has_out A fls n fs0 fs r \<longleftrightarrow> fs (out_name r) = Some (good_out A fls n fs0 r)"

definition inputs_apart :: "files \<Rightarrow> string list \<Rightarrow> bool" where
  "inputs_apart fs fls \<longleftrightarrow> input_ok fs fls \<and> (\<forall>f \<in> set fls. f \<noteq> '''' \<and> (\<forall>r. f \<noteq> out_name r))"

text \<open>Two files systems of a job, the second later: what was right stays right.\<close>

definition later :: "mr_app \<Rightarrow> string list \<Rightarrow> nat \<Rightarrow> files \<Rightarrow> files \<Rightarrow> files \<Rightarrow> bool" where
  "later A fls n fs0 fs fs' \<longleftrightarrow> (\<forall>f \<in> set fls. fs' f = fs f) \<and> (\<forall>m k. has_map A fls n fs0 fs m k \<longrightarrow> has_map A fls n fs0 fs' m k)
     \<and> (\<forall>r. has_out A fls n fs0 fs r \<longrightarrow> has_out A fls n fs0 fs' r)"

lemma later_refl [simp]: "later A fls n fs0 fs fs"
  by (simp add: later_def)

lemma later_inter: "inputs_apart fs0 fls \<Longrightarrow> later A fls n fs0 fs (fs(inter_name m i \<mapsto> good_inter A fls n fs0 m i))"
  by (auto simp: later_def has_map_def has_out_def inputs_apart_def input_ok_def inter_not_out [THEN not_sym])

lemma later_out: "inputs_apart fs0 fls \<Longrightarrow> later A fls n fs0 fs (fs(out_name r \<mapsto> good_out A fls n fs0 r))"
  by (auto simp: later_def has_map_def has_out_def inputs_apart_def)

text \<open>The pairs a reduce task reads.\<close>

lemma good_reads:
  assumes "\<And>kvs. jdec A (concat (map (jenc A) kvs)) = kvs"
  shows "concat (map (\<lambda>m. jdec A (good_inter A fls n fs0 m r)) [0..<length fls]) = part n r (all_pairs (mapf A) fs0 fls)"
proof -
  have "concat (map (\<lambda>m. jdec A (good_inter A fls n fs0 m r)) [0..<length fls])
      = part n r (concat (map (\<lambda>m. mapf A (fls ! m) (the (fs0 (fls ! m)))) [0..<length fls]))"
    by (simp add: good_inter_def assms part_def filter_concat comp_def)
  also have "map (\<lambda>m. mapf A (fls ! m) (the (fs0 (fls ! m)))) [0..<length fls] = map (\<lambda>f. mapf A f (the (fs0 f))) fls"
    by (rule nth_equalityI) simp_all
  finally show ?thesis by (simp add: all_pairs_def)
qed

section \<open>The invariant\<close>

definition worker_ok :: "mr_app \<Rightarrow> string list \<Rightarrow> nat \<Rightarrow> files \<Rightarrow> bool \<Rightarrow> files \<Rightarrow> mr_worker \<Rightarrow> bool" where
  "worker_ok A fls n fs0 mapped fs wk =
     (case wk_pc wk of
        WAsk \<Rightarrow> True
      | WTask \<Rightarrow> (\<exists>m. map_task_of fls n (wk_reply wk) m) \<or> (\<exists>r. reduce_task_of fls n (wk_reply wk) r) \<and> mapped
      | WRename temps i \<Rightarrow> (\<exists>m. map_task_of fls n (wk_reply wk) m \<and> temps = map (good_inter A fls n fs0 m) [0..<n] \<and> i \<le> n \<and> has_map A fls n fs0 fs m i)
      | WRead acc i \<Rightarrow> mapped \<and> i \<le> length fls
          \<and> (\<exists>r. reduce_task_of fls n (wk_reply wk) r \<and> acc = concat (map (\<lambda>m. jdec A (good_inter A fls n fs0 m r)) [0..<i]))
      | WOut out \<Rightarrow> mapped \<and> (\<exists>r. reduce_task_of fls n (wk_reply wk) r \<and> out = good_out A fls n fs0 r)
      | WReport args \<Rightarrow> (\<exists>m < length fls. args = report_of ''map'' (int m) \<and> has_map A fls n fs0 fs m n)
          \<or> (\<exists>r < n. args = report_of ''reduce'' (int r) \<and> has_out A fls n fs0 fs r) \<and> mapped
      | WGone \<Rightarrow> True)"

text \<open>Whether the map phase is over: every map task is complete, and there is one.\<close>

definition mapped :: "Coordinator \<Rightarrow> bool" where
  "mapped c \<longleftrightarrow> all_complete (co_mapStatuses c) \<and> co_files c \<noteq> []"

definition work_ok :: "mr_app \<Rightarrow> string list \<Rightarrow> nat \<Rightarrow> files \<Rightarrow> Coordinator \<Rightarrow> files \<Rightarrow> bool" where
  "work_ok A fls n fs0 c fs \<longleftrightarrow> coord_inv c \<and> co_files c = fls \<and> co_nReduce c = int n \<and> (\<forall>f \<in> set fls. fs f = fs0 f)
     \<and> (\<forall>m < length fls. co_mapStatuses c ! m = STATUS_COMPLETE \<longrightarrow> has_map A fls n fs0 fs m n)
     \<and> (\<forall>r < n. co_reduceStatuses c ! r = STATUS_COMPLETE \<longrightarrow> has_out A fls n fs0 fs r)"

definition mrsys_inv :: "mr_app \<Rightarrow> string list \<Rightarrow> nat \<Rightarrow> files \<Rightarrow> mrsys \<Rightarrow> bool" where
  "mrsys_inv A fls n fs0 s \<longleftrightarrow> work_ok A fls n fs0 (sy_coord s) (sy_files s)
     \<and> (\<forall>w. worker_ok A fls n fs0 (mapped (sy_coord s)) (sy_files s) (sy_workers s w))"

lemma worker_ok_later:
  "worker_ok A fls n fs0 b fs wk \<Longrightarrow> later A fls n fs0 fs fs' \<Longrightarrow> b \<longrightarrow> b' \<Longrightarrow> worker_ok A fls n fs0 b' fs' wk"
  by (auto simp: worker_ok_def later_def split: wpc.splits)

lemma work_ok_later: "work_ok A fls n fs0 c fs \<Longrightarrow> later A fls n fs0 fs fs' \<Longrightarrow> work_ok A fls n fs0 c fs'"
  by (auto simp: work_ok_def later_def)

text \<open>A step that moves one worker, and changes the files only for the better.\<close>

lemma mrsys_inv_pc:
  assumes "mrsys_inv A fls n fs0 s" "later A fls n fs0 (sy_files s) fs'"
    and "worker_ok A fls n fs0 (mapped (sy_coord s)) fs' ((sy_workers s w)\<lparr>wk_pc := pc\<rparr>)"
  shows "mrsys_inv A fls n fs0 (set_pc w pc (s\<lparr>sy_files := fs'\<rparr>))"
  using assms work_ok_later worker_ok_later unfolding mrsys_inv_def by fastforce

lemma mrsys_inv_move:
  assumes "mrsys_inv A fls n fs0 s" "worker_ok A fls n fs0 (mapped (sy_coord s)) (sy_files s) ((sy_workers s w)\<lparr>wk_pc := pc\<rparr>)"
  shows "mrsys_inv A fls n fs0 (set_pc w pc s)"
  using mrsys_inv_pc [where w = w and pc = pc, OF assms(1) later_refl] assms(2) by simp

lemma mapped_has_map: "work_ok A fls n fs0 c fs \<Longrightarrow> mapped c \<Longrightarrow> m < length fls \<Longrightarrow> has_map A fls n fs0 fs m n"
  by (auto simp: work_ok_def mapped_def all_complete_def coord_inv_def)

lemma step_ask:
  assumes inv: "mrsys_inv A fls n fs0 s" and r: "RequestTask now (sy_coord s) = Inr (c', ans)"
    and fresh: "same_task ans (gob_into (wk_reply (sy_workers s w)) ans)"
  shows "mrsys_inv A fls n fs0 (take_answer w c' ans s)"
proof -
  let ?reply = "gob_into (wk_reply (sy_workers s w)) ans"
  have ok: "work_ok A fls n fs0 (sy_coord s) (sy_files s)" using inv by (simp add: mrsys_inv_def)
  then have c: "coord_inv (sy_coord s)" "co_files (sy_coord s) = fls" "co_nReduce (sy_coord s) = int n" by (auto simp: work_ok_def)
  note e = RequestTask_effect [OF c r]
  have l: "length (co_mapStatuses (sy_coord s)) = length fls" "length (co_reduceStatuses (sy_coord s)) = n"
    using c by (auto simp: coord_inv_def)
  have w: "work_ok A fls n fs0 c' (sy_files s)" using ok e l by (auto simp: work_ok_def same_work_def)
  have m: "mapped c' = mapped (sy_coord s)" using e c(2) same_work_all_complete by (auto simp: mapped_def)
  have "has_task ?reply \<longrightarrow> (\<exists>m. map_task_of fls n ?reply m) \<or> (\<exists>k. reduce_task_of fls n ?reply k) \<and> mapped (sy_coord s)"
    using e fresh c(2) by (auto simp: has_task_def same_task_def map_task_of_def reduce_task_of_def mapped_def)
  then have "worker_ok A fls n fs0 (mapped c') (sy_files s) (sy_workers (take_answer w c' ans s) v)" for v
    using inv unfolding m by (simp add: worker_ok_def mrsys_inv_def)
  then show ?thesis using w unfolding mrsys_inv_def by (simp del: take_answer_simps(3))
qed

lemma step_map_begin:
  assumes inv: "mrsys_inv A fls n fs0 s" and n: "0 < n" and pc: "wk_pc (sy_workers s w) = WTask" "wk_reply (sy_workers s w) = reply" "tr_TaskType reply = ''map''"
    and f: "sy_files s (tr_Filename reply) = Some content"
    and e: "encode_all (jenc A) (nat (tr_NReduce reply)) (mapf A (tr_Filename reply) content) (replicate (nat (tr_NReduce reply)) []) = Inr temps"
  shows "mrsys_inv A fls n fs0 (set_pc w (WRename temps 0) s)"
proof -
  have "worker_ok A fls n fs0 (mapped (sy_coord s)) (sy_files s) (sy_workers s w)" using inv by (simp add: mrsys_inv_def)
  then obtain m where m: "map_task_of fls n reply m" using pc by (auto simp: worker_ok_def reduce_task_of_def)
  then have t: "m < length fls" "tr_Filename reply = fls ! m" "tr_NReduce reply = int n" by (auto simp: map_task_of_def)
  then have "fs0 (fls ! m) = Some content" using inv f by (auto simp: mrsys_inv_def work_ok_def)
  then have "temps = map (good_inter A fls n fs0 m) [0..<n]"
    using e t encode_all_result [OF n, of "replicate n []" "jenc A" "mapf A (fls ! m) content"] by (auto simp: good_inter_def cong: map_cong)
  with m pc show ?thesis
    using mrsys_inv_move [where w = w and pc = "WRename temps 0", OF inv] by (auto simp: worker_ok_def has_map_def)
qed

lemma step_map_rename:
  assumes inv: "mrsys_inv A fls n fs0 s" and ap: "inputs_apart fs0 fls" and pc: "wk_pc (sy_workers s w) = WRename temps i" "i < length temps"
  shows "mrsys_inv A fls n fs0 (set_pc w (WRename temps (Suc i)) (s\<lparr>sy_files :=
    (sy_files s)(inter_name (nat (tr_MapTaskId (wk_reply (sy_workers s w)))) i \<mapsto> temps ! i)\<rparr>))"
proof -
  have "worker_ok A fls n fs0 (mapped (sy_coord s)) (sy_files s) (sy_workers s w)" using inv by (simp add: mrsys_inv_def)
  then obtain m where m: "map_task_of fls n (wk_reply (sy_workers s w)) m" "temps = map (good_inter A fls n fs0 m) [0..<n]"
    "has_map A fls n fs0 (sy_files s) m i" using pc by (auto simp: worker_ok_def)
  then have "temps ! i = good_inter A fls n fs0 m i" "nat (tr_MapTaskId (wk_reply (sy_workers s w))) = m" "i < n"
    using pc(2) by (auto simp: map_task_of_def)
  then show ?thesis using m later_inter [OF ap]
    by (auto intro!: mrsys_inv_pc [OF inv] simp: worker_ok_def has_map_def less_Suc_eq)
qed

lemma step_map_end:
  assumes inv: "mrsys_inv A fls n fs0 s" and pc: "wk_pc (sy_workers s w) = WRename temps i" "i = length temps"
  shows "mrsys_inv A fls n fs0 (set_pc w (WReport (report_of (tr_TaskType (wk_reply (sy_workers s w))) (tr_MapTaskId (wk_reply (sy_workers s w))))) s)"
proof -
  have "worker_ok A fls n fs0 (mapped (sy_coord s)) (sy_files s) (sy_workers s w)" using inv by (simp add: mrsys_inv_def)
  then show ?thesis using pc by (auto intro!: mrsys_inv_move [OF inv] simp: worker_ok_def map_task_of_def)
qed

lemma step_reduce_begin:
  assumes inv: "mrsys_inv A fls n fs0 s" and pc: "wk_pc (sy_workers s w) = WTask" "tr_TaskType (wk_reply (sy_workers s w)) = ''reduce''"
  shows "mrsys_inv A fls n fs0 (set_pc w (WRead [] 0) s)"
proof -
  have "worker_ok A fls n fs0 (mapped (sy_coord s)) (sy_files s) (sy_workers s w)" using inv by (simp add: mrsys_inv_def)
  then show ?thesis using pc by (auto intro!: mrsys_inv_move [OF inv] simp: worker_ok_def map_task_of_def)
qed

lemma step_reduce_read:
  assumes inv: "mrsys_inv A fls n fs0 s" and pc: "wk_pc (sy_workers s w) = WRead acc i" "int i < tr_NMap (wk_reply (sy_workers s w))"
  shows "mrsys_inv A fls n fs0 (set_pc w (WRead (acc @ read_inter (jdec A) (sy_files s) [i] (nat (tr_ReduceTaskId (wk_reply (sy_workers s w))))) (Suc i)) s)"
proof -
  have "worker_ok A fls n fs0 (mapped (sy_coord s)) (sy_files s) (sy_workers s w)" and ok: "work_ok A fls n fs0 (sy_coord s) (sy_files s)"
    using inv by (simp_all add: mrsys_inv_def)
  then obtain r where r: "mapped (sy_coord s)" "reduce_task_of fls n (wk_reply (sy_workers s w)) r"
    "acc = concat (map (\<lambda>m. jdec A (good_inter A fls n fs0 m r)) [0..<i])" using pc(1) by (auto simp: worker_ok_def)
  have i: "i < length fls" "r < n" "nat (tr_ReduceTaskId (wk_reply (sy_workers s w))) = r" using pc(2) r(2) by (auto simp: reduce_task_of_def)
  then have "sy_files s (inter_name i r) = Some (good_inter A fls n fs0 i r)"
    using mapped_has_map [OF ok r(1) i(1)] by (simp add: has_map_def)
  then show ?thesis using r i by (auto intro!: mrsys_inv_move [OF inv] simp: worker_ok_def)
qed

lemma step_reduce_run:
  assumes inv: "mrsys_inv A fls n fs0 s" and codec: "\<And>kvs. jdec A (concat (map (jenc A) kvs)) = kvs"
    and pc: "wk_pc (sy_workers s w) = WRead acc i" "\<not> int i < tr_NMap (wk_reply (sy_workers s w))"
  shows "mrsys_inv A fls n fs0 (set_pc w (WOut (concat (map format_line (reduce_loop (reducef A) (srt A acc))))) s)"
proof -
  have "worker_ok A fls n fs0 (mapped (sy_coord s)) (sy_files s) (sy_workers s w)" using inv by (simp add: mrsys_inv_def)
  then obtain r where r: "mapped (sy_coord s)" "i \<le> length fls" "reduce_task_of fls n (wk_reply (sy_workers s w)) r"
    "acc = concat (map (\<lambda>m. jdec A (good_inter A fls n fs0 m r)) [0..<i])" using pc(1) by (auto simp: worker_ok_def)
  then have "i = length fls" using pc(2) by (simp add: reduce_task_of_def)
  then have "concat (map format_line (reduce_loop (reducef A) (srt A acc))) = good_out A fls n fs0 r"
    using r(4) good_reads [OF codec] by (simp add: good_out_def)
  then show ?thesis using r by (auto intro!: mrsys_inv_move [OF inv] simp: worker_ok_def)
qed

lemma step_reduce_end:
  assumes inv: "mrsys_inv A fls n fs0 s" and ap: "inputs_apart fs0 fls" and pc: "wk_pc (sy_workers s w) = WOut out"
  shows "mrsys_inv A fls n fs0 (set_pc w (WReport (report_of (tr_TaskType (wk_reply (sy_workers s w))) (tr_ReduceTaskId (wk_reply (sy_workers s w)))))
    (s\<lparr>sy_files := (sy_files s)(out_name (nat (tr_ReduceTaskId (wk_reply (sy_workers s w)))) \<mapsto> out)\<rparr>))"
proof -
  have "worker_ok A fls n fs0 (mapped (sy_coord s)) (sy_files s) (sy_workers s w)" using inv by (simp add: mrsys_inv_def)
  then obtain r where r: "mapped (sy_coord s)" "reduce_task_of fls n (wk_reply (sy_workers s w)) r" "out = good_out A fls n fs0 r"
    using pc by (auto simp: worker_ok_def)
  then have "nat (tr_ReduceTaskId (wk_reply (sy_workers s w))) = r" by (simp add: reduce_task_of_def)
  then show ?thesis using r later_out [OF ap]
    by (auto intro!: mrsys_inv_pc [OF inv] simp: worker_ok_def has_out_def reduce_task_of_def)
qed

lemma step_report:
  assumes inv: "mrsys_inv A fls n fs0 s" and pc: "wk_pc (sy_workers s w) = WReport args" and r: "ReportTaskComplete args (sy_coord s) = Inr c'"
  shows "mrsys_inv A fls n fs0 (set_pc w WAsk (s\<lparr>sy_coord := c'\<rparr>))"
proof -
  let ?c = "sy_coord s"
  have ok: "work_ok A fls n fs0 ?c (sy_files s)" and wk: "\<And>v. worker_ok A fls n fs0 (mapped ?c) (sy_files s) (sy_workers s v)"
    using inv by (simp_all add: mrsys_inv_def)
  have c: "coord_inv ?c" "co_files ?c = fls" "co_nReduce ?c = int n" using ok by (auto simp: work_ok_def)
  have l: "length (co_mapStatuses ?c) = length fls" "length (co_reduceStatuses ?c) = n" using c by (auto simp: coord_inv_def)
  have "work_ok A fls n fs0 c' (sy_files s) \<and> (mapped ?c \<longrightarrow> mapped c')"
    using wk [of w] pc unfolding worker_ok_def
  proof (simp, elim disjE exE conjE)
    fix m assume m: "m < length fls" "args = report_of ''map'' (int m)" "has_map A fls n fs0 (sy_files s) m n"
    from report_map_effect [OF c(1), of m c'] m r c show ?thesis using ok l
      by (auto simp: work_ok_def mapped_def all_complete_def nth_list_update dest!: set_update_subset_insert [THEN subsetD])
  next
    fix k assume k: "mapped ?c" "k < n" "args = report_of ''reduce'' (int k)" "has_out A fls n fs0 (sy_files s) k"
    from report_reduce_effect [OF c(1), of k c'] k r c show ?thesis using ok l
      by (auto simp: work_ok_def mapped_def nth_list_update)
  qed
  moreover have "worker_ok A fls n fs0 (mapped c') (sy_files s) ((sy_workers s w)\<lparr>wk_pc := WAsk\<rparr>)" by (simp add: worker_ok_def)
  ultimately show ?thesis using worker_ok_later [OF wk later_refl] by (simp add: mrsys_inv_def)
qed

lemma step_stop: "mrsys_inv A fls n fs0 s \<Longrightarrow> mrsys_inv A fls n fs0 (set_pc w WGone s)"
  by (erule mrsys_inv_move) (simp add: worker_ok_def)

lemma stale_stays: "mr_step A late s t \<Longrightarrow> sy_stale s \<Longrightarrow> sy_stale t"
  by (erule mr_step.cases) simp_all

lemma mrsys_inv_step:
  assumes "mr_step A late s t" "mrsys_inv A fls n fs0 s" "\<not> sy_stale t" "inputs_apart fs0 fls" "0 < n"
    "\<And>kvs. jdec A (concat (map (jenc A) kvs)) = kvs"
  shows "mrsys_inv A fls n fs0 t"
  using assms
proof (cases rule: mr_step.cases)
  case (ask w now c' ans)
  then show ?thesis using step_ask [OF assms(2)] assms(3) by simp
next
  case (map_begin w reply content temps)
  then show ?thesis using step_map_begin [OF assms(2,5)] by simp
next
  case (map_rename w temps i reply)
  then show ?thesis using step_map_rename [OF assms(2,4) map_rename(2,3)] by simp
next
  case (map_end w temps i reply)
  then show ?thesis using step_map_end [OF assms(2) map_end(2,3)] by simp
next
  case (reduce_begin w)
  then show ?thesis using step_reduce_begin [OF assms(2)] by simp
next
  case (reduce_read w acc i reply)
  then show ?thesis using step_reduce_read [OF assms(2) reduce_read(2)] by simp
next
  case (reduce_run w acc i)
  then show ?thesis using step_reduce_run [OF assms(2,6)] by simp
next
  case (reduce_end w out reply)
  then show ?thesis using step_reduce_end [OF assms(2,4) reduce_end(2)] by simp
next
  case (report w args c')
  then show ?thesis using step_report [OF assms(2)] by simp
next
  case (stop w)
  then show ?thesis using step_stop [OF assms(2)] by simp
qed

lemma mrsys_inv_start: "mr_start fls n fs0 s \<Longrightarrow> mrsys_inv A fls n fs0 s"
  by (auto simp: mr_start_def mrsys_inv_def work_ok_def coord_inv_def MakeCoordinator_def n_complete_def all_complete_def worker_ok_def new_worker_def)

section \<open>Jobs in which no task is out for too long\<close>

lemma scan_in_time:
  assumes "scan now is ss ts = Inr (ss', ts', r)"
    and "\<forall>i < length ss. ss ! i = STATUS_INPROGRESS \<longrightarrow> \<not> timed_out now (ts ! i)"
  shows "(r = None \<longrightarrow> ss' = ss) \<and> (\<forall>i. r = Some i \<longrightarrow> i < length ss \<and> ss ! i = STATUS_IDLE \<and> ss' = ss[i := STATUS_INPROGRESS])"
  using assms
proof (induction "is" arbitrary: ss)
  case (Cons i js)
  have "scan now js ss ts = Inr (ss', ts', r) \<or> i < length ss \<and> ss ! i = STATUS_IDLE \<and> r = Some i \<and> ss' = ss[i := STATUS_INPROGRESS]"
    using Cons.prems by (auto simp: rbind_eq_Inr slice_get_eq_Inr split: if_splits)
  then show ?case using Cons.IH Cons.prems(2) by auto
qed simp

text \<open>The task at the head is handed out first.\<close>

lemma scan_head:
  assumes "scan now [0..<length ss] ss ts = Inr (ss', ts', r)" "ss \<noteq> []" "ss ! 0 = STATUS_IDLE"
  shows "r = Some 0"
proof -
  have "[0..<length ss] = 0 # [1..<length ss]" using assms(2) by (simp add: upt_conv_Cons)
  then show ?thesis using assms by (auto simp: rbind_eq_Inr slice_get_eq_Inr split: if_splits)
qed

text \<open>A worker's variable holds a task number other than zero only after task zero has been handed out.\<close>

definition var_ok :: "Coordinator \<Rightarrow> TaskReply \<Rightarrow> bool" where
  "var_ok c reply \<longleftrightarrow> (tr_MapTaskId reply \<noteq> 0 \<longrightarrow> co_mapStatuses c \<noteq> [] \<and> co_mapStatuses c ! 0 \<noteq> STATUS_IDLE)
     \<and> (tr_ReduceTaskId reply \<noteq> 0 \<longrightarrow> co_reduceStatuses c \<noteq> [] \<and> co_reduceStatuses c ! 0 \<noteq> STATUS_IDLE)"

lemma nth_0_update: "xs \<noteq> [] \<Longrightarrow> xs[k := v] ! 0 = (if k = 0 then v else xs ! 0)"
  by (cases xs; cases k) auto

lemma var_ok_update:
  "var_ok c reply \<Longrightarrow> st \<noteq> STATUS_IDLE \<Longrightarrow> co_mapStatuses c' = (co_mapStatuses c)[k := st] \<Longrightarrow> co_reduceStatuses c' = co_reduceStatuses c \<Longrightarrow> var_ok c' reply"
  "var_ok c reply \<Longrightarrow> st \<noteq> STATUS_IDLE \<Longrightarrow> co_reduceStatuses c' = (co_reduceStatuses c)[k := st] \<Longrightarrow> co_mapStatuses c' = co_mapStatuses c \<Longrightarrow> var_ok c' reply"
  by (auto simp: var_ok_def nth_0_update split: if_splits)

lemma prompt_ask_map:
  assumes inv: "coord_inv c" and fn: "co_files c = fls" "co_nReduce c = int n" "0 < n" "'''' \<notin> set fls"
    and t: "in_time now c" and r: "RequestTask now c = Inr (c', ans)" and old: "var_ok c old" and ph: "co_phase c = PhaseMap"
  shows "same_task ans (gob_into old ans) \<and> var_ok c' (gob_into old ans) \<and> (\<forall>reply. var_ok c reply \<longrightarrow> var_ok c' reply)"
proof -
  from RequestTask_map [OF inv ph, of now] r obtain ss ts x where
    x: "c' = c\<lparr>co_mapStatuses := ss, co_mapTimes := ts\<rparr>" "ans = map_reply c x"
    "scan now [0..<length (co_mapStatuses c)] (co_mapStatuses c) (co_mapTimes c) = Inr (ss, ts, x)" by auto
  have "\<forall>i < length (co_mapStatuses c). co_mapStatuses c ! i = STATUS_INPROGRESS \<longrightarrow> \<not> timed_out now (co_mapTimes c ! i)"
    using t by (simp add: in_time_def)
  note s = scan_in_time [OF x(3) this] scan_head [OF x(3)]
  have l: "length (co_mapStatuses c) = length fls" using inv fn by (simp add: coord_inv_def)
  show ?thesis
  proof (cases x)
    case None
    then show ?thesis using s(1) x(1,2) old by (simp add: same_task_def gob_into_def map_reply_def var_ok_def empty_reply_def)
  next
    case (Some i)
    have i: "i < length fls" "co_mapStatuses c ! i = STATUS_IDLE" "ss = (co_mapStatuses c)[i := STATUS_INPROGRESS]"
      using s(1) Some l by simp_all
    have all: "\<forall>reply. var_ok c reply \<longrightarrow> var_ok c' reply" using var_ok_update(1) [of c _ STATUS_INPROGRESS c' i] x(1) i(3) by simp
    have "fls ! i \<noteq> ''''" using i(1) fn(4) by (metis nth_mem)
    moreover have "co_mapStatuses c \<noteq> []" using l i(1) by auto
    moreover have "i \<noteq> 0 \<longrightarrow> co_mapStatuses c ! 0 \<noteq> STATUS_IDLE" using s(2) [OF \<open>co_mapStatuses c \<noteq> []\<close>] Some by auto
    moreover have "i = 0 \<longrightarrow> tr_MapTaskId old = 0" using old i(2) by (auto simp: var_ok_def)
    moreover have "tr_TaskType (gob_into old ans) = ''map''" "tr_MapTaskId (gob_into old ans) = int i" "tr_ReduceTaskId (gob_into old ans) = tr_ReduceTaskId old"
      "tr_Filename (gob_into old ans) = tr_Filename ans" "tr_NReduce (gob_into old ans) = tr_NReduce ans"
      using x(2) Some fn calculation by (simp_all add: gob_into_def map_reply_def empty_reply_def)
    moreover have "tr_TaskType ans = ''map''" "tr_MapTaskId ans = int i" using x(2) Some by simp_all
    ultimately have "same_task ans (gob_into old ans)" "var_ok c' (gob_into old ans)"
      using x(1) i(3) old by (simp_all add: same_task_def var_ok_def nth_0_update)
    with all show ?thesis by blast
  qed
qed

lemma prompt_ask_reduce:
  assumes inv: "coord_inv c" and fn: "co_files c = fls" "co_nReduce c = int n" "0 < n" "'''' \<notin> set fls"
    and t: "in_time now c" and r: "RequestTask now c = Inr (c', ans)" and old: "var_ok c old" and ph: "co_phase c = PhaseReduce"
  shows "same_task ans (gob_into old ans) \<and> var_ok c' (gob_into old ans) \<and> (\<forall>reply. var_ok c reply \<longrightarrow> var_ok c' reply)"
proof -
  from RequestTask_reduce [OF inv ph, of now] r obtain ss ts x where
    x: "c' = c\<lparr>co_reduceStatuses := ss, co_reduceTimes := ts\<rparr>" "ans = reduce_reply c x"
    "scan now [0..<length (co_reduceStatuses c)] (co_reduceStatuses c) (co_reduceTimes c) = Inr (ss, ts, x)" by auto
  have "\<forall>i < length (co_reduceStatuses c). co_reduceStatuses c ! i = STATUS_INPROGRESS \<longrightarrow> \<not> timed_out now (co_reduceTimes c ! i)"
    using t by (simp add: in_time_def)
  note s = scan_in_time [OF x(3) this] scan_head [OF x(3)]
  have l: "length (co_reduceStatuses c) = n" "fls \<noteq> []" using inv fn ph by (auto simp: coord_inv_def)
  show ?thesis
  proof (cases x)
    case None
    then show ?thesis using s(1) x(1,2) old by (simp add: same_task_def gob_into_def reduce_reply_def var_ok_def empty_reply_def)
  next
    case (Some i)
    have i: "i < n" "co_reduceStatuses c ! i = STATUS_IDLE" "ss = (co_reduceStatuses c)[i := STATUS_INPROGRESS]"
      using s(1) Some l by simp_all
    have all: "\<forall>reply. var_ok c reply \<longrightarrow> var_ok c' reply" using var_ok_update(2) [of c _ STATUS_INPROGRESS c' i] x(1) i(3) by simp
    have ne: "co_reduceStatuses c \<noteq> []" using l(1) fn(3) by auto
    moreover have "i \<noteq> 0 \<longrightarrow> co_reduceStatuses c ! 0 \<noteq> STATUS_IDLE" using s(2) [OF ne] Some by auto
    moreover have "i = 0 \<longrightarrow> tr_ReduceTaskId old = 0" using old i(2) by (auto simp: var_ok_def)
    moreover have "tr_TaskType (gob_into old ans) = ''reduce''" "tr_ReduceTaskId (gob_into old ans) = int i" "tr_MapTaskId (gob_into old ans) = tr_MapTaskId old"
      "tr_NMap (gob_into old ans) = tr_NMap ans"
      using x(2) Some fn l(2) calculation by (simp_all add: gob_into_def reduce_reply_def empty_reply_def)
    moreover have "tr_TaskType ans = ''reduce''" "tr_ReduceTaskId ans = int i" using x(2) Some by simp_all
    ultimately have "same_task ans (gob_into old ans)" "var_ok c' (gob_into old ans)"
      using x(1) i(3) old by (simp_all add: same_task_def var_ok_def nth_0_update)
    with all show ?thesis by blast
  qed
qed

lemma prompt_ask:
  assumes inv: "coord_inv c" and fn: "co_files c = fls" "co_nReduce c = int n" "0 < n" "'''' \<notin> set fls"
    and t: "in_time now c" and r: "RequestTask now c = Inr (c', ans)" and old: "var_ok c old"
  shows "same_task ans (gob_into old ans) \<and> var_ok c' (gob_into old ans) \<and> (\<forall>reply. var_ok c reply \<longrightarrow> var_ok c' reply)"
proof (cases "co_phase c")
  case PhaseMap
  then show ?thesis by (rule prompt_ask_map [OF inv fn t r old])
next
  case PhaseReduce
  then show ?thesis by (rule prompt_ask_reduce [OF inv fn t r old])
next
  case PhaseDone
  then have "c' = c" "ans = empty_reply\<lparr>tr_TaskType := ''wait''\<rparr>" using r by (auto simp: RequestTask_def)
  then show ?thesis using old by (simp add: same_task_def gob_into_def var_ok_def empty_reply_def)
qed

lemma report_var_ok:
  assumes inv: "mrsys_inv A fls n fs0 s" and pc: "wk_pc (sy_workers s w) = WReport args" and r: "ReportTaskComplete args (sy_coord s) = Inr c'"
    and v: "var_ok (sy_coord s) reply"
  shows "var_ok c' reply"
proof -
  have ok: "work_ok A fls n fs0 (sy_coord s) (sy_files s)" and wk: "worker_ok A fls n fs0 (mapped (sy_coord s)) (sy_files s) (sy_workers s w)"
    using inv by (simp_all add: mrsys_inv_def)
  have c: "coord_inv (sy_coord s)" "co_files (sy_coord s) = fls" "co_nReduce (sy_coord s) = int n" using ok by (auto simp: work_ok_def)
  show ?thesis using wk pc unfolding worker_ok_def
  proof (simp, elim disjE exE conjE)
    fix m assume m: "m < length fls" "args = report_of ''map'' (int m)"
    with report_map_effect [OF c(1), of m c'] r c var_ok_update(1) [OF v, of STATUS_COMPLETE c' m] show ?thesis by auto
  next
    fix k assume k: "mapped (sy_coord s)" "k < n" "args = report_of ''reduce'' (int k)"
    with report_reduce_effect [OF c(1), of k c'] r c var_ok_update(2) [OF v, of STATUS_COMPLETE c' k] show ?thesis by (auto simp: mapped_def)
  qed
qed

definition prompt_inv :: "mr_app \<Rightarrow> string list \<Rightarrow> nat \<Rightarrow> files \<Rightarrow> mrsys \<Rightarrow> bool" where
  "prompt_inv A fls n fs0 s \<longleftrightarrow> mrsys_inv A fls n fs0 s \<and> \<not> sy_stale s \<and> (\<forall>w. var_ok (sy_coord s) (wk_reply (sy_workers s w)))"

text \<open>What is assumed of a job: the input files exist and have names of their own, there is a reduce task, and the decoder reads
  what the encoder wrote.\<close>

definition job_ok :: "mr_app \<Rightarrow> string list \<Rightarrow> nat \<Rightarrow> files \<Rightarrow> bool" where
  "job_ok A fls n fs0 \<longleftrightarrow> inputs_apart fs0 fls \<and> 0 < n \<and> (\<forall>kvs. jdec A (concat (map (jenc A) kvs)) = kvs)"

lemma mrsys_inv_step_ok: "mr_step A late s t \<Longrightarrow> mrsys_inv A fls n fs0 s \<Longrightarrow> \<not> sy_stale t \<Longrightarrow> job_ok A fls n fs0 \<Longrightarrow> mrsys_inv A fls n fs0 t"
  by (erule mrsys_inv_step) (auto simp: job_ok_def)

lemma prompt_inv_step:
  assumes st: "mr_step A False s t" and inv: "prompt_inv A fls n fs0 s" and ok: "job_ok A fls n fs0"
  shows "prompt_inv A fls n fs0 t"
proof -
  have s: "mrsys_inv A fls n fs0 s" "\<not> sy_stale s" "\<And>w. var_ok (sy_coord s) (wk_reply (sy_workers s w))" using inv by (auto simp: prompt_inv_def)
  have c: "coord_inv (sy_coord s)" "co_files (sy_coord s) = fls" "co_nReduce (sy_coord s) = int n"
    using s(1) by (auto simp: mrsys_inv_def work_ok_def)
  have j: "inputs_apart fs0 fls" "0 < n" "'''' \<notin> set fls" "\<And>kvs. jdec A (concat (map (jenc A) kvs)) = kvs" using ok by (auto simp: job_ok_def inputs_apart_def)
  have "\<not> sy_stale t \<and> (\<forall>w. var_ok (sy_coord t) (wk_reply (sy_workers t w)))" using st
  proof (cases rule: mr_step.cases)
    case (ask w now c' ans)
    from prompt_ask [OF c j(2,3) _ ask(4) s(3) [of w]] ask(3) show ?thesis using ask(1) s by auto
  next
    case (report w args c')
    then show ?thesis using report_var_ok [OF s(1) report(2,3)] s by auto
  qed (use s in auto)
  then show ?thesis using mrsys_inv_step [OF st s(1) _ j(1,2,4)] by (simp add: prompt_inv_def)
qed

interpretation job: invariant_system "mr_start fls n fs0" "mr_step A late" "\<lambda>s. job_ok A fls n fs0 \<longrightarrow> sy_stale s \<or> mrsys_inv A fls n fs0 s"
  for A fls n fs0 late
proof
  show "job_ok A fls n fs0 \<longrightarrow> sy_stale s \<or> mrsys_inv A fls n fs0 s" if "mr_start fls n fs0 s" for s using mrsys_inv_start [OF that] by simp
  show "job_ok A fls n fs0 \<longrightarrow> sy_stale t \<or> mrsys_inv A fls n fs0 t"
    if "job_ok A fls n fs0 \<longrightarrow> sy_stale s \<or> mrsys_inv A fls n fs0 s" "mr_step A late s t" for s t
    using that stale_stays [OF that(2)] mrsys_inv_step_ok [OF that(2)] by blast
qed

interpretation prompt: invariant_system "mr_start fls n fs0" "mr_step A False" "\<lambda>s. job_ok A fls n fs0 \<longrightarrow> prompt_inv A fls n fs0 s"
  for A fls n fs0
proof
  show "job_ok A fls n fs0 \<longrightarrow> prompt_inv A fls n fs0 s" if "mr_start fls n fs0 s" for s
    using mrsys_inv_start [OF that] that by (auto simp: prompt_inv_def mr_start_def var_ok_def new_worker_def empty_reply_def)
  show "job_ok A fls n fs0 \<longrightarrow> prompt_inv A fls n fs0 t"
    if "job_ok A fls n fs0 \<longrightarrow> prompt_inv A fls n fs0 s" "mr_step A False s t" for s t
    using that prompt_inv_step by blast
qed

lemma fresh_inv:
  assumes "reach (mr_start fls n fs0) (mr_step A late) s" "\<not> late \<or> \<not> sy_stale s" "job_ok A fls n fs0"
  shows "mrsys_inv A fls n fs0 s \<and> \<not> sy_stale s"
proof (cases late)
  case True
  then show ?thesis using job.reach_inv [OF assms(1)] assms(2,3) by blast
next
  case False
  then show ?thesis using prompt.reach_inv [of fls n fs0 A s] assms(1,3) by (simp add: prompt_inv_def)
qed

lemma done_outputs:
  assumes "mrsys_inv A fls n fs0 s" "Done (sy_coord s)" "r < n"
  shows "sy_files s (out_name r) = Some (good_out A fls n fs0 r)"
proof -
  have "co_reduceStatuses (sy_coord s) ! r = STATUS_COMPLETE" "length (co_reduceStatuses (sy_coord s)) = n"
    using assms by (auto simp: mrsys_inv_def work_ok_def Done_def coord_inv_def all_complete_def)
  then show ?thesis using assms by (simp add: mrsys_inv_def work_ok_def has_out_def)
qed

end
