(* ===== verification/Mr_Progress.thy ===== *)
theory Mr_Progress
  imports Mr_System
begin

text \<open>
  What becomes of a MapReduce job: the run in which a slow worker makes the job end with a wrong output, the proof that any
  other state of a job can be taken to its end, and the output of a job compared with the sequential program.
\<close>

section \<open>A slow worker spoils the output\<close>

text \<open>A system in which only the workers 0 and 1 have done something.\<close>

definition duo :: "Coordinator \<Rightarrow> files \<Rightarrow> mr_worker \<Rightarrow> mr_worker \<Rightarrow> bool \<Rightarrow> mrsys" where
  "duo c fs w0 w1 stale = \<lparr>sy_coord = c, sy_files = fs, sy_workers = (\<lambda>_. new_worker)(0 := w0, 1 := w1), sy_stale = stale\<rparr>"

definition wk_answered :: "mr_worker \<Rightarrow> TaskReply \<Rightarrow> mr_worker" where
  "wk_answered wk ans = \<lparr>wk_reply = gob_into (wk_reply wk) ans, wk_pc = (if has_task (gob_into (wk_reply wk) ans) then WTask else WAsk)\<rparr>"

lemma duo_simps [simp]:
  "sy_coord (duo c fs w0 w1 b) = c" "sy_files (duo c fs w0 w1 b) = fs" "sy_stale (duo c fs w0 w1 b) = b"
  "sy_workers (duo c fs w0 w1 b) 0 = w0" "sy_workers (duo c fs w0 w1 b) (Suc 0) = w1"
  "(duo c fs w0 w1 b)\<lparr>sy_files := fs'\<rparr> = duo c fs' w0 w1 b" "(duo c fs w0 w1 b)\<lparr>sy_coord := c'\<rparr> = duo c' fs w0 w1 b"
  "set_pc 0 pc (duo c fs w0 w1 b) = duo c fs (w0\<lparr>wk_pc := pc\<rparr>) w1 b" "set_pc (Suc 0) pc (duo c fs w0 w1 b) = duo c fs w0 (w1\<lparr>wk_pc := pc\<rparr>) b"
  "take_answer 0 c' ans (duo c fs w0 w1 b) = duo c' fs (wk_answered w0 ans) w1 (b \<or> \<not> same_task ans (wk_reply (wk_answered w0 ans)))"
  "take_answer (Suc 0) c' ans (duo c fs w0 w1 b) = duo c' fs w0 (wk_answered w1 ans) (b \<or> \<not> same_task ans (wk_reply (wk_answered w1 ans)))"
  by (auto simp: duo_def set_pc_def take_answer_def wk_answered_def Let_def)

text \<open>A map task with one reduce task, and a reduce task, from the answer to the report.\<close>

lemma part_one: "part (Suc 0) 0 kvs = kvs"
  by (simp add: part_def bucket_def)

lemma doMap_one:
  assumes "fs (tr_Filename reply) = Some content" "tr_NReduce reply = 1"
  shows "doMap je mf reply fs = Inr (fs(inter_name (nat (tr_MapTaskId reply)) 0 \<mapsto> concat (map je (mf (tr_Filename reply) content))),
    report_of (tr_TaskType reply) (tr_MapTaskId reply))"
  using assms encode_all_result [of "Suc 0" "replicate 1 []" je "mf (tr_Filename reply) content"] by (simp add: doMap_def part_one)

lemma do_map_one:
  assumes "wk_pc (sy_workers s w) = WTask" "tr_TaskType (wk_reply (sy_workers s w)) = ''map''" "tr_NReduce (wk_reply (sy_workers s w)) = 1"
    and "sy_files s (tr_Filename (wk_reply (sy_workers s w))) = Some content"
    and "ReportTaskComplete (report_of ''map'' (tr_MapTaskId (wk_reply (sy_workers s w)))) (sy_coord s) = Inr c'"
  shows "(mr_step A late)\<^sup>*\<^sup>* s (set_pc w WAsk (s\<lparr>sy_coord := c',
    sy_files := (sy_files s)(inter_name (nat (tr_MapTaskId (wk_reply (sy_workers s w)))) 0 \<mapsto>
      concat (map (jenc A) (mapf A (tr_Filename (wk_reply (sy_workers s w))) content)))\<rparr>))"
proof -
  let ?r = "wk_reply (sy_workers s w)"
  let ?fs = "(sy_files s)(inter_name (nat (tr_MapTaskId ?r)) 0 \<mapsto> concat (map (jenc A) (mapf A (tr_Filename ?r) content)))"
  let ?t = "set_pc w (WReport (report_of ''map'' (tr_MapTaskId ?r))) (s\<lparr>sy_files := ?fs\<rparr>)"
  have "(mr_step A late)\<^sup>*\<^sup>* s ?t"
    using doMap_steps [OF assms(1,2) doMap_one [where fs = "sy_files s", OF assms(4,3)]] assms(2) by simp
  moreover have "mr_step A late ?t (set_pc w WAsk (?t\<lparr>sy_coord := c'\<rparr>))" by (rule mr_step.report [where args = "report_of ''map'' (tr_MapTaskId ?r)"]) (simp_all add: assms(5))
  moreover have "set_pc w WAsk (?t\<lparr>sy_coord := c'\<rparr>) = set_pc w WAsk (s\<lparr>sy_coord := c', sy_files := ?fs\<rparr>)" by (simp add: set_pc_def)
  ultimately show ?thesis by simp
qed

lemma do_reduce_all:
  assumes "wk_pc (sy_workers s w) = WTask" "tr_TaskType (wk_reply (sy_workers s w)) = ''reduce''" "tr_NMap (wk_reply (sy_workers s w)) = int m"
    and "ReportTaskComplete (report_of ''reduce'' (tr_ReduceTaskId (wk_reply (sy_workers s w)))) (sy_coord s) = Inr c'"
  shows "(mr_step A late)\<^sup>*\<^sup>* s (set_pc w WAsk (s\<lparr>sy_coord := c',
    sy_files := (sy_files s)(out_name (nat (tr_ReduceTaskId (wk_reply (sy_workers s w)))) \<mapsto>
      concat (map format_line (reduce_loop (reducef A) (srt A (read_inter (jdec A) (sy_files s) [0..<m] (nat (tr_ReduceTaskId (wk_reply (sy_workers s w)))))))))\<rparr>))"
proof -
  let ?r = "wk_reply (sy_workers s w)"
  let ?fs = "(sy_files s)(out_name (nat (tr_ReduceTaskId ?r)) \<mapsto>
      concat (map format_line (reduce_loop (reducef A) (srt A (read_inter (jdec A) (sy_files s) [0..<m] (nat (tr_ReduceTaskId ?r)))))))"
  let ?t = "set_pc w (WReport (report_of ''reduce'' (tr_ReduceTaskId ?r))) (s\<lparr>sy_files := ?fs\<rparr>)"
  have "(mr_step A late)\<^sup>*\<^sup>* s ?t"
    by (rule doReduce_steps [OF assms(1,2,3)]) (simp add: doReduce_def Let_def assms(2,3))
  moreover have "mr_step A late ?t (set_pc w WAsk (?t\<lparr>sy_coord := c'\<rparr>))" by (rule mr_step.report [where args = "report_of ''reduce'' (tr_ReduceTaskId ?r)"]) (simp_all add: assms(4))
  moreover have "set_pc w WAsk (?t\<lparr>sy_coord := c'\<rparr>) = set_pc w WAsk (s\<lparr>sy_coord := c', sy_files := ?fs\<rparr>)" by (simp add: set_pc_def)
  ultimately show ?thesis by simp
qed

text \<open>The coordinator of the run, with the files \<open>f\<close> and \<open>g\<close>: worker 0 is given task 0 and does not report for eleven
  seconds; worker 1 completes task 1, is told to wait, is given task 0 in turn and reports task 1 again; worker 0
  reports at last, and executes the reduce task.\<close>

definition spoil :: "string \<Rightarrow> string \<Rightarrow> Coordinator list" where
  "spoil f g =
     (let c0 = MakeCoordinator [f, g] 1;
          c1 = c0\<lparr>co_mapStatuses := [STATUS_INPROGRESS, STATUS_IDLE], co_mapTimes := [Some 0, None]\<rparr>;
          c2 = c0\<lparr>co_mapStatuses := [STATUS_INPROGRESS, STATUS_INPROGRESS], co_mapTimes := [Some 0, Some 0]\<rparr>;
          c3 = c2\<lparr>co_mapStatuses := [STATUS_INPROGRESS, STATUS_COMPLETE], co_mapsDone := 1\<rparr>;
          c4 = c3\<lparr>co_mapStatuses := [STATUS_IDLE, STATUS_COMPLETE]\<rparr>;
          c5 = c3\<lparr>co_mapTimes := [Some 11000000000, Some 0]\<rparr>;
          c6 = c5\<lparr>co_mapStatuses := [STATUS_COMPLETE, STATUS_COMPLETE], co_mapsDone := 2, co_phase := PhaseReduce\<rparr>;
          c7 = c6\<lparr>co_reduceStatuses := [STATUS_INPROGRESS], co_reduceTimes := [Some 12000000000]\<rparr>;
          c8 = c7\<lparr>co_reduceStatuses := [STATUS_COMPLETE], co_reduceDone := 1, co_phase := PhaseDone\<rparr>
      in [c0, c1, c2, c3, c4, c5, c6, c7, c8])"

lemmas spoil_simps = spoil_def Let_def MakeCoordinator_def RequestTask_def ReportTaskComplete_def report_of_def slice_get_def slice_set_def
  idx_ok_def timed_out_def task_timeout_def map_task_def map_reply_def reduce_task_def reduce_reply_def

lemma spoil_asks:
  "RequestTask 0 (spoil f g ! 0) = Inr (spoil f g ! 1, map_task [f, g] 1 0)"
  "RequestTask 0 (spoil f g ! 1) = Inr (spoil f g ! 2, map_task [f, g] 1 1)"
  "RequestTask 11000000000 (spoil f g ! 3) = Inr (spoil f g ! 4, empty_reply\<lparr>tr_TaskType := ''wait''\<rparr>)"
  "RequestTask 11000000000 (spoil f g ! 4) = Inr (spoil f g ! 5, map_task [f, g] 1 0)"
  "RequestTask 12000000000 (spoil f g ! 6) = Inr (spoil f g ! 7, reduce_task [f, g] 1 0)"
  by (simp_all add: spoil_simps)

lemma spoil_reports:
  "ReportTaskComplete (report_of ''map'' 1) (spoil f g ! 2) = Inr (spoil f g ! 3)"
  "ReportTaskComplete (report_of ''map'' 1) (spoil f g ! 5) = Inr (spoil f g ! 5)"
  "ReportTaskComplete (report_of ''map'' 0) (spoil f g ! 5) = Inr (spoil f g ! 6)"
  "ReportTaskComplete (report_of ''reduce'' 0) (spoil f g ! 7) = Inr (spoil f g ! 8)"
  by (simp_all add: spoil_simps)

text \<open>A worker with a task, and with the variable it keeps.\<close>

definition holding :: "string \<Rightarrow> string \<Rightarrow> int \<Rightarrow> int \<Rightarrow> int \<Rightarrow> int \<Rightarrow> wpc \<Rightarrow> mr_worker" where
  "holding ty f m r n k pc = \<lparr>wk_reply = \<lparr>tr_TaskType = ty, tr_Filename = f, tr_MapTaskId = m, tr_ReduceTaskId = r, tr_NReduce = n, tr_NMap = k\<rparr>, wk_pc = pc\<rparr>"

lemma holding_simps [simp]:
  "wk_pc (holding ty f m r n k pc) = pc" "tr_TaskType (wk_reply (holding ty f m r n k pc)) = ty" "tr_Filename (wk_reply (holding ty f m r n k pc)) = f"
  "tr_MapTaskId (wk_reply (holding ty f m r n k pc)) = m" "tr_ReduceTaskId (wk_reply (holding ty f m r n k pc)) = r"
  "tr_NReduce (wk_reply (holding ty f m r n k pc)) = n" "tr_NMap (wk_reply (holding ty f m r n k pc)) = k"
  "(holding ty f m r n k pc)\<lparr>wk_pc := pc'\<rparr> = holding ty f m r n k pc'"
  by (simp_all add: holding_def)

lemma new_worker_holding: "new_worker = holding '''' '''' 0 0 0 0 WAsk"
  by (simp add: new_worker_def empty_reply_def holding_def)

text \<open>What an answer leaves in the variable: the number of a map task stays when the new one is zero.\<close>

lemma wk_answered_holding:
  "f' \<noteq> '''' \<Longrightarrow> fls ! i = f' \<Longrightarrow> wk_answered (holding ty f m r n k WAsk) (map_task fls 1 i) = holding ''map'' f' (if i = 0 then m else int i) r 1 k WTask"
  "fls \<noteq> [] \<Longrightarrow> wk_answered (holding ty f m r n k WAsk) (reduce_task fls 1 i) = holding ''reduce'' f m (if i = 0 then r else int i) n (int (length fls)) WTask"
  "wk_answered (holding ty f m r n k WAsk) (empty_reply\<lparr>tr_TaskType := ''wait''\<rparr>) = holding ''wait'' f m r n k WAsk"
  by (simp_all add: wk_answered_def gob_into_def map_task_def map_reply_def reduce_task_def reduce_reply_def MakeCoordinator_def empty_reply_def
      has_task_def holding_def)

lemma same_task_holding:
  "same_task (map_task fls 1 i) (wk_reply (holding ''map'' f m r n k pc)) \<longleftrightarrow> f = fls ! i \<and> m = int i \<and> n = 1"
  "same_task (reduce_task fls 1 i) (wk_reply (holding ''reduce'' f m r n k pc)) \<longleftrightarrow> r = int i \<and> k = int (length fls)"
  "same_task (empty_reply\<lparr>tr_TaskType := ''wait''\<rparr>) (wk_reply (holding ''wait'' f m r n k pc))"
  by (simp_all add: same_task_def map_task_def map_reply_def reduce_task_def reduce_reply_def MakeCoordinator_def empty_reply_def)

lemma ask_duo:
  assumes "RequestTask now c = Inr (c', ans)"
  shows "wk_pc w0 = WAsk \<Longrightarrow> wk_answered w0 ans = v \<Longrightarrow> b' \<longleftrightarrow> b \<or> \<not> same_task ans (wk_reply v) \<Longrightarrow> (mr_step A True)\<^sup>*\<^sup>* (duo c fs w0 w1 b) (duo c' fs v w1 b')"
    and "wk_pc w1 = WAsk \<Longrightarrow> wk_answered w1 ans = v \<Longrightarrow> b' \<longleftrightarrow> b \<or> \<not> same_task ans (wk_reply v) \<Longrightarrow> (mr_step A True)\<^sup>*\<^sup>* (duo c fs w0 w1 b) (duo c' fs w0 v b')"
  using mr_step.ask [of "duo c fs w0 w1 b" 0 True now c' ans A] mr_step.ask [of "duo c fs w0 w1 b" 1 True now c' ans A] assms
  by (auto intro: r_into_rtranclp)

text \<open>The run up to the map task that is executed under the wrong number.\<close>

lemma spoil_maps:
  fixes A :: mr_app and f g :: string
  defines "W0 \<equiv> holding ''map'' f 0 0 1 0 WTask"
  assumes f: "fs f = Some x" "f \<noteq> ''''" "f \<noteq> inter_name 1 0" and g: "fs g = Some y" "g \<noteq> ''''"
  shows "(mr_step A True)\<^sup>*\<^sup>* (duo (spoil f g ! 0) fs new_worker new_worker False)
    (duo (spoil f g ! 5) (fs(inter_name 1 0 \<mapsto> concat (map (jenc A) (mapf A f x)))) W0 (holding ''map'' f 1 0 1 0 WAsk) True)"
proof -
  let ?R = "(mr_step A True)\<^sup>*\<^sup>*" and ?fs = "fs(inter_name 1 0 \<mapsto> concat (map (jenc A) (mapf A g y)))"
  let ?new = "holding '''' '''' 0 0 0 0 WAsk" and ?h = "\<lambda>ty f. holding ty f 1 0 1 0"
  note ts = wk_answered_holding same_task_holding W0_def
  have r1: "?R (duo (spoil f g ! 0) fs ?new ?new False) (duo (spoil f g ! 1) fs W0 ?new False)"
    by (rule ask_duo(1) [OF spoil_asks(1)]) (use f in \<open>simp_all add: ts del: One_nat_def\<close>)
  have r2: "?R (duo (spoil f g ! 1) fs W0 ?new False) (duo (spoil f g ! 2) fs W0 (?h ''map'' g WTask) False)"
    by (rule ask_duo(2) [OF spoil_asks(2)]) (use g in \<open>simp_all add: ts del: One_nat_def\<close>)
  have r3: "?R (duo (spoil f g ! 2) fs W0 (?h ''map'' g WTask) False) (duo (spoil f g ! 3) ?fs W0 (?h ''map'' g WAsk) False)"
    using do_map_one [of "duo (spoil f g ! 2) fs W0 (?h ''map'' g WTask) False" 1 y "spoil f g ! 3" A True] g spoil_reports(1) by simp
  have r4: "?R (duo (spoil f g ! 3) ?fs W0 (?h ''map'' g WAsk) False) (duo (spoil f g ! 4) ?fs W0 (?h ''wait'' g WAsk) False)"
    by (rule ask_duo(2) [OF spoil_asks(3)]) (simp_all add: ts del: One_nat_def)
  have r5: "?R (duo (spoil f g ! 4) ?fs W0 (?h ''wait'' g WAsk) False) (duo (spoil f g ! 5) ?fs W0 (?h ''map'' f WTask) True)"
    by (rule ask_duo(2) [OF spoil_asks(4)]) (use f in \<open>simp_all add: ts del: One_nat_def\<close>)
  have r6: "?R (duo (spoil f g ! 5) ?fs W0 (?h ''map'' f WTask) True)
      (duo (spoil f g ! 5) (fs(inter_name 1 0 \<mapsto> concat (map (jenc A) (mapf A f x)))) W0 (?h ''map'' f WAsk) True)"
    using do_map_one [of "duo (spoil f g ! 5) ?fs W0 (?h ''map'' f WTask) True" 1 x "spoil f g ! 5" A True] f spoil_reports(2) by simp
  show ?thesis unfolding new_worker_holding by (rule rtranclp_trans [OF r1 rtranclp_trans [OF r2 rtranclp_trans [OF r3 rtranclp_trans [OF r4 rtranclp_trans [OF r5 r6]]]]])
qed

text \<open>The rest of the run: worker 0 completes task 0 and the reduce task.\<close>

lemma spoil_reduce:
  fixes A :: mr_app and f g :: string
  defines "W0 \<equiv> holding ''map'' f 0 0 1 0 WTask"
  assumes f: "fs f = Some x" and i: "fs (inter_name 1 0) = Some (concat (map (jenc A) (mapf A f x)))"
    and codec: "\<And>kvs. jdec A (concat (map (jenc A) kvs)) = kvs"
  shows "\<exists>t. (mr_step A True)\<^sup>*\<^sup>* (duo (spoil f g ! 5) fs W0 W True) t \<and> Done (sy_coord t)
    \<and> sy_files t (out_name 0) = Some (concat (map format_line (reduce_loop (reducef A) (srt A (mapf A f x @ mapf A f x)))))"
proof -
  let ?R = "(mr_step A True)\<^sup>*\<^sup>*" and ?fs = "fs(inter_name 0 0 \<mapsto> concat (map (jenc A) (mapf A f x)))"
  let ?out = "concat (map format_line (reduce_loop (reducef A) (srt A (mapf A f x @ mapf A f x))))"
  let ?V = "holding ''map'' f 0 0 1 0 WAsk" and ?h = "holding ''reduce'' f 0 0 1 2"
  have "[0..<2::nat] = [0, 1]" by (simp add: upt_rec)
  then have rd: "read_inter (jdec A) ?fs [0..<2] 0 = mapf A f x @ mapf A f x" using i codec by simp
  have r1: "?R (duo (spoil f g ! 5) fs W0 W True) (duo (spoil f g ! 6) ?fs ?V W True)"
    using do_map_one [of "duo (spoil f g ! 5) fs W0 W True" 0 x "spoil f g ! 6" A True] f spoil_reports(3) by (simp add: W0_def)
  have r2: "?R (duo (spoil f g ! 6) ?fs ?V W True) (duo (spoil f g ! 7) ?fs (?h WTask) W True)"
    by (rule ask_duo(1) [OF spoil_asks(5)]) (simp_all add: wk_answered_holding same_task_holding del: One_nat_def)
  have r3: "?R (duo (spoil f g ! 7) ?fs (?h WTask) W True) (duo (spoil f g ! 8) (?fs(out_name 0 \<mapsto> ?out)) (?h WAsk) W True)"
    using do_reduce_all [of "duo (spoil f g ! 7) ?fs (?h WTask) W True" 0 2 "spoil f g ! 8" A True] rd spoil_reports(4) by simp
  show ?thesis by (intro exI conjI, rule rtranclp_trans [OF r1 rtranclp_trans [OF r2 r3]]) (simp_all add: Done_def spoil_def Let_def)
qed

text \<open>C31: a slow worker can spoil the output. \<open>Worker\<close> uses one reply variable for all its requests, and the decoder leaves a
  field alone when the sender's value is zero. With two input files and two workers, one of which is slower than ten seconds, there
  is a run in which no process fails, the coordinator says that the job is done, and the output is computed
  from the pairs of the first file twice and none of the second.\<close>

theorem slow_worker_spoils_output:
  assumes "job_ok A [f, g] 1 fs" "fs f = Some x"
  shows "\<exists>s. reach (mr_start [f, g] 1 fs) (mr_step A True) s \<and> Done (sy_coord s)
    \<and> sy_files s (out_name 0) = Some (concat (map format_line (reduce_loop (reducef A) (srt A (mapf A f x @ mapf A f x)))))"
proof -
  have h: "f \<noteq> ''''" "g \<noteq> ''''" "f \<noteq> inter_name 1 0" "\<And>kvs. jdec A (concat (map (jenc A) kvs)) = kvs" "fs g \<noteq> None"
    using assms(1) by (auto simp: job_ok_def inputs_apart_def input_ok_def)
  then obtain y where y: "fs g = Some y" by auto
  let ?fs = "fs(inter_name 1 0 \<mapsto> concat (map (jenc A) (mapf A f x)))"
  have "mr_start [f, g] 1 fs (duo (spoil f g ! 0) fs new_worker new_worker False)" by (simp add: mr_start_def duo_def spoil_def Let_def fun_upd_idem)
  note start = reach_init [where init = "mr_start [f, g] 1 fs" and step = "mr_step A True", OF this]
  note m = spoil_maps [where fs = fs, OF assms(2) h(1,3) y h(2), of A]
  have "?fs f = Some x" "?fs (inter_name 1 0) = Some (concat (map (jenc A) (mapf A f x)))" using assms(2) h(3) by simp_all
  from spoil_reduce [where fs = ?fs, OF this h(4), of g] reach_steps [OF start rtranclp_trans [OF m]] show ?thesis by blast
qed

definition wc_app :: mr_app where
  "wc_app = \<lparr>jenc = demo_jenc, jdec = demo_jdec, srt = sort_key Key, mapf = wc_Map, reducef = wc_Reduce\<rparr>"

lemma wc_demo_ok: "job_ok wc_app [''f'', ''g''] 1 [''f'' \<mapsto> ''a'', ''g'' \<mapsto> ''b'']"
  using demo_codec by (auto simp: job_ok_def inputs_apart_def input_ok_def wc_app_def inter_name_def out_name_def)

theorem slow_worker_spoils_output_witness:
  "(\<exists>s. reach (mr_start [''f'', ''g''] 1 [''f'' \<mapsto> ''a'', ''g'' \<mapsto> ''b'']) (mr_step wc_app True) s \<and> Done (sy_coord s)
      \<and> sy_files s (out_name 0) = Some (''a 2'' @ [char_of (10::nat)]))
   \<and> mrsequential (srt wc_app) wc_Map wc_Reduce [''f'', ''g''] [''f'' \<mapsto> ''a'', ''g'' \<mapsto> ''b'']
      = Inr ([''f'' \<mapsto> ''a'', ''g'' \<mapsto> ''b''](''mr-out-0'' \<mapsto> ''a 1'' @ [char_of (10::nat)] @ ''b 1'' @ [char_of (10::nat)]))"
proof
  have two: "itoa 2 = ''2''" "itoa 1 = ''1''" by code_simp+
  have m: "wc_Map ''f'' ''a'' = [\<lparr>Key = ''a'', Value = ''1''\<rparr>]" "wc_Map ''g'' ''b'' = [\<lparr>Key = ''b'', Value = ''1''\<rparr>]"
    by (simp_all add: wc_Map_def FieldsFunc.simps isLetter_def Let_def)
  have "concat (map format_line (reduce_loop (reducef wc_app) (srt wc_app (mapf wc_app ''f'' ''a'' @ mapf wc_app ''f'' ''a''))))
      = ''a 2'' @ [char_of (10::nat)]"
    using two by (simp add: wc_app_def m format_line_def wc_Reduce_def numeral_2_eq_2)
  with slow_worker_spoils_output [OF wc_demo_ok, of "''a''"] show
    "\<exists>s. reach (mr_start [''f'', ''g''] 1 [''f'' \<mapsto> ''a'', ''g'' \<mapsto> ''b'']) (mr_step wc_app True) s \<and> Done (sy_coord s)
      \<and> sy_files s (out_name 0) = Some (''a 2'' @ [char_of (10::nat)])" by simp
  show "mrsequential (srt wc_app) wc_Map wc_Reduce [''f'', ''g''] [''f'' \<mapsto> ''a'', ''g'' \<mapsto> ''b'']
      = Inr ([''f'' \<mapsto> ''a'', ''g'' \<mapsto> ''b''](''mr-out-0'' \<mapsto> ''a 1'' @ [char_of (10::nat)] @ ''b 1'' @ [char_of (10::nat)]))"
    using two by (simp add: mrsequential_def m wc_app_def format_line_def wc_Reduce_def)
qed

section \<open>A job can always be finished\<close>

text \<open>A variable in which no field but the type is set decodes an answer as it was sent.\<close>

definition zero_var :: "TaskReply \<Rightarrow> bool" where
  "zero_var r \<longleftrightarrow> tr_Filename r = '''' \<and> tr_MapTaskId r = 0 \<and> tr_ReduceTaskId r = 0 \<and> tr_NReduce r = 0 \<and> tr_NMap r = 0"

lemma gob_into_zero: "zero_var r \<Longrightarrow> tr_TaskType ans \<noteq> '''' \<Longrightarrow> gob_into r ans = ans"
  by (cases ans) (simp add: zero_var_def gob_into_def)

lemma stalled_at: "length ts = length ss \<Longrightarrow> \<exists>now. stalled now ss ts"
proof -
  assume l: "length ts = length ss"
  let ?B = "Max (insert 0 (the ` set ts))"
  have "timed_out (?B + task_timeout + 1) (ts ! i)" if "i < length ss" for i
  proof (cases "ts ! i")
    case (Some u)
    then have "u \<in> the ` set ts" using that l by (metis image_eqI nth_mem option.sel)
    then have "u \<le> ?B" by (intro Max_ge) auto
    then show ?thesis using Some by (simp add: timed_out_def)
  qed (simp add: timed_out_def)
  then show ?thesis unfolding stalled_def by blast
qed

lemma task_handed_out:
  assumes inv: "coord_inv c" and ne: "co_files c \<noteq> []" "0 < co_nReduce c" and open_: "\<not> Done c"
  shows "\<exists>now c1 ans1. RequestTask now c = Inr (c1, ans1)
    \<and> (tr_TaskType ans1 \<noteq> ''wait'' \<or> (\<exists>c2 ans2. RequestTask now c1 = Inr (c2, ans2) \<and> tr_TaskType ans2 \<noteq> ''wait''))"
proof (cases "co_phase c")
  case PhaseMap
  obtain now where st: "stalled now (co_mapStatuses c) (co_mapTimes c)" using stalled_at inv by (metis coord_inv_def)
  obtain c1 ans1 where r: "RequestTask now c = Inr (c1, ans1)" using RequestTask_inv [OF inv, of now] by blast
  then show ?thesis using map_reassigned [OF inv PhaseMap ne(1) st r] by fastforce
next
  case PhaseReduce
  have "co_reduceStatuses c \<noteq> []" using inv ne(2) by (auto simp: coord_inv_def)
  moreover obtain now where "stalled now (co_reduceStatuses c) (co_reduceTimes c)" using stalled_at inv by (metis coord_inv_def)
  moreover obtain c1 ans1 where r: "RequestTask now c = Inr (c1, ans1)" using RequestTask_inv [OF inv, of now] by blast
  ultimately show ?thesis using reduce_reassigned [OF inv PhaseReduce _ _ r] r by fastforce
next
  case PhaseDone
  then show ?thesis using open_ by (simp add: Done_def)
qed

text \<open>The tasks that are not complete.\<close>

definition open_tasks :: "Coordinator \<Rightarrow> nat" where
  "open_tasks c = (length (co_mapStatuses c) - n_complete (co_mapStatuses c)) + (length (co_reduceStatuses c) - n_complete (co_reduceStatuses c))"

lemma open_tasks_same:
  "same_work (co_mapStatuses c) (co_mapStatuses c') \<Longrightarrow> same_work (co_reduceStatuses c) (co_reduceStatuses c') \<Longrightarrow> open_tasks c' = open_tasks c"
  unfolding open_tasks_def by (simp add: n_complete_same) (simp add: same_work_def)

definition others_same :: "nat \<Rightarrow> mrsys \<Rightarrow> mrsys \<Rightarrow> bool" where
  "others_same w s t \<longleftrightarrow> (\<forall>v. v \<noteq> w \<longrightarrow> sy_workers t v = sy_workers s v)"

lemma mrsys_inv_steps:
  assumes "(mr_step A late)\<^sup>*\<^sup>* s t" "mrsys_inv A fls n fs0 s" "\<not> sy_stale t" "job_ok A fls n fs0"
  shows "mrsys_inv A fls n fs0 t"
  using assms(1,3)
proof (induction rule: rtranclp_induct)
  case (step t u)
  then have "\<not> sy_stale t" using stale_stays by blast
  then show ?case using step mrsys_inv_step_ok assms(4) by blast
qed (rule assms(2))

text \<open>One request of a process whose variable is unused.\<close>

lemma ask_fresh:
  assumes inv: "mrsys_inv A fls n fs0 s" and pc: "wk_pc (sy_workers s w) = WAsk" and z: "zero_var (wk_reply (sy_workers s w))" and st: "\<not> sy_stale s"
    and r: "RequestTask now (sy_coord s) = Inr (c', ans)"
  defines "t \<equiv> take_answer w c' ans s"
  shows "mr_step A True s t \<and> mrsys_inv A fls n fs0 t \<and> \<not> sy_stale t \<and> others_same w s t \<and> open_tasks c' = open_tasks (sy_coord s)
    \<and> (if tr_TaskType ans = ''wait'' then wk_pc (sy_workers t w) = WAsk else wk_pc (sy_workers t w) = WTask)
    \<and> wk_reply (sy_workers t w) = ans"
proof -
  have c: "coord_inv (sy_coord s)" "co_files (sy_coord s) = fls" "co_nReduce (sy_coord s) = int n" using inv by (auto simp: mrsys_inv_def work_ok_def)
  note e = RequestTask_effect [OF c r]
  then have ty: "tr_TaskType ans \<in> {''wait'', ''map'', ''reduce''}" by (auto simp: map_task_of_def reduce_task_of_def)
  then have g: "gob_into (wk_reply (sy_workers s w)) ans = ans" using gob_into_zero [OF z] by auto
  have same: "same_task ans ans" by (simp add: same_task_def)
  have "mr_step A True s t" unfolding t_def by (rule mr_step.ask [OF pc _ r]) simp
  moreover have "mrsys_inv A fls n fs0 t" unfolding t_def by (rule step_ask [OF inv r]) (simp add: g same)
  moreover have "open_tasks c' = open_tasks (sy_coord s)" using e by (intro open_tasks_same) auto
  ultimately show ?thesis using ty st g same by (auto simp: t_def others_same_def has_task_def)
qed

lemma get_task:
  assumes inv: "mrsys_inv A fls n fs0 s" and w: "sy_workers s w = new_worker" and st: "\<not> sy_stale s"
    and ne: "fls \<noteq> []" "0 < n" and open_: "\<not> Done (sy_coord s)"
  shows "\<exists>t c. (mr_step A True)\<^sup>*\<^sup>* s t \<and> mrsys_inv A fls n fs0 t \<and> \<not> sy_stale t \<and> others_same w s t \<and> open_tasks (sy_coord t) = open_tasks (sy_coord s)
    \<and> wk_pc (sy_workers t w) = WTask \<and> (\<exists>now. RequestTask now c = Inr (sy_coord t, wk_reply (sy_workers t w)))
    \<and> coord_inv c \<and> co_files c = fls \<and> co_nReduce c = int n \<and> tr_TaskType (wk_reply (sy_workers t w)) \<noteq> ''wait''"
proof -
  have c: "coord_inv (sy_coord s)" "co_files (sy_coord s) = fls" "co_nReduce (sy_coord s) = int n" using inv by (auto simp: mrsys_inv_def work_ok_def)
  from task_handed_out [OF c(1)] c(2,3) ne open_ obtain now c1 ans1 where r1: "RequestTask now (sy_coord s) = Inr (c1, ans1)"
    and r2: "tr_TaskType ans1 \<noteq> ''wait'' \<or> (\<exists>c2 ans2. RequestTask now c1 = Inr (c2, ans2) \<and> tr_TaskType ans2 \<noteq> ''wait'')" by auto
  let ?t = "take_answer w c1 ans1 s"
  have w': "wk_pc (sy_workers s w) = WAsk" "zero_var (wk_reply (sy_workers s w))" using w by (simp_all add: new_worker_def zero_var_def empty_reply_def)
  note t = ask_fresh [OF inv w' st r1]
  show ?thesis
  proof (cases "tr_TaskType ans1 = ''wait''")
    case False
    then show ?thesis using t c r1 by (intro exI [of _ ?t] exI [of _ "sy_coord s"]) (auto simp del: take_answer_simps(3,4))
  next
    case True
    then obtain c2 ans2 where r: "RequestTask now (sy_coord ?t) = Inr (c2, ans2)" "tr_TaskType ans2 \<noteq> ''wait''" using r2 by auto
    have "ans1 = empty_reply\<lparr>tr_TaskType := ''wait''\<rparr>"
      using r1 True c(1) RequestTask_map [OF c(1), of now] RequestTask_reduce [OF c(1), of now]
      by (cases "co_phase (sy_coord s)") (auto simp: map_reply_def reduce_reply_def RequestTask_def [of now "sy_coord s"] split: option.splits)
    then have "zero_var (wk_reply (sy_workers ?t w))" using t by (simp add: zero_var_def empty_reply_def)
    with True t have u: "mr_step A True ?t (take_answer w c2 ans2 ?t)" "mrsys_inv A fls n fs0 (take_answer w c2 ans2 ?t)" "\<not> sy_stale (take_answer w c2 ans2 ?t)"
      "others_same w ?t (take_answer w c2 ans2 ?t)" "open_tasks c2 = open_tasks (sy_coord ?t)"
      "wk_pc (sy_workers (take_answer w c2 ans2 ?t) w) = WTask" "wk_reply (sy_workers (take_answer w c2 ans2 ?t) w) = ans2"
      using ask_fresh [of A fls n fs0 ?t w now c2 ans2] r by (simp_all del: take_answer_simps(3,4))
    have "coord_inv (sy_coord ?t)" "co_files (sy_coord ?t) = fls" "co_nReduce (sy_coord ?t) = int n" using t by (auto simp: mrsys_inv_def work_ok_def)
    moreover have "(mr_step A True)\<^sup>*\<^sup>* s (take_answer w c2 ans2 ?t)" using t u(1) by (meson rtranclp.rtrancl_into_rtrancl r_into_rtranclp)
    moreover have "others_same w s (take_answer w c2 ans2 ?t)" using t u(4) by (simp add: others_same_def del: take_answer_simps(3))
    ultimately show ?thesis using t u r
      by (intro exI [of _ "take_answer w c2 ans2 ?t"] exI [of _ "sy_coord ?t"]) (auto simp del: take_answer_simps(3,4))
  qed
qed

text \<open>A process that was given a task executes and reports it, and one task fewer is open.\<close>

lemma open_tasks_report:
  "length (co_mapStatuses c) > m \<Longrightarrow> co_mapStatuses c ! m \<noteq> STATUS_COMPLETE \<Longrightarrow> co_mapStatuses c' = (co_mapStatuses c)[m := STATUS_COMPLETE]
    \<Longrightarrow> co_reduceStatuses c' = co_reduceStatuses c \<Longrightarrow> open_tasks c' < open_tasks c"
  "length (co_reduceStatuses c) > r \<Longrightarrow> co_reduceStatuses c ! r \<noteq> STATUS_COMPLETE \<Longrightarrow> co_reduceStatuses c' = (co_reduceStatuses c)[r := STATUS_COMPLETE]
    \<Longrightarrow> co_mapStatuses c' = co_mapStatuses c \<Longrightarrow> open_tasks c' < open_tasks c"
proof -
  have "n_complete ss < length ss" if "i < length ss" "ss ! i \<noteq> STATUS_COMPLETE" for i ss
    using that n_complete_all [of ss] n_complete_le [of ss] by (metis le_neq_implies_less nth_mem)
  then show "length (co_mapStatuses c) > m \<Longrightarrow> co_mapStatuses c ! m \<noteq> STATUS_COMPLETE \<Longrightarrow> co_mapStatuses c' = (co_mapStatuses c)[m := STATUS_COMPLETE]
    \<Longrightarrow> co_reduceStatuses c' = co_reduceStatuses c \<Longrightarrow> open_tasks c' < open_tasks c"
  "length (co_reduceStatuses c) > r \<Longrightarrow> co_reduceStatuses c ! r \<noteq> STATUS_COMPLETE \<Longrightarrow> co_reduceStatuses c' = (co_reduceStatuses c)[r := STATUS_COMPLETE]
    \<Longrightarrow> co_mapStatuses c' = co_mapStatuses c \<Longrightarrow> open_tasks c' < open_tasks c"
    by (fastforce simp: open_tasks_def n_complete_report)+
qed

lemma finish_map:
  assumes inv: "mrsys_inv A fls n fs0 s" and ok: "job_ok A fls n fs0" and pc: "wk_pc (sy_workers s w) = WTask"
    and m: "map_task_of fls n (wk_reply (sy_workers s w)) m" "co_mapStatuses (sy_coord s) ! m \<noteq> STATUS_COMPLETE"
  shows "\<exists>t. (mr_step A True)\<^sup>*\<^sup>* s t \<and> sy_stale t = sy_stale s \<and> others_same w s t \<and> open_tasks (sy_coord t) < open_tasks (sy_coord s)"
proof -
  let ?r = "wk_reply (sy_workers s w)"
  have c: "coord_inv (sy_coord s)" "co_files (sy_coord s) = fls" "\<And>f. f \<in> set fls \<Longrightarrow> sy_files s f = fs0 f" using inv by (auto simp: mrsys_inv_def work_ok_def)
  have t: "tr_TaskType ?r = ''map''" "m < length fls" "tr_MapTaskId ?r = int m" "tr_Filename ?r = fls ! m" "tr_NReduce ?r = int n" "0 < n"
    using m ok by (auto simp: map_task_of_def job_ok_def)
  then have "sy_files s (tr_Filename ?r) \<noteq> None" using c(3) [of "fls ! m"] ok by (auto simp: job_ok_def inputs_apart_def input_ok_def)
  then obtain content where "sy_files s (tr_Filename ?r) = Some content" by blast
  from doMap_result [where fs = "sy_files s", OF this t(5,6,3), of "jenc A" "mapf A"] t(1) obtain fs' where
    "doMap (jenc A) (mapf A) ?r (sy_files s) = Inr (fs', report_of ''map'' (int m))" by auto
  note st = doMap_steps [OF pc t(1) this, of True]
  have ml: "m < length (co_files (sy_coord s))" using t(2) c(2) by simp
  from report_map_inv [OF c(1) ml, of 0] obtain c' where r: "ReportTaskComplete (report_of ''map'' (int m)) (sy_coord s) = Inr c'" by (auto simp: report_of_def)
  note e = report_map_effect [OF c(1) ml r]
  let ?t = "set_pc w (WReport (report_of ''map'' (int m))) (s\<lparr>sy_files := fs'\<rparr>)"
  have "mr_step A True ?t (set_pc w WAsk (?t\<lparr>sy_coord := c'\<rparr>))" by (rule mr_step.report [where args = "report_of ''map'' (int m)"]) (simp_all add: r)
  moreover have "open_tasks c' < open_tasks (sy_coord s)" using e m(2) ml c(1) by (intro open_tasks_report(1) [of m]) (auto simp: coord_inv_def)
  ultimately show ?thesis using st
    by (intro exI [of _ "set_pc w WAsk (?t\<lparr>sy_coord := c'\<rparr>)"]) (auto simp: others_same_def)
qed

lemma finish_reduce:
  assumes inv: "mrsys_inv A fls n fs0 s" and pc: "wk_pc (sy_workers s w) = WTask" and mp: "mapped (sy_coord s)"
    and k: "reduce_task_of fls n (wk_reply (sy_workers s w)) k" "co_reduceStatuses (sy_coord s) ! k \<noteq> STATUS_COMPLETE"
  shows "\<exists>t. (mr_step A True)\<^sup>*\<^sup>* s t \<and> sy_stale t = sy_stale s \<and> others_same w s t \<and> open_tasks (sy_coord t) < open_tasks (sy_coord s)"
proof -
  let ?r = "wk_reply (sy_workers s w)"
  have c: "coord_inv (sy_coord s)" "co_nReduce (sy_coord s) = int n" using inv by (auto simp: mrsys_inv_def work_ok_def)
  have t: "tr_TaskType ?r = ''reduce''" "k < n" "tr_ReduceTaskId ?r = int k" "tr_NMap ?r = int (length fls)" using k by (auto simp: reduce_task_of_def)
  have kl: "int k < co_nReduce (sy_coord s)" and m: "all_complete (co_mapStatuses (sy_coord s))" "co_files (sy_coord s) \<noteq> []"
    using t(2) c(2) mp by (auto simp: mapped_def)
  from report_reduce_inv [OF c(1) kl m, of 0] obtain c' where
    r: "ReportTaskComplete (report_of ''reduce'' (int k)) (sy_coord s) = Inr c'" by (auto simp: report_of_def)
  note e = report_reduce_effect [OF c(1) kl m r]
  have "ReportTaskComplete (report_of ''reduce'' (tr_ReduceTaskId ?r)) (sy_coord s) = Inr c'" using r t(3) by simp
  note st = do_reduce_all [OF pc t(1,4) this, of A True]
  have less: "open_tasks c' < open_tasks (sy_coord s)" using e k(2) kl c by (intro open_tasks_report(2) [of k]) (auto simp: coord_inv_def)
  show ?thesis by (intro exI conjI, rule st) (simp_all add: others_same_def less)
qed

lemma others_same_trans: "others_same w s t \<Longrightarrow> others_same w t u \<Longrightarrow> others_same w s u"
  by (simp add: others_same_def)

text \<open>A new process completes a task.\<close>

lemma complete_one:
  assumes inv: "mrsys_inv A fls n fs0 s" and ok: "job_ok A fls n fs0" and w: "sy_workers s w = new_worker" and st: "\<not> sy_stale s"
    and ne: "fls \<noteq> []" and open_: "\<not> Done (sy_coord s)"
  shows "\<exists>t. (mr_step A True)\<^sup>*\<^sup>* s t \<and> \<not> sy_stale t \<and> others_same w s t \<and> open_tasks (sy_coord t) < open_tasks (sy_coord s)"
proof -
  have n: "0 < n" using ok by (simp add: job_ok_def)
  from get_task [OF inv w st ne n open_] obtain t c now where
    t: "(mr_step A True)\<^sup>*\<^sup>* s t" "mrsys_inv A fls n fs0 t" "\<not> sy_stale t" "others_same w s t" "open_tasks (sy_coord t) = open_tasks (sy_coord s)"
      "wk_pc (sy_workers t w) = WTask"
    and c: "RequestTask now c = Inr (sy_coord t, wk_reply (sy_workers t w))" "coord_inv c" "co_files c = fls" "co_nReduce c = int n"
      "tr_TaskType (wk_reply (sy_workers t w)) \<noteq> ''wait''" by blast
  note e = RequestTask_effect [OF c(2,3,4,1)]
  have "\<exists>u. (mr_step A True)\<^sup>*\<^sup>* t u \<and> sy_stale u = sy_stale t \<and> others_same w t u \<and> open_tasks (sy_coord u) < open_tasks (sy_coord t)"
  proof (cases "tr_TaskType (wk_reply (sy_workers t w)) = ''map''")
    case True
    then obtain m where m: "map_task_of fls n (wk_reply (sy_workers t w)) m" "co_mapStatuses c ! m \<noteq> STATUS_COMPLETE"
      using e c(5) by (auto simp: reduce_task_of_def)
    have "m < length (co_mapStatuses c)" using m(1) c(2,3) by (auto simp: map_task_of_def coord_inv_def)
    then have "co_mapStatuses (sy_coord t) ! m \<noteq> STATUS_COMPLETE" using e m(2) by (auto simp: same_work_def)
    then show ?thesis by (rule finish_map [OF t(2) ok t(6) m(1)])
  next
    case False
    then obtain k where k: "reduce_task_of fls n (wk_reply (sy_workers t w)) k" "co_reduceStatuses c ! k \<noteq> STATUS_COMPLETE" "all_complete (co_mapStatuses c)"
      using e c(5) by (auto simp: map_task_of_def)
    have "k < length (co_reduceStatuses c)" using k(1) c(2,4) by (auto simp: reduce_task_of_def coord_inv_def)
    then have "co_reduceStatuses (sy_coord t) ! k \<noteq> STATUS_COMPLETE" using e k(2) by (auto simp: same_work_def)
    moreover have "mapped (sy_coord t)" using e k(3) ne same_work_all_complete by (auto simp: mapped_def)
    ultimately show ?thesis using finish_reduce [OF t(2,6) _ k(1)] by blast
  qed
  then obtain u where "(mr_step A True)\<^sup>*\<^sup>* t u" "\<not> sy_stale u" "others_same w t u" "open_tasks (sy_coord u) < open_tasks (sy_coord t)" using t(3) by blast
  then show ?thesis using t(1,4,5) by (metis rtranclp_trans others_same_trans)
qed

lemma one_worker_moves: "mr_step A late s t \<Longrightarrow> \<exists>w. others_same w s t"
proof -
  have "others_same w s (take_answer w c ans s)" "others_same w s (set_pc w pc s)" "others_same w s (set_pc w pc (s\<lparr>sy_files := fs\<rparr>))"
    "others_same w s (set_pc w pc (s\<lparr>sy_coord := c\<rparr>))" for w c ans pc fs by (simp_all add: others_same_def)
  note moves = this
  show "mr_step A late s t \<Longrightarrow> \<exists>w. others_same w s t" by (erule mr_step.cases; use moves in blast)
qed

lemma finite_workers:
  "reach (mr_start fls n fs) (mr_step A late) s \<Longrightarrow> finite {w. sy_workers s w \<noteq> new_worker}"
proof (induction rule: reach.induct)
  case (reach_step s t)
  from one_worker_moves [OF reach_step(2)] obtain w where "others_same w s t" by blast
  then have "{w. sy_workers t w \<noteq> new_worker} \<subseteq> insert w {w. sy_workers s w \<noteq> new_worker}" by (auto simp: others_same_def)
  then show ?case using reach_step.IH by (meson finite.insertI finite_subset)
qed (simp add: mr_start_def)

lemma finish_all:
  assumes "mrsys_inv A fls n fs0 s" "job_ok A fls n fs0" "\<not> sy_stale s" "fls \<noteq> []" "finite {w. sy_workers s w \<noteq> new_worker}"
  shows "\<exists>t. (mr_step A True)\<^sup>*\<^sup>* s t \<and> \<not> sy_stale t \<and> Done (sy_coord t)"
  using assms
proof (induction "open_tasks (sy_coord s)" arbitrary: s rule: less_induct)
  case less
  show ?case
  proof (cases "Done (sy_coord s)")
    case False
    obtain w where w: "sy_workers s w = new_worker" using less.prems(5) ex_new_if_finite [OF infinite_UNIV_nat] by blast
    from complete_one [OF less.prems(1,2) w less.prems(3,4) False] obtain t where
      t: "(mr_step A True)\<^sup>*\<^sup>* s t" "\<not> sy_stale t" "others_same w s t" "open_tasks (sy_coord t) < open_tasks (sy_coord s)" by blast
    have "{v. sy_workers t v \<noteq> new_worker} \<subseteq> insert w {v. sy_workers s v \<noteq> new_worker}" using t(3) by (auto simp: others_same_def)
    then have "finite {v. sy_workers t v \<noteq> new_worker}" using less.prems(5) by (meson finite.insertI finite_subset)
    from less.hyps [OF t(4) mrsys_inv_steps [OF t(1) less.prems(1) t(2) less.prems(2)] less.prems(2) t(2) less.prems(4) this] t(1)
    show ?thesis by (meson rtranclp_trans)
  qed (use less.prems(3) in blast)
qed

text \<open>C30: a job is never stuck. From every state of a job in which no answer was decoded so far into a variable that kept the
  number of another task, whatever its workers were doing when they stopped or stalled, new worker processes can take the job to
  its end, with the right output in every output file. The condition holds as long as no request finds a task that is out for
  more than ten seconds; without it the output can be wrong, as shown above.\<close>

theorem job_can_finish:
  assumes run: "reach (mr_start fls n fs) (mr_step A True) s" and fresh: "\<not> sy_stale s" and ok: "job_ok A fls n fs" and ne: "fls \<noteq> []"
  shows "\<exists>t. (mr_step A True)\<^sup>*\<^sup>* s t \<and> Done (sy_coord t) \<and> (\<forall>r < n. sy_files t (out_name r) = Some (good_out A fls n fs r))"
proof -
  have inv: "mrsys_inv A fls n fs s" using fresh_inv [OF run _ ok] fresh by blast
  from finish_all [OF inv ok fresh ne finite_workers [OF run]] obtain t where
    t: "(mr_step A True)\<^sup>*\<^sup>* s t" "\<not> sy_stale t" "Done (sy_coord t)" by blast
  from mrsys_inv_steps [OF t(1) inv t(2) ok] done_outputs t(1,3) show ?thesis by blast
qed

theorem job_can_finish_witness:
  "\<exists>t. reach (mr_start [''f'', ''g''] 1 [''f'' \<mapsto> ''a'', ''g'' \<mapsto> ''b'']) (mr_step wc_app True) t \<and> Done (sy_coord t)
    \<and> (\<forall>r < 1. sy_files t (out_name r) = Some (good_out wc_app [''f'', ''g''] 1 [''f'' \<mapsto> ''a'', ''g'' \<mapsto> ''b''] r))"
proof -
  let ?I = "mr_start [''f'', ''g''] 1 [''f'' \<mapsto> ''a'', ''g'' \<mapsto> ''b'']"
  obtain s where s: "?I s" "\<not> sy_stale s" by (simp add: mr_start_def)
  have r: "reach ?I (mr_step wc_app True) s" by (rule reach_init) (rule s)
  from job_can_finish [OF r s(2) wc_demo_ok] reach_steps [OF r] show ?thesis by auto
qed

section \<open>The output of a job\<close>

text \<open>C7: the whole MapReduce system computes what the sequential program computes. The coordinator, any number of worker
  processes that stop at any point, run at any speed and execute tasks again, and the files they rename into place one by one:
  once \<open>Done\<close> answers true, the output files together hold exactly the lines of \<open>mr-out-0\<close> of
  \<open>mrsequential\<close>, each as often. This needs that no answer of the coordinator was decoded into a variable
  that kept the number of another task, which is shown to be the case when no request finds a task that is out for more than ten
  seconds (\<open>late\<close> is false); a run without it can end with a wrong output, as shown above.\<close>

theorem job_equals_sequential:
  assumes run: "reach (mr_start fls n fs) (mr_step A late) s" and fin: "Done (sy_coord s)" and fresh: "\<not> late \<or> \<not> sy_stale s"
    and ok: "job_ok A fls n fs" and s: "sorts_by_key (srt A)" and f: "order_insensitive (reducef A)"
  shows "\<exists>seq L. mrsequential (srt A) (mapf A) (reducef A) fls fs = Inr (fs(''mr-out-0'' \<mapsto> concat (map format_line seq)))
    \<and> (\<forall>r < n. sy_files s (out_name r) = Some (concat (map format_line (L r))))
    \<and> mset (concat (map L [0..<n])) = mset seq"
proof -
  have inv: "mrsys_inv A fls n fs s" using fresh_inv [OF run fresh ok] by simp
  have inp: "input_ok fs fls" and n: "0 < n" using ok by (auto simp: job_ok_def inputs_apart_def)
  show ?thesis
    by (intro exI conjI allI impI, (simp add: mrsequential_def read_all_result [OF inp]; fail),
        rule done_outputs [OF inv fin, unfolded good_out_def], assumption, rule partitioned_lines [OF s f n])
qed

lemma job_finishes:
  assumes "job_ok A fls n fs" "fls \<noteq> []"
  shows "\<exists>s. reach (mr_start fls n fs) (mr_step A True) s \<and> Done (sy_coord s) \<and> \<not> sy_stale s"
proof -
  obtain s where s: "mr_start fls n fs s" "\<not> sy_stale s" by (simp add: mr_start_def)
  have r: "reach (mr_start fls n fs) (mr_step A True) s" by (rule reach_init) (rule s)
  from finish_all [OF mrsys_inv_start [OF s(1)] assms(1) s(2) assms(2) finite_workers [OF r]] reach_steps [OF r] show ?thesis by auto
qed

theorem job_equals_sequential_witness:
  "\<exists>(s :: mrsys) seq L. mrsequential (srt wc_app) wc_Map wc_Reduce [''f'', ''g''] [''f'' \<mapsto> ''a'', ''g'' \<mapsto> ''b'']
        = Inr ([''f'' \<mapsto> ''a'', ''g'' \<mapsto> ''b''](''mr-out-0'' \<mapsto> concat (map format_line seq)))
    \<and> Done (sy_coord s) \<and> (\<forall>r < 1. sy_files s (out_name r) = Some (concat (map format_line (L r))))
    \<and> mset (concat (map L [0..<1])) = mset seq"
proof -
  from job_finishes [OF wc_demo_ok] obtain s where s: "reach (mr_start [''f'', ''g''] 1 [''f'' \<mapsto> ''a'', ''g'' \<mapsto> ''b'']) (mr_step wc_app True) s"
    "Done (sy_coord s)" "\<not> sy_stale s" by auto
  have a: "sorts_by_key (srt wc_app)" "order_insensitive (reducef wc_app)" "mapf wc_app = wc_Map" "reducef wc_app = wc_Reduce"
    using sort_key_sorts wc_insensitive by (simp_all add: wc_app_def)
  have "\<not> True \<or> \<not> sy_stale s" using s(3) by simp
  from job_equals_sequential [OF s(1,2) this wc_demo_ok a(1,2), unfolded a(3,4)] s(2) show ?thesis
    by (elim exE conjE) (rule exI [of _ s], intro exI conjI, assumption+)
qed

end
