(* ===== verification/Random_Names.thy ===== *)
theory Random_Names
  imports Prelude
begin

text \<open>
  Random names, as the tester (\<open>src/src/tester1/config.go\<close>) and the tests of MapReduce (\<open>src/src/mr/util.go\<close>) draw them.
\<close>

text \<open>\<open>Randstring\<close>: the first \<open>n\<close> letters of the URL-safe base64 encoding of \<open>2 * n\<close> random bytes.\<close>

definition b64 :: "nat \<Rightarrow> char" where
  "b64 k = ''ABCDEFGHIJKLMNOPQRSTUVWXYZabcdefghijklmnopqrstuvwxyz0123456789-_'' ! (k mod 64)"

fun base64url :: "8 word list \<Rightarrow> string" where
  "base64url [] = ''''"
| "base64url [a] = (let v = unat a * 65536 in [b64 (v div 262144), b64 (v div 4096), CHR ''='', CHR ''=''])"
| "base64url [a, b] = (let v = unat a * 65536 + unat b * 256 in [b64 (v div 262144), b64 (v div 4096), b64 (v div 64), CHR ''=''])"
| "base64url (a # b # c # r) = (let v = unat a * 65536 + unat b * 256 + unat c in
     [b64 (v div 262144), b64 (v div 4096), b64 (v div 64), b64 v] @ base64url r)"

definition Randstring :: "8 word list \<Rightarrow> nat \<Rightarrow> string res" where
  "Randstring b n = slice_range (base64url b) 0 (int n)"

lemma base64url_length: "length (base64url b) = 4 * ((length b + 2) div 3)"
proof (induction b rule: base64url.induct)
  case (4 a b c r)
  have "(length r + 5) div 3 = (length r + 2) div 3 + 1" by linarith
  then show ?case using 4 by (simp add: Let_def algebra_simps)
qed (simp_all add: Let_def)

lemma b64_in: "b64 k \<in> set ''ABCDEFGHIJKLMNOPQRSTUVWXYZabcdefghijklmnopqrstuvwxyz0123456789-_''"
  unfolding b64_def by (rule nth_mem) simp

lemma b64_letter: "b64 k \<noteq> CHR ''=''"
  using b64_in [of k] by auto

lemma base64url_block: "\<exists>p. base64url (a # b # c # r) = p @ base64url r \<and> length p = 4"
  by (simp add: Let_def)

lemma base64url_no_pad: "i + 2 < length (base64url b) \<Longrightarrow> base64url b ! i \<noteq> CHR ''=''"
proof (induction b arbitrary: i rule: base64url.induct)
  case (4 a b c r)
  show ?case
  proof (cases "i < 4")
    case True
    then have "i = 0 \<or> i = 1 \<or> i = 2 \<or> i = 3" by linarith
    then show ?thesis using b64_letter by (auto simp: Let_def)
  next
    case False
    then have "i - 4 + 2 < length (base64url r)" using "4.prems" by (simp add: Let_def)
    then have "base64url r ! (i - 4) \<noteq> CHR ''=''" using "4.IH" by simp
    moreover obtain p where "base64url (a # b # c # r) = p @ base64url r" "length p = 4" using base64url_block by blast
    ultimately show ?thesis using False by (simp add: nth_append)
  qed
next
  case (2 a)
  then have "i = 0 \<or> i = 1" by (auto simp: Let_def)
  then show ?case using b64_letter by (auto simp: Let_def)
next
  case (3 a b)
  then have "i = 0 \<or> i = 1" by (auto simp: Let_def)
  then show ?case using b64_letter by (auto simp: Let_def)
qed simp

text \<open>A random name has the length asked for, and no padding.\<close>

lemma Randstring_result:
  assumes "length b = 2 * n"
  shows "\<exists>r. Randstring b n = Inr r \<and> length r = n \<and> CHR ''='' \<notin> set r"
proof -
  have l: "n + 2 \<le> length (base64url b) \<or> n = 0" using assms by (cases n) (auto simp: base64url_length)
  then have "n \<le> length (base64url b)" by linarith
  then have "Randstring b n = Inr (take n (base64url b))" "length (take n (base64url b)) = n" by (simp_all add: Randstring_def slice_range_def)
  moreover have "take n (base64url b) ! i \<noteq> CHR ''=''" if "i < n" for i using base64url_no_pad [of i b] l that by auto
  ultimately show ?thesis by (metis in_set_conv_nth)
qed

text \<open>Every character of an encoding is a letter, a digit, a dash, an underscore or padding.\<close>

lemma base64url_chars: "c \<in> set (base64url b) \<Longrightarrow> c = CHR ''='' \<or> (\<exists>k. c = b64 k)"
  by (induction b rule: base64url.induct) (auto simp: Let_def)

lemma Randstring_chars: "Randstring b n = Inr r \<Longrightarrow> c \<in> set r \<Longrightarrow> c = CHR ''='' \<or> (\<exists>k. c = b64 k)"
  using base64url_chars by (auto simp: Randstring_def slice_range_def split: if_splits dest: in_set_takeD)

end
