(* ===== verification/Mr_Tests.thy ===== *)
theory Mr_Tests
  imports Mr_Progress Random_Names
begin

text \<open>
  The main programs of MapReduce (\<open>src/src/main/mrcoordinator.go\<close>, \<open>mrworker.go\<close>, \<open>mrsequential.go\<close>) and the helpers of its tests
  (\<open>src/src/mr/util.go\<close>): finding the output files, merging and comparing them. \<open>find\<close>, \<open>sort\<close> and \<open>cmp\<close> are programs of the
  system and parameters here; so is the loading of plugins. Paths are as the workers see them, from within the
  directory \<open>tmp\<close> of the test; an exit with status 1 is a \<open>LogFatal\<close>. Files can be created.
\<close>

section \<open>Names of a test\<close>

text \<open>\<open>b\<close> are the bytes \<open>crand.Read\<close> gave: 40 for the socket, 16 for the directory.\<close>

definition RandString :: "8 word list \<Rightarrow> nat \<Rightarrow> string res" where
  "RandString b n = slice_range (base64url b) 0 (int n)"

definition coordinatorSock :: "8 word list \<Rightarrow> string res" where
  "coordinatorSock b = rbind (RandString b 20) (\<lambda>r. Inr (''/tmp/5840-mr-'' @ r))"

definition mkOut :: "8 word list \<Rightarrow> string res" where
  "mkOut b = rbind (RandString b 8) (\<lambda>r. Inr (''mr-tmp-'' @ r))"

section \<open>Finding files\<close>

text \<open>\<open>out\<close> is what \<open>find\<close> printed, or \<open>None\<close> when it failed.\<close>

definition findFiles :: "string option \<Rightarrow> string list res" where
  "findFiles out =
     (case out of
        None \<Rightarrow> Inl (LogFatal ''find failed'')
      | Some b \<Rightarrow> let s1 = TrimSpace b in if s1 = '''' then Inr [] else Inr (split_on nl s1))"

definition findFilesPre :: "string option \<Rightarrow> string list res" where
  "findFilesPre out = rbind (findFiles out) (\<lambda>files. Inr (map (\<lambda>f. filepath_Join [''..'', f]) files))"

definition listing :: "string list \<Rightarrow> string" where
  "listing ps = concat (map (\<lambda>p. p @ [nl]) ps)"

definition plain :: "string \<Rightarrow> bool" where
  "plain p \<longleftrightarrow> p \<noteq> '''' \<and> list_all (\<lambda>c. \<not> is_space c) p"

lemma listing_Join: "ps \<noteq> [] \<Longrightarrow> listing ps = strings_Join ps [nl] @ [nl]"
  by (induction ps "[nl]" rule: strings_Join.induct) (auto simp: listing_def)

lemma plain_no_nl: "plain p \<Longrightarrow> nl \<notin> set p"
  using nl_space by (auto simp: plain_def list_all_iff)

lemma Join_ends: "ps \<noteq> [] \<Longrightarrow> list_all plain ps \<Longrightarrow> strings_Join ps [c] \<noteq> [] \<and> \<not> is_space (hd (strings_Join ps [c])) \<and> \<not> is_space (last (strings_Join ps [c]))"
  by (induction ps "[c]" rule: strings_Join.induct) (auto simp: plain_def list_all_iff hd_append last_append split: if_splits)

text \<open>\<open>findFiles\<close> gives back the names that were listed, one to a line.\<close>

lemma findFiles_listing:
  assumes "list_all plain ps"
  shows "findFiles (Some (listing ps)) = Inr ps"
proof (cases "ps = []")
  case True
  then show ?thesis by (simp add: findFiles_def listing_def TrimSpace_def)
next
  case False
  from Join_ends [OF False assms, of nl] have "TrimSpace (listing ps) = strings_Join ps [nl]"
    unfolding listing_Join [OF False] by (intro TrimSpace_ends) (auto simp: nl_space)
  moreover have "split_on nl (strings_Join ps [nl]) = ps"
    using False assms plain_no_nl by (intro split_on_Join) (auto simp: list_all_iff)
  ultimately show ?thesis using Join_ends [OF False assms, of nl] by (simp add: findFiles_def Let_def)
qed

text \<open>A path from the parent directory: the test's paths as the workers need them.\<close>

theorem findFilesPre_up:
  assumes "f \<noteq> ''''" "hd f \<noteq> CHR ''/''" "Clean f \<noteq> ''.''"
  shows "filepath_Join [''..'', f] = ''../'' @ Clean f"
proof -
  let ?cs = "clean_comps False [] (split_on (CHR ''/'') f)"
  have ne: "?cs \<noteq> []" using assms by (auto simp: Clean_def Let_def split: if_splits)
  have c: "Clean f = strings_Join ?cs ''/''" using assms(1,2) ne by (simp add: Clean_def)
  have "split_on (CHR ''/'') (''../'' @ f) = ''..'' # split_on (CHR ''/'') f" using split_on_word [of "CHR ''/''" "''..''" f] by simp
  then have "clean_comps False [] (split_on (CHR ''/'') (''../'' @ f)) = ''..'' # ?cs" using clean_comps_up [of "[]"] by simp
  then show ?thesis using Join_Cons [OF ne] by (simp add: filepath_Join_def Clean_def [of "''../'' @ f", simplified] c)
qed

theorem findFilesPre_up_witness: "filepath_Join [''..'', ''../main/pg-grimm.txt''] = ''../../main/pg-grimm.txt''"
  using findFilesPre_up [of "''../main/pg-grimm.txt''"] by (simp add: Clean_def)

text \<open>The directory of a test has a name that \<open>findFiles\<close> can handle.\<close>

lemma b64_not_space: "\<not> is_space (b64 k)"
proof -
  have "list_all (\<lambda>c. \<not> is_space c) ''ABCDEFGHIJKLMNOPQRSTUVWXYZabcdefghijklmnopqrstuvwxyz0123456789-_''" by (simp add: is_space_def)
  then show ?thesis using b64_in [of k] unfolding list_all_iff by blast
qed

lemma mkOut_plain:
  assumes "length b = 16"
  shows "\<exists>tmp. mkOut b = Inr tmp \<and> length tmp = 15 \<and> plain tmp"
proof -
  obtain r where r: "Randstring b 8 = Inr r" "length r = 8" using Randstring_result [of b 8] assms by auto
  have eq: "\<not> is_space (CHR ''='')" by (simp add: is_space_def)
  have "\<not> is_space c" if "c \<in> set r" for c using Randstring_chars [OF r(1) that] b64_not_space eq by auto
  moreover have "list_all (\<lambda>c. \<not> is_space c) ''mr-tmp-''" by (simp add: is_space_def)
  ultimately have "plain (''mr-tmp-'' @ r)" unfolding plain_def list_all_append by (simp add: list_all_iff)
  moreover have "mkOut b = Inr (''mr-tmp-'' @ r)" using r(1) by (simp add: mkOut_def RandString_def Randstring_def)
  ultimately show ?thesis using r(2) by auto
qed

section \<open>The main programs\<close>

text \<open>\<open>loadPlugin\<close>: \<open>opn\<close> gives the symbols \<open>Map\<close> and \<open>Reduce\<close> of a plugin that can be opened.\<close>

definition loadPlugin :: "(string \<Rightarrow> ((string \<Rightarrow> string \<Rightarrow> KeyValue list) option \<times> (string \<Rightarrow> string list \<Rightarrow> string) option) option) \<Rightarrow> string
    \<Rightarrow> ((string \<Rightarrow> string \<Rightarrow> KeyValue list) \<times> (string \<Rightarrow> string list \<Rightarrow> string)) res" where
  "loadPlugin opn filename =
     (case opn filename of
        None \<Rightarrow> Inl (LogFatal ''cannot load plugin'')
      | Some (xmapf, xreducef) \<Rightarrow>
          (case xmapf of
             None \<Rightarrow> Inl (LogFatal ''cannot find Map'')
           | Some mf \<Rightarrow>
               (case xreducef of
                  None \<Rightarrow> Inl (LogFatal ''cannot find Reduce'')
                | Some rf \<Rightarrow> Inr (mf, rf))))"

text \<open>\<open>args\<close> is \<open>os.Args\<close>, with the program's name first.\<close>

definition mrcoordinator_main :: "string list \<Rightarrow> (string \<times> Coordinator) res" where
  "mrcoordinator_main args =
     (if length args < 3 then Inl (LogFatal ''Usage: mrcoordinator sockname inputfiles...'')
      else Inr (args ! 1, MakeCoordinator (drop 2 args) 10))"

definition mrworker_main :: "(string \<Rightarrow> ((string \<Rightarrow> string \<Rightarrow> KeyValue list) option \<times> (string \<Rightarrow> string list \<Rightarrow> string) option) option) \<Rightarrow> string list
    \<Rightarrow> (string \<times> (string \<Rightarrow> string \<Rightarrow> KeyValue list) \<times> (string \<Rightarrow> string list \<Rightarrow> string)) res" where
  "mrworker_main opn args =
     (if length args \<noteq> 3 then Inl (LogFatal ''Usage: mrworker xxx.so sockname'')
      else rbind (loadPlugin opn (args ! 1)) (\<lambda>(mf, rf). Inr (args ! 2, mf, rf)))"

definition mrsequential_main :: "(string \<Rightarrow> ((string \<Rightarrow> string \<Rightarrow> KeyValue list) option \<times> (string \<Rightarrow> string list \<Rightarrow> string) option) option)
    \<Rightarrow> (KeyValue list \<Rightarrow> KeyValue list) \<Rightarrow> string list \<Rightarrow> files \<Rightarrow> files res" where
  "mrsequential_main opn sr args fs =
     (if length args < 3 then Inl (LogFatal ''Usage: mrsequential xxx.so inputfiles...'')
      else rbind (loadPlugin opn (args ! 1)) (\<lambda>(mf, rf). mrsequential sr mf rf (drop 2 args) fs))"

text \<open>\<open>call\<close>: whether the coordinator's socket could be dialled, and whether the RPC returned without an error.\<close>

definition mr_call :: "bool \<Rightarrow> bool \<Rightarrow> bool res" where
  "mr_call dialled no_error = (if dialled then Inr no_error else Inl (LogFatal ''dialing:''))"

definition CallExample :: "bool \<Rightarrow> bool \<Rightarrow> string res" where
  "CallExample dialled no_error =
     rbind (mr_call dialled no_error) (\<lambda>ok. Inr (if ok then ''reply.Y '' @ itoa (nat (Example 99)) else ''call failed!''))"

section \<open>Merging and comparing outputs\<close>

text \<open>\<open>sortc\<close> is the program \<open>sort\<close>, from the contents of its files (\<open>None\<close> for a file it cannot open) to what it prints;
  \<open>opn\<close> and \<open>sr\<close> are for \<open>mrsequential\<close>.\<close>

definition mkCorrectOutput :: "(string option list \<Rightarrow> string option)
    \<Rightarrow> (string \<Rightarrow> ((string \<Rightarrow> string \<Rightarrow> KeyValue list) option \<times> (string \<Rightarrow> string list \<Rightarrow> string) option) option) \<Rightarrow> (KeyValue list \<Rightarrow> KeyValue list)
    \<Rightarrow> string list \<Rightarrow> string \<Rightarrow> string \<Rightarrow> files \<Rightarrow> files res" where
  "mkCorrectOutput sortc opn sr fls app out fs =
     (case mrsequential_main opn sr (''mrsequential'' # app # fls) fs of
        Inl _ \<Rightarrow> Inl (LogFatal ''mrsequential failed'')
      | Inr fs1 \<Rightarrow>
          let fs2 = fs1(out \<mapsto> '''') in
          case sortc [fs2 ''mr-out-0''] of
            None \<Rightarrow> Inl (LogFatal ''sort failed'')
          | Some s \<Rightarrow>
              let fs3 = fs2(out \<mapsto> s) in
              if fs3 ''mr-out-0'' = None then Inl (LogFatal ''Remove failed'') else Inr (fs3(''mr-out-0'' := None)))"

text \<open>A path that \<open>find\<close> printed, from within the directory of the test.\<close>

definition within :: "string \<Rightarrow> string \<Rightarrow> string" where
  "within tmp p = (if take (length tmp + 1) p = tmp @ ''/'' then drop (length tmp + 1) p else ''../'' @ p)"

definition mergeOutput :: "(string option list \<Rightarrow> string option) \<Rightarrow> (files \<Rightarrow> string \<Rightarrow> string \<Rightarrow> string option) \<Rightarrow> string \<Rightarrow> string \<Rightarrow> files \<Rightarrow> files res" where
  "mergeOutput sortc fnd tmp out fs =
     rbind (findFiles (fnd fs tmp ''mr-out-[0-9]'')) (\<lambda>files.
     if length files < 1 then Inl (LogFatal ''reduce created no mr-out-X output files!'')
     else let fs1 = fs(out \<mapsto> '''') in
          case sortc (map (\<lambda>p. fs1 (within tmp p)) files) of
            None \<Rightarrow> Inl (LogFatal ''sort failed'')
          | Some s \<Rightarrow> Inr (fs1(out \<mapsto> s)))"

text \<open>\<open>runCmp\<close> fails the test when \<open>cmp\<close> says that the files differ.\<close>

definition runCmp :: "(string option \<Rightarrow> string option \<Rightarrow> bool) \<Rightarrow> string \<Rightarrow> string \<Rightarrow> files \<Rightarrow> bool" where
  "runCmp cmpc f1 f2 fs = cmpc (fs f1) (fs f2)"

text \<open>\<open>matches\<close> counts what \<open>regexp\<close> finds of a pattern in a text, or is \<open>None\<close> when the pattern does not compile.\<close>

definition countPatternFile :: "(string \<Rightarrow> string \<Rightarrow> nat option) \<Rightarrow> files \<Rightarrow> string \<Rightarrow> string \<Rightarrow> nat res" where
  "countPatternFile matches fs f p =
     (case fs f of
        None \<Rightarrow> Inl (LogFatal ''Open failed'')
      | Some data \<Rightarrow> (case matches p data of None \<Rightarrow> Inl (LogFatal ''Compile failed'') | Some k \<Rightarrow> Inr k))"

fun countPattern :: "(string \<Rightarrow> string \<Rightarrow> nat option) \<Rightarrow> files \<Rightarrow> string list \<Rightarrow> string \<Rightarrow> nat res" where
  "countPattern matches fs [] p = Inr 0"
| "countPattern matches fs (f # fls) p =
     rbind (countPatternFile matches fs f p) (\<lambda>k. rbind (countPattern matches fs fls p) (\<lambda>n. Inr (k + n)))"

text \<open>\<open>cleanup\<close> removes what \<open>find\<close> lists.\<close>

fun remove_files :: "string \<Rightarrow> string list \<Rightarrow> files \<Rightarrow> files" where
  "remove_files tmp [] fs = fs"
| "remove_files tmp (f # fls) fs = remove_files tmp fls (fs(within tmp f := None))"

definition mr_cleanup :: "(files \<Rightarrow> string \<Rightarrow> string \<Rightarrow> string option) \<Rightarrow> string \<Rightarrow> files \<Rightarrow> files res" where
  "mr_cleanup fnd tmp fs = rbind (findFiles (fnd fs tmp ''mr-*'')) (\<lambda>files. Inr (remove_files tmp files fs))"

section \<open>Lines\<close>

fun plines :: "string \<Rightarrow> string list" where
  "plines [] = []"
| "plines (x # xs) = (if x = nl then [] # plines xs else (case plines xs of [] \<Rightarrow> [[x]] | y # ys \<Rightarrow> (x # y) # ys))"

definition ended :: "string \<Rightarrow> bool" where
  "ended s \<longleftrightarrow> s = [] \<or> last s = nl"

lemma plines_nonempty: "s \<noteq> [] \<Longrightarrow> plines s \<noteq> []"
  by (cases s) (auto split: list.splits)

lemma plines_append: "ended a \<Longrightarrow> plines (a @ b) = plines a @ plines b"
proof (induction a)
  case (Cons x a)
  show ?case
  proof (cases "a = []")
    case True
    then show ?thesis using Cons.prems by (simp add: ended_def)
  next
    case False
    then have "plines (a @ b) = plines a @ plines b" using Cons by (simp add: ended_def)
    then show ?thesis using plines_nonempty [OF False] by (auto split: list.splits)
  qed
qed simp

lemma format_line_ended: "ended (format_line p)"
  by (simp add: ended_def format_line_def)

lemma ended_lines: "ended (concat (map format_line ls))"
proof (induction ls rule: rev_induct)
  case (snoc l ls)
  have "format_line l \<noteq> []" by (simp add: format_line_def)
  then show ?case using format_line_ended [of l] by (simp add: ended_def last_append)
qed (simp add: ended_def)

lemma plines_lines: "plines (concat (map format_line ls)) = concat (map (plines \<circ> format_line) ls)"
  by (induction ls) (simp_all add: plines_append format_line_ended)

lemma mset_concat_map: "mset (concat (map f xs)) = (\<Sum>x \<in># mset xs. mset (f x))"
  by (induction xs) auto

text \<open>What is assumed of the programs: \<open>sort\<close> prints the same for the same lines, in whatever files and order they stand; \<open>find\<close> lists
  the files with a name of \<open>mr-out-\<close> and one digit; \<open>cmp\<close> accepts equal files.\<close>

definition sort_ok :: "(string option list \<Rightarrow> string option) \<Rightarrow> bool" where
  "sort_ok sortc \<longleftrightarrow> (\<forall>xs. xs \<noteq> [] \<longrightarrow> sortc (map Some xs) \<noteq> None)
     \<and> (\<forall>xs ys. xs \<noteq> [] \<and> ys \<noteq> [] \<and> list_all ended (xs @ ys) \<and> mset (concat (map plines xs)) = mset (concat (map plines ys))
          \<longrightarrow> sortc (map Some xs) = sortc (map Some ys))"

lemma sort_some: "sort_ok sortc \<Longrightarrow> xs \<noteq> [] \<Longrightarrow> sortc (map Some xs) \<noteq> None"
  by (simp add: sort_ok_def)

lemma sort_same:
  "sort_ok sortc \<Longrightarrow> xs \<noteq> [] \<Longrightarrow> ys \<noteq> [] \<Longrightarrow> list_all ended xs \<Longrightarrow> list_all ended ys
    \<Longrightarrow> mset (concat (map plines xs)) = mset (concat (map plines ys)) \<Longrightarrow> sortc (map Some xs) = sortc (map Some ys)"
  unfolding sort_ok_def by (metis list_all_append)

definition find_ok :: "(files \<Rightarrow> string \<Rightarrow> string \<Rightarrow> string option) \<Rightarrow> string \<Rightarrow> bool" where
  "find_ok fnd tmp \<longleftrightarrow> (\<forall>fs. \<exists>ds. fnd fs tmp ''mr-out-[0-9]'' = Some (listing (map (\<lambda>d. tmp @ ''/'' @ out_name d) ds))
     \<and> distinct ds \<and> set ds = {d. d < 10 \<and> fs (out_name d) \<noteq> None})"

section \<open>The test of a whole job\<close>

text \<open>A job writes only its own files.\<close>

lemma job_keeps_files:
  assumes "reach (mr_start fls n fs0) (mr_step A late) s" "\<not> late \<or> \<not> sy_stale s" "job_ok A fls n fs0"
    and p: "\<forall>m i. p \<noteq> inter_name m i" "\<forall>r < n. p \<noteq> out_name r"
  shows "sy_files s p = fs0 p"
  using assms(1,2)
proof (induction rule: reach.induct)
  case (reach_init s)
  then show ?case by (simp add: mr_start_def)
next
  case (reach_step s t)
  have fresh: "\<not> late \<or> \<not> sy_stale s" using reach_step.prems stale_stays [OF reach_step.hyps(2)] by blast
  have inv: "mrsys_inv A fls n fs0 s" using fresh_inv [OF reach_step.hyps(1) fresh assms(3)] by blast
  have "sy_files t p = sy_files s p" using reach_step.hyps(2)
  proof (cases rule: mr_step.cases)
    case (reduce_end w out reply)
    have "worker_ok A fls n fs0 (mapped (sy_coord s)) (sy_files s) (sy_workers s w)" using inv by (simp add: mrsys_inv_def)
    then obtain r where "reduce_task_of fls n reply r" using reduce_end(2,3) by (auto simp: worker_ok_def)
    then have "nat (tr_ReduceTaskId reply) < n" by (auto simp: reduce_task_of_def)
    then show ?thesis using reduce_end(1) p(2) by simp
  qed (use p(1) in simp_all)
  then show ?case using reach_step.IH [OF fresh] by simp
qed

lemma digit_not_space: "d < 10 \<Longrightarrow> \<not> is_space (digit d)"
  using of_char_digit [of d] by (simp add: is_space_def Let_def)

lemma out_name_plain: "plain (out_name d)"
proof -
  have "\<forall>c \<in> set (itoa d). \<not> is_space c" using itoa_digits digit_not_space by blast
  then show ?thesis by (auto simp: plain_def out_name_def list_all_iff is_space_def)
qed

lemma within_tmp: "within tmp (tmp @ ''/'' @ p) = p"
  by (simp add: within_def)

lemma found_outputs:
  assumes "find_ok fnd tmp" "plain tmp"
  shows "\<exists>ds. findFiles (fnd fs tmp ''mr-out-[0-9]'') = Inr (map (\<lambda>d. tmp @ ''/'' @ out_name d) ds) \<and> distinct ds
    \<and> set ds = {d. d < 10 \<and> fs (out_name d) \<noteq> None}"
proof -
  from assms(1) obtain ds where ds: "fnd fs tmp ''mr-out-[0-9]'' = Some (listing (map (\<lambda>d. tmp @ ''/'' @ out_name d) ds))"
    "distinct ds" "set ds = {d. d < 10 \<and> fs (out_name d) \<noteq> None}" unfolding find_ok_def by blast
  have slash: "\<not> is_space (CHR ''/'')" by (simp add: is_space_def)
  have "plain (tmp @ ''/'' @ out_name d)" for d
    using assms(2) out_name_plain [of d] slash by (auto simp: plain_def list_all_iff)
  then have "list_all plain (map (\<lambda>d. tmp @ ''/'' @ out_name d) ds)" by (simp add: list_all_iff)
  with ds findFiles_listing show ?thesis by auto
qed

text \<open>Merging the outputs of a finished job gives the lines of all of them, sorted.\<close>

lemma merge_result:
  assumes f: "find_ok fnd tmp" "plain tmp" and s: "sort_ok sortc" and n: "0 < n" "n \<le> 10"
    and outs: "\<And>r. r < n \<Longrightarrow> fs (out_name r) = Some (h r)" "\<And>r. n \<le> r \<Longrightarrow> fs (out_name r) = None" and e: "\<And>r. ended (h r)"
    and m: "\<forall>r. out \<noteq> out_name r"
  shows "mergeOutput sortc fnd tmp out fs = Inr (fs(out := sortc (map (\<lambda>r. Some (h r)) [0..<n])))"
proof -
  from found_outputs [OF f, of fs] obtain ds where ds: "findFiles (fnd fs tmp ''mr-out-[0-9]'') = Inr (map (\<lambda>d. tmp @ ''/'' @ out_name d) ds)"
    "distinct ds" "set ds = {d. d < 10 \<and> fs (out_name d) \<noteq> None}" by blast
  have "fs (out_name d) \<noteq> None \<longleftrightarrow> d < n" for d using outs by (cases "d < n") auto
  then have set: "set ds = set [0..<n]" unfolding ds(3) using n(2) by auto
  then have mset: "mset ds = mset [0..<n]" using ds(2) by (metis distinct_upt set_eq_iff_mset_eq_distinct)
  have ne: "ds \<noteq> []" using set n(1) by auto
  have cont: "map (\<lambda>p. (fs(out \<mapsto> '''')) (within tmp p)) (map (\<lambda>d. tmp @ ''/'' @ out_name d) ds) = map Some (map h ds)"
    using set outs(1) m by (auto simp: within_tmp [simplified])
  have "mset (concat (map plines (map h ds))) = mset (concat (map plines (map h [0..<n])))"
    using mset by (simp only: map_map mset_concat_map)
  then have "sortc (map Some (map h ds)) = sortc (map Some (map h [0..<n]))"
    using ne n(1) e by (intro sort_same [OF s]) (simp_all add: list_all_iff)
  moreover have "sortc (map Some (map h ds)) \<noteq> None" using ne by (intro sort_some [OF s]) simp
  ultimately obtain y where "sortc (map Some (map h ds)) = Some y" "sortc (map (\<lambda>r. Some (h r)) [0..<n]) = Some y" by (auto simp: comp_def)
  then show ?thesis using ne unfolding mergeOutput_def ds(1) rbind_Inr Let_def cont by (simp add: Suc_le_eq)
qed

lemma concat_map_concat: "concat (map f (concat xss)) = concat (map (\<lambda>xs. concat (map f xs)) xss)"
  by (induction xss) auto

text \<open>Lines spread over several files sort like the lines in one.\<close>

lemma sort_parts:
  assumes s: "sort_ok sortc" and n: "0 < n" and m: "mset (concat (map L [0..<n])) = mset ls"
  shows "sortc (map (\<lambda>r. Some (concat (map format_line (L r)))) [0..<n]) = sortc [Some (concat (map format_line ls))]"
proof -
  have "mset (concat (map plines (map (\<lambda>r. concat (map format_line (L r))) [0..<n]))) = mset (concat (map (plines \<circ> format_line) (concat (map L [0..<n]))))"
    by (simp add: plines_lines concat_map_concat comp_def)
  also have "\<dots> = mset (concat (map (plines \<circ> format_line) ls))" unfolding mset_concat_map [of "plines \<circ> format_line"] m ..
  finally have "sortc (map Some (map (\<lambda>r. concat (map format_line (L r))) [0..<n])) = sortc (map Some [concat (map format_line ls)])"
    using n ended_lines by (intro sort_same [OF s]) (simp_all add: list_all_iff plines_lines)
  then show ?thesis by (simp add: comp_def)
qed

lemma correct_result:
  assumes inp: "input_ok fs fls" "fls \<noteq> []" and opn: "opn app = Some (Some (mapf A), Some (reducef A))" and s: "sort_ok sortc" and m: "out \<noteq> ''mr-out-0''"
  shows "mkCorrectOutput sortc opn (srt A) fls app out fs
    = Inr (fs(''mr-out-0'' := None, out := sortc [Some (concat (map format_line (reduce_loop (reducef A) (srt A (all_pairs (mapf A) fs fls)))))]))"
proof -
  let ?o = "concat (map format_line (reduce_loop (reducef A) (srt A (all_pairs (mapf A) fs fls))))"
  have "\<not> length (''mrsequential'' # app # fls) < 3" using inp(2) by (cases fls) auto
  then have "mrsequential_main opn (srt A) (''mrsequential'' # app # fls) fs = Inr (fs(''mr-out-0'' \<mapsto> ?o))"
    using opn by (simp add: mrsequential_main_def loadPlugin_def mrsequential_def read_all_result [OF inp(1)])
  moreover have "sortc [Some ?o] \<noteq> None" using sort_some [OF s, of "[?o]"] by simp
  ultimately show ?thesis using m by (auto simp: mkCorrectOutput_def Let_def fun_eq_iff)
qed

text \<open>C32: the tests of MapReduce pass. \<open>mkCorrectOutput\<close> computes the expected output with the sequential program; then coordinator and
  workers run the job, with crashes and repeated tasks; once the coordinator is done, \<open>mergeOutput\<close> finds and merges the output
  files, and \<open>runCmp\<close> finds them equal to the expected output. This is for up to ten reduce tasks, the number \<open>mrcoordinator\<close> asks for and
  the most that the pattern of \<open>mergeOutput\<close> finds, and for runs in which no answer was decoded into a variable that kept the number of
  another task: all runs in which no request finds a task that is out for more than ten seconds, and those slower ones in which
  no worker mixes up its tasks. In the others the comparison can fail.\<close>

theorem mr_test_passes:
  assumes ok: "job_ok A fls n fs" "fls \<noteq> []" "n \<le> 10" and app: "opn app = Some (Some (mapf A), Some (reducef A))"
    and a: "sorts_by_key (srt A)" "order_insensitive (reducef A)"
    and clean: "\<forall>r. fs (out_name r) = None" and tmp: "find_ok fnd tmp" "plain tmp" and s: "sort_ok sortc" and cmp: "\<forall>x. cmpc (Some x) (Some x)"
    and names: "correct \<notin> set fls" "correct \<noteq> merged" "\<forall>r. correct \<noteq> out_name r \<and> merged \<noteq> out_name r" "\<forall>k i. correct \<noteq> inter_name k i"
  shows "\<exists>fs1. mkCorrectOutput sortc opn (srt A) fls app correct fs = Inr fs1
    \<and> (\<forall>t. reach (mr_start fls n fs1) (mr_step A late) t \<and> Done (sy_coord t) \<and> (\<not> late \<or> \<not> sy_stale t)
         \<longrightarrow> (\<exists>fs2. mergeOutput sortc fnd tmp merged (sy_files t) = Inr fs2 \<and> runCmp cmpc merged correct fs2))"
proof -
  let ?L = "\<lambda>fs r. reduce_loop (reducef A) (srt A (part n r (all_pairs (mapf A) fs fls)))"
  let ?seq = "reduce_loop (reducef A) (srt A (all_pairs (mapf A) fs fls))"
  let ?want = "sortc [Some (concat (map format_line ?seq))]"
  let ?fs1 = "fs(''mr-out-0'' := None, correct := ?want)"
  have zero: "''mr-out-0'' = out_name 0" by code_simp
  have inp: "input_ok fs fls" "0 < n" "\<forall>f \<in> set fls. \<forall>r. f \<noteq> out_name r" using ok(1) by (auto simp: job_ok_def inputs_apart_def)
  have mk: "mkCorrectOutput sortc opn (srt A) fls app correct fs = Inr ?fs1"
    using correct_result [where A = A and opn = opn and app = app, OF inp(1) ok(2) app s] names(3) zero by simp
  have eq: "?fs1 f = fs f" if "f \<in> set fls" for f using that names(1) inp(3) zero by auto
  have ok1: "job_ok A fls n ?fs1" using ok(1) eq by (auto simp: job_ok_def inputs_apart_def input_ok_def)
  have none: "?fs1 (out_name r) = None" for r using clean names(3) by (metis fun_upd_apply)
  have pairs: "all_pairs (mapf A) ?fs1 fls = all_pairs (mapf A) fs fls" using eq by (simp add: all_pairs_def cong: map_cong)
  obtain want where want: "?want = Some want" using sort_some [OF s, of "[concat (map format_line ?seq)]"] by auto
  have "\<exists>fs2. mergeOutput sortc fnd tmp merged (sy_files t) = Inr fs2 \<and> runCmp cmpc merged correct fs2"
    if t: "reach (mr_start fls n ?fs1) (mr_step A late) t" "Done (sy_coord t)" "\<not> late \<or> \<not> sy_stale t" for t
  proof -
    note inv = fresh_inv [OF t(1,3) ok1, THEN conjunct1]
    note kept = job_keeps_files [OF t(1,3) ok1]
    have "sy_files t (out_name r) = Some (concat (map format_line (?L fs r)))" if "r < n" for r
      using done_outputs [OF inv t(2) that] by (simp add: good_out_def pairs)
    moreover have "sy_files t (out_name r) = None" if "n \<le> r" for r
      using kept [of "out_name r"] that none by (simp add: inter_not_out [THEN not_sym])
    ultimately have m: "mergeOutput sortc fnd tmp merged (sy_files t)
        = Inr ((sy_files t)(merged := sortc (map (\<lambda>r. Some (concat (map format_line (?L fs r)))) [0..<n])))"
      using names(3) by (intro merge_result [OF tmp s inp(2) ok(3)]) (auto simp: ended_lines)
    have "sortc (map (\<lambda>r. Some (concat (map format_line (?L fs r)))) [0..<n]) = Some want"
      using sort_parts [OF s inp(2) partitioned_lines [OF a inp(2)]] want by simp
    moreover have "sy_files t correct = Some want" using kept [of correct] names(3,4) want by auto
    ultimately show ?thesis using m cmp names(2) by (simp add: runCmp_def)
  qed
  with mk show ?thesis by blast
qed

text \<open>Programs that do what is assumed.\<close>

definition demo_sort :: "string option list \<Rightarrow> string option" where
  "demo_sort xs = (if None \<in> set xs then None else Some (listing (sort (concat (map (plines \<circ> the) xs)))))"

definition demo_find :: "files \<Rightarrow> string \<Rightarrow> string \<Rightarrow> string option" where
  "demo_find fs tmp pat = Some (listing (map (\<lambda>d. tmp @ ''/'' @ out_name d) (filter (\<lambda>d. fs (out_name d) \<noteq> None) [0..<10])))"

definition demo_cmp :: "string option \<Rightarrow> string option \<Rightarrow> bool" where
  "demo_cmp a b \<longleftrightarrow> a \<noteq> None \<and> a = b"

definition demo_open :: "string \<Rightarrow> ((string \<Rightarrow> string \<Rightarrow> KeyValue list) option \<times> (string \<Rightarrow> string list \<Rightarrow> string) option) option" where
  "demo_open p = (if p = ''wc.so'' then Some (Some (mapf wc_app), Some (reducef wc_app)) else None)"

lemma demo_sort_files: "demo_sort (map Some xs) = Some (listing (sort (concat (map plines xs))))"
  by (simp add: demo_sort_def comp_def image_iff)

lemma demo_programs: "sort_ok demo_sort" "find_ok demo_find tmp"
proof -
  show "sort_ok demo_sort" unfolding sort_ok_def demo_sort_files by (metis option.distinct(1) sort_mset)
  show "find_ok demo_find tmp" unfolding find_ok_def demo_find_def by (intro allI exI conjI, rule refl) auto
qed

theorem mr_test_passes_witness:
  "\<exists>fs1 t fs2. mkCorrectOutput demo_sort demo_open (srt wc_app) [''f'', ''g''] ''wc.so'' ''mr-wc-correct.txt'' [''f'' \<mapsto> ''a'', ''g'' \<mapsto> ''b''] = Inr fs1
    \<and> reach (mr_start [''f'', ''g''] 1 fs1) (mr_step wc_app True) t \<and> Done (sy_coord t)
    \<and> mergeOutput demo_sort demo_find ''mr-tmp'' ''mr-wc-all.txt'' (sy_files t) = Inr fs2 \<and> runCmp demo_cmp ''mr-wc-all.txt'' ''mr-wc-correct.txt'' fs2"
proof -
  let ?fs = "[''f'' \<mapsto> ''a'', ''g'' \<mapsto> ''b'']" and ?fls = "[''f'', ''g'']" and ?c = "''mr-wc-correct.txt''" and ?m = "''mr-wc-all.txt''"
  have n: "\<forall>r. ?c \<noteq> out_name r \<and> ?m \<noteq> out_name r" by (simp add: out_name_def)
  have hd: "hd (itoa k) \<noteq> CHR ''w''" for k
  proof -
    obtain d where "d < 10" "hd (itoa k) = digit d" using itoa_digits [of "hd (itoa k)" k] by auto
    moreover have "of_char (CHR ''w'') = (119 :: nat)" by simp
    ultimately show ?thesis using of_char_digit [of d] by (auto simp del: char_of_nat)
  qed
  have i: "\<forall>k i. ?c \<noteq> inter_name k i"
  proof (intro allI notI)
    fix k i assume "?c = inter_name k i"
    then have "hd (itoa k) = CHR ''w''" by (cases "itoa k") (auto simp: inter_name_def)
    then show False using hd by blast
  qed
  have z: "''mr-out-0'' = out_name 0" by code_simp
  have a: "sorts_by_key (srt wc_app)" "order_insensitive (reducef wc_app)" "demo_open ''wc.so'' = Some (Some (mapf wc_app), Some (reducef wc_app))"
    "plain ''mr-tmp''" "\<forall>r. ?fs (out_name r) = None" "\<forall>x. demo_cmp (Some x) (Some x)"
    using sort_key_sorts wc_insensitive
    by (simp_all add: wc_app_def demo_open_def plain_def is_space_def Let_def out_name_def demo_cmp_def)
  have p: "?fls \<noteq> []" "(1 :: nat) \<le> 10" "?c \<notin> set ?fls" "?c \<noteq> ?m" by simp_all
  note test = mr_test_passes [where fs = ?fs and opn = demo_open and app = "''wc.so''" and cmpc = demo_cmp and late = True,
      OF wc_demo_ok p(1,2) a(3,1,2,5) demo_programs(2) a(4) demo_programs(1) a(6) p(3,4) n i]
  then obtain fs1 where fs1: "mkCorrectOutput demo_sort demo_open (srt wc_app) ?fls ''wc.so'' ?c ?fs = Inr fs1"
    and run: "\<forall>t. reach (mr_start ?fls 1 fs1) (mr_step wc_app True) t \<and> Done (sy_coord t) \<and> (\<not> True \<or> \<not> sy_stale t)
         \<longrightarrow> (\<exists>fs2. mergeOutput demo_sort demo_find ''mr-tmp'' ?m (sy_files t) = Inr fs2 \<and> runCmp demo_cmp ?m ?c fs2)" by blast
  have inp: "input_ok ?fs ?fls" using wc_demo_ok by (simp add: job_ok_def inputs_apart_def)
  have "fs1 ''f'' = Some ''a''" "fs1 ''g'' = Some ''b''"
    using fs1 correct_result [where A = wc_app and opn = demo_open and app = "''wc.so''" and out = ?c, OF inp _ a(3) demo_programs(1)] by auto
  then have "job_ok wc_app ?fls 1 fs1" using wc_demo_ok by (simp add: job_ok_def inputs_apart_def input_ok_def)
  from job_finishes [OF this] obtain t where "reach (mr_start ?fls 1 fs1) (mr_step wc_app True) t" "Done (sy_coord t)" "\<not> sy_stale t" by auto
  with run fs1 show ?thesis by blast
qed

end
