(* ===== verification/Mr_Timing.thy ===== *)
theory Mr_Timing
  imports Mr_Tests
begin

text \<open>
  The applications that look at the other workers: \<open>src/src/mrapps/mtiming.go\<close> and \<open>rtiming.go\<close>, which count the workers that
  run at the same time by the files these leave in the directory, and \<open>jobcount.go\<close>, which counts how often map tasks were executed.
  A directory is the list of its names. The process numbers and which processes are alive are the system's.
\<close>

section \<open>Reading a process number\<close>

definition isdig :: "char \<Rightarrow> bool" where
  "isdig c = (let n = of_char c :: nat in 48 \<le> n \<and> n \<le> 57)"

text \<open>\<open>%d\<close> of \<open>Sscanf\<close>: spaces, a sign, and as many digits as there are; the number must fit 64 bits. What follows is not read.\<close>

definition read_int :: "string \<Rightarrow> int option" where
  "read_int s =
     (let s1 = dropWhile (\<lambda>c. is_space c \<and> c \<noteq> nl) s;
          neg = (s1 \<noteq> [] \<and> hd s1 = CHR ''-'');
          s2 = (if s1 \<noteq> [] \<and> (hd s1 = CHR ''-'' \<or> hd s1 = CHR ''+'') then tl s1 else s1);
          ds = takeWhile isdig s2;
          v = (if neg then - int (atoi ds) else int (atoi ds))
      in if ds \<noteq> [] \<and> - (2 ^ 63) \<le> v \<and> v < 2 ^ 63 then Some v else None)"

definition worker_prefix :: "string \<Rightarrow> string" where
  "worker_prefix ph = ''mr-worker-'' @ ph @ ''-''"

definition myfilename :: "string \<Rightarrow> nat \<Rightarrow> string" where
  "myfilename ph pid = worker_prefix ph @ itoa pid"

definition scan_pid :: "string \<Rightarrow> string \<Rightarrow> int option" where
  "scan_pid ph name = (let pre = worker_prefix ph in if take (length pre) name = pre then read_int (drop (length pre) name) else None)"

text \<open>The loop over the names of the directory: \<open>alive x\<close> is that \<open>syscall.Kill(x, 0)\<close> succeeds.\<close>

fun count_alive :: "(int \<Rightarrow> bool) \<Rightarrow> string \<Rightarrow> string list \<Rightarrow> nat \<Rightarrow> nat" where
  "count_alive alive ph [] ret = ret"
| "count_alive alive ph (name # names) ret =
     count_alive alive ph names (case scan_pid ph name of Some xpid \<Rightarrow> if alive xpid then ret + 1 else ret | None \<Rightarrow> ret)"

text \<open>Reading an empty directory is an error (\<open>io.EOF\<close>).\<close>

definition scan_dir :: "(int \<Rightarrow> bool) \<Rightarrow> string \<Rightarrow> string list \<Rightarrow> nat res" where
  "scan_dir alive ph names = (if names = [] then Inl (GoPanic ''EOF'') else Inr (count_alive alive ph names 0))"

section \<open>Workers that count each other\<close>

text \<open>A process in \<open>nparallel\<close>: before it, with its file written, asleep with its count, and after it. \<open>np_alive\<close>: the processes that
  run; one that is killed stays where it was.\<close>

datatype npc = NBefore | NWrote | NSleep nat | NAfter nat

record nproc =
  np_pc :: "nat \<Rightarrow> npc"
  np_dir :: "string list"
  np_alive :: "nat set"

definition busy :: "npc \<Rightarrow> bool" where
  "busy pc = (case pc of NWrote \<Rightarrow> True | NSleep _ \<Rightarrow> True | _ \<Rightarrow> False)"

definition pid_alive :: "nat set \<Rightarrow> int \<Rightarrow> bool" where
  "pid_alive al x \<longleftrightarrow> 0 \<le> x \<and> nat x \<in> al"

definition write_name :: "string \<Rightarrow> string list \<Rightarrow> string list" where
  "write_name f dir = (if f \<in> set dir then dir else dir @ [f])"

inductive np_step :: "string \<Rightarrow> nproc \<Rightarrow> nproc \<Rightarrow> bool" for ph where
  create: "p \<in> np_alive s \<Longrightarrow> np_pc s p = NBefore
    \<Longrightarrow> np_step ph s (s\<lparr>np_pc := (np_pc s)(p := NWrote), np_dir := write_name (myfilename ph p) (np_dir s)\<rparr>)"
| look: "p \<in> np_alive s \<Longrightarrow> np_pc s p = NWrote \<Longrightarrow> scan_dir (pid_alive (np_alive s)) ph (np_dir s) = Inr ret
    \<Longrightarrow> np_step ph s (s\<lparr>np_pc := (np_pc s)(p := NSleep ret)\<rparr>)"
| remove: "p \<in> np_alive s \<Longrightarrow> np_pc s p = NSleep ret \<Longrightarrow> myfilename ph p \<in> set (np_dir s)
    \<Longrightarrow> np_step ph s (s\<lparr>np_pc := (np_pc s)(p := NAfter ret), np_dir := removeAll (myfilename ph p) (np_dir s)\<rparr>)"
| again: "p \<in> np_alive s \<Longrightarrow> np_pc s p = NAfter ret \<Longrightarrow> np_step ph s (s\<lparr>np_pc := (np_pc s)(p := NBefore)\<rparr>)"
| kill: "np_step ph s (s\<lparr>np_alive := np_alive s - {p}\<rparr>)"

text \<open>At first no worker is in \<open>nparallel\<close>, and the directory has no names of workers.\<close>

definition np_start :: "string \<Rightarrow> nproc \<Rightarrow> bool" where
  "np_start ph s \<longleftrightarrow> np_pc s = (\<lambda>_. NBefore) \<and> distinct (np_dir s) \<and> (\<forall>f \<in> set (np_dir s). scan_pid ph f = None)
     \<and> finite (np_alive s) \<and> (\<forall>p \<in> np_alive s. p < 2 ^ 63)"

section \<open>The values of the applications\<close>

text \<open>\<open>ts\<close> is the time as \<open>%.1f\<close> prints it.\<close>

definition mtiming_Map :: "nat \<Rightarrow> string \<Rightarrow> nat \<Rightarrow> KeyValue list" where
  "mtiming_Map pid ts n = [\<lparr>Key = ''times-'' @ itoa pid, Value = ts\<rparr>, \<lparr>Key = ''parallel-'' @ itoa pid, Value = itoa n\<rparr>]"

definition mtiming_Reduce :: "string \<Rightarrow> string list \<Rightarrow> string" where
  "mtiming_Reduce key values = strings_Join (sort values) '' ''"

definition rtiming_Reduce :: "nat \<Rightarrow> string" where
  "rtiming_Reduce n = itoa n"

record jobcount =
  jc_dir :: "string list"
  jc_count :: "nat \<Rightarrow> nat"

text \<open>The variable \<open>count\<close> is a process's own; \<open>ReadDir\<close> gives every name of the directory once.\<close>

definition jobcount_Map :: "nat \<Rightarrow> jobcount \<Rightarrow> jobcount \<times> KeyValue list" where
  "jobcount_Map me s =
     (s\<lparr>jc_dir := write_name (''mr-worker-jobcount-'' @ itoa me @ ''-'' @ itoa (jc_count s me)) (jc_dir s),
        jc_count := (jc_count s)(me := jc_count s me + 1)\<rparr>, [\<lparr>Key = ''a'', Value = ''x''\<rparr>])"

fun count_prefix :: "string list \<Rightarrow> nat \<Rightarrow> nat" where
  "count_prefix [] n = n"
| "count_prefix (f # fls) n = count_prefix fls (if take (length ''mr-worker-jobcount'') f = ''mr-worker-jobcount'' then n + 1 else n)"

definition jobcount_Reduce :: "jobcount \<Rightarrow> string" where
  "jobcount_Reduce s = itoa (count_prefix (jc_dir s) 0)"

section \<open>The count of \<open>nparallel\<close> is exact\<close>

lemma isdig_digit: "d < 10 \<Longrightarrow> isdig (digit d)"
  by (simp add: isdig_def of_char_digit)

lemma read_int_itoa: "n < 2 ^ 63 \<Longrightarrow> read_int (itoa n) = Some (int n)"
proof -
  assume n: "n < 2 ^ 63"
  have d: "\<forall>c \<in> set (itoa n). isdig c" using itoa_digits isdig_digit by blast
  then have tw: "takeWhile isdig (itoa n) = itoa n" by (simp add: takeWhile_eq_all_conv)
  have h: "isdig (hd (itoa n))" using d by (simp add: hd_in_set)
  then have nd: "hd (itoa n) \<noteq> CHR ''-''" "hd (itoa n) \<noteq> CHR ''+''" "\<not> is_space (hd (itoa n))" by (auto simp: isdig_def is_space_def Let_def)
  have "dropWhile (\<lambda>c. is_space c \<and> c \<noteq> nl) (itoa n) = itoa n" using nd(3) by (cases "itoa n") auto
  moreover have "int n < 2 ^ 63" using n by (simp add: of_nat_less_iff [symmetric] del: of_nat_less_iff)
  ultimately show ?thesis using nd n by (simp add: read_int_def Let_def tw)
qed

lemma scan_pid_file: "p < 2 ^ 63 \<Longrightarrow> scan_pid ph (myfilename ph p) = Some (int p)"
  by (simp add: scan_pid_def myfilename_def Let_def read_int_itoa)

lemma myfilename_inj [simp]: "myfilename ph p = myfilename ph q \<longleftrightarrow> p = q"
  by (simp add: myfilename_def)

lemma count_alive_length:
  "count_alive alive ph names ret = ret + length (filter (\<lambda>f. case scan_pid ph f of Some x \<Rightarrow> alive x | None \<Rightarrow> False) names)"
  by (induction names arbitrary: ret) (auto split: option.splits)

text \<open>The workers in \<open>nparallel\<close>, dead or alive, are those with a file in the directory.\<close>

definition busy_set :: "nproc \<Rightarrow> nat set" where
  "busy_set s = {p. busy (np_pc s p)}"

definition worker_files :: "string \<Rightarrow> nproc \<Rightarrow> string set" where
  "worker_files ph s = {f \<in> set (np_dir s). scan_pid ph f \<noteq> None}"

definition np_inv :: "string \<Rightarrow> nproc \<Rightarrow> bool" where
  "np_inv ph s \<longleftrightarrow> distinct (np_dir s) \<and> finite (np_alive s) \<and> (\<forall>p \<in> np_alive s \<union> busy_set s. p < 2 ^ 63)
     \<and> worker_files ph s = myfilename ph ` busy_set s"

lemma busy_set_update [simp]: "busy_set (s\<lparr>np_pc := (np_pc s)(p := pc)\<rparr>) = (if busy pc then insert p (busy_set s) else busy_set s - {p})"
  "busy_set (s\<lparr>np_dir := d\<rparr>) = busy_set s" "busy_set (s\<lparr>np_alive := a\<rparr>) = busy_set s"
  by (auto simp: busy_set_def)

lemma worker_files_update [simp]:
  "worker_files ph (s\<lparr>np_pc := pc\<rparr>) = worker_files ph s" "worker_files ph (s\<lparr>np_alive := a\<rparr>) = worker_files ph s"
  "scan_pid ph f \<noteq> None \<Longrightarrow> worker_files ph (s\<lparr>np_pc := pc, np_dir := write_name f (np_dir s)\<rparr>) = insert f (worker_files ph s)"
  "worker_files ph (s\<lparr>np_pc := pc, np_dir := removeAll f (np_dir s)\<rparr>) = worker_files ph s - {f}"
  by (auto simp: worker_files_def write_name_def)

lemma busy_set_both [simp]: "busy_set (s\<lparr>np_pc := (np_pc s)(p := pc), np_dir := d\<rparr>) = (if busy pc then insert p (busy_set s) else busy_set s - {p})"
  by (auto simp: busy_set_def)

lemma busy_simps [simp]: "busy NWrote" "busy (NSleep r)" "\<not> busy NBefore" "\<not> busy (NAfter r)"
  by (simp_all add: busy_def)

lemma np_step_inv:
  assumes inv: "np_inv ph s" and "np_step ph s t"
  shows "np_inv ph t"
  using assms(2)
proof cases
  case (create p)
  have "scan_pid ph (myfilename ph p) \<noteq> None" using inv create(2) scan_pid_file by (auto simp: np_inv_def)
  then show ?thesis using inv create(1,2) by (simp add: np_inv_def write_name_def [of _ "np_dir s"] worker_files_update(3) [unfolded write_name_def])
next
  case (look p ret)
  then have "insert p (busy_set s) = busy_set s" by (auto simp: busy_set_def)
  then show ?thesis using inv look(1) by (simp add: np_inv_def)
next
  case (remove p ret)
  have "inj (myfilename ph)" by (simp add: inj_on_def)
  then have "myfilename ph ` (busy_set s - {p}) = myfilename ph ` busy_set s - {myfilename ph p}" by (simp add: image_set_diff)
  then show ?thesis using inv remove(1) by (simp add: np_inv_def distinct_removeAll) blast
next
  case (again p ret)
  then have "busy_set s - {p} = busy_set s" by (auto simp: busy_set_def)
  then show ?thesis using inv again(1) by (simp add: np_inv_def)
next
  case (kill p)
  then show ?thesis using inv by (auto simp: np_inv_def)
qed

lemma np_start_inv: "np_start ph s \<Longrightarrow> np_inv ph s"
  by (auto simp: np_start_def np_inv_def busy_set_def worker_files_def)

interpretation np: invariant_system "np_start ph" "np_step ph" "np_inv ph" for ph
  by unfold_locales (auto intro: np_start_inv np_step_inv)

text \<open>The count that a worker takes is the number of workers that are alive and in \<open>nparallel\<close> at that moment, itself included;
  files that killed workers left behind do not count.\<close>

theorem nparallel_exact:
  assumes run: "reach (np_start ph) (np_step ph) s" and p: "np_pc s p = NWrote"
  shows "scan_dir (pid_alive (np_alive s)) ph (np_dir s) = Inr (card {q \<in> np_alive s. busy (np_pc s q)})"
proof -
  have inv: "np_inv ph s" by (rule np.reach_inv [OF run])
  let ?P = "\<lambda>f. case scan_pid ph f of Some x \<Rightarrow> pid_alive (np_alive s) x | None \<Rightarrow> False"
  have files: "worker_files ph s = myfilename ph ` busy_set s" and small: "\<forall>q \<in> busy_set s. q < 2 ^ 63" using inv by (auto simp: np_inv_def)
  have "set (filter ?P (np_dir s)) = {f \<in> worker_files ph s. ?P f}" by (auto simp: worker_files_def split: option.splits)
  also have "\<dots> = myfilename ph ` {q \<in> busy_set s. ?P (myfilename ph q)}" unfolding files by auto
  also have "{q \<in> busy_set s. ?P (myfilename ph q)} = {q \<in> np_alive s. busy (np_pc s q)}"
    using small scan_pid_file by (auto simp: busy_set_def pid_alive_def)
  finally have "set (filter ?P (np_dir s)) = myfilename ph ` {q \<in> np_alive s. busy (np_pc s q)}" .
  moreover have "distinct (filter ?P (np_dir s))" using inv by (simp add: np_inv_def)
  ultimately have "length (filter ?P (np_dir s)) = card (myfilename ph ` {q \<in> np_alive s. busy (np_pc s q)})" by (metis distinct_card)
  also have "\<dots> = card {q \<in> np_alive s. busy (np_pc s q)}" by (rule card_image) (simp add: inj_on_def)
  moreover have "myfilename ph p \<in> worker_files ph s" using p unfolding files by (simp add: busy_set_def)
  then have "np_dir s \<noteq> []" by (auto simp: worker_files_def)
  ultimately show ?thesis by (simp add: scan_dir_def count_alive_length)
qed

section \<open>The count of \<open>jobcount\<close> is exact\<close>

fun jobcount_maps :: "nat list \<Rightarrow> jobcount \<Rightarrow> jobcount" where
  "jobcount_maps [] s = s"
| "jobcount_maps (p # ps) s = jobcount_maps ps (fst (jobcount_Map p s))"

definition jc_name :: "nat \<Rightarrow> nat \<Rightarrow> string" where
  "jc_name me k = ''mr-worker-jobcount-'' @ itoa me @ ''-'' @ itoa k"

lemma jc_name_inj: "jc_name me k = jc_name me' k' \<Longrightarrow> me = me' \<and> k = k'"
  by (rule itoa_pair_inj) (simp add: jc_name_def)

lemma count_prefix_length:
  "count_prefix fls n = n + length (filter (\<lambda>f. take (length ''mr-worker-jobcount'') f = ''mr-worker-jobcount'') fls)"
  by (induction fls arbitrary: n) auto

lemma jobcount_Map_fields:
  "jc_dir (fst (jobcount_Map p s)) = write_name (jc_name p (jc_count s p)) (jc_dir s)"
  "jc_count (fst (jobcount_Map p s)) = (jc_count s)(p := jc_count s p + 1)"
  by (simp_all add: jobcount_Map_def jc_name_def)

definition jc_ok :: "jobcount \<Rightarrow> bool" where
  "jc_ok s \<longleftrightarrow> (\<forall>me k. jc_name me k \<in> set (jc_dir s) \<longrightarrow> k < jc_count s me)"

lemma jobcount_fresh:
  assumes "jc_ok s"
  shows "jc_dir (fst (jobcount_Map p s)) = jc_dir s @ [jc_name p (jc_count s p)]" and "jc_ok (fst (jobcount_Map p s))"
proof -
  have "jc_name p (jc_count s p) \<notin> set (jc_dir s)" using assms unfolding jc_ok_def by blast
  then show d: "jc_dir (fst (jobcount_Map p s)) = jc_dir s @ [jc_name p (jc_count s p)]" unfolding jobcount_Map_fields by (simp add: write_name_def)
  show "jc_ok (fst (jobcount_Map p s))" unfolding jc_ok_def
  proof (intro allI impI)
    fix me k assume "jc_name me k \<in> set (jc_dir (fst (jobcount_Map p s)))"
    then have "jc_name me k \<in> set (jc_dir s) \<or> jc_name me k = jc_name p (jc_count s p)" unfolding d by auto
    then have "k < jc_count s me \<or> me = p \<and> k = jc_count s p" using assms jc_name_inj unfolding jc_ok_def by blast
    then show "k < jc_count (fst (jobcount_Map p s)) me" unfolding jobcount_Map_fields by auto
  qed
qed

definition counted_name :: "string \<Rightarrow> bool" where
  "counted_name f \<longleftrightarrow> take (length ''mr-worker-jobcount'') f = ''mr-worker-jobcount''"

lemma counted_jc_name: "counted_name (jc_name me k)"
  by (simp add: counted_name_def jc_name_def)

lemma jobcount_maps_length:
  "jc_ok s \<Longrightarrow> length (filter counted_name (jc_dir (jobcount_maps ps s))) = length (filter counted_name (jc_dir s)) + length ps"
proof (induction ps arbitrary: s)
  case (Cons p ps)
  then show ?case using jobcount_fresh [OF Cons.prems, of p] by (simp add: counted_jc_name)
qed simp

text \<open>The reduce task of \<open>jobcount\<close> reports how often map tasks were executed, by whichever processes.\<close>

theorem jobcount_exact:
  assumes "\<forall>f \<in> set dir. take (length ''mr-worker-jobcount'') f \<noteq> ''mr-worker-jobcount''"
  shows "jobcount_Reduce (jobcount_maps ps \<lparr>jc_dir = dir, jc_count = (\<lambda>_. 0)\<rparr>) = itoa (length ps)"
proof -
  have none: "filter counted_name dir = []" using assms by (auto simp: counted_name_def filter_empty_conv)
  then have "jc_ok \<lparr>jc_dir = dir, jc_count = (\<lambda>_. 0)\<rparr>" using counted_jc_name by (auto simp: jc_ok_def filter_empty_conv)
  from jobcount_maps_length [OF this, of ps] none show ?thesis by (simp add: jobcount_Reduce_def count_prefix_length counted_name_def [abs_def])
qed

end
