(* ===== verification/Shardcfg.thy ===== *)
theory Shardcfg
  imports Prelude
begin

text \<open>
  Shard configurations, \<open>src/src/shardkv1/shardcfg/shardcfg.go\<close>: the assignment of shards to replica groups,
  joining and leaving groups, and rebalancing. A Go map is an association list with distinct keys; where
  the code iterates over a map the list is the order of iteration. \<open>log.Fatalf\<close> and a failed check end the
  process and are left results.
\<close>

section \<open>Data\<close>

definition NShards :: nat where
  "NShards = 12"

definition NumFirst :: int where
  "NumFirst = 1"

type_synonym gid = int
type_synonym groups = "(gid \<times> string list) list"

record ShardConfig =
  sc_Num :: int
  sc_Shards :: "gid list"
  sc_Groups :: groups

definition Key2Shard :: "string \<Rightarrow> nat" where
  "Key2Shard key = unat (fnv32a key) mod NShards"

definition MakeShardConfig :: ShardConfig where
  "MakeShardConfig = \<lparr>sc_Num = 0, sc_Shards = replicate NShards 0, sc_Groups = []\<rparr>"

text \<open>JSON is a parameter: what \<open>json.Marshal\<close> writes and what \<open>json.Unmarshal\<close> reads.\<close>

definition cfg_String :: "(ShardConfig \<Rightarrow> string option) \<Rightarrow> ShardConfig \<Rightarrow> string res" where
  "cfg_String marshal cfg = (case marshal cfg of None \<Rightarrow> Inl (LogFatal ''Unmarshall err'') | Some b \<Rightarrow> Inr b)"

definition FromString :: "(string \<Rightarrow> ShardConfig option) \<Rightarrow> string \<Rightarrow> ShardConfig res" where
  "FromString unmarshal s = (case unmarshal s of None \<Rightarrow> Inl (LogFatal ''Unmarshall err'') | Some c \<Rightarrow> Inr c)"

text \<open>The copy shares nothing with the original: every group is inserted into a fresh map.\<close>

fun copy_groups :: "groups \<Rightarrow> groups \<Rightarrow> groups" where
  "copy_groups [] acc = acc"
| "copy_groups ((k, srvs) # gs) acc = copy_groups gs (acc @ [(k, srvs)])"

definition cfg_Copy :: "ShardConfig \<Rightarrow> ShardConfig" where
  "cfg_Copy cfg = MakeShardConfig\<lparr>sc_Num := sc_Num cfg, sc_Shards := sc_Shards cfg,
     sc_Groups := copy_groups (sc_Groups cfg) []\<rparr>"

section \<open>Rebalancing\<close>

text \<open>\<open>counts\<close> of the code: how many shards a group has.\<close>

definition load :: "gid list \<Rightarrow> gid \<Rightarrow> int" where
  "load sh g = int (count_list sh g)"

text \<open>The loop of \<open>analyze\<close> over the sorted group numbers: most loaded group and its load, least loaded group and
  its load.\<close>

fun analyze_loop :: "gid list \<Rightarrow> gid list \<Rightarrow> gid \<times> int \<times> gid \<times> int \<Rightarrow> gid \<times> int \<times> gid \<times> int" where
  "analyze_loop sh [] acc = acc"
| "analyze_loop sh (g # gs) (mg, mn, lg, ln) =
     (let (lg', ln') = (if load sh g < ln then (g, load sh g) else (lg, ln));
          (mg', mn') = (if load sh g > mn then (g, load sh g) else (mg, mn))
      in analyze_loop sh gs (mg', mn', lg', ln'))"

definition group_ids :: "ShardConfig \<Rightarrow> gid list" where
  "group_ids c = sort (map fst (sc_Groups c))"

definition analyze :: "ShardConfig \<Rightarrow> gid \<times> int \<times> gid \<times> int" where
  "analyze c = analyze_loop (sc_Shards c) (group_ids c) (-1, -1, -1, 257)"

definition least :: "ShardConfig \<Rightarrow> gid" where
  "least c = (case analyze c of (_, _, lg, _) \<Rightarrow> lg)"

text \<open>The loop that assigns shards whose group is not in the configuration.\<close>

fun assign_loop :: "nat list \<Rightarrow> ShardConfig \<Rightarrow> ShardConfig" where
  "assign_loop [] c = c"
| "assign_loop (s # ss) c =
     assign_loop ss
       (if map_of (sc_Groups c) (sc_Shards c ! s) = None
        then c\<lparr>sc_Shards := (sc_Shards c)[s := least c]\<rparr> else c)"

text \<open>The inner loop that moves one shard.\<close>

fun move_first :: "gid \<Rightarrow> gid \<Rightarrow> gid list \<Rightarrow> gid list" where
  "move_first mg lg [] = []"
| "move_first mg lg (g # gs) = (if g = mg then lg # gs else g # move_first mg lg gs)"

text \<open>The outer loop has no bound; \<open>None\<close> is a run that does not end.\<close>

partial_function (option) move_loop :: "ShardConfig \<Rightarrow> ShardConfig option" where
  "move_loop c = (case analyze c of (mg, mn, lg, ln) \<Rightarrow>
     if mn < ln + 2 then Some c
     else move_loop (c\<lparr>sc_Shards := move_first mg lg (sc_Shards c)\<rparr>))"

definition Rebalance :: "ShardConfig \<Rightarrow> ShardConfig option" where
  "Rebalance c =
     (if length (sc_Groups c) < 1 then Some (c\<lparr>sc_Shards := map (\<lambda>_. 0) (sc_Shards c)\<rparr>)
      else move_loop (assign_loop [0..<length (sc_Shards c)] c))"

section \<open>Joining and leaving\<close>

definition shares_server :: "groups \<Rightarrow> string list \<Rightarrow> bool" where
  "shares_server gs servers \<longleftrightarrow> (\<exists>(xgid, xservers) \<in> set gs. \<exists>s1 \<in> set xservers. \<exists>s2 \<in> set servers. s1 = s2)"

text \<open>The loop over the joining groups; the flag says whether the loop ran to its end.\<close>

fun join_loop :: "groups \<Rightarrow> ShardConfig \<Rightarrow> (ShardConfig \<times> bool) res" where
  "join_loop [] cfg = Inr (cfg, True)"
| "join_loop ((gid, servers) # js) cfg =
     (if map_of (sc_Groups cfg) gid \<noteq> None then Inr (cfg, False)
      else if shares_server (sc_Groups cfg) servers then Inl (LogFatal ''Join puts server in two groups'')
      else join_loop js (cfg\<lparr>sc_Groups := sc_Groups cfg @ [(gid, servers)]\<rparr>))"

definition Join :: "groups \<Rightarrow> ShardConfig \<Rightarrow> (ShardConfig \<times> bool) res" where
  "Join servers cfg =
     rbind (join_loop servers cfg) (\<lambda>(cfg', ended).
     if \<not> ended then Inr (cfg', False)
     else if servers = [] then Inl (LogFatal ''Join but no change'')
     else Inr (cfg'\<lparr>sc_Num := sc_Num cfg' + 1\<rparr>, True))"

fun leave_loop :: "gid list \<Rightarrow> ShardConfig \<Rightarrow> ShardConfig \<times> bool" where
  "leave_loop [] cfg = (cfg, True)"
| "leave_loop (gid # gids) cfg =
     (if map_of (sc_Groups cfg) gid = None then (cfg, False)
      else leave_loop gids (cfg\<lparr>sc_Groups := filter (\<lambda>(k, _). k \<noteq> gid) (sc_Groups cfg)\<rparr>))"

definition Leave :: "gid list \<Rightarrow> ShardConfig \<Rightarrow> (ShardConfig \<times> bool) res" where
  "Leave gids cfg =
     (case leave_loop gids cfg of (cfg', ended) \<Rightarrow>
      if \<not> ended then Inr (cfg', False)
      else if gids = [] then Inl (LogFatal ''Leave but no change'')
      else Inr (cfg'\<lparr>sc_Num := sc_Num cfg' + 1\<rparr>, True))"

text \<open>Outer \<open>None\<close>: the rebalancing does not end.\<close>

definition JoinBalance :: "groups \<Rightarrow> ShardConfig \<Rightarrow> (ShardConfig \<times> bool) option res" where
  "JoinBalance servers cfg =
     rbind (Join servers cfg) (\<lambda>(cfg', ok).
     if \<not> ok then Inr (Some (cfg', False)) else Inr (map_option (\<lambda>c. (c, True)) (Rebalance cfg')))"

definition LeaveBalance :: "gid list \<Rightarrow> ShardConfig \<Rightarrow> (ShardConfig \<times> bool) option res" where
  "LeaveBalance gids cfg =
     rbind (Leave gids cfg) (\<lambda>(cfg', ok).
     if \<not> ok then Inr (Some (cfg', False)) else Inr (map_option (\<lambda>c. (c, True)) (Rebalance cfg')))"

section \<open>Queries\<close>

definition GidServers :: "ShardConfig \<Rightarrow> nat \<Rightarrow> (gid \<times> string list \<times> bool) res" where
  "GidServers cfg sh = rbind (slice_get (sc_Shards cfg) (int sh)) (\<lambda>gid.
     case map_of (sc_Groups cfg) gid of None \<Rightarrow> Inr (gid, [], False) | Some srvs \<Rightarrow> Inr (gid, srvs, True))"

definition IsMember :: "ShardConfig \<Rightarrow> gid \<Rightarrow> bool" where
  "IsMember cfg gid = list_ex (\<lambda>g. g = gid) (sc_Shards cfg)"

fun load_range :: "gid list \<Rightarrow> gid list \<Rightarrow> int \<times> int \<Rightarrow> int \<times> int" where
  "load_range sh [] acc = acc"
| "load_range sh (g # gs) (mi, mx) =
     load_range sh gs (if load sh g < mi then load sh g else mi, if load sh g > mx then load sh g else mx)"

text \<open>The check the tests make of a configuration; a failed check stops the test.\<close>

definition CheckConfig :: "ShardConfig \<Rightarrow> gid list \<Rightarrow> unit res" where
  "CheckConfig cfg groups =
     (if length (sc_Groups cfg) \<noteq> length groups then Inl (LogFatal ''wanted groups'')
      else if list_ex (\<lambda>g. map_of (sc_Groups cfg) g = None) groups then Inl (LogFatal ''missing group'')
      else if groups \<noteq> [] \<and> list_ex (\<lambda>g. map_of (sc_Groups cfg) g = None) (sc_Shards cfg)
           then Inl (LogFatal ''invalid group'')
      else case load_range (sc_Shards cfg) (map fst (sc_Groups cfg)) (257, 0) of
             (mi, mx) \<Rightarrow> if mx > mi + 1 then Inl (LogFatal ''max too much larger than min'') else Inr ())"

end
