(* ===== verification/Shardcfg_Balance.thy ===== *)
theory Shardcfg_Balance
  imports Shardcfg
begin

text \<open>
  Rebalancing ends, assigns every shard to a group of the configuration and spreads the shards evenly; joining
  and leaving keep the configuration well formed, and the configurations they produce pass the check of the
  tests.
\<close>

section \<open>The most and the least loaded group\<close>

lemma analyze_loop_spec:
  "analyze_loop sh gs (mg, mn, lg, ln) = (mg', mn', lg', ln') \<Longrightarrow>
     mn \<le> mn' \<and> (\<forall>g \<in> set gs. load sh g \<le> mn') \<and> (mg' = mg \<and> mn' = mn \<or> mg' \<in> set gs \<and> mn' = load sh mg')
     \<and> ln' \<le> ln \<and> (\<forall>g \<in> set gs. ln' \<le> load sh g) \<and> (lg' = lg \<and> ln' = ln \<or> lg' \<in> set gs \<and> ln' = load sh lg')"
proof (induction gs arbitrary: mg mn lg ln)
  case (Cons g gs)
  define lg1 where "lg1 = (if load sh g < ln then g else lg)"
  define ln1 where "ln1 = (if load sh g < ln then load sh g else ln)"
  define mg1 where "mg1 = (if load sh g > mn then g else mg)"
  define mn1 where "mn1 = (if load sh g > mn then load sh g else mn)"
  have "analyze_loop sh gs (mg1, mn1, lg1, ln1) = (mg', mn', lg', ln')"
    using Cons.prems by (simp add: lg1_def ln1_def mg1_def mn1_def split: if_splits)
  from Cons.IH [OF this] show ?case by (auto simp: lg1_def ln1_def mg1_def mn1_def split: if_splits)
qed auto

definition gids :: "ShardConfig \<Rightarrow> gid set" where
  "gids c = fst ` set (sc_Groups c)"

definition cfg_wf :: "ShardConfig \<Rightarrow> bool" where
  "cfg_wf c \<longleftrightarrow> length (sc_Shards c) = NShards \<and> distinct (map fst (sc_Groups c))"

lemma gids_finite [simp]: "finite (gids c)"
  by (simp add: gids_def)

lemma set_group_ids [simp]: "set (group_ids c) = gids c"
  by (auto simp: group_ids_def gids_def)

lemma map_of_gids: "map_of (sc_Groups c) g = None \<longleftrightarrow> g \<notin> gids c"
  by (simp add: map_of_eq_None_iff gids_def)

lemma count_bound: "length sh \<le> 256 \<Longrightarrow> load sh g < 257"
  using count_le_length [of sh g] by (simp add: load_def)

text \<open>\<open>analyze\<close> returns two groups of the configuration with the largest and the smallest load.\<close>

lemma analyze_spec:
  assumes "cfg_wf c" "sc_Groups c \<noteq> []"
  shows "\<exists>mg lg. analyze c = (mg, load (sc_Shards c) mg, lg, load (sc_Shards c) lg) \<and> mg \<in> gids c \<and> lg \<in> gids c
    \<and> (\<forall>g \<in> gids c. load (sc_Shards c) g \<le> load (sc_Shards c) mg \<and> load (sc_Shards c) lg \<le> load (sc_Shards c) g)"
proof -
  obtain mg mn lg ln where a: "analyze c = (mg, mn, lg, ln)" by (metis prod_cases4)
  note sp = analyze_loop_spec [OF a [unfolded analyze_def], unfolded set_group_ids]
  obtain g where g: "g \<in> gids c" using assms(2) by (cases "sc_Groups c") (auto simp: gids_def)
  have b: "0 \<le> load (sc_Shards c) g" "load (sc_Shards c) g < 257"
    using assms(1) count_bound [of "sc_Shards c" g] by (auto simp: load_def cfg_wf_def NShards_def)
  have "mg \<in> gids c \<and> mn = load (sc_Shards c) mg" using sp g b by force
  moreover have "lg \<in> gids c \<and> ln = load (sc_Shards c) lg" using sp g b by force
  ultimately show ?thesis using a sp by auto
qed

lemma least_in: "cfg_wf c \<Longrightarrow> sc_Groups c \<noteq> [] \<Longrightarrow> least c \<in> gids c"
  using analyze_spec by (fastforce simp: least_def)

section \<open>Moving one shard\<close>

lemma count_move:
  assumes "mg \<noteq> lg" "mg \<in> set sh"
  shows "load (move_first mg lg sh) g = (if g = mg then load sh g - 1 else if g = lg then load sh g + 1 else load sh g)"
  using assms by (induction sh) (auto simp: load_def)

lemma length_move [simp]: "length (move_first mg lg sh) = length sh"
  by (induction sh) auto

lemma set_move: "set (move_first mg lg sh) \<subseteq> insert lg (set sh)"
  by (induction sh) auto

definition assigned_all :: "ShardConfig \<Rightarrow> bool" where
  "assigned_all c \<longleftrightarrow> set (sc_Shards c) \<subseteq> gids c"

definition balanced :: "ShardConfig \<Rightarrow> bool" where
  "balanced c \<longleftrightarrow> (\<forall>g \<in> gids c. \<forall>h \<in> gids c. load (sc_Shards c) g \<le> load (sc_Shards c) h + 1)"

definition potential :: "ShardConfig \<Rightarrow> nat" where
  "potential c = (\<Sum>g \<in> gids c. (count_list (sc_Shards c) g)\<^sup>2)"

text \<open>Moving a shard from a group with at least two more shards than another lowers the sum of the squares of the
  loads.\<close>

lemma square_move: "(b :: nat) + 2 \<le> a \<Longrightarrow> (a - 1)\<^sup>2 + (b + 1)\<^sup>2 < a\<^sup>2 + b\<^sup>2"
proof -
  assume "b + 2 \<le> a"
  then obtain k where "a = b + 2 + k" by (auto simp: le_iff_add)
  then show ?thesis by (simp add: power2_eq_square algebra_simps)
qed

lemma potential_move:
  assumes g: "mg \<in> gids c" "lg \<in> gids c" and d: "load (sc_Shards c) lg + 2 \<le> load (sc_Shards c) mg"
  shows "potential (c\<lparr>sc_Shards := move_first mg lg (sc_Shards c)\<rparr>) < potential c"
proof -
  let ?sh = "sc_Shards c" and ?sh' = "move_first mg lg (sc_Shards c)"
  have ne: "mg \<noteq> lg" "mg \<in> set ?sh" using d by (auto simp: load_def intro: ccontr)
  have cl: "count_list ?sh' g = (if g = mg then count_list ?sh g - 1 else if g = lg then count_list ?sh g + 1 else count_list ?sh g)" for g
    using count_move [OF ne, of g] d by (auto simp: load_def split: if_splits)
  have G: "gids (c\<lparr>sc_Shards := ?sh'\<rparr>) = gids c" by (simp add: gids_def)
  have split: "(\<Sum>g \<in> gids c. f g) = f mg + f lg + (\<Sum>g \<in> gids c - {mg, lg}. f g)" for f :: "gid \<Rightarrow> nat"
  proof -
    have "gids c = insert mg (insert lg (gids c - {mg, lg}))" using g by auto
    then have "(\<Sum>g \<in> gids c. f g) = (\<Sum>g \<in> insert mg (insert lg (gids c - {mg, lg})). f g)" by simp
    then show ?thesis using ne by simp
  qed
  have "(count_list ?sh mg - 1)\<^sup>2 + (count_list ?sh lg + 1)\<^sup>2 < (count_list ?sh mg)\<^sup>2 + (count_list ?sh lg)\<^sup>2"
    by (rule square_move) (use d in \<open>simp add: load_def\<close>)
  moreover have "(\<Sum>g \<in> gids c - {mg, lg}. (count_list ?sh' g)\<^sup>2) = (\<Sum>g \<in> gids c - {mg, lg}. (count_list ?sh g)\<^sup>2)"
    by (rule sum.cong) (auto simp: cl)
  ultimately show ?thesis unfolding potential_def G split using ne by (simp add: cl)
qed

section \<open>The loops of Rebalance\<close>

lemma move_loop_result:
  assumes "cfg_wf c" "sc_Groups c \<noteq> []" "assigned_all c"
  shows "\<exists>c'. move_loop c = Some c' \<and> cfg_wf c' \<and> assigned_all c' \<and> balanced c'
    \<and> sc_Groups c' = sc_Groups c \<and> sc_Num c' = sc_Num c"
  using assms
proof (induction "potential c" arbitrary: c rule: less_induct)
  case less
  from analyze_spec [OF less.prems(1,2)] obtain mg lg where a: "analyze c = (mg, load (sc_Shards c) mg, lg, load (sc_Shards c) lg)"
    "mg \<in> gids c" "lg \<in> gids c"
    "\<forall>g \<in> gids c. load (sc_Shards c) g \<le> load (sc_Shards c) mg \<and> load (sc_Shards c) lg \<le> load (sc_Shards c) g" by blast
  show ?case
  proof (cases "load (sc_Shards c) mg < load (sc_Shards c) lg + 2")
    case True
    then have "move_loop c = Some c" using a(1) by (subst move_loop.simps) simp
    moreover have "balanced c" unfolding balanced_def
    proof (intro ballI)
      fix g h assume "g \<in> gids c" "h \<in> gids c"
      with a(4) have "load (sc_Shards c) g \<le> load (sc_Shards c) mg" "load (sc_Shards c) lg \<le> load (sc_Shards c) h" by blast+
      with True show "load (sc_Shards c) g \<le> load (sc_Shards c) h + 1" by linarith
    qed
    ultimately show ?thesis using less.prems by auto
  next
    case False
    let ?c = "c\<lparr>sc_Shards := move_first mg lg (sc_Shards c)\<rparr>"
    have "move_loop c = move_loop ?c" using a(1) False by (subst move_loop.simps) simp
    moreover have "potential ?c < potential c" using potential_move [OF a(2,3)] False by simp
    moreover have "cfg_wf ?c" "sc_Groups ?c \<noteq> []" using less.prems by (auto simp: cfg_wf_def)
    moreover have "assigned_all ?c"
      using less.prems(3) a(3) set_move [of mg lg "sc_Shards c"] by (auto simp: assigned_all_def gids_def)
    ultimately show ?thesis using less.hyps [of ?c] by simp
  qed
qed

lemma assign_loop_result:
  assumes "cfg_wf c" "sc_Groups c \<noteq> []"
  shows "cfg_wf (assign_loop ss c) \<and> sc_Groups (assign_loop ss c) = sc_Groups c \<and> sc_Num (assign_loop ss c) = sc_Num c
    \<and> (\<forall>i < NShards. sc_Shards c ! i \<in> gids c \<longrightarrow> sc_Shards (assign_loop ss c) ! i = sc_Shards c ! i)
    \<and> (\<forall>i < NShards. i \<in> set ss \<longrightarrow> sc_Shards (assign_loop ss c) ! i \<in> gids c)"
  using assms
proof (induction ss arbitrary: c)
  case (Cons s ss)
  define c1 where "c1 = (if map_of (sc_Groups c) (sc_Shards c ! s) = None
        then c\<lparr>sc_Shards := (sc_Shards c)[s := least c]\<rparr> else c)"
  have c1: "cfg_wf c1" "sc_Groups c1 = sc_Groups c" "sc_Num c1 = sc_Num c" "gids c1 = gids c"
    using Cons.prems by (auto simp: c1_def cfg_wf_def gids_def)
  have keep: "sc_Shards c1 ! i = sc_Shards c ! i" if "sc_Shards c ! i \<in> gids c" for i
    using that by (cases "i = s") (auto simp: c1_def map_of_gids)
  have new: "s < NShards \<Longrightarrow> sc_Shards c1 ! s \<in> gids c"
    using least_in [OF Cons.prems] Cons.prems(1) by (auto simp: c1_def map_of_gids cfg_wf_def)
  from Cons.IH [of c1] c1 Cons.prems(2) have ih: "cfg_wf (assign_loop ss c1)" "sc_Groups (assign_loop ss c1) = sc_Groups c"
    "sc_Num (assign_loop ss c1) = sc_Num c"
    "\<forall>i < NShards. sc_Shards c1 ! i \<in> gids c \<longrightarrow> sc_Shards (assign_loop ss c1) ! i = sc_Shards c1 ! i"
    "\<forall>i < NShards. i \<in> set ss \<longrightarrow> sc_Shards (assign_loop ss c1) ! i \<in> gids c" by auto
  have "assign_loop (s # ss) c = assign_loop ss c1" by (simp add: c1_def)
  then show ?case using ih keep new by (metis set_ConsD)
qed simp

section \<open>Rebalance\<close>

lemma Rebalance_result:
  assumes wf: "cfg_wf c"
  shows "\<exists>c'. Rebalance c = Some c' \<and> cfg_wf c' \<and> sc_Groups c' = sc_Groups c \<and> sc_Num c' = sc_Num c
    \<and> (if sc_Groups c = [] then sc_Shards c' = replicate NShards 0 else assigned_all c' \<and> balanced c')"
proof (cases "sc_Groups c = []")
  case True
  then show ?thesis using wf by (auto simp: Rebalance_def cfg_wf_def map_replicate_const)
next
  case False
  let ?c1 = "assign_loop [0..<length (sc_Shards c)] c"
  note a = assign_loop_result [OF wf False, of "[0..<length (sc_Shards c)]"]
  have l: "length (sc_Shards c) = NShards" "length (sc_Shards ?c1) = NShards" using wf a by (auto simp: cfg_wf_def)
  have "gids ?c1 = gids c" using a by (simp add: gids_def)
  then have "assigned_all ?c1" using a l by (auto simp: assigned_all_def in_set_conv_nth)
  with move_loop_result [of ?c1] a False obtain c' where "move_loop ?c1 = Some c'" "cfg_wf c'" "assigned_all c'" "balanced c'"
    "sc_Groups c' = sc_Groups c" "sc_Num c' = sc_Num c" by auto
  then show ?thesis using False by (auto simp: Rebalance_def Suc_le_eq)
qed

text \<open>C14: rebalancing always ends. It keeps the groups and the configuration number; with no groups every shard becomes
  unassigned, otherwise every shard belongs to a group of the configuration and the loads of any two groups differ by
  at most one.\<close>

theorem Rebalance_spec:
  assumes wf: "cfg_wf c"
  shows "\<exists>c'. Rebalance c = Some c' \<and> cfg_wf c' \<and> sc_Groups c' = sc_Groups c \<and> sc_Num c' = sc_Num c
    \<and> (if sc_Groups c = [] then sc_Shards c' = replicate NShards 0 else assigned_all c' \<and> balanced c')"
  by (rule Rebalance_result [OF assms])

definition demo_cfg :: ShardConfig where
  "demo_cfg = \<lparr>sc_Num = 3, sc_Shards = [1, 1, 1, 1, 1, 1, 1, 2, 2, 9, 0, 0], sc_Groups = [(2, [''b'']), (1, [''a''])]\<rparr>"

lemma demo_cfg_wf: "cfg_wf demo_cfg"
  by (simp add: demo_cfg_def cfg_wf_def NShards_def)

theorem Rebalance_spec_witness:
  "\<exists>c'. Rebalance demo_cfg = Some c' \<and> assigned_all c' \<and> balanced c'"
  using Rebalance_spec [OF demo_cfg_wf] by (auto simp: demo_cfg_def)

text \<open>A configuration that is already assigned and balanced is not touched: rebalancing moves no shard without
  need, and doing it twice is the same as doing it once.\<close>

theorem Rebalance_stable:
  assumes wf: "cfg_wf c" and ne: "sc_Groups c \<noteq> []" and ok: "assigned_all c" "balanced c"
  shows "Rebalance c = Some c"
proof -
  have "\<forall>s \<in> set ss. s < NShards \<Longrightarrow> assign_loop ss c = c" for ss
    using ok(1) wf by (induction ss) (auto simp: map_of_gids assigned_all_def cfg_wf_def dest!: subsetD)
  then have a: "assign_loop [0..<length (sc_Shards c)] c = c" using wf by (simp add: cfg_wf_def)
  from analyze_spec [OF wf ne] obtain mg lg where m: "analyze c = (mg, load (sc_Shards c) mg, lg, load (sc_Shards c) lg)"
    "mg \<in> gids c" "lg \<in> gids c" by blast
  have "load (sc_Shards c) mg \<le> load (sc_Shards c) lg + 1" using ok(2) m(2,3) unfolding balanced_def by blast
  then have "move_loop c = Some c" using m(1) by (subst move_loop.simps) simp
  then show ?thesis using ne a by (cases "sc_Groups c") (auto simp: Rebalance_def)
qed

theorem Rebalance_stable_witness:
  "Rebalance (demo_cfg\<lparr>sc_Shards := [1, 1, 1, 1, 1, 1, 2, 2, 2, 2, 2, 2]\<rparr>) = Some (demo_cfg\<lparr>sc_Shards := [1, 1, 1, 1, 1, 1, 2, 2, 2, 2, 2, 2]\<rparr>)"
  by (rule Rebalance_stable) (auto simp: demo_cfg_def cfg_wf_def NShards_def assigned_all_def balanced_def gids_def load_def)

section \<open>The check of the tests\<close>

lemma load_range_spec:
  "load_range sh gs (mi, mx) = (mi', mx') \<Longrightarrow>
     mi' \<le> mi \<and> (\<forall>g \<in> set gs. mi' \<le> load sh g) \<and> (mi' = mi \<or> (\<exists>g \<in> set gs. mi' = load sh g))
     \<and> (mx' = mx \<or> (\<exists>g \<in> set gs. mx' = load sh g))"
proof (induction gs arbitrary: mi mx)
  case (Cons g gs)
  from Cons.IH [of "if load sh g < mi then load sh g else mi" "if load sh g > mx then load sh g else mx"] Cons.prems
  show ?case by (auto split: if_splits)
qed auto

lemma CheckConfig_ok:
  assumes wf: "cfg_wf c" and ok: "sc_Groups c = [] \<or> assigned_all c \<and> balanced c" and gs: "distinct gs" "set gs = gids c"
  shows "CheckConfig c gs = Inr ()"
proof -
  have "card (gids c) = length gs" using distinct_card [OF gs(1)] gs(2) by simp
  moreover have "card (gids c) = length (sc_Groups c)"
    using distinct_card [of "map fst (sc_Groups c)"] wf by (simp add: cfg_wf_def gids_def)
  ultimately have len: "length (sc_Groups c) = length gs" by simp
  have known: "\<not> list_ex (\<lambda>g. map_of (sc_Groups c) g = None) gs" using gs by (auto simp: list_ex_iff map_of_gids)
  have sh: "\<not> (gs \<noteq> [] \<and> list_ex (\<lambda>g. map_of (sc_Groups c) g = None) (sc_Shards c))"
    using ok len by (auto simp: list_ex_iff map_of_gids assigned_all_def)
  obtain mi mx where r: "load_range (sc_Shards c) (map fst (sc_Groups c)) (257, 0) = (mi, mx)" by fastforce
  note sp = load_range_spec [OF r]
  have G: "set (map fst (sc_Groups c)) = gids c" by (simp add: gids_def)
  have nn: "0 \<le> load (sc_Shards c) g" for g by (simp add: load_def)
  have "\<not> mx > mi + 1"
  proof (cases "sc_Groups c = []")
    case True
    then show ?thesis using r by simp
  next
    case False
    obtain g0 where g0: "g0 \<in> gids c" using False by (cases "sc_Groups c") (auto simp: gids_def)
    have "load (sc_Shards c) g0 < 257" using wf count_bound [of "sc_Shards c" g0] by (simp add: cfg_wf_def NShards_def)
    moreover have "mi \<le> load (sc_Shards c) g0" using sp g0 unfolding G by blast
    ultimately have "mi \<noteq> 257" by simp
    then obtain g where g: "g \<in> gids c" "mi = load (sc_Shards c) g" using sp unfolding G by blast
    show ?thesis
    proof (cases "mx = 0")
      case True
      then show ?thesis using g nn [of g] by simp
    next
      case False
      then obtain h where "h \<in> gids c" "mx = load (sc_Shards c) h" using sp unfolding G by blast
      moreover have "load (sc_Shards c) h \<le> load (sc_Shards c) g + 1"
        using ok \<open>sc_Groups c \<noteq> []\<close> g calculation(1) unfolding balanced_def by blast
      ultimately show ?thesis using g(2) by simp
    qed
  qed
  then show ?thesis using len known sh r by (simp add: CheckConfig_def)
qed

section \<open>Joining and leaving\<close>

lemma join_loop_result:
  assumes "distinct (map fst js)" "fst ` set js \<inter> gids c = {}" "distinct (concat (map snd (sc_Groups c @ js)))" "cfg_wf c"
  shows "\<exists>c'. join_loop js c = Inr (c', True) \<and> cfg_wf c' \<and> sc_Groups c' = sc_Groups c @ js \<and> sc_Num c' = sc_Num c \<and> sc_Shards c' = sc_Shards c"
  using assms
proof (induction js arbitrary: c)
  case (Cons j js)
  obtain g srvs where j: "j = (g, srvs)" by (cases j)
  let ?c = "c\<lparr>sc_Groups := sc_Groups c @ [(g, srvs)]\<rparr>"
  have "g \<notin> gids c" using Cons.prems(2) j by auto
  moreover have "\<not> shares_server (sc_Groups c) srvs" using Cons.prems(3) j by (fastforce simp: shares_server_def)
  moreover have "\<exists>c'. join_loop js ?c = Inr (c', True) \<and> cfg_wf c' \<and> sc_Groups c' = sc_Groups ?c @ js \<and> sc_Num c' = sc_Num ?c \<and> sc_Shards c' = sc_Shards ?c"
  proof (rule Cons.IH)
    show "fst ` set js \<inter> gids ?c = {}" using Cons.prems(1,2) j by (auto simp: gids_def image_iff)
    show "cfg_wf ?c" using Cons.prems(4) \<open>g \<notin> gids c\<close> by (auto simp: cfg_wf_def gids_def)
  qed (use Cons.prems j in auto)
  ultimately show ?case using j by (auto simp: map_of_gids)
qed simp

lemma leave_loop_result:
  assumes "distinct gs" "set gs \<subseteq> gids c" "cfg_wf c"
  shows "\<exists>c'. leave_loop gs c = (c', True) \<and> cfg_wf c' \<and> gids c' = gids c - set gs \<and> sc_Num c' = sc_Num c \<and> sc_Shards c' = sc_Shards c"
  using assms
proof (induction gs arbitrary: c)
  case (Cons g gs)
  let ?c = "c\<lparr>sc_Groups := filter (\<lambda>(k, _). k \<noteq> g) (sc_Groups c)\<rparr>"
  have G: "gids ?c = gids c - {g}" by (force simp: gids_def)
  have "\<exists>c'. leave_loop gs ?c = (c', True) \<and> cfg_wf c' \<and> gids c' = gids ?c - set gs \<and> sc_Num c' = sc_Num ?c \<and> sc_Shards c' = sc_Shards ?c"
  proof (rule Cons.IH)
    show "cfg_wf ?c" using Cons.prems(3) by (auto simp: cfg_wf_def intro: distinct_map_filter)
  qed (use Cons.prems G in auto)
  then show ?case using Cons.prems(2) G by (auto simp: map_of_gids)
qed simp

lemma Rebalance_checked:
  assumes "cfg_wf c"
  shows "\<exists>c'. Rebalance c = Some c' \<and> cfg_wf c' \<and> gids c' = gids c \<and> sc_Num c' = sc_Num c
    \<and> (\<forall>gs. distinct gs \<and> set gs = gids c \<longrightarrow> CheckConfig c' gs = Inr ())"
proof -
  from Rebalance_result [OF assms] obtain c' where c': "Rebalance c = Some c'" "cfg_wf c'" "sc_Groups c' = sc_Groups c" "sc_Num c' = sc_Num c"
    "if sc_Groups c = [] then sc_Shards c' = replicate NShards 0 else assigned_all c' \<and> balanced c'" by blast
  have G: "gids c' = gids c" using c'(3) by (simp add: gids_def)
  have "sc_Groups c' = [] \<or> assigned_all c' \<and> balanced c'" using c'(3,5) by (auto split: if_splits)
  then show ?thesis using c' G CheckConfig_ok [OF c'(2)] by auto
qed

text \<open>Joining new groups with servers of their own, and letting groups of the configuration leave, always succeeds:
  the call returns, the configuration number grows by one, the groups are the expected ones, and the new
  configuration passes the check of the tests for exactly those groups.\<close>

theorem join_leave_checked:
  assumes wf: "cfg_wf cfg"
    and new: "servers \<noteq> []" "distinct (map fst servers)" "fst ` set servers \<inter> gids cfg = {}"
      "distinct (concat (map snd (sc_Groups cfg @ servers)))"
    and old: "gone \<noteq> []" "distinct gone" "set gone \<subseteq> gids cfg"
  shows "(\<exists>c1. JoinBalance servers cfg = Inr (Some (c1, True)) \<and> cfg_wf c1 \<and> sc_Num c1 = sc_Num cfg + 1
      \<and> (\<forall>gs. distinct gs \<and> set gs = gids cfg \<union> fst ` set servers \<longrightarrow> CheckConfig c1 gs = Inr ()))
    \<and> (\<exists>c2. LeaveBalance gone cfg = Inr (Some (c2, True)) \<and> cfg_wf c2 \<and> sc_Num c2 = sc_Num cfg + 1
      \<and> (\<forall>gs. distinct gs \<and> set gs = gids cfg - set gone \<longrightarrow> CheckConfig c2 gs = Inr ()))"
proof
  have inc: "cfg_wf (c\<lparr>sc_Num := k\<rparr>) = cfg_wf c" "gids (c\<lparr>sc_Num := k\<rparr>) = gids c" for c k by (simp_all add: cfg_wf_def gids_def)
  from join_loop_result [OF new(2-4) wf] obtain c' where c': "join_loop servers cfg = Inr (c', True)" "cfg_wf c'"
    "sc_Groups c' = sc_Groups cfg @ servers" "sc_Num c' = sc_Num cfg" by blast
  have G: "gids c' = gids cfg \<union> fst ` set servers" using c'(3) by (auto simp: gids_def)
  from Rebalance_checked [of "c'\<lparr>sc_Num := sc_Num c' + 1\<rparr>"] c' G new(1)
  show "\<exists>c1. JoinBalance servers cfg = Inr (Some (c1, True)) \<and> cfg_wf c1 \<and> sc_Num c1 = sc_Num cfg + 1
      \<and> (\<forall>gs. distinct gs \<and> set gs = gids cfg \<union> fst ` set servers \<longrightarrow> CheckConfig c1 gs = Inr ())"
    by (auto simp: JoinBalance_def Join_def inc)
  from leave_loop_result [OF old(2,3) wf] obtain d where d: "leave_loop gone cfg = (d, True)" "cfg_wf d" "gids d = gids cfg - set gone"
    "sc_Num d = sc_Num cfg" by blast
  from Rebalance_checked [of "d\<lparr>sc_Num := sc_Num d + 1\<rparr>"] d old(1)
  show "\<exists>c2. LeaveBalance gone cfg = Inr (Some (c2, True)) \<and> cfg_wf c2 \<and> sc_Num c2 = sc_Num cfg + 1
      \<and> (\<forall>gs. distinct gs \<and> set gs = gids cfg - set gone \<longrightarrow> CheckConfig c2 gs = Inr ())"
    by (auto simp: LeaveBalance_def Leave_def inc)
qed

theorem join_leave_checked_witness:
  "\<exists>c1. JoinBalance [(5, [''x'', ''y''])] demo_cfg = Inr (Some (c1, True)) \<and> CheckConfig c1 [1, 2, 5] = Inr ()"
proof -
  have g: "gids demo_cfg = {1, 2}" by (auto simp: gids_def demo_cfg_def)
  have "\<exists>c1. JoinBalance [(5, [''x'', ''y''])] demo_cfg = Inr (Some (c1, True)) \<and> cfg_wf c1 \<and> sc_Num c1 = sc_Num demo_cfg + 1
      \<and> (\<forall>gs. distinct gs \<and> set gs = gids demo_cfg \<union> fst ` set [(5, [''x'', ''y''])] \<longrightarrow> CheckConfig c1 gs = Inr ())"
    by (rule conjunct1 [OF join_leave_checked [OF demo_cfg_wf, of _ "[1]"]]) (auto simp: g, auto simp: demo_cfg_def)
  moreover have "set [1, 2, 5] = gids demo_cfg \<union> fst ` set [(5, [''x'', ''y''])]" "distinct [1, 2, 5 :: int]" using g by auto
  ultimately show ?thesis by blast
qed

text \<open>C33: a call that fails half-way leaves its mark. When the groups of a \<open>Join\<close> are visited in an order in which a new
  group comes before one that is already there, \<open>Join\<close> answers false, yet the new group is in the configuration
  while its number is unchanged; \<open>Leave\<close> with a known group before an unknown one removes the known group in the same
  way.\<close>

theorem failed_join_leave_mutates:
  assumes j: "map_of (sc_Groups cfg) g = None" "\<not> shares_server (sc_Groups cfg) srvs" "map_of (sc_Groups cfg) h = Some hs"
    and l: "map_of (sc_Groups cfg) k = None"
  shows "Join [(g, srvs), (h, hs')] cfg = Inr (cfg\<lparr>sc_Groups := sc_Groups cfg @ [(g, srvs)]\<rparr>, False)
    \<and> Leave [h, k] cfg = Inr (cfg\<lparr>sc_Groups := filter (\<lambda>(x, _). x \<noteq> h) (sc_Groups cfg)\<rparr>, False)"
proof
  have "map_of (sc_Groups cfg @ [(g, srvs)]) h \<noteq> None" using j(3) by (simp add: map_add_Some_iff)
  then show "Join [(g, srvs), (h, hs')] cfg = Inr (cfg\<lparr>sc_Groups := sc_Groups cfg @ [(g, srvs)]\<rparr>, False)"
    using j by (simp add: Join_def)
  have "map_of (filter (\<lambda>(x, _). x \<noteq> h) (sc_Groups cfg)) k = None" using l by (auto simp: map_of_eq_None_iff)
  then show "Leave [h, k] cfg = Inr (cfg\<lparr>sc_Groups := filter (\<lambda>(x, _). x \<noteq> h) (sc_Groups cfg)\<rparr>, False)"
    using j(3) by (simp add: Leave_def)
qed

theorem failed_join_leave_mutates_witness:
  "Join [(7, [''z'']), (1, [])] demo_cfg = Inr (demo_cfg\<lparr>sc_Groups := sc_Groups demo_cfg @ [(7, [''z''])]\<rparr>, False)"
  using failed_join_leave_mutates [of demo_cfg 7 "[''z'']" 1 "[''a'']" 8 "[]"]
  by (simp add: demo_cfg_def shares_server_def)

section \<open>Queries\<close>

text \<open>\<open>Key2Shard\<close> is a shard number, \<open>GidServers\<close> of it never panics, and in a configuration that passed
  \<open>Rebalance\<close> with at least one group it finds the servers of the group.\<close>

theorem Key2Shard_served:
  assumes wf: "cfg_wf c" "sc_Groups c \<noteq> []" and r: "Rebalance c = Some c'"
  shows "Key2Shard key < NShards
    \<and> (\<exists>gid srvs. GidServers c' (Key2Shard key) = Inr (gid, srvs, True) \<and> IsMember c' gid \<and> (gid, srvs) \<in> set (sc_Groups c))"
proof
  show k: "Key2Shard key < NShards" by (simp add: Key2Shard_def NShards_def)
  from Rebalance_result [OF wf(1)] r wf(2) have c': "cfg_wf c'" "assigned_all c'" "sc_Groups c' = sc_Groups c" by auto
  let ?g = "sc_Shards c' ! Key2Shard key"
  have i: "idx_ok (sc_Shards c') (int (Key2Shard key))" using c'(1) k by (simp add: cfg_wf_def)
  have m: "?g \<in> set (sc_Shards c')" using i by simp
  then have "map_of (sc_Groups c') ?g \<noteq> None" using c'(2) by (auto simp: map_of_gids assigned_all_def)
  then obtain srvs where s: "map_of (sc_Groups c') ?g = Some srvs" by blast
  then show "\<exists>gid srvs. GidServers c' (Key2Shard key) = Inr (gid, srvs, True) \<and> IsMember c' gid \<and> (gid, srvs) \<in> set (sc_Groups c)"
    using i m c'(3) map_of_SomeD [OF s] by (auto simp: GidServers_def slice_get_in IsMember_def list_ex_iff)
qed

theorem Key2Shard_served_witness:
  "\<exists>c' gid srvs. Rebalance demo_cfg = Some c' \<and> GidServers c' (Key2Shard ''a'') = Inr (gid, srvs, True) \<and> IsMember c' gid"
proof -
  obtain c' where c': "Rebalance demo_cfg = Some c'" using Rebalance_result [OF demo_cfg_wf] by blast
  have "sc_Groups demo_cfg \<noteq> []" by (simp add: demo_cfg_def)
  from Key2Shard_served [OF demo_cfg_wf this c', of "''a''"] c' show ?thesis by blast
qed

lemma copy_groups_id: "copy_groups gs acc = acc @ gs"
  by (induction gs acc rule: copy_groups.induct) auto

text \<open>A copy of a configuration equals it, and a configuration written as a string is read back unchanged, if the JSON
  library reads back what it wrote for this configuration.\<close>

theorem config_roundtrip:
  assumes json: "marshal cfg = Some s" "unmarshal s = Some cfg"
  shows "cfg_Copy cfg = cfg \<and> rbind (cfg_String marshal cfg) (FromString unmarshal) = Inr cfg"
  using json by (cases cfg) (simp add: cfg_Copy_def copy_groups_id MakeShardConfig_def cfg_String_def FromString_def)

theorem config_roundtrip_witness:
  "rbind (cfg_String (\<lambda>c. Some (if c = demo_cfg then ''d'' else ''e'')) demo_cfg) (FromString (\<lambda>s. if s = ''d'' then Some demo_cfg else None)) = Inr demo_cfg"
  using config_roundtrip [of "\<lambda>c. Some (if c = demo_cfg then ''d'' else ''e'')" demo_cfg "''d''" "\<lambda>s. if s = ''d'' then Some demo_cfg else None"] by simp

end
