(* ===== verification/Labrpc.thy ===== *)
theory Labrpc
  imports Persister
begin

text \<open>
  The simulated network, \<open>src/src/labrpc/labrpc.go\<close>: servers and services with their dispatchers, client end-points,
  the switches of the network, and the life of one request in \<open>processReq\<close>. A server is an address; the heap
  holds what the server points to, with the state \<open>'s\<close> its handlers share. \<open>rand\<close> results are arguments.
\<close>

section \<open>Messages\<close>

definition SHORTDELAY :: int where "SHORTDELAY = 27"
definition LONGDELAY :: int where "LONGDELAY = 7000"
definition MAXDELAY :: int where "MAXDELAY = LONGDELAY + 100"

record reqMsg =
  rq_endname :: string
  rq_svcMeth :: string
  rq_args :: bytes

record replyMsg =
  rm_ok :: bool
  rm_reply :: bytes

text \<open>The codec of \<open>labgob\<close> is a parameter; a value it cannot write or bytes it cannot read end the process.\<close>

definition Marshall :: "('a \<Rightarrow> bytes option) \<Rightarrow> 'a \<Rightarrow> bytes res" where
  "Marshall enc a = (case enc a of None \<Rightarrow> Inl (LogFatal ''Marshall fatal'') | Some b \<Rightarrow> Inr b)"

definition Unmarshall :: "(bytes \<Rightarrow> 'a option) \<Rightarrow> bytes \<Rightarrow> 'a res" where
  "Unmarshall dec b = (case dec b of None \<Rightarrow> Inl (LogFatal ''Unmarshall fatal'') | Some a \<Rightarrow> Inr a)"

section \<open>Services and servers\<close>

text \<open>A handler with its decoding and encoding: argument bytes and state to state and reply bytes.\<close>

type_synonym 's handler = "bytes \<Rightarrow> 's \<Rightarrow> ('s \<times> bytes) res"

record 's Service =
  svc_name :: string
  svc_methods :: "(string \<times> 's handler) list"

text \<open>What reflection shows of a method: its name, whether it is exported, its parameters with the receiver, whether the
  second is a pointer, and its results.\<close>

record 's rmethod =
  mt_name :: string
  mt_exported :: bool
  mt_numIn :: nat
  mt_replyPtr :: bool
  mt_numOut :: nat
  mt_func :: "'s handler"

fun MakeService_loop :: "'s rmethod list \<Rightarrow> (string \<times> 's handler) list \<Rightarrow> (string \<times> 's handler) list" where
  "MakeService_loop [] ms = ms"
| "MakeService_loop (m # rest) ms =
     MakeService_loop rest
       (if \<not> mt_exported m \<or> mt_numIn m \<noteq> 3 \<or> \<not> mt_replyPtr m \<or> mt_numOut m \<noteq> 0 then ms
        else (mt_name m, mt_func m) # ms)"

definition MakeService :: "string \<Rightarrow> 's rmethod list \<Rightarrow> 's Service" where
  "MakeService name ms = \<lparr>svc_name = name, svc_methods = MakeService_loop ms []\<rparr>"

text \<open>The handler a typed method amounts to: decode the argument, call, encode the reply.\<close>

definition typed_handler :: "(bytes \<Rightarrow> 'a option) \<Rightarrow> ('r \<Rightarrow> bytes option) \<Rightarrow> ('a \<Rightarrow> 's \<Rightarrow> 's \<times> 'r) \<Rightarrow> 's handler" where
  "typed_handler dec enc f b s =
     rbind (Unmarshall dec b) (\<lambda>a. case f a s of (s', r) \<Rightarrow>
     Inr (s', case enc r of None \<Rightarrow> [] | Some rb \<Rightarrow> rb))"

definition svc_dispatch :: "'s Service \<Rightarrow> string \<Rightarrow> reqMsg \<Rightarrow> 's \<Rightarrow> ('s \<times> replyMsg) res" where
  "svc_dispatch svc methname req s =
     (case map_of (svc_methods svc) methname of
        Some h \<Rightarrow> rbind (h (rq_args req) s) (\<lambda>(s', rep). Inr (s', \<lparr>rm_ok = True, rm_reply = rep\<rparr>))
      | None \<Rightarrow> Inl (LogFatal ''unknown method''))"

record 's Server =
  sv_services :: "(string \<times> 's Service) list"
  sv_count :: int
  sv_dispatchf :: "(string \<Rightarrow> bytes \<Rightarrow> bytes \<times> bool) option"
  sv_state :: 's

definition MakeServer :: "'s \<Rightarrow> 's Server" where
  "MakeServer st = \<lparr>sv_services = [], sv_count = 0, sv_dispatchf = None, sv_state = st\<rparr>"

definition SetDispatch :: "(string \<Rightarrow> bytes \<Rightarrow> bytes \<times> bool) \<Rightarrow> 's Server \<Rightarrow> 's Server" where
  "SetDispatch f rs = rs\<lparr>sv_dispatchf := Some f\<rparr>"

definition AddService :: "'s Service \<Rightarrow> 's Server \<Rightarrow> 's Server" where
  "AddService svc rs = rs\<lparr>sv_services := (svc_name svc, svc) # sv_services rs\<rparr>"

text \<open>\<open>strings.LastIndex(s, \".\")\<close>: \<open>None\<close> is -1.\<close>

fun last_dot :: "string \<Rightarrow> nat option" where
  "last_dot [] = None"
| "last_dot (c # cs) = (case last_dot cs of Some i \<Rightarrow> Some (Suc i) | None \<Rightarrow> if c = CHR ''.'' then Some 0 else None)"

definition sv_dispatch :: "'s Server \<Rightarrow> reqMsg \<Rightarrow> ('s Server \<times> replyMsg) res" where
  "sv_dispatch rs req =
     (let rs1 = rs\<lparr>sv_count := sv_count rs + 1\<rparr> in
      case last_dot (rq_svcMeth req) of
        None \<Rightarrow> Inl SliceBounds
      | Some dot \<Rightarrow>
          let serviceName = take dot (rq_svcMeth req); methodName = drop (dot + 1) (rq_svcMeth req) in
          case sv_dispatchf rs1 of
            Some f \<Rightarrow> (case f (rq_svcMeth req) (rq_args req) of (rep, ok) \<Rightarrow> Inr (rs1, \<lparr>rm_ok = ok, rm_reply = rep\<rparr>))
          | None \<Rightarrow>
              (case map_of (sv_services rs1) serviceName of
                 Some svc \<Rightarrow> rbind (svc_dispatch svc methodName req (sv_state rs1)) (\<lambda>(s', rep).
                   Inr (rs1\<lparr>sv_state := s'\<rparr>, rep))
               | None \<Rightarrow> Inl (LogFatal ''unknown service'')))"

definition Dispatch :: "'s Server \<Rightarrow> string \<Rightarrow> string \<Rightarrow> bytes \<Rightarrow> ('s Server \<times> bytes \<times> bool) res" where
  "Dispatch rs svcMeth clnt args =
     rbind (sv_dispatch rs \<lparr>rq_endname = clnt, rq_svcMeth = svcMeth, rq_args = args\<rparr>) (\<lambda>(rs', rep).
     Inr (rs', rm_reply rep, rm_ok rep))"

section \<open>The network\<close>

text \<open>The zero values of the Go maps make lookups total: an unknown end is disabled and connected to nothing, an unknown
  server is nil. The counters wrap at their widths.\<close>

record 's Network =
  nt_reliable :: bool
  nt_longDelays :: bool
  nt_longReordering :: bool
  nt_ends :: "string set"
  nt_enabled :: "string \<Rightarrow> bool"
  nt_servers :: "string \<Rightarrow> nat option"
  nt_connections :: "string \<Rightarrow> string option"
  nt_done :: bool
  nt_count :: "32 word"
  nt_bytes :: "64 word"
  nt_heap :: "nat \<Rightarrow> 's Server"

definition MakeNetwork :: "(nat \<Rightarrow> 's Server) \<Rightarrow> 's Network" where
  "MakeNetwork h = \<lparr>nt_reliable = True, nt_longDelays = False, nt_longReordering = False, nt_ends = {},
     nt_enabled = (\<lambda>_. False), nt_servers = (\<lambda>_. None), nt_connections = (\<lambda>_. None), nt_done = False,
     nt_count = 0, nt_bytes = 0, nt_heap = h\<rparr>"

definition Cleanup :: "'s Network \<Rightarrow> 's Network" where
  "Cleanup rn = rn\<lparr>nt_done := True\<rparr>"

definition Reliable :: "bool \<Rightarrow> 's Network \<Rightarrow> 's Network" where
  "Reliable yes rn = rn\<lparr>nt_reliable := yes\<rparr>"

definition IsReliable :: "'s Network \<Rightarrow> bool" where
  "IsReliable rn = nt_reliable rn"

definition LongReordering :: "bool \<Rightarrow> 's Network \<Rightarrow> 's Network" where
  "LongReordering yes rn = rn\<lparr>nt_longReordering := yes\<rparr>"

definition LongDelays :: "bool \<Rightarrow> 's Network \<Rightarrow> 's Network" where
  "LongDelays yes rn = rn\<lparr>nt_longDelays := yes\<rparr>"

definition IsLongDelays :: "'s Network \<Rightarrow> bool" where
  "IsLongDelays rn = nt_longDelays rn"

definition readEndnameInfo :: "'s Network \<Rightarrow> string \<Rightarrow> bool \<times> string option \<times> nat option \<times> bool \<times> bool" where
  "readEndnameInfo rn endname =
     (nt_enabled rn endname, nt_connections rn endname,
      (case nt_connections rn endname of None \<Rightarrow> None | Some servername \<Rightarrow> nt_servers rn servername),
      nt_reliable rn, nt_longReordering rn)"

definition isServerDead :: "'s Network \<Rightarrow> string \<Rightarrow> string \<Rightarrow> nat \<Rightarrow> bool" where
  "isServerDead rn endname servername server \<longleftrightarrow>
     nt_enabled rn endname = False \<or> nt_servers rn servername \<noteq> Some server"

definition MakeEnd :: "string \<Rightarrow> 's Network \<Rightarrow> 's Network res" where
  "MakeEnd endname rn =
     (if endname \<in> nt_ends rn then Inl (LogFatal ''MakeEnd: already exists'')
      else Inr (rn\<lparr>nt_ends := insert endname (nt_ends rn), nt_enabled := (nt_enabled rn)(endname := False),
                   nt_connections := (nt_connections rn)(endname := None)\<rparr>))"

definition LookupEnd :: "string \<Rightarrow> 's Network \<Rightarrow> string res" where
  "LookupEnd endname rn =
     (if endname \<notin> nt_ends rn then Inl (LogFatal ''MakeEnd: does not exist'') else Inr endname)"

definition DeleteEnd :: "string \<Rightarrow> 's Network \<Rightarrow> 's Network res" where
  "DeleteEnd endname rn =
     (if endname \<notin> nt_ends rn then Inl (LogFatal ''MakeEnd: does not exist'')
      else Inr (rn\<lparr>nt_ends := nt_ends rn - {endname}, nt_enabled := (nt_enabled rn)(endname := False),
                   nt_connections := (nt_connections rn)(endname := None)\<rparr>))"

definition AddServer :: "string \<Rightarrow> nat \<Rightarrow> 's Network \<Rightarrow> 's Network" where
  "AddServer servername rs rn = rn\<lparr>nt_servers := (nt_servers rn)(servername := Some rs)\<rparr>"

definition DeleteServer :: "string \<Rightarrow> 's Network \<Rightarrow> 's Network" where
  "DeleteServer servername rn = rn\<lparr>nt_servers := (nt_servers rn)(servername := None)\<rparr>"

definition Connect :: "string \<Rightarrow> string \<Rightarrow> 's Network \<Rightarrow> 's Network" where
  "Connect endname servername rn = rn\<lparr>nt_connections := (nt_connections rn)(endname := Some servername)\<rparr>"

definition Enable :: "string \<Rightarrow> bool \<Rightarrow> 's Network \<Rightarrow> 's Network" where
  "Enable endname enabled rn = rn\<lparr>nt_enabled := (nt_enabled rn)(endname := enabled)\<rparr>"

definition GetCount :: "string \<Rightarrow> 's Network \<Rightarrow> int res" where
  "GetCount servername rn =
     (case nt_servers rn servername of None \<Rightarrow> Inl NilDereference | Some p \<Rightarrow> Inr (sv_count (nt_heap rn p)))"

definition GetTotalCount :: "'s Network \<Rightarrow> int" where
  "GetTotalCount rn = sint (nt_count rn)"

definition GetTotalBytes :: "'s Network \<Rightarrow> int" where
  "GetTotalBytes rn = sint (nt_bytes rn)"

section \<open>The life of a request\<close>

text \<open>A request waits to be processed; is being executed by a server, with what \<open>processReq\<close> read at its start; has a
  reply that a timer will send; or is answered.\<close>

datatype phase = Pending | Waiting string nat bool bool | Delayed replyMsg | Answered replyMsg

definition no_reply :: replyMsg where
  "no_reply = \<lparr>rm_ok = False, rm_reply = []\<rparr>"

text \<open>The loop of \<open>MakeNetwork\<close> takes a request from the channel.\<close>

definition accept_req :: "reqMsg \<Rightarrow> 's Network \<Rightarrow> 's Network" where
  "accept_req req rn = rn\<lparr>nt_count := nt_count rn + 1, nt_bytes := nt_bytes rn + of_nat (length (rq_args req))\<rparr>"

text \<open>\<open>processReq\<close> up to the start of the handler; \<open>roll\<close> is \<open>rand.Int()\<close>.\<close>

definition processReq_begin :: "'s Network \<Rightarrow> reqMsg \<Rightarrow> nat \<Rightarrow> phase" where
  "processReq_begin rn req roll =
     (case readEndnameInfo rn (rq_endname req) of
        (enabled, Some servername, Some server, reliable, longreordering) \<Rightarrow>
          if enabled then
            (if \<not> reliable \<and> roll mod 1000 < 100 then Answered no_reply
             else Waiting servername server reliable longreordering)
          else Answered no_reply
      | _ \<Rightarrow> Answered no_reply)"

text \<open>The handler runs in a goroutine of its own.\<close>

definition run_handler :: "nat \<Rightarrow> reqMsg \<Rightarrow> 's Network \<Rightarrow> ('s Network \<times> replyMsg) res" where
  "run_handler server req rn =
     rbind (sv_dispatch (nt_heap rn server) req) (\<lambda>(sv, rep).
     Inr (rn\<lparr>nt_heap := (nt_heap rn)(server := sv)\<rparr>, rep))"

text \<open>\<open>processReq\<close> after the wait: \<open>result\<close> is the handler's reply, or \<open>None\<close> when the wait ended because the
  server was found dead. Under long reordering two replies of three are handed to a timer; \<open>send_reply\<close> is the end of
  the function and the body of the timer, which looks at nothing but the reply.\<close>

definition send_reply :: "replyMsg \<Rightarrow> 's Network \<Rightarrow> 's Network" where
  "send_reply reply rn = rn\<lparr>nt_bytes := nt_bytes rn + of_nat (length (rm_reply reply))\<rparr>"

definition processReq_end :: "'s Network \<Rightarrow> reqMsg \<Rightarrow> string \<Rightarrow> nat \<Rightarrow> bool \<Rightarrow> bool \<Rightarrow> replyMsg option \<Rightarrow> nat \<Rightarrow> nat \<Rightarrow> 's Network \<times> phase" where
  "processReq_end rn req servername server reliable longreordering result roll2 roll3 =
     (case result of
        None \<Rightarrow> (rn, Answered no_reply)
      | Some reply \<Rightarrow>
          if isServerDead rn (rq_endname req) servername server then (rn, Answered no_reply)
          else if \<not> reliable \<and> roll2 mod 1000 < 100 then (rn, Answered no_reply)
          else if longreordering \<and> roll3 mod 900 < 600 then (rn, Delayed reply)
          else (send_reply reply rn, Answered reply))"

text \<open>What \<open>Call\<close> and \<open>Forward\<close> make of the answer; a destroyed network answers nothing.\<close>

definition call_result :: "(bytes \<Rightarrow> 'r option) \<Rightarrow> replyMsg \<Rightarrow> 'r option res" where
  "call_result dec rep = (if rm_ok rep then rbind (Unmarshall dec (rm_reply rep)) (\<lambda>r. Inr (Some r)) else Inr None)"

definition forward_result :: "replyMsg \<Rightarrow> bytes \<times> bool" where
  "forward_result rep = (rm_reply rep, rm_ok rep)"

text \<open>One call from end to end when nothing else happens in the meantime: the caller waits on its channel until the
  reply is there, also when a timer sends it.\<close>

definition await :: "'s Network \<times> phase \<Rightarrow> 's Network \<times> replyMsg" where
  "await x = (case x of (rn, Answered rep) \<Rightarrow> (rn, rep) | (rn, Delayed rep) \<Rightarrow> (send_reply rep rn, rep) | (rn, _) \<Rightarrow> (rn, no_reply))"

definition rpc :: "'s Network \<Rightarrow> reqMsg \<Rightarrow> nat \<Rightarrow> nat \<Rightarrow> nat \<Rightarrow> ('s Network \<times> replyMsg) res" where
  "rpc rn req roll1 roll2 roll3 =
     (if nt_done rn then Inr (rn, no_reply)
      else let rn1 = accept_req req rn in
        case processReq_begin rn1 req roll1 of
          Waiting servername server reliable longreordering \<Rightarrow>
            rbind (run_handler server req rn1) (\<lambda>(rn2, rep).
            Inr (await (processReq_end rn2 req servername server reliable longreordering (Some rep) roll2 roll3)))
        | p \<Rightarrow> Inr (await (rn1, p)))"

end
