(* ===== verification/Labrpc_Net.thy ===== *)
theory Labrpc_Net
  imports Labrpc
begin

text \<open>
  Many calls in flight on the simulated network, with its switches thrown and its servers replaced at any time: a
  handler runs at most once per call, a call that succeeds was executed exactly once and returns that execution's
  reply. A call is granted its reply only while the server that executed it is registered; the reply then arrives at once,
  or, under long reordering, from a timer that no longer looks at the server.
\<close>

section \<open>Calls in flight\<close>

text \<open>\<open>cl_server\<close> is the server whose handler goroutine was started, \<open>cl_exec\<close> what that goroutine returned, and \<open>cl_runs\<close>
  counts how often a handler ran for the call.\<close>

record call =
  cl_req :: reqMsg
  cl_phase :: phase
  cl_server :: "nat option"
  cl_exec :: "replyMsg option"
  cl_runs :: nat

record 's sys =
  sy_net :: "'s Network"
  sy_calls :: "nat \<Rightarrow> call option"

definition set_call :: "nat \<Rightarrow> call \<Rightarrow> 's sys \<Rightarrow> 's sys" where
  "set_call k c s = s\<lparr>sy_calls := (sy_calls s)(k \<mapsto> c)\<rparr>"

definition started :: "phase \<Rightarrow> nat option" where
  "started p = (case p of Waiting _ server _ _ \<Rightarrow> Some server | _ \<Rightarrow> None)"

text \<open>The operations of the tests on the network.\<close>

inductive admin :: "'s Network \<Rightarrow> 's Network \<Rightarrow> bool" where
  "admin rn (Reliable b rn)"
| "admin rn (LongReordering b rn)"
| "admin rn (LongDelays b rn)"
| "admin rn (AddServer nm p rn)"
| "admin rn (DeleteServer nm rn)"
| "admin rn (Connect e nm rn)"
| "admin rn (Enable e b rn)"
| "MakeEnd e rn = Inr rn' \<Longrightarrow> admin rn rn'"
| "DeleteEnd e rn = Inr rn' \<Longrightarrow> admin rn rn'"

inductive net_step :: "'s sys \<Rightarrow> 's sys \<Rightarrow> bool" where
  submit: "sy_calls s k = None \<Longrightarrow> \<not> nt_done (sy_net s)
    \<Longrightarrow> net_step s (set_call k \<lparr>cl_req = req, cl_phase = Pending, cl_server = None, cl_exec = None, cl_runs = 0\<rparr>
          (s\<lparr>sy_net := accept_req req (sy_net s)\<rparr>))"
| start: "sy_calls s k = Some c \<Longrightarrow> cl_phase c = Pending \<Longrightarrow> processReq_begin (sy_net s) (cl_req c) roll = p
    \<Longrightarrow> net_step s (set_call k (c\<lparr>cl_phase := p, cl_server := started p\<rparr>) s)"
| exec: "sy_calls s k = Some c \<Longrightarrow> cl_server c = Some server \<Longrightarrow> cl_exec c = None
    \<Longrightarrow> run_handler server (cl_req c) (sy_net s) = Inr (rn', rep)
    \<Longrightarrow> net_step s (set_call k (c\<lparr>cl_exec := Some rep, cl_runs := cl_runs c + 1\<rparr>) (s\<lparr>sy_net := rn'\<rparr>))"
| give_up: "sy_calls s k = Some c \<Longrightarrow> cl_phase c = Waiting nm server rel lr
    \<Longrightarrow> isServerDead (sy_net s) (rq_endname (cl_req c)) nm server
    \<Longrightarrow> processReq_end (sy_net s) (cl_req c) nm server rel lr None roll2 roll3 = (rn', p)
    \<Longrightarrow> net_step s (set_call k (c\<lparr>cl_phase := p\<rparr>) (s\<lparr>sy_net := rn'\<rparr>))"
| answer: "sy_calls s k = Some c \<Longrightarrow> cl_phase c = Waiting nm server rel lr \<Longrightarrow> cl_exec c = Some r
    \<Longrightarrow> processReq_end (sy_net s) (cl_req c) nm server rel lr (Some r) roll2 roll3 = (rn', p)
    \<Longrightarrow> net_step s (set_call k (c\<lparr>cl_phase := p\<rparr>) (s\<lparr>sy_net := rn'\<rparr>))"
| timer: "sy_calls s k = Some c \<Longrightarrow> cl_phase c = Delayed rep
    \<Longrightarrow> net_step s (set_call k (c\<lparr>cl_phase := Answered rep\<rparr>) (s\<lparr>sy_net := send_reply rep (sy_net s)\<rparr>))"
| admin_step: "admin (sy_net s) rn' \<Longrightarrow> net_step s (s\<lparr>sy_net := rn'\<rparr>)"

definition net_init :: "'s sys \<Rightarrow> bool" where
  "net_init s \<longleftrightarrow> sy_calls s = (\<lambda>_. None)"

section \<open>The invariant of a call\<close>

definition call_inv :: "call \<Rightarrow> bool" where
  "call_inv c \<longleftrightarrow> cl_runs c = (if cl_exec c = None then 0 else 1)
     \<and> (cl_server c = None \<longrightarrow> cl_exec c = None)
     \<and> (case cl_phase c of
          Pending \<Rightarrow> cl_server c = None
        | Waiting nm server rel lr \<Rightarrow> cl_server c = Some server
        | Delayed rep \<Rightarrow> cl_exec c = Some rep
        | Answered rep \<Rightarrow> rm_ok rep \<longrightarrow> cl_exec c = Some rep)"

definition sys_inv :: "'s sys \<Rightarrow> bool" where
  "sys_inv s \<longleftrightarrow> (\<forall>k c. sy_calls s k = Some c \<longrightarrow> call_inv c)"

lemma sys_inv_set: "sys_inv s \<Longrightarrow> call_inv c \<Longrightarrow> sys_inv (set_call k c s)"
  by (simp add: sys_inv_def set_call_def)

lemma sys_inv_net [simp]: "sys_inv (s\<lparr>sy_net := rn\<rparr>) = sys_inv s"
  by (simp add: sys_inv_def)

lemma sys_invD: "sys_inv s \<Longrightarrow> sy_calls s k = Some c \<Longrightarrow> call_inv c"
  by (simp add: sys_inv_def)

lemma processReq_begin_cases:
  "processReq_begin rn req roll = Answered no_reply \<or>
   (\<exists>nm server. processReq_begin rn req roll = Waiting nm server (nt_reliable rn) (nt_longReordering rn)
      \<and> nt_enabled rn (rq_endname req) \<and> nt_connections rn (rq_endname req) = Some nm \<and> nt_servers rn nm = Some server)"
  by (auto simp: processReq_begin_def readEndnameInfo_def split: option.splits)

lemma processReq_end_cases:
  assumes "processReq_end rn req nm server rel lr result roll2 roll3 = (rn', p)"
  obtains "p = Answered no_reply"
  | r where "result = Some r" "\<not> isServerDead rn (rq_endname req) nm server" "p = Answered r \<or> lr \<and> p = Delayed r"
  using assms by (auto simp: processReq_end_def split: option.splits if_splits)

interpretation rpcs: invariant_system net_init net_step sys_inv
proof
  fix s :: "'s sys" assume "net_init s"
  then show "sys_inv s" by (simp add: net_init_def sys_inv_def)
next
  fix s t :: "'s sys" assume inv: "sys_inv s" and "net_step s t"
  from this(2) show "sys_inv t"
  proof cases
    case (submit k req)
    then show ?thesis using inv by (simp add: sys_inv_set call_inv_def)
  next
    case (start k c roll p)
    then show ?thesis using sys_invD [OF inv start(2)] processReq_begin_cases [of "sy_net s" "cl_req c" roll]
      by (auto intro!: sys_inv_set [OF inv] simp: call_inv_def started_def no_reply_def)
  next
    case (exec k c server rn' rep)
    then show ?thesis using sys_invD [OF inv exec(2)] inv
      by (auto intro!: sys_inv_set simp: call_inv_def split: phase.splits)
  next
    case (give_up k c nm server rel lr roll2 roll3 rn' p)
    then show ?thesis using sys_invD [OF inv give_up(2)] inv
      by (auto intro!: sys_inv_set simp: call_inv_def processReq_end_def no_reply_def)
  next
    case (answer k c nm server rel lr r roll2 roll3 rn' p)
    from answer(5) show ?thesis using sys_invD [OF inv answer(2)] inv answer
      by (cases rule: processReq_end_cases) (auto intro!: sys_inv_set simp: call_inv_def no_reply_def)
  next
    case (timer k c rep)
    then show ?thesis using sys_invD [OF inv timer(2)] inv by (auto intro!: sys_inv_set simp: call_inv_def)
  next
    case (admin_step rn')
    then show ?thesis using inv by simp
  qed
qed

section \<open>Properties\<close>

text \<open>C15: for every call, in every interleaving of calls with each other and with changes of the network, the handler runs
  at most once; and when the call succeeds it ran exactly once and the answer is what it returned.\<close>

theorem rpc_at_most_once:
  assumes run: "reach net_init net_step s" and c: "sy_calls s k = Some c"
  shows "cl_runs c \<le> 1 \<and> (\<forall>rep. cl_phase c = Answered rep \<and> rm_ok rep \<longrightarrow> cl_runs c = 1 \<and> cl_exec c = Some rep)"
proof -
  have "call_inv c" using sys_invD [OF rpcs.reach_inv [OF run] c] .
  then show ?thesis by (auto simp: call_inv_def split: phase.splits if_splits)
qed

text \<open>C34: a call that waits for its handler is granted a success only at a moment when its end-point is enabled and the
  server that executed it is still the one registered under its name, and what it is granted is what the handler
  returned. The reply is then there in the same step, unless the network reorders (\<open>lr\<close>, as read when the request was
  processed): only then may a timer hold it back, and the server may be gone by the time it arrives.\<close>

theorem success_needs_live_server:
  assumes st: "net_step s t" and w: "sy_calls s k = Some c" "cl_phase c = Waiting nm server rel lr"
    and a: "sy_calls t k = Some c'" "cl_phase c' = Answered rep \<and> rm_ok rep \<or> cl_phase c' = Delayed rep"
  shows "nt_enabled (sy_net s) (rq_endname (cl_req c)) \<and> nt_servers (sy_net s) nm = Some server \<and> cl_exec c = Some rep
    \<and> (\<not> lr \<longrightarrow> cl_phase c' = Answered rep)"
  using st
proof cases
  case (answer k' d nm' server' rel' lr' r roll2 roll3 rn' p)
  show ?thesis
  proof (cases "k' = k")
    case True
    then have d: "d = c" "p = cl_phase c'" using answer w a by (auto simp: set_call_def)
    from answer(5) show ?thesis
      by (cases rule: processReq_end_cases) (use d a(2) answer w in \<open>auto simp: isServerDead_def no_reply_def\<close>)
  next
    case False
    then show ?thesis using answer w a by (simp add: set_call_def)
  qed
next
  case (give_up k' d nm' server' rel' lr' roll2 roll3 rn' p)
  then show ?thesis using w a by (auto simp: set_call_def processReq_end_def no_reply_def split: if_splits)
qed (use w a in \<open>auto simp: set_call_def split: if_splits\<close>)

text \<open>The timer does not ask for the server: from every state in which a reply is held back, deleting the server leads to a
  state in which no server is registered under the name and the call is answered.\<close>

theorem deleted_server_answers:
  fixes s :: "'s sys"
  assumes run: "reach net_init net_step s" and c: "sy_calls s k = Some c" "cl_phase c = Delayed rep"
  shows "\<exists>t :: 's sys. reach net_init net_step t \<and> nt_servers (sy_net t) nm = None \<and> sy_calls t k = Some (c\<lparr>cl_phase := Answered rep\<rparr>)"
proof -
  let ?s = "s\<lparr>sy_net := DeleteServer nm (sy_net s)\<rparr>"
  have "reach net_init net_step ?s"
    by (rule reach_step [where init = net_init and step = net_step, OF run net_step.admin_step]) (rule admin.intros)
  then have "reach net_init net_step (set_call k (c\<lparr>cl_phase := Answered rep\<rparr>) (?s\<lparr>sy_net := send_reply rep (sy_net ?s)\<rparr>))"
    by (rule reach_step [where init = net_init and step = net_step]) (rule net_step.timer, use c in simp_all)
  moreover have "nt_servers (send_reply rep (DeleteServer nm (sy_net s))) nm = None" by (simp add: send_reply_def DeleteServer_def)
  ultimately show ?thesis
    by (intro exI [of _ "set_call k (c\<lparr>cl_phase := Answered rep\<rparr>) (?s\<lparr>sy_net := send_reply rep (sy_net ?s)\<rparr>)"]) (simp add: set_call_def)
qed

text \<open>A server with one method that counts its calls and answers the old count.\<close>

definition demo_service :: "nat Service" where
  "demo_service = MakeService ''C'' [\<lparr>mt_name = ''Inc'', mt_exported = True, mt_numIn = 3, mt_replyPtr = True, mt_numOut = 0,
     mt_func = (\<lambda>b s. Inr (Suc s, [of_nat s]))\<rparr>]"

definition demo_net :: "bool \<Rightarrow> nat Network" where
  "demo_net lr = LongReordering lr ((MakeNetwork (\<lambda>_. AddService demo_service (MakeServer 5)))
     \<lparr>nt_ends := {''e''}, nt_enabled := (\<lambda>_. True), nt_connections := (\<lambda>_. Some ''srv''), nt_servers := (\<lambda>_. Some 3)\<rparr>)"

definition demo_req :: reqMsg where
  "demo_req = \<lparr>rq_endname = ''e'', rq_svcMeth = ''C.Inc'', rq_args = []\<rparr>"

definition demo_call :: call where
  "demo_call = \<lparr>cl_req = demo_req, cl_phase = Pending, cl_server = None, cl_exec = None, cl_runs = 0\<rparr>"

definition demo_sys0 :: "bool \<Rightarrow> nat sys" where
  "demo_sys0 lr = \<lparr>sy_net = demo_net lr, sy_calls = (\<lambda>_. None)\<rparr>"

definition demo_sys1 :: "bool \<Rightarrow> nat sys" where
  "demo_sys1 lr = set_call 0 demo_call ((demo_sys0 lr)\<lparr>sy_net := accept_req demo_req (demo_net lr)\<rparr>)"

definition demo_sys2 :: "bool \<Rightarrow> nat sys" where
  "demo_sys2 lr = set_call 0 (demo_call\<lparr>cl_phase := Waiting ''srv'' 3 True lr, cl_server := Some 3\<rparr>) (demo_sys1 lr)"

lemma demo_net_fields: "nt_done (demo_net lr) = False" "nt_reliable (demo_net lr)" "nt_longReordering (demo_net lr) = lr"
  "nt_enabled (demo_net lr) = (\<lambda>_. True)" "nt_connections (demo_net lr) = (\<lambda>_. Some ''srv'')" "nt_servers (demo_net lr) = (\<lambda>_. Some 3)"
  by (simp_all add: demo_net_def MakeNetwork_def LongReordering_def)

lemma accept_fields [simp]: "nt_done (accept_req q rn) = nt_done rn" "nt_reliable (accept_req q rn) = nt_reliable rn"
  "nt_longReordering (accept_req q rn) = nt_longReordering rn" "nt_enabled (accept_req q rn) = nt_enabled rn"
  "nt_connections (accept_req q rn) = nt_connections rn" "nt_servers (accept_req q rn) = nt_servers rn" "nt_heap (accept_req q rn) = nt_heap rn"
  by (simp_all add: accept_req_def)

lemma demo_handler:
  "\<exists>rn'. run_handler 3 demo_req (sy_net (demo_sys2 lr)) = Inr (rn', \<lparr>rm_ok = True, rm_reply = [5]\<rparr>)
     \<and> nt_enabled rn' = (\<lambda>_. True) \<and> nt_servers rn' = (\<lambda>_. Some 3)"
  by (simp add: run_handler_def sv_dispatch_def svc_dispatch_def demo_sys2_def demo_sys1_def demo_sys0_def set_call_def demo_net_def
      LongReordering_def MakeNetwork_def AddService_def MakeServer_def demo_service_def MakeService_def demo_req_def accept_req_def Let_def)

lemma demo_reach2: "reach net_init net_step (demo_sys2 lr)"
proof -
  have "net_init (demo_sys0 lr)" by (simp add: net_init_def demo_sys0_def)
  note r0 = reach_init [where init = net_init and step = net_step, OF this]
  have "net_step (demo_sys0 lr) (demo_sys1 lr)"
    using net_step.submit [of "demo_sys0 lr" 0 demo_req] by (simp add: demo_sys0_def demo_sys1_def demo_call_def demo_net_fields)
  note r1 = reach_step [where init = net_init and step = net_step, OF r0 this]
  have "processReq_begin (sy_net (demo_sys1 lr)) demo_req 0 = Waiting ''srv'' 3 True lr"
    by (simp add: processReq_begin_def readEndnameInfo_def demo_sys1_def demo_sys0_def set_call_def demo_net_fields)
  then have "net_step (demo_sys1 lr) (demo_sys2 lr)"
    using net_step.start [of "demo_sys1 lr" 0 demo_call 0] by (simp add: demo_sys1_def demo_sys2_def set_call_def demo_call_def started_def)
  from reach_step [where init = net_init and step = net_step, OF r1 this] show ?thesis .
qed

text \<open>The call after its handler ran, and after \<open>processReq\<close> disposed of the reply: it is answered, or delayed when the
  network reorders.\<close>

lemma demo_disposed:
  "\<exists>(s3 :: nat sys) s4 c3 c4. reach net_init net_step s4 \<and> net_step s3 s4 \<and> sy_calls s3 0 = Some c3 \<and> cl_phase c3 = Waiting ''srv'' 3 True lr
     \<and> cl_req c3 = demo_req \<and> sy_calls s4 0 = Some c4
     \<and> cl_phase c4 = (if lr then Delayed \<lparr>rm_ok = True, rm_reply = [5]\<rparr> else Answered \<lparr>rm_ok = True, rm_reply = [5]\<rparr>)"
proof -
  let ?rep = "\<lparr>rm_ok = True, rm_reply = [5 :: 8 word]\<rparr>" and ?p = "\<lambda>r. if lr then Delayed r else Answered r"
  let ?c2 = "demo_call\<lparr>cl_phase := Waiting ''srv'' 3 True lr, cl_server := Some 3\<rparr>"
  have c2: "sy_calls (demo_sys2 lr) 0 = Some ?c2" by (simp add: demo_sys2_def set_call_def)
  obtain rn' where h: "run_handler 3 (cl_req ?c2) (sy_net (demo_sys2 lr)) = Inr (rn', ?rep)" "nt_enabled rn' = (\<lambda>_. True)" "nt_servers rn' = (\<lambda>_. Some 3)"
    using demo_handler by (auto simp: demo_call_def)
  define c3 where "c3 = ?c2\<lparr>cl_exec := Some ?rep, cl_runs := cl_runs ?c2 + 1\<rparr>"
  define s3 where "s3 = set_call 0 c3 ((demo_sys2 lr)\<lparr>sy_net := rn'\<rparr>)"
  have "net_step (demo_sys2 lr) s3" unfolding s3_def c3_def
    by (rule net_step.exec [OF c2 _ _ h(1)]) (simp_all add: demo_call_def)
  note r3 = reach_step [where init = net_init and step = net_step, OF demo_reach2 this]
  have p3: "sy_calls s3 0 = Some c3" "cl_phase c3 = Waiting ''srv'' 3 True lr" "cl_exec c3 = Some ?rep" "cl_req c3 = demo_req" "sy_net s3 = rn'"
    by (simp_all add: s3_def set_call_def c3_def demo_call_def)
  obtain rn4 where e: "processReq_end (sy_net s3) (cl_req c3) ''srv'' 3 True lr (Some ?rep) 0 0 = (rn4, ?p ?rep)"
    using h(2,3) p3(5) by (cases lr) (auto simp: processReq_end_def isServerDead_def)
  define s4 where "s4 = set_call 0 (c3\<lparr>cl_phase := ?p ?rep\<rparr>) (s3\<lparr>sy_net := rn4\<rparr>)"
  have st: "net_step s3 s4" unfolding s4_def by (rule net_step.answer [OF p3(1-3) e])
  from reach_step [where init = net_init and step = net_step, OF r3 st] st p3
  show ?thesis by (intro exI [of _ s3] exI [of _ s4] exI [of _ c3] exI [of _ "c3\<lparr>cl_phase := ?p ?rep\<rparr>"]) (simp add: s4_def set_call_def)
qed

theorem rpc_at_most_once_witness:
  "\<exists>(s :: nat sys) c. reach net_init net_step s \<and> sy_calls s 0 = Some c \<and> cl_phase c = Answered \<lparr>rm_ok = True, rm_reply = [5]\<rparr> \<and> cl_runs c = 1"
proof -
  obtain s3 s4 :: "nat sys" and c4 where r: "reach net_init net_step s4" "sy_calls s4 0 = Some c4"
    "cl_phase c4 = Answered \<lparr>rm_ok = True, rm_reply = [5]\<rparr>" using demo_disposed [of False] by auto
  from rpc_at_most_once [OF r(1,2)] r show ?thesis by auto
qed

theorem success_needs_live_server_witness:
  "\<exists>(s :: nat sys) t c. net_step s t \<and> sy_calls s 0 = Some c \<and> nt_servers (sy_net s) ''srv'' = Some 3
     \<and> cl_exec c = Some \<lparr>rm_ok = True, rm_reply = [5]\<rparr>"
proof -
  obtain s3 s4 :: "nat sys" and c3 c4 where r: "net_step s3 s4" "sy_calls s3 0 = Some c3" "cl_phase c3 = Waiting ''srv'' 3 True False"
    "sy_calls s4 0 = Some c4" "cl_phase c4 = Answered \<lparr>rm_ok = True, rm_reply = [5]\<rparr>" using demo_disposed [of False] by auto
  from success_needs_live_server [OF r(1-4), of "\<lparr>rm_ok = True, rm_reply = [5]\<rparr>"] r show ?thesis by auto
qed

theorem deleted_server_answers_witness:
  "\<exists>(t :: nat sys) c. reach net_init net_step t \<and> nt_servers (sy_net t) ''srv'' = None \<and> sy_calls t 0 = Some c
     \<and> cl_phase c = Answered \<lparr>rm_ok = True, rm_reply = [5]\<rparr>"
proof -
  obtain s4 :: "nat sys" and c4 where r: "reach net_init net_step s4" "sy_calls s4 0 = Some c4"
    "cl_phase c4 = Delayed \<lparr>rm_ok = True, rm_reply = [5]\<rparr>" using demo_disposed [of True] by auto
  from deleted_server_answers [OF r, of "''srv''"] show ?thesis by auto
qed

section \<open>One call at a time\<close>

text \<open>What a call does when nothing else happens. If the network is up and reliable and the end-point is enabled and
  connected to a registered server, the handler runs on that server and the call returns its reply, whatever the random
  numbers; on an unreliable network it returns the reply or fails, and the handler ran or not; and through a disabled or
  unconnected end-point the call fails and no server is touched.\<close>

theorem rpc_delivery:
  assumes up: "\<not> nt_done rn" and h: "\<And>p. \<exists>sv rep. sv_dispatch (nt_heap rn p) req = Inr (sv, rep)"
  shows "\<exists>rn' out. rpc rn req roll1 roll2 roll3 = Inr (rn', out) \<and>
    (case readEndnameInfo rn (rq_endname req) of
       (True, Some nm, Some p, reliable, _) \<Rightarrow>
         (\<exists>sv rep. sv_dispatch (nt_heap rn p) req = Inr (sv, rep) \<and>
            (if reliable then nt_heap rn' = (nt_heap rn)(p := sv) \<and> out = rep
             else (nt_heap rn' = (nt_heap rn)(p := sv) \<and> (out = rep \<or> out = no_reply)) \<or> nt_heap rn' = nt_heap rn \<and> out = no_reply))
     | _ \<Rightarrow> nt_heap rn' = nt_heap rn \<and> out = no_reply)"
proof (cases "\<exists>nm p. nt_enabled rn (rq_endname req) \<and> nt_connections rn (rq_endname req) = Some nm \<and> nt_servers rn nm = Some p")
  case False
  then have "processReq_begin (accept_req req rn) req roll1 = Answered no_reply"
    using processReq_begin_cases [of "accept_req req rn" req roll1] by auto
  then show ?thesis using False up by (auto simp: rpc_def await_def Let_def readEndnameInfo_def split: option.splits bool.splits)
next
  case True
  then obtain nm p where i: "nt_enabled rn (rq_endname req)" "nt_connections rn (rq_endname req) = Some nm" "nt_servers rn nm = Some p" by blast
  obtain sv rep where d: "sv_dispatch (nt_heap rn p) req = Inr (sv, rep)" using h by blast
  have run: "run_handler p req (accept_req req rn) = Inr ((accept_req req rn)\<lparr>nt_heap := (nt_heap rn)(p := sv)\<rparr>, rep)"
    using d by (simp add: run_handler_def)
  have alive: "\<not> isServerDead ((accept_req req rn)\<lparr>nt_heap := hp\<rparr>) (rq_endname req) nm p" for hp
    using i by (simp add: isServerDead_def)
  have e: "readEndnameInfo rn (rq_endname req) = (True, Some nm, Some p, nt_reliable rn, nt_longReordering rn)"
    "readEndnameInfo (accept_req req rn) (rq_endname req) = (True, Some nm, Some p, nt_reliable rn, nt_longReordering rn)"
    using i by (simp_all add: readEndnameInfo_def)
  show ?thesis
    using up d run alive unfolding rpc_def Let_def processReq_begin_def e
    by (auto simp: processReq_end_def await_def send_reply_def)
qed

theorem rpc_delivery_witness:
  "\<exists>rn' sv. rpc (demo_net True) demo_req 1 2 3 = Inr (rn', \<lparr>rm_ok = True, rm_reply = [5]\<rparr>) \<and> nt_heap rn' = (nt_heap (demo_net True))(3 := sv)"
proof -
  have d: "\<exists>sv. sv_dispatch (nt_heap (demo_net True) p) demo_req = Inr (sv, \<lparr>rm_ok = True, rm_reply = [5]\<rparr>)" for p
    by (simp add: sv_dispatch_def svc_dispatch_def demo_net_def LongReordering_def MakeNetwork_def AddService_def MakeServer_def demo_service_def
        MakeService_def demo_req_def Let_def)
  then have ex: "\<exists>sv rep. sv_dispatch (nt_heap (demo_net True) p) demo_req = Inr (sv, rep)" for p by blast
  have "readEndnameInfo (demo_net True) (rq_endname demo_req) = (True, Some ''srv'', Some 3, True, True)"
    by (simp add: readEndnameInfo_def demo_net_fields)
  with rpc_delivery [OF _ ex, of 1 2 3] d [of 3] show ?thesis by (auto simp: demo_net_fields)
qed

section \<open>Dispatch\<close>

lemma last_dot_none: "CHR ''.'' \<notin> set s \<Longrightarrow> last_dot s = None"
  by (induction s) auto

lemma last_dot_split: "CHR ''.'' \<notin> set m \<Longrightarrow> last_dot (s @ ''.'' @ m) = Some (length s)"
  by (induction s) (auto simp: last_dot_none)

lemma MakeService_keeps:
  "map_of ms n = Some h \<Longrightarrow> \<forall>m \<in> set rest. mt_name m \<noteq> n \<Longrightarrow> map_of (MakeService_loop rest ms) n = Some h"
  by (induction rest arbitrary: ms) auto

text \<open>A request named \<open>Service.Method\<close> for a service that was built from its methods by \<open>MakeService\<close> and added to the
  server reaches the method, if it has the shape of a handler: its argument is decoded, the method runs once on the server's
  state, its result is encoded, and the call counter grows by one. The name is cut at the last dot, so the name of a
  service may hold dots.\<close>

theorem dispatch_reaches_method:
  assumes dot: "CHR ''.'' \<notin> set meth"
    and m: "mt_exported md" "mt_numIn md = 3" "mt_replyPtr md" "mt_numOut md = 0" "mt_name md = meth"
      "mt_func md = typed_handler dec enc f" and uniq: "\<forall>x \<in> set after. mt_name x \<noteq> meth"
    and codec: "dec b = Some arg" "f arg (sv_state rs) = (s', res)" "enc res = Some rb" and d: "sv_dispatchf rs = None"
  shows "Dispatch (AddService (MakeService svc (before @ md # after)) rs) (svc @ ''.'' @ meth) clnt b
    = Inr ((AddService (MakeService svc (before @ md # after)) rs)\<lparr>sv_count := sv_count rs + 1, sv_state := s'\<rparr>, rb, True)"
proof -
  have app: "MakeService_loop (before @ md # after) ms = MakeService_loop after ((meth, mt_func md) # MakeService_loop before ms)" for ms
    using m by (induction before arbitrary: ms) auto
  have "map_of (svc_methods (MakeService svc (before @ md # after))) meth = Some (mt_func md)"
    using MakeService_keeps [of "(meth, mt_func md) # MakeService_loop before []" meth "mt_func md" after] uniq
    by (simp add: MakeService_def app)
  moreover have "svc_name (MakeService svc (before @ md # after)) = svc" by (simp add: MakeService_def)
  ultimately show ?thesis using last_dot_split [OF dot, of svc] m(6) codec d
    by (simp add: Dispatch_def sv_dispatch_def svc_dispatch_def AddService_def typed_handler_def Unmarshall_def Let_def)
qed

theorem dispatch_reaches_method_witness:
  "Dispatch (AddService (MakeService ''C'' ([] @ \<lparr>mt_name = ''Add'', mt_exported = True, mt_numIn = 3, mt_replyPtr = True, mt_numOut = 0,
       mt_func = typed_handler (\<lambda>b. Some (length b)) (\<lambda>r. Some [of_nat r]) (\<lambda>a s. (s + a, s))\<rparr> # [])) (MakeServer 5))
     (''C'' @ ''.'' @ ''Add'') ''e'' [1, 1]
   = Inr ((AddService (MakeService ''C'' ([] @ \<lparr>mt_name = ''Add'', mt_exported = True, mt_numIn = 3, mt_replyPtr = True, mt_numOut = 0,
       mt_func = typed_handler (\<lambda>b. Some (length b)) (\<lambda>r. Some [of_nat r]) (\<lambda>a s. (s + a, s))\<rparr> # [])) (MakeServer 5))
       \<lparr>sv_count := sv_count (MakeServer 5 :: nat Server) + 1, sv_state := 7\<rparr>, [5], True)"
  by (rule dispatch_reaches_method [where meth = "''Add''" and dec = "\<lambda>b. Some (length b)" and enc = "\<lambda>r. Some [of_nat r]" and f = "\<lambda>a s. (s + a, s)" and arg = 2 and res = 5]) (simp_all add: MakeServer_def)

end
