(* ===== verification/Labgob.thy ===== *)
theory Labgob
  imports Prelude
begin

text \<open>
  The wrapper around the gob codec, \<open>src/src/labgob/labgob.go\<close>: the search of a type for lower-case field names and the
  check that a variable to decode into is still at its default. Types are what \<open>reflect.Type\<close> identifies them by, a number
  whose kind an environment gives, so that recursive types are covered; the codec itself is a parameter.
\<close>

section \<open>Types and the state of the package\<close>

type_synonym rtype = nat

datatype rkind = Struct string "(string \<times> rtype) list" | Slice rtype | Array rtype | Ptr rtype | Map rtype rtype | BasicKind

datatype gob_msg = LowerCaseField string string | NonDefault string

record labgob =
  errorCount :: int
  checked :: "rtype set"
  printed :: "gob_msg list"

definition labgob_init :: labgob where
  "labgob_init = \<lparr>errorCount = 0, checked = {}, printed = []\<rparr>"

text \<open>\<open>unicode.IsUpper\<close> of the first rune of a name, names being ASCII.\<close>

definition upper_first :: "string \<Rightarrow> bool" where
  "upper_first s = (case s of [] \<Rightarrow> False | c # _ \<Rightarrow> 65 \<le> (of_char c :: nat) \<and> (of_char c :: nat) \<le> 90)"

section \<open>The search of a type\<close>

definition complain :: "string \<Rightarrow> string \<Rightarrow> labgob \<Rightarrow> labgob" where
  "complain tname fname g =
     (if upper_first fname then g
      else g\<lparr>errorCount := errorCount g + 1, printed := printed g @ [LowerCaseField fname tname]\<rparr>)"

fun field_loop :: "(rtype \<Rightarrow> labgob \<Rightarrow> labgob option) \<Rightarrow> string \<Rightarrow> (string \<times> rtype) list \<Rightarrow> labgob \<Rightarrow> labgob option" where
  "field_loop chk tname [] g = Some g"
| "field_loop chk tname ((fname, ft) # fs) g = Option.bind (chk ft (complain tname fname g)) (field_loop chk tname fs)"

text \<open>The recursion goes through the type graph, which may be cyclic, and is cut by \<open>checked\<close>; the first argument bounds its
  depth and \<open>None\<close> says that the bound was met.\<close>

fun checkType :: "nat \<Rightarrow> (rtype \<Rightarrow> rkind) \<Rightarrow> rtype \<Rightarrow> labgob \<Rightarrow> labgob option" where
  "checkType 0 env t g = None"
| "checkType (Suc n) env t g =
     (if t \<in> checked g then Some g
      else let g1 = g\<lparr>checked := insert t (checked g)\<rparr> in
        case env t of
          Struct tname fs \<Rightarrow> field_loop (checkType n env) tname fs g1
        | Slice e \<Rightarrow> checkType n env e g1
        | Array e \<Rightarrow> checkType n env e g1
        | Ptr e \<Rightarrow> checkType n env e g1
        | Map k e \<Rightarrow> Option.bind (checkType n env e g1) (checkType n env k)
        | BasicKind \<Rightarrow> Some g1)"

section \<open>The check of a variable to decode into\<close>

datatype basic = BBool bool | BInt int | BFloat "64 word" | BString string

datatype rvalue =
    VStruct string "(string \<times> bool \<times> rvalue) list"
  | VPtr string "rvalue option"
  | VBasic string basic
  | VOther string

text \<open>Equality with the zero value of the type; both zeros of a float are equal.\<close>

fun is_zero :: "basic \<Rightarrow> bool" where
  "is_zero (BBool b) = (\<not> b)"
| "is_zero (BInt i) = (i = 0)"
| "is_zero (BFloat w) = (w = 0 \<or> w = 0x8000000000000000)"
| "is_zero (BString s) = (s = '''')"

text \<open>Reflection marks a value that was reached through a field that is not exported; \<open>Interface\<close> panics on it. The mark of an
  embedded field is not passed on to the fields below it.\<close>

datatype read_only = NoRO | EmbedRO | StickyRO

definition field_ro :: "read_only \<Rightarrow> string \<Rightarrow> bool \<Rightarrow> read_only" where
  "field_ro ro fname embedded =
     (if ro = StickyRO then StickyRO else if upper_first fname then NoRO else if embedded then EmbedRO else StickyRO)"

definition warn :: "string \<Rightarrow> labgob \<Rightarrow> labgob" where
  "warn what g =
     g\<lparr>printed := (if errorCount g < 1 then printed g @ [NonDefault what] else printed g), errorCount := errorCount g + 1\<rparr>"

fun checkDefault1 :: "rvalue \<Rightarrow> nat \<Rightarrow> string \<Rightarrow> read_only \<Rightarrow> labgob \<Rightarrow> labgob res"
  and default_fields :: "(string \<times> bool \<times> rvalue) list \<Rightarrow> nat \<Rightarrow> string \<Rightarrow> read_only \<Rightarrow> labgob \<Rightarrow> labgob res" where
  "checkDefault1 (VStruct t fs) depth name ro g = (if 3 < depth then Inr g else default_fields fs depth name ro g)"
| "checkDefault1 (VPtr t p) depth name ro g =
     (if 3 < depth then Inr g else case p of None \<Rightarrow> Inr g | Some v \<Rightarrow> checkDefault1 v (depth + 1) name ro g)"
| "checkDefault1 (VBasic t b) depth name ro g =
     (if 3 < depth then Inr g
      else if ro \<noteq> NoRO then Inl (GoPanic ''reflect: Interface of an unexported field'')
      else if is_zero b then Inr g
      else Inr (warn (if name = '''' then t else name) g))"
| "checkDefault1 (VOther t) depth name ro g = Inr g"
| "default_fields [] depth name ro g = Inr g"
| "default_fields ((fname, embedded, v) # fs) depth name ro g =
     rbind (checkDefault1 v (depth + 1) (if name = '''' then fname else name @ ''.'' @ fname) (field_ro ro fname embedded) g)
       (default_fields fs depth name ro)"

definition checkDefault :: "rvalue option \<Rightarrow> labgob \<Rightarrow> labgob res" where
  "checkDefault value g = (case value of None \<Rightarrow> Inr g | Some v \<Rightarrow> checkDefault1 v 1 '''' NoRO g)"

section \<open>Encoder and decoder\<close>

text \<open>\<open>reflect.TypeOf(nil)\<close> is nil and its \<open>Kind\<close> panics. A search that does not end would be no answer; the bound is an
  argument here and \<open>checkType_total\<close> says which one is enough.\<close>

definition checkValue :: "nat \<Rightarrow> (rtype \<Rightarrow> rkind) \<Rightarrow> rtype option \<Rightarrow> labgob \<Rightarrow> labgob res option" where
  "checkValue n env t g = (case t of None \<Rightarrow> Some (Inl NilDereference) | Some t \<Rightarrow> map_option Inr (checkType n env t g))"

record 'g LabEncoder = enc_gob :: 'g
record 'g LabDecoder = dec_gob :: 'g

definition NewEncoder :: "('w \<Rightarrow> 'g) \<Rightarrow> 'w \<Rightarrow> 'g LabEncoder" where
  "NewEncoder gob_new w = \<lparr>enc_gob = gob_new w\<rparr>"

definition NewDecoder :: "('w \<Rightarrow> 'g) \<Rightarrow> 'w \<Rightarrow> 'g LabDecoder" where
  "NewDecoder gob_new r = \<lparr>dec_gob = gob_new r\<rparr>"

definition Encode ::
  "('g \<Rightarrow> 'v \<Rightarrow> 'g \<times> 'err option) \<Rightarrow> nat \<Rightarrow> (rtype \<Rightarrow> rkind) \<Rightarrow> 'g LabEncoder \<Rightarrow> rtype option \<Rightarrow> 'v \<Rightarrow> labgob
     \<Rightarrow> (labgob \<times> 'g LabEncoder \<times> 'err option) res option" where
  "Encode gob_Encode n env enc t e g =
     map_option (\<lambda>r. rbind r (\<lambda>g'. case gob_Encode (enc_gob enc) e of (w, err) \<Rightarrow> Inr (g', enc\<lparr>enc_gob := w\<rparr>, err)))
       (checkValue n env t g)"

definition Decode ::
  "('g \<Rightarrow> rvalue option \<Rightarrow> 'g \<times> rvalue option \<times> 'err option) \<Rightarrow> nat \<Rightarrow> (rtype \<Rightarrow> rkind) \<Rightarrow> 'g LabDecoder \<Rightarrow> rtype option
     \<Rightarrow> rvalue option \<Rightarrow> labgob \<Rightarrow> (labgob \<times> 'g LabDecoder \<times> rvalue option \<times> 'err option) res option" where
  "Decode gob_Decode n env dec t e g =
     map_option (\<lambda>r. rbind r (\<lambda>g1. rbind (checkDefault e g1) (\<lambda>g2.
       case gob_Decode (dec_gob dec) e of (r', e', err) \<Rightarrow> Inr (g2, dec\<lparr>dec_gob := r'\<rparr>, e', err))))
       (checkValue n env t g)"

definition Register :: "('reg \<Rightarrow> rtype option \<Rightarrow> 'reg) \<Rightarrow> nat \<Rightarrow> (rtype \<Rightarrow> rkind) \<Rightarrow> rtype option \<Rightarrow> 'reg \<Rightarrow> labgob \<Rightarrow> (labgob \<times> 'reg) res option" where
  "Register gob_Register n env t reg g = map_option (\<lambda>r. rbind r (\<lambda>g'. Inr (g', gob_Register reg t))) (checkValue n env t g)"

definition RegisterName ::
  "('reg \<Rightarrow> string \<Rightarrow> rtype option \<Rightarrow> 'reg) \<Rightarrow> nat \<Rightarrow> (rtype \<Rightarrow> rkind) \<Rightarrow> string \<Rightarrow> rtype option \<Rightarrow> 'reg \<Rightarrow> labgob \<Rightarrow> (labgob \<times> 'reg) res option" where
  "RegisterName gob_RegisterName n env name t reg g =
     map_option (\<lambda>r. rbind r (\<lambda>g'. Inr (g', gob_RegisterName reg name t))) (checkValue n env t g)"

definition EncodeValue ::
  "('g \<Rightarrow> 'v \<Rightarrow> 'g \<times> 'err option) \<Rightarrow> nat \<Rightarrow> (rtype \<Rightarrow> rkind) \<Rightarrow> 'g LabEncoder \<Rightarrow> rtype option \<Rightarrow> 'v \<Rightarrow> labgob
     \<Rightarrow> (labgob \<times> 'g LabEncoder \<times> 'err option) res option" where
  "EncodeValue gob_EncodeValue n env enc t value g =
     map_option (\<lambda>r. rbind r (\<lambda>g'. case gob_EncodeValue (enc_gob enc) value of (w, err) \<Rightarrow> Inr (g', enc\<lparr>enc_gob := w\<rparr>, err)))
       (checkValue n env t g)"

section \<open>The search is complete and complains once\<close>

fun children :: "rkind \<Rightarrow> rtype set" where
  "children (Struct _ fs) = snd ` set fs"
| "children (Slice e) = {e}"
| "children (Array e) = {e}"
| "children (Ptr e) = {e}"
| "children (Map k e) = {e, k}"
| "children BasicKind = {}"

fun lower_fields :: "rkind \<Rightarrow> int" where
  "lower_fields (Struct _ fs) = (\<Sum>f \<leftarrow> fs. if upper_first (fst f) then 0 else 1)"
| "lower_fields _ = 0"

definition part_of :: "(rtype \<Rightarrow> rkind) \<Rightarrow> (rtype \<times> rtype) set" where
  "part_of env = {(t, u). u \<in> children (env t)}"

text \<open>What a stretch of the search has done: it went from \<open>g\<close> to \<open>g'\<close>, covered \<open>T\<close>, finished every type it
  entered and counted \<open>e\<close> fields besides those of the types it entered.\<close>

definition covered :: "(rtype \<Rightarrow> rkind) \<Rightarrow> rtype set \<Rightarrow> int \<Rightarrow> labgob \<Rightarrow> rtype set \<Rightarrow> labgob \<Rightarrow> bool" where
  "covered env U e g T g' \<longleftrightarrow>
     T \<union> checked g \<subseteq> checked g' \<and> checked g' \<subseteq> checked g \<union> U
     \<and> (\<forall>u \<in> checked g' - checked g. children (env u) \<subseteq> checked g' \<and> (\<exists>t \<in> T. (t, u) \<in> (part_of env)\<^sup>*))
     \<and> errorCount g' = errorCount g + e + (\<Sum>u \<in> checked g' - checked g. lower_fields (env u))"

lemma covered_refl: "T \<subseteq> checked g \<Longrightarrow> covered env U 0 g T g"
  by (simp add: covered_def)

lemma covered_complain: "covered env U (if upper_first f then 0 else 1) g {} (complain tn f g)"
  by (simp add: covered_def complain_def)

lemma covered_trans:
  assumes U: "finite U" and a: "covered env U d g S g1" and b: "covered env U e g1 T g2"
  shows "covered env U (d + e) g (S \<union> T) g2"
proof -
  have split: "checked g2 - checked g = (checked g1 - checked g) \<union> (checked g2 - checked g1)"
    "(checked g1 - checked g) \<inter> (checked g2 - checked g1) = {}"
    "finite (checked g1 - checked g)" "finite (checked g2 - checked g1)"
    using a b by (auto simp: covered_def intro: finite_subset [OF _ U])
  have "errorCount g2 = errorCount g + (d + e) + (\<Sum>u \<in> checked g2 - checked g. lower_fields (env u))"
    using a b unfolding split(1) by (subst sum.union_disjoint) (auto simp: covered_def split)
  moreover have "children (env u) \<subseteq> checked g2 \<and> (\<exists>t \<in> S \<union> T. (t, u) \<in> (part_of env)\<^sup>*)" if "u \<in> checked g2 - checked g" for u
  proof (cases "u \<in> checked g1")
    case True
    then have "children (env u) \<subseteq> checked g1 \<and> (\<exists>t \<in> S. (t, u) \<in> (part_of env)\<^sup>*)" using a that unfolding covered_def by blast
    then show ?thesis using b unfolding covered_def by blast
  next
    case False
    then show ?thesis using b that unfolding covered_def by blast
  qed
  moreover have "S \<union> T \<union> checked g \<subseteq> checked g2" "checked g2 \<subseteq> checked g \<union> U" using a b unfolding covered_def by blast+
  ultimately show ?thesis unfolding covered_def by blast
qed

lemma covered_enter:
  assumes U: "finite U" "t \<in> U" and new: "t \<notin> checked g"
    and c: "covered env U (lower_fields (env t)) (g\<lparr>checked := insert t (checked g)\<rparr>) (children (env t)) g'"
  shows "covered env U 0 g {t} g'"
proof -
  have split: "checked g' - checked g = insert t (checked g' - insert t (checked g))" and f: "finite (checked g' - insert t (checked g))"
    using c new U by (auto simp: covered_def intro: finite_subset [OF _ U(1)])
  have down: "(t, u) \<in> (part_of env)\<^sup>*" if "s \<in> children (env t)" "(s, u) \<in> (part_of env)\<^sup>*" for s u
    using that by (auto simp: part_of_def intro: converse_rtrancl_into_rtrancl)
  have "children (env u) \<subseteq> checked g' \<and> (t, u) \<in> (part_of env)\<^sup>*" if "u \<in> checked g' - checked g" for u
  proof (cases "u = t")
    case True
    then show ?thesis using c by (simp add: covered_def)
  next
    case False
    then have "u \<in> checked g' - insert t (checked g)" using that by blast
    moreover have "\<forall>u \<in> checked g' - insert t (checked g). children (env u) \<subseteq> checked g' \<and> (\<exists>s \<in> children (env t). (s, u) \<in> (part_of env)\<^sup>*)"
      using c by (simp add: covered_def)
    ultimately show ?thesis using down by blast
  qed
  moreover have "errorCount g' = errorCount g + (\<Sum>u \<in> checked g' - checked g. lower_fields (env u))"
    using c f unfolding split by (simp add: covered_def)
  ultimately show ?thesis using c U by (auto simp: covered_def)
qed

lemma covered_fuel: "finite U \<Longrightarrow> covered env U e g T g' \<Longrightarrow> card (U - checked g') \<le> card (U - checked g)"
  by (auto simp: covered_def intro!: card_mono)

lemma field_loop_covered:
  assumes U: "finite U" "snd ` set fs \<subseteq> U" and n: "card (U - checked g) < n"
    and chk: "\<And>t g. t \<in> U \<Longrightarrow> card (U - checked g) < n \<Longrightarrow> \<exists>g'. chk t g = Some g' \<and> covered env U 0 g {t} g'"
  shows "\<exists>g'. field_loop chk tn fs g = Some g'
    \<and> covered env U (\<Sum>f \<leftarrow> fs. if upper_first (fst f) then 0 else 1) g (snd ` set fs) g'"
  using U(2) n
proof (induction fs arbitrary: g)
  case Nil
  then show ?case by (simp add: covered_refl)
next
  case (Cons f fs)
  obtain fname ft where f: "f = (fname, ft)" by fastforce
  note c0 = covered_complain [of env U fname g tn]
  obtain g1 where g1: "chk ft (complain tn fname g) = Some g1" "covered env U 0 (complain tn fname g) {ft} g1"
    using chk [of ft "complain tn fname g"] Cons.prems f covered_fuel [OF U(1) c0] by auto
  obtain g2 where g2: "field_loop chk tn fs g1 = Some g2"
    "covered env U (\<Sum>f \<leftarrow> fs. if upper_first (fst f) then 0 else 1) g1 (snd ` set fs) g2"
    using Cons.IH [of g1] Cons.prems f covered_fuel [OF U(1) c0] covered_fuel [OF U(1) g1(2)] by auto
  from covered_trans [OF U(1) covered_trans [OF U(1) c0 g1(2)] g2(2)] show ?case by (simp add: f g1 g2)
qed

lemma checkType_covered:
  assumes U: "finite U" "\<And>u. u \<in> U \<Longrightarrow> children (env u) \<subseteq> U"
  shows "t \<in> U \<Longrightarrow> card (U - checked g) < n \<Longrightarrow> \<exists>g'. checkType n env t g = Some g' \<and> covered env U 0 g {t} g'"
proof (induction n arbitrary: t g)
  case (Suc n)
  show ?case
  proof (cases "t \<in> checked g")
    case True
    then show ?thesis by (simp add: covered_refl)
  next
    case False
    define g1 where "g1 = g\<lparr>checked := insert t (checked g)\<rparr>"
    have "U - checked g1 \<subset> U - checked g" using Suc.prems False by (auto simp: g1_def)
    then have n: "card (U - checked g1) < n" using Suc.prems U(1) psubset_card_mono [of "U - checked g" "U - checked g1"] by simp
    have sub: "children (env t) \<subseteq> U" using U(2) Suc.prems by blast
    have one: "\<exists>g'. checkType n env e g1 = Some g' \<and> covered env U 0 g1 {e} g'" if "e \<in> children (env t)" for e
      using Suc.IH [of e g1] sub that n by blast
    have "\<exists>g'. checkType (Suc n) env t g = Some g' \<and> covered env U (lower_fields (env t)) g1 (children (env t)) g'"
    proof (cases "env t")
      case (Struct tn fs)
      have "snd ` set fs \<subseteq> U" using sub Struct by simp
      from field_loop_covered [OF U(1) this n Suc.IH] Struct False show ?thesis by (simp add: g1_def [symmetric])
    next
      case (Map k e)
      obtain g2 where g2: "checkType n env e g1 = Some g2" "covered env U 0 g1 {e} g2" using one [of e] Map by auto
      obtain g3 where g3: "checkType n env k g2 = Some g3" "covered env U 0 g2 {k} g3"
        using Suc.IH [of k g2] sub Map n covered_fuel [OF U(1) g2(2)] by auto
      from covered_trans [OF U(1) g2(2) g3(2)] show ?thesis using Map False g2 g3 by (simp add: g1_def [symmetric] insert_commute)
    qed (use one False in \<open>auto simp: g1_def [symmetric] covered_refl\<close>)
    then show ?thesis using covered_enter [OF U(1) Suc.prems(1) False] by (auto simp: g1_def)
  qed
qed simp

lemma closed_reach: "(t, u) \<in> (part_of env)\<^sup>* \<Longrightarrow> t \<in> S \<Longrightarrow> \<forall>v \<in> S. children (env v) \<subseteq> S \<Longrightarrow> u \<in> S"
  by (induction rule: rtrancl_induct) (auto simp: part_of_def)

text \<open>C18: the search of a type, cyclic or not, ends, marks exactly the types reachable from it besides those already
  marked, and adds to the error count one for each lower-case field of each newly marked structure, so that no field is
  missed and none is counted twice. A depth of one more than the number of types is enough.\<close>

theorem checkType_complete:
  assumes U: "finite U" "\<And>u. u \<in> U \<Longrightarrow> children (env u) \<subseteq> U" "t \<in> U"
    and old: "\<forall>u \<in> checked g. children (env u) \<subseteq> checked g" and n: "card U < n"
  shows "\<exists>g'. checkType n env t g = Some g' \<and> checked g' = checked g \<union> {u. (t, u) \<in> (part_of env)\<^sup>*}
    \<and> errorCount g' = errorCount g + (\<Sum>u \<in> checked g' - checked g. lower_fields (env u))"
proof -
  have "card (U - checked g) < n" using n card_mono [OF U(1), of "U - checked g"] by simp
  from checkType_covered [where env = env and U = U, OF U(1) U(2) U(3) this] obtain g' where g': "checkType n env t g = Some g'" "covered env U 0 g {t} g'" by blast
  from g'(2) have c: "t \<in> checked g'" "checked g \<subseteq> checked g'"
    "\<forall>u \<in> checked g' - checked g. children (env u) \<subseteq> checked g' \<and> (t, u) \<in> (part_of env)\<^sup>*"
    "errorCount g' = errorCount g + (\<Sum>u \<in> checked g' - checked g. lower_fields (env u))" by (simp_all add: covered_def)
  have "\<forall>v \<in> checked g'. children (env v) \<subseteq> checked g'" using c(2,3) old by blast
  from closed_reach [OF _ c(1) this] have "checked g' = checked g \<union> {u. (t, u) \<in> (part_of env)\<^sup>*}" using c(2,3) by blast
  then show ?thesis using g'(1) c(4) by blast
qed

text \<open>A linked list whose \<open>next\<close> field is lower-case: the type is its own part.\<close>

definition demo_types :: "rtype \<Rightarrow> rkind" where
  "demo_types t = (if t = 0 then Struct ''Node'' [(''next'', 1), (''Val'', 2)] else if t = 1 then Ptr 0 else BasicKind)"

theorem checkType_complete_witness:
  "\<exists>g'. checkType 4 demo_types 1 labgob_init = Some g' \<and> checked g' = {0, 1, 2} \<and> errorCount g' = 1
     \<and> checkType 4 demo_types 0 g' = Some g'"
proof -
  have "\<exists>g'. checkType 4 demo_types 1 labgob_init = Some g'
      \<and> checked g' = checked labgob_init \<union> {u. (1, u) \<in> (part_of demo_types)\<^sup>*}
      \<and> errorCount g' = errorCount labgob_init + (\<Sum>u \<in> checked g' - checked labgob_init. lower_fields (demo_types u))"
    by (rule checkType_complete [where U = "{0, 1, 2}"]) (auto simp: labgob_init_def demo_types_def)
  moreover have "checkType 4 demo_types 1 labgob_init
      = Some \<lparr>errorCount = 1, checked = {2, 0, 1}, printed = [LowerCaseField ''next'' ''Node'']\<rparr>"
    by (simp add: demo_types_def labgob_init_def eval_nat_numeral complain_def upper_first_def)
  moreover have "checkType 4 demo_types 0 \<lparr>errorCount = 1, checked = {2, 0, 1}, printed = ps\<rparr>
      = Some \<lparr>errorCount = 1, checked = {2, 0, 1}, printed = ps\<rparr>" for ps
    by (simp add: eval_nat_numeral)
  ultimately show ?thesis by auto
qed

text \<open>A second search of a type that has been searched does nothing: the package complains once.\<close>

lemma checkType_once: "t \<in> checked g \<Longrightarrow> 0 < n \<Longrightarrow> checkType n env t g = Some g"
  by (cases n) auto

lemma Encode_once:
  "t \<in> checked g \<Longrightarrow> 0 < n \<Longrightarrow> Encode gob n env enc (Some t) e g
     = Some (Inr (g, enc\<lparr>enc_gob := fst (gob (enc_gob enc) e)\<rparr>, snd (gob (enc_gob enc) e)))"
  by (simp add: Encode_def checkValue_def checkType_once split: prod.splits)

section \<open>Decoding into a variable that has been used\<close>

text \<open>The places a value differs from the default, by name, down to the third level.\<close>

fun nondefault :: "rvalue \<Rightarrow> nat \<Rightarrow> string \<Rightarrow> string list" where
  "nondefault (VStruct t fs) depth name =
     (if 3 < depth then [] else concat (map (\<lambda>(f, _, v). nondefault v (depth + 1) (if name = '''' then f else name @ ''.'' @ f)) fs))"
| "nondefault (VPtr t p) depth name = (if 3 < depth then [] else case p of None \<Rightarrow> [] | Some v \<Rightarrow> nondefault v (depth + 1) name)"
| "nondefault (VBasic t b) depth name = (if 3 < depth \<or> is_zero b then [] else [if name = '''' then t else name])"
| "nondefault (VOther t) depth name = []"

fun all_exported :: "rvalue \<Rightarrow> bool" where
  "all_exported (VStruct t fs) = (\<forall>(f, _, v) \<in> set fs. upper_first f \<and> all_exported v)"
| "all_exported (VPtr t p) = (case p of None \<Rightarrow> True | Some v \<Rightarrow> all_exported v)"
| "all_exported (VBasic t b) = True"
| "all_exported (VOther t) = True"

definition warn_all :: "string list \<Rightarrow> labgob \<Rightarrow> labgob" where
  "warn_all ws g = fold warn ws g"

lemma warn_all_count: "errorCount (warn_all ws g) = errorCount g + int (length ws)"
  by (induction ws arbitrary: g) (simp_all add: warn_all_def warn_def)

lemma warn_all_silent: "1 \<le> errorCount g \<Longrightarrow> printed (warn_all ws g) = printed g"
  by (induction ws arbitrary: g) (simp_all add: warn_all_def warn_def)

lemma warn_all_printed:
  "0 \<le> errorCount g \<Longrightarrow> printed (warn_all ws g) = printed g @ (if errorCount g = 0 \<and> ws \<noteq> [] then [NonDefault (hd ws)] else [])"
proof (cases ws)
  case (Cons w rest)
  assume "0 \<le> errorCount g"
  then show ?thesis using warn_all_silent [of "warn w g" rest] by (auto simp: Cons warn_all_def) (auto simp: warn_def)
qed (simp add: warn_all_def)

lemma checkDefault1_warns:
  "all_exported v \<Longrightarrow> checkDefault1 v depth name NoRO g = Inr (warn_all (nondefault v depth name) g)"
  "(\<forall>(f, _, v) \<in> set fs. upper_first f \<and> all_exported v) \<Longrightarrow> default_fields fs depth name NoRO g
     = Inr (warn_all (concat (map (\<lambda>(f, _, v). nondefault v (depth + 1) (if name = '''' then f else name @ ''.'' @ f)) fs)) g)"
proof (induction v depth name NoRO g and fs depth name NoRO g rule: checkDefault1_default_fields.induct)
  case (6 fname embedded v fs depth name g)
  then show ?case by (simp add: warn_all_def field_ro_def)
qed (auto simp: warn_all_def split: option.splits)

lemma checkDefault_warns:
  assumes "all_exported v" "errorCount g = 0"
  shows "\<exists>g'. checkDefault (Some v) g = Inr g' \<and> errorCount g' = int (length (nondefault v 1 ''''))
    \<and> printed g' = printed g @ (if nondefault v 1 '''' = [] then [] else [NonDefault (hd (nondefault v 1 ''''))])"
  using assms warn_all_count [of _ g] warn_all_printed [of g] by (simp add: checkDefault_def checkDefault1_warns(1))

text \<open>A lower-case field of a basic type is not only reported: the check of its default reads it through reflection, which
  panics, so \<open>Decode\<close> into such a structure never returns.\<close>

lemma Decode_lower_case_panics:
  assumes lower: "\<not> upper_first f" and g: "checkType n env t g = Some g1"
    and pre: "\<forall>(f, _, v) \<in> set pre. upper_first f \<and> all_exported v"
  shows "\<exists>msg. Decode gob n env dec (Some t) (Some (VPtr pt (Some (VStruct st (pre @ (f, emb, VBasic bt b) # post))))) g
    = Some (Inl (GoPanic msg))"
proof -
  have app: "default_fields (pre @ xs) d nm ro h = rbind (default_fields pre d nm ro h) (default_fields xs d nm ro)" for xs d nm ro h
    by (induction pre arbitrary: h) (auto simp: rbind_def split: sum.splits)
  show ?thesis
    using lower g by (simp add: Decode_def checkValue_def checkDefault_def app checkDefault1_warns(2) [OF pre] field_ro_def)
qed

end
