(* ===== verification/Kvtest.thy ===== *)
theory Kvtest
  imports Kv_Model Lock
begin

text \<open>
  The client programs the key/value laboratories are tested with, \<open>src/src/kvtest1/kvtest.go\<close> and \<open>porcupine.go\<close>: clerk calls
  that are counted and recorded, the loops that put until a put is known to have happened, and the checks a test makes at
  its end. A loop takes the list of the clerk calls it makes, each with its schedule; \<open>None\<close> is a loop that is still
  running. JSON is a pair of parameters.
\<close>

section \<open>The operation log (porcupine.go)\<close>

type_synonym OpLog = "Operation list"

definition oplog_Len :: "OpLog \<Rightarrow> nat" where
  "oplog_Len lg = length lg"

definition oplog_Append :: "Operation \<Rightarrow> OpLog \<Rightarrow> OpLog" where
  "oplog_Append opn lg = lg @ [opn]"

definition oplog_Read :: "OpLog \<Rightarrow> OpLog" where
  "oplog_Read lg = lg"

text \<open>The state of a test: the server, the operation counter of the configuration and the log.\<close>

record ktest =
  kt_kv :: KVServer
  kt_ops :: "32 word"
  kt_oplog :: OpLog

text \<open>One clerk call: its schedule and the times around it.\<close>

record ckcall =
  cc_sched :: "attempt list"
  cc_start :: int
  cc_end :: int

definition kt_OpInc :: "ktest \<Rightarrow> ktest" where
  "kt_OpInc st = st\<lparr>kt_ops := kt_ops st + 1\<rparr>"

definition log_get :: "ckcall \<Rightarrow> string \<Rightarrow> int \<Rightarrow> string \<times> Tversion \<times> Err \<Rightarrow> ktest \<Rightarrow> ktest" where
  "log_get c key cli res st = (case res of (val, ver, err) \<Rightarrow>
     st\<lparr>kt_oplog := oplog_Append
       \<lparr>op_ClientId = cli, op_Input = \<lparr>ki_Op = 0, ki_Key = key, ki_Value = '''', ki_Version = 0\<rparr>, op_Call = cc_start c,
        op_Output = \<lparr>ko_Value = val, ko_Version = ver, ko_Err = err_string err\<rparr>, op_Return = cc_end c\<rparr> (kt_oplog st)\<rparr>)"

definition log_put :: "ckcall \<Rightarrow> string \<Rightarrow> string \<Rightarrow> Tversion \<Rightarrow> int \<Rightarrow> Err \<Rightarrow> ktest \<Rightarrow> ktest" where
  "log_put c key value version cli err st =
     st\<lparr>kt_oplog := oplog_Append
       \<lparr>op_ClientId = cli, op_Input = \<lparr>ki_Op = 1, ki_Key = key, ki_Value = value, ki_Version = version\<rparr>, op_Call = cc_start c,
        op_Output = \<lparr>ko_Value = '''', ko_Version = 0, ko_Err = err_string err\<rparr>, op_Return = cc_end c\<rparr> (kt_oplog st)\<rparr>"

definition kvt_Get :: "ckcall \<Rightarrow> string \<Rightarrow> int \<Rightarrow> ktest \<Rightarrow> (ktest \<times> string \<times> Tversion \<times> Err) option" where
  "kvt_Get c key cli st =
     Option.bind (clerk_Get (kt_kv st) (cc_sched c) key) (\<lambda>(kv', res).
     Some (log_get c key cli res (kt_OpInc (st\<lparr>kt_kv := kv'\<rparr>)), res))"

definition kvt_Put :: "ckcall \<Rightarrow> string \<Rightarrow> string \<Rightarrow> Tversion \<Rightarrow> int \<Rightarrow> ktest \<Rightarrow> (ktest \<times> Err) option" where
  "kvt_Put c key value version cli st =
     Option.bind (clerk_Put (kt_kv st) (cc_sched c) key value version) (\<lambda>(kv', err).
     Some (log_put c key value version cli err (kt_OpInc (st\<lparr>kt_kv := kv'\<rparr>)), err))"

text \<open>The methods of \<open>Test\<close>; its \<open>Put\<close> does not count the operation.\<close>

definition ts_Get :: "ckcall \<Rightarrow> string \<Rightarrow> int \<Rightarrow> ktest \<Rightarrow> (ktest \<times> string \<times> Tversion \<times> Err) option" where
  "ts_Get c key cli st =
     Option.bind (clerk_Get (kt_kv st) (cc_sched c) key) (\<lambda>(kv', res).
     Some (log_get c key cli res (kt_OpInc (st\<lparr>kt_kv := kv'\<rparr>)), res))"

definition ts_Put :: "ckcall \<Rightarrow> string \<Rightarrow> string \<Rightarrow> Tversion \<Rightarrow> int \<Rightarrow> ktest \<Rightarrow> (ktest \<times> Err) option" where
  "ts_Put c key value version cli st =
     Option.bind (clerk_Put (kt_kv st) (cc_sched c) key value version) (\<lambda>(kv', err).
     Some (log_put c key value version cli err (st\<lparr>kt_kv := kv'\<rparr>), err))"

section \<open>Sequential loops (kvtest.go)\<close>

definition Fatalf :: "'a res" where
  "Fatalf = Inl (LogFatal ''test failed'')"

text \<open>\<open>TestClerk\<close> counts the operations of a clerk.\<close>

definition tck_Put :: "attempt list \<Rightarrow> string \<Rightarrow> string \<Rightarrow> Tversion \<Rightarrow> ktest \<Rightarrow> (ktest \<times> Err) option" where
  "tck_Put as key value version st =
     (let st1 = kt_OpInc st in
      Option.bind (clerk_Put (kt_kv st1) as key value version) (\<lambda>(kv', err). Some (st1\<lparr>kt_kv := kv'\<rparr>, err)))"

definition tck_Get :: "attempt list \<Rightarrow> string \<Rightarrow> ktest \<Rightarrow> (ktest \<times> string \<times> Tversion \<times> Err) option" where
  "tck_Get as key st =
     (let st1 = kt_OpInc st in
      Option.bind (clerk_Get (kt_kv st1) as key) (\<lambda>(kv', res). Some (st1\<lparr>kt_kv := kv'\<rparr>, res)))"

fun PutAtLeastOnce :: "ckcall list \<Rightarrow> string \<Rightarrow> string \<Rightarrow> Tversion \<Rightarrow> int \<Rightarrow> ktest \<Rightarrow> (ktest \<times> Tversion) res option" where
  "PutAtLeastOnce [] key value ver me st = None"
| "PutAtLeastOnce (c # cs) key value ver me st =
     Option.bind (ts_Put c key value ver me st) (\<lambda>(st', err).
     if err = OK then Some (Inr (st', ver + 1))
     else if err = ErrMaybe \<or> err = ErrVersion then PutAtLeastOnce cs key value (ver + 1) me st'
     else if ver \<noteq> 0 then Some Fatalf
     else PutAtLeastOnce cs key value ver me st')"

definition CheckGet :: "ckcall \<Rightarrow> string \<Rightarrow> string \<Rightarrow> Tversion \<Rightarrow> ktest \<Rightarrow> ktest res option" where
  "CheckGet c key value version st =
     Option.bind (ts_Get c key 0 st) (\<lambda>(st', val, ver, err).
     if err \<noteq> OK then Some Fatalf
     else if val \<noteq> value \<or> ver \<noteq> version then Some Fatalf
     else Some (Inr st'))"

definition GetJson :: "(string \<Rightarrow> 'v option) \<Rightarrow> ckcall \<Rightarrow> string \<Rightarrow> int \<Rightarrow> ktest \<Rightarrow> (ktest \<times> 'v \<times> Tversion) res option" where
  "GetJson dec c key me st =
     Option.bind (kvt_Get c key me st) (\<lambda>(st', val, ver, err).
     if err = OK then (case dec val of None \<Rightarrow> Some Fatalf | Some v \<Rightarrow> Some (Inr (st', v, ver)))
     else Some Fatalf)"

definition PutJson :: "('v \<Rightarrow> string option) \<Rightarrow> ckcall \<Rightarrow> string \<Rightarrow> 'v \<Rightarrow> Tversion \<Rightarrow> int \<Rightarrow> ktest \<Rightarrow> (ktest \<times> Err) res option" where
  "PutJson enc c key v ver me st =
     (case enc v of None \<Rightarrow> Some Fatalf | Some b \<Rightarrow> map_option Inr (kvt_Put c key b ver me st))"

fun PutAtLeastOnceJson ::
  "('v \<Rightarrow> string option) \<Rightarrow> ckcall list \<Rightarrow> string \<Rightarrow> 'v \<Rightarrow> Tversion \<Rightarrow> int \<Rightarrow> ktest \<Rightarrow> (ktest \<times> Tversion) res option" where
  "PutAtLeastOnceJson enc [] key value ver me st = None"
| "PutAtLeastOnceJson enc (c # cs) key value ver me st =
     Option.bind (PutJson enc c key value 0 me st) (\<lambda>r.
     case r of
       Inl f \<Rightarrow> Some (Inl f)
     | Inr (st', err) \<Rightarrow>
         if err \<noteq> ErrMaybe then Some (Inr (st', ver))
         else PutAtLeastOnceJson enc cs key value (ver + 1) me st')"

record ClntRes =
  Nok :: nat
  Nmaybe :: nat

section \<open>Concurrent puts\<close>

record EntryV =
  ev_Id :: nat
  ev_V :: Tversion

text \<open>The check reads the key first; a key that is missing or a value that is no entry fails the test.\<close>

definition CheckPutConcurrent :: "(string \<Rightarrow> EntryV option) \<Rightarrow> ckcall \<Rightarrow> string \<Rightarrow> ClntRes list \<Rightarrow> ClntRes \<Rightarrow> bool \<Rightarrow> ktest
    \<Rightarrow> (ktest \<times> ClntRes) res option" where
  "CheckPutConcurrent dec c key rs res reliable st =
     Option.bind (GetJson dec c key (-1) st) (\<lambda>r.
     case r of
       Inl f \<Rightarrow> Some (Inl f)
     | Inr (st', e, ver0) \<Rightarrow>
         (let res' = foldl (\<lambda>a r. a\<lparr>Nok := Nok a + Nok r, Nmaybe := Nmaybe a + Nmaybe r\<rparr>) res rs in
          Some (if reliable then (if ver0 \<noteq> of_nat (Nok res') then Fatalf else Inr (st', res'))
                else if ver0 > of_nat (Nok res' + Nmaybe res') then Fatalf
                else Inr (st', res'))))"

text \<open>One pass of the loop of \<open>OnePut\<close> after its put: the error is looked at, the key is read back and compared. The result
  says with which version and outcome the loop returns, or which version it goes on with.\<close>

definition oneput_err_ok :: "Err \<Rightarrow> bool" where
  "oneput_err_ok err \<longleftrightarrow> err = OK \<or> err = ErrVersion \<or> err = ErrMaybe"

definition oneput_back :: "(string \<Rightarrow> EntryV option) \<Rightarrow> nat \<Rightarrow> Tversion \<Rightarrow> Err \<Rightarrow> string \<times> Tversion \<times> Err \<Rightarrow> (Tversion \<times> bool option) res" where
  "oneput_back dec me ver err got = (case got of (val, ver0, gerr) \<Rightarrow>
     if gerr \<noteq> OK then Fatalf
     else (case dec val of
       None \<Rightarrow> Fatalf
     | Some e \<Rightarrow>
         if err = OK \<and> ver0 = ver + 1 \<and> ev_Id e \<noteq> me \<and> ev_V e \<noteq> ver then Fatalf
         else if err = OK \<or> err = ErrMaybe then Inr (ver0, Some (err = OK))
         else Inr (ver0, None)))"

fun OnePut :: "(EntryV \<Rightarrow> string option) \<Rightarrow> (string \<Rightarrow> EntryV option) \<Rightarrow> (ckcall \<times> ckcall) list \<Rightarrow> nat \<Rightarrow> string \<Rightarrow> Tversion
    \<Rightarrow> ktest \<Rightarrow> (ktest \<times> Tversion \<times> bool) res option" where
  "OnePut enc dec [] me key ver st = None"
| "OnePut enc dec ((c, g) # cs) me key ver st =
     Option.bind (PutJson enc c key \<lparr>ev_Id = me, ev_V = ver\<rparr> ver (int me) st) (\<lambda>r.
     case r of
       Inl f \<Rightarrow> Some (Inl f)
     | Inr (st1, err) \<Rightarrow>
         if \<not> oneput_err_ok err then Some Fatalf
         else Option.bind (kvt_Get g key (int me) st1) (\<lambda>(st2, got).
           case oneput_back dec me ver err got of
             Inl f \<Rightarrow> Some (Inl f)
           | Inr (ver', Some ok) \<Rightarrow> Some (Inr (st2, ver', ok))
           | Inr (ver', None) \<Rightarrow> OnePut enc dec cs me key ver' st2))"

text \<open>What \<open>OneClientPut\<close> does with the answer of \<open>OnePut\<close>.\<close>

definition count_put :: "bool \<Rightarrow> ClntRes \<Rightarrow> ClntRes" where
  "count_put ok res = (if ok then res\<lparr>Nok := Nok res + 1\<rparr> else res\<lparr>Nmaybe := Nmaybe res + 1\<rparr>)"

section \<open>Other helpers\<close>

definition MakeKeys :: "nat \<Rightarrow> string list" where
  "MakeKeys n = map (\<lambda>i. ''k'' @ itoa i) [0..<n]"

fun put_each :: "attempt list list \<Rightarrow> string list \<Rightarrow> string list \<Rightarrow> KVServer \<Rightarrow> KVServer option" where
  "put_each (as # ass) (k # ks) (v # vs) kv =
     Option.bind (clerk_Put kv as k v 0) (\<lambda>(kv', _). put_each ass ks vs kv')"
| "put_each ass [] vs kv = Some kv"
| "put_each ass ks [] kv = Some kv"
| "put_each [] ks vs kv = None"

fun check_each :: "ckcall list \<Rightarrow> string list \<Rightarrow> string list \<Rightarrow> ktest \<Rightarrow> ktest res option" where
  "check_each (c # cs) (k # ks) (v # vs) st =
     Option.bind (CheckGet c k v 1 st) (\<lambda>r. case r of Inl f \<Rightarrow> Some (Inl f) | Inr st' \<Rightarrow> check_each cs ks vs st')"
| "check_each cs [] vs st = Some (Inr st)"
| "check_each cs ks [] st = Some (Inr st)"
| "check_each [] ks vs st = None"

text \<open>\<open>va\<close> are the random values drawn; the puts go to the clerk and are not recorded.\<close>

definition SpreadPutsSize :: "attempt list list \<Rightarrow> ckcall list \<Rightarrow> nat \<Rightarrow> string list \<Rightarrow> ktest \<Rightarrow> (ktest \<times> string list \<times> string list) res option" where
  "SpreadPutsSize ass cs n va st =
     (let ka = MakeKeys n in
      Option.bind (put_each ass ka va (kt_kv st)) (\<lambda>kv'.
      Option.bind (check_each cs ka va (st\<lparr>kt_kv := kv'\<rparr>)) (\<lambda>r.
      case r of Inl f \<Rightarrow> Some (Inl f) | Inr st' \<Rightarrow> Some (Inr (st', ka, va)))))"

text \<open>The lists \<open>Partitioner\<close> makes of random bits, before it partitions the group with them.\<close>

definition random_parts :: "nat list \<Rightarrow> nat list list" where
  "random_parts a = map (\<lambda>i. filter (\<lambda>j. a ! j = i) [0..<length a]) [0..<2]"

record EntryN =
  en_Id :: nat
  en_N :: nat

text \<open>The loop of \<open>CheckAppends\<close> over the entries.\<close>

fun appends_loop :: "EntryN list \<Rightarrow> (nat \<Rightarrow> nat) \<Rightarrow> (nat \<Rightarrow> nat) \<Rightarrow> ((nat \<Rightarrow> nat) \<times> (nat \<Rightarrow> nat)) res" where
  "appends_loop [] expect skipped = Inr (expect, skipped)"
| "appends_loop (e # es) expect skipped =
     (if expect (en_Id e) > en_N e then Fatalf
      else if expect (en_Id e) = en_N e then appends_loop es (expect(en_Id e := expect (en_Id e) + 1)) skipped
      else appends_loop es (expect(en_Id e := en_N e + 1))
             (skipped(en_Id e := skipped (en_Id e) + (en_N e - expect (en_Id e)))))"

fun check_clients :: "nat list \<Rightarrow> (nat \<Rightarrow> nat) \<Rightarrow> (nat \<Rightarrow> nat) \<Rightarrow> ClntRes list \<Rightarrow> unit res" where
  "check_clients [] expect skipped rs = Inr ()"
| "check_clients (c # cs) expect skipped rs =
     rbind (slice_get rs (int c)) (\<lambda>r.
     if skipped c > Nmaybe r then Fatalf
     else if expect c > Nok r + Nmaybe r then Fatalf
     else check_clients cs expect skipped rs)"

definition CheckAppends :: "EntryN list \<Rightarrow> nat \<Rightarrow> ClntRes list \<Rightarrow> Tversion \<Rightarrow> unit res" where
  "CheckAppends es nclnt rs ver =
     rbind (appends_loop es (\<lambda>_. 0) (\<lambda>_. 0)) (\<lambda>(expect, skipped).
     if int (length es) + 1 \<noteq> sint ver then Fatalf
     else check_clients (remdups ([0..<nclnt] @ map en_Id es)) expect skipped rs)"

section \<open>Any number of clients putting to one key\<close>

text \<open>
  \<open>OneClientPut\<close> of \<open>n\<close> clients, cut at the clerk calls of \<open>OnePut\<close> and at the attempts of a put, as in \<^term>\<open>lock_step\<close>. The
  flag of \<open>PtPut\<close> says that the clerk is past its first attempt; \<open>PtBack err\<close> is the read after a put that answered
  \<open>err\<close>. \<open>pt_credit\<close> counts the executions that changed the server and is not seen by the program.
\<close>

datatype put_pc = PtIdle | PtPut bool | PtBack Err

record put_sys =
  pt_kv :: KVServer
  pt_pc :: "nat \<Rightarrow> put_pc"
  pt_ver :: "nat \<Rightarrow> Tversion"
  pt_res :: "nat \<Rightarrow> ClntRes"
  pt_credit :: "nat \<Rightarrow> nat"

definition put_args :: "(EntryV \<Rightarrow> string) \<Rightarrow> string \<Rightarrow> nat \<Rightarrow> Tversion \<Rightarrow> PutArgs" where
  "put_args enc key i ver = \<lparr>pa_Key = key, pa_Value = enc \<lparr>ev_Id = i, ev_V = ver\<rparr>, pa_Version = ver\<rparr>"

definition exec_put :: "PutArgs \<Rightarrow> nat \<Rightarrow> put_sys \<Rightarrow> put_sys" where
  "exec_put args i s =
     s\<lparr>pt_kv := fst (kv_Put (pt_kv s) args zeroPutReply),
       pt_credit := (pt_credit s)(i := pt_credit s i + (if put_applies (pt_kv s) args then 1 else 0))\<rparr>"

definition put_answer :: "bool \<Rightarrow> KVServer \<Rightarrow> PutArgs \<Rightarrow> Err" where
  "put_answer retried kv args =
     (let e = pr_Err (snd (kv_Put kv args zeroPutReply)) in if retried \<and> e = ErrVersion then ErrMaybe else e)"

definition read_key :: "KVServer \<Rightarrow> string \<Rightarrow> string \<times> Tversion \<times> Err" where
  "read_key kv key = (let r = ck_Get kv key in (gr_Value r, gr_Version r, gr_Err r))"

definition after_back :: "nat \<Rightarrow> Tversion \<times> bool option \<Rightarrow> put_sys \<Rightarrow> put_sys" where
  "after_back i r s = (case r of (ver', out) \<Rightarrow>
     s\<lparr>pt_ver := (pt_ver s)(i := ver'),
       pt_pc := (pt_pc s)(i := (case out of None \<Rightarrow> PtPut False | Some _ \<Rightarrow> PtIdle)),
       pt_res := (pt_res s)(i := (case out of None \<Rightarrow> pt_res s i | Some ok \<Rightarrow> count_put ok (pt_res s i)))\<rparr>)"

inductive put_step :: "(EntryV \<Rightarrow> string) \<Rightarrow> (string \<Rightarrow> EntryV option) \<Rightarrow> string \<Rightarrow> nat \<Rightarrow> bool \<Rightarrow> put_sys \<Rightarrow> put_sys \<Rightarrow> bool"
  for enc dec key n reliable where
  start_put: "i < n \<Longrightarrow> pt_pc s i = PtIdle \<Longrightarrow> put_step enc dec key n reliable s (s\<lparr>pt_pc := (pt_pc s)(i := PtPut False)\<rparr>)"
| request_lost: "i < n \<Longrightarrow> \<not> reliable \<Longrightarrow> pt_pc s i = PtPut r
    \<Longrightarrow> put_step enc dec key n reliable s (s\<lparr>pt_pc := (pt_pc s)(i := PtPut True)\<rparr>)"
| reply_lost: "i < n \<Longrightarrow> \<not> reliable \<Longrightarrow> pt_pc s i = PtPut r \<Longrightarrow> args = put_args enc key i (pt_ver s i)
    \<Longrightarrow> put_step enc dec key n reliable s ((exec_put args i s)\<lparr>pt_pc := (pt_pc s)(i := PtPut True)\<rparr>)"
| delivered: "i < n \<Longrightarrow> pt_pc s i = PtPut r \<Longrightarrow> args = put_args enc key i (pt_ver s i)
    \<Longrightarrow> err = put_answer r (pt_kv s) args \<Longrightarrow> oneput_err_ok err
    \<Longrightarrow> put_step enc dec key n reliable s ((exec_put args i s)\<lparr>pt_pc := (pt_pc s)(i := PtBack err)\<rparr>)"
| read_back: "i < n \<Longrightarrow> pt_pc s i = PtBack err \<Longrightarrow> oneput_back dec i (pt_ver s i) err (read_key (pt_kv s) key) = Inr out
    \<Longrightarrow> put_step enc dec key n reliable s (after_back i out s)"

definition put_init :: "put_sys \<Rightarrow> bool" where
  "put_init s \<longleftrightarrow> pt_kv s = MakeKVServer \<and> (\<forall>i. pt_pc s i = PtIdle \<and> pt_ver s i = 0 \<and> pt_res s i = \<lparr>Nok = 0, Nmaybe = 0\<rparr>
     \<and> pt_credit s i = 0)"

text \<open>What the counters of a client say: between calls, and while a put that was applied has not been counted.\<close>

definition counted :: "ClntRes \<Rightarrow> nat \<Rightarrow> bool" where
  "counted res credit \<longleftrightarrow> Nok res \<le> credit \<and> credit \<le> Nok res + Nmaybe res"

definition uncounted :: "ClntRes \<Rightarrow> nat \<Rightarrow> bool" where
  "uncounted res credit \<longleftrightarrow> Nok res + 1 \<le> credit \<and> credit \<le> Nok res + Nmaybe res + 1"

definition client_ok :: "(EntryV \<Rightarrow> string) \<Rightarrow> string \<Rightarrow> bool \<Rightarrow> put_sys \<Rightarrow> nat \<Rightarrow> bool" where
  "client_ok enc key reliable s i \<longleftrightarrow>
     unat (pt_ver s i) \<le> unat (ver_of (pt_kv s) key) \<and> (reliable \<longrightarrow> Nmaybe (pt_res s i) = 0)
     \<and> (case pt_pc s i of
          PtIdle \<Rightarrow> counted (pt_res s i) (pt_credit s i)
        | PtPut r \<Rightarrow> (reliable \<longrightarrow> \<not> r) \<and> (counted (pt_res s i) (pt_credit s i)
            \<or> r \<and> uncounted (pt_res s i) (pt_credit s i) \<and> unat (pt_ver s i) < unat (ver_of (pt_kv s) key))
        | PtBack err \<Rightarrow> kv_data (pt_kv s) key \<noteq> None \<and>
            (err = OK \<and> uncounted (pt_res s i) (pt_credit s i) \<and> unat (pt_ver s i) < unat (ver_of (pt_kv s) key)
               \<and> (ver_of (pt_kv s) key = pt_ver s i + 1 \<longrightarrow> val_of (pt_kv s) key = enc \<lparr>ev_Id = i, ev_V = pt_ver s i\<rparr>)
             \<or> err = ErrVersion \<and> counted (pt_res s i) (pt_credit s i)
             \<or> err = ErrMaybe \<and> \<not> reliable \<and> (counted (pt_res s i) (pt_credit s i) \<or> uncounted (pt_res s i) (pt_credit s i))))"

definition put_inv :: "(EntryV \<Rightarrow> string) \<Rightarrow> string \<Rightarrow> nat \<Rightarrow> bool \<Rightarrow> put_sys \<Rightarrow> bool" where
  "put_inv enc key n reliable s \<longleftrightarrow>
     unat (ver_of (pt_kv s) key) = (\<Sum>i<n. pt_credit s i)
     \<and> (kv_data (pt_kv s) key \<noteq> None \<longrightarrow> (\<exists>e. val_of (pt_kv s) key = enc e))
     \<and> (\<forall>i<n. client_ok enc key reliable s i)"

lemma put_init_inv: "put_init s \<Longrightarrow> put_inv enc key n reliable s"
  by (auto simp: put_init_def put_inv_def client_ok_def counted_def MakeKVServer_def ver_of_def)

text \<open>One execution of a put, seen from the counters.\<close>

lemma exec_put_cases:
  assumes b: "unat (ver_of kv key) + 1 < 2 ^ 64" and a: "args = put_args enc key i ver"
  obtains (hit) "put_applies kv args" "ver = ver_of kv key"
      "unat (ver_of (fst (kv_Put kv args zeroPutReply)) key) = unat (ver_of kv key) + 1"
      "ver_of (fst (kv_Put kv args zeroPutReply)) key = ver + 1"
      "val_of (fst (kv_Put kv args zeroPutReply)) key = enc \<lparr>ev_Id = i, ev_V = ver\<rparr>"
      "kv_data (fst (kv_Put kv args zeroPutReply)) key \<noteq> None"
  | (miss) "\<not> put_applies kv args" "fst (kv_Put kv args zeroPutReply) = kv" "ver \<noteq> ver_of kv key"
proof (cases "put_applies kv args")
  case True
  then have v: "ver = ver_of kv key" using put_applies_iff [of kv args] by (simp add: a put_args_def)
  have "ver_of (fst (kv_Put kv args zeroPutReply)) key = ver + 1" using put_applies_ver [OF True] by (simp add: a put_args_def)
  moreover have "unat (ver + 1) = unat (ver_of kv key) + 1" using v b by (simp add: unat_inc)
  moreover have "val_of (fst (kv_Put kv args zeroPutReply)) key = enc \<lparr>ev_Id = i, ev_V = ver\<rparr>"
    using kvs.put_hit_val [of kv key ver] v by (simp add: a put_args_def)
  ultimately show ?thesis using hit True v put_applies_key [OF True] by (simp add: a put_args_def)
next
  case False
  then show ?thesis using miss put_not_applies [OF False] put_applies_iff [of kv args] by (auto simp: a put_args_def)
qed

lemma sum_credit:
  fixes f :: "nat \<Rightarrow> nat"
  shows "i < n \<Longrightarrow> (\<Sum>j<n. (f(i := f i + d)) j) = (\<Sum>j<n. f j) + d"
  by (simp add: sum.remove [where x = i])

text \<open>Another client's execution does not disturb a client.\<close>

lemma client_ok_other:
  assumes b: "unat (ver_of (pt_kv s) key) + 1 < 2 ^ 64" and a: "args = put_args enc key i (pt_ver s i)" and j: "j \<noteq> i"
    and ok: "client_ok enc key reliable s j"
  shows "client_ok enc key reliable ((exec_put args i s)\<lparr>pt_pc := (pt_pc s)(i := p)\<rparr>) j"
  using b a
proof (cases rule: exec_put_cases)
  case hit
  have "ver_of (pt_kv s) key + 1 \<noteq> pt_ver s j + 1" if "unat (pt_ver s j) < unat (ver_of (pt_kv s) key)" using that by auto
  moreover have "ver_of (fst (kv_Put (pt_kv s) args zeroPutReply)) key = ver_of (pt_kv s) key + 1" using hit(2,4) by simp
  ultimately show ?thesis using ok j hit(3,6) by (auto simp: client_ok_def exec_put_def split: put_pc.splits)
next
  case miss
  then show ?thesis using ok j by (auto simp: client_ok_def exec_put_def split: put_pc.splits)
qed

lemma put_inv_exec:
  assumes inv: "put_inv enc key n reliable s" and b: "unat (ver_of (pt_kv s) key) + 1 < 2 ^ 64" and i: "i < n"
    and a: "args = put_args enc key i (pt_ver s i)"
    and self: "client_ok enc key reliable ((exec_put args i s)\<lparr>pt_pc := (pt_pc s)(i := p)\<rparr>) i"
  shows "put_inv enc key n reliable ((exec_put args i s)\<lparr>pt_pc := (pt_pc s)(i := p)\<rparr>)"
proof -
  have s: "unat (ver_of (pt_kv s) key) = (\<Sum>i<n. pt_credit s i)" "kv_data (pt_kv s) key \<noteq> None \<longrightarrow> (\<exists>e. val_of (pt_kv s) key = enc e)"
    "\<And>j. j < n \<Longrightarrow> client_ok enc key reliable s j" using inv by (auto simp: put_inv_def)
  have "client_ok enc key reliable ((exec_put args i s)\<lparr>pt_pc := (pt_pc s)(i := p)\<rparr>) j" if "j < n" for j
    using client_ok_other [OF b a _ s(3) [OF that]] self by (cases "j = i") auto
  moreover have "unat (ver_of (fst (kv_Put (pt_kv s) args zeroPutReply)) key) = (\<Sum>j<n. pt_credit (exec_put args i s) j)
      \<and> (kv_data (fst (kv_Put (pt_kv s) args zeroPutReply)) key \<noteq> None \<longrightarrow> (\<exists>e. val_of (fst (kv_Put (pt_kv s) args zeroPutReply)) key = enc e))"
    using b a
  proof (cases rule: exec_put_cases)
    case hit
    then show ?thesis using s(1) i sum_credit [OF i, of "pt_credit s" 1] by (auto simp: exec_put_def)
  next
    case miss
    then show ?thesis using s by (simp add: exec_put_def)
  qed
  ultimately show ?thesis by (simp add: put_inv_def exec_put_def)
qed

lemma put_inv_local:
  assumes inv: "put_inv enc key n reliable s" and i: "i < n"
    and t: "pt_kv t = pt_kv s" "pt_credit t = pt_credit s" "\<And>j. j \<noteq> i \<Longrightarrow> pt_pc t j = pt_pc s j \<and> pt_ver t j = pt_ver s j \<and> pt_res t j = pt_res s j"
    and self: "client_ok enc key reliable t i"
  shows "put_inv enc key n reliable t"
proof -
  have "client_ok enc key reliable t j" if "j < n" for j
  proof (cases "j = i")
    case False
    have "client_ok enc key reliable s j" using inv that by (simp add: put_inv_def)
    then show ?thesis using t(1,2) t(3) [OF False] by (simp add: client_ok_def cong: put_pc.case_cong)
  qed (use self in simp)
  then show ?thesis using inv t(1,2) by (simp add: put_inv_def)
qed

lemma put_invD:
  assumes "put_inv enc key n reliable s" "i < n"
  shows "unat (pt_ver s i) \<le> unat (ver_of (pt_kv s) key)" "reliable \<Longrightarrow> Nmaybe (pt_res s i) = 0"
    "pt_pc s i = PtIdle \<Longrightarrow> counted (pt_res s i) (pt_credit s i)"
    "pt_pc s i = PtPut r \<Longrightarrow> (reliable \<longrightarrow> \<not> r) \<and> (counted (pt_res s i) (pt_credit s i)
      \<or> r \<and> uncounted (pt_res s i) (pt_credit s i) \<and> unat (pt_ver s i) < unat (ver_of (pt_kv s) key))"
    "pt_pc s i = PtBack err \<Longrightarrow> kv_data (pt_kv s) key \<noteq> None \<and>
      (err = OK \<and> uncounted (pt_res s i) (pt_credit s i) \<and> unat (pt_ver s i) < unat (ver_of (pt_kv s) key)
         \<and> (ver_of (pt_kv s) key = pt_ver s i + 1 \<longrightarrow> val_of (pt_kv s) key = enc \<lparr>ev_Id = i, ev_V = pt_ver s i\<rparr>)
       \<or> err = ErrVersion \<and> counted (pt_res s i) (pt_credit s i)
       \<or> err = ErrMaybe \<and> \<not> reliable \<and> (counted (pt_res s i) (pt_credit s i) \<or> uncounted (pt_res s i) (pt_credit s i)))"
proof -
  have "client_ok enc key reliable s i" using assms by (simp add: put_inv_def)
  then show "unat (pt_ver s i) \<le> unat (ver_of (pt_kv s) key)" "reliable \<Longrightarrow> Nmaybe (pt_res s i) = 0"
    "pt_pc s i = PtIdle \<Longrightarrow> counted (pt_res s i) (pt_credit s i)"
    "pt_pc s i = PtPut r \<Longrightarrow> (reliable \<longrightarrow> \<not> r) \<and> (counted (pt_res s i) (pt_credit s i)
      \<or> r \<and> uncounted (pt_res s i) (pt_credit s i) \<and> unat (pt_ver s i) < unat (ver_of (pt_kv s) key))"
    "pt_pc s i = PtBack err \<Longrightarrow> kv_data (pt_kv s) key \<noteq> None \<and>
      (err = OK \<and> uncounted (pt_res s i) (pt_credit s i) \<and> unat (pt_ver s i) < unat (ver_of (pt_kv s) key)
         \<and> (ver_of (pt_kv s) key = pt_ver s i + 1 \<longrightarrow> val_of (pt_kv s) key = enc \<lparr>ev_Id = i, ev_V = pt_ver s i\<rparr>)
       \<or> err = ErrVersion \<and> counted (pt_res s i) (pt_credit s i)
       \<or> err = ErrMaybe \<and> \<not> reliable \<and> (counted (pt_res s i) (pt_credit s i) \<or> uncounted (pt_res s i) (pt_credit s i)))"
    unfolding client_ok_def by simp_all
qed

text \<open>A put that does not know the key cannot happen: the version a client has is not ahead of the server's.\<close>

lemma put_answer_ok:
  assumes "put_inv enc key n reliable s" "i < n" and a: "args = put_args enc key i (pt_ver s i)"
  shows "oneput_err_ok (put_answer r (pt_kv s) args)"
proof -
  have "pr_Err (snd (kv_Put (pt_kv s) args zeroPutReply)) \<noteq> ErrNoKey"
  proof
    assume "pr_Err (snd (kv_Put (pt_kv s) args zeroPutReply)) = ErrNoKey"
    then have "kv_data (pt_kv s) key = None" "pt_ver s i \<noteq> 0" using put_nokey_iff [of "pt_kv s" args] by (auto simp: a put_args_def)
    then show False using put_invD(1) [OF assms(1,2)] by (auto simp: ver_of_def unat_eq_zero)
  qed
  then show ?thesis using put_reply_cases [of "pt_kv s" args] by (auto simp: put_answer_def oneput_err_ok_def Let_def)
qed

lemma reply_lost_self:
  assumes inv: "put_inv enc key n reliable s" and b: "unat (ver_of (pt_kv s) key) + 1 < 2 ^ 64" and i: "i < n"
    and a: "args = put_args enc key i (pt_ver s i)" and pc: "pt_pc s i = PtPut r" and rel: "\<not> reliable"
  shows "client_ok enc key reliable ((exec_put args i s)\<lparr>pt_pc := (pt_pc s)(i := PtPut True)\<rparr>) i"
  using b a
proof (cases rule: exec_put_cases)
  case hit
  then have "counted (pt_res s i) (pt_credit s i)" using put_invD(4) [OF inv i pc] by auto
  then show ?thesis using hit(1,2,3) rel by (simp add: client_ok_def exec_put_def counted_def uncounted_def)
next
  case miss
  then show ?thesis using put_invD(1) [OF inv i] put_invD(4) [OF inv i pc] rel by (auto simp: client_ok_def exec_put_def)
qed

lemma delivered_self:
  assumes inv: "put_inv enc key n reliable s" and b: "unat (ver_of (pt_kv s) key) + 1 < 2 ^ 64" and i: "i < n"
    and a: "args = put_args enc key i (pt_ver s i)" and pc: "pt_pc s i = PtPut r" and e: "err = put_answer r (pt_kv s) args"
  shows "client_ok enc key reliable ((exec_put args i s)\<lparr>pt_pc := (pt_pc s)(i := PtBack err)\<rparr>) i"
  using b a
proof (cases rule: exec_put_cases)
  case hit
  then have "counted (pt_res s i) (pt_credit s i)" using put_invD(4) [OF inv i pc] by auto
  moreover have "err = OK" using hit(1) by (simp add: e put_answer_def put_applies_def)
  ultimately show ?thesis using hit put_invD(2) [OF inv i] by (simp add: client_ok_def exec_put_def counted_def uncounted_def)
next
  case miss
  have ne: "pr_Err (snd (kv_Put (pt_kv s) args zeroPutReply)) = ErrVersion"
    using miss(1) put_reply_cases [of "pt_kv s" args] put_answer_ok [OF inv i a, of False]
    by (auto simp: put_applies_def put_answer_def oneput_err_ok_def)
  then have ex: "kv_data (pt_kv s) key \<noteq> None" by (auto simp: kv_Put_def a put_args_def split: option.splits if_splits)
  have "err = (if r then ErrMaybe else ErrVersion)" using ne by (simp add: e put_answer_def)
  then show ?thesis using miss(1,2) ex put_invD(1,2) [OF inv i] put_invD(4) [OF inv i pc] by (auto simp: client_ok_def exec_put_def)
qed

text \<open>The read after a put: it finds the key, the value decodes, and a client that was told \<open>OK\<close> and sees the next version
  finds its own entry.\<close>

lemma read_key_eq: "kv_data kv key \<noteq> None \<Longrightarrow> read_key kv key = (val_of kv key, ver_of kv key, OK)"
  by (auto simp: read_key_def kv_Get_def val_of_def ver_of_def split: option.splits)

lemma read_back_total:
  assumes inv: "put_inv enc key n reliable s" and i: "i < n" and codec: "\<And>e. dec (enc e) = Some e" and pc: "pt_pc s i = PtBack err"
  shows "oneput_back dec i (pt_ver s i) err (read_key (pt_kv s) key)
    = Inr (ver_of (pt_kv s) key, if err = OK then Some True else if err = ErrMaybe then Some False else None)"
proof -
  note p = put_invD(5) [OF inv i pc]
  obtain e where e: "val_of (pt_kv s) key = enc e" using inv p by (auto simp: put_inv_def)
  have "\<not> (err = OK \<and> ver_of (pt_kv s) key = pt_ver s i + 1 \<and> ev_Id e \<noteq> i \<and> ev_V e \<noteq> pt_ver s i)"
  proof
    assume a: "err = OK \<and> ver_of (pt_kv s) key = pt_ver s i + 1 \<and> ev_Id e \<noteq> i \<and> ev_V e \<noteq> pt_ver s i"
    then have "enc e = enc \<lparr>ev_Id = i, ev_V = pt_ver s i\<rparr>" using p e by auto
    then have "Some e = Some \<lparr>ev_Id = i, ev_V = pt_ver s i\<rparr>" unfolding codec [symmetric] by (rule arg_cong)
    then show False using a by simp
  qed
  moreover have "err = OK \<or> err = ErrVersion \<or> err = ErrMaybe" "kv_data (pt_kv s) key \<noteq> None" using p by auto
  ultimately show ?thesis using e codec by (auto simp: oneput_back_def read_key_eq)
qed

lemma read_back_self:
  assumes inv: "put_inv enc key n reliable s" and i: "i < n" and pc: "pt_pc s i = PtBack err"
    and t: "t = after_back i (ver_of (pt_kv s) key, if err = OK then Some True else if err = ErrMaybe then Some False else None) s"
  shows "client_ok enc key reliable t i"
  using put_invD(5) [OF inv i pc] put_invD(2) [OF inv i]
  by (auto simp: t client_ok_def after_back_def count_put_def counted_def uncounted_def)

lemma put_step_inv:
  assumes st: "put_step enc dec key n reliable s t" and inv: "put_inv enc key n reliable s"
    and b: "unat (ver_of (pt_kv s) key) + 1 < 2 ^ 64" and codec: "\<And>e. dec (enc e) = Some e"
  shows "put_inv enc key n reliable t \<and> (\<Sum>i<n. pt_credit t i) \<le> (\<Sum>i<n. pt_credit s i) + 1"
  using st
proof cases
  case (start_put i)
  have "put_inv enc key n reliable t"
    by (rule put_inv_local [OF inv start_put(2)])
       (use start_put put_invD(1,2,3) [OF inv start_put(2)] in \<open>auto simp: client_ok_def\<close>)
  then show ?thesis using start_put by simp
next
  case (request_lost i r)
  have "put_inv enc key n reliable t"
    by (rule put_inv_local [OF inv request_lost(2)])
       (use request_lost put_invD(1,2) [OF inv request_lost(2)] put_invD(4) [OF inv request_lost(2,4)] in \<open>auto simp: client_ok_def\<close>)
  then show ?thesis using request_lost by simp
next
  case (reply_lost i r args)
  have "put_inv enc key n reliable t"
    unfolding reply_lost(1)
    by (rule put_inv_exec [OF inv b reply_lost(2,5) reply_lost_self [OF inv b reply_lost(2,5,4,3)]])
  moreover have "(\<Sum>j<n. pt_credit t j) = (\<Sum>j<n. pt_credit s j) + (if put_applies (pt_kv s) args then 1 else 0)"
    using sum_credit [OF reply_lost(2)] by (simp add: reply_lost(1) exec_put_def)
  ultimately show ?thesis by simp
next
  case (delivered i r args err)
  have "put_inv enc key n reliable t"
    unfolding delivered(1)
    by (rule put_inv_exec [OF inv b delivered(2,4) delivered_self [OF inv b delivered(2,4,3,5)]])
  moreover have "(\<Sum>j<n. pt_credit t j) = (\<Sum>j<n. pt_credit s j) + (if put_applies (pt_kv s) args then 1 else 0)"
    using sum_credit [OF delivered(2)] by (simp add: delivered(1) exec_put_def)
  ultimately show ?thesis by simp
next
  case (read_back i err out)
  have t: "t = after_back i (ver_of (pt_kv s) key, if err = OK then Some True else if err = ErrMaybe then Some False else None) s"
    using read_back(1,4) read_back_total [OF inv read_back(2) codec read_back(3)] by simp
  have "put_inv enc key n reliable t"
    by (rule put_inv_local [OF inv read_back(2) _ _ _ read_back_self [OF inv read_back(2,3) t]]) (auto simp: t after_back_def)
  then show ?thesis by (simp add: t after_back_def)
qed

lemma put_reach_inv:
  assumes "reach_in put_init (put_step enc dec key n reliable) m s" "m < 2 ^ 64 - 1" and codec: "\<And>e. dec (enc e) = Some e"
  shows "put_inv enc key n reliable s \<and> (\<Sum>i<n. pt_credit s i) \<le> m"
  using assms(1,2)
proof (induction rule: reach_in.induct)
  case (reach_in_init s)
  then show ?case using put_init_inv by (auto simp: put_init_def)
next
  case (reach_in_step m s t)
  then have "put_inv enc key n reliable s" "(\<Sum>i<n. pt_credit s i) \<le> m" by simp_all
  moreover from this have "unat (ver_of (pt_kv s) key) + 1 < 2 ^ 64" using reach_in_step.prems by (simp add: put_inv_def)
  ultimately show ?case using put_step_inv [OF reach_in_step.hyps(2) _ _ codec] by fastforce
qed

lemma fold_res:
  "foldl (\<lambda>a r. a\<lparr>Nok := Nok a + Nok r, Nmaybe := Nmaybe a + Nmaybe r\<rparr>) res rs
     = res\<lparr>Nok := Nok res + sum_list (map Nok rs), Nmaybe := Nmaybe res + sum_list (map Nmaybe rs)\<rparr>"
  by (induction rs arbitrary: res) (auto simp: add.assoc)

text \<open>A read with no put in between gets through once its request and its reply do.\<close>

definition quiet_sched :: "attempt list \<Rightarrow> bool" where
  "quiet_sched as \<longleftrightarrow> (\<forall>a \<in> set as. fst a = []) \<and> Delivered \<in> snd ` set as"

lemma clerk_Get_quiet: "quiet_sched as \<Longrightarrow> clerk_Get kv as key = Some (kv, read_key kv key)"
proof (induction as)
  case (Cons a as)
  then show ?case by (cases a; cases "snd a = Delivered") (auto simp: quiet_sched_def read_key_def Let_def)
qed (simp add: quiet_sched_def)

lemma GetJson_quiet:
  assumes "quiet_sched (cc_sched c)" "kv_data (kt_kv st) key \<noteq> None" "dec (val_of (kt_kv st) key) = Some v"
  shows "\<exists>st'. GetJson dec c key me st = Some (Inr (st', v, ver_of (kt_kv st) key)) \<and> kt_kv st' = kt_kv st"
  using assms by (auto simp: GetJson_def kvt_Get_def clerk_Get_quiet read_key_eq log_get_def kt_OpInc_def)

lemma CheckPutConcurrent_missing:
  "quiet_sched (cc_sched c) \<Longrightarrow> kv_data (kt_kv st) key = None \<Longrightarrow> CheckPutConcurrent dec c key rs res reliable st = Some Fatalf"
  by (simp add: CheckPutConcurrent_def GetJson_def kvt_Get_def clerk_Get_quiet read_key_def kv_Get_def Fatalf_def)

text \<open>C35: any number of clients put to one key of a fresh server with \<open>OnePut\<close>, over a network that may lose requests and
  replies. None of the checks of \<open>OnePut\<close> ever fails: the answer of a put is one it expects, and the read after it finds a
  value it accepts. When all clients are between two puts, the version of the key lies between the number of puts that
  were answered with \<open>OK\<close> and that number plus the puts answered with \<open>ErrMaybe\<close>, and equals the former on a reliable network.
  If the key exists then, which means that some put was applied, \<open>CheckPutConcurrent\<close>, run on that server with the counts of the
  clients and a read that gets through, accepts; if no put was applied it fails the test, because its read finds no key.\<close>

theorem put_counts_bound_version:
  assumes run: "reach_in put_init (put_step enc dec key n reliable) m s" and m: "m < 2 ^ 64 - 1"
    and codec: "\<And>e. dec (enc e) = Some e"
  shows "(\<forall>i < n. \<forall>r. oneput_err_ok (put_answer r (pt_kv s) (put_args enc key i (pt_ver s i)))) \<and>
    (\<forall>i < n. \<forall>err. pt_pc s i = PtBack err \<longrightarrow> (\<exists>out. oneput_back dec i (pt_ver s i) err (read_key (pt_kv s) key) = Inr out)) \<and>
    ((\<forall>i < n. pt_pc s i = PtIdle) \<longrightarrow>
       (\<Sum>i<n. Nok (pt_res s i)) \<le> unat (ver_of (pt_kv s) key)
       \<and> unat (ver_of (pt_kv s) key) \<le> (\<Sum>i<n. Nok (pt_res s i) + Nmaybe (pt_res s i))
       \<and> (reliable \<longrightarrow> unat (ver_of (pt_kv s) key) = (\<Sum>i<n. Nok (pt_res s i)))
       \<and> ((\<Sum>i<n. Nok (pt_res s i) + Nmaybe (pt_res s i)) < 2 ^ 64 \<longrightarrow>
            (\<forall>c st. quiet_sched (cc_sched c) \<and> kt_kv st = pt_kv s \<longrightarrow>
              (if kv_data (pt_kv s) key = None
               then CheckPutConcurrent dec c key (map (pt_res s) [0..<n]) \<lparr>Nok = 0, Nmaybe = 0\<rparr> reliable st = Some Fatalf
               else \<exists>st' res. CheckPutConcurrent dec c key (map (pt_res s) [0..<n]) \<lparr>Nok = 0, Nmaybe = 0\<rparr> reliable st = Some (Inr (st', res))))))"
proof -
  from put_reach_inv [OF run m codec] have inv: "put_inv enc key n reliable s" by simp
  have v: "unat (ver_of (pt_kv s) key) = (\<Sum>i<n. pt_credit s i)" using inv by (simp add: put_inv_def)
  have sums: "sum_list (map f (map (pt_res s) [0..<n])) = (\<Sum>i<n. f (pt_res s i))" for f
    by (simp add: interv_sum_list_conv_sum_set_nat comp_def atLeast0LessThan sum_set_upt_conv_sum_list_nat [symmetric])
  have final: "(\<Sum>i<n. Nok (pt_res s i)) \<le> unat (ver_of (pt_kv s) key)"
      "unat (ver_of (pt_kv s) key) \<le> (\<Sum>i<n. Nok (pt_res s i) + Nmaybe (pt_res s i))"
      "reliable \<longrightarrow> unat (ver_of (pt_kv s) key) = (\<Sum>i<n. Nok (pt_res s i))" if idle: "\<forall>i < n. pt_pc s i = PtIdle"
  proof -
    have c: "counted (pt_res s i) (pt_credit s i)" if "i < n" for i using put_invD(3) [OF inv that] idle that by blast
    then show "(\<Sum>i<n. Nok (pt_res s i)) \<le> unat (ver_of (pt_kv s) key)"
      "unat (ver_of (pt_kv s) key) \<le> (\<Sum>i<n. Nok (pt_res s i) + Nmaybe (pt_res s i))"
      unfolding v by (auto intro!: sum_mono simp: counted_def)
    have "pt_credit s i = Nok (pt_res s i)" if "i < n" reliable for i
      using c [OF that(1)] put_invD(2) [OF inv that] by (simp add: counted_def)
    then show "reliable \<longrightarrow> unat (ver_of (pt_kv s) key) = (\<Sum>i<n. Nok (pt_res s i))" unfolding v by auto
  qed
  have check: "\<exists>st' res. CheckPutConcurrent dec c key (map (pt_res s) [0..<n]) \<lparr>Nok = 0, Nmaybe = 0\<rparr> reliable st = Some (Inr (st', res))"
    if idle: "\<forall>i < n. pt_pc s i = PtIdle" and small: "(\<Sum>i<n. Nok (pt_res s i) + Nmaybe (pt_res s i)) < 2 ^ 64"
      and c: "quiet_sched (cc_sched c)" "kt_kv st = pt_kv s" and ex: "kv_data (pt_kv s) key \<noteq> None" for c st
  proof -
    note f = final [OF idle]
    obtain e where "val_of (pt_kv s) key = enc e" using inv ex by (auto simp: put_inv_def)
    then have "dec (val_of (kt_kv st) key) = Some e" using codec c(2) by simp
    then obtain st' where g: "GetJson dec c key (-1) st = Some (Inr (st', e, ver_of (pt_kv s) key))"
      using GetJson_quiet [OF c(1), of st key dec e "-1"] ex c(2) by auto
    define ok where "ok = (\<Sum>i<n. Nok (pt_res s i))"
    define may where "may = (\<Sum>i<n. Nmaybe (pt_res s i))"
    have tot: "(\<Sum>i<n. Nok (pt_res s i) + Nmaybe (pt_res s i)) = ok + may" by (simp add: sum.distrib ok_def may_def)
    have "ver_of (pt_kv s) key = of_nat ok" if reliable using f(3) that unfolding ok_def [symmetric] by (metis of_nat_unat ucast_id)
    moreover have "unat (of_nat (ok + may) :: Tversion) = ok + may" using small tot by (simp add: unat_of_nat del: of_nat_add)
    then have "\<not> ver_of (pt_kv s) key > of_nat (ok + may)" using f(2) tot by (simp add: word_less_nat_alt del: of_nat_add)
    moreover have "sum_list (map Nok (map (pt_res s) [0..<n])) = ok" "sum_list (map Nmaybe (map (pt_res s) [0..<n])) = may"
      unfolding sums ok_def may_def by simp_all
    ultimately show ?thesis by (auto simp: CheckPutConcurrent_def g fold_res Let_def simp del: map_map of_nat_add)
  qed
  have miss: "CheckPutConcurrent dec c key (map (pt_res s) [0..<n]) \<lparr>Nok = 0, Nmaybe = 0\<rparr> reliable st = Some Fatalf"
    if "quiet_sched (cc_sched c)" "kt_kv st = pt_kv s" "kv_data (pt_kv s) key = None" for c st
    by (rule CheckPutConcurrent_missing) (use that in simp_all)
  show ?thesis using put_answer_ok [OF inv] read_back_total [OF inv _ codec] final check miss by (auto 0 3)
qed

text \<open>A codec for the witness: the two numbers with a hyphen between them.\<close>

definition demo_enc :: "EntryV \<Rightarrow> string" where
  "demo_enc e = itoa (ev_Id e) @ CHR ''-'' # itoa (unat (ev_V e))"

definition demo_dec :: "string \<Rightarrow> EntryV option" where
  "demo_dec s = Some \<lparr>ev_Id = atoi (takeWhile (\<lambda>c. c \<noteq> CHR ''-'') s), ev_V = of_nat (atoi (tl (dropWhile (\<lambda>c. c \<noteq> CHR ''-'') s)))\<rparr>"

lemma demo_json_codec: "demo_dec (demo_enc e) = Some e"
  by (simp add: demo_dec_def demo_enc_def itoa_split)

definition demo_puts :: "KVServer \<Rightarrow> put_pc \<Rightarrow> Tversion \<Rightarrow> nat \<Rightarrow> nat \<Rightarrow> put_sys" where
  "demo_puts kv p v ok credit = \<lparr>pt_kv = kv, pt_pc = (\<lambda>_. PtIdle)(0 := p), pt_ver = (\<lambda>_. 0)(0 := v),
     pt_res = (\<lambda>_. \<lparr>Nok = 0, Nmaybe = 0\<rparr>)(0 := \<lparr>Nok = ok, Nmaybe = 0\<rparr>), pt_credit = (\<lambda>_. 0)(0 := credit)\<rparr>"

definition demo_kv1 :: KVServer where
  "demo_kv1 = put_state MakeKVServer ''k'' (demo_enc \<lparr>ev_Id = 0, ev_V = 0\<rparr>) 0"

lemma demo_puts_run: "reach_in put_init (put_step demo_enc demo_dec ''k'' 1 False) (Suc (Suc (Suc 0))) (demo_puts demo_kv1 PtIdle 1 1 1)"
proof -
  let ?step = "put_step demo_enc demo_dec ''k'' 1 False"
  have "put_init (demo_puts MakeKVServer PtIdle 0 0 0)" by (simp add: put_init_def demo_puts_def)
  moreover have "?step (demo_puts MakeKVServer PtIdle 0 0 0) (demo_puts MakeKVServer (PtPut False) 0 0 0)"
    using put_step.start_put [of 0 1 "demo_puts MakeKVServer PtIdle 0 0 0"] by (simp add: demo_puts_def)
  moreover have "?step (demo_puts MakeKVServer (PtPut False) 0 0 0) (demo_puts demo_kv1 (PtBack OK) 0 0 1)"
    using put_step.delivered [of 0 1 "demo_puts MakeKVServer (PtPut False) 0 0 0" False _ demo_enc "''k''" OK demo_dec False]
    by (simp add: demo_puts_def exec_put_def put_answer_def put_applies_def put_args_def oneput_err_ok_def kv_Put_def MakeKVServer_def demo_kv1_def)
  moreover have "?step (demo_puts demo_kv1 (PtBack OK) 0 0 1) (demo_puts demo_kv1 PtIdle 1 1 1)"
  proof -
    have "read_key demo_kv1 ''k'' = (demo_enc \<lparr>ev_Id = 0, ev_V = 0\<rparr>, 1, OK)"
      by (simp add: read_key_def demo_kv1_def kv_Put_def kv_Get_def MakeKVServer_def)
    then have "oneput_back demo_dec 0 0 OK (read_key demo_kv1 ''k'') = Inr (1, Some True)" by (simp add: oneput_back_def demo_json_codec)
    then show ?thesis
      using put_step.read_back [of 0 1 "demo_puts demo_kv1 (PtBack OK) 0 0 1" OK demo_dec "''k''" "(1, Some True)" demo_enc False]
      by (simp add: demo_puts_def after_back_def count_put_def)
  qed
  ultimately show ?thesis by (meson reach_in.intros)
qed

theorem put_counts_bound_version_witness:
  "unat (ver_of demo_kv1 ''k'') = 1 \<and> (\<exists>st' res. CheckPutConcurrent demo_dec \<lparr>cc_sched = [([], Delivered)], cc_start = 0, cc_end = 1\<rparr> ''k''
     [\<lparr>Nok = 1, Nmaybe = 0\<rparr>] \<lparr>Nok = 0, Nmaybe = 0\<rparr> False \<lparr>kt_kv = demo_kv1, kt_ops = 0, kt_oplog = []\<rparr> = Some (Inr (st', res)))"
proof -
  let ?s = "demo_puts demo_kv1 PtIdle 1 1 1" and ?c = "\<lparr>cc_sched = [([], Delivered)], cc_start = 0, cc_end = 1\<rparr>"
    and ?st = "\<lparr>kt_kv = demo_kv1, kt_ops = 0, kt_oplog = []\<rparr>"
  have f: "pt_kv ?s = demo_kv1" "pt_pc ?s 0 = PtIdle" "pt_res ?s 0 = \<lparr>Nok = 1, Nmaybe = 0\<rparr>" by (simp_all add: demo_puts_def)
  have q: "quiet_sched (cc_sched ?c)" "kt_kv ?st = pt_kv ?s" by (simp add: quiet_sched_def) (simp only: f, simp)
  have k: "kv_data demo_kv1 ''k'' \<noteq> None" by (simp add: demo_kv1_def kv_Put_def MakeKVServer_def)
  have m: "Suc (Suc (Suc 0)) < 2 ^ 64 - 1" by simp
  have idle: "\<forall>i < 1. pt_pc ?s i = PtIdle" using f(2) by simp
  have res: "map (pt_res ?s) [0..<1] = [\<lparr>Nok = 1, Nmaybe = 0\<rparr>]" using f(3) by simp
  note th = put_counts_bound_version [OF demo_puts_run m demo_json_codec, THEN conjunct2, THEN conjunct2, THEN mp, OF idle, unfolded res]
  have sums: "(\<Sum>i<1. Nok (pt_res ?s i)) = 1" "(\<Sum>i<1. Nok (pt_res ?s i) + Nmaybe (pt_res ?s i)) = 1" using f(3) by simp_all
  have "unat (ver_of demo_kv1 ''k'') = 1" using th unfolding sums f(1) by simp
  moreover have "\<forall>c st. quiet_sched (cc_sched c) \<and> kt_kv st = demo_kv1 \<longrightarrow>
      (\<exists>st' res. CheckPutConcurrent demo_dec c ''k'' [\<lparr>Nok = 1, Nmaybe = 0\<rparr>] \<lparr>Nok = 0, Nmaybe = 0\<rparr> False st = Some (Inr (st', res)))"
    using th k unfolding sums f(1) by simp
  ultimately show ?thesis using q unfolding f(1) by blast
qed

section \<open>One client with a key of its own\<close>

definition private_sched :: "string \<Rightarrow> attempt list \<Rightarrow> bool" where
  "private_sched key as \<longleftrightarrow> (\<forall>(os, _) \<in> set as. \<forall>a \<in> set os. pa_Key a \<noteq> key)"

lemma run_puts_private:
  "(\<forall>a \<in> set os. pa_Key a \<noteq> key) \<Longrightarrow> kv_data (run_puts kv os) key = kv_data kv key"
  by (induction os arbitrary: kv) (auto simp: kv_Put_def split: option.splits)

lemma ver_val_cong: "kv_data kv key = kv_data kv' key \<Longrightarrow> ver_of kv key = ver_of kv' key \<and> val_of kv key = val_of kv' key"
  by (simp add: ver_of_def val_of_def)

text \<open>A put to a private key: it takes effect exactly when its version is the current one, and then the clerk says so.\<close>

lemma clerk_loop_private:
  assumes "clerk_Put_loop it kv as args = Some (kv', err)" "private_sched (pa_Key args) as"
  shows "(ver_of kv (pa_Key args) = pa_Version args \<longrightarrow> ver_of kv' (pa_Key args) = pa_Version args + 1
            \<and> val_of kv' (pa_Key args) = pa_Value args \<and> kv_data kv' (pa_Key args) \<noteq> None \<and> (err = OK \<or> err = ErrMaybe))
      \<and> (ver_of kv (pa_Key args) \<noteq> pa_Version args \<longrightarrow> kv_data kv' (pa_Key args) = kv_data kv (pa_Key args)
            \<and> (kv_data kv (pa_Key args) \<noteq> None \<longrightarrow> err = ErrMaybe \<or> err = ErrVersion \<and> it = 0))"
  using assms
proof (induction it kv as args rule: clerk_Put_loop.induct)
  case (2 it kv os ft as args)
  let ?kv = "run_puts kv os" and ?k = "pa_Key args"
  let ?kv1 = "fst (kv_Put ?kv args zeroPutReply)"
  have priv: "kv_data ?kv ?k = kv_data kv ?k" "private_sched ?k as"
    using "2.prems"(2) run_puts_private [of os ?k kv] by (auto simp: private_sched_def)
  have same: "ver_of ?kv ?k = ver_of kv ?k" using ver_val_cong [OF priv(1)] by simp
  have hit: "ver_of ?kv1 ?k = pa_Version args + 1 \<and> val_of ?kv1 ?k = pa_Value args \<and> kv_data ?kv1 ?k \<noteq> None" if "ver_of kv ?k = pa_Version args"
    using that same kvs.put_hit_ver [of ?kv ?k] kvs.put_hit_val [of ?kv ?k] put_applies_key [of ?kv args] put_applies_iff [of ?kv args]
    by (cases args) auto
  have miss: "?kv1 = ?kv" if "ver_of kv ?k \<noteq> pa_Version args"
    using that same put_not_applies [of ?kv args] put_applies_iff [of ?kv args] by simp
  show ?case
  proof (cases ft)
    case RequestLost
    then show ?thesis using "2.IH"(1) [OF refl] "2.prems"(1) priv same by (auto simp: Let_def)
  next
    case ReplyLost
    then have ih: "clerk_Put_loop (it + 1) ?kv1 as args = Some (kv', err)" using "2.prems"(1) by (simp add: Let_def)
    note IH = "2.IH"(2) [OF refl ReplyLost ih priv(2)]
    show ?thesis
    proof (cases "ver_of kv ?k = pa_Version args")
      case True
      then show ?thesis using IH hit [OF True] ver_val_cong [of kv' ?k ?kv1] by auto
    next
      case False
      then show ?thesis using IH miss [OF False] same priv(1) by auto
    qed
  next
    case Delivered
    then have r: "kv' = ?kv1" "err = (if it > 0 \<and> pr_Err (snd (kv_Put ?kv args zeroPutReply)) = ErrVersion then ErrMaybe
        else pr_Err (snd (kv_Put ?kv args zeroPutReply)))"
      using "2.prems"(1) by (auto simp: Let_def split: prod.splits)
    show ?thesis
    proof (cases "ver_of kv ?k = pa_Version args")
      case True
      then have "pr_Err (snd (kv_Put ?kv args zeroPutReply)) = OK" using same put_applies_iff [of ?kv args] by (simp add: put_applies_def)
      then show ?thesis using True hit r by simp
    next
      case False
      then have "kv_data ?kv ?k \<noteq> None \<Longrightarrow> pr_Err (snd (kv_Put ?kv args zeroPutReply)) = ErrVersion"
        using same by (auto simp: kv_Put_def ver_of_def split: option.splits)
      then show ?thesis using False miss [OF False] r priv(1) by auto
    qed
  qed
qed simp

definition first_delivered :: "attempt list \<Rightarrow> bool" where
  "first_delivered as \<longleftrightarrow> (case as of [] \<Rightarrow> False | a # _ \<Rightarrow> snd a = Delivered)"

lemma clerk_Put_first:
  assumes "first_delivered as" "private_sched key as" "kv_data kv key \<noteq> None \<or> ver = 0"
  shows "\<exists>kv'. clerk_Put kv as key value ver = Some (kv', if ver_of kv key = ver then OK else ErrVersion)"
proof -
  obtain os rest where as: "as = (os, Delivered) # rest" using assms(1) by (auto simp: first_delivered_def split: list.splits)
  have same: "kv_data (run_puts kv os) key = kv_data kv key"
    using assms(2) run_puts_private [of os key kv] by (auto simp: as private_sched_def)
  show ?thesis using assms(3) same by (auto simp: clerk_Put_def as Let_def kv_Put_def ver_of_def split: prod.splits option.splits)
qed

lemma PutAtLeastOnce_step:
  assumes priv: "private_sched key (cc_sched c)" and le: "unat ver \<le> unat (ver_of (kt_kv st) key)"
    and b: "unat (ver_of (kt_kv st) key) + 1 < 2 ^ 64" and p: "ts_Put c key value ver me st = Some (st', err)"
  shows "(err = OK \<or> err = ErrMaybe \<or> err = ErrVersion)
    \<and> (ver = ver_of (kt_kv st) key \<longrightarrow> ver_of (kt_kv st') key = ver + 1 \<and> val_of (kt_kv st') key = value \<and> err \<noteq> ErrVersion
         \<and> unat (ver + 1) = unat ver + 1)
    \<and> (ver \<noteq> ver_of (kt_kv st) key \<longrightarrow> ver_of (kt_kv st') key = ver_of (kt_kv st) key \<and> err \<noteq> OK \<and> unat (ver + 1) = unat ver + 1
         \<and> unat ver < unat (ver_of (kt_kv st) key))"
proof -
  obtain kv' where c: "clerk_Put (kt_kv st) (cc_sched c) key value ver = Some (kv', err)" "kt_kv st' = kv'"
    using p by (cases "clerk_Put (kt_kv st) (cc_sched c) key value ver") (auto simp: ts_Put_def log_put_def)
  note L = clerk_loop_private [OF c(1) [unfolded clerk_Put_def], simplified, OF priv]
  show ?thesis
  proof (cases "ver = ver_of (kt_kv st) key")
    case True
    then show ?thesis using L c(2) b unat_inc [of ver] by auto
  next
    case False
    then have lt: "unat ver < unat (ver_of (kt_kv st) key)" using le by (metis le_neq_implies_less word_eq_iff_unsigned)
    then have "kv_data (kt_kv st) key \<noteq> None" by (auto simp: ver_of_def split: option.splits)
    then show ?thesis using L False c(2) lt b unat_inc [of ver] ver_val_cong [of kv' key "kt_kv st"] by auto
  qed
qed

text \<open>\<open>PutAtLeastOnce\<close> on a key nobody else writes, started with a version the server has reached: whatever is lost, if it
  returns, it returns the server's version of the key, the key has the value, and at least one put took effect; it never
  stops the test. If the network delivers, it returns as soon as it has caught up with the server's version.\<close>

theorem PutAtLeastOnce_puts:
  assumes "\<forall>c \<in> set cs. private_sched key (cc_sched c)" "unat ver \<le> unat (ver_of (kt_kv st) key)"
    and "unat (ver_of (kt_kv st) key) + length cs < 2 ^ 64"
  shows "(\<forall>r. PutAtLeastOnce cs key value ver me st = Some r \<longrightarrow>
            (\<exists>st'. r = Inr (st', ver_of (kt_kv st') key) \<and> val_of (kt_kv st') key = value
                 \<and> unat (ver_of (kt_kv st) key) < unat (ver_of (kt_kv st') key)))
    \<and> ((\<forall>c \<in> set cs. first_delivered (cc_sched c)) \<and> unat (ver_of (kt_kv st) key) - unat ver < length cs
         \<longrightarrow> PutAtLeastOnce cs key value ver me st \<noteq> None)"
  using assms
proof (induction cs arbitrary: ver st)
  case (Cons c cs)
  have b: "unat (ver_of (kt_kv st) key) + 1 < 2 ^ 64" using Cons.prems(3) by simp
  show ?case
  proof (cases "ts_Put c key value ver me st")
    case None
    have "\<not> first_delivered (cc_sched c)"
    proof
      assume "first_delivered (cc_sched c)"
      moreover have "kv_data (kt_kv st) key \<noteq> None \<or> ver = 0" using Cons.prems(2) by (auto simp: ver_of_def unat_eq_zero split: option.splits)
      ultimately show False using clerk_Put_first [of "cc_sched c" key "kt_kv st" ver "value"] Cons.prems(1) None by (auto simp: ts_Put_def)
    qed
    then show ?thesis using None by simp
  next
    case (Some r)
    obtain st1 err where p: "ts_Put c key value ver me st = Some (st1, err)" using Some by (cases r) auto
    note S = PutAtLeastOnce_step [OF _ Cons.prems(2) b p]
    have go: "unat (ver + 1) = unat ver + 1" "unat (ver + 1) \<le> unat (ver_of (kt_kv st1) key)"
      "unat (ver_of (kt_kv st) key) \<le> unat (ver_of (kt_kv st1) key)"
      "unat (ver_of (kt_kv st1) key) + length cs < 2 ^ 64"
      using S Cons.prems by (cases "ver = ver_of (kt_kv st) key"; force)+
    note IH = Cons.IH [OF _ go(2,4)]
    show ?thesis
    proof (cases "err = OK")
      case True
      then show ?thesis using S Cons.prems(1) p go(1) by auto
    next
      case False
      then have eq: "PutAtLeastOnce (c # cs) key value ver me st = PutAtLeastOnce cs key value (ver + 1) me st1" using S Cons.prems(1) p by auto
      have "ver \<noteq> ver_of (kt_kv st) key" if "first_delivered (cc_sched c)"
      proof
        assume v: "ver = ver_of (kt_kv st) key"
        moreover have "kv_data (kt_kv st) key \<noteq> None \<or> ver = 0" using v by (auto simp: ver_of_def split: option.splits)
        ultimately show False using clerk_Put_first [OF that, of key "kt_kv st" ver "value"] Cons.prems(1) p False by (auto simp: ts_Put_def)
      qed
      then have "first_delivered (cc_sched c) \<longrightarrow> ver_of (kt_kv st1) key = ver_of (kt_kv st) key \<and> unat ver < unat (ver_of (kt_kv st) key)"
        using S Cons.prems(1) by auto
      then show ?thesis unfolding eq using IH Cons.prems(1) go(1,3) by fastforce
    qed
  qed
qed simp

theorem PutAtLeastOnce_puts_witness:
  "\<exists>st'. PutAtLeastOnce [\<lparr>cc_sched = [([], ReplyLost), ([], Delivered)], cc_start = 0, cc_end = 1\<rparr>, \<lparr>cc_sched = [([], Delivered)], cc_start = 2, cc_end = 3\<rparr>]
       ''a'' ''x'' 0 7 \<lparr>kt_kv = MakeKVServer, kt_ops = 0, kt_oplog = []\<rparr> = Some (Inr (st', 2)) \<and> val_of (kt_kv st') ''a'' = ''x''"
proof -
  let ?cs = "[\<lparr>cc_sched = [([], ReplyLost), ([], Delivered)], cc_start = 0, cc_end = 1\<rparr>, \<lparr>cc_sched = [([], Delivered)], cc_start = 2, cc_end = 3\<rparr>]"
  let ?st = "\<lparr>kt_kv = MakeKVServer, kt_ops = 0, kt_oplog = []\<rparr>"
  have h: "\<forall>c \<in> set ?cs. private_sched ''a'' (cc_sched c)" "unat (0 :: Tversion) \<le> unat (ver_of (kt_kv ?st) ''a'')"
    "unat (ver_of (kt_kv ?st) ''a'') + length ?cs < 2 ^ 64" by (simp_all add: private_sched_def ver_of_def MakeKVServer_def)
  obtain st' where r: "PutAtLeastOnce ?cs ''a'' ''x'' 0 7 ?st = Some (Inr (st', 2))"
    by (simp add: ts_Put_def clerk_Put_def kv_Put_def MakeKVServer_def log_put_def)
  then show ?thesis using PutAtLeastOnce_puts [OF h, of "''x''" 7] by auto
qed

section \<open>The check of appended entries\<close>

definition entries_of :: "nat \<Rightarrow> EntryN list \<Rightarrow> nat list" where
  "entries_of c es = map en_N (filter (\<lambda>e. en_Id e = c) es)"

text \<open>The loop accepts exactly the lists in which the numbers of each client increase; it ends with one more than the last
  number of each client, and the skipped numbers are those that do not occur.\<close>

lemma appends_loop_ok:
  "(\<exists>r. appends_loop es ex sk = Inr r) \<longleftrightarrow> (\<forall>c. sorted_wrt (<) (entries_of c es) \<and> (\<forall>m \<in> set (entries_of c es). ex c \<le> m))"
proof (induction es ex sk rule: appends_loop.induct)
  case (2 e es ex sk)
  define ok where "ok = (\<lambda>lo c xs. sorted_wrt (<) (entries_of c xs) \<and> (\<forall>m \<in> set (entries_of c xs). (lo :: nat) \<le> m))"
  have other: "ok lo c (e # es) = ok lo c es" if "c \<noteq> en_Id e" for lo c using that by (auto simp: ok_def entries_of_def)
  have mine: "ok lo (en_Id e) (e # es) \<longleftrightarrow> lo \<le> en_N e \<and> ok (en_N e + 1) (en_Id e) es" for lo
    by (fastforce simp: ok_def entries_of_def Suc_le_eq)
  have step: "(\<forall>c. ok (ex c) c (e # es)) \<longleftrightarrow> ex (en_Id e) \<le> en_N e \<and> (\<forall>c. ok ((ex(en_Id e := en_N e + 1)) c) c es)"
    using other mine by (metis fun_upd_apply)
  show ?case
  proof (cases "ex (en_Id e) = en_N e")
    case True
    have "(\<exists>r. appends_loop (e # es) ex sk = Inr r) \<longleftrightarrow> (\<exists>r. appends_loop es (ex(en_Id e := en_N e + 1)) sk = Inr r)" using True by simp
    also have "\<dots> \<longleftrightarrow> (\<forall>c. ok ((ex(en_Id e := en_N e + 1)) c) c es)" unfolding ok_def using "2.IH"(1) [OF _ True] True by (simp only:)
    finally show ?thesis using step True unfolding ok_def by simp
  next
    case False
    have "(\<exists>r. appends_loop (e # es) ex sk = Inr r) \<longleftrightarrow> ex (en_Id e) \<le> en_N e \<and> (\<exists>r. appends_loop es (ex(en_Id e := en_N e + 1))
        (sk(en_Id e := sk (en_Id e) + (en_N e - ex (en_Id e)))) = Inr r)" using False by (auto simp: Fatalf_def)
    also have "\<dots> \<longleftrightarrow> ex (en_Id e) \<le> en_N e \<and> (\<forall>c. ok ((ex(en_Id e := en_N e + 1)) c) c es)"
      unfolding ok_def using "2.IH"(2) [OF _ False] by (metis linorder_not_less)
    finally show ?thesis using step unfolding ok_def by simp
  qed
qed (simp add: entries_of_def)

lemma appends_loop_counts:
  "appends_loop es ex sk = Inr (ex', sk') \<Longrightarrow> ex' c + sk c = ex c + sk' c + length (entries_of c es)"
proof (induction es ex sk rule: appends_loop.induct)
  case (2 e es ex sk)
  then show ?case by (cases "c = en_Id e") (fastforce simp: entries_of_def Fatalf_def split: if_splits)+
qed (auto simp: entries_of_def)

lemma check_clients_ok:
  "(\<forall>c \<in> set cs. c < length rs) \<Longrightarrow> check_clients cs ex sk rs = Inr () \<longleftrightarrow>
     (\<forall>c \<in> set cs. sk c \<le> Nmaybe (rs ! c) \<and> ex c \<le> Nok (rs ! c) + Nmaybe (rs ! c))"
  by (induction cs) (auto simp: slice_get_def Fatalf_def)

text \<open>What an accepted value proves: every client's entries are in order, and each client lost at most the puts that were
  answered with \<open>ErrMaybe\<close>.\<close>

lemma CheckAppends_accepts:
  assumes "CheckAppends es nclnt rs ver = Inr ()" and ids: "\<forall>e \<in> set es. en_Id e < nclnt" and len: "length rs = nclnt" and c: "c < nclnt"
  shows "sorted_wrt (<) (entries_of c es) \<and> length (entries_of c es) \<le> Nok (rs ! c) + Nmaybe (rs ! c) \<and> int (length es) + 1 = sint ver"
proof -
  obtain ex sk where l: "appends_loop es (\<lambda>_. 0) (\<lambda>_. 0) = Inr (ex, sk)" and v: "int (length es) + 1 = sint ver"
    and k: "check_clients (remdups ([0..<nclnt] @ map en_Id es)) ex sk rs = Inr ()"
    using assms(1) by (auto simp: CheckAppends_def rbind_eq_Inr Fatalf_def split: if_splits)
  have "\<forall>c \<in> set (remdups ([0..<nclnt] @ map en_Id es)). c < length rs" using ids len by auto
  then have "ex c \<le> Nok (rs ! c) + Nmaybe (rs ! c)" using check_clients_ok k c by auto
  then show ?thesis using appends_loop_counts [OF l, of c] appends_loop_ok [of es "\<lambda>_. 0" "\<lambda>_. 0"] l v by auto
qed

text \<open>\<open>PutAtLeastOnceJson\<close> ignores the version it is given and puts with version 0: on a key that exists it changes nothing, and it
  returns as if it had put.\<close>

lemma PutAtLeastOnceJson_no_put:
  assumes key: "ver_of (kt_kv st) key \<noteq> 0" and priv: "private_sched key (cc_sched c)" and d: "first_delivered (cc_sched c)"
    and enc: "enc v = Some b"
  shows "\<exists>st'. PutAtLeastOnceJson enc (c # cs) key v ver me st = Some (Inr (st', ver)) \<and> kv_data (kt_kv st') key = kv_data (kt_kv st) key"
proof -
  obtain kv' where p: "clerk_Put (kt_kv st) (cc_sched c) key b 0 = Some (kv', ErrVersion)"
    using clerk_Put_first [OF d priv, of "kt_kv st" 0 b] key by auto
  have "kv_data kv' key = kv_data (kt_kv st) key"
    using clerk_loop_private [OF p [unfolded clerk_Put_def], simplified, OF priv] key by simp
  then show ?thesis using p enc by (simp add: PutJson_def kvt_Put_def log_put_def kt_OpInc_def)
qed

lemma random_parts_partition:
  assumes "\<forall>x \<in> set a. x < 2"
  shows "set (random_parts a ! 0) \<union> set (random_parts a ! 1) = {..<length a}" "set (random_parts a ! 0) \<inter> set (random_parts a ! 1) = {}"
proof -
  have "a ! j < 2" if "j < length a" for j using assms that by simp
  then have "a ! j = 0 \<or> a ! j = 1" if "j < length a" for j using that by (auto simp: less_2_cases_iff)
  then show "set (random_parts a ! 0) \<union> set (random_parts a ! 1) = {..<length a}" "set (random_parts a ! 0) \<inter> set (random_parts a ! 1) = {}"
    by (auto simp: random_parts_def)
qed

end
