(* ===== verification/Kvtest_Append.thy ===== *)
theory Kvtest_Append
  imports Kvtest
begin

text \<open>
  Concurrent appends of \<open>src/src/kvtest1/kvtest.go\<close>: any number of clients run \<open>OneClientAppend\<close> on one key of the key/value
  server, over a network that loses requests and replies, and \<open>CheckAppends\<close> judges the value they leave.
\<close>

section \<open>OneClientAppend\<close>

text \<open>A client is between two iterations, about to read the key, or putting the list it read with its own entry at the
  end; the flag says that the clerk is past its first attempt. The types \<open>entry\<close> and \<open>EntryN\<close> have the same fields and the same
  JSON.\<close>

datatype append_pc = ApIdle | ApGet | ApPut "EntryN list" Tversion bool

record append_sys =
  ap_kv :: KVServer
  ap_pc :: "nat \<Rightarrow> append_pc"
  ap_i :: "nat \<Rightarrow> nat"
  ap_res :: "nat \<Rightarrow> ClntRes"

text \<open>\<open>GetJson\<close> on what the clerk read.\<close>

definition append_read :: "(string \<Rightarrow> EntryN list option) \<Rightarrow> string \<times> Tversion \<times> Err \<Rightarrow> (EntryN list \<times> Tversion) res" where
  "append_read dec got = (case got of (val, ver, err) \<Rightarrow>
     if err \<noteq> OK then Fatalf else (case dec val of None \<Rightarrow> Fatalf | Some es \<Rightarrow> Inr (es, ver)))"

definition append_args :: "(EntryN list \<Rightarrow> string) \<Rightarrow> EntryN list \<Rightarrow> Tversion \<Rightarrow> PutArgs" where
  "append_args enc es ver = \<lparr>pa_Key = ''k'', pa_Value = enc es, pa_Version = ver\<rparr>"

text \<open>What the loop does with the answer of the put: \<open>OK\<close> and \<open>ErrMaybe\<close> end the iteration, anything else reads again.\<close>

definition append_after :: "nat \<Rightarrow> Err \<Rightarrow> append_sys \<Rightarrow> append_sys" where
  "append_after c err s =
     (if err = OK \<or> err = ErrMaybe
      then s\<lparr>ap_pc := (ap_pc s)(c := ApIdle), ap_i := (ap_i s)(c := ap_i s c + 1),
             ap_res := (ap_res s)(c := count_put (err = OK) (ap_res s c))\<rparr>
      else s\<lparr>ap_pc := (ap_pc s)(c := ApGet)\<rparr>)"

definition append_exec :: "PutArgs \<Rightarrow> append_sys \<Rightarrow> append_sys" where
  "append_exec args s = s\<lparr>ap_kv := fst (kv_Put (ap_kv s) args zeroPutReply)\<rparr>"

inductive OneClientAppend :: "(EntryN list \<Rightarrow> string) \<Rightarrow> (string \<Rightarrow> EntryN list option) \<Rightarrow> nat \<Rightarrow> append_sys \<Rightarrow> append_sys \<Rightarrow> bool"
  for enc dec n where
  iterate: "c < n \<Longrightarrow> ap_pc s c = ApIdle \<Longrightarrow> OneClientAppend enc dec n s (s\<lparr>ap_pc := (ap_pc s)(c := ApGet)\<rparr>)"
| get: "c < n \<Longrightarrow> ap_pc s c = ApGet \<Longrightarrow> append_read dec (read_key (ap_kv s) ''k'') = Inr (es, ver)
    \<Longrightarrow> OneClientAppend enc dec n s (s\<lparr>ap_pc := (ap_pc s)(c := ApPut (es @ [\<lparr>en_Id = c, en_N = ap_i s c\<rparr>]) ver False)\<rparr>)"
| request_lost: "c < n \<Longrightarrow> ap_pc s c = ApPut es ver r \<Longrightarrow> OneClientAppend enc dec n s (s\<lparr>ap_pc := (ap_pc s)(c := ApPut es ver True)\<rparr>)"
| reply_lost: "c < n \<Longrightarrow> ap_pc s c = ApPut es ver r
    \<Longrightarrow> OneClientAppend enc dec n s ((append_exec (append_args enc es ver) s)\<lparr>ap_pc := (ap_pc s)(c := ApPut es ver True)\<rparr>)"
| delivered: "c < n \<Longrightarrow> ap_pc s c = ApPut es ver r \<Longrightarrow> err = put_answer r (ap_kv s) (append_args enc es ver)
    \<Longrightarrow> OneClientAppend enc dec n s (append_after c err (append_exec (append_args enc es ver) s))"

text \<open>The test puts an empty list with version 0 first.\<close>

definition append_init :: "(EntryN list \<Rightarrow> string) \<Rightarrow> append_sys \<Rightarrow> bool" where
  "append_init enc s \<longleftrightarrow> ap_kv s = put_state MakeKVServer ''k'' (enc []) 0
     \<and> (\<forall>c. ap_pc s c = ApIdle \<and> ap_i s c = 0 \<and> ap_res s c = \<lparr>Nok = 0, Nmaybe = 0\<rparr>)"

section \<open>What the server holds\<close>

text \<open>A client's entries have increasing numbers below its iteration, every put that was answered with \<open>OK\<close> among them. A
  put of the current version extends the server's list; after a put that was executed and whose answer was
  lost the version has moved on.\<close>

definition appender_ok :: "EntryN list \<Rightarrow> Tversion \<Rightarrow> append_sys \<Rightarrow> nat \<Rightarrow> bool" where
  "appender_ok es v s c \<longleftrightarrow> sorted_wrt (<) (entries_of c es) \<and> Nok (ap_res s c) + Nmaybe (ap_res s c) = ap_i s c
     \<and> Nok (ap_res s c) \<le> length (entries_of c es)
     \<and> (case ap_pc s c of
          ApPut es' ver r \<Rightarrow> unat ver \<le> unat v \<and> (ver = v \<longrightarrow> es' = es @ [\<lparr>en_Id = c, en_N = ap_i s c\<rparr>])
            \<and> ((\<forall>m \<in> set (entries_of c es). m < ap_i s c) \<or> r \<and> ver \<noteq> v \<and> (\<forall>m \<in> set (entries_of c es). m \<le> ap_i s c))
        | _ \<Rightarrow> \<forall>m \<in> set (entries_of c es). m < ap_i s c)"

definition append_inv :: "(EntryN list \<Rightarrow> string) \<Rightarrow> nat \<Rightarrow> EntryN list \<Rightarrow> Tversion \<Rightarrow> append_sys \<Rightarrow> bool" where
  "append_inv enc n es v s \<longleftrightarrow> kv_data (ap_kv s) ''k'' = Some \<lparr>kd_val = enc es, kd_version = v\<rparr> \<and> unat v = length es + 1
     \<and> (\<forall>e \<in> set es. en_Id e < n) \<and> (\<forall>c < n. appender_ok es v s c)"

lemma append_invD:
  assumes "append_inv enc n es v s"
  shows "kv_data (ap_kv s) ''k'' = Some \<lparr>kd_val = enc es, kd_version = v\<rparr>" "unat v = length es + 1" "\<forall>e \<in> set es. en_Id e < n"
    and "\<And>c. c < n \<Longrightarrow> appender_ok es v s c"
  using assms by (simp_all add: append_inv_def)

lemma append_init_inv: "append_init enc s \<Longrightarrow> append_inv enc n [] 1 s"
  by (auto simp: append_init_def append_inv_def appender_ok_def entries_of_def kv_Put_def MakeKVServer_def)

lemma entries_of_snoc: "entries_of c (es @ [e]) = (if en_Id e = c then entries_of c es @ [en_N e] else entries_of c es)"
  by (simp add: entries_of_def)

text \<open>A step that leaves the server alone.\<close>

lemma append_inv_local:
  assumes inv: "append_inv enc n es v s" and t: "ap_kv t = ap_kv s" "\<And>d. d \<noteq> c \<Longrightarrow> ap_pc t d = ap_pc s d \<and> ap_i t d = ap_i s d \<and> ap_res t d = ap_res s d"
    and self: "appender_ok es v t c"
  shows "append_inv enc n es v t"
proof -
  have "appender_ok es v t d" if "d < n" for d
  proof (cases "d = c")
    case False
    then show ?thesis using append_invD(4) [OF inv that] t(2) [OF False] by (simp add: appender_ok_def cong: append_pc.case_cong)
  qed (use self in simp)
  then show ?thesis using inv t(1) by (simp add: append_inv_def)
qed

text \<open>A put that is executed: it is refused, or it is of the current version and appends the client's entry.\<close>

lemma append_miss:
  assumes inv: "append_inv enc n es v s" and v: "ver \<noteq> v"
  shows "append_exec (append_args enc es' ver) s = s" "put_answer r (ap_kv s) (append_args enc es' ver) = (if r then ErrMaybe else ErrVersion)"
  using append_invD(1) [OF inv] v by (auto simp: append_exec_def append_args_def kv_Put_def put_answer_def)

lemma append_hit:
  assumes inv: "append_inv enc n es v s" and c: "c < n" and pc: "ap_pc s c = ApPut es' v r" and b: "length es + 2 < 2 ^ 64"
    and t: "ap_kv t = ap_kv (append_exec (append_args enc es' v) s)"
      "\<And>d. d \<noteq> c \<Longrightarrow> ap_pc t d = ap_pc s d \<and> ap_i t d = ap_i s d \<and> ap_res t d = ap_res s d"
    and self: "appender_ok es' (v + 1) t c"
  shows "append_inv enc n es' (v + 1) t" "put_answer r (ap_kv s) (append_args enc es' v) = OK"
proof -
  note k = append_invD [OF inv]
  have es': "es' = es @ [\<lparr>en_Id = c, en_N = ap_i s c\<rparr>]" using k(4) [OF c] pc by (simp add: appender_ok_def)
  have v1: "unat (v + 1) = Suc (unat v)" by (rule unat_inc) (use k(2) b in simp)
  have "appender_ok es' (v + 1) t d" if d: "d < n" for d
  proof (cases "d = c")
    case False
    have "unat ver \<noteq> unat (v + 1)" if "unat ver \<le> unat v" for ver :: Tversion using that v1 by simp
    then have "ver \<noteq> v + 1" if "unat ver \<le> unat v" for ver :: Tversion using that by blast
    then show ?thesis using k(4) [OF d] t(2) [OF False] v1 False
      by (auto simp: appender_ok_def es' entries_of_snoc split: append_pc.splits)
  qed (use self in simp)
  moreover have "\<forall>e \<in> set es'. en_Id e < n" using k(3) c by (simp add: es')
  ultimately show "append_inv enc n es' (v + 1) t"
    using k(1,2) t(1) v1 by (simp add: append_inv_def append_exec_def append_args_def kv_Put_def es')
  show "put_answer r (ap_kv s) (append_args enc es' v) = OK" using k(1) by (simp add: put_answer_def append_args_def kv_Put_def)
qed

lemma append_step_inv:
  assumes st: "OneClientAppend enc dec n s t" and inv: "append_inv enc n es v s" and b: "length es + 2 < 2 ^ 64"
    and codec: "\<And>es. dec (enc es) = Some es"
  shows "\<exists>es' v'. append_inv enc n es' v' t \<and> length es' \<le> length es + 1"
  using st
proof cases
  case (iterate c)
  have "append_inv enc n es v t"
    by (rule append_inv_local [OF inv, of _ c]) (use iterate append_invD(4) [OF inv iterate(2)] in \<open>auto simp: appender_ok_def\<close>)
  then show ?thesis by auto
next
  case (get c es1 ver)
  have r: "es1 = es" "ver = v" using get(4) append_invD(1) [OF inv] codec
    by (auto simp: append_read_def read_key_def kv_Get_def)
  have "append_inv enc n es v t"
    by (rule append_inv_local [OF inv, of _ c]) (use get r append_invD(4) [OF inv get(2)] in \<open>auto simp: appender_ok_def\<close>)
  then show ?thesis by auto
next
  case (request_lost c es1 ver r)
  have "append_inv enc n es v t"
    by (rule append_inv_local [OF inv, of _ c]) (use request_lost append_invD(4) [OF inv request_lost(2)] in \<open>auto simp: appender_ok_def\<close>)
  then show ?thesis by auto
next
  case (reply_lost c es1 ver r)
  note o = append_invD(4) [OF inv reply_lost(2)]
  show ?thesis
  proof (cases "ver = v")
    case True
    have e: "es1 = es @ [\<lparr>en_Id = c, en_N = ap_i s c\<rparr>]" using o reply_lost(3) True by (simp add: appender_ok_def)
    have nv: "unat (v + 1) = Suc (unat v)" by (rule unat_inc) (use append_invD(2) [OF inv] b in simp)
    have "appender_ok es1 (v + 1) t c" using o reply_lost(1,3) True nv
      by (auto simp: appender_ok_def e entries_of_snoc append_exec_def sorted_wrt_append)
    then have "append_inv enc n es1 (v + 1) t"
      by (rule append_hit(1) [OF inv reply_lost(2) reply_lost(3) [unfolded True] b, rotated 2]) (auto simp: reply_lost(1) True append_exec_def)
    then show ?thesis using e by auto
  next
    case False
    have "append_inv enc n es v t"
      by (rule append_inv_local [OF inv, of _ c]) (use reply_lost append_miss(1) [OF inv False] o False in \<open>auto simp: appender_ok_def\<close>)
    then show ?thesis by auto
  qed
next
  case (delivered c es1 ver r err)
  note o = append_invD(4) [OF inv delivered(2)]
  show ?thesis
  proof (cases "ver = v")
    case True
    have e: "es1 = es @ [\<lparr>en_Id = c, en_N = ap_i s c\<rparr>]" using o delivered(3) True by (simp add: appender_ok_def)
    have ok: "err = OK" using delivered(4) True append_invD(1) [OF inv] by (simp add: put_answer_def append_args_def kv_Put_def)
    have "appender_ok es1 (v + 1) t c" using o delivered(1,3) True ok
      by (auto simp: appender_ok_def e entries_of_snoc append_exec_def append_after_def count_put_def sorted_wrt_append)
    then have "append_inv enc n es1 (v + 1) t"
      by (rule append_hit(1) [OF inv delivered(2) delivered(3) [unfolded True] b, rotated 2]) (auto simp: delivered(1) True append_exec_def append_after_def)
    then show ?thesis using e by auto
  next
    case False
    have "append_inv enc n es v t"
      by (rule append_inv_local [OF inv, of _ c])
         (use delivered append_miss [OF inv False] o False in \<open>auto simp: appender_ok_def append_after_def count_put_def\<close>)
    then show ?thesis by auto
  qed
qed

lemma append_reach_inv:
  assumes "reach_in (append_init enc) (OneClientAppend enc dec n) m s" "m < 2 ^ 64 - 2" and codec: "\<And>es. dec (enc es) = Some es"
  shows "\<exists>es v. append_inv enc n es v s \<and> length es \<le> m"
  using assms(1,2)
proof (induction rule: reach_in.induct)
  case (reach_in_init s)
  then show ?case using append_init_inv by fastforce
next
  case (reach_in_step m s t)
  then obtain es v where k: "append_inv enc n es v s" "length es \<le> m" by fastforce
  then have "length es + 2 < 2 ^ 64" using reach_in_step.prems by simp
  from append_step_inv [OF reach_in_step.hyps(2) k(1) this codec] k(2) show ?case by fastforce
qed

section \<open>The check passes\<close>

lemma sint_small:
  fixes v :: "64 word"
  assumes "unat v < 2 ^ 63"
  shows "sint v = int (unat v)"
proof -
  have "int (unat v) < 2 ^ 63" using assms by (metis of_nat_less_iff of_nat_numeral of_nat_power)
  from this have "signed_take_bit 63 (int (unat v)) = int (unat v)"
    by (rule signed_take_bit_int_eq_self [OF order_trans [of _ 0], rotated 2]) simp_all
  then show ?thesis by (simp add: sint_uint)
qed

lemma appends_loop_top:
  "appends_loop es ex sk = Inr (ex', sk') \<Longrightarrow> ex c \<le> b \<Longrightarrow> \<forall>m \<in> set (entries_of c es). m < b \<Longrightarrow> ex' c \<le> b"
proof (induction es ex sk rule: appends_loop.induct)
  case (2 e es ex sk)
  then show ?case by (cases "c = en_Id e") (fastforce simp: entries_of_def Fatalf_def split: if_splits)+
qed (auto simp: entries_of_def)

lemma CheckAppends_passes:
  assumes srt: "\<And>c. sorted_wrt (<) (entries_of c es)" and ids: "\<forall>e \<in> set es. en_Id e < n" and len: "length rs = n"
    and v: "int (length es) + 1 = sint ver"
    and res: "\<And>c. c < n \<Longrightarrow> Nok (rs ! c) \<le> length (entries_of c es) \<and> (\<forall>m \<in> set (entries_of c es). m < Nok (rs ! c) + Nmaybe (rs ! c))"
  shows "CheckAppends es n rs ver = Inr ()"
proof -
  obtain ex sk where l: "appends_loop es (\<lambda>_. 0) (\<lambda>_. 0) = Inr (ex, sk)" using appends_loop_ok [of es "\<lambda>_. 0" "\<lambda>_. 0"] srt by auto
  have c: "sk c \<le> Nmaybe (rs ! c) \<and> ex c \<le> Nok (rs ! c) + Nmaybe (rs ! c)" if "c < n" for c
  proof -
    have "ex c \<le> Nok (rs ! c) + Nmaybe (rs ! c)" using appends_loop_top [OF l] res [OF that] by simp
    then show ?thesis using appends_loop_counts [OF l, of c] res [OF that] by simp
  qed
  have "check_clients (remdups ([0..<n] @ map en_Id es)) ex sk rs = Inr ()"
    by (subst check_clients_ok) (use c ids len in auto)
  then show ?thesis using l v by (simp add: CheckAppends_def)
qed

text \<open>C40: any number of clients append to one key with \<open>OneClientAppend\<close>, over a network that may lose requests and replies. Every read
  finds a list it can decode, and whenever all clients are between two iterations, \<open>CheckAppends\<close> accepts the server's value and
  version with the clients' counts: each client's entries are in order, no put that was answered with \<open>OK\<close> is missing, and only puts
  answered with \<open>ErrMaybe\<close> may be.\<close>

theorem appends_pass_check:
  assumes run: "reach_in (append_init enc) (OneClientAppend enc dec n) m s" and m: "m < 2 ^ 63 - 2"
    and codec: "\<And>es. dec (enc es) = Some es"
  shows "(\<exists>out. append_read dec (read_key (ap_kv s) ''k'') = Inr out)
    \<and> ((\<forall>c < n. ap_pc s c = ApIdle) \<longrightarrow> (\<exists>es. dec (val_of (ap_kv s) ''k'') = Some es
         \<and> CheckAppends es n (map (ap_res s) [0..<n]) (ver_of (ap_kv s) ''k'') = Inr ()))"
proof -
  obtain es v where inv: "append_inv enc n es v s" "length es \<le> m" using append_reach_inv [OF run _ codec] m by fastforce
  note k = append_invD [OF inv(1)]
  have r: "append_read dec (read_key (ap_kv s) ''k'') = Inr (es, v)" using k(1) codec by (simp add: append_read_def read_key_def kv_Get_def)
  have d: "dec (val_of (ap_kv s) ''k'') = Some es" "ver_of (ap_kv s) ''k'' = v" using k(1) codec by (simp_all add: val_of_def ver_of_def)
  have "CheckAppends es n (map (ap_res s) [0..<n]) v = Inr ()" if idle: "\<forall>c < n. ap_pc s c = ApIdle"
  proof (rule CheckAppends_passes [OF _ k(3)])
    fix c
    show "sorted_wrt (<) (entries_of c es)"
    proof (cases "c < n")
      case False
      then have "entries_of c es = []" using k(3) by (auto simp: entries_of_def filter_empty_conv)
      then show ?thesis by simp
    qed (use k(4) in \<open>simp add: appender_ok_def\<close>)
  next
    have "unat v < 2 ^ 63" using k(2) inv(2) m by simp
    then have "sint v = int (unat v)" by (rule sint_small)
    then show "int (length es) + 1 = sint v" using k(2) by simp
  qed (use k(4) idle in \<open>auto simp: appender_ok_def\<close>)
  then show ?thesis using r d by auto
qed

text \<open>A codec for the witness, with numbers in unary, and a client whose first put is answered and whose second is not.\<close>

fun unary :: "nat list \<Rightarrow> string" where
  "unary [] = []"
| "unary (k # ks) = replicate k (CHR ''x'') @ CHR ''.'' # unary ks"

fun read_unary :: "nat \<Rightarrow> string \<Rightarrow> nat list" where
  "read_unary k [] = []"
| "read_unary k (c # cs) = (if c = CHR ''.'' then k # read_unary 0 cs else read_unary (Suc k) cs)"

fun pair_up :: "nat list \<Rightarrow> EntryN list" where
  "pair_up (a # b # r) = \<lparr>en_Id = a, en_N = b\<rparr> # pair_up r"
| "pair_up _ = []"

definition demo_encs :: "EntryN list \<Rightarrow> string" where
  "demo_encs es = unary (concat (map (\<lambda>e. [en_Id e, en_N e]) es))"

definition demo_decs :: "string \<Rightarrow> EntryN list option" where
  "demo_decs s = Some (pair_up (read_unary 0 s))"

lemma demo_list_codec: "demo_decs (demo_encs es) = Some es"
proof -
  have "read_unary j (replicate k (CHR ''x'') @ r) = read_unary (j + k) r" for j k r by (induction k arbitrary: j) auto
  then have "read_unary 0 (unary ks) = ks" for ks by (induction ks) auto
  moreover have "pair_up (concat (map (\<lambda>e. [en_Id e, en_N e]) es)) = es" by (induction es) auto
  ultimately show ?thesis by (simp add: demo_decs_def demo_encs_def)
qed

definition demo_app :: "KVServer \<Rightarrow> append_pc \<Rightarrow> nat \<Rightarrow> append_sys" where
  "demo_app kv p k = \<lparr>ap_kv = kv, ap_pc = (\<lambda>_. ApIdle)(0 := p), ap_i = (\<lambda>_. 0)(0 := k), ap_res = (\<lambda>_. \<lparr>Nok = 0, Nmaybe = 0\<rparr>)(0 := \<lparr>Nok = k, Nmaybe = 0\<rparr>)\<rparr>"

lemma demo_app_run:
  "\<exists>s. reach_in (append_init demo_encs) (OneClientAppend demo_encs demo_decs 1) 3 s \<and> ap_pc s 0 = ApIdle \<and> ap_res s 0 = \<lparr>Nok = 1, Nmaybe = 0\<rparr>"
proof -
  let ?kv = "put_state MakeKVServer ''k'' (demo_encs []) 0" and ?es = "[\<lparr>en_Id = 0, en_N = 0\<rparr>]"
  let ?step = "OneClientAppend demo_encs demo_decs 1"
  have kv: "kv_data ?kv ''k'' = Some \<lparr>kd_val = demo_encs [], kd_version = 1\<rparr>" by (simp add: kv_Put_def MakeKVServer_def)
  have g: "append_read demo_decs (read_key ?kv ''k'') = Inr ([], 1)"
    using kv demo_list_codec [of "[]"] by (simp add: append_read_def read_key_def kv_Get_def)
  have a: "put_answer False ?kv (append_args demo_encs ?es 1) = OK"
    using kv by (simp add: put_answer_def append_args_def kv_Put_def)
  have i: "append_init demo_encs (demo_app ?kv ApIdle 0)" by (simp add: append_init_def demo_app_def)
  have s1: "?step (demo_app ?kv ApIdle 0) (demo_app ?kv ApGet 0)"
    using OneClientAppend.iterate [of 0 1 "demo_app ?kv ApIdle 0"] by (simp add: demo_app_def)
  have s2: "?step (demo_app ?kv ApGet 0) (demo_app ?kv (ApPut ?es 1 False) 0)"
    using OneClientAppend.get [of 0 1 "demo_app ?kv ApGet 0" demo_decs "[]" 1] g by (simp add: demo_app_def)
  let ?t = "append_after 0 OK (append_exec (append_args demo_encs ?es 1) (demo_app ?kv (ApPut ?es 1 False) 0))"
  have s3: "?step (demo_app ?kv (ApPut ?es 1 False) 0) ?t"
    by (rule OneClientAppend.delivered [where r = False]) (use a in \<open>simp_all add: demo_app_def\<close>)
  have "reach_in (append_init demo_encs) ?step (Suc (Suc (Suc 0))) ?t"
    by (rule reach_in_step [OF reach_in_step [OF reach_in_step [OF reach_in_init]]]) (fact i s1 s2 s3)+
  then show ?thesis by (intro exI [of _ ?t]) (simp add: demo_app_def append_after_def append_exec_def count_put_def numeral_3_eq_3)
qed

theorem appends_pass_check_witness:
  "\<exists>s es. reach_in (append_init demo_encs) (OneClientAppend demo_encs demo_decs 1) 3 s
     \<and> CheckAppends es 1 [\<lparr>Nok = 1, Nmaybe = 0\<rparr>] (ver_of (ap_kv s) ''k'') = Inr ()"
proof -
  obtain s where s: "reach_in (append_init demo_encs) (OneClientAppend demo_encs demo_decs 1) 3 s" "ap_pc s 0 = ApIdle"
    "ap_res s 0 = \<lparr>Nok = 1, Nmaybe = 0\<rparr>" using demo_app_run by blast
  show ?thesis using appends_pass_check [OF s(1) _ demo_list_codec] s by auto
qed

end
