(* ===== verification/Annotations.thy ===== *)
theory Annotations
  imports Persister "HOL-Library.AList"
begin

text \<open>
  The annotations of a test run, \<open>src/src/tester1/annotation.go\<close>: points and intervals in time that are shown beside the history of
  the test, the on-going (continuous) annotation of each tag, and what the test framework knows of crashed and disconnected
  servers. The global variables \<open>annotation\<close> and \<open>finfo\<close> are the state; \<open>finfo\<close> is nil until a test begins. The clock is an
  argument of each operation. A Go map is an association list in an order in which Go may go through it. The file that
  \<open>cleanup\<close> writes is its result; the environment variables it reads are arguments.
\<close>

section \<open>State\<close>

text \<open>The annotation of the visualiser; the end of a point is 0.\<close>

record pannot =
  p_Tag :: string
  p_Start :: int
  p_End :: int
  p_Description :: string
  p_Details :: string
  p_BackgroundColor :: string

record Continuous =
  ct_start :: int
  ct_desp :: string
  ct_details :: string
  ct_bgcolor :: string

record Annotation =
  an_annotations :: "pannot list"
  an_continuous :: "(string \<times> Continuous) list"
  an_finalized :: bool

record CheckerBegin =
  cb_ts :: int
  cb_details :: string

record FrameworkInfo =
  fi_nservers :: nat
  fi_connected :: "bool list"
  fi_crashed :: "bool list"
  fi_ckbegin :: CheckerBegin

record astate =
  st_an :: Annotation
  st_finfo :: "FrameworkInfo option"

definition COLOR_INFO :: string where "COLOR_INFO = ''#FAFAFA''"
definition COLOR_NEUTRAL :: string where "COLOR_NEUTRAL = ''#FFECB3''"
definition COLOR_SUCCESS :: string where "COLOR_SUCCESS = ''#C8E6C9''"
definition COLOR_FAILURE :: string where "COLOR_FAILURE = ''#FFCDD2''"
definition COLOR_FAULT :: string where "COLOR_FAULT = ''#B3E5FC''"
definition COLOR_USER :: string where "COLOR_USER = ''#FFF176''"

definition TAG_CHECKER :: string where "TAG_CHECKER = ''$ Checker''"
definition TAG_PARTITION :: string where "TAG_PARTITION = ''$ Failure''"
definition TAG_INFO :: string where "TAG_INFO = ''$ Test Info''"

definition mkAnnotation :: Annotation where
  "mkAnnotation = \<lparr>an_annotations = [], an_continuous = [], an_finalized = False\<rparr>"

definition mkFrameworkInfo :: "nat \<Rightarrow> FrameworkInfo" where
  "mkFrameworkInfo nservers =
     \<lparr>fi_nservers = nservers, fi_connected = replicate nservers True, fi_crashed = replicate nservers False,
      fi_ckbegin = \<lparr>cb_ts = 0, cb_details = ''''\<rparr>\<rparr>"

section \<open>Operations on the annotations\<close>

definition clear :: "Annotation \<Rightarrow> Annotation" where
  "clear an = an\<lparr>an_annotations := [], an_continuous := [], an_finalized := False\<rparr>"

definition closed :: "string \<Rightarrow> int \<Rightarrow> Continuous \<Rightarrow> pannot" where
  "closed tag t cont =
     \<lparr>p_Tag = tag, p_Start = ct_start cont, p_End = t, p_Description = ct_desp cont, p_Details = ct_details cont,
      p_BackgroundColor = ct_bgcolor cont\<rparr>"

definition finalize :: "int \<Rightarrow> Annotation \<Rightarrow> Annotation \<times> pannot list" where
  "finalize t an =
     (an\<lparr>an_finalized := True\<rparr>, an_annotations an @ map (\<lambda>(tag, cont). closed tag t cont) (an_continuous an))"

definition annotatePointColor :: "int \<Rightarrow> string \<Rightarrow> string \<Rightarrow> string \<Rightarrow> string \<Rightarrow> Annotation \<Rightarrow> Annotation" where
  "annotatePointColor t tag desp details bgcolor an =
     an\<lparr>an_annotations := an_annotations an @ [\<lparr>p_Tag = tag, p_Start = t, p_End = 0, p_Description = desp, p_Details = details,
        p_BackgroundColor = bgcolor\<rparr>]\<rparr>"

definition annotateIntervalColor :: "int \<Rightarrow> string \<Rightarrow> int \<Rightarrow> string \<Rightarrow> string \<Rightarrow> string \<Rightarrow> Annotation \<Rightarrow> Annotation" where
  "annotateIntervalColor t tag start desp details bgcolor an =
     an\<lparr>an_annotations := an_annotations an @ [\<lparr>p_Tag = tag, p_Start = start, p_End = t, p_Description = desp, p_Details = details,
        p_BackgroundColor = bgcolor\<rparr>]\<rparr>"

definition annotateContinuousColor :: "int \<Rightarrow> string \<Rightarrow> string \<Rightarrow> string \<Rightarrow> string \<Rightarrow> Annotation \<Rightarrow> Annotation" where
  "annotateContinuousColor t tag desp details bgcolor an =
     (let new = \<lparr>ct_start = t, ct_desp = desp, ct_details = details, ct_bgcolor = bgcolor\<rparr> in
      case map_of (an_continuous an) tag of
        None \<Rightarrow> an\<lparr>an_continuous := AList.update tag new (an_continuous an)\<rparr>
      | Some cont \<Rightarrow> an\<lparr>an_annotations := an_annotations an @ [closed tag t cont],
                        an_continuous := AList.update tag new (an_continuous an)\<rparr>)"

text \<open>A tag with no on-going annotation reads as the zero value, and the work goes on.\<close>

definition zero_continuous :: Continuous where
  "zero_continuous = \<lparr>ct_start = 0, ct_desp = '''', ct_details = '''', ct_bgcolor = ''''\<rparr>"

definition annotateContinuousEnd :: "int \<Rightarrow> string \<Rightarrow> Annotation \<Rightarrow> Annotation" where
  "annotateContinuousEnd t tag an =
     (let cont = (case map_of (an_continuous an) tag of None \<Rightarrow> zero_continuous | Some c \<Rightarrow> c) in
      an\<lparr>an_annotations := an_annotations an @ [closed tag t cont], an_continuous := AList.delete tag (an_continuous an)\<rparr>)"

definition isFinalized :: "Annotation \<Rightarrow> bool" where
  "isFinalized an = an_finalized an"

definition end_annot :: "int \<Rightarrow> string \<Rightarrow> pannot" where
  "end_annot t e = \<lparr>p_Tag = TAG_INFO, p_Start = t, p_End = 0, p_Description = e, p_Details = e, p_BackgroundColor = COLOR_INFO\<rparr>"

text \<open>The second component is what is drawn into the file. \<open>t1\<close> and \<open>t2\<close> are the two readings of the clock, \<open>opened\<close> says whether
  the file could be opened.\<close>

definition an_cleanup :: "string \<Rightarrow> bool \<Rightarrow> int \<Rightarrow> int \<Rightarrow> bool \<Rightarrow> string \<Rightarrow> Annotation \<Rightarrow> Annotation \<times> pannot list option" where
  "an_cleanup enabled opened t1 t2 failed e an =
     (if enabled = ''never'' \<or> (\<not> failed \<and> enabled \<noteq> ''always'') \<or> isFinalized an then (clear an, None)
      else case finalize t1 an of (an', annotations) \<Rightarrow>
        if length annotations = 0 then (an', None)
        else if \<not> opened then (an', None)
        else (an', Some (annotations @ [end_annot t2 e])))"

section \<open>Operations on the global state\<close>

abbreviation on_an :: "(Annotation \<Rightarrow> Annotation) \<Rightarrow> astate \<Rightarrow> astate" where
  "on_an f s \<equiv> s\<lparr>st_an := f (st_an s)\<rparr>"

definition FinalizeAnnotations :: "int \<Rightarrow> int \<Rightarrow> string \<Rightarrow> astate \<Rightarrow> astate \<times> pannot list" where
  "FinalizeAnnotations t1 t2 e s =
     (case finalize t1 (st_an s) of (an', annotations) \<Rightarrow> (s\<lparr>st_an := an'\<rparr>, annotations @ [end_annot t2 e]))"

definition AnnotatePointColor :: "int \<Rightarrow> string \<Rightarrow> string \<Rightarrow> string \<Rightarrow> string \<Rightarrow> astate \<Rightarrow> astate" where
  "AnnotatePointColor t tag desp details bgcolor s = on_an (annotatePointColor t tag desp details bgcolor) s"

definition AnnotateIntervalColor :: "int \<Rightarrow> string \<Rightarrow> int \<Rightarrow> string \<Rightarrow> string \<Rightarrow> string \<Rightarrow> astate \<Rightarrow> astate" where
  "AnnotateIntervalColor t tag start desp details bgcolor s = on_an (annotateIntervalColor t tag start desp details bgcolor) s"

definition AnnotateContinuousColor :: "int \<Rightarrow> string \<Rightarrow> string \<Rightarrow> string \<Rightarrow> string \<Rightarrow> astate \<Rightarrow> astate" where
  "AnnotateContinuousColor t tag desp details bgcolor s = on_an (annotateContinuousColor t tag desp details bgcolor) s"

definition AnnotateContinuousEnd :: "int \<Rightarrow> string \<Rightarrow> astate \<Rightarrow> astate" where
  "AnnotateContinuousEnd t tag s = on_an (annotateContinuousEnd t tag) s"

definition AnnotatePoint :: "int \<Rightarrow> string \<Rightarrow> string \<Rightarrow> string \<Rightarrow> astate \<Rightarrow> astate" where
  "AnnotatePoint t tag desp details s = on_an (annotatePointColor t tag desp details COLOR_USER) s"

definition AnnotateInterval :: "int \<Rightarrow> string \<Rightarrow> int \<Rightarrow> string \<Rightarrow> string \<Rightarrow> astate \<Rightarrow> astate" where
  "AnnotateInterval t tag start desp details s = on_an (annotateIntervalColor t tag start desp details COLOR_USER) s"

definition AnnotateContinuous :: "int \<Rightarrow> string \<Rightarrow> string \<Rightarrow> string \<Rightarrow> astate \<Rightarrow> astate" where
  "AnnotateContinuous t tag desp details s = on_an (annotateContinuousColor t tag desp details COLOR_USER) s"

definition AnnotateInfo :: "int \<Rightarrow> string \<Rightarrow> string \<Rightarrow> astate \<Rightarrow> astate" where
  "AnnotateInfo t desp details s = AnnotatePointColor t TAG_INFO desp details COLOR_INFO s"

definition AnnotateInfoInterval :: "int \<Rightarrow> int \<Rightarrow> string \<Rightarrow> string \<Rightarrow> astate \<Rightarrow> astate" where
  "AnnotateInfoInterval t start desp details s = AnnotateIntervalColor t TAG_INFO start desp details COLOR_INFO s"

definition AnnotateTest :: "int \<Rightarrow> string \<Rightarrow> nat \<Rightarrow> astate \<Rightarrow> astate" where
  "AnnotateTest t desp nservers s =
     (let details = desp @ '' ('' @ itoa nservers @ '' servers)'';
          s1 = s\<lparr>st_finfo := Some (mkFrameworkInfo nservers), st_an := clear (st_an s)\<rparr> in
      AnnotateInfo t details details s1)"

text \<open>\<open>finfo.mu.Lock()\<close> of the operations below dereferences \<open>finfo\<close>.\<close>

definition with_finfo :: "(FrameworkInfo \<Rightarrow> astate \<Rightarrow> astate res) \<Rightarrow> astate \<Rightarrow> astate res" where
  "with_finfo f s = (case st_finfo s of None \<Rightarrow> Inl NilDereference | Some fi \<Rightarrow> f fi s)"

definition AnnotateCheckerBegin :: "int \<Rightarrow> string \<Rightarrow> astate \<Rightarrow> astate res" where
  "AnnotateCheckerBegin t details =
     with_finfo (\<lambda>fi s. Inr (s\<lparr>st_finfo := Some (fi\<lparr>fi_ckbegin := \<lparr>cb_ts = t, cb_details = details\<rparr>\<rparr>)\<rparr>))"

text \<open>The reset at the end is one of the local copy \<open>ckbegin\<close>.\<close>

definition AnnotateCheckerEnd :: "int \<Rightarrow> string \<Rightarrow> string \<Rightarrow> string \<Rightarrow> astate \<Rightarrow> astate res" where
  "AnnotateCheckerEnd t desp details color =
     with_finfo (\<lambda>fi s.
       let ckbegin = fi_ckbegin fi in
       if cb_ts ckbegin = 0 then Inr (AnnotatePointColor t TAG_CHECKER desp details color s)
       else let d = cb_details ckbegin @ '': '' @ details in
            Inr (AnnotateIntervalColor t TAG_CHECKER (cb_ts ckbegin) desp d color s))"

definition AnnotateCheckerSuccess :: "int \<Rightarrow> string \<Rightarrow> string \<Rightarrow> astate \<Rightarrow> astate res" where
  "AnnotateCheckerSuccess t desp details = AnnotateCheckerEnd t desp details COLOR_SUCCESS"

definition AnnotateCheckerFailure :: "int \<Rightarrow> string \<Rightarrow> string \<Rightarrow> astate \<Rightarrow> astate res" where
  "AnnotateCheckerFailure t desp details = AnnotateCheckerEnd t desp details COLOR_FAILURE"

definition AnnotateCheckerNeutral :: "int \<Rightarrow> string \<Rightarrow> string \<Rightarrow> astate \<Rightarrow> astate res" where
  "AnnotateCheckerNeutral t desp details = AnnotateCheckerEnd t desp details COLOR_NEUTRAL"

definition SetAnnotationFinalized :: "astate \<Rightarrow> astate" where
  "SetAnnotationFinalized s = on_an (\<lambda>an. an\<lparr>an_finalized := True\<rparr>) s"

definition GetAnnotationFinalized :: "astate \<Rightarrow> bool" where
  "GetAnnotationFinalized s = isFinalized (st_an s)"

definition AnnotateCheckerFailureBeforeExit ::
  "string \<Rightarrow> bool \<Rightarrow> int \<Rightarrow> int \<Rightarrow> int \<Rightarrow> string \<Rightarrow> string \<Rightarrow> astate \<Rightarrow> (astate \<times> pannot list option) res" where
  "AnnotateCheckerFailureBeforeExit enabled opened t t1 t2 desp details s =
     rbind (AnnotateCheckerFailure t desp details s) (\<lambda>s1.
     case an_cleanup enabled opened t1 t2 True ''test failed'' (st_an s1) of (an', out) \<Rightarrow> Inr (s1\<lparr>st_an := an'\<rparr>, out))"

section \<open>Faults\<close>

text \<open>\<open>%v\<close> of a slice of integers\<close>

fun ints_body :: "nat list \<Rightarrow> string" where
  "ints_body [] = ''''"
| "ints_body [i] = itoa i"
| "ints_body (i # j # js) = itoa i @ '' '' @ ints_body (j # js)"

definition fmt_ints :: "nat list \<Rightarrow> string" where
  "fmt_ints xs = ''['' @ ints_body xs @ '']''"

text \<open>The loop over \<open>finfo.connected\<close>: connected servers, crashed servers, and the text so far.\<close>

fun fault_loop :: "nat \<Rightarrow> bool list \<Rightarrow> bool list \<Rightarrow> nat list \<Rightarrow> nat list \<Rightarrow> string \<Rightarrow> (nat list \<times> nat list \<times> string) res" where
  "fault_loop i [] crashed conn crashes b = Inr (conn, crashes, b)"
| "fault_loop i (c # cs) crashed conn crashes b =
     rbind (slice_get crashed (int i)) (\<lambda>x.
     if x then fault_loop (Suc i) cs crashed conn (crashes @ [i]) b
     else if c then fault_loop (Suc i) cs crashed (conn @ [i]) crashes b
     else fault_loop (Suc i) cs crashed conn crashes (b @ ''['' @ itoa i @ ''] ''))"

definition fault_text :: "FrameworkInfo \<Rightarrow> string res" where
  "fault_text fi =
     rbind (fault_loop 0 (fi_connected fi) (fi_crashed fi) [] [] ''partition = '') (\<lambda>(conn, crashes, b).
     Inr (b @ (if length conn > 0 then fmt_ints conn else '''') @ (if length crashes > 0 then '' / crash = '' @ fmt_ints crashes else '''')))"

definition no_fault :: "FrameworkInfo \<Rightarrow> bool" where
  "no_fault fi \<longleftrightarrow> replicate (fi_nservers fi) True = fi_connected fi \<and> replicate (fi_nservers fi) False = fi_crashed fi"

definition annotateFault :: "int \<Rightarrow> astate \<Rightarrow> astate res" where
  "annotateFault t =
     with_finfo (\<lambda>fi s.
       if no_fault fi then Inr (AnnotateContinuousEnd t TAG_PARTITION s)
       else rbind (fault_text fi) (\<lambda>text. Inr (AnnotateContinuousColor t TAG_PARTITION text text COLOR_FAULT s)))"

definition AnnotateConnection :: "int \<Rightarrow> bool list \<Rightarrow> astate \<Rightarrow> astate res" where
  "AnnotateConnection t connection =
     with_finfo (\<lambda>fi s.
       if fi_connected fi = connection then Inr s
       else annotateFault t (s\<lparr>st_finfo := Some (fi\<lparr>fi_connected := copy_slice (fi_connected fi) connection\<rparr>)\<rparr>))"

definition AnnotateTwoPartitions :: "int \<Rightarrow> nat list \<Rightarrow> nat list \<Rightarrow> astate \<Rightarrow> astate" where
  "AnnotateTwoPartitions t p1 p2 s =
     (let text = ''partition = '' @ fmt_ints p1 @ '' '' @ fmt_ints p2 in AnnotateContinuousColor t TAG_PARTITION text text COLOR_FAULT s)"

definition AnnotateClearFailure :: "int \<Rightarrow> astate \<Rightarrow> astate res" where
  "AnnotateClearFailure t =
     with_finfo (\<lambda>fi s.
       Inr (AnnotateContinuousEnd t TAG_PARTITION
         (s\<lparr>st_finfo := Some (fi\<lparr>fi_crashed := map (\<lambda>_. False) (fi_crashed fi), fi_connected := map (\<lambda>_. True) (fi_connected fi)\<rparr>)\<rparr>)))"

text \<open>The loops of \<open>AnnotateShutdown\<close> (\<open>v\<close> is true) and \<open>AnnotateRestart\<close> (\<open>v\<close> is false).\<close>

fun crash_loop :: "bool \<Rightarrow> nat list \<Rightarrow> bool list \<Rightarrow> bool \<Rightarrow> (bool list \<times> bool) res" where
  "crash_loop v [] crashed changed = Inr (crashed, changed)"
| "crash_loop v (i # js) crashed changed =
     rbind (slice_get crashed (int i)) (\<lambda>x. crash_loop v js (crashed[i := v]) (if x \<noteq> v then True else changed))"

definition set_crashed :: "bool \<Rightarrow> int \<Rightarrow> nat list \<Rightarrow> astate \<Rightarrow> astate res" where
  "set_crashed v t servers =
     with_finfo (\<lambda>fi s. rbind (crash_loop v servers (fi_crashed fi) False) (\<lambda>(crashed, changed).
       let s1 = s\<lparr>st_finfo := Some (fi\<lparr>fi_crashed := crashed\<rparr>)\<rparr> in
       if \<not> changed then Inr s1 else annotateFault t s1))"

definition AnnotateShutdown :: "int \<Rightarrow> nat list \<Rightarrow> astate \<Rightarrow> astate res" where
  "AnnotateShutdown t servers = set_crashed True t servers"

definition AnnotateRestart :: "int \<Rightarrow> nat list \<Rightarrow> astate \<Rightarrow> astate res" where
  "AnnotateRestart t servers = set_crashed False t servers"

definition AnnotateShutdownAll :: "int \<Rightarrow> astate \<Rightarrow> astate res" where
  "AnnotateShutdownAll t = with_finfo (\<lambda>fi. AnnotateShutdown t [0..<fi_nservers fi])"

definition AnnotateRestartAll :: "int \<Rightarrow> astate \<Rightarrow> astate res" where
  "AnnotateRestartAll t = with_finfo (\<lambda>fi. AnnotateRestart t [0..<fi_nservers fi])"

section \<open>What the fault text says\<close>

definition render :: "nat \<Rightarrow> (nat \<Rightarrow> bool) \<Rightarrow> nat set \<Rightarrow> string" where
  "render n up X =
     (let conn = filter (\<lambda>i. i \<notin> X \<and> up i) [0..<n]; crashes = filter (\<lambda>i. i \<in> X) [0..<n] in
      ''partition = '' @ concat (map (\<lambda>i. ''['' @ itoa i @ ''] '') (filter (\<lambda>i. i \<notin> X \<and> \<not> up i) [0..<n]))
      @ (if conn \<noteq> [] then fmt_ints conn else '''') @ (if crashes \<noteq> [] then '' / crash = '' @ fmt_ints crashes else ''''))"

lemma fault_loop_result:
  assumes "length crashed = n" "length cs = n" "i + length xs = n" "drop i cs = xs"
  shows "fault_loop i xs crashed conn crashes b =
    Inr (conn @ filter (\<lambda>j. \<not> crashed ! j \<and> cs ! j) [i..<n], crashes @ filter (\<lambda>j. crashed ! j) [i..<n],
         b @ concat (map (\<lambda>j. ''['' @ itoa j @ ''] '') (filter (\<lambda>j. \<not> crashed ! j \<and> \<not> cs ! j) [i..<n])))"
  using assms(3,4)
proof (induction xs arbitrary: i conn crashes b)
  case (Cons x xs)
  then have i: "i < n" "x = cs ! i" "drop (Suc i) cs = xs" "Suc i + length xs = n"
    using assms(2) by (auto simp: drop_Suc dest: nth_via_drop) (metis drop_Suc list.sel(3) tl_drop)
  have "slice_get crashed (int i) = Inr (crashed ! i)" using i(1) assms(1) by (simp add: slice_get_def idx_ok_def)
  then show ?case using Cons.IH [OF i(4,3)] i(1,2) by (simp add: upt_conv_Cons)
qed simp

definition down :: "FrameworkInfo \<Rightarrow> nat set" where
  "down fi = {i. i < length (fi_crashed fi) \<and> fi_crashed fi ! i}"

definition wf_fi :: "nat \<Rightarrow> FrameworkInfo \<Rightarrow> bool" where
  "wf_fi n fi \<longleftrightarrow> fi_nservers fi = n \<and> length (fi_connected fi) = n \<and> length (fi_crashed fi) = n"

lemma fault_text_render:
  assumes "wf_fi n fi"
  shows "fault_text fi = Inr (render n (\<lambda>i. fi_connected fi ! i) (down fi))"
proof -
  have n: "length (fi_crashed fi) = n" "length (fi_connected fi) = n" using assms by (simp_all add: wf_fi_def)
  have f: "filter (\<lambda>j. \<not> fi_crashed fi ! j \<and> P j) [0..<n] = filter (\<lambda>j. j \<notin> down fi \<and> P j) [0..<n]" for P
    by (rule filter_cong) (auto simp: down_def n)
  have g: "filter (\<lambda>j. fi_crashed fi ! j) [0..<n] = filter (\<lambda>j. j \<in> down fi) [0..<n]"
    by (rule filter_cong) (auto simp: down_def n)
  show ?thesis
    using fault_loop_result [OF n, of 0 "fi_connected fi" "[]" "[]" "''partition = ''"] n
    by (simp add: fault_text_def render_def Let_def f g)
qed

lemma no_fault_iff: "wf_fi n fi \<Longrightarrow> no_fault fi \<longleftrightarrow> (\<forall>i < n. fi_connected fi ! i) \<and> down fi = {}"
  by (auto simp: no_fault_def wf_fi_def down_def list_eq_iff_nth_eq)

lemma crash_loop_result:
  assumes "\<forall>i \<in> set js. i < length crashed"
  shows "\<exists>crashed' ch. crash_loop v js crashed changed = Inr (crashed', ch) \<and> length crashed' = length crashed
    \<and> (\<forall>i < length crashed. crashed' ! i = (if i \<in> set js then v else crashed ! i))
    \<and> (\<not> ch \<longrightarrow> crashed' = crashed \<and> \<not> changed) \<and> (ch \<longleftrightarrow> changed \<or> (\<exists>i \<in> set js. crashed ! i \<noteq> v))"
  using assms
proof (induction js arbitrary: crashed changed)
  case (Cons k js)
  then have k: "k < length crashed" by simp
  then have "slice_get crashed (int k) = Inr (crashed ! k)" by (simp add: slice_get_def idx_ok_def)
  moreover have "\<forall>i \<in> set js. i < length (crashed[k := v])" using Cons.prems by simp
  from Cons.IH [OF this, of "if crashed ! k \<noteq> v then True else changed"]
  obtain crashed' ch where r: "crash_loop v js (crashed[k := v]) (if crashed ! k \<noteq> v then True else changed) = Inr (crashed', ch)"
    "length crashed' = length crashed" "\<forall>i < length crashed. crashed' ! i = (if i \<in> set js then v else crashed[k := v] ! i)"
    "\<not> ch \<longrightarrow> crashed' = crashed[k := v] \<and> \<not> (if crashed ! k \<noteq> v then True else changed)"
    "ch \<longleftrightarrow> (if crashed ! k \<noteq> v then True else changed) \<or> (\<exists>i \<in> set js. crashed[k := v] ! i \<noteq> v)" by auto
  moreover have "crashed' = crashed \<and> \<not> changed" if "\<not> ch"
    using r(4) that by (cases "crashed ! k = v") (auto simp: list_update_same_conv k)
  moreover have "ch \<longleftrightarrow> changed \<or> (\<exists>i \<in> set (k # js). crashed ! i \<noteq> v)"
    using r(5) k by (cases "crashed ! k = v") (auto simp: nth_list_update split: if_splits)
  ultimately show ?case by (auto simp: nth_list_update)
qed simp

section \<open>A test as a sequence of calls\<close>

datatype aevent =
    Connection "bool list" | Shutdown "nat list" | Restart "nat list" | ShutdownAll | RestartAll | ClearFailure
  | TwoPartitions "nat list" "nat list"
  | CheckerBegins string | CheckerEnds string string string | Info string string | InfoInterval int string string
  | Point string string string | Interval string int string string | Continues string string string | ContinuousEnds string
  | Finalized

fun an_event :: "int \<Rightarrow> aevent \<Rightarrow> astate \<Rightarrow> astate res" where
  "an_event t (Connection c) s = AnnotateConnection t c s"
| "an_event t (Shutdown js) s = AnnotateShutdown t js s"
| "an_event t (Restart js) s = AnnotateRestart t js s"
| "an_event t ShutdownAll s = AnnotateShutdownAll t s"
| "an_event t RestartAll s = AnnotateRestartAll t s"
| "an_event t ClearFailure s = AnnotateClearFailure t s"
| "an_event t (TwoPartitions p1 p2) s = Inr (AnnotateTwoPartitions t p1 p2 s)"
| "an_event t (CheckerBegins d) s = AnnotateCheckerBegin t d s"
| "an_event t (CheckerEnds desp d c) s = AnnotateCheckerEnd t desp d c s"
| "an_event t (Info desp d) s = Inr (AnnotateInfo t desp d s)"
| "an_event t (InfoInterval start desp d) s = Inr (AnnotateInfoInterval t start desp d s)"
| "an_event t (Point tag desp d) s = Inr (AnnotatePoint t tag desp d s)"
| "an_event t (Interval tag start desp d) s = Inr (AnnotateInterval t tag start desp d s)"
| "an_event t (Continues tag desp d) s = Inr (AnnotateContinuous t tag desp d s)"
| "an_event t (ContinuousEnds tag) s = Inr (AnnotateContinuousEnd t tag s)"
| "an_event t Finalized s = Inr (SetAnnotationFinalized s)"

fun an_run :: "(int \<times> aevent) list \<Rightarrow> astate \<Rightarrow> astate res" where
  "an_run [] s = Inr s"
| "an_run ((t, ev) # evs) s = rbind (an_event t ev s) (an_run evs)"

text \<open>Calls a test of \<open>n\<close> servers makes: servers in range, and the tag of failures left to the framework.\<close>

fun ok_event :: "nat \<Rightarrow> aevent \<Rightarrow> bool" where
  "ok_event n (Connection c) = (length c = n)"
| "ok_event n (Shutdown js) = list_all (\<lambda>i. i < n) js"
| "ok_event n (Restart js) = list_all (\<lambda>i. i < n) js"
| "ok_event n (Point tag _ _) = (tag \<noteq> TAG_PARTITION)"
| "ok_event n (Interval tag _ _ _) = (tag \<noteq> TAG_PARTITION)"
| "ok_event n (Continues tag _ _) = (tag \<noteq> TAG_PARTITION)"
| "ok_event n (ContinuousEnds tag) = (tag \<noteq> TAG_PARTITION)"
| "ok_event n _ = True"

text \<open>The reference: who is connected, who is down, and the timeline of failures, which is the on-going failure with its start and
  text, if there is one, and the failures that are over with their start, end and text. A report that changes nothing does
  nothing. Clearing when nothing is on-going leaves a failure from time 0 without a text, as the code does.\<close>

type_synonym timeline = "(int \<times> string) option \<times> (int \<times> int \<times> string) list"

definition over :: "int \<Rightarrow> timeline \<Rightarrow> (int \<times> int \<times> string) list" where
  "over t tln = (case fst tln of None \<Rightarrow> [] | Some (t0, x) \<Rightarrow> [(t0, t, x)])"

definition show_fault :: "int \<Rightarrow> string \<Rightarrow> timeline \<Rightarrow> timeline" where
  "show_fault t x tln = (Some (t, x), snd tln @ over t tln)"

definition hide_fault :: "int \<Rightarrow> timeline \<Rightarrow> timeline" where
  "hide_fault t tln = (None, snd tln @ (if fst tln = None then [(0, t, '''')] else over t tln))"

definition all_well :: "bool list \<Rightarrow> nat set \<Rightarrow> bool" where
  "all_well up X \<longleftrightarrow> (\<forall>b \<in> set up. b) \<and> X = {}"

definition report :: "nat \<Rightarrow> int \<Rightarrow> bool list \<Rightarrow> nat set \<Rightarrow> timeline \<Rightarrow> timeline" where
  "report n t up X tln = (if all_well up X then hide_fault t tln else show_fault t (render n (\<lambda>i. up ! i) X) tln)"

type_synonym fspec = "bool list \<times> nat set \<times> timeline"

definition crash_spec :: "nat \<Rightarrow> int \<Rightarrow> nat set \<Rightarrow> fspec \<Rightarrow> fspec" where
  "crash_spec n t X' = (\<lambda>(up, X, tln). (up, X', if X' = X then tln else report n t up X' tln))"

fun fault_spec :: "nat \<Rightarrow> int \<Rightarrow> aevent \<Rightarrow> fspec \<Rightarrow> fspec" where
  "fault_spec n t (Connection c) (up, X, tln) = (c, X, if c = up then tln else report n t c X tln)"
| "fault_spec n t (Shutdown js) (up, X, tln) = crash_spec n t (X \<union> set js) (up, X, tln)"
| "fault_spec n t (Restart js) (up, X, tln) = crash_spec n t (X - set js) (up, X, tln)"
| "fault_spec n t ShutdownAll (up, X, tln) = crash_spec n t {..<n} (up, X, tln)"
| "fault_spec n t RestartAll (up, X, tln) = crash_spec n t {} (up, X, tln)"
| "fault_spec n t ClearFailure (up, X, tln) = (replicate n True, {}, hide_fault t tln)"
| "fault_spec n t (TwoPartitions p1 p2) (up, X, tln) = (up, X, show_fault t (''partition = '' @ fmt_ints p1 @ '' '' @ fmt_ints p2) tln)"
| "fault_spec n t _ (up, X, tln) = (up, X, tln)"

section \<open>The timeline of failures\<close>

definition ongoing :: "astate \<Rightarrow> Continuous option" where
  "ongoing s = map_of (an_continuous (st_an s)) TAG_PARTITION"

text \<open>The timeline that the annotations of a state show: every annotation with the tag of failures, in the order they were made.\<close>

definition timeline :: "astate \<Rightarrow> timeline" where
  "timeline s = (map_option (\<lambda>c. (ct_start c, ct_desp c)) (ongoing s),
     map (\<lambda>p. (p_Start p, p_End p, p_Description p)) (filter (\<lambda>p. p_Tag p = TAG_PARTITION) (an_annotations (st_an s))))"

definition an_abs :: "nat \<Rightarrow> fspec \<Rightarrow> astate \<Rightarrow> bool" where
  "an_abs n spec s \<longleftrightarrow> (\<exists>fi. st_finfo s = Some fi \<and> wf_fi n fi \<and> spec = (fi_connected fi, down fi, timeline s))"

lemma other_tags_ne [simp]: "TAG_INFO \<noteq> TAG_PARTITION" "TAG_CHECKER \<noteq> TAG_PARTITION" "TAG_PARTITION \<noteq> TAG_INFO" "TAG_PARTITION \<noteq> TAG_CHECKER"
  by (simp_all add: TAG_INFO_def TAG_CHECKER_def TAG_PARTITION_def)

text \<open>What the operations do to the timeline.\<close>

lemma other_timeline [simp]:
  "tag \<noteq> TAG_PARTITION \<Longrightarrow> timeline (on_an (annotatePointColor t tag desp d c) s) = timeline s"
  "tag \<noteq> TAG_PARTITION \<Longrightarrow> timeline (on_an (annotateIntervalColor t tag start desp d c) s) = timeline s"
  "tag \<noteq> TAG_PARTITION \<Longrightarrow> timeline (on_an (annotateContinuousColor t tag desp d c) s) = timeline s"
  "tag \<noteq> TAG_PARTITION \<Longrightarrow> timeline (on_an (annotateContinuousEnd t tag) s) = timeline s"
  "timeline (s\<lparr>st_finfo := f\<rparr>) = timeline s"
  by (auto simp: timeline_def ongoing_def annotatePointColor_def annotateIntervalColor_def annotateContinuousColor_def
      annotateContinuousEnd_def closed_def Let_def update_conv' delete_conv' split: option.splits)

lemma fault_continues: "timeline (AnnotateContinuousColor t TAG_PARTITION text text col s) = show_fault t text (timeline s)"
  by (auto simp: AnnotateContinuousColor_def annotateContinuousColor_def Let_def ongoing_def timeline_def show_fault_def over_def closed_def
      update_conv' split: option.splits)

lemma fault_ends: "timeline (AnnotateContinuousEnd t TAG_PARTITION s) = hide_fault t (timeline s)"
  by (auto simp: AnnotateContinuousEnd_def annotateContinuousEnd_def Let_def ongoing_def timeline_def hide_fault_def over_def closed_def
      zero_continuous_def delete_conv' split: option.splits)

lemma no_fault_all_well: "wf_fi n fi \<Longrightarrow> no_fault fi \<longleftrightarrow> all_well (fi_connected fi) (down fi)"
  by (auto simp: no_fault_iff all_well_def wf_fi_def set_conv_nth)

lemma annotateFault_abs:
  assumes fi: "st_finfo s = Some fi" "wf_fi n fi"
  shows "\<exists>s'. annotateFault t s = Inr s' \<and> an_abs n (fi_connected fi, down fi, report n t (fi_connected fi) (down fi) (timeline s)) s'"
proof (cases "no_fault fi")
  case True
  moreover have "st_finfo (AnnotateContinuousEnd t TAG_PARTITION s) = Some fi" using fi(1) by (simp add: AnnotateContinuousEnd_def)
  ultimately show ?thesis using fi no_fault_all_well [OF fi(2)] by (auto simp: annotateFault_def with_finfo_def an_abs_def fault_ends report_def)
next
  case False
  let ?x = "render n (\<lambda>i. fi_connected fi ! i) (down fi)"
  have "st_finfo (AnnotateContinuousColor t TAG_PARTITION ?x ?x COLOR_FAULT s) = Some fi" using fi(1) by (simp add: AnnotateContinuousColor_def)
  then show ?thesis using False fi no_fault_all_well [OF fi(2)] fault_text_render [OF fi(2)]
    by (auto simp: annotateFault_def with_finfo_def an_abs_def fault_continues report_def)
qed

lemma set_crashed_abs:
  assumes abs: "an_abs n (up, X, tln) s" and js: "\<forall>i \<in> set js. i < n"
  shows "\<exists>s'. set_crashed v t js s = Inr s' \<and> an_abs n (crash_spec n t (if v then X \<union> set js else X - set js) (up, X, tln)) s'"
proof -
  obtain fi where fi: "st_finfo s = Some fi" "wf_fi n fi" "fi_connected fi = up" "down fi = X" "timeline s = tln"
    using abs by (auto simp: an_abs_def)
  have len: "length (fi_crashed fi) = n" using fi(2) by (simp add: wf_fi_def)
  obtain cr ch where r: "crash_loop v js (fi_crashed fi) False = Inr (cr, ch)" "length cr = n"
    "\<forall>i < n. cr ! i = (if i \<in> set js then v else fi_crashed fi ! i)" "\<not> ch \<longrightarrow> cr = fi_crashed fi"
    "ch \<longleftrightarrow> (\<exists>i \<in> set js. fi_crashed fi ! i \<noteq> v)"
    using crash_loop_result [of js "fi_crashed fi" v False] js unfolding len by blast
  let ?fi = "fi\<lparr>fi_crashed := cr\<rparr>" and ?X = "if v then X \<union> set js else X - set js"
  have wf: "wf_fi n ?fi" using fi(2) r(2) by (simp add: wf_fi_def)
  have X: "down ?fi = ?X" using r(2,3) fi(4) len js by (auto simp: down_def split: if_splits)
  show ?thesis
  proof (cases ch)
    case True
    then obtain i where "i \<in> set js" "fi_crashed fi ! i \<noteq> v" using r(5) by blast
    then have "?X \<noteq> X" using fi(4) js len by (auto simp: down_def)
    then show ?thesis using annotateFault_abs [of "s\<lparr>st_finfo := Some ?fi\<rparr>" ?fi n t] wf X True r(1) fi
      by (simp add: set_crashed_def with_finfo_def crash_spec_def)
  next
    case False
    have "s\<lparr>st_finfo := Some ?fi\<rparr> = s" using r(4) False fi(1) by simp
    moreover have "?X = X" using X r(4) False fi(4) by simp
    ultimately show ?thesis using r(1) fi abs False by (simp add: set_crashed_def with_finfo_def crash_spec_def)
  qed
qed

lemma connection_abs:
  assumes abs: "an_abs n (up, X, tln) s" and c: "length c = n"
  shows "\<exists>s'. AnnotateConnection t c s = Inr s' \<and> an_abs n (c, X, if c = up then tln else report n t c X tln) s'"
proof -
  obtain fi where fi: "st_finfo s = Some fi" "wf_fi n fi" "fi_connected fi = up" "down fi = X" "timeline s = tln"
    using abs by (auto simp: an_abs_def)
  let ?fi = "fi\<lparr>fi_connected := copy_slice (fi_connected fi) c\<rparr>"
  have "copy_slice (fi_connected fi) c = c" using fi(2) c by (simp add: copy_slice_def wf_fi_def)
  then have wf: "wf_fi n ?fi" "fi_connected ?fi = c" "down ?fi = X" using fi c by (simp_all add: wf_fi_def down_def)
  show ?thesis
    using annotateFault_abs [of "s\<lparr>st_finfo := Some ?fi\<rparr>" ?fi n t] wf fi abs by (cases "c = up") (simp_all add: AnnotateConnection_def with_finfo_def)
qed

lemma clear_failure_abs:
  assumes abs: "an_abs n (up, X, tln) s"
  shows "\<exists>s'. AnnotateClearFailure t s = Inr s' \<and> an_abs n (replicate n True, {}, hide_fault t tln) s'"
proof -
  obtain fi where fi: "st_finfo s = Some fi" "wf_fi n fi" "timeline s = tln" using abs by (auto simp: an_abs_def)
  let ?fi = "fi\<lparr>fi_crashed := map (\<lambda>_. False) (fi_crashed fi), fi_connected := map (\<lambda>_. True) (fi_connected fi)\<rparr>"
  have "wf_fi n ?fi" "fi_connected ?fi = replicate n True" "down ?fi = {}" using fi(2) by (auto simp: wf_fi_def down_def map_replicate_const)
  moreover have "st_finfo (AnnotateContinuousEnd t TAG_PARTITION (s\<lparr>st_finfo := Some ?fi\<rparr>)) = Some ?fi" by (simp add: AnnotateContinuousEnd_def)
  ultimately show ?thesis using fi by (auto simp: AnnotateClearFailure_def with_finfo_def an_abs_def fault_ends)
qed

lemma abs_idle:
  assumes "an_abs n spec s" "timeline s' = timeline s"
    and "\<And>fi. st_finfo s = Some fi \<Longrightarrow> \<exists>fi'. st_finfo s' = Some fi' \<and> fi_nservers fi' = fi_nservers fi
           \<and> fi_connected fi' = fi_connected fi \<and> fi_crashed fi' = fi_crashed fi"
  shows "an_abs n spec s'"
  using assms by (fastforce simp: an_abs_def wf_fi_def down_def)

text \<open>Every call does to the annotations what the reference does to its timeline.\<close>

lemma event_abs:
  assumes abs: "an_abs n spec s" and ev: "ok_event n ev"
  shows "\<exists>s'. an_event t ev s = Inr s' \<and> an_abs n (fault_spec n t ev spec) s'"
proof -
  obtain up X tln where spec: "spec = (up, X, tln)" by (metis prod_cases3)
  note abs = abs [unfolded spec]
  obtain fi where fi: "st_finfo s = Some fi" "wf_fi n fi" "down fi = X" "timeline s = tln" "fi_connected fi = up" using abs by (auto simp: an_abs_def)
  have X: "X \<union> {0..<n} = {..<n}" "X - {0..<n} = {}" using fi by (auto simp: down_def wf_fi_def)
  have n: "fi_nservers fi = n" using fi(2) by (simp add: wf_fi_def)
  note idle = abs_idle [OF abs]
  show ?thesis unfolding spec
  proof (cases ev)
    case (Shutdown js)
    then show "\<exists>s'. an_event t ev s = Inr s' \<and> an_abs n (fault_spec n t ev (up, X, tln)) s'"
      using set_crashed_abs [OF abs, of js True t] ev by (simp add: AnnotateShutdown_def list_all_iff)
  next
    case (Restart js)
    then show "\<exists>s'. an_event t ev s = Inr s' \<and> an_abs n (fault_spec n t ev (up, X, tln)) s'"
      using set_crashed_abs [OF abs, of js False t] ev by (simp add: AnnotateRestart_def list_all_iff)
  next
    case ShutdownAll
    then show "\<exists>s'. an_event t ev s = Inr s' \<and> an_abs n (fault_spec n t ev (up, X, tln)) s'"
      using set_crashed_abs [OF abs, of "[0..<n]" True t] fi(1) n X(1) by (simp add: AnnotateShutdownAll_def AnnotateShutdown_def with_finfo_def)
  next
    case RestartAll
    then show "\<exists>s'. an_event t ev s = Inr s' \<and> an_abs n (fault_spec n t ev (up, X, tln)) s'"
      using set_crashed_abs [OF abs, of "[0..<n]" False t] fi(1) n X(2) by (simp add: AnnotateRestartAll_def AnnotateRestart_def with_finfo_def)
  next
    case (TwoPartitions p1 p2)
    have "st_finfo (AnnotateTwoPartitions t p1 p2 s) = Some fi" using fi(1) by (simp add: AnnotateTwoPartitions_def AnnotateContinuousColor_def Let_def)
    then show "\<exists>s'. an_event t ev s = Inr s' \<and> an_abs n (fault_spec n t ev (up, X, tln)) s'"
      using TwoPartitions fi by (auto simp: an_abs_def AnnotateTwoPartitions_def fault_continues Let_def)
  next
    case (CheckerBegins d)
    have "an_abs n (up, X, tln) (s\<lparr>st_finfo := Some (fi\<lparr>fi_ckbegin := \<lparr>cb_ts = t, cb_details = d\<rparr>\<rparr>)\<rparr>)" by (rule idle) (auto simp: fi)
    then show "\<exists>s'. an_event t ev s = Inr s' \<and> an_abs n (fault_spec n t ev (up, X, tln)) s'"
      using CheckerBegins fi(1) by (simp add: AnnotateCheckerBegin_def with_finfo_def)
  next
    case (CheckerEnds desp d c)
    have "an_abs n (up, X, tln) (AnnotatePointColor t TAG_CHECKER desp d c s)"
      "an_abs n (up, X, tln) (AnnotateIntervalColor t TAG_CHECKER b desp d' c s)" for b d'
      by (rule idle; simp add: AnnotatePointColor_def AnnotateIntervalColor_def)+
    then show "\<exists>s'. an_event t ev s = Inr s' \<and> an_abs n (fault_spec n t ev (up, X, tln)) s'"
      using CheckerEnds fi(1) by (simp add: AnnotateCheckerEnd_def with_finfo_def Let_def)
  next
    case Finalized
    have "an_abs n (up, X, tln) (SetAnnotationFinalized s)"
      by (rule idle) (auto simp: SetAnnotationFinalized_def timeline_def ongoing_def)
    then show "\<exists>s'. an_event t ev s = Inr s' \<and> an_abs n (fault_spec n t ev (up, X, tln)) s'" using Finalized by simp
  qed (use connection_abs [OF abs, of _ t] clear_failure_abs [OF abs, of t] ev in
    \<open>auto intro!: idle simp: AnnotateInfo_def AnnotateInfoInterval_def AnnotatePointColor_def AnnotateIntervalColor_def AnnotatePoint_def
      AnnotateInterval_def AnnotateContinuous_def AnnotateContinuousEnd_def\<close>)
qed

lemma test_abs: "an_abs n (replicate n True, {}, None, []) (AnnotateTest t desp n s)"
  by (auto simp: an_abs_def AnnotateTest_def AnnotateInfo_def AnnotatePointColor_def Let_def wf_fi_def mkFrameworkInfo_def down_def)
    (auto simp: timeline_def ongoing_def clear_def annotatePointColor_def)

lemma run_abs:
  "an_abs n spec s \<Longrightarrow> \<forall>(t, ev) \<in> set evs. ok_event n ev
    \<Longrightarrow> \<exists>s'. an_run evs s = Inr s' \<and> an_abs n (fold (\<lambda>(t, ev). fault_spec n t ev) evs spec) s'"
proof (induction evs arbitrary: spec s)
  case (Cons x evs)
  obtain t ev where x: "x = (t, ev)" by fastforce
  from event_abs [OF Cons.prems(1), of ev t] Cons.prems(2) x obtain s1 where
    "an_event t ev s = Inr s1" "an_abs n (fault_spec n t ev spec) s1" by auto
  then show ?case using Cons.IH [of "fault_spec n t ev spec" s1] Cons.prems(2) x by simp
qed simp

text \<open>What the timeline looks like: the failures with a text are intervals in order of time that do not overlap, up to the
  on-going one; one without a text starts at time 0; and while a server is disconnected or down a failure is on-going.\<close>

definition marks :: "timeline \<Rightarrow> int list" where
  "marks tln = concat (map (\<lambda>(a, b, x). [a, b]) (filter (\<lambda>(a, b, x). x \<noteq> '''') (snd tln))) @ (case fst tln of None \<Rightarrow> [] | Some (a, x) \<Rightarrow> [a])"

definition timeline_ok :: "int \<Rightarrow> fspec \<Rightarrow> bool" where
  "timeline_ok t = (\<lambda>(up, X, tln). sorted (marks tln @ [t]) \<and> (\<forall>(a, b, x) \<in> set (snd tln). x = '''' \<longrightarrow> a = 0)
     \<and> (\<forall>a x. fst tln = Some (a, x) \<longrightarrow> x \<noteq> '''') \<and> (\<not> all_well up X \<longrightarrow> fst tln \<noteq> None))"

lemma render_nonempty: "render n up X \<noteq> ''''"
  by (simp add: render_def Let_def)

lemma keep_ok: "timeline_ok t0 (up, X, tln) \<Longrightarrow> t0 \<le> t \<Longrightarrow> timeline_ok t (up, X, tln)"
  unfolding timeline_ok_def by (simp add: sorted_append) (meson order_trans)

lemma marks_next:
  assumes "\<forall>a x. fst tln = Some (a, x) \<longrightarrow> x \<noteq> ''''"
  shows "marks (show_fault t x tln) = marks tln @ (if fst tln = None then [t] else [t, t])"
    and "marks (hide_fault t tln) = marks tln @ (if fst tln = None then [] else [t])"
  using assms by (auto simp: show_fault_def hide_fault_def over_def marks_def split: option.splits)

lemma show_ok:
  assumes "timeline_ok t0 (up, X, tln)" "t0 \<le> t" "x \<noteq> ''''"
  shows "timeline_ok t (up', X', show_fault t x tln)"
proof -
  note ok = keep_ok [OF assms(1,2)]
  then have "\<forall>a x. fst tln = Some (a, x) \<longrightarrow> x \<noteq> ''''" by (simp add: timeline_ok_def)
  then have "sorted (marks (show_fault t x tln) @ [t])" using ok by (simp add: marks_next timeline_ok_def sorted_append)
  then show ?thesis using ok assms(3) by (auto simp: timeline_ok_def show_fault_def over_def split: option.splits)
qed

lemma hide_ok:
  assumes "timeline_ok t0 (up, X, tln)" "t0 \<le> t" "all_well up' X'"
  shows "timeline_ok t (up', X', hide_fault t tln)"
proof -
  note ok = keep_ok [OF assms(1,2)]
  then have "\<forall>a x. fst tln = Some (a, x) \<longrightarrow> x \<noteq> ''''" by (simp add: timeline_ok_def)
  then have "sorted (marks (hide_fault t tln) @ [t])" using ok by (simp add: marks_next timeline_ok_def sorted_append)
  then show ?thesis using ok assms(3) by (auto simp: timeline_ok_def hide_fault_def over_def split: option.splits)
qed

lemma report_ok: "timeline_ok t0 (up, X, tln) \<Longrightarrow> t0 \<le> t \<Longrightarrow> timeline_ok t (up', X', report n t up' X' tln)"
  unfolding report_def using show_ok [OF _ _ render_nonempty] hide_ok by simp

lemma spec_ok:
  assumes "timeline_ok t0 spec" "t0 \<le> t"
  shows "timeline_ok t (fault_spec n t ev spec)"
proof -
  obtain up X tln where spec: "spec = (up, X, tln)" by (metis prod_cases3)
  note ok = assms [unfolded spec]
  have w: "all_well (replicate n True) {}" by (simp add: all_well_def)
  have c: "timeline_ok t (crash_spec n t X' (up, X, tln))" for X'
    using keep_ok [OF ok] report_ok [OF ok] by (simp add: crash_spec_def)
  show ?thesis unfolding spec
    by (cases ev) (use c report_ok [OF ok] keep_ok [OF ok] show_ok [OF ok] hide_ok [OF ok w] in simp_all)
qed

lemma fold_ok:
  "timeline_ok t0 spec \<Longrightarrow> sorted (t0 # map fst evs)
    \<Longrightarrow> timeline_ok (last (t0 # map fst evs)) (fold (\<lambda>(t, ev). fault_spec n t ev) evs spec)"
proof (induction evs arbitrary: t0 spec)
  case (Cons x evs)
  obtain t ev where x: "x = (t, ev)" by fastforce
  have "timeline_ok t (fault_spec n t ev spec)" using spec_ok [OF Cons.prems(1)] Cons.prems(2) x by simp
  from Cons.IH [OF this] show ?case using Cons.prems(2) x by simp
qed simp

text \<open>Without \<open>AnnotateTwoPartitions\<close> a failure is on-going only while a server is disconnected or down.\<close>

lemma single_cause:
  assumes "\<forall>(t, ev) \<in> set evs. \<forall>p q. ev \<noteq> TwoPartitions p q" "(\<lambda>(up, X, tln). all_well up X \<longrightarrow> fst tln = None) spec"
  shows "(\<lambda>(up, X, tln). all_well up X \<longrightarrow> fst tln = None) (fold (\<lambda>(t, ev). fault_spec n t ev) evs spec)"
  using assms
proof (induction evs arbitrary: spec)
  case (Cons x evs)
  obtain t ev where x: "x = (t, ev)" by fastforce
  obtain up X tln where spec: "spec = (up, X, tln)" by (metis prod_cases3)
  have "(\<lambda>(up, X, tln). all_well up X \<longrightarrow> fst tln = None) (fault_spec n t ev (up, X, tln))"
    using Cons.prems x spec by (cases ev) (auto simp: crash_spec_def report_def hide_fault_def show_fault_def)
  then show ?case using Cons.IH Cons.prems(1) x spec by simp
qed simp

text \<open>C22: whatever a test of \<open>n\<close> servers reports, in any order and with a clock that does not go backwards: no call fails, and the
  annotations with the tag of failures are exactly the timeline of the reference, that is, the same failures with the same starts, ends
  and texts in the same order and the same one on-going. In that timeline the failures with a text are intervals that do not
  overlap, in order of time, up to the on-going one; while a server is disconnected or down a failure is on-going, and only then
  unless the test used \<open>AnnotateTwoPartitions\<close>; and a failure without a text, which \<open>AnnotateClearFailure\<close> leaves when nothing is
  on-going, is shown from time 0.\<close>

theorem fault_timeline:
  assumes "sorted (t0 # map fst evs)" "\<forall>(t, ev) \<in> set evs. ok_event n ev"
  shows "\<exists>s. an_run evs (AnnotateTest t0 desp n s0) = Inr s
    \<and> (case fold (\<lambda>(t, ev). fault_spec n t ev) evs (replicate n True, {}, None, []) of (up, X, tln) \<Rightarrow>
         timeline s = tln \<and> sorted (marks tln @ [last (t0 # map fst evs)])
         \<and> (\<not> all_well up X \<longrightarrow> fst tln \<noteq> None)
         \<and> ((\<forall>(t, ev) \<in> set evs. \<forall>p q. ev \<noteq> TwoPartitions p q) \<longrightarrow> all_well up X \<longrightarrow> fst tln = None)
         \<and> (\<forall>(a, b, x) \<in> set (snd tln). x = '''' \<longrightarrow> a = 0))"
proof -
  let ?spec = "fold (\<lambda>(t, ev). fault_spec n t ev) evs (replicate n True, {}, None, [])"
  obtain s where r: "an_run evs (AnnotateTest t0 desp n s0) = Inr s" "an_abs n ?spec s" using run_abs [OF test_abs assms(2)] by blast
  have "timeline_ok t0 (replicate n True, {}, None, [])" by (simp add: timeline_ok_def marks_def all_well_def)
  note ok = fold_ok [OF this assms(1), of n]
  have "(\<forall>(t, ev) \<in> set evs. \<forall>p q. ev \<noteq> TwoPartitions p q) \<longrightarrow> (\<lambda>(up, X, tln). all_well up X \<longrightarrow> fst tln = None) ?spec"
    using single_cause [of evs "(replicate n True, {}, None, [])" n] by simp
  then show ?thesis using r ok by (cases ?spec) (auto simp: an_abs_def timeline_ok_def)
qed

definition demo_events :: "(int \<times> aevent) list" where
  "demo_events = [(10, Connection [True, False, True]), (12, CheckerBegins ''c''), (15, Shutdown [0]), (20, Connection [True, True, True]),
     (21, Restart [0]), (23, TwoPartitions [0] [1, 2]), (25, ClearFailure), (26, ClearFailure)]"

definition demo_fspec :: fspec where
  "demo_fspec = fold (\<lambda>(t, ev). fault_spec 3 t ev) demo_events (replicate 3 True, {}, None, [])"

lemma demo_fspec_timeline:
  "fst (snd (snd demo_fspec)) = None" "map (\<lambda>(a, b, x). (a, b)) (snd (snd (snd demo_fspec))) = [(10, 15), (15, 20), (20, 21), (23, 25), (0, 26)]"
  by code_simp+

theorem fault_timeline_witness:
  "\<exists>s. an_run demo_events (AnnotateTest 5 ''t'' 3 \<lparr>st_an = mkAnnotation, st_finfo = None\<rparr>) = Inr s \<and> fst (timeline s) = None
     \<and> map (\<lambda>(a, b, x). (a, b)) (snd (timeline s)) = [(10, 15), (15, 20), (20, 21), (23, 25), (0, 26)]"
proof -
  have srt: "sorted (5 # map fst demo_events)" by (simp add: demo_events_def)
  have ok: "\<forall>(t, ev) \<in> set demo_events. ok_event 3 ev" by (simp add: demo_events_def)
  obtain up X tln where sp: "demo_fspec = (up, X, tln)" by (cases demo_fspec)
  have "\<exists>s. an_run demo_events (AnnotateTest 5 ''t'' 3 \<lparr>st_an = mkAnnotation, st_finfo = None\<rparr>) = Inr s \<and> timeline s = tln"
    using fault_timeline [OF srt ok, of "''t''" "\<lparr>st_an = mkAnnotation, st_finfo = None\<rparr>", folded demo_fspec_def]
    unfolding sp prod.case by (elim exE conjE) (rule exI, rule conjI, assumption+)
  moreover have "fst tln = None" "map (\<lambda>(a, b, x). (a, b)) (snd tln) = [(10, 15), (15, 20), (20, 21), (23, 25), (0, 26)]"
    using demo_fspec_timeline unfolding sp snd_conv .
  ultimately show ?thesis by (elim exE conjE) (rule exI, rule conjI, assumption, simp only: simp_thms)
qed

section \<open>Two slips\<close>

text \<open>Ending a tag that has no on-going annotation adds one from time 0 with no text.\<close>

lemma ContinuousEnd_without_begin:
  assumes "map_of (an_continuous an) tag = None"
  shows "an_annotations (annotateContinuousEnd t tag an) = an_annotations an @
    [\<lparr>p_Tag = tag, p_Start = 0, p_End = t, p_Description = '''', p_Details = '''', p_BackgroundColor = ''''\<rparr>]"
  using assms by (simp add: annotateContinuousEnd_def closed_def zero_continuous_def)

text \<open>The beginning of a check is never reset: the next check that is not begun is shown as an interval from the old beginning.\<close>

lemma CheckerEnd_keeps_begin:
  assumes "st_finfo s \<noteq> None" "t0 \<noteq> 0"
  shows "\<exists>s1 s2 s3. AnnotateCheckerBegin t0 d0 s = Inr s1 \<and> AnnotateCheckerEnd t1 desp d c s1 = Inr s2 \<and> AnnotateCheckerEnd t2 desp' d' c' s2 = Inr s3
    \<and> last (an_annotations (st_an s3)) = \<lparr>p_Tag = TAG_CHECKER, p_Start = t0, p_End = t2, p_Description = desp', p_Details = d0 @ '': '' @ d', p_BackgroundColor = c'\<rparr>"
  using assms by (auto simp: AnnotateCheckerBegin_def AnnotateCheckerEnd_def with_finfo_def AnnotateIntervalColor_def annotateIntervalColor_def Let_def)

text \<open>What is drawn: everything that was annotated, then the on-going annotations closed at the end, then the end of the test.\<close>

lemma cleanup_draws:
  assumes "enabled \<noteq> ''never''" "failed \<or> enabled = ''always''" "\<not> an_finalized an" "an_annotations an \<noteq> [] \<or> an_continuous an \<noteq> []"
  shows "\<exists>an'. an_cleanup enabled True t1 t2 failed e an = (an', Some (an_annotations an @ map (\<lambda>(tag, cont). closed tag t1 cont) (an_continuous an) @ [end_annot t2 e]))
    \<and> an_finalized an'"
  using assms by (auto simp: an_cleanup_def isFinalized_def finalize_def)

section \<open>Annotations from the servers\<close>

text \<open>\<open>src/src/tester1/annotator.go\<close>: the server processes send their annotations to the tester. \<open>got\<close> says whether the tester took
  the call, \<open>ok\<close> whether the answer came back.\<close>

record PostAnnotatorPointArgs =
  pp_Tag :: string
  pp_Desp :: string
  pp_Details :: string

record PostAnnotatorInfoIntervalArgs =
  pi_Start :: int
  pi_Desp :: string
  pi_Details :: string

definition PostAnnotatorPoint :: "int \<Rightarrow> PostAnnotatorPointArgs \<Rightarrow> astate \<Rightarrow> astate" where
  "PostAnnotatorPoint t args s = AnnotatePoint t (pp_Tag args) (pp_Desp args) (pp_Details args) s"

definition Annotate :: "bool \<Rightarrow> int \<Rightarrow> string \<Rightarrow> string \<Rightarrow> string \<Rightarrow> astate \<Rightarrow> astate" where
  "Annotate got t tag desp details s =
     (if got then PostAnnotatorPoint t \<lparr>pp_Tag = tag, pp_Desp = desp, pp_Details = details\<rparr> s else s)"

definition GetAnnotatorTimestamp :: "bool \<Rightarrow> int \<Rightarrow> int" where
  "GetAnnotatorTimestamp ok t = (if \<not> ok then 0 else t)"

definition TesterRPC_PostAnnotatorInfoInterval :: "int \<Rightarrow> PostAnnotatorInfoIntervalArgs \<Rightarrow> astate \<Rightarrow> astate" where
  "TesterRPC_PostAnnotatorInfoInterval t args s = AnnotateInfoInterval t (pi_Start args) (pi_Desp args) (pi_Details args) s"

definition PostAnnotatorInfoInterval :: "bool \<Rightarrow> int \<Rightarrow> int \<Rightarrow> string \<Rightarrow> string \<Rightarrow> astate \<Rightarrow> astate" where
  "PostAnnotatorInfoInterval got t start desp details s =
     (if got then TesterRPC_PostAnnotatorInfoInterval t \<lparr>pi_Start = start, pi_Desp = desp, pi_Details = details\<rparr> s else s)"

text \<open>They never touch the timeline of failures.\<close>

lemma server_annotations_keep_faults:
  "tag \<noteq> TAG_PARTITION \<Longrightarrow> timeline (Annotate got t tag desp d s) = timeline s"
  "timeline (PostAnnotatorInfoInterval got t start desp d s) = timeline s"
  by (simp_all add: Annotate_def PostAnnotatorPoint_def AnnotatePoint_def PostAnnotatorInfoInterval_def TesterRPC_PostAnnotatorInfoInterval_def
      AnnotateInfoInterval_def AnnotateIntervalColor_def)

end
