(* ===== verification/Kv_Linear.thy ===== *)
theory Kv_Linear
  imports Kvtest Annotations
begin

text \<open>
  Linearizability of the key/value server as its clients see it. Any number of clerk calls run at once, each with its retries and its
  lost messages; every call is recorded with the times at which it was made and at which it returned, as \<open>Get\<close> and \<open>Put\<close> of
  \<open>src/src/kvtest1/porcupine.go\<close> do. The history so recorded is linearizable with respect to \<open>KvModel\<close> of \<open>src/src/models1/kv.go\<close>, so
  that \<open>checkPorcupine\<close>, which runs the checker on it, does not fail the test.
\<close>

section \<open>Linearizable histories\<close>

text \<open>\<open>p\<close> is an order of the operations of \<open>h\<close> in which no operation comes before one that had returned when it was called,
  and which the model accepts. Operations of one key are judged together, as \<open>Partition\<close> groups them.\<close>

definition io_of :: "Operation \<Rightarrow> KvInput \<times> KvOutput" where
  "io_of v = (op_Input v, op_Output v)"

definition linearizes :: "Operation list \<Rightarrow> Operation list \<Rightarrow> bool" where
  "linearizes p h \<longleftrightarrow> mset p = mset h \<and> sorted_wrt (\<lambda>a b. \<not> op_Return b < op_Call a) p \<and> kv_legal kv_Init (map io_of p)"

definition linearizable :: "Operation list \<Rightarrow> bool" where
  "linearizable h \<longleftrightarrow> (\<exists>p. linearizes p h)"

text \<open>The state the model reaches, \<open>None\<close> when it rejects an output.\<close>

fun kv_run :: "KvState \<Rightarrow> (KvInput \<times> KvOutput) list \<Rightarrow> KvState option" where
  "kv_run st [] = Some st"
| "kv_run st ((inp, out) # h) = (case kv_Step st inp out of (True, Some st') \<Rightarrow> kv_run st' h | _ \<Rightarrow> None)"

lemma kv_run_legal: "kv_run st h \<noteq> None \<Longrightarrow> kv_legal st h"
  by (induction st h rule: kv_run.induct) (auto split: prod.splits option.splits bool.splits)

lemma kv_run_snoc:
  "kv_run st h = Some st' \<Longrightarrow> kv_Step st' inp out = (True, Some st'') \<Longrightarrow> kv_run st (h @ [(inp, out)]) = Some st''"
  by (induction st h rule: kv_run.induct) (auto split: prod.splits option.splits bool.splits)

section \<open>Calls in flight\<close>

text \<open>A call is identified by a number. \<open>Calling cli req start retried\<close> is a clerk call on its way, \<open>Answered\<close> one whose answer has arrived,
  \<open>Returned\<close> one that is recorded. \<open>li_lin\<close> is not part of the program: the calls in the order in which they took effect, with the
  time of that.\<close>

datatype call_phase = Unborn | Calling int request int bool | Answered int request int KvOutput | Returned Operation

record lin_sys =
  li_kv :: KVServer
  li_now :: int
  li_calls :: "nat \<Rightarrow> call_phase"
  li_order :: "nat list"
  li_lin :: "(nat \<times> KvInput \<times> KvOutput \<times> int) list"

fun req_input :: "request \<Rightarrow> KvInput" where
  "req_input (RGet a) = get_input a"
| "req_input (RPut a) = put_input a"

text \<open>The answer of the clerk: a put past its first attempt turns \<open>ErrVersion\<close> into \<open>ErrMaybe\<close>.\<close>

fun clerk_output :: "bool \<Rightarrow> KVServer \<Rightarrow> request \<Rightarrow> KvOutput" where
  "clerk_output r kv (RGet a) = get_output (kv_Get kv a zeroGetReply)"
| "clerk_output r kv (RPut a) = put_output \<lparr>pr_Err = put_answer r kv a\<rparr>"

definition maybe_output :: KvOutput where
  "maybe_output = put_output \<lparr>pr_Err = ErrMaybe\<rparr>"

text \<open>A request that is executed takes effect there if it is a put of the current version.\<close>

fun takes_effect :: "KVServer \<Rightarrow> request \<Rightarrow> bool" where
  "takes_effect kv (RGet a) = False"
| "takes_effect kv (RPut a) = put_applies kv a"

definition mark :: "nat \<Rightarrow> KvInput \<Rightarrow> KvOutput \<Rightarrow> lin_sys \<Rightarrow> lin_sys" where
  "mark i inp out s = (if i \<in> fst ` set (li_lin s) then s else s\<lparr>li_lin := li_lin s @ [(i, inp, out, li_now s)]\<rparr>)"

definition set_phase :: "nat \<Rightarrow> call_phase \<Rightarrow> lin_sys \<Rightarrow> lin_sys" where
  "set_phase i p s = s\<lparr>li_calls := (li_calls s)(i := p)\<rparr>"

definition execute :: "request \<Rightarrow> lin_sys \<Rightarrow> lin_sys" where
  "execute req s = s\<lparr>li_kv := fst (serve (li_kv s) req)\<rparr>"

inductive lin_step :: "lin_sys \<Rightarrow> lin_sys \<Rightarrow> bool" where
  tick: "li_now s \<le> t \<Longrightarrow> lin_step s (s\<lparr>li_now := t\<rparr>)"
| make_call: "li_calls s i = Unborn \<Longrightarrow> lin_step s (set_phase i (Calling cli req (li_now s) False) s)"
| request_lost: "li_calls s i = Calling cli req st r \<Longrightarrow> lin_step s (set_phase i (Calling cli req st True) s)"
| reply_lost: "li_calls s i = Calling cli req st r
    \<Longrightarrow> lin_step s (set_phase i (Calling cli req st True)
          (execute req (if takes_effect (li_kv s) req then mark i (req_input req) maybe_output s else s)))"
| answer: "li_calls s i = Calling cli req st r \<Longrightarrow> out = clerk_output r (li_kv s) req
    \<Longrightarrow> lin_step s (set_phase i (Answered cli req st out) (execute req (mark i (req_input req) out s)))"
| log_call: "li_calls s i = Answered cli req st out
    \<Longrightarrow> lin_step s ((set_phase i (Returned \<lparr>op_ClientId = cli, op_Input = req_input req, op_Call = st, op_Output = out, op_Return = li_now s\<rparr>) s)
          \<lparr>li_order := li_order s @ [i]\<rparr>)"

definition lin_init :: "lin_sys \<Rightarrow> bool" where
  "lin_init s \<longleftrightarrow> li_kv s = MakeKVServer \<and> (\<forall>i. li_calls s i = Unborn) \<and> li_order s = [] \<and> li_lin s = []"

text \<open>The log of the test.\<close>

definition returned :: "lin_sys \<Rightarrow> nat \<Rightarrow> Operation" where
  "returned s i = (case li_calls s i of Returned v \<Rightarrow> v | _ \<Rightarrow> undefined)"

definition history :: "lin_sys \<Rightarrow> OpLog" where
  "history s = map (returned s) (li_order s)"

section \<open>The order in which calls take effect\<close>

text \<open>A put that the server refuses because it does not know the key; the model does not know this answer.\<close>

definition nokey_io :: "KvInput \<Rightarrow> KvOutput \<Rightarrow> bool" where
  "nokey_io inp out \<longleftrightarrow> ki_Op inp = 1 \<and> ko_Err out = err_string ErrNoKey"

definition key_ios :: "string \<Rightarrow> (nat \<times> KvInput \<times> KvOutput \<times> int) list \<Rightarrow> (KvInput \<times> KvOutput) list" where
  "key_ios k l = map (\<lambda>(i, inp, out, t). (inp, out)) (filter (\<lambda>(i, inp, out, t). ki_Key inp = k \<and> \<not> nokey_io inp out) l)"

definition phase_ok :: "lin_sys \<Rightarrow> nat \<Rightarrow> bool" where
  "phase_ok s i \<longleftrightarrow> (case li_calls s i of
       Unborn \<Rightarrow> i \<notin> fst ` set (li_lin s) \<and> i \<notin> set (li_order s)
     | Calling cli req st r \<Rightarrow> st \<le> li_now s \<and> i \<notin> set (li_order s) \<and>
         (i \<in> fst ` set (li_lin s) \<longrightarrow> r \<and> (\<exists>a t. req = RPut a \<and> (i, put_input a, maybe_output, t) \<in> set (li_lin s) \<and> st \<le> t
            \<and> unat (pa_Version a) < unat (ver_of (li_kv s) (pa_Key a))))
     | Answered cli req st out \<Rightarrow> i \<notin> set (li_order s) \<and> (\<exists>t. (i, req_input req, out, t) \<in> set (li_lin s) \<and> st \<le> t \<and> t \<le> li_now s)
     | Returned v \<Rightarrow> i \<in> set (li_order s) \<and> (\<exists>t. (i, op_Input v, op_Output v, t) \<in> set (li_lin s) \<and> op_Call v \<le> t \<and> t \<le> op_Return v))"

definition lin_inv :: "nat \<Rightarrow> lin_sys \<Rightarrow> bool" where
  "lin_inv m s \<longleftrightarrow> (\<forall>k. unat (ver_of (li_kv s) k) \<le> m) \<and> (\<forall>k. kv_run kv_Init (key_ios k (li_lin s)) = Some (kv_abs (li_kv s) k))
     \<and> distinct (map fst (li_lin s)) \<and> distinct (li_order s) \<and> sorted (map (\<lambda>x. snd (snd (snd x))) (li_lin s) @ [li_now s])
     \<and> (\<forall>i. phase_ok s i)"

lemma lin_invD:
  assumes "lin_inv m s"
  shows "unat (ver_of (li_kv s) k) \<le> m" "kv_run kv_Init (key_ios k (li_lin s)) = Some (kv_abs (li_kv s) k)"
    "distinct (map fst (li_lin s))" "distinct (li_order s)" "sorted (map (\<lambda>x. snd (snd (snd x))) (li_lin s) @ [li_now s])" "phase_ok s i"
  using assms by (simp_all add: lin_inv_def)

lemma lin_init_inv: "lin_init s \<Longrightarrow> lin_inv 0 s"
  by (auto simp: lin_init_def lin_inv_def phase_ok_def key_ios_def MakeKVServer_def ver_of_def val_of_def kv_abs_def kv_Init_def)

text \<open>What an execution does to the server, and that the model accepts the answer given to it.\<close>

lemma fst_serve_put [simp]: "fst (serve kv (RPut a)) = fst (kv_Put kv a zeroPutReply)"
  by (simp split: prod.splits)

lemma serve_keeps: "\<not> takes_effect kv req \<Longrightarrow> fst (serve kv req) = kv"
  by (cases req) (simp_all add: put_not_applies del: serve.simps(2))

lemma serve_versions:
  assumes "\<And>k. unat (ver_of kv k) \<le> m" "m + 1 < 2 ^ 64"
  shows "unat (ver_of (fst (serve kv req)) k) \<le> m + 1" "unat (ver_of kv k) \<le> unat (ver_of (fst (serve kv req)) k)"
proof -
  have "unat (ver_of (fst (serve kv req)) k) \<le> m + 1 \<and> unat (ver_of kv k) \<le> unat (ver_of (fst (serve kv req)) k)"
  proof (cases req)
    case (RPut a)
    have f: "fst (serve kv req) = put_state kv (pa_Key a) (pa_Value a) (pa_Version a)"
      using RPut by (cases a) (simp split: prod.splits)
    have "unat (ver_of kv k + 1) = Suc (unat (ver_of kv k))" by (rule unat_inc) (use assms(1) [of k] assms(2) in simp)
    then show ?thesis using assms(1) [of k] kvs.put_ver_cases [of kv "pa_Key a" "pa_Value a" "pa_Version a" k] unfolding f by auto
  next
    case (RGet a)
    then show ?thesis using assms(1) [of k] by simp
  qed
  then show "unat (ver_of (fst (serve kv req)) k) \<le> m + 1" "unat (ver_of kv k) \<le> unat (ver_of (fst (serve kv req)) k)" by auto
qed

lemma serve_other: "k \<noteq> req_key req \<Longrightarrow> kv_abs (fst (serve kv req)) k = kv_abs kv k"
  using serve_frame [of kv req "fst (serve kv req)" "fst (snd (serve kv req))" "snd (snd (serve kv req))" k] by simp

lemma effect_step:
  "takes_effect kv req \<Longrightarrow> kv_Step (kv_abs kv (req_key req)) (req_input req) maybe_output = (True, Some (kv_abs (fst (serve kv req)) (req_key req)))"
  by (cases req) (auto simp: serve_defs maybe_output_def put_applies_def split: option.splits if_splits prod.splits)

lemma output_step:
  assumes "out = clerk_output r kv req" "\<not> nokey_io (req_input req) out"
  shows "kv_Step (kv_abs kv (req_key req)) (req_input req) out = (True, Some (kv_abs (fst (serve kv req)) (req_key req)))"
  using assms by (cases req) (auto simp: serve_defs nokey_io_def put_answer_def Let_def split: option.splits if_splits prod.splits)

lemma nokey_keeps: "nokey_io (req_input req) (clerk_output r kv req) \<Longrightarrow> \<not> takes_effect kv req"
  by (cases req) (auto simp: serve_defs nokey_io_def put_answer_def put_applies_def split: if_splits option.splits)

lemma req_input_key: "ki_Key (req_input req) = req_key req"
  by (cases req) (simp_all add: get_input_def put_input_def)

lemma key_ios_snoc: "key_ios k (l @ [(i, inp, out, t)]) = key_ios k l @ (if ki_Key inp = k \<and> \<not> nokey_io inp out then [(inp, out)] else [])"
  by (simp add: key_ios_def)

lemma run_marked:
  assumes run: "\<And>k. kv_run kv_Init (key_ios k l) = Some (kv_abs kv k)"
    and acc: "\<not> nokey_io (req_input req) out \<Longrightarrow>
      kv_Step (kv_abs kv (req_key req)) (req_input req) out = (True, Some (kv_abs (fst (serve kv req)) (req_key req)))"
    and nok: "nokey_io (req_input req) out \<Longrightarrow> \<not> takes_effect kv req"
  shows "kv_run kv_Init (key_ios k (l @ [(i, req_input req, out, t)])) = Some (kv_abs (fst (serve kv req)) k)"
proof (cases "nokey_io (req_input req) out")
  case True
  then show ?thesis using run serve_keeps [OF nok [OF True]] by (simp add: key_ios_snoc)
next
  case False
  show ?thesis
  proof (cases "k = req_key req")
    case True
    then show ?thesis using kv_run_snoc [OF run acc [OF False]] False by (simp add: key_ios_snoc req_input_key)
  next
    case other: False
    then show ?thesis using run serve_other [OF other] by (simp add: key_ios_snoc req_input_key)
  qed
qed

lemma phase_frame:
  assumes "phase_ok s j" "li_calls t j = li_calls s j" "set (li_lin s) \<subseteq> set (li_lin t)"
    "j \<in> fst ` set (li_lin t) \<Longrightarrow> j \<in> fst ` set (li_lin s)" "j \<in> set (li_order t) \<longleftrightarrow> j \<in> set (li_order s)" "li_now s \<le> li_now t"
    "\<And>k. unat (ver_of (li_kv s) k) \<le> unat (ver_of (li_kv t) k)"
  shows "phase_ok t j"
proof (cases "li_calls s j")
  case (Calling cli req st r)
  have "\<exists>a t'. req = RPut a \<and> (j, put_input a, maybe_output, t') \<in> set (li_lin t) \<and> st \<le> t' \<and> unat (pa_Version a) < unat (ver_of (li_kv t) (pa_Key a))"
    if jl: "j \<in> fst ` set (li_lin t)"
  proof -
    obtain a t' where "req = RPut a" "(j, put_input a, maybe_output, t') \<in> set (li_lin s)" "st \<le> t'" "unat (pa_Version a) < unat (ver_of (li_kv s) (pa_Key a))"
      using assms(1) assms(4) [OF jl] Calling by (auto simp: phase_ok_def)
    then show ?thesis using assms(3) order_less_le_trans [OF _ assms(7)] by blast
  qed
  moreover have "j \<in> fst ` set (li_lin t) \<longrightarrow> r" using assms(1,4) Calling by (simp add: phase_ok_def)
  ultimately show ?thesis using assms Calling by (simp add: phase_ok_def)
next
  case Unborn
  then show ?thesis using assms by (auto simp: phase_ok_def)
next
  case (Answered cli req st out)
  then show ?thesis using assms by (fastforce simp: phase_ok_def)
next
  case (Returned v)
  then show ?thesis using assms by (fastforce simp: phase_ok_def)
qed

text \<open>One execution: the server and the order of effects move together.\<close>

lemma inv_execute:
  assumes inv: "lin_inv m s" and m: "m + 1 < 2 ^ 64"
    and t: "li_kv t = fst (serve (li_kv s) req)" "li_now t = li_now s" "li_order t = li_order s"
      "\<And>j. j \<noteq> i \<Longrightarrow> li_calls t j = li_calls s j"
    and l: "li_lin t = li_lin s \<and> \<not> takes_effect (li_kv s) req
      \<or> i \<notin> fst ` set (li_lin s) \<and> (\<exists>out. li_lin t = li_lin s @ [(i, req_input req, out, li_now s)]
          \<and> (\<not> nokey_io (req_input req) out \<longrightarrow>
               kv_Step (kv_abs (li_kv s) (req_key req)) (req_input req) out = (True, Some (kv_abs (li_kv t) (req_key req))))
          \<and> (nokey_io (req_input req) out \<longrightarrow> \<not> takes_effect (li_kv s) req))"
    and self: "phase_ok t i"
  shows "lin_inv (Suc m) t"
proof -
  note k = lin_invD [OF inv] and v = serve_versions [where kv = "li_kv s" and req = req, OF lin_invD(1) [OF inv] m]
  have sub: "set (li_lin s) \<subseteq> set (li_lin t)" "fst ` set (li_lin t) \<subseteq> insert i (fst ` set (li_lin s))" using l by auto
  have "phase_ok t j" for j
  proof (cases "j = i")
    case False
    show ?thesis by (rule phase_frame [OF k(6) [of j]]) (use t sub v(2) False in auto)
  qed (use self in simp)
  moreover have "kv_run kv_Init (key_ios x (li_lin t)) = Some (kv_abs (li_kv t) x)" for x
    using l
  proof
    assume "li_lin t = li_lin s \<and> \<not> takes_effect (li_kv s) req"
    then show ?thesis using k(2) [of x] serve_keeps t(1) by simp
  next
    assume "i \<notin> fst ` set (li_lin s) \<and> (\<exists>out. li_lin t = li_lin s @ [(i, req_input req, out, li_now s)]
          \<and> (\<not> nokey_io (req_input req) out \<longrightarrow>
               kv_Step (kv_abs (li_kv s) (req_key req)) (req_input req) out = (True, Some (kv_abs (li_kv t) (req_key req))))
          \<and> (nokey_io (req_input req) out \<longrightarrow> \<not> takes_effect (li_kv s) req))"
    then obtain out where o: "li_lin t = li_lin s @ [(i, req_input req, out, li_now s)]" "nokey_io (req_input req) out \<Longrightarrow> \<not> takes_effect (li_kv s) req"
      "\<not> nokey_io (req_input req) out \<Longrightarrow>
         kv_Step (kv_abs (li_kv s) (req_key req)) (req_input req) out = (True, Some (kv_abs (li_kv t) (req_key req)))" by blast
    show ?thesis unfolding o(1) t(1) by (rule run_marked [OF k(2) o(3) [unfolded t(1)] o(2)])
  qed
  moreover have "distinct (map fst (li_lin t))" "sorted (map (\<lambda>x. snd (snd (snd x))) (li_lin t) @ [li_now t])"
    using l k(3,5) t(2) by (auto simp: sorted_append)
  ultimately show ?thesis using v(1) t k(4) by (simp add: lin_inv_def)
qed

text \<open>A put that took effect before is refused when it is executed again, and answered with \<open>ErrMaybe\<close>.\<close>

lemma stale_put:
  assumes "unat (pa_Version a) < unat (ver_of kv (pa_Key a))"
  shows "\<not> takes_effect kv (RPut a)" "clerk_output True kv (RPut a) = maybe_output"
proof -
  obtain d where d: "kv_data kv (pa_Key a) = Some d" "unat (pa_Version a) < unat (kd_version d)"
    using assms by (auto simp: ver_of_def split: option.splits)
  then have "kd_version d \<noteq> pa_Version a" by auto
  with d(1) show "\<not> takes_effect kv (RPut a)" "clerk_output True kv (RPut a) = maybe_output"
    by (simp_all add: put_applies_def kv_Put_def maybe_output_def put_answer_def)
qed

lemma effect_moves: "takes_effect kv (RPut a) \<Longrightarrow> unat (ver_of kv (pa_Key a)) + 1 < 2 ^ 64 \<Longrightarrow>
    unat (pa_Version a) < unat (ver_of (fst (serve kv (RPut a))) (pa_Key a))"
  using put_applies_ver [of kv a] put_applies_iff [of kv a] unat_inc [of "ver_of kv (pa_Key a)"] by (simp del: serve.simps(2))

lemma lin_inv_mono: "lin_inv m s \<Longrightarrow> lin_inv (Suc m) s"
  by (auto simp: lin_inv_def intro: le_SucI)

lemma inv_local:
  assumes inv: "lin_inv m s" and t: "li_kv t = li_kv s" "li_lin t = li_lin s" "li_order t = li_order s" "li_now t = li_now s"
      "\<And>j. j \<noteq> i \<Longrightarrow> li_calls t j = li_calls s j"
    and self: "phase_ok t i"
  shows "lin_inv (Suc m) t"
proof -
  have "phase_ok t j" for j
    by (cases "j = i") (use self t phase_frame [OF lin_invD(6) [OF inv, of j], of t] in auto)
  then show ?thesis using lin_inv_mono [OF inv] t by (simp add: lin_inv_def)
qed

lemma sorted_last_le: "sorted (map f l @ [n]) \<Longrightarrow> x \<in> set l \<Longrightarrow> f x \<le> n"
  by (auto simp: sorted_append)

lemma lin_step_inv:
  assumes st: "lin_step s t" and inv: "lin_inv m s" and m: "m + 1 < 2 ^ 64"
  shows "lin_inv (Suc m) t"
  using st
proof cases
  case (tick u)
  have "phase_ok t j" for j by (rule phase_frame [OF lin_invD(6) [OF inv, of j]]) (use tick in auto)
  then show ?thesis using lin_inv_mono [OF inv] tick by (auto simp: lin_inv_def sorted_append intro: order_trans)
next
  case (make_call i cli req)
  have "phase_ok t i" using make_call lin_invD(6) [OF inv, of i] by (simp add: phase_ok_def set_phase_def)
  then show ?thesis by (rule inv_local [OF inv, rotated 5]) (use make_call in \<open>auto simp: set_phase_def\<close>)
next
  case (request_lost i cli req st r)
  have "phase_ok t i" using request_lost lin_invD(6) [OF inv, of i] by (auto simp: phase_ok_def set_phase_def)
  then show ?thesis by (rule inv_local [OF inv, rotated 5]) (use request_lost in \<open>auto simp: set_phase_def\<close>)
next
  case (reply_lost i cli req st r)
  note ph = lin_invD(6) [OF inv, of i]
  show ?thesis
  proof (cases "takes_effect (li_kv s) req")
    case True
    then obtain a where a: "req = RPut a" by (cases req) auto
    have fresh: "i \<notin> fst ` set (li_lin s)" using ph reply_lost(2) True stale_put(1) by (auto simp: phase_ok_def a)
    have b: "unat (ver_of (li_kv s) (pa_Key a)) + 1 < 2 ^ 64" using lin_invD(1) [OF inv, of "pa_Key a"] m by simp
    have now: "st \<le> li_now s" using ph reply_lost(2) by (simp add: phase_ok_def)
    have nn: "\<not> nokey_io (req_input req) maybe_output" by (simp add: nokey_io_def maybe_output_def put_output_def)
    have t: "li_lin t = li_lin s @ [(i, req_input req, maybe_output, li_now s)]" "li_kv t = fst (serve (li_kv s) req)" "li_now t = li_now s"
      "li_order t = li_order s" "li_calls t = (li_calls s)(i := Calling cli req st True)"
      using reply_lost(1) True fresh by (simp_all add: mark_def set_phase_def execute_def)
    have "phase_ok t i" using ph reply_lost(2) now effect_moves [OF True [unfolded a] b] by (auto simp: phase_ok_def t a)
    then show ?thesis
      by (rule inv_execute [OF inv m t(2,3,4), rotated 2]) (use t effect_step [OF True] fresh nn in auto)
  next
    case False
    have t: "li_lin t = li_lin s" "li_kv t = fst (serve (li_kv s) req)" "li_now t = li_now s"
      "li_order t = li_order s" "li_calls t = (li_calls s)(i := Calling cli req st True)"
      using reply_lost(1) False by (simp_all add: set_phase_def execute_def)
    have "phase_ok t i" using ph reply_lost(2) serve_keeps [OF False] by (auto simp: phase_ok_def t)
    then show ?thesis by (rule inv_execute [OF inv m t(2,3,4), rotated 2]) (use t False in auto)
  qed
next
  case (answer i cli req st r out)
  note ph = lin_invD(6) [OF inv, of i]
  have now: "st \<le> li_now s" "i \<notin> set (li_order s)" using ph answer(2) by (simp_all add: phase_ok_def)
  show ?thesis
  proof (cases "i \<in> fst ` set (li_lin s)")
    case True
    then obtain a t0 where a: "r" "req = RPut a" "(i, put_input a, maybe_output, t0) \<in> set (li_lin s)" "st \<le> t0"
      "unat (pa_Version a) < unat (ver_of (li_kv s) (pa_Key a))" using ph answer(2) by (auto simp: phase_ok_def)
    have out: "out = maybe_output" using stale_put(2) [OF a(5)] answer(3) a(1,2) by simp
    have t: "li_lin t = li_lin s" "li_kv t = fst (serve (li_kv s) req)" "li_now t = li_now s"
      "li_order t = li_order s" "li_calls t = (li_calls s)(i := Answered cli req st out)"
      using answer(1) True by (simp_all add: mark_def set_phase_def execute_def)
    have "t0 \<le> li_now s" using sorted_last_le [OF lin_invD(5) [OF inv] a(3)] by simp
    then have "phase_ok t i" using now a(2-4) out by (auto simp: phase_ok_def t)
    then show ?thesis by (rule inv_execute [OF inv m t(2,3,4), rotated 2]) (use t stale_put(1) [OF a(5)] a(2) in auto)
  next
    case False
    have t: "li_lin t = li_lin s @ [(i, req_input req, out, li_now s)]" "li_kv t = fst (serve (li_kv s) req)" "li_now t = li_now s"
      "li_order t = li_order s" "li_calls t = (li_calls s)(i := Answered cli req st out)"
      using answer(1) False by (simp_all add: mark_def set_phase_def execute_def)
    have "phase_ok t i" using now by (auto simp: phase_ok_def t)
    then show ?thesis
      by (rule inv_execute [OF inv m t(2,3,4), rotated 2]) (use t False output_step [OF answer(3)] nokey_keeps answer(3) in auto)
  qed
next
  case (log_call i cli req st out)
  note ph = lin_invD(6) [OF inv, of i]
  have t: "li_kv t = li_kv s" "li_lin t = li_lin s" "li_now t = li_now s" "li_order t = li_order s @ [i]"
    "li_calls t i = Returned \<lparr>op_ClientId = cli, op_Input = req_input req, op_Call = st, op_Output = out, op_Return = li_now s\<rparr>"
    "\<And>j. j \<noteq> i \<Longrightarrow> li_calls t j = li_calls s j" using log_call(1) by (simp_all add: set_phase_def)
  have "phase_ok t i" using ph log_call(2) by (auto simp: phase_ok_def t)
  then have "phase_ok t j" for j
    by (cases "j = i") (use t phase_frame [OF lin_invD(6) [OF inv, of j], of t] in auto)
  moreover have "i \<notin> set (li_order s)" using ph log_call(2) by (simp add: phase_ok_def)
  ultimately show ?thesis using lin_inv_mono [OF inv] t by (simp add: lin_inv_def)
qed

lemma lin_reach_inv: "reach_in lin_init lin_step m s \<Longrightarrow> m < 2 ^ 64 - 1 \<Longrightarrow> lin_inv m s"
proof (induction rule: reach_in.induct)
  case (reach_in_step m s t)
  then have "lin_inv m s" "m + 1 < 2 ^ 64" by simp_all
  then show ?case using lin_step_inv [OF reach_in_step.hyps(2)] by blast
qed (rule lin_init_inv)

section \<open>Recorded histories are linearizable\<close>

text \<open>No call is on its way.\<close>

definition quiet :: "lin_sys \<Rightarrow> bool" where
  "quiet s \<longleftrightarrow> (\<forall>i. li_calls s i = Unborn \<or> (\<exists>v. li_calls s i = Returned v))"

lemma quiet_entry:
  assumes inv: "lin_inv m s" and q: "quiet s" and e: "(i, inp, out, t) \<in> set (li_lin s)"
  shows "i \<in> set (li_order s) \<and> io_of (returned s i) = (inp, out) \<and> op_Call (returned s i) \<le> t \<and> t \<le> op_Return (returned s i)"
proof -
  have "i \<in> fst ` set (li_lin s)" using e by force
  then have "li_calls s i \<noteq> Unborn" using lin_invD(6) [OF inv, of i] by (cases "li_calls s i") (simp_all add: phase_ok_def)
  then obtain v where v: "li_calls s i = Returned v" using q unfolding quiet_def by blast
  then obtain u where u: "(i, op_Input v, op_Output v, u) \<in> set (li_lin s)" "op_Call v \<le> u" "u \<le> op_Return v" "i \<in> set (li_order s)"
    using lin_invD(6) [OF inv, of i] by (auto simp: phase_ok_def)
  have "(op_Input v, op_Output v, u) = (inp, out, t)"
    using eq_key_imp_eq_value [OF lin_invD(3) [OF inv] u(1) e] by simp
  then show ?thesis using u v by (simp add: returned_def io_of_def)
qed

lemma quiet_order:
  assumes inv: "lin_inv m s" and q: "quiet s"
  shows "mset (map fst (li_lin s)) = mset (li_order s)"
proof -
  have "i \<in> set (li_order s) \<Longrightarrow> i \<in> fst ` set (li_lin s)" for i
    using lin_invD(6) [OF inv, of i] q by (cases "li_calls s i") (force simp: phase_ok_def quiet_def)+
  then have "set (map fst (li_lin s)) = set (li_order s)" using quiet_entry [OF inv q] by force
  then show ?thesis using lin_invD(3,4) [OF inv] set_eq_iff_mset_eq_distinct by blast
qed

lemma sorted_calls:
  assumes "sorted (map (\<lambda>x. snd (snd (snd x))) l)" "\<And>i inp out t. (i, inp, out, t) \<in> set l \<Longrightarrow> op_Call (f i) \<le> t \<and> t \<le> op_Return (f i)"
  shows "sorted_wrt (\<lambda>a b. \<not> op_Return b < op_Call a) (map f (map fst l))"
  using assms
proof (induction l)
  case (Cons x l)
  obtain i inp out t where x: "x = (i, inp, out, t)" by (cases x)
  have "\<not> op_Return (f (fst y)) < op_Call (f i)" if "y \<in> set l" for y
  proof -
    obtain j a b u where y: "y = (j, a, b, u)" by (cases y)
    have "t \<le> u" using Cons.prems(1) that x y by force
    moreover have "op_Call (f i) \<le> t" "u \<le> op_Return (f j)" using Cons.prems(2) [of i inp out t] Cons.prems(2) [of j a b u] that x y by auto
    ultimately show ?thesis using y by simp
  qed
  moreover have "sorted_wrt (\<lambda>a b. \<not> op_Return b < op_Call a) (map f (map fst l))"
    by (rule Cons.IH) (use Cons.prems in auto)
  ultimately show ?case using x by auto
qed simp

lemma ios_of_history:
  assumes "\<And>i inp out t. (i, inp, out, t) \<in> set l \<Longrightarrow> io_of (f i) = (inp, out) \<and> \<not> nokey_io inp out"
  shows "map io_of (filter (\<lambda>v. op_key v = k) (map f (map fst l))) = key_ios k l"
  using assms
proof (induction l)
  case (Cons x l)
  obtain i inp out t where x: "x = (i, inp, out, t)" by (cases x)
  then have "io_of (f i) = (inp, out)" "\<not> nokey_io inp out" using Cons.prems by auto
  then show ?case using Cons x by (auto simp: key_ios_def io_of_def)
qed (simp add: key_ios_def)

lemma history_linearizes:
  assumes inv: "lin_inv m s" and q: "quiet s" and nok: "\<And>v. v \<in> set (history s) \<Longrightarrow> \<not> nokey_io (op_Input v) (op_Output v)"
  shows "linearizes (filter (\<lambda>v. op_key v = k) (map (returned s) (map fst (li_lin s)))) (filter (\<lambda>v. op_key v = k) (history s))"
proof -
  let ?p = "map (returned s) (map fst (li_lin s))"
  have "mset ?p = mset (history s)" using quiet_order [OF inv q] unfolding history_def mset_map by simp
  then have m: "mset (filter (\<lambda>v. op_key v = k) ?p) = mset (filter (\<lambda>v. op_key v = k) (history s))" by (simp add: mset_filter)
  have "sorted (map (\<lambda>x. snd (snd (snd x))) (li_lin s))" using lin_invD(5) [OF inv] by (simp add: sorted_append)
  then have "sorted_wrt (\<lambda>a b. \<not> op_Return b < op_Call a) ?p" by (rule sorted_calls) (use quiet_entry [OF inv q] in blast)
  then have w: "sorted_wrt (\<lambda>a b. \<not> op_Return b < op_Call a) (filter (\<lambda>v. op_key v = k) ?p)" by (rule sorted_wrt_filter)
  have "io_of (returned s i) = (inp, out) \<and> \<not> nokey_io inp out" if "(i, inp, out, t) \<in> set (li_lin s)" for i inp out t
    using quiet_entry [OF inv q that] nok [of "returned s i"] by (auto simp: history_def io_of_def)
  then have "map io_of (filter (\<lambda>v. op_key v = k) ?p) = key_ios k (li_lin s)" by (rule ios_of_history)
  then have "kv_legal kv_Init (map io_of (filter (\<lambda>v. op_key v = k) ?p))" using kv_run_legal lin_invD(2) [OF inv, of k] by simp
  with m w show ?thesis by (simp add: linearizes_def)
qed

section \<open>The check of a test (porcupine.go)\<close>

datatype CheckResult = Ok | Unknown | Illegal

text \<open>\<open>checkPorcupine\<close>: \<open>check\<close> is \<open>porcupine.CheckOperationsVerbose\<close> on \<open>KvModel\<close>, \<open>enabled\<close> the environment variable \<open>VIS_ENABLE\<close>, \<open>opened\<close> whether the
  file could be opened, \<open>t1\<close> and \<open>t2\<close> readings of the clock. The result is the state of the annotations, what is drawn beside the
  history, and whether the test goes on.\<close>

definition checkPorcupine :: "(Operation list \<Rightarrow> CheckResult) \<Rightarrow> string \<Rightarrow> bool \<Rightarrow> int \<Rightarrow> int \<Rightarrow> OpLog \<Rightarrow> astate
    \<Rightarrow> astate \<times> pannot list option \<times> unit res" where
  "checkPorcupine check enabled opened t1 t2 opLog s =
     (let res = check (oplog_Read opLog) in
      if res = Illegal then
        (if opened \<and> enabled \<noteq> ''never''
         then (case FinalizeAnnotations t1 t2 ''test failed'' s of (s', an) \<Rightarrow> (s', Some an, Inl (LogFatal ''history is not linearizable'')))
         else (s, None, Inl (LogFatal ''history is not linearizable'')))
      else if enabled = ''always'' \<and> GetAnnotationFinalized s then
        (if \<not> opened then (s, None, Inr ())
         else case FinalizeAnnotations t1 t2 ''test passed'' s of (s', an) \<Rightarrow> (s', Some an, Inr ()))
      else (s, None, Inr ()))"

text \<open>C9: the key/value server is linearizable as its clients see it. Whatever clerk calls are made at once, however many requests and
  replies are lost and retried, the recorded history is linearizable for every key with respect to \<open>KvModel\<close> once no call is on
  its way, provided that no put was refused for an unknown key, an answer the model does not know. A checker that finds
  fault only with histories that are not linearizable therefore lets the test pass.\<close>

theorem kv_linearizable:
  assumes run: "reach_in lin_init lin_step m s" and m: "m < 2 ^ 64 - 1" and q: "quiet s"
    and nok: "\<forall>v \<in> set (history s). \<not> nokey_io (op_Input v) (op_Output v)"
    and check: "\<And>h. check h = Illegal \<Longrightarrow> \<exists>part \<in> set (kv_Partition h). \<not> linearizable part"
  shows "(\<forall>part \<in> set (kv_Partition (history s)). linearizable part)
    \<and> snd (snd (checkPorcupine check enabled opened t1 t2 (history s) a)) = Inr ()"
proof -
  note inv = lin_reach_inv [OF run m]
  have l: "\<forall>part \<in> set (kv_Partition (history s)). linearizable part"
    using history_linearizes [OF inv q] nok unfolding linearizable_def kv_Partition_eq by fastforce
  then have "check (oplog_Read (history s)) \<noteq> Illegal" using check [of "history s"] by (auto simp: oplog_Read_def)
  then show ?thesis using l by (simp add: checkPorcupine_def Let_def split: prod.splits)
qed

text \<open>Two calls at once: a put whose first reply is lost, and a get that sees its value before the put returns.\<close>

definition demo_lput :: request where
  "demo_lput = RPut \<lparr>pa_Key = ''a'', pa_Value = ''x'', pa_Version = 0\<rparr>"

definition demo_lget :: request where
  "demo_lget = RGet \<lparr>ga_Key = ''a''\<rparr>"

definition demo_lkv :: KVServer where
  "demo_lkv = put_state MakeKVServer ''a'' ''x'' 0"

definition demo_gout :: KvOutput where
  "demo_gout = \<lparr>ko_Value = ''x'', ko_Version = 1, ko_Err = ''OK''\<rparr>"

definition demo_lin :: "KVServer \<Rightarrow> call_phase \<Rightarrow> call_phase \<Rightarrow> nat list \<Rightarrow> (nat \<times> KvInput \<times> KvOutput \<times> int) list \<Rightarrow> lin_sys" where
  "demo_lin kv p g ord l = \<lparr>li_kv = kv, li_now = 5, li_calls = (\<lambda>_. Unborn)(0 := p, 1 := g), li_order = ord, li_lin = l\<rparr>"

lemma demo_lin_ops:
  "takes_effect MakeKVServer demo_lput" "fst (serve MakeKVServer demo_lput) = demo_lkv" "fst (serve demo_lkv demo_lput) = demo_lkv"
  "fst (serve demo_lkv demo_lget) = demo_lkv" "clerk_output False demo_lkv demo_lget = demo_gout" "clerk_output True demo_lkv demo_lput = maybe_output"
  by (simp_all add: demo_lput_def demo_lget_def demo_lkv_def demo_gout_def MakeKVServer_def kv_Put_def kv_Get_def put_applies_def put_answer_def
      maybe_output_def get_output_def)

lemma demo_lin_run:
  "\<exists>l v w. reach_in lin_init lin_step 7 (demo_lin demo_lkv (Returned v) (Returned w) [1, 0] l)
     \<and> op_Output v = maybe_output \<and> op_Output w = demo_gout"
proof -
  let ?put = "Calling 7 demo_lput 5" and ?get = "Calling 8 demo_lget 5 False"
  let ?l1 = "[(0, req_input demo_lput, maybe_output, 5)]" and ?ag = "Answered 8 demo_lget 5 demo_gout"
  let ?l2 = "?l1 @ [(1, req_input demo_lget, demo_gout, 5)]" and ?ap = "Answered 7 demo_lput 5 maybe_output"
  let ?w = "\<lparr>op_ClientId = 8, op_Input = req_input demo_lget, op_Call = 5, op_Output = demo_gout, op_Return = 5\<rparr>"
  let ?v = "\<lparr>op_ClientId = 7, op_Input = req_input demo_lput, op_Call = 5, op_Output = maybe_output, op_Return = 5\<rparr>"
  note d = demo_lin_def set_phase_def execute_def mark_def demo_lin_ops fun_upd_twist
  have "reach_in lin_init lin_step 0 (demo_lin MakeKVServer Unborn Unborn [] [])"
    by (rule reach_in_init) (simp add: lin_init_def demo_lin_def)
  then have "reach_in lin_init lin_step (Suc 0) (demo_lin MakeKVServer (?put False) Unborn [] [])"
    by (rule reach_in_step) (use lin_step.make_call [of "demo_lin MakeKVServer Unborn Unborn [] []" 0 7 demo_lput] in \<open>simp add: d\<close>)
  then have "reach_in lin_init lin_step (Suc (Suc 0)) (demo_lin demo_lkv (?put True) Unborn [] ?l1)"
    by (rule reach_in_step) (use lin_step.reply_lost [of "demo_lin MakeKVServer (?put False) Unborn [] []" 0 7 demo_lput 5 False] in \<open>simp add: d\<close>)
  then have "reach_in lin_init lin_step (Suc (Suc (Suc 0))) (demo_lin demo_lkv (?put True) ?get [] ?l1)"
    by (rule reach_in_step) (use lin_step.make_call [of "demo_lin demo_lkv (?put True) Unborn [] ?l1" 1 8 demo_lget] in \<open>simp add: d\<close>)
  then have "reach_in lin_init lin_step (Suc (Suc (Suc (Suc 0)))) (demo_lin demo_lkv (?put True) ?ag [] ?l2)"
    by (rule reach_in_step) (use lin_step.answer [of "demo_lin demo_lkv (?put True) ?get [] ?l1" 1 8 demo_lget 5 False demo_gout] in \<open>simp add: d\<close>)
  then have "reach_in lin_init lin_step (Suc (Suc (Suc (Suc (Suc 0))))) (demo_lin demo_lkv (?put True) (Returned ?w) [1] ?l2)"
    by (rule reach_in_step) (use lin_step.log_call [of "demo_lin demo_lkv (?put True) ?ag [] ?l2" 1 8 demo_lget 5 demo_gout] in \<open>simp add: d\<close>)
  then have "reach_in lin_init lin_step (Suc (Suc (Suc (Suc (Suc (Suc 0)))))) (demo_lin demo_lkv ?ap (Returned ?w) [1] ?l2)"
    by (rule reach_in_step) (use lin_step.answer [of "demo_lin demo_lkv (?put True) (Returned ?w) [1] ?l2" 0 7 demo_lput 5 True maybe_output] in \<open>simp add: d\<close>)
  then have "reach_in lin_init lin_step (Suc (Suc (Suc (Suc (Suc (Suc (Suc 0))))))) (demo_lin demo_lkv (Returned ?v) (Returned ?w) [1, 0] ?l2)"
    by (rule reach_in_step) (use lin_step.log_call [of "demo_lin demo_lkv ?ap (Returned ?w) [1] ?l2" 0 7 demo_lput 5 maybe_output] in \<open>simp add: d\<close>)
  then show ?thesis by (intro exI [of _ ?l2] exI [of _ ?v] exI [of _ ?w]) (simp add: numeral_eq_Suc)
qed

definition demo_check :: "Operation list \<Rightarrow> CheckResult" where
  "demo_check h = (if \<forall>part \<in> set (kv_Partition h). linearizable part then Ok else Illegal)"

theorem kv_linearizable_witness:
  "\<exists>s v w. history s = [w, v] \<and> op_Output v = maybe_output \<and> op_Output w = demo_gout \<and> (\<forall>part \<in> set (kv_Partition [w, v]). linearizable part)"
proof -
  obtain l v w where r: "reach_in lin_init lin_step 7 (demo_lin demo_lkv (Returned v) (Returned w) [1, 0] l)" "op_Output v = maybe_output" "op_Output w = demo_gout"
    using demo_lin_run by blast
  let ?s = "demo_lin demo_lkv (Returned v) (Returned w) [1, 0] l"
  have h: "history ?s = [w, v]" by (simp add: history_def returned_def demo_lin_def)
  have q: "quiet ?s" by (simp add: quiet_def demo_lin_def)
  have nok: "\<forall>x \<in> set (history ?s). \<not> nokey_io (op_Input x) (op_Output x)"
    unfolding h using r(2,3) by (auto simp: nokey_io_def maybe_output_def demo_gout_def put_output_def)
  have chk: "\<exists>part \<in> set (kv_Partition h). \<not> linearizable part" if "demo_check h = Illegal" for h
    using that by (auto simp: demo_check_def split: if_splits)
  have m: "(7 :: nat) < 2 ^ 64 - 1" by simp
  note k = kv_linearizable [where check = demo_check, OF r(1) m q nok chk]
  show ?thesis
    by (intro exI [of _ ?s] exI [of _ v] exI [of _ w] conjI) (use h r(2,3) conjunct1 [OF k] in simp_all)
qed

text \<open>A passing history is drawn only if the annotations were finalized before.\<close>

lemma passing_history_not_drawn:
  assumes "check (oplog_Read h) \<noteq> Illegal" "\<not> GetAnnotationFinalized s"
  shows "checkPorcupine check enabled opened t1 t2 h s = (s, None, Inr ())"
  using assms by (simp add: checkPorcupine_def Let_def)

end
