(* ===== verification/Tester_Group.thy ===== *)
theory Tester_Group
  imports Labrpc
begin

text \<open>
  The groups of servers a test runs, \<open>src/src/tester1/group.go\<close> and \<open>srv.go\<close>: the end-points each server has to the others,
  connecting, disconnecting and partitioning them on the simulated network, and starting and stopping servers with their
  saved state. The network is shared and passed along. The process a server runs in is represented by the persister it
  works on; random end names are arguments. \<open>makeServer\<close> always makes the list of end names, so the tests for a nil list
  do not appear.
\<close>

section \<open>Servers\<close>

record TServer =
  ts_saved :: "Persister option"
  ts_endNames :: "string list"
  ts_dc :: "Persister option"

definition ServerName :: "nat \<Rightarrow> nat \<Rightarrow> string" where
  "ServerName gid i = ''server-'' @ itoa gid @ ''-'' @ itoa i"

fun make_ends :: "nat \<Rightarrow> nat \<Rightarrow> string list \<Rightarrow> 's Network \<Rightarrow> 's Network res" where
  "make_ends gid j [] rn = Inr rn"
| "make_ends gid j (nm # nms) rn =
     rbind (MakeEnd nm rn) (\<lambda>rn1. make_ends gid (Suc j) nms (Connect nm (ServerName gid j) rn1))"

definition makeServer :: "(nat \<Rightarrow> string) \<Rightarrow> nat \<Rightarrow> nat \<Rightarrow> 's Network \<Rightarrow> (TServer \<times> 's Network) res" where
  "makeServer rnd gid nsrv rn =
     (let names = map rnd [0..<nsrv] in
      rbind (make_ends gid 0 names rn) (\<lambda>rn'. Inr (\<lparr>ts_saved = None, ts_endNames = names, ts_dc = None\<rparr>, rn')))"

definition startServer :: "(nat \<Rightarrow> string) \<Rightarrow> nat \<Rightarrow> TServer \<Rightarrow> 's Network \<Rightarrow> (TServer \<times> 's Network) res" where
  "startServer rnd gid s rn =
     rbind (makeServer rnd gid (length (ts_endNames s)) rn) (\<lambda>(srv, rn').
     Inr (srv\<lparr>ts_saved := (case ts_saved s of None \<Rightarrow> Some MakePersister | Some p \<Rightarrow> Some p)\<rparr>, rn'))"

fun srv_connect :: "bool list \<Rightarrow> TServer \<Rightarrow> nat list \<Rightarrow> 's Network \<Rightarrow> 's Network res" where
  "srv_connect cs s [] rn = Inr rn"
| "srv_connect cs s (j # to) rn =
     rbind (slice_get cs (int j)) (\<lambda>c.
       if c then rbind (slice_get (ts_endNames s) (int j)) (\<lambda>e. srv_connect cs s to (Enable e True rn))
       else srv_connect cs s to rn)"

fun srv_disconnect :: "TServer \<Rightarrow> nat list \<Rightarrow> 's Network \<Rightarrow> 's Network res" where
  "srv_disconnect s [] rn = Inr rn"
| "srv_disconnect s (j # from) rn =
     rbind (slice_get (ts_endNames s) (int j)) (\<lambda>e. srv_disconnect s from (Enable e False rn))"

text \<open>The daemon's side of the checkpoint, and what the tester makes of the reply.\<close>

definition checkpointPersister :: "Persister \<Rightarrow> Persister" where
  "checkpointPersister p = (let q = Checkpoint p in Save (ReadRaftState q) (ReadSnapshot q) MakePersister)"

definition shutdownServer :: "TServer \<Rightarrow> TServer" where
  "shutdownServer s =
     (case ts_dc s of None \<Rightarrow> s | Some p \<Rightarrow> s\<lparr>ts_saved := Some (checkpointPersister p), ts_dc := None\<rparr>)"

text \<open>The tester sends the saved state and the daemon starts from it.\<close>

definition daemon_init :: "Persister \<Rightarrow> Persister" where
  "daemon_init p = Save (ReadRaftState p) (ReadSnapshot p) MakePersister"

definition ts_size :: "(Persister \<Rightarrow> nat) \<Rightarrow> TServer \<Rightarrow> nat res" where
  "ts_size f s = (case ts_dc s of Some p \<Rightarrow> Inr (f p)
     | None \<Rightarrow> (case ts_saved s of Some p \<Rightarrow> Inr (f p) | None \<Rightarrow> Inl NilDereference))"

definition snapshotSize :: "TServer \<Rightarrow> nat res" where
  "snapshotSize s = ts_size SnapshotSize s"

definition raftSize :: "TServer \<Rightarrow> nat res" where
  "raftSize s = ts_size RaftStateSize s"

section \<open>Groups\<close>

record ServerGrp =
  sg_prog :: string
  sg_args :: "string list"
  sg_srvs :: "TServer list"
  sg_servernames :: "string list"
  sg_endName :: string
  sg_gid :: nat
  sg_connected :: "bool list"

fun make_srvs :: "(nat \<Rightarrow> nat \<Rightarrow> string) \<Rightarrow> nat \<Rightarrow> nat \<Rightarrow> nat list \<Rightarrow> 's Network \<Rightarrow> (TServer list \<times> 's Network) res" where
  "make_srvs rnd gid n [] rn = Inr ([], rn)"
| "make_srvs rnd gid n (i # is) rn =
     rbind (makeServer (rnd i) gid n rn) (\<lambda>(s, rn1).
     rbind (make_srvs rnd gid n is rn1) (\<lambda>(ss, rn2). Inr (s # ss, rn2)))"

definition makeSrvGrp ::
  "(nat \<Rightarrow> nat \<Rightarrow> string) \<Rightarrow> string \<Rightarrow> string list \<Rightarrow> string \<Rightarrow> nat \<Rightarrow> nat \<Rightarrow> 's Network \<Rightarrow> (ServerGrp \<times> 's Network) res" where
  "makeSrvGrp rnd prog args endName gid n rn =
     rbind (make_srvs rnd gid n [0..<n] rn) (\<lambda>(ss, rn').
     Inr (\<lparr>sg_prog = prog, sg_args = args, sg_srvs = ss, sg_servernames = map (ServerName gid) [0..<n],
           sg_endName = endName, sg_gid = gid, sg_connected = replicate n False\<rparr>, rn'))"

definition N :: "ServerGrp \<Rightarrow> nat" where
  "N sg = length (sg_srvs sg)"

definition SrvNames :: "ServerGrp \<Rightarrow> string list" where
  "SrvNames sg = sg_servernames sg"

definition SrvName :: "ServerGrp \<Rightarrow> nat \<Rightarrow> string res" where
  "SrvName sg i = slice_get (sg_servernames sg) (int i)"

fun SrvNamesTo :: "ServerGrp \<Rightarrow> nat list \<Rightarrow> string list res" where
  "SrvNamesTo sg [] = Inr []"
| "SrvNamesTo sg (i # to) = rbind (SrvName sg i) (\<lambda>nm. rbind (SrvNamesTo sg to) (\<lambda>ns. Inr (nm # ns)))"

definition all_srvs :: "ServerGrp \<Rightarrow> nat list" where
  "all_srvs sg = [0..<length (sg_srvs sg)]"

definition Servers :: "ServerGrp \<Rightarrow> nat list" where
  "Servers sg = all_srvs sg"

definition IsConnected :: "ServerGrp \<Rightarrow> nat \<Rightarrow> bool res" where
  "IsConnected sg i = slice_get (sg_connected sg) (int i)"

definition GetConnected :: "ServerGrp \<Rightarrow> bool list" where
  "GetConnected sg = sg_connected sg"

fun incoming_connect :: "ServerGrp \<Rightarrow> nat \<Rightarrow> nat list \<Rightarrow> 's Network \<Rightarrow> 's Network res" where
  "incoming_connect sg i [] rn = Inr rn"
| "incoming_connect sg i (j # to) rn =
     rbind (IsConnected sg j) (\<lambda>c.
       if c then rbind (slice_get (sg_srvs sg) (int j)) (\<lambda>s. rbind (slice_get (ts_endNames s) (int i)) (\<lambda>e.
         incoming_connect sg i to (Enable e True rn)))
       else incoming_connect sg i to rn)"

definition connect :: "nat \<Rightarrow> nat list \<Rightarrow> ServerGrp \<Rightarrow> 's Network \<Rightarrow> (ServerGrp \<times> 's Network) res" where
  "connect i to sg rn =
     rbind (slice_set (sg_connected sg) (int i) True) (\<lambda>cs.
     let sg1 = sg\<lparr>sg_connected := cs\<rparr> in
     rbind (slice_get (sg_srvs sg) (int i)) (\<lambda>s.
     rbind (srv_connect cs s to rn) (\<lambda>rn1.
     rbind (incoming_connect sg1 i to rn1) (\<lambda>rn2. Inr (sg1, rn2)))))"

fun incoming_disconnect :: "ServerGrp \<Rightarrow> nat \<Rightarrow> nat list \<Rightarrow> 's Network \<Rightarrow> 's Network res" where
  "incoming_disconnect sg i [] rn = Inr rn"
| "incoming_disconnect sg i (j # from) rn =
     rbind (slice_get (sg_srvs sg) (int j)) (\<lambda>s. rbind (slice_get (ts_endNames s) (int i)) (\<lambda>e.
       incoming_disconnect sg i from (Enable e False rn)))"

definition disconnect :: "nat \<Rightarrow> nat list \<Rightarrow> ServerGrp \<Rightarrow> 's Network \<Rightarrow> (ServerGrp \<times> 's Network) res" where
  "disconnect i from sg rn =
     rbind (slice_set (sg_connected sg) (int i) False) (\<lambda>cs.
     let sg1 = sg\<lparr>sg_connected := cs\<rparr> in
     rbind (slice_get (sg_srvs sg) (int i)) (\<lambda>s.
     rbind (srv_disconnect s from rn) (\<lambda>rn1.
     rbind (incoming_disconnect sg1 i from rn1) (\<lambda>rn2. Inr (sg1, rn2)))))"

definition ConnectOne :: "nat \<Rightarrow> ServerGrp \<Rightarrow> 's Network \<Rightarrow> (ServerGrp \<times> 's Network) res" where
  "ConnectOne i sg rn = connect i (all_srvs sg) sg rn"

fun connect_each :: "nat list \<Rightarrow> ServerGrp \<Rightarrow> 's Network \<Rightarrow> (ServerGrp \<times> 's Network) res" where
  "connect_each [] sg rn = Inr (sg, rn)"
| "connect_each (i # is) sg rn = rbind (ConnectOne i sg rn) (\<lambda>(sg1, rn1). connect_each is sg1 rn1)"

definition sg_ConnectAll :: "ServerGrp \<Rightarrow> 's Network \<Rightarrow> (ServerGrp \<times> 's Network) res" where
  "sg_ConnectAll sg rn = connect_each (all_srvs sg) sg rn"

definition sg_DisconnectAll :: "nat \<Rightarrow> ServerGrp \<Rightarrow> 's Network \<Rightarrow> (ServerGrp \<times> 's Network) res" where
  "sg_DisconnectAll i sg rn = disconnect i (all_srvs sg) sg rn"

fun max_size :: "(TServer \<Rightarrow> nat res) \<Rightarrow> TServer list \<Rightarrow> nat \<Rightarrow> nat res" where
  "max_size f [] m = Inr m"
| "max_size f (s # ss) m = rbind (f s) (\<lambda>n. max_size f ss (if m < n then n else m))"

definition RaftSize :: "ServerGrp \<Rightarrow> nat res" where
  "RaftSize sg = max_size raftSize (sg_srvs sg) 0"

definition sg_SnapshotSize :: "ServerGrp \<Rightarrow> nat res" where
  "sg_SnapshotSize sg = max_size snapshotSize (sg_srvs sg) 0"

text \<open>What a start needs from outside: the random end names, where the new network server is allocated, the function that
  forwards to the daemon, and whether the daemon could be started.\<close>

record 's launch =
  la_rnd :: "nat \<Rightarrow> string"
  la_addr :: nat
  la_state :: 's
  la_forward :: "string \<Rightarrow> bytes \<Rightarrow> bytes \<times> bool"
  la_started :: bool

definition StartServer :: "'s launch \<Rightarrow> nat \<Rightarrow> ServerGrp \<Rightarrow> 's Network \<Rightarrow> (ServerGrp \<times> 's Network \<times> bool) res" where
  "StartServer la i sg rn =
     rbind (slice_get (sg_srvs sg) (int i)) (\<lambda>s.
     rbind (startServer (la_rnd la) (sg_gid sg) s rn) (\<lambda>(srv, rn1).
     if \<not> la_started la then Inr (sg\<lparr>sg_srvs := (sg_srvs sg)[i := srv]\<rparr>, rn1, False)
     else
       let srv1 = srv\<lparr>ts_dc := map_option daemon_init (ts_saved srv)\<rparr>;
           rn2 = rn1\<lparr>nt_heap := (nt_heap rn1)(la_addr la := SetDispatch (la_forward la) (MakeServer (la_state la)))\<rparr> in
       Inr (sg\<lparr>sg_srvs := (sg_srvs sg)[i := srv1]\<rparr>, AddServer (ServerName (sg_gid sg) i) (la_addr la) rn2, True)))"

fun StartSrvs :: "(nat \<Rightarrow> 's launch) \<Rightarrow> nat list \<Rightarrow> ServerGrp \<Rightarrow> 's Network \<Rightarrow> (ServerGrp \<times> 's Network) res" where
  "StartSrvs la [] sg rn = Inr (sg, rn)"
| "StartSrvs la (i # is) sg rn = rbind (StartServer (la i) i sg rn) (\<lambda>(sg1, rn1, _). StartSrvs la is sg1 rn1)"

definition StartServers :: "(nat \<Rightarrow> 's launch) \<Rightarrow> ServerGrp \<Rightarrow> 's Network \<Rightarrow> (ServerGrp \<times> 's Network) res" where
  "StartServers la sg rn = rbind (StartSrvs la (all_srvs sg) sg rn) (\<lambda>(sg1, rn1). sg_ConnectAll sg1 rn1)"

definition ShutdownServer :: "nat \<Rightarrow> ServerGrp \<Rightarrow> 's Network \<Rightarrow> (ServerGrp \<times> 's Network) res" where
  "ShutdownServer i sg rn =
     rbind (disconnect i (all_srvs sg) sg rn) (\<lambda>(sg1, rn1).
     rbind (slice_get (sg_srvs sg1) (int i)) (\<lambda>s.
     Inr (sg1\<lparr>sg_srvs := (sg_srvs sg1)[i := shutdownServer s]\<rparr>, DeleteServer (ServerName (sg_gid sg1) i) rn1)))"

fun Kill :: "nat list \<Rightarrow> ServerGrp \<Rightarrow> 's Network \<Rightarrow> (ServerGrp \<times> 's Network) res" where
  "Kill [] sg rn = Inr (sg, rn)"
| "Kill (i # is) sg rn = rbind (ShutdownServer i sg rn) (\<lambda>(sg1, rn1). Kill is sg1 rn1)"

definition Shutdown :: "ServerGrp \<Rightarrow> 's Network \<Rightarrow> (ServerGrp \<times> 's Network) res" where
  "Shutdown sg rn = Kill (all_srvs sg) sg rn"

fun split_loop :: "nat \<Rightarrow> nat list \<Rightarrow> nat \<Rightarrow> nat list \<Rightarrow> nat list \<Rightarrow> (nat list \<times> nat list) res" where
  "split_loop l [] j p1 p2 = Inr (p1, p2)"
| "split_loop l (i # is) j p1 p2 =
     (if i \<noteq> l then
        (if j < length p1 then rbind (slice_set p1 (int j) i) (\<lambda>p1'. split_loop l is (Suc j) p1' p2)
         else rbind (slice_set p2 (int j - int (length p1)) i) (\<lambda>p2'. split_loop l is (Suc j) p1 p2'))
      else split_loop l is j p1 p2)"

definition MakePartition :: "nat \<Rightarrow> ServerGrp \<Rightarrow> (nat list \<times> nat list) res" where
  "MakePartition l sg =
     (let n = length (sg_srvs sg) in
      rbind (split_loop l [0..<n] 0 (replicate (n div 2 + 1) 0) (replicate (n div 2) 0)) (\<lambda>(p1, p2).
      rbind (slice_set p2 (int (length p2) - 1) l) (\<lambda>p2'. Inr (p1, p2'))))"

fun partition_side :: "nat list \<Rightarrow> nat list \<Rightarrow> nat list \<Rightarrow> ServerGrp \<Rightarrow> 's Network \<Rightarrow> (ServerGrp \<times> 's Network) res" where
  "partition_side [] mine other sg rn = Inr (sg, rn)"
| "partition_side (i # is) mine other sg rn =
     rbind (disconnect i other sg rn) (\<lambda>(sg1, rn1).
     rbind (connect i mine sg1 rn1) (\<lambda>(sg2, rn2). partition_side is mine other sg2 rn2))"

definition Partition :: "nat list \<Rightarrow> nat list \<Rightarrow> ServerGrp \<Rightarrow> 's Network \<Rightarrow> (ServerGrp \<times> 's Network) res" where
  "Partition p1 p2 sg rn =
     rbind (partition_side p1 p1 p2 sg rn) (\<lambda>(sg1, rn1). partition_side p2 p2 p1 sg1 rn1)"

definition RpcCount :: "nat \<Rightarrow> ServerGrp \<Rightarrow> 's Network \<Rightarrow> int res" where
  "RpcCount server sg rn = GetCount (ServerName (sg_gid sg) server) rn"

section \<open>All groups of a test\<close>

record Groups =
  gs_prog :: string
  gs_args :: "string list"
  gs_endName :: string
  gs_grps :: "(nat \<times> ServerGrp) list"

definition newGroups :: "string \<Rightarrow> string list \<Rightarrow> string \<Rightarrow> Groups" where
  "newGroups prog args endName = \<lparr>gs_prog = prog, gs_args = args, gs_endName = endName, gs_grps = []\<rparr>"

definition put_group :: "nat \<Rightarrow> ServerGrp \<Rightarrow> Groups \<Rightarrow> Groups" where
  "put_group gid sg gs = gs\<lparr>gs_grps := (gid, sg) # filter (\<lambda>(g, _). g \<noteq> gid) (gs_grps gs)\<rparr>"

definition MakeGroup ::
  "(nat \<Rightarrow> nat \<Rightarrow> string) \<Rightarrow> string \<Rightarrow> string list \<Rightarrow> nat \<Rightarrow> nat \<Rightarrow> Groups \<Rightarrow> 's Network \<Rightarrow> (Groups \<times> 's Network) res" where
  "MakeGroup rnd prog args gid nsrv gs rn =
     rbind (makeSrvGrp rnd prog args (gs_endName gs) gid nsrv rn) (\<lambda>(sg, rn'). Inr (put_group gid sg gs, rn'))"

definition lookupGroup :: "nat \<Rightarrow> Groups \<Rightarrow> ServerGrp option" where
  "lookupGroup gid gs = map_of (gs_grps gs) gid"

definition delete_group :: "nat \<Rightarrow> Groups \<Rightarrow> Groups" where
  "delete_group gid gs = gs\<lparr>gs_grps := filter (\<lambda>(g, _). g \<noteq> gid) (gs_grps gs)\<rparr>"

fun shutdown_groups :: "(nat \<times> ServerGrp) list \<Rightarrow> 's Network \<Rightarrow> ((nat \<times> ServerGrp) list \<times> 's Network) res" where
  "shutdown_groups [] rn = Inr ([], rn)"
| "shutdown_groups ((gid, sg) # gs) rn =
     rbind (Shutdown sg rn) (\<lambda>(sg', rn1). rbind (shutdown_groups gs rn1) (\<lambda>(gs', rn2). Inr ((gid, sg') # gs', rn2)))"

definition groups_cleanup :: "Groups \<Rightarrow> 's Network \<Rightarrow> (Groups \<times> 's Network) res" where
  "groups_cleanup gs rn = rbind (shutdown_groups (gs_grps gs) rn) (\<lambda>(g, rn'). Inr (gs\<lparr>gs_grps := g\<rparr>, rn'))"

end
