(* ===== verification/Tester_Links.thy ===== *)
theory Tester_Links
  imports Tester_Group
begin

text \<open>
  What the operations of \<open>group.go\<close> do to the links between the servers of a group: connecting, disconnecting, the two
  sides of a partition, and stopping and restarting a server.
\<close>

section \<open>Links\<close>

text \<open>A group is well formed when every server has one end-point for every server and no name is used twice.\<close>

definition sg_wf :: "nat \<Rightarrow> ServerGrp \<Rightarrow> bool" where
  "sg_wf n sg \<longleftrightarrow> length (sg_srvs sg) = n \<and> length (sg_connected sg) = n
     \<and> (\<forall>i < n. length (ts_endNames (sg_srvs sg ! i)) = n)
     \<and> (\<forall>i < n. \<forall>j < n. \<forall>i' < n. \<forall>j' < n.
          ts_endNames (sg_srvs sg ! i) ! j = ts_endNames (sg_srvs sg ! i') ! j' \<longrightarrow> i = i' \<and> j = j')"

definition link :: "ServerGrp \<Rightarrow> 's Network \<Rightarrow> nat \<Rightarrow> nat \<Rightarrow> bool" where
  "link sg rn a b = nt_enabled rn (ts_endNames (sg_srvs sg ! a) ! b)"

definition set_enabled :: "string set \<Rightarrow> bool \<Rightarrow> 's Network \<Rightarrow> 's Network" where
  "set_enabled E v rn = rn\<lparr>nt_enabled := (\<lambda>e. if e \<in> E then v else nt_enabled rn e)\<rparr>"

lemma set_enabled_simps [simp]:
  "nt_enabled (set_enabled E v rn) e = (if e \<in> E then v else nt_enabled rn e)"
  "nt_servers (set_enabled E v rn) = nt_servers rn" "nt_connections (set_enabled E v rn) = nt_connections rn"
  "nt_ends (set_enabled E v rn) = nt_ends rn" "set_enabled {} v rn = rn"
  by (simp_all add: set_enabled_def)

lemma set_enabled_Enable: "set_enabled E v (Enable e v rn) = set_enabled (insert e E) v rn"
  by (auto simp: set_enabled_def Enable_def fun_eq_iff)

lemma set_enabled_twice: "set_enabled E v (set_enabled F v rn) = set_enabled (F \<union> E) v rn"
  by (auto simp: set_enabled_def fun_eq_iff)

lemma srv_connect_eq:
  assumes "\<forall>j \<in> set to. j < length cs \<and> j < length (ts_endNames s)"
  shows "srv_connect cs s to rn = Inr (set_enabled {ts_endNames s ! j |j. j \<in> set to \<and> cs ! j} True rn)"
  using assms
proof (induction to arbitrary: rn)
  case (Cons j to)
  have "insert (ts_endNames s ! j) {ts_endNames s ! k |k. k \<in> set to \<and> cs ! k} = {ts_endNames s ! k |k. k \<in> set (j # to) \<and> cs ! k}"
    if "cs ! j" using that by auto
  moreover have "{ts_endNames s ! k |k. k \<in> set to \<and> cs ! k} = {ts_endNames s ! k |k. k \<in> set (j # to) \<and> cs ! k}"
    if "\<not> cs ! j" using that by auto
  ultimately show ?case using Cons by (simp add: slice_get_def set_enabled_Enable)
qed simp

lemma srv_disconnect_eq:
  assumes "\<forall>j \<in> set from. j < length (ts_endNames s)"
  shows "srv_disconnect s from rn = Inr (set_enabled ((!) (ts_endNames s) ` set from) False rn)"
  using assms by (induction "from" arbitrary: rn) (simp_all add: slice_get_def set_enabled_Enable)

lemma incoming_connect_eq:
  assumes "\<forall>j \<in> set to. j < length (sg_connected sg) \<and> j < length (sg_srvs sg) \<and> i < length (ts_endNames (sg_srvs sg ! j))"
  shows "incoming_connect sg i to rn
    = Inr (set_enabled {ts_endNames (sg_srvs sg ! j) ! i |j. j \<in> set to \<and> sg_connected sg ! j} True rn)"
  using assms
proof (induction to arbitrary: rn)
  case (Cons j to)
  let ?e = "\<lambda>k. ts_endNames (sg_srvs sg ! k) ! i"
  have "insert (?e j) {?e k |k. k \<in> set to \<and> sg_connected sg ! k} = {?e k |k. k \<in> set (j # to) \<and> sg_connected sg ! k}"
    if "sg_connected sg ! j" using that by auto
  moreover have "{?e k |k. k \<in> set to \<and> sg_connected sg ! k} = {?e k |k. k \<in> set (j # to) \<and> sg_connected sg ! k}"
    if "\<not> sg_connected sg ! j" using that by auto
  ultimately show ?case using Cons by (simp add: slice_get_def IsConnected_def set_enabled_Enable)
qed simp

lemma incoming_disconnect_eq:
  assumes "\<forall>j \<in> set from. j < length (sg_srvs sg) \<and> i < length (ts_endNames (sg_srvs sg ! j))"
  shows "incoming_disconnect sg i from rn = Inr (set_enabled ((\<lambda>j. ts_endNames (sg_srvs sg ! j) ! i) ` set from) False rn)"
  using assms by (induction "from" arbitrary: rn) (simp_all add: slice_get_def set_enabled_Enable)

text \<open>Only the flags of the end-points differ.\<close>

definition same_wiring :: "'s Network \<Rightarrow> 's Network \<Rightarrow> bool" where
  "same_wiring rn rn' \<longleftrightarrow> nt_servers rn' = nt_servers rn \<and> nt_connections rn' = nt_connections rn \<and> nt_ends rn' = nt_ends rn"

lemma same_wiring_refl [simp]: "same_wiring rn rn" by (simp add: same_wiring_def)

lemma same_wiring_trans [trans]: "same_wiring a b \<Longrightarrow> same_wiring b c \<Longrightarrow> same_wiring a c"
  by (simp add: same_wiring_def)

lemma same_wiring_set [simp]: "same_wiring rn (set_enabled E v rn)" by (simp add: same_wiring_def)

lemma sg_wf_name: "sg_wf n sg \<Longrightarrow> i < n \<Longrightarrow> j < n \<Longrightarrow> i' < n \<Longrightarrow> j' < n \<Longrightarrow>
    ts_endNames (sg_srvs sg ! i) ! j = ts_endNames (sg_srvs sg ! i') ! j' \<longleftrightarrow> i = i' \<and> j = j'"
  unfolding sg_wf_def by blast

lemma sg_wf_connected [simp]: "sg_wf n sg \<Longrightarrow> length cs = n \<Longrightarrow> sg_wf n (sg\<lparr>sg_connected := cs\<rparr>)"
  by (simp add: sg_wf_def)

lemma connect_links:
  assumes wf: "sg_wf n sg" and i: "i < n" and to: "set to \<subseteq> {..<n}"
  shows "\<exists>rn'. connect i to sg rn = Inr (sg\<lparr>sg_connected := (sg_connected sg)[i := True]\<rparr>, rn') \<and> same_wiring rn rn'
    \<and> (\<forall>a < n. \<forall>b < n. link sg rn' a b \<longleftrightarrow> (a = i \<and> b \<in> set to \<and> (sg_connected sg)[i := True] ! b)
          \<or> (b = i \<and> a \<in> set to \<and> (sg_connected sg)[i := True] ! a) \<or> link sg rn a b)"
proof -
  let ?cs = "(sg_connected sg)[i := True]" and ?e = "\<lambda>a b. ts_endNames (sg_srvs sg ! a) ! b"
  let ?E = "{?e i j |j. j \<in> set to \<and> ?cs ! j} \<union> {?e j i |j. j \<in> set to \<and> ?cs ! j}"
  have len: "length (sg_srvs sg) = n" "length (sg_connected sg) = n" "\<And>j. j < n \<Longrightarrow> length (ts_endNames (sg_srvs sg ! j)) = n"
    using wf by (auto simp: sg_wf_def)
  have lt: "\<And>j. j \<in> set to \<Longrightarrow> j < n" using to by auto
  have "connect i to sg rn = Inr (sg\<lparr>sg_connected := ?cs\<rparr>, set_enabled ?E True rn)"
    using i len lt by (simp add: connect_def slice_set_def slice_get_def srv_connect_eq incoming_connect_eq set_enabled_twice)
  moreover have "link sg (set_enabled ?E True rn) a b \<longleftrightarrow> (a = i \<and> b \<in> set to \<and> ?cs ! b) \<or> (b = i \<and> a \<in> set to \<and> ?cs ! a) \<or> link sg rn a b"
    if "a < n" "b < n" for a b
    using sg_wf_name [OF wf that] i lt by (auto simp: link_def)
  ultimately show ?thesis by auto
qed

lemma disconnect_links:
  assumes wf: "sg_wf n sg" and i: "i < n" and fr: "set from \<subseteq> {..<n}"
  shows "\<exists>rn'. disconnect i from sg rn = Inr (sg\<lparr>sg_connected := (sg_connected sg)[i := False]\<rparr>, rn') \<and> same_wiring rn rn'
    \<and> (\<forall>a < n. \<forall>b < n. link sg rn' a b \<longleftrightarrow> link sg rn a b \<and> \<not> (a = i \<and> b \<in> set from) \<and> \<not> (b = i \<and> a \<in> set from))"
proof -
  let ?cs = "(sg_connected sg)[i := False]" and ?e = "\<lambda>a b. ts_endNames (sg_srvs sg ! a) ! b"
  let ?E = "?e i ` set from \<union> (\<lambda>j. ?e j i) ` set from"
  have len: "length (sg_srvs sg) = n" "length (sg_connected sg) = n" "\<And>j. j < n \<Longrightarrow> length (ts_endNames (sg_srvs sg ! j)) = n"
    using wf by (auto simp: sg_wf_def)
  have lt: "\<And>j. j \<in> set from \<Longrightarrow> j < n" using fr by auto
  have "disconnect i from sg rn = Inr (sg\<lparr>sg_connected := ?cs\<rparr>, set_enabled ?E False rn)"
    using i len lt by (simp add: disconnect_def slice_set_def slice_get_def srv_disconnect_eq incoming_disconnect_eq set_enabled_twice)
  moreover have "link sg (set_enabled ?E False rn) a b \<longleftrightarrow> link sg rn a b \<and> \<not> (a = i \<and> b \<in> set from) \<and> \<not> (b = i \<and> a \<in> set from)"
    if "a < n" "b < n" for a b
    using sg_wf_name [OF wf that] i lt by (auto simp: link_def image_iff)
  ultimately show ?thesis by auto
qed

section \<open>Partitions\<close>

text \<open>The state of one side while the loop goes over it: the members \<open>D\<close> already treated are linked to each other and
  cut off from the other side.\<close>

definition side_done :: "nat set \<Rightarrow> nat set \<Rightarrow> ServerGrp \<Rightarrow> 's Network \<Rightarrow> bool" where
  "side_done D other sg rn \<longleftrightarrow> (\<forall>a \<in> D. sg_connected sg ! a) \<and> (\<forall>a \<in> D. \<forall>b \<in> D. link sg rn a b)
     \<and> (\<forall>a \<in> D. \<forall>b \<in> other. \<not> link sg rn a b \<and> \<not> link sg rn b a)"

text \<open>Nothing outside a side has changed.\<close>

definition outside_same :: "nat \<Rightarrow> nat set \<Rightarrow> ServerGrp \<Rightarrow> 's Network \<Rightarrow> ServerGrp \<Rightarrow> 's Network \<Rightarrow> bool" where
  "outside_same n mine sg rn sg' rn' \<longleftrightarrow> (\<exists>cs. sg' = sg\<lparr>sg_connected := cs\<rparr> \<and> length cs = n) \<and> same_wiring rn rn'
     \<and> (\<forall>a < n. a \<notin> mine \<longrightarrow> sg_connected sg' ! a = sg_connected sg ! a)
     \<and> (\<forall>a < n. \<forall>b < n. a \<notin> mine \<and> b \<notin> mine \<longrightarrow> link sg rn' a b = link sg rn a b)"

lemma link_connected [simp]: "link (sg\<lparr>sg_connected := cs\<rparr>) rn = link sg rn"
  by (simp add: link_def fun_eq_iff)

lemma outside_same_trans:
  assumes "outside_same n S sg rn sg1 rn1" "outside_same n S sg1 rn1 sg2 rn2"
  shows "outside_same n S sg rn sg2 rn2"
  using assms unfolding outside_same_def by (auto intro: same_wiring_trans)

lemma partition_step:
  assumes wf: "sg_wf n sg" and i: "i < n" "i \<in> set mine" and sub: "set mine \<subseteq> {..<n}" "set other \<subseteq> {..<n}"
    and dis: "set mine \<inter> set other = {}" and D: "D \<subseteq> set mine" "side_done D (set other) sg rn"
  shows "\<exists>sg1 rn1 sg2 rn2. disconnect i other sg rn = Inr (sg1, rn1) \<and> connect i mine sg1 rn1 = Inr (sg2, rn2)
    \<and> sg_wf n sg2 \<and> side_done (insert i D) (set other) sg2 rn2 \<and> outside_same n (set mine) sg rn sg2 rn2"
proof -
  let ?c1 = "(sg_connected sg)[i := False]" and ?c2 = "(sg_connected sg)[i := True]"
  have len: "length (sg_connected sg) = n" using wf by (simp add: sg_wf_def)
  obtain rn1 where d: "disconnect i other sg rn = Inr (sg\<lparr>sg_connected := ?c1\<rparr>, rn1)" "same_wiring rn rn1"
    "\<forall>a < n. \<forall>b < n. link sg rn1 a b \<longleftrightarrow> link sg rn a b \<and> \<not> (a = i \<and> b \<in> set other) \<and> \<not> (b = i \<and> a \<in> set other)"
    using disconnect_links [OF wf i(1) sub(2)] by blast
  have wf1: "sg_wf n (sg\<lparr>sg_connected := ?c1\<rparr>)" using wf len by simp
  obtain rn2 where c: "connect i mine (sg\<lparr>sg_connected := ?c1\<rparr>) rn1 = Inr (sg\<lparr>sg_connected := ?c2\<rparr>, rn2)" "same_wiring rn1 rn2"
    "\<forall>a < n. \<forall>b < n. link sg rn2 a b \<longleftrightarrow> (a = i \<and> b \<in> set mine \<and> ?c2 ! b) \<or> (b = i \<and> a \<in> set mine \<and> ?c2 ! a) \<or> link sg rn1 a b"
    using connect_links [OF wf1 i(1) sub(1), of rn1] by auto
  have sd: "\<And>a. a \<in> D \<Longrightarrow> sg_connected sg ! a" "\<And>a b. a \<in> D \<Longrightarrow> b \<in> D \<Longrightarrow> link sg rn a b"
    "\<And>a b. a \<in> D \<Longrightarrow> b \<in> set other \<Longrightarrow> \<not> link sg rn a b \<and> \<not> link sg rn b a"
    using D(2) by (auto simp: side_done_def)
  have on: "?c2 ! a" if "a \<in> insert i D" for a using that sd(1) i len by (cases "a = i") auto
  have lt: "a < n" if "a \<in> set mine \<or> a \<in> set other" for a using that sub by auto
  have "side_done (insert i D) (set other) (sg\<lparr>sg_connected := ?c2\<rparr>) rn2"
  proof -
    have "link sg rn2 a b" if "a \<in> insert i D" "b \<in> insert i D" for a b
      using c(3) d(3) sd(2) on that D(1) i dis lt by (metis disjoint_iff insert_iff subsetD)
    moreover have "\<not> link sg rn2 a b \<and> \<not> link sg rn2 b a" if "a \<in> insert i D" "b \<in> set other" for a b
      using c(3) d(3) sd(3) that D(1) i dis lt by (metis disjoint_iff insert_iff subsetD)
    ultimately show ?thesis using on by (simp add: side_done_def)
  qed
  moreover have "outside_same n (set mine) sg rn (sg\<lparr>sg_connected := ?c2\<rparr>) rn2"
  proof -
    have "link sg rn2 a b = link sg rn a b" if "a < n" "b < n" "a \<notin> set mine" "b \<notin> set mine" for a b
      using c(3) d(3) that i(2) by metis
    moreover have "?c2 ! a = sg_connected sg ! a" if "a \<notin> set mine" for a using that i by (cases "a = i") auto
    ultimately show ?thesis using same_wiring_trans [OF d(2) c(2)] len by (auto simp: outside_same_def)
  qed
  ultimately show ?thesis using d(1) c(1) wf len sg_wf_connected by fastforce
qed

lemma partition_side_links:
  assumes sub: "set mine \<subseteq> {..<n}" "set other \<subseteq> {..<n}" and dis: "set mine \<inter> set other = {}"
  shows "sg_wf n sg \<Longrightarrow> set todo \<subseteq> set mine \<Longrightarrow> D \<subseteq> set mine \<Longrightarrow> side_done D (set other) sg rn \<Longrightarrow>
    \<exists>sg' rn'. partition_side todo mine other sg rn = Inr (sg', rn') \<and> sg_wf n sg' \<and> side_done (D \<union> set todo) (set other) sg' rn'
      \<and> outside_same n (set mine) sg rn sg' rn'"
proof (induction todo arbitrary: sg rn D)
  case Nil
  then have "outside_same n (set mine) sg rn sg rn" by (auto simp: outside_same_def sg_wf_def intro!: exI [of _ "sg_connected sg"])
  then show ?case using Nil by auto
next
  case (Cons i rest)
  have i: "i < n" "i \<in> set mine" using Cons.prems(2) sub by auto
  obtain sg1 rn1 sg2 rn2 where s: "disconnect i other sg rn = Inr (sg1, rn1)" "connect i mine sg1 rn1 = Inr (sg2, rn2)"
    "sg_wf n sg2" "side_done (insert i D) (set other) sg2 rn2" "outside_same n (set mine) sg rn sg2 rn2"
    using partition_step [OF Cons.prems(1) i sub dis Cons.prems(3,4)] by blast
  obtain sg' rn' where t: "partition_side rest mine other sg2 rn2 = Inr (sg', rn')" "sg_wf n sg'"
    "side_done (insert i D \<union> set rest) (set other) sg' rn'" "outside_same n (set mine) sg2 rn2 sg' rn'"
    using Cons.IH [OF s(3) _ _ s(4)] Cons.prems i by auto
  have "outside_same n (set mine) sg rn sg' rn'" using s(5) t(4) by (rule outside_same_trans)
  then show ?case using s(1,2) t by auto
qed

lemma Partition_links:
  assumes wf: "sg_wf n sg" and dis: "set p1 \<inter> set p2 = {}" and all: "set p1 \<union> set p2 = {..<n}"
  shows "\<exists>sg' rn'. Partition p1 p2 sg rn = Inr (sg', rn') \<and> sg_wf n sg' \<and> sg_connected sg' = replicate n True
    \<and> sg_srvs sg' = sg_srvs sg \<and> same_wiring rn rn'
    \<and> (\<forall>a < n. \<forall>b < n. link sg' rn' a b \<longleftrightarrow> (a \<in> set p1 \<longleftrightarrow> b \<in> set p1))"
proof -
  have sub: "set p1 \<subseteq> {..<n}" "set p2 \<subseteq> {..<n}" using all by auto
  have dis': "set p2 \<inter> set p1 = {}" using dis by auto
  have nil: "side_done {} S sg' rn'" for S sg' and rn' :: "'a Network" by (simp add: side_done_def)
  obtain sg1 rn1 where s1: "partition_side p1 p1 p2 sg rn = Inr (sg1, rn1)" "sg_wf n sg1"
    "side_done (set p1) (set p2) sg1 rn1" "outside_same n (set p1) sg rn sg1 rn1"
    using partition_side_links [where rn = rn and todo = p1, OF sub dis wf _ _ nil] by auto
  obtain sg2 rn2 where s2: "partition_side p2 p2 p1 sg1 rn1 = Inr (sg2, rn2)" "sg_wf n sg2"
    "side_done (set p2) (set p1) sg2 rn2" "outside_same n (set p2) sg1 rn1 sg2 rn2"
    using partition_side_links [where rn = rn1 and todo = p2, OF sub(2,1) dis' s1(2) _ _ nil] by auto
  from s1(4) s2(4) obtain c1 c2 where g: "sg1 = sg\<lparr>sg_connected := c1\<rparr>" "sg2 = sg\<lparr>sg_connected := c2\<rparr>"
    by (auto simp: outside_same_def)
  have in1: "a < n \<and> a \<notin> set p2" if "a \<in> set p1" for a using that sub dis by auto
  have keep: "sg_connected sg2 ! a = sg_connected sg1 ! a" "b \<in> set p1 \<Longrightarrow> link sg rn2 a b = link sg rn1 a b" if "a \<in> set p1" for a b
    using s2(4) in1 [OF that] in1 [of b] by (simp_all add: outside_same_def g)
  have l1: "link sg rn2 a b" if "a \<in> set p1" "b \<in> set p1" for a b
    using keep(2) [OF that] s1(3) that by (auto simp: side_done_def g)
  have l2: "link sg rn2 a b" if "a \<in> set p2" "b \<in> set p2" for a b using s2(3) that by (auto simp: side_done_def g)
  have x: "\<not> link sg rn2 a b \<and> \<not> link sg rn2 b a" if "a \<in> set p2" "b \<in> set p1" for a b
    using s2(3) that by (auto simp: side_done_def g)
  have side: "a \<in> set p2 \<longleftrightarrow> a \<notin> set p1" if "a < n" for a using that all dis by auto
  have "link sg2 rn2 a b \<longleftrightarrow> (a \<in> set p1 \<longleftrightarrow> b \<in> set p1)" if "a < n" "b < n" for a b
    using l1 [of a b] l2 [of a b] x [of a b] x [of b a] side that by (auto simp: g)
  moreover have "sg_connected sg2 = replicate n True"
  proof (rule nth_equalityI)
    show "length (sg_connected sg2) = length (replicate n True)" using s2(2) by (simp add: sg_wf_def)
    fix a assume "a < length (sg_connected sg2)"
    then have a: "a < n" using s2(2) by (simp add: sg_wf_def)
    then show "sg_connected sg2 ! a = replicate n True ! a"
      using side [OF a] keep(1) [of a] s1(3) s2(3) by (cases "a \<in> set p1") (auto simp: side_done_def)
  qed
  moreover have "same_wiring rn rn2" using s1(4) s2(4) by (auto simp: outside_same_def intro: same_wiring_trans)
  ultimately show ?thesis using s1(1) s2(1,2) g by (simp add: Partition_def)
qed

section \<open>Choosing a partition\<close>

lemma split_loop_fills:
  fixes p1 p2 :: "nat list"
  shows "j + length (filter (\<lambda>i. i \<noteq> l) xs) \<le> length p1 + length p2 \<Longrightarrow>
   \<exists>q1 q2. split_loop l xs j p1 p2 = Inr (q1, q2) \<and> length q1 = length p1 \<and> length q2 = length p2
     \<and> q1 @ q2 = take j (p1 @ p2) @ filter (\<lambda>i. i \<noteq> l) xs @ drop (j + length (filter (\<lambda>i. i \<noteq> l) xs)) (p1 @ p2)"
proof (induction xs arbitrary: j p1 p2)
  case (Cons i xs)
  show ?case
  proof (cases "i = l")
    case True
    then show ?thesis using Cons by simp
  next
    case False
    have upd: "take (Suc j) ((p1 @ p2)[j := i]) = take j (p1 @ p2) @ [i]" "drop (Suc j + k) ((p1 @ p2)[j := i]) = drop (Suc j + k) (p1 @ p2)" for k
      using Cons.prems False by (simp_all add: take_Suc_conv_app_nth)
    show ?thesis
    proof (cases "j < length p1")
      case True
      then have e: "p1[j := i] @ p2 = (p1 @ p2)[j := i]" by (simp add: list_update_append)
      obtain q1 q2 where q: "split_loop l xs (Suc j) (p1[j := i]) p2 = Inr (q1, q2)" "length q1 = length p1" "length q2 = length p2"
        "q1 @ q2 = take (Suc j) ((p1 @ p2)[j := i]) @ filter (\<lambda>i. i \<noteq> l) xs @ drop (Suc j + length (filter (\<lambda>i. i \<noteq> l) xs)) ((p1 @ p2)[j := i])"
        using Cons.IH [of "Suc j" "p1[j := i]" p2] Cons.prems False unfolding e by auto
      show ?thesis using q True False unfolding upd by (simp add: slice_set_def)
    next
      case later: False
      then have e: "p1 @ p2[j - length p1 := i] = (p1 @ p2)[j := i]" by (simp add: list_update_append)
      have k: "nat (int j - int (length p1)) = j - length p1" "idx_ok p2 (int j - int (length p1))"
        using later Cons.prems False by (auto simp: idx_ok_def)
      obtain q1 q2 where q: "split_loop l xs (Suc j) p1 (p2[j - length p1 := i]) = Inr (q1, q2)" "length q1 = length p1" "length q2 = length p2"
        "q1 @ q2 = take (Suc j) ((p1 @ p2)[j := i]) @ filter (\<lambda>i. i \<noteq> l) xs @ drop (Suc j + length (filter (\<lambda>i. i \<noteq> l) xs)) ((p1 @ p2)[j := i])"
        using Cons.IH [of "Suc j" p1 "p2[j - length p1 := i]"] Cons.prems False unfolding e by auto
      show ?thesis using q later False k unfolding upd by (simp add: slice_set_def)
    qed
  qed
next
  case Nil
  then show ?case by (metis add_0_right append_Nil append_take_drop_id filter.simps(1) list.size(3) split_loop.simps(1))
qed

text \<open>The servers other than the leader, and how many places the two lists have left over.\<close>

lemma length_others: "l < n \<Longrightarrow> length (filter (\<lambda>i. i \<noteq> l) [0..<n]) = n - 1"
proof (induction n)
  case (Suc n)
  then show ?case by (cases "l = n") (auto simp: less_Suc_eq)
qed simp

lemma mset_others: "l < n \<Longrightarrow> add_mset l (mset (filter (\<lambda>i. i \<noteq> l) [0..<n])) = mset [0..<n]"
proof (induction n)
  case (Suc n)
  show ?case
  proof (cases "l = n")
    case True
    then have "filter (\<lambda>i. i \<noteq> l) [0..<n] = [0..<n]" by (simp add: filter_id_conv)
    then show ?thesis using True by simp
  qed (use Suc in \<open>simp add: less_Suc_eq\<close>)
qed simp

lemma MakePartition_lists:
  assumes n: "length (sg_srvs sg) = n" "2 \<le> n" and l: "l < n" and k: "n div 2 = k" and r: "k + k + 2 - n = r"
  defines "ys \<equiv> filter (\<lambda>i. i \<noteq> l) [0..<n] @ replicate r 0"
  shows "MakePartition l sg = Inr (take (k + 1) ys, (drop (k + 1) ys)[k - 1 := l])"
proof -
  let ?p1 = "replicate (k + 1) (0::nat)" and ?p2 = "replicate k (0::nat)"
  have all: "?p1 @ ?p2 = replicate (k + k + 1) 0" by (simp add: replicate_add [symmetric])
  have len: "length (filter (\<lambda>i. i \<noteq> l) [0..<n]) = n - 1" using l by (rule length_others)
  have "n - 1 \<le> length ?p1 + length ?p2" using k by auto
  then obtain q1 q2 where q: "split_loop l [0..<n] 0 ?p1 ?p2 = Inr (q1, q2)" "length q1 = k + 1" "length q2 = k"
    "q1 @ q2 = filter (\<lambda>i. i \<noteq> l) [0..<n] @ drop (n - 1) (?p1 @ ?p2)"
    using split_loop_fills [of 0 l "[0..<n]" ?p1 ?p2] len by auto
  have e: "k + k + 1 - (n - 1) = r" using n(2) r by simp
  have ys: "ys = q1 @ q2" using q(4) by (simp only: all ys_def drop_replicate e)
  have "take (k + 1) ys = q1" "drop (k + 1) ys = q2" unfolding ys using q(2) by auto
  moreover have "nat (int k - 1) = k - 1" "idx_ok q2 (int k - 1)" using n(2) k q(3) by (auto simp: idx_ok_def)
  ultimately show ?thesis using q n(1) k by (simp add: MakePartition_def slice_set_def)
qed

section \<open>Making a group\<close>

text \<open>The state of the network after a list of fresh ends was made.\<close>

definition fresh_ends :: "string list \<Rightarrow> 's Network \<Rightarrow> 's Network \<Rightarrow> bool" where
  "fresh_ends names rn rn' \<longleftrightarrow> nt_ends rn' = nt_ends rn \<union> set names \<and> nt_servers rn' = nt_servers rn
     \<and> nt_heap rn' = nt_heap rn \<and> (\<forall>e. nt_enabled rn' e = (if e \<in> set names then False else nt_enabled rn e))
     \<and> (\<forall>e. e \<notin> set names \<longrightarrow> nt_connections rn' e = nt_connections rn e)"

lemma make_ends_fresh:
  assumes "distinct names" "set names \<inter> nt_ends rn = {}"
  shows "\<exists>rn'. make_ends gid j names rn = Inr rn' \<and> fresh_ends names rn rn'
    \<and> (\<forall>k < length names. nt_connections rn' (names ! k) = Some (ServerName gid (j + k)))"
  using assms
proof (induction names arbitrary: j rn)
  case Nil
  then show ?case by (simp add: fresh_ends_def)
next
  case (Cons nm names)
  define rn1 where "rn1 = Connect nm (ServerName gid j) (rn\<lparr>nt_ends := insert nm (nt_ends rn),
    nt_enabled := (nt_enabled rn)(nm := False), nt_connections := (nt_connections rn)(nm := None)\<rparr>)"
  obtain rn' where r: "make_ends gid (Suc j) names rn1 = Inr rn'" "fresh_ends names rn1 rn'"
    "\<forall>k < length names. nt_connections rn' (names ! k) = Some (ServerName gid (Suc j + k))"
    using Cons.IH [of rn1 "Suc j"] Cons.prems by (auto simp: rn1_def Connect_def)
  have "make_ends gid j (nm # names) rn = Inr rn'" using r(1) Cons.prems by (simp add: MakeEnd_def rn1_def)
  moreover have "fresh_ends (nm # names) rn rn'" using r(2) by (auto simp: fresh_ends_def rn1_def Connect_def)
  moreover have "nt_connections rn' ((nm # names) ! k) = Some (ServerName gid (j + k))" if "k < length (nm # names)" for k
    using that r(2,3) Cons.prems(1) by (cases k) (auto simp: fresh_ends_def rn1_def Connect_def)
  ultimately show ?case by blast
qed

lemma fresh_ends_trans: "fresh_ends a rn rn1 \<Longrightarrow> fresh_ends b rn1 rn2 \<Longrightarrow> fresh_ends (a @ b) rn rn2"
  by (auto simp: fresh_ends_def)

lemma makeServer_fresh:
  assumes "inj_on rnd {..<n}" "\<forall>j < n. rnd j \<notin> nt_ends rn"
  shows "\<exists>rn'. makeServer rnd gid n rn = Inr (\<lparr>ts_saved = None, ts_endNames = map rnd [0..<n], ts_dc = None\<rparr>, rn')
    \<and> fresh_ends (map rnd [0..<n]) rn rn' \<and> (\<forall>k < n. nt_connections rn' (rnd k) = Some (ServerName gid k))"
proof -
  have "distinct (map rnd [0..<n])" using assms(1) by (simp add: distinct_map atLeast0LessThan)
  moreover have "set (map rnd [0..<n]) \<inter> nt_ends rn = {}" using assms(2) by auto
  ultimately obtain rn' where "make_ends gid 0 (map rnd [0..<n]) rn = Inr rn'" "fresh_ends (map rnd [0..<n]) rn rn'"
    "\<forall>k < n. nt_connections rn' (rnd k) = Some (ServerName gid k)"
    using make_ends_fresh [of "map rnd [0..<n]" rn gid 0] by auto
  then show ?thesis by (auto simp: makeServer_def)
qed

lemma make_srvs_fresh:
  assumes "inj_on (\<lambda>(i, j). rnd i j) (set is \<times> {..<n})" "distinct is" "\<forall>i \<in> set is. \<forall>j < n. rnd i j \<notin> nt_ends rn"
  shows "\<exists>rn'. make_srvs rnd gid n is rn
      = Inr (map (\<lambda>i. \<lparr>ts_saved = None, ts_endNames = map (rnd i) [0..<n], ts_dc = None\<rparr>) is, rn')
    \<and> fresh_ends (concat (map (\<lambda>i. map (rnd i) [0..<n]) is)) rn rn'
    \<and> (\<forall>i \<in> set is. \<forall>k < n. nt_connections rn' (rnd i k) = Some (ServerName gid k))"
  using assms
proof (induction "is" arbitrary: rn)
  case Nil
  then show ?case by (simp add: fresh_ends_def)
next
  case (Cons i rest)
  have "inj_on (rnd i) {..<n}" using Cons.prems(1) by (auto simp: inj_on_def)
  then obtain rn1 where r1: "makeServer (rnd i) gid n rn = Inr (\<lparr>ts_saved = None, ts_endNames = map (rnd i) [0..<n], ts_dc = None\<rparr>, rn1)"
    "fresh_ends (map (rnd i) [0..<n]) rn rn1" "\<forall>k < n. nt_connections rn1 (rnd i k) = Some (ServerName gid k)"
    using makeServer_fresh [of "rnd i" n rn gid] Cons.prems(3) by auto
  have other: "rnd i' j \<notin> set (map (rnd i) [0..<n])" if "i' \<in> set rest" "j < n" for i' j
  proof
    assume "rnd i' j \<in> set (map (rnd i) [0..<n])"
    then obtain j' where "j' < n" "rnd i' j = rnd i j'" by auto
    then have "i' = i" using Cons.prems(1) that by (auto simp: inj_on_def)
    then show False using Cons.prems(2) that by simp
  qed
  have "\<forall>i' \<in> set rest. \<forall>j < n. rnd i' j \<notin> nt_ends rn1"
    using other Cons.prems(3) r1(2) by (auto simp: fresh_ends_def)
  then obtain rn2 where r2: "make_srvs rnd gid n rest rn1
      = Inr (map (\<lambda>i. \<lparr>ts_saved = None, ts_endNames = map (rnd i) [0..<n], ts_dc = None\<rparr>) rest, rn2)"
    "fresh_ends (concat (map (\<lambda>i. map (rnd i) [0..<n]) rest)) rn1 rn2"
    "\<forall>i \<in> set rest. \<forall>k < n. nt_connections rn2 (rnd i k) = Some (ServerName gid k)"
    using Cons.IH [of rn1] Cons.prems(1,2) by (auto simp: inj_on_def)
  have "rnd i k \<notin> set (concat (map (\<lambda>i. map (rnd i) [0..<n]) rest))" if "k < n" for k
    using other that by (force simp: image_iff)
  then have "\<forall>k < n. nt_connections rn2 (rnd i k) = Some (ServerName gid k)" using r2(2) r1(3) by (auto simp: fresh_ends_def)
  then show ?case using r1(1) r2 fresh_ends_trans [OF r1(2) r2(2)] by simp
qed

text \<open>A new group is well formed, wired to its own servers, and has no link yet.\<close>

lemma makeSrvGrp_wf:
  assumes inj: "inj_on (\<lambda>(i, j). rnd i j) ({..<n} \<times> {..<n})" and new: "\<forall>i < n. \<forall>j < n. rnd i j \<notin> nt_ends rn"
  shows "\<exists>sg rn'. makeSrvGrp rnd prog args endName gid n rn = Inr (sg, rn') \<and> sg_wf n sg \<and> sg_gid sg = gid
    \<and> (\<forall>a < n. \<forall>b < n. \<not> link sg rn' a b \<and> nt_connections rn' (ts_endNames (sg_srvs sg ! a) ! b) = Some (ServerName gid b))"
proof -
  have s: "set [0..<n] = {..<n}" by auto
  let ?ss = "map (\<lambda>i. \<lparr>ts_saved = None, ts_endNames = map (rnd i) [0..<n], ts_dc = None\<rparr>) [0..<n]"
  obtain rn' where r: "make_srvs rnd gid n [0..<n] rn = Inr (?ss, rn')"
    "fresh_ends (concat (map (\<lambda>i. map (rnd i) [0..<n]) [0..<n])) rn rn'"
    "\<forall>i < n. \<forall>k < n. nt_connections rn' (rnd i k) = Some (ServerName gid k)"
    using make_srvs_fresh [of rnd "[0..<n]" n rn gid] inj new unfolding s by auto
  have "\<not> nt_enabled rn' (rnd a b)" if "a < n" "b < n" for a b
  proof -
    have "rnd a b \<in> set (concat (map (\<lambda>i. map (rnd i) [0..<n]) [0..<n]))" using that by (auto intro!: bexI [of _ a])
    then show ?thesis using r(2) by (simp add: fresh_ends_def del: set_concat set_map)
  qed
  moreover have "i = i' \<and> j = j'" if "i < n" "j < n" "i' < n" "j' < n" "rnd i j = rnd i' j'" for i j i' j'
    using inj that by (auto simp: inj_on_def)
  ultimately show ?thesis using r(1,3) by (simp add: makeSrvGrp_def sg_wf_def link_def)
qed

section \<open>Partitions of a group\<close>

text \<open>C17: on an odd number of servers, partitioning a group as \<open>MakePartition\<close> says puts the given server in a minority,
  every server in exactly one part, and leaves a link between two servers exactly when they are in the same part, whatever
  the links were before.\<close>

theorem partition_isolates_leader:
  assumes wf: "sg_wf n sg" and n: "odd n" "3 \<le> n" and l: "l < n"
  shows "\<exists>p1 p2 sg' rn'. MakePartition l sg = Inr (p1, p2) \<and> Partition p1 p2 sg rn = Inr (sg', rn')
    \<and> mset (p1 @ p2) = mset [0..<n] \<and> l \<in> set p2 \<and> length p2 < length p1
    \<and> sg_connected sg' = replicate n True \<and> (\<forall>a < n. \<forall>b < n. link sg' rn' a b \<longleftrightarrow> (a \<in> set p1 \<longleftrightarrow> b \<in> set p1))"
proof -
  obtain k where k: "n = 2 * k + 1" using n(1) by (rule oddE)
  let ?f = "filter (\<lambda>i. i \<noteq> l) [0..<n]"
  let ?p1 = "take (k + 1) ?f" and ?p2 = "drop (k + 1) ?f @ [l]"
  have d: "n div 2 = k" "k + k + 2 - n = 1" using k by auto
  have len: "length ?f = 2 * k" using length_others [OF l] k by simp
  have k1: "1 \<le> k" using n(2) k by simp
  have "(drop (k + 1) (?f @ [0]))[k - 1 := l] = ?p2" using len k1 by (simp add: list_update_append)
  moreover have "take (k + 1) (?f @ [0]) = ?p1" using len k1 by simp
  ultimately have mk: "MakePartition l sg = Inr (?p1, ?p2)"
    using MakePartition_lists [of sg n l k 1] wf n(2) l d by (simp add: sg_wf_def)
  have ms: "mset (?p1 @ ?p2) = mset [0..<n]"
  proof -
    have "?p1 @ ?p2 = ?f @ [l]" by (simp only: append.assoc [symmetric] append_take_drop_id)
    then have "mset (?p1 @ ?p2) = mset (?f @ [l])" by (rule arg_cong)
    also have "\<dots> = mset [0..<n]" using mset_others [OF l] by simp
    finally show ?thesis .
  qed
  then have "distinct (?p1 @ ?p2)" "set (?p1 @ ?p2) = set [0..<n]" by (metis distinct_upt mset_eq_imp_distinct_iff, metis set_mset_mset)
  then have "set ?p1 \<inter> set ?p2 = {}" "set ?p1 \<union> set ?p2 = {..<n}" by auto
  from Partition_links [OF wf this, of rn] mk ms len k1 show ?thesis by force
qed

text \<open>On an even number of servers, at least four, \<open>MakePartition\<close> puts server 0 in both parts.\<close>

theorem MakePartition_even:
  assumes n: "length (sg_srvs sg) = n" "even n" "4 \<le> n" and l: "0 < l" "l < n"
  shows "\<exists>p1 p2. MakePartition l sg = Inr (p1, p2) \<and> 0 \<in> set p1 \<and> 0 \<in> set p2"
proof -
  obtain k where k: "n = 2 * k" using n(2) by (rule evenE)
  let ?f = "filter (\<lambda>i. i \<noteq> l) [0..<n]"
  have d: "n div 2 = k" "k + k + 2 - n = 2" using k by auto
  have len: "length ?f = 2 * k - 1" using length_others [OF l(2)] k by simp
  have "(drop (k + 1) (?f @ replicate 2 0))[k - 1 := l] = drop (k + 1) ?f @ [0, l]"
  proof -
    have "drop (k + 1) (?f @ replicate 2 0) = drop (k + 1) ?f @ [0, 0]" using len n(3) k by (simp add: numeral_2_eq_2)
    moreover have "k - 1 = Suc (length (drop (k + 1) ?f))" using len n(3) k by simp
    ultimately show ?thesis by (simp add: list_update_append del: length_drop)
  qed
  moreover have "[0..<n] = 0 # [1..<n]" using n(3) by (simp add: upt_conv_Cons)
  then have "?f ! 0 = 0" "0 < length ?f" using l by auto
  then have "0 \<in> set (take (k + 1) ?f)" by (metis Suc_eq_plus1 in_set_conv_nth length_greater_0_conv nth_take take_eq_Nil zero_less_Suc nat.distinct(1))
  moreover have "take (k + 1) (?f @ replicate 2 0) = take (k + 1) ?f" using len n(3) k by simp
  ultimately show ?thesis using MakePartition_lists [OF n(1) _ l(2) d] n(3) by simp
qed

text \<open>A group of five servers on a fresh network, with numbered end names.\<close>

definition demo_names :: "nat \<Rightarrow> nat \<Rightarrow> string" where
  "demo_names i j = itoa i @ ''-'' @ itoa j"

lemma demo_names_inj: "inj_on (\<lambda>(i, j). demo_names i j) A"
  by (auto simp: inj_on_def demo_names_def dest: itoa_pair_inj)

lemma demo_group: "\<exists>sg (rn :: unit Network). makeSrvGrp demo_names p as e 0 n (MakeNetwork h) = Inr (sg, rn) \<and> sg_wf n sg"
  using makeSrvGrp_wf [OF demo_names_inj, of n "MakeNetwork h" p as e 0] by (auto simp: MakeNetwork_def)

theorem partition_isolates_leader_witness:
  "\<exists>sg (rn :: unit Network) p1 p2 sg' rn'. makeSrvGrp demo_names [] [] [] 0 5 (MakeNetwork (\<lambda>_. MakeServer ())) = Inr (sg, rn)
     \<and> MakePartition 2 sg = Inr (p1, p2) \<and> Partition p1 p2 sg rn = Inr (sg', rn') \<and> 2 \<in> set p2 \<and> length p2 < length p1
     \<and> mset (p1 @ p2) = mset [0..<5]"
proof -
  obtain sg and rn :: "unit Network" where g: "makeSrvGrp demo_names [] [] [] 0 5 (MakeNetwork (\<lambda>_. MakeServer ())) = Inr (sg, rn)" "sg_wf 5 sg"
    using demo_group by blast
  from partition_isolates_leader [OF g(2), of 2 rn] g(1) show ?thesis by auto
qed

theorem MakePartition_even_witness:
  "\<exists>sg (rn :: unit Network) p1 p2. makeSrvGrp demo_names [] [] [] 0 4 (MakeNetwork (\<lambda>_. MakeServer ())) = Inr (sg, rn)
     \<and> MakePartition 3 sg = Inr (p1, p2) \<and> 0 \<in> set p1 \<and> 0 \<in> set p2"
proof -
  obtain sg and rn :: "unit Network" where g: "makeSrvGrp demo_names [] [] [] 0 4 (MakeNetwork (\<lambda>_. MakeServer ())) = Inr (sg, rn)" "sg_wf 4 sg"
    using demo_group by blast
  then have "length (sg_srvs sg) = 4" by (simp add: sg_wf_def)
  from MakePartition_even [OF this, of 3] g(1) show ?thesis by auto
qed

section \<open>Stopping and restarting a server\<close>

lemma persister_copies [simp]: "checkpointPersister p = p" "daemon_init p = p"
  by (simp_all add: checkpointPersister_def daemon_init_def Save_def MakePersister_def ReadRaftState_def ReadSnapshot_def Checkpoint_def Let_def)

lemma ShutdownServer_links:
  assumes wf: "sg_wf n sg" and i: "i < n"
  shows "\<exists>sg' rn'. ShutdownServer i sg rn = Inr (sg', rn') \<and> sg_gid sg' = sg_gid sg \<and> length (sg_srvs sg') = n
    \<and> sg_srvs sg' ! i = shutdownServer (sg_srvs sg ! i) \<and> nt_servers rn' (ServerName (sg_gid sg) i) = None
    \<and> nt_ends rn' = nt_ends rn
    \<and> (\<forall>a < n. \<forall>b < n. link sg' rn' a b \<longleftrightarrow> link sg rn a b \<and> a \<noteq> i \<and> b \<noteq> i)"
proof -
  let ?c = "(sg_connected sg)[i := False]"
  have len: "length (sg_srvs sg) = n" using wf by (simp add: sg_wf_def)
  obtain rn1 where d: "disconnect i (all_srvs sg) sg rn = Inr (sg\<lparr>sg_connected := ?c\<rparr>, rn1)" "same_wiring rn rn1"
    "\<forall>a < n. \<forall>b < n. link sg rn1 a b \<longleftrightarrow> link sg rn a b \<and> \<not> (a = i \<and> b \<in> set (all_srvs sg)) \<and> \<not> (b = i \<and> a \<in> set (all_srvs sg))"
    using disconnect_links [OF wf i, of "all_srvs sg" rn] len by (auto simp: all_srvs_def atLeast0LessThan)
  have names: "ts_endNames (((sg_srvs sg)[i := shutdownServer (sg_srvs sg ! i)]) ! a) = ts_endNames (sg_srvs sg ! a)" if "a < n" for a
    using that len i by (cases "a = i") (auto simp: shutdownServer_def split: option.splits)
  show ?thesis using d len i names by (auto simp: ShutdownServer_def slice_get_def DeleteServer_def link_def all_srvs_def same_wiring_def)
qed

text \<open>A server that is shut down and started again, under fresh end names, runs from exactly the state its daemon had
  persisted; while it is down no link of the group touches it and its name is not registered, and the restart links
  nothing.\<close>

theorem restart_keeps_state:
  assumes wf: "sg_wf n sg" and i: "i < n" and run: "ts_dc (sg_srvs sg ! i) = Some p"
    and inj: "inj_on (la_rnd la) {..<n}" and fresh: "\<forall>j < n. la_rnd la j \<notin> nt_ends rn" and st: "la_started la"
  shows "\<exists>sg1 rn1 sg2 rn2. ShutdownServer i sg rn = Inr (sg1, rn1)
    \<and> nt_servers rn1 (ServerName (sg_gid sg) i) = None \<and> (\<forall>a < n. \<not> link sg1 rn1 a i \<and> \<not> link sg1 rn1 i a)
    \<and> StartServer la i sg1 rn1 = Inr (sg2, rn2, True)
    \<and> ts_dc (sg_srvs sg2 ! i) = Some p \<and> nt_servers rn2 (ServerName (sg_gid sg) i) = Some (la_addr la)
    \<and> (\<forall>a < n. \<not> link sg2 rn2 i a)"
proof -
  obtain sg1 rn1 where s: "ShutdownServer i sg rn = Inr (sg1, rn1)" "sg_gid sg1 = sg_gid sg" "length (sg_srvs sg1) = n"
    "sg_srvs sg1 ! i = shutdownServer (sg_srvs sg ! i)" "nt_servers rn1 (ServerName (sg_gid sg) i) = None" "nt_ends rn1 = nt_ends rn"
    "\<forall>a < n. \<forall>b < n. link sg1 rn1 a b \<longleftrightarrow> link sg rn a b \<and> a \<noteq> i \<and> b \<noteq> i"
    using ShutdownServer_links [OF wf i, of rn] by blast
  have old: "ts_saved (sg_srvs sg1 ! i) = Some p" "length (ts_endNames (sg_srvs sg1 ! i)) = n"
    using s(4) run wf i by (simp_all add: shutdownServer_def sg_wf_def)
  obtain rn2 where m: "makeServer (la_rnd la) (sg_gid sg) n rn1
      = Inr (\<lparr>ts_saved = None, ts_endNames = map (la_rnd la) [0..<n], ts_dc = None\<rparr>, rn2)"
    "fresh_ends (map (la_rnd la) [0..<n]) rn1 rn2"
    using makeServer_fresh [OF inj, of rn1 "sg_gid sg"] fresh s(6) by auto
  have off: "\<not> nt_enabled rn2 (la_rnd la a)" if "a < n" for a using m(2) that by (auto simp: fresh_ends_def)
  have down: "\<forall>a < n. \<not> link sg1 rn1 a i \<and> \<not> link sg1 rn1 i a" using s(7) i by simp
  have "\<exists>sg2 rn3. StartServer la i sg1 rn1 = Inr (sg2, rn3, True) \<and> ts_dc (sg_srvs sg2 ! i) = Some p
      \<and> nt_servers rn3 (ServerName (sg_gid sg) i) = Some (la_addr la) \<and> (\<forall>a < n. \<not> link sg2 rn3 i a)"
    using s(2,3) m old i off st
    by (simp add: StartServer_def startServer_def slice_get_def Let_def AddServer_def link_def)
  then show ?thesis using s(1,5) down by blast
qed

definition demo_sg :: "bytes \<Rightarrow> ServerGrp" where
  "demo_sg r = \<lparr>sg_prog = [], sg_args = [], sg_srvs = [\<lparr>ts_saved = None, ts_endNames = [''a''], ts_dc = Some (Save r [2] MakePersister)\<rparr>],
     sg_servernames = [ServerName 0 0], sg_endName = [], sg_gid = 0, sg_connected = [True]\<rparr>"

definition demo_launch :: "unit launch" where
  "demo_launch = \<lparr>la_rnd = (\<lambda>_. ''b''), la_addr = 7, la_state = (), la_forward = (\<lambda>_ b. (b, True)), la_started = True\<rparr>"

theorem restart_keeps_state_witness:
  "\<exists>sg1 rn1 sg2 rn2. ShutdownServer 0 (demo_sg [1]) (MakeNetwork (\<lambda>_. MakeServer ())) = Inr (sg1, rn1)
     \<and> StartServer demo_launch 0 sg1 rn1 = Inr (sg2, rn2, True) \<and> ts_dc (sg_srvs sg2 ! 0) = Some (Save [1] [2] MakePersister)"
proof -
  let ?rn = "MakeNetwork (\<lambda>_. MakeServer ())"
  have "sg_wf 1 (demo_sg [1])" "ts_dc (sg_srvs (demo_sg [1]) ! 0) = Some (Save [1] [2] MakePersister)" "inj_on (la_rnd demo_launch) {..<1}"
    "\<forall>j < 1. la_rnd demo_launch j \<notin> nt_ends ?rn" "la_started demo_launch"
    by (simp_all add: sg_wf_def demo_sg_def demo_launch_def MakeNetwork_def lessThan_Suc)
  from restart_keeps_state [OF this(1) _ this(2-5)] show ?thesis by auto
qed

end
