(* ===== verification/Tester_Clnts.thy ===== *)
theory Tester_Clnts
  imports Tester_Links
begin

text \<open>
  The clients of a test, \<open>src/src/tester1/clnts.go\<close>: each clerk makes one end-point per server when it first calls it, and
  the test connects and disconnects clerks from servers. The last section is the configuration of a test, \<open>config.go\<close>, which
  owns the network, the groups and the clients.
\<close>

section \<open>One client\<close>

text \<open>The ends by server name; \<open>None\<close> for the servers is nil and allows all.\<close>

record Clnt =
  cl_ends :: "(string \<times> string) list"
  cl_srvs :: "string list option"

definition makeClntTo :: "string list option \<Rightarrow> Clnt" where
  "makeClntTo srvs = \<lparr>cl_ends = [], cl_srvs = srvs\<rparr>"

fun server_listed :: "string list \<Rightarrow> string \<Rightarrow> bool" where
  "server_listed [] server = False"
| "server_listed (n # ns) server = (if n = server then True else server_listed ns server)"

definition allowedL :: "Clnt \<Rightarrow> string \<Rightarrow> bool" where
  "allowedL clnt server = (case cl_srvs clnt of None \<Rightarrow> True | Some ns \<Rightarrow> server_listed ns server)"

text \<open>\<open>name\<close> is the random string drawn for a new end.\<close>

definition clnt_makeEnd :: "string \<Rightarrow> string \<Rightarrow> Clnt \<Rightarrow> 's Network \<Rightarrow> (string \<times> Clnt \<times> 's Network) res" where
  "clnt_makeEnd name server clnt rn =
     (case map_of (cl_ends clnt) server of
        Some e \<Rightarrow> Inr (e, clnt, rn)
      | None \<Rightarrow>
          rbind (MakeEnd name rn) (\<lambda>rn1.
          let rn2 = Connect name server rn1;
              rn3 = (if allowedL clnt server then Enable name True rn2 else Enable name False rn2) in
          Inr (name, clnt\<lparr>cl_ends := (server, name) # cl_ends clnt\<rparr>, rn3)))"

definition clnt_Call ::
  "string \<Rightarrow> nat \<Rightarrow> nat \<Rightarrow> nat \<Rightarrow> string \<Rightarrow> string \<Rightarrow> bytes \<Rightarrow> Clnt \<Rightarrow> 's Network \<Rightarrow> (Clnt \<times> 's Network \<times> replyMsg) res" where
  "clnt_Call name roll1 roll2 roll3 server meth args clnt rn =
     rbind (clnt_makeEnd name server clnt rn) (\<lambda>(e, clnt', rn1).
     rbind (rpc rn1 \<lparr>rq_endname = e, rq_svcMeth = meth, rq_args = args\<rparr> roll1 roll2 roll3) (\<lambda>(rn2, rep).
     Inr (clnt', rn2, rep)))"

definition clnt_ConnectAll :: "Clnt \<Rightarrow> 's Network \<Rightarrow> Clnt \<times> 's Network" where
  "clnt_ConnectAll clnt rn =
     (clnt\<lparr>cl_srvs := None\<rparr>, foldl (\<lambda>r (_, e). Enable e True r) rn (cl_ends clnt))"

definition ConnectTo :: "string list option \<Rightarrow> Clnt \<Rightarrow> 's Network \<Rightarrow> Clnt \<times> 's Network" where
  "ConnectTo srvs clnt rn =
     (let clnt1 = clnt\<lparr>cl_srvs := srvs\<rparr> in
      (clnt1, foldl (\<lambda>r (srv, e). if allowedL clnt1 srv then Enable e True r else r) rn (cl_ends clnt)))"

definition clnt_Disconnect :: "string \<Rightarrow> Clnt \<Rightarrow> 's Network \<Rightarrow> 's Network" where
  "clnt_Disconnect srv clnt rn = foldl (\<lambda>r (s, e). if s = srv then Enable e False r else r) rn (cl_ends clnt)"

definition clnt_DisconnectAll :: "Clnt \<Rightarrow> 's Network \<Rightarrow> Clnt \<times> 's Network" where
  "clnt_DisconnectAll clnt rn =
     (clnt\<lparr>cl_srvs := Some []\<rparr>, foldl (\<lambda>r (_, e). Enable e False r) rn (cl_ends clnt))"

fun clnt_remove :: "(string \<times> string) list \<Rightarrow> 's Network \<Rightarrow> 's Network res" where
  "clnt_remove [] rn = Inr rn"
| "clnt_remove ((_, e) # es) rn = rbind (DeleteEnd e rn) (clnt_remove es)"

section \<open>All clients\<close>

text \<open>Clerks are pointers; \<open>None\<close> is the nil map that \<open>cleanup\<close> leaves, which cannot be written to.\<close>

record Clnts =
  cs_clerks :: "(nat \<times> Clnt) list option"

definition makeClnts :: Clnts where
  "makeClnts = \<lparr>cs_clerks = Some []\<rparr>"

definition clnts_makeEnd :: "string \<Rightarrow> string \<Rightarrow> 's Network \<Rightarrow> (string \<times> 's Network) res" where
  "clnts_makeEnd name servername rn =
     rbind (MakeEnd name rn) (\<lambda>rn1. Inr (name, Enable name True (Connect name servername rn1)))"

text \<open>\<open>p\<close> is the address of the new client.\<close>

definition MakeClientTo :: "nat \<Rightarrow> string list option \<Rightarrow> Clnts \<Rightarrow> (Clnts \<times> Clnt) res" where
  "MakeClientTo p srvs clnts =
     (let clnt = makeClntTo srvs in
      case cs_clerks clnts of
        None \<Rightarrow> Inl (GoPanic ''assignment to entry in nil map'')
      | Some cs \<Rightarrow> Inr (clnts\<lparr>cs_clerks := Some ((p, clnt) # filter (\<lambda>(q, _). q \<noteq> p) cs)\<rparr>, clnt))"

definition MakeClient :: "nat \<Rightarrow> Clnts \<Rightarrow> (Clnts \<times> Clnt) res" where
  "MakeClient p clnts = MakeClientTo p None clnts"

fun remove_each :: "(nat \<times> Clnt) list \<Rightarrow> 's Network \<Rightarrow> 's Network res" where
  "remove_each [] rn = Inr rn"
| "remove_each ((_, c) # cs) rn = rbind (clnt_remove (cl_ends c) rn) (remove_each cs)"

definition clnts_cleanup :: "Clnts \<Rightarrow> 's Network \<Rightarrow> (Clnts \<times> 's Network) res" where
  "clnts_cleanup clnts rn =
     rbind (remove_each (case cs_clerks clnts of None \<Rightarrow> [] | Some cs \<Rightarrow> cs) rn) (\<lambda>rn'.
     Inr (clnts\<lparr>cs_clerks := None\<rparr>, rn'))"

definition DeleteClient :: "nat \<Rightarrow> Clnts \<Rightarrow> 's Network \<Rightarrow> (Clnts \<times> 's Network) res" where
  "DeleteClient p clnts rn =
     (case cs_clerks clnts of
        None \<Rightarrow> Inr (clnts, rn)
      | Some cs \<Rightarrow>
          (case map_of cs p of
             None \<Rightarrow> Inr (clnts, rn)
           | Some c \<Rightarrow>
               rbind (clnt_remove (cl_ends c) rn) (\<lambda>rn'.
               Inr (clnts\<lparr>cs_clerks := Some (filter (\<lambda>(q, _). q \<noteq> p) cs)\<rparr>, rn'))))"

section \<open>The configuration of a test\<close>

definition GRP0 :: nat where "GRP0 = 0"

text \<open>\<open>ops\<close> counts with 32 bits. Times are in nanoseconds.\<close>

record 's Config =
  cf_clnts :: Clnts
  cf_groups :: Groups
  cf_net :: "'s Network"
  cf_start :: int
  cf_t0 :: int
  cf_rpcs0 :: int
  cf_ops :: "32 word"
  cf_endName :: string

definition SetReliable :: "bool \<Rightarrow> 's Config \<Rightarrow> 's Config" where
  "SetReliable yes cfg = cfg\<lparr>cf_net := Reliable yes (cf_net cfg)\<rparr>"

definition cfg_IsReliable :: "'s Config \<Rightarrow> bool" where
  "cfg_IsReliable cfg = IsReliable (cf_net cfg)"

definition SetLongReordering :: "bool \<Rightarrow> 's Config \<Rightarrow> 's Config" where
  "SetLongReordering yes cfg = cfg\<lparr>cf_net := LongReordering yes (cf_net cfg)\<rparr>"

definition SetLongDelays :: "bool \<Rightarrow> 's Config \<Rightarrow> 's Config" where
  "SetLongDelays yes cfg = cfg\<lparr>cf_net := LongDelays yes (cf_net cfg)\<rparr>"

definition Group :: "nat \<Rightarrow> 's Config \<Rightarrow> ServerGrp option" where
  "Group gid cfg = lookupGroup gid (cf_groups cfg)"

text \<open>An operation of a group: a group that is not there is a nil pointer.\<close>

definition on_group ::
  "nat \<Rightarrow> (ServerGrp \<Rightarrow> 's Network \<Rightarrow> (ServerGrp \<times> 's Network) res) \<Rightarrow> 's Config \<Rightarrow> 's Config res" where
  "on_group gid f cfg =
     (case Group gid cfg of
        None \<Rightarrow> Inl NilDereference
      | Some sg \<Rightarrow> rbind (f sg (cf_net cfg)) (\<lambda>(sg', rn').
          Inr (cfg\<lparr>cf_groups := put_group gid sg' (cf_groups cfg), cf_net := rn'\<rparr>)))"

definition MakeGroupStart ::
  "(nat \<Rightarrow> nat \<Rightarrow> string) \<Rightarrow> (nat \<Rightarrow> 's launch) \<Rightarrow> string \<Rightarrow> string list \<Rightarrow> nat \<Rightarrow> nat \<Rightarrow> 's Config \<Rightarrow> 's Config res" where
  "MakeGroupStart rnd la prog args gid nsrv cfg =
     rbind (MakeGroup rnd prog args gid nsrv (cf_groups cfg) (cf_net cfg)) (\<lambda>(gs, rn).
     on_group gid (StartServers la) (cfg\<lparr>cf_groups := gs, cf_net := rn\<rparr>))"

definition ExitGroup :: "nat \<Rightarrow> 's Config \<Rightarrow> 's Config res" where
  "ExitGroup gid cfg =
     rbind (on_group gid Shutdown cfg) (\<lambda>cfg'. Inr (cfg'\<lparr>cf_groups := delete_group gid (cf_groups cfg')\<rparr>))"

text \<open>\<open>MakeConfig\<close>, without the settings of the Go run time and the RPC server of the tester.\<close>

definition MakeConfig ::
  "(nat \<Rightarrow> 's Server) \<Rightarrow> string \<Rightarrow> (nat \<Rightarrow> nat \<Rightarrow> string) \<Rightarrow> (nat \<Rightarrow> 's launch) \<Rightarrow> int \<Rightarrow> nat \<Rightarrow> bool \<Rightarrow> string \<Rightarrow> string list
     \<Rightarrow> 's Config res" where
  "MakeConfig h endName rnd la now n reliable prog args =
     (let cfg = \<lparr>cf_clnts = \<lparr>cs_clerks = None\<rparr>, cf_groups = newGroups prog args endName, cf_net = MakeNetwork h,
                 cf_start = 0, cf_t0 = 0, cf_rpcs0 = 0, cf_ops = 0, cf_endName = endName\<rparr> in
      rbind (MakeGroupStart rnd la prog args GRP0 n cfg) (\<lambda>cfg1.
      Inr (cfg1\<lparr>cf_clnts := makeClnts, cf_start := now, cf_net := Reliable reliable (cf_net cfg1)\<rparr>)))"

definition cfg_Cleanup :: "'s Config \<Rightarrow> 's Config res" where
  "cfg_Cleanup cfg =
     rbind (clnts_cleanup (cf_clnts cfg) (cf_net cfg)) (\<lambda>(cs, rn1).
     rbind (groups_cleanup (cf_groups cfg) rn1) (\<lambda>(gs, rn2).
     Inr (cfg\<lparr>cf_clnts := cs, cf_groups := gs, cf_net := Cleanup rn2\<rparr>)))"

definition RpcTotal :: "'s Config \<Rightarrow> int" where
  "RpcTotal cfg = GetTotalCount (cf_net cfg)"

definition BytesTotal :: "'s Config \<Rightarrow> int" where
  "BytesTotal cfg = GetTotalBytes (cf_net cfg)"

definition Begin :: "int \<Rightarrow> 's Config \<Rightarrow> 's Config" where
  "Begin now cfg = cfg\<lparr>cf_t0 := now, cf_rpcs0 := RpcTotal cfg, cf_ops := 0\<rparr>"

definition OpInc :: "'s Config \<Rightarrow> 's Config" where
  "OpInc cfg = cfg\<lparr>cf_ops := cf_ops cfg + 1\<rparr>"

text \<open>\<open>CheckTimeout\<close>: whether a test that has not failed is stopped.\<close>

definition CheckTimeout :: "int \<Rightarrow> bool \<Rightarrow> 's Config \<Rightarrow> bool" where
  "CheckTimeout now failed cfg \<longleftrightarrow> \<not> failed \<and> now - cf_start cfg > 120 * 1000000000"

text \<open>\<open>random_handles\<close>: \<open>js\<close> are the numbers drawn, the one for \<open>i\<close> from 0 to \<open>i\<close>.\<close>

fun shuffle_loop :: "nat \<Rightarrow> nat list \<Rightarrow> 'a list \<Rightarrow> 'a list" where
  "shuffle_loop i [] sa = sa"
| "shuffle_loop i (j # js) sa = shuffle_loop (Suc i) js (sa[i := sa ! j, j := sa ! i])"

definition random_handles :: "nat list \<Rightarrow> 'a list \<Rightarrow> 'a list" where
  "random_handles js kvh = shuffle_loop 0 (take (length kvh) js) kvh"

section \<open>Connecting and disconnecting clients\<close>

lemma server_listed_iff [simp]: "server_listed ns server \<longleftrightarrow> server \<in> set ns"
  by (induction ns) auto

lemma fold_enable:
  "foldl (\<lambda>r (s, e). if P s then Enable e v r else r) rn es = set_enabled (snd ` {x \<in> set es. P (fst x)}) v rn"
proof (induction es arbitrary: rn)
  case (Cons x es)
  have "{y \<in> set (x # es). P (fst y)} = (if P (fst x) then insert x {y \<in> set es. P (fst y)} else {y \<in> set es. P (fst y)})" by auto
  then show ?case using Cons by (simp add: set_enabled_Enable split: prod.split)
qed simp

lemma fold_enable_all: "foldl (\<lambda>r (_, e). Enable e v r) rn es = set_enabled (snd ` set es) v rn"
  using fold_enable [of "\<lambda>_. True" v rn es] by simp

lemma set_enabled_frame [simp]: "nt_heap (set_enabled E v rn) = nt_heap rn" "nt_done (set_enabled E v rn) = nt_done rn"
  by (simp_all add: set_enabled_def)

text \<open>A call over an end that is not enabled reaches no server.\<close>

lemma rpc_disabled:
  assumes "\<not> nt_enabled rn (rq_endname req)"
  shows "\<exists>rn'. rpc rn req r1 r2 r3 = Inr (rn', no_reply) \<and> nt_heap rn' = nt_heap rn"
proof (cases "nt_done rn")
  case False
  have "processReq_begin (accept_req req rn) req r1 = Answered no_reply"
    using assms by (auto simp: processReq_begin_def readEndnameInfo_def accept_req_def split: option.splits)
  then show ?thesis using False by (simp add: rpc_def await_def accept_req_def)
qed (simp add: rpc_def)

text \<open>A client that was disconnected from all servers reaches none of them, over the ends it had and over ends it makes
  later: every call fails and no server changes.\<close>

theorem disconnected_client_isolated:
  assumes dis: "clnt_DisconnectAll clnt rn = (clnt', rn')" and fresh: "name \<notin> nt_ends rn"
  shows "\<exists>clnt2 rn2. clnt_Call name r1 r2 r3 server meth args clnt' rn' = Inr (clnt2, rn2, no_reply) \<and> nt_heap rn2 = nt_heap rn"
proof -
  have c: "cl_ends clnt' = cl_ends clnt" "cl_srvs clnt' = Some []" and r: "rn' = set_enabled (snd ` set (cl_ends clnt)) False rn"
    using dis by (auto simp: clnt_DisconnectAll_def fold_enable_all)
  have "\<exists>e clnt2 rn2. clnt_makeEnd name server clnt' rn' = Inr (e, clnt2, rn2) \<and> \<not> nt_enabled rn2 e \<and> nt_heap rn2 = nt_heap rn"
  proof (cases "map_of (cl_ends clnt) server")
    case (Some e)
    then have "e \<in> snd ` set (cl_ends clnt)" by (force dest: map_of_SomeD)
    then show ?thesis using Some c r by (simp add: clnt_makeEnd_def)
  next
    case None
    then show ?thesis using c r fresh by (simp add: clnt_makeEnd_def MakeEnd_def allowedL_def Enable_def Connect_def Let_def)
  qed
  then obtain e clnt2 rn2 where m: "clnt_makeEnd name server clnt' rn' = Inr (e, clnt2, rn2)" "\<not> nt_enabled rn2 e" "nt_heap rn2 = nt_heap rn"
    by blast
  show ?thesis using rpc_disabled [of rn2 "\<lparr>rq_endname = e, rq_svcMeth = meth, rq_args = args\<rparr>" r1 r2 r3] m by (auto simp: clnt_Call_def)
qed

definition demo_clnt :: Clnt where
  "demo_clnt = \<lparr>cl_ends = [(''s1'', ''x1'')], cl_srvs = None\<rparr>"

theorem disconnected_client_isolated_witness:
  "\<exists>clnt2 rn2. clnt_Call ''x2'' 0 0 0 ''s1'' ''A.B'' [] (fst (clnt_DisconnectAll demo_clnt (Enable ''x1'' True (MakeNetwork (\<lambda>_. MakeServer ())))))
     (snd (clnt_DisconnectAll demo_clnt (Enable ''x1'' True (MakeNetwork (\<lambda>_. MakeServer ()))))) = Inr (clnt2, rn2, no_reply)"
proof -
  have "''x2'' \<notin> nt_ends (Enable ''x1'' True (MakeNetwork (\<lambda>_. MakeServer ())))" by (simp add: Enable_def MakeNetwork_def)
  from disconnected_client_isolated [OF surjective_pairing this] show ?thesis by blast
qed

text \<open>\<open>ConnectTo\<close> with a list of servers only opens ends: an open end to a server that is not on the list, and that the
  client is from then on not allowed to connect to, stays open, even when the list is empty.\<close>

theorem ConnectTo_keeps_links:
  assumes e: "map_of (cl_ends clnt) server = Some e" "nt_enabled rn e" and s: "server \<notin> set srvs"
    and c: "ConnectTo (Some srvs) clnt rn = (clnt', rn')"
  shows "\<not> allowedL clnt' server \<and> nt_enabled rn' e \<and> clnt_makeEnd name server clnt' rn' = Inr (e, clnt', rn')"
  using assms by (auto simp: ConnectTo_def fold_enable allowedL_def clnt_makeEnd_def Let_def)

theorem ConnectTo_keeps_links_witness:
  "nt_enabled (snd (ConnectTo (Some []) demo_clnt (Enable ''x1'' True (MakeNetwork (\<lambda>_. MakeServer ()))))) ''x1''"
proof -
  have "map_of (cl_ends demo_clnt) ''s1'' = Some ''x1''" "nt_enabled (Enable ''x1'' True (MakeNetwork (\<lambda>_. MakeServer ()))) ''x1''" "''s1'' \<notin> set []"
    by (simp_all add: demo_clnt_def Enable_def)
  from ConnectTo_keeps_links [OF this surjective_pairing] show ?thesis by blast
qed

text \<open>Connecting a client to all servers opens all its ends, and the ends it makes later.\<close>

lemma ConnectAll_opens:
  assumes "clnt_ConnectAll clnt rn = (clnt', rn')"
  shows "\<forall>(s, e) \<in> set (cl_ends clnt'). nt_enabled rn' e" and "allowedL clnt' server"
  using assms by (force simp: clnt_ConnectAll_def fold_enable_all allowedL_def)+

lemma clnts_cleanup_closed: "clnts_cleanup clnts rn = Inr (clnts', rn') \<Longrightarrow> \<exists>msg. MakeClientTo p srvs clnts' = Inl (GoPanic msg)"
  by (auto simp: clnts_cleanup_def MakeClientTo_def rbind_eq_Inr Let_def)

section \<open>Shuffling\<close>

lemma shuffle_loop_perm:
  "(\<forall>k < length js. js ! k \<le> i + k) \<Longrightarrow> i + length js \<le> length sa \<Longrightarrow> mset (shuffle_loop i js sa) = mset sa"
proof (induction js arbitrary: i sa)
  case (Cons j js)
  have j: "j \<le> i" using Cons.prems(1) by force
  have "\<forall>k < length js. js ! k \<le> Suc i + k" using Cons.prems(1) by force
  then have "mset (shuffle_loop (Suc i) js (sa[i := sa ! j, j := sa ! i])) = mset (sa[i := sa ! j, j := sa ! i])"
    using Cons.IH [of "Suc i"] Cons.prems(2) by simp
  then show ?case using j Cons.prems(2) by (simp add: mset_swap)
qed simp

lemma random_handles_perm:
  assumes "\<forall>k < length kvh. js ! k \<le> k" "length kvh \<le> length js"
  shows "mset (random_handles js kvh) = mset kvh"
  unfolding random_handles_def using assms by (intro shuffle_loop_perm) auto

end
