(* ===== verification/Kvtest_Run.thy ===== *)
theory Kvtest_Run
  imports Random_Names Kvtest_Append Kv_Linear Tester_Clnts
begin

text \<open>
  How a key/value test runs its clients while it disturbs the servers: \<open>SpawnClientsAndWait\<close> and \<open>Partitioner\<close> of
  \<open>src/src/kvtest1/kvtest.go\<close>, and the end of a test in \<open>src/src/tester1/config.go\<close>.
\<close>

section \<open>Clients and the channels of the tester\<close>

text \<open>The tester first hands a done signal to each client over one channel, then takes the results from the clients' own channels in order.
  A client works until it takes the signal (any client may take the next one), reports what its function returned, and exits.\<close>

datatype main_pc = Signal nat | Gather nat "ClntRes list" | Finish "ClntRes list"

datatype clnt_pc = Working | Reporting ClntRes | Exited

record spawn =
  sp_main :: main_pc
  sp_clnt :: "nat \<Rightarrow> clnt_pc"
  sp_res :: "nat \<Rightarrow> ClntRes"

inductive runClient :: "nat \<Rightarrow> spawn \<Rightarrow> spawn \<Rightarrow> bool" for n where
  work: "i < n \<Longrightarrow> sp_clnt s i = Working \<Longrightarrow> runClient n s (s\<lparr>sp_res := (sp_res s)(i := count_put ok (sp_res s i))\<rparr>)"
| signal: "sp_main s = Signal k \<Longrightarrow> k < n \<Longrightarrow> i < n \<Longrightarrow> sp_clnt s i = Working
    \<Longrightarrow> runClient n s (s\<lparr>sp_main := Signal (k + 1), sp_clnt := (sp_clnt s)(i := Reporting (sp_res s i))\<rparr>)"
| signalled: "sp_main s = Signal n \<Longrightarrow> runClient n s (s\<lparr>sp_main := Gather 0 []\<rparr>)"
| collect: "sp_main s = Gather k rs \<Longrightarrow> k < n \<Longrightarrow> sp_clnt s k = Reporting v
    \<Longrightarrow> runClient n s (s\<lparr>sp_main := Gather (k + 1) (rs @ [v]), sp_clnt := (sp_clnt s)(k := Exited)\<rparr>)"
| collected: "sp_main s = Gather n rs \<Longrightarrow> runClient n s (s\<lparr>sp_main := Finish rs\<rparr>)"

definition SpawnClientsAndWait :: "spawn \<Rightarrow> bool" where
  "SpawnClientsAndWait s \<longleftrightarrow> sp_main s = Signal 0 \<and> (\<forall>i. sp_clnt s i = Working \<and> sp_res s i = \<lparr>Nok = 0, Nmaybe = 0\<rparr>)"

definition spawn_inv :: "nat \<Rightarrow> spawn \<Rightarrow> bool" where
  "spawn_inv n s \<longleftrightarrow> (case sp_main s of
       Signal k \<Rightarrow> k \<le> n \<and> card {i. i < n \<and> sp_clnt s i = Working} = n - k
         \<and> (\<forall>i < n. sp_clnt s i = Working \<or> sp_clnt s i = Reporting (sp_res s i))
     | Gather k rs \<Rightarrow> k \<le> n \<and> rs = map (sp_res s) [0..<k] \<and> (\<forall>i < n. sp_clnt s i = (if i < k then Exited else Reporting (sp_res s i)))
     | Finish rs \<Rightarrow> rs = map (sp_res s) [0..<n] \<and> (\<forall>i < n. sp_clnt s i = Exited))"

lemma working_remove: "i < n \<Longrightarrow> c i = Working \<Longrightarrow> p \<noteq> Working
    \<Longrightarrow> card {j. j < n \<and> (c(i := p)) j = Working} = card {j. j < n \<and> c j = Working} - 1"
proof -
  assume a: "i < n" "c i = Working" "p \<noteq> Working"
  then have "{j. j < n \<and> (c(i := p)) j = Working} = {j. j < n \<and> c j = Working} - {i}" by auto
  then show ?thesis using a by (simp add: card_Diff_singleton)
qed

lemma runClient_inv: "runClient n s t \<Longrightarrow> spawn_inv n s \<Longrightarrow> spawn_inv n t"
proof (induction rule: runClient.induct)
  case (work i s ok)
  then show ?case by (auto simp: spawn_inv_def split: main_pc.splits if_splits)
next
  case (signal s k i)
  then show ?case using working_remove [of i n "sp_clnt s" "Reporting (sp_res s i)"] by (auto simp: spawn_inv_def simp del: fun_upd_apply) auto
next
  case (signalled s)
  then have "\<forall>i < n. sp_clnt s i = Reporting (sp_res s i)" by (auto simp: spawn_inv_def)
  then show ?case by (simp add: spawn_inv_def)
next
  case (collect s k rs v)
  then show ?case by (auto simp: spawn_inv_def less_Suc_eq)
next
  case (collected s rs)
  then show ?case by (auto simp: spawn_inv_def)
qed

interpretation spawned: invariant_system SpawnClientsAndWait "runClient n" "spawn_inv n" for n
  by unfold_locales (simp add: SpawnClientsAndWait_def spawn_inv_def, rule runClient_inv)

text \<open>The results are those of the clients, in order, and the tester is never stuck: until it has them all, some step brings it closer.\<close>

definition spawn_left :: "nat \<Rightarrow> spawn \<Rightarrow> nat" where
  "spawn_left n s = (case sp_main s of Signal k \<Rightarrow> 2 * n + 2 - k | Gather k rs \<Rightarrow> n + 1 - k | Finish rs \<Rightarrow> 0)"

lemma spawn_progress:
  assumes "reach SpawnClientsAndWait (runClient n) s"
  shows "(\<exists>rs. sp_main s = Finish rs \<and> rs = map (sp_res s) [0..<n]) \<or> (\<exists>t. runClient n s t \<and> spawn_left n t < spawn_left n s)"
proof -
  note inv = spawned.reach_inv [OF assms]
  show ?thesis
  proof (cases "sp_main s")
    case (Signal k)
    show ?thesis
    proof (cases "k = n")
      case True
      then show ?thesis using runClient.signalled [of s n] Signal by (fastforce simp: spawn_left_def)
    next
      case False
      then have "k < n" "card {i. i < n \<and> sp_clnt s i = Working} \<noteq> 0" using inv Signal by (auto simp: spawn_inv_def)
      then obtain i where "i < n" "sp_clnt s i = Working" by (metis (mono_tags, lifting) Collect_empty_eq card.empty)
      then show ?thesis using runClient.signal [OF Signal \<open>k < n\<close>] Signal \<open>k < n\<close> by (fastforce simp: spawn_left_def)
    qed
  next
    case (Gather k rs)
    show ?thesis
    proof (cases "k = n")
      case True
      then show ?thesis using runClient.collected [of s n rs] Gather by (fastforce simp: spawn_left_def)
    next
      case False
      then have "k < n" "sp_clnt s k = Reporting (sp_res s k)" using inv Gather by (auto simp: spawn_inv_def)
      then show ?thesis using runClient.collect [OF Gather] Gather by (fastforce simp: spawn_left_def)
    qed
  next
    case (Finish rs)
    then show ?thesis using inv by (simp add: spawn_inv_def)
  qed
qed

section \<open>Repartitioning the servers\<close>

text \<open>\<open>Partitioner\<close> until it is told to stop: each element of the list is a pass, the random bit of every server and the time.\<close>

fun Partitioner :: "nat \<Rightarrow> (nat list \<times> int) list \<Rightarrow> 's Config \<times> astate \<Rightarrow> ('s Config \<times> astate) res" where
  "Partitioner gid [] st = Inr st"
| "Partitioner gid ((a, t) # as) (cfg, an) =
     (let pa = random_parts a in
      rbind (on_group gid (Partition (pa ! 0) (pa ! 1)) cfg) (\<lambda>cfg'.
      Partitioner gid as (cfg', AnnotateTwoPartitions t (pa ! 0) (pa ! 1) an)))"

text \<open>Every pass splits the whole group: two servers are linked exactly if they drew the same bit.\<close>

lemma Partitioner_pass:
  assumes g: "Group gid cfg = Some sg" "sg_wf (length a) sg" and bits: "\<forall>x \<in> set a. x < 2"
  shows "\<exists>cfg' sg'. on_group gid (Partition (random_parts a ! 0) (random_parts a ! 1)) cfg = Inr cfg' \<and> sg_wf (length a) sg'
    \<and> (\<forall>i < length a. \<forall>j < length a. link sg' (cf_net cfg') i j \<longleftrightarrow> a ! i = a ! j)"
proof -
  note p = random_parts_partition [OF bits]
  obtain sg' rn' where s: "Partition (random_parts a ! 0) (random_parts a ! 1) sg (cf_net cfg) = Inr (sg', rn')" "sg_wf (length a) sg'"
    "\<forall>i < length a. \<forall>j < length a. link sg' rn' i j \<longleftrightarrow> (i \<in> set (random_parts a ! 0) \<longleftrightarrow> j \<in> set (random_parts a ! 0))"
    using Partition_links [OF g(2) p(2,1), of "cf_net cfg"] by blast
  have "a ! i = 0 \<or> a ! i = 1" if "i < length a" for i using bits nth_mem [OF that] by fastforce
  then have "(i \<in> set (random_parts a ! 0) \<longleftrightarrow> j \<in> set (random_parts a ! 0)) \<longleftrightarrow> a ! i = a ! j" if "i < length a" "j < length a" for i j
    using that by (auto simp: random_parts_def) (metis neq0_conv)+
  then have "\<forall>i < length a. \<forall>j < length a. link sg' rn' i j \<longleftrightarrow> a ! i = a ! j" using s(3) by simp
  then show ?thesis using s(1,2) g(1) by (auto simp: on_group_def)
qed

section \<open>The end of a test\<close>

text \<open>\<open>End\<close>: a test that took too long stops; one that has not failed prints the number of servers, of messages and of operations.\<close>

definition cfg_End :: "int \<Rightarrow> bool \<Rightarrow> 's Config \<Rightarrow> (nat \<times> int \<times> 32 word) option res" where
  "cfg_End now failed cfg =
     (if CheckTimeout now failed cfg then Inl (LogFatal ''test took longer than 120 seconds'')
      else if failed then Inr None
      else case Group GRP0 cfg of
        None \<Rightarrow> Inl NilDereference
      | Some sg \<Rightarrow> Inr (Some (N sg, RpcTotal cfg - cf_rpcs0 cfg, cf_ops cfg)))"

text \<open>The last part of \<open>Cleanup\<close>.\<close>

definition cleanup_annotations :: "string \<Rightarrow> bool \<Rightarrow> int \<Rightarrow> int \<Rightarrow> bool \<Rightarrow> astate \<Rightarrow> astate \<times> pannot list option" where
  "cleanup_annotations enabled opened t1 t2 failed s =
     (case an_cleanup enabled opened t1 t2 failed (if failed then ''test failed'' else ''test passed'') (st_an s) of
        (an', drawn) \<Rightarrow> (s\<lparr>st_an := an'\<rparr>, drawn))"

text \<open>A test whose history passed and that asked for drawings always: unless the annotations were marked as finalized before the
  check, the check draws nothing and the cleanup draws the annotations without the operations.\<close>

lemma passing_history_lost:
  assumes "check (oplog_Read h) \<noteq> Illegal" "\<not> an_finalized (st_an s)" "an_annotations (st_an s) \<noteq> []"
  shows "\<exists>s' an. checkPorcupine check ''always'' True t1 t2 h s = (s', None, Inr ()) \<and> snd (cleanup_annotations ''always'' True t3 t4 False s') = Some an"
proof -
  have "checkPorcupine check ''always'' True t1 t2 h s = (s, None, Inr ())"
    using passing_history_not_drawn [where s = s and check = check and h = h, OF assms(1)] assms(2) by (simp add: GetAnnotationFinalized_def isFinalized_def)
  moreover have "\<exists>an. snd (cleanup_annotations ''always'' True t3 t4 False s) = Some an"
    using cleanup_draws [of "''always''" False "st_an s" t3 t4 "''test passed''"] assms(2,3) by (auto simp: cleanup_annotations_def)
  ultimately show ?thesis by blast
qed

section \<open>Other operations of a test\<close>

fun ConnectClnts :: "Clnt list \<Rightarrow> 's Network \<Rightarrow> Clnt list \<times> 's Network" where
  "ConnectClnts [] rn = ([], rn)"
| "ConnectClnts (c # cs) rn =
     (case clnt_ConnectAll c rn of (c', rn1) \<Rightarrow> case ConnectClnts cs rn1 of (cs', rn2) \<Rightarrow> (c' # cs', rn2))"

definition ts_Cleanup :: "int \<Rightarrow> bool \<Rightarrow> 's Config \<Rightarrow> 's Config res" where
  "ts_Cleanup now failed cfg = rbind (cfg_End now failed cfg) (\<lambda>_. cfg_Cleanup cfg)"

text \<open>\<open>SpreadPuts\<close>: values of twenty letters.\<close>

definition SpreadPuts :: "attempt list list \<Rightarrow> ckcall list \<Rightarrow> nat \<Rightarrow> 8 word list list \<Rightarrow> ktest \<Rightarrow> (ktest \<times> string list \<times> string list) res option" where
  "SpreadPuts ass cs n rnd st =
     (case those (map (\<lambda>b. case Randstring b 20 of Inl f \<Rightarrow> None | Inr v \<Rightarrow> Some v) rnd) of
        None \<Rightarrow> Some (Inl SliceBounds)
      | Some va \<Rightarrow> SpreadPutsSize ass cs n va st)"

text \<open>After \<open>ConnectClnts\<close> every end of every client is open.\<close>

lemma ConnectClnts_net: "snd (ConnectClnts cs rn) = set_enabled (\<Union>c \<in> set cs. snd ` set (cl_ends c)) True rn"
proof (induction cs arbitrary: rn)
  case Nil
  then show ?case by (simp add: set_enabled_def)
next
  case (Cons c cs)
  have "snd (ConnectClnts (c # cs) rn) = snd (ConnectClnts cs (snd (clnt_ConnectAll c rn)))" by (simp split: prod.splits)
  then show ?case using Cons by (simp add: clnt_ConnectAll_def fold_enable_all set_enabled_twice)
qed

end
