(* ===== verification/Raft_Server.thy ===== *)
theory Raft_Server
  imports Raft
begin

text \<open>
  The server that runs on top of a Raft peer in the tests, \<open>src/src/raft1/server.go\<close>: it takes the messages of the apply channel,
  keeps the commands, hands Raft a snapshot of them at every tenth index and restores it, and reports each command to the
  tester, which compares it with what the other servers reported (\<open>src/src/raft1/test.go\<close>, \<open>proxy.go\<close>). Error texts are
  values of a type. Commands are compared by equality; the log entry of a nil command is \<open>None\<close>. A slice of bytes that is
  nil or empty is the empty list; neither holds a snapshot.
\<close>

section \<open>The tester's side\<close>

datatype apply_err = NoErr | ErrRPC | Conflict int nat nat | OutOfOrder int | NilSnapshot | BadSnapshot | SnapshotMismatch

type_synonym 'c logs = "int \<rightharpoonup> 'c option"

record 'c raftServer =
  rv_logs :: "'c logs"
  rv_applyErr :: apply_err

record 'c rtest =
  rt_srvs :: "'c raftServer list"
  rt_maxIndex :: int

definition entry :: "'c raftServer \<Rightarrow> int \<Rightarrow> 'c option option" where
  "entry rs i = rv_logs rs i"

text \<open>The loop over all servers keeps the last conflict it finds.\<close>

fun find_conflict :: "nat \<Rightarrow> 'c ApplyMsg \<Rightarrow> nat \<Rightarrow> 'c raftServer list \<Rightarrow> apply_err \<Rightarrow> apply_err" where
  "find_conflict i m j [] err = err"
| "find_conflict i m j (rs # rss) err =
     find_conflict i m (Suc j) rss
       (case entry rs (am_CommandIndex m) of
          Some old \<Rightarrow> (if old \<noteq> am_Command m then Conflict (am_CommandIndex m) i j else err)
        | None \<Rightarrow> err)"

definition CheckLogs :: "'c rtest \<Rightarrow> nat \<Rightarrow> 'c ApplyMsg \<Rightarrow> ('c rtest \<times> apply_err \<times> bool) res" where
  "CheckLogs ts i m =
     rbind (slice_get (rt_srvs ts) (int i)) (\<lambda>srv.
     let err = find_conflict i m 0 (rt_srvs ts) NoErr;
         prevok = (entry srv (am_CommandIndex m - 1) \<noteq> None);
         srv' = srv\<lparr>rv_logs := (rv_logs srv)(am_CommandIndex m \<mapsto> am_Command m)\<rparr> in
     Inr (ts\<lparr>rt_srvs := (rt_srvs ts)[i := srv'],
             rt_maxIndex := (if am_CommandIndex m > rt_maxIndex ts then am_CommandIndex m else rt_maxIndex ts)\<rparr>, err, prevok))"

definition IngestLog :: "'c rtest \<Rightarrow> nat \<Rightarrow> 'c logs \<Rightarrow> 'c rtest res" where
  "IngestLog ts i xlog =
     rbind (slice_get (rt_srvs ts) (int i)) (\<lambda>srv. Inr (ts\<lparr>rt_srvs := (rt_srvs ts)[i := srv\<lparr>rv_logs := xlog\<rparr>]\<rparr>))"

definition ApplyErr :: "'c rtest \<Rightarrow> nat \<Rightarrow> apply_err \<Rightarrow> 'c rtest res" where
  "ApplyErr ts i err =
     rbind (slice_get (rt_srvs ts) (int i)) (\<lambda>srv. Inr (ts\<lparr>rt_srvs := (rt_srvs ts)[i := srv\<lparr>rv_applyErr := err\<rparr>]\<rparr>))"

section \<open>The server\<close>

text \<open>The interface of the tester as the server sees it.\<close>

record ('t, 'c) Itester =
  it_CheckLogs :: "'t \<Rightarrow> nat \<Rightarrow> 'c ApplyMsg \<Rightarrow> ('t \<times> apply_err \<times> bool) res"
  it_IngestLog :: "'t \<Rightarrow> nat \<Rightarrow> 'c logs \<Rightarrow> 't res"
  it_ApplyErr :: "'t \<Rightarrow> nat \<Rightarrow> apply_err \<Rightarrow> 't res"

text \<open>The proxy in the server's process: \<open>ok\<close> says whether the answer of a call gets through, \<open>done_anyway\<close> whether a call
  that gets no answer was executed.\<close>

definition TesterProxy :: "('t, 'c) Itester \<Rightarrow> bool \<Rightarrow> bool \<Rightarrow> ('t, 'c) Itester" where
  "TesterProxy ts ok done_anyway =
     \<lparr>it_CheckLogs = (\<lambda>t i m. if ok then it_CheckLogs ts t i m
        else if done_anyway then rbind (it_CheckLogs ts t i m) (\<lambda>(t', _, _). Inr (t', ErrRPC, False)) else Inr (t, ErrRPC, False)),
      it_IngestLog = (\<lambda>t i l. if ok \<or> done_anyway then it_IngestLog ts t i l else Inr t),
      it_ApplyErr = (\<lambda>t i e. if ok \<or> done_anyway then it_ApplyErr ts t i e else Inr t)\<rparr>"

definition SnapShotInterval :: int where "SnapShotInterval = 10"

record 'c rfsrv =
  rs_me :: nat
  rs_lastApplied :: int
  rs_raft :: "'c Raft option"
  rs_log :: "'c logs"

text \<open>The gob encoding of a snapshot, an index and a list of commands, is a pair of parameters.\<close>

type_synonym 'c snap = "int \<times> 'c option list"

definition ingestSnap :: "(bytes \<Rightarrow> 'c snap option) \<Rightarrow> bytes \<Rightarrow> int \<Rightarrow> 'c rfsrv \<Rightarrow> 'c rfsrv \<times> apply_err" where
  "ingestSnap sdec data index rs =
     (if data = [] then (rs, NilSnapshot)
      else case sdec data of
        None \<Rightarrow> (rs, BadSnapshot)
      | Some (lastIncludedIndex, xlog) \<Rightarrow>
          if index \<noteq> -1 \<and> index \<noteq> lastIncludedIndex then (rs, SnapshotMismatch)
          else (rs\<lparr>rs_log := (\<lambda>j. if 0 \<le> j \<and> j < int (length xlog) then Some (xlog ! nat j) else None),
                   rs_lastApplied := lastIncludedIndex\<rparr>, NoErr))"

definition getraft :: "'c rfsrv \<Rightarrow> 'c Raft option" where
  "getraft rs = rs_raft rs"

definition rs_Start :: "'c \<Rightarrow> 'c rfsrv \<Rightarrow> 'c rfsrv \<times> int \<times> int \<times> bool" where
  "rs_Start command rs =
     (case getraft rs of
        None \<Rightarrow> (rs, 0, 0, False)
      | Some rf \<Rightarrow> (case Start command rf of (rf', idx, term, leader) \<Rightarrow> (rs\<lparr>rs_raft := Some rf'\<rparr>, idx, term, leader)))"

definition rs_GetState :: "'c rfsrv \<Rightarrow> (int \<times> bool) res" where
  "rs_GetState rs = (case rs_raft rs of None \<Rightarrow> Inl NilDereference | Some rf \<Rightarrow> Inr (GetState rf))"

text \<open>The RPC wrappers of the server and the tester's side of them, \<open>Rfproxy\<close>: \<open>got\<close> says whether the request reached the server, \<open>ok\<close> whether the
  answer came back as well. A call that failed leaves the reply structure at its zero values.\<close>

record GetStateReply =
  gs_Term :: int
  gs_Leader :: bool

record StartReply =
  sr_Index :: int
  sr_Term :: int
  sr_Leader :: bool

definition GetStateRPC :: "'c rfsrv \<Rightarrow> GetStateReply res" where
  "GetStateRPC rs = rbind (rs_GetState rs) (\<lambda>(term, leader). Inr \<lparr>gs_Term = term, gs_Leader = leader\<rparr>)"

definition StartRPC :: "'c \<Rightarrow> 'c rfsrv \<Rightarrow> 'c rfsrv \<times> StartReply" where
  "StartRPC command rs = (case rs_Start command rs of (rs', idx, term, leader) \<Rightarrow> (rs', \<lparr>sr_Index = idx, sr_Term = term, sr_Leader = leader\<rparr>))"

definition rfp_GetState :: "bool \<Rightarrow> 'c rfsrv \<Rightarrow> (int \<times> bool) res" where
  "rfp_GetState ok rs =
     (if ok then rbind (GetStateRPC rs) (\<lambda>rep. Inr (gs_Term rep, gs_Leader rep)) else Inr (0, False))"

definition rfp_Start :: "bool \<Rightarrow> bool \<Rightarrow> 'c \<Rightarrow> 'c rfsrv \<Rightarrow> 'c rfsrv \<times> int \<times> int \<times> bool" where
  "rfp_Start got ok command rs =
     (case (if got then StartRPC command rs else (rs, \<lparr>sr_Index = 0, sr_Term = 0, sr_Leader = False\<rparr>)) of (rs', rep) \<Rightarrow>
      if got \<and> ok then (rs', sr_Index rep, sr_Term rep, sr_Leader rep) else (rs', 0, 0, False))"

definition report :: "('t, 'c) Itester \<Rightarrow> nat \<Rightarrow> apply_err \<Rightarrow> 't \<Rightarrow> 't res" where
  "report ts self err t = (if err \<noteq> NoErr then it_ApplyErr ts t self err else Inr t)"

text \<open>The body of the loop of \<open>applier\<close>, without snapshots.\<close>

definition applier_msg :: "('t, 'c) Itester \<Rightarrow> 'c rfsrv \<Rightarrow> 't \<Rightarrow> 'c ApplyMsg \<Rightarrow> 't res" where
  "applier_msg ts rs t m =
     (if \<not> am_CommandValid m then Inr t
      else rbind (it_CheckLogs ts t (rs_me rs) m) (\<lambda>(t1, err, prevok).
        report ts (rs_me rs) (if am_CommandIndex m > 1 \<and> \<not> prevok then OutOfOrder (am_CommandIndex m) else err) t1))"

text \<open>What the server puts into a snapshot.\<close>

definition snapshot_of :: "'c rfsrv \<Rightarrow> int \<Rightarrow> 'c snap" where
  "snapshot_of rs index =
     (index, map (\<lambda>j. case rs_log rs (int j) of None \<Rightarrow> None | Some v \<Rightarrow> v) [0..<nat (index + 1)])"

definition make_snapshot :: "('c snap \<Rightarrow> bytes) \<Rightarrow> int \<Rightarrow> 'c rfsrv \<Rightarrow> 'c rfsrv res" where
  "make_snapshot senc index rs =
     (if (index + 1) mod SnapShotInterval = 0 then
        (case getraft rs of
           None \<Rightarrow> Inl NilDereference
         | Some rf \<Rightarrow> rbind (Snapshot index (senc (snapshot_of rs index)) rf) (\<lambda>rf'. Inr (rs\<lparr>rs_raft := Some rf'\<rparr>)))
      else Inr rs)"

text \<open>The error of a command message, after the tester was asked when the index is the expected one.\<close>

definition command_err :: "('t, 'c) Itester \<Rightarrow> 'c rfsrv \<Rightarrow> 't \<Rightarrow> 'c ApplyMsg \<Rightarrow> ('t \<times> apply_err) res" where
  "command_err ts rs t m =
     (if am_CommandIndex m \<noteq> rs_lastApplied rs + 1 then Inr (t, OutOfOrder (am_CommandIndex m))
      else rbind (it_CheckLogs ts t (rs_me rs) m) (\<lambda>(t1, err, prevok).
        Inr (t1, if err \<noteq> ErrRPC \<and> am_CommandIndex m > 1 \<and> \<not> prevok then OutOfOrder (am_CommandIndex m) else err)))"

text \<open>The body of the loop of \<open>applierSnap\<close>.\<close>

definition applierSnap_msg ::
  "('c snap \<Rightarrow> bytes) \<Rightarrow> (bytes \<Rightarrow> 'c snap option) \<Rightarrow> ('t, 'c) Itester \<Rightarrow> 'c rfsrv \<Rightarrow> 't \<Rightarrow> 'c ApplyMsg \<Rightarrow> ('c rfsrv \<times> 't) res" where
  "applierSnap_msg senc sdec ts rs t m =
     (if am_SnapshotValid m then
        (case ingestSnap sdec (am_Snapshot m) (am_SnapshotIndex m) rs of (rs1, err) \<Rightarrow>
           rbind (it_IngestLog ts t (rs_me rs1) (rs_log rs1)) (\<lambda>t1.
           rbind (report ts (rs_me rs1) err t1) (\<lambda>t2. Inr (rs1, t2))))
      else if am_CommandValid m then
        rbind (command_err ts rs t m) (\<lambda>(t1, err).
        let rs1 = rs\<lparr>rs_log := (rs_log rs)(am_CommandIndex m \<mapsto> am_Command m), rs_lastApplied := am_CommandIndex m\<rparr> in
        rbind (make_snapshot senc (am_CommandIndex m) rs1) (\<lambda>rs2.
        rbind (report ts (rs_me rs2) err t1) (\<lambda>t2. Inr (rs2, t2))))
      else Inr (rs, t))"

text \<open>\<open>newRfsrv\<close>: the Raft peer is made from the same persister.\<close>

definition newRfsrv ::
  "(bytes \<Rightarrow> 'c pstate option) \<Rightarrow> (bytes \<Rightarrow> 'c snap option) \<Rightarrow> ('t, 'c) Itester \<Rightarrow> int \<Rightarrow> int \<Rightarrow> nat \<Rightarrow> nat \<Rightarrow> Persister \<Rightarrow> bool \<Rightarrow> 't
     \<Rightarrow> ('c rfsrv \<times> 't) res" where
  "newRfsrv dec sdec ts now r n srv ps snapshots t =
     (let sn = ReadSnapshot ps in
      rbind (Make dec now r n srv ps) (\<lambda>rf.
      let rs = \<lparr>rs_me = srv, rs_lastApplied = 0, rs_raft = Some rf, rs_log = Map.empty\<rparr> in
      if snapshots \<and> length sn > 0 then
        (case ingestSnap sdec sn (-1) rs of (rs1, err) \<Rightarrow>
           if err \<noteq> NoErr then rbind (it_ApplyErr ts t srv err) (\<lambda>_. Inl (LogFatal ''ingestSnap err''))
           else rbind (it_IngestLog ts t (rs_me rs1) (rs_log rs1)) (\<lambda>t1. Inr (rs1, t1)))
      else Inr (rs, t)))"

text \<open>A sequence of deliveries: which server takes which message next.\<close>

fun run_msgs ::
  "('c snap \<Rightarrow> bytes) \<Rightarrow> (bytes \<Rightarrow> 'c snap option) \<Rightarrow> ('t, 'c) Itester \<Rightarrow> 'c rfsrv list \<Rightarrow> 't \<Rightarrow> (nat \<times> 'c ApplyMsg) list
     \<Rightarrow> ('c rfsrv list \<times> 't) res" where
  "run_msgs senc sdec ts srvs t [] = Inr (srvs, t)"
| "run_msgs senc sdec ts srvs t ((i, m) # ms) =
     rbind (slice_get srvs (int i)) (\<lambda>rs.
     rbind (applierSnap_msg senc sdec ts rs t m) (\<lambda>(rs', t').
     run_msgs senc sdec ts (srvs[i := rs']) t' ms))"

section \<open>The contract of the tester\<close>

lemma Snapshot_total: "\<exists>rf'. Snapshot index data rf = Inr rf'"
  by (auto simp: Snapshot_def Let_def slice_get_def slice_from_def slice_range_def idx_ok_def)

lemma make_snapshot_total:
  assumes "rs_raft rs \<noteq> None"
  shows "\<exists>rs2. make_snapshot senc k rs = Inr rs2 \<and> rs_log rs2 = rs_log rs \<and> rs_me rs2 = rs_me rs \<and> rs_lastApplied rs2 = rs_lastApplied rs
    \<and> rs_raft rs2 \<noteq> None"
proof -
  obtain rf where rf: "rs_raft rs = Some rf" using assms by auto
  obtain rf' where "Snapshot k (senc (snapshot_of rs k)) rf = Inr rf'" using Snapshot_total by blast
  then show ?thesis using rf by (cases "(k + 1) mod SnapShotInterval = 0") (simp_all add: make_snapshot_def getraft_def)
qed

text \<open>The snapshot of the first commands of a sequence, and a message that agrees with it.\<close>

definition good_snap :: "(int \<Rightarrow> 'c option) \<Rightarrow> int \<Rightarrow> 'c snap" where
  "good_snap L k = (k, map (\<lambda>j. L (int j)) [0..<nat (k + 1)])"

definition next_cmd :: "(int \<Rightarrow> 'c option) \<Rightarrow> int \<Rightarrow> 'c ApplyMsg \<Rightarrow> bool" where
  "next_cmd L la m \<longleftrightarrow> am_CommandValid m \<and> \<not> am_SnapshotValid m \<and> am_CommandIndex m = la + 1 \<and> am_Command m = L (la + 1)"

definition good_snap_msg :: "('c snap \<Rightarrow> bytes) \<Rightarrow> (int \<Rightarrow> 'c option) \<Rightarrow> 'c ApplyMsg \<Rightarrow> bool" where
  "good_snap_msg senc L m \<longleftrightarrow> am_SnapshotValid m \<and> 0 \<le> am_SnapshotIndex m \<and> am_Snapshot m = senc (good_snap L (am_SnapshotIndex m))"

text \<open>Deliveries that follow \<open>L\<close>: each is the next command of its server, or a snapshot.\<close>

fun follows :: "('c snap \<Rightarrow> bytes) \<Rightarrow> (int \<Rightarrow> 'c option) \<Rightarrow> nat \<Rightarrow> (nat \<Rightarrow> int) \<Rightarrow> (nat \<times> 'c ApplyMsg) list \<Rightarrow> bool" where
  "follows senc L n la [] = True"
| "follows senc L n la ((i, m) # ms) = (i < n \<and>
     (next_cmd L (la i) m \<and> follows senc L n (la(i := la i + 1)) ms
      \<or> good_snap_msg senc L m \<and> follows senc L n (la(i := am_SnapshotIndex m)) ms))"

text \<open>The last applied index of each server after some deliveries.\<close>

fun la_after :: "(nat \<Rightarrow> int) \<Rightarrow> (nat \<times> 'c ApplyMsg) list \<Rightarrow> nat \<Rightarrow> int" where
  "la_after la [] = la"
| "la_after la ((i, m) # ms) = la_after (la(i := (if am_SnapshotValid m then am_SnapshotIndex m else la i + 1))) ms"

lemma follows_append: "follows senc L n la (ms @ ms') \<longleftrightarrow> follows senc L n la ms \<and> follows senc L n (la_after la ms) ms'"
  by (induction ms arbitrary: la) (auto simp: next_cmd_def good_snap_msg_def)

lemma la_after_append: "la_after la (ms @ ms') = la_after (la_after la ms) ms'"
  by (induction ms arbitrary: la) auto

text \<open>What a server relies on: the tester keeps a copy of the log of every server; it accepts a command no copy contradicts,
  answers whether the entry before is there, objects to a command that some copy contradicts, takes over a log it is
  given, and remembers a reported error.\<close>

locale apply_checker =
  fixes ts :: "('t, 'c) Itester"
    and view :: "'t \<Rightarrow> nat \<Rightarrow> 'c logs"
    and nsrv :: "'t \<Rightarrow> nat"
    and failed :: "'t \<Rightarrow> bool"
  assumes check_agrees: "i < nsrv t \<Longrightarrow> (\<And>j v. j < nsrv t \<Longrightarrow> view t j (am_CommandIndex m) = Some v \<Longrightarrow> v = am_Command m)
      \<Longrightarrow> \<exists>t'. it_CheckLogs ts t i m = Inr (t', NoErr, view t i (am_CommandIndex m - 1) \<noteq> None)
            \<and> view t' = (view t)(i := (view t i)(am_CommandIndex m \<mapsto> am_Command m)) \<and> nsrv t' = nsrv t \<and> failed t' = failed t"
    and check_detects: "i < nsrv t \<Longrightarrow> j < nsrv t \<Longrightarrow> view t j (am_CommandIndex m) = Some v \<Longrightarrow> v \<noteq> am_Command m
      \<Longrightarrow> \<exists>t' e p. it_CheckLogs ts t i m = Inr (t', e, p) \<and> e \<noteq> NoErr \<and> nsrv t' = nsrv t"
    and ingest: "i < nsrv t \<Longrightarrow> \<exists>t'. it_IngestLog ts t i l = Inr t' \<and> view t' = (view t)(i := l) \<and> nsrv t' = nsrv t \<and> failed t' = failed t"
    and reports: "i < nsrv t \<Longrightarrow> e \<noteq> NoErr \<Longrightarrow> \<exists>t'. it_ApplyErr ts t i e = Inr t' \<and> failed t' \<and> nsrv t' = nsrv t"
begin

text \<open>A server and the tester agree with a sequence \<open>L\<close> of commands, of which the server has the first ones.\<close>

definition srv_ok :: "(int \<Rightarrow> 'c option) \<Rightarrow> 't \<Rightarrow> 'c rfsrv \<Rightarrow> bool" where
  "srv_ok L t rs \<longleftrightarrow> rs_me rs < nsrv t \<and> 0 \<le> rs_lastApplied rs \<and> rs_raft rs \<noteq> None \<and> view t (rs_me rs) = rs_log rs
     \<and> (\<forall>idx v. rs_log rs idx = Some v \<longrightarrow> v = L idx) \<and> (\<forall>idx. 1 \<le> idx \<and> idx \<le> rs_lastApplied rs \<longrightarrow> rs_log rs idx \<noteq> None)"

definition agreed :: "(int \<Rightarrow> 'c option) \<Rightarrow> 't \<Rightarrow> bool" where
  "agreed L t \<longleftrightarrow> (\<forall>j < nsrv t. \<forall>idx v. view t j idx = Some v \<longrightarrow> v = L idx)"


lemma snapshot_of_good:
  assumes ok: "srv_ok L t rs" and L0: "L 0 = None" and k: "k \<le> rs_lastApplied rs"
  shows "snapshot_of rs k = good_snap L k"
proof -
  have "(case rs_log rs (int j) of None \<Rightarrow> None | Some v \<Rightarrow> v) = L (int j)" if "j < nat (k + 1)" for j
  proof (cases "rs_log rs (int j)")
    case None
    moreover have "int j \<le> rs_lastApplied rs" using that k by simp
    ultimately have "\<not> 1 \<le> int j" using ok unfolding srv_ok_def by blast
    then have "j = 0" by simp
    then show ?thesis using None L0 by simp
  next
    case (Some v)
    then show ?thesis using ok by (simp add: srv_ok_def)
  qed
  then show ?thesis by (simp add: snapshot_of_def good_snap_def)
qed

lemma command_accepted:
  assumes ok: "srv_ok L t rs" and ag: "agreed L t" and m: "next_cmd L (rs_lastApplied rs) m" and L0: "L 0 = None"
  shows "\<exists>rs' t'. applierSnap_msg senc sdec ts rs t m = Inr (rs', t') \<and> srv_ok L t' rs' \<and> agreed L t' \<and> nsrv t' = nsrv t
    \<and> failed t' = failed t \<and> rs_me rs' = rs_me rs \<and> rs_lastApplied rs' = rs_lastApplied rs + 1
    \<and> (\<forall>j. j \<noteq> rs_me rs \<longrightarrow> view t' j = view t j)"
proof -
  let ?i = "rs_lastApplied rs + 1"
  let ?rs1 = "rs\<lparr>rs_log := (rs_log rs)(?i \<mapsto> L ?i), rs_lastApplied := ?i\<rparr>"
  have me: "rs_me rs < nsrv t" "view t (rs_me rs) = rs_log rs" "0 \<le> rs_lastApplied rs" using ok by (auto simp: srv_ok_def)
  have mm: "am_CommandIndex m = ?i" "am_Command m = L ?i" "am_CommandValid m" "\<not> am_SnapshotValid m" using m by (auto simp: next_cmd_def)
  obtain t1 where t1: "it_CheckLogs ts t (rs_me rs) m = Inr (t1, NoErr, rs_log rs (rs_lastApplied rs) \<noteq> None)"
    "view t1 = (view t)(rs_me rs := (rs_log rs)(?i \<mapsto> L ?i))" "nsrv t1 = nsrv t" "failed t1 = failed t"
    using check_agrees [OF me(1), of m] ag mm me(2) by (auto simp: agreed_def)
  have prev: "\<not> (?i > 1 \<and> \<not> rs_log rs (rs_lastApplied rs) \<noteq> None)" using ok by (auto simp: srv_ok_def)
  then have err: "command_err ts rs t m = Inr (t1, NoErr)" using t1(1) mm by (simp add: command_err_def)
  have "rs_raft ?rs1 \<noteq> None" using ok by (simp add: srv_ok_def)
  from make_snapshot_total [OF this] obtain rs2 where rs2: "make_snapshot senc ?i ?rs1 = Inr rs2" "rs_log rs2 = rs_log ?rs1"
    "rs_me rs2 = rs_me rs" "rs_lastApplied rs2 = ?i" "rs_raft rs2 \<noteq> None" by fastforce
  have "applierSnap_msg senc sdec ts rs t m = Inr (rs2, t1)"
    using mm err rs2(1,3) by (simp add: applierSnap_msg_def Let_def report_def)
  moreover have "srv_ok L t1 rs2" using ok rs2 t1 me by (auto simp: srv_ok_def)
  moreover have "agreed L t1" using ag ok t1 by (auto simp: agreed_def srv_ok_def)
  ultimately show ?thesis using t1 rs2 by auto
qed

lemma ingest_good:
  assumes "senc (good_snap L k) \<noteq> []" "sdec (senc (good_snap L k)) = Some (good_snap L k)" "index = k \<or> index = -1" "0 \<le> k"
  shows "\<exists>rs'. ingestSnap sdec (senc (good_snap L k)) index rs = (rs', NoErr) \<and> rs_me rs' = rs_me rs \<and> rs_raft rs' = rs_raft rs
    \<and> rs_lastApplied rs' = k \<and> rs_log rs' = (\<lambda>j. if 0 \<le> j \<and> j \<le> k then Some (L j) else None)"
  using assms by (auto simp: ingestSnap_def good_snap_def fun_eq_iff)

lemma snapshot_accepted:
  assumes ok: "srv_ok L t rs" and ag: "agreed L t" and m: "good_snap_msg senc L m" and codec: "\<And>s. senc s \<noteq> [] \<and> sdec (senc s) = Some s"
  shows "\<exists>rs' t'. applierSnap_msg senc sdec ts rs t m = Inr (rs', t') \<and> srv_ok L t' rs' \<and> agreed L t' \<and> nsrv t' = nsrv t
    \<and> failed t' = failed t \<and> rs_me rs' = rs_me rs \<and> rs_lastApplied rs' = am_SnapshotIndex m
    \<and> (\<forall>j. j \<noteq> rs_me rs \<longrightarrow> view t' j = view t j)"
proof -
  let ?k = "am_SnapshotIndex m"
  obtain rs1 where r: "ingestSnap sdec (senc (good_snap L ?k)) ?k rs = (rs1, NoErr)" "rs_me rs1 = rs_me rs" "rs_raft rs1 = rs_raft rs"
    "rs_lastApplied rs1 = ?k" "rs_log rs1 = (\<lambda>j. if 0 \<le> j \<and> j \<le> ?k then Some (L j) else None)"
    using ingest_good [where sdec = sdec and senc = senc and L = L and k = ?k and index = ?k and rs = rs] codec m by (auto simp: good_snap_msg_def)
  obtain t1 where t1: "it_IngestLog ts t (rs_me rs) (rs_log rs1) = Inr t1" "view t1 = (view t)(rs_me rs := rs_log rs1)"
    "nsrv t1 = nsrv t" "failed t1 = failed t" using ingest [of "rs_me rs" t "rs_log rs1"] ok by (auto simp: srv_ok_def)
  have "applierSnap_msg senc sdec ts rs t m = Inr (rs1, t1)"
    using m r t1(1) by (simp add: applierSnap_msg_def good_snap_msg_def report_def)
  moreover have "srv_ok L t1 rs1" using ok r t1 m by (auto simp: srv_ok_def good_snap_msg_def)
  moreover have "agreed L t1" using ag t1 r(5) by (auto simp: agreed_def split: if_splits)
  ultimately show ?thesis using r t1 by auto
qed

text \<open>A command the tester has a different entry for is reported, with and without snapshots.\<close>

lemma conflict_reported:
  assumes ok: "rs_me rs < nsrv t" "j < nsrv t" and v: "view t j (am_CommandIndex m) = Some v" "v \<noteq> am_Command m"
    and m: "am_CommandValid m" "\<not> am_SnapshotValid m" and raft: "rs_raft rs \<noteq> None"
  shows "\<exists>t'. applier_msg ts rs t m = Inr t' \<and> failed t'"
    and "\<exists>rs' t'. applierSnap_msg senc sdec ts rs t m = Inr (rs', t') \<and> failed t'"
proof -
  obtain t1 e p where c: "it_CheckLogs ts t (rs_me rs) m = Inr (t1, e, p)" "e \<noteq> NoErr" "nsrv t1 = nsrv t"
    using check_detects [OF ok v] by blast
  have rep: "\<exists>t'. it_ApplyErr ts t2 (rs_me rs) e' = Inr t' \<and> failed t'" if "e' \<noteq> NoErr" "nsrv t2 = nsrv t" for e' t2
    using reports [of "rs_me rs" t2 e'] ok(1) that by auto
  show "\<exists>t'. applier_msg ts rs t m = Inr t' \<and> failed t'"
    using c m rep [OF _ c(3)] by (auto simp: applier_msg_def report_def)
  let ?rs1 = "rs\<lparr>rs_log := (rs_log rs)(am_CommandIndex m \<mapsto> am_Command m), rs_lastApplied := am_CommandIndex m\<rparr>"
  have "rs_raft ?rs1 \<noteq> None" using raft by simp
  from make_snapshot_total [OF this] obtain rs2 where rs2: "make_snapshot senc (am_CommandIndex m) ?rs1 = Inr rs2" "rs_me rs2 = rs_me rs" by fastforce
  obtain t3 e3 where "command_err ts rs t m = Inr (t3, e3)" "e3 \<noteq> NoErr" "nsrv t3 = nsrv t"
    using c by (cases "am_CommandIndex m = rs_lastApplied rs + 1") (auto simp: command_err_def)
  then show "\<exists>rs' t'. applierSnap_msg senc sdec ts rs t m = Inr (rs', t') \<and> failed t'"
    using m rs2 rep [of e3 t3] by (auto simp: applierSnap_msg_def Let_def report_def)
qed

text \<open>All servers of a test at once.\<close>

definition all_ok :: "(int \<Rightarrow> 'c option) \<Rightarrow> (nat \<Rightarrow> int) \<Rightarrow> 'c rfsrv list \<Rightarrow> 't \<Rightarrow> bool" where
  "all_ok L la srvs t \<longleftrightarrow> nsrv t = length srvs \<and> agreed L t \<and> \<not> failed t
     \<and> (\<forall>i < length srvs. srv_ok L t (srvs ! i) \<and> rs_me (srvs ! i) = i \<and> rs_lastApplied (srvs ! i) = la i)"

lemma all_ok_step:
  assumes all: "all_ok L la srvs t" and i: "i < length srvs"
    and s: "applierSnap_msg senc sdec ts (srvs ! i) t m = Inr (rs', t')" "srv_ok L t' rs'" "agreed L t'" "nsrv t' = nsrv t"
      "failed t' = failed t" "rs_me rs' = rs_me (srvs ! i)" "\<forall>j. j \<noteq> rs_me (srvs ! i) \<longrightarrow> view t' j = view t j"
  shows "all_ok L (la(i := rs_lastApplied rs')) (srvs[i := rs']) t'"
proof -
  have "srv_ok L t' (srvs ! j)" if "j < length srvs" "j \<noteq> i" for j
  proof -
    have "srv_ok L t (srvs ! j)" "rs_me (srvs ! j) = j" "rs_me (srvs ! i) = i" using all that i by (auto simp: all_ok_def)
    then show ?thesis using s(4,7) that by (auto simp: srv_ok_def)
  qed
  then show ?thesis using all i s by (auto simp: all_ok_def nth_list_update)
qed

lemma run_msgs_accepted:
  assumes "all_ok L la srvs t" "follows senc L (length srvs) la ms" "L 0 = None" and codec: "\<And>s. senc s \<noteq> [] \<and> sdec (senc s) = Some s"
  shows "\<exists>srvs' t'. run_msgs senc sdec ts srvs t ms = Inr (srvs', t') \<and> all_ok L (la_after la ms) srvs' t' \<and> length srvs' = length srvs"
  using assms(1,2)
proof (induction ms arbitrary: la srvs t)
  case (Cons x ms)
  obtain i m where x: "x = (i, m)" by fastforce
  have i: "i < length srvs" using Cons.prems(2) x by simp
  have ok: "srv_ok L t (srvs ! i)" "agreed L t" "rs_lastApplied (srvs ! i) = la i" using Cons.prems(1) i by (auto simp: all_ok_def)
  have "\<exists>rs' t'. applierSnap_msg senc sdec ts (srvs ! i) t m = Inr (rs', t') \<and> srv_ok L t' rs' \<and> agreed L t' \<and> nsrv t' = nsrv t
      \<and> failed t' = failed t \<and> rs_me rs' = rs_me (srvs ! i) \<and> (\<forall>j. j \<noteq> rs_me (srvs ! i) \<longrightarrow> view t' j = view t j)
      \<and> follows senc L (length srvs) (la(i := rs_lastApplied rs')) ms
      \<and> rs_lastApplied rs' = (if am_SnapshotValid m then am_SnapshotIndex m else la i + 1)"
  proof (cases "next_cmd L (la i) m \<and> follows senc L (length srvs) (la(i := la i + 1)) ms")
    case True
    then show ?thesis using command_accepted [OF ok(1,2) _ assms(3), of m senc sdec] ok(3) by (auto simp: next_cmd_def)
  next
    case False
    then have "good_snap_msg senc L m" "follows senc L (length srvs) (la(i := am_SnapshotIndex m)) ms" using Cons.prems(2) x by auto
    then show ?thesis using snapshot_accepted [where senc = senc and sdec = sdec and m = m, OF ok(1,2) _ codec] by (fastforce simp: good_snap_msg_def)
  qed
  then obtain rs' t' where s: "applierSnap_msg senc sdec ts (srvs ! i) t m = Inr (rs', t')" "srv_ok L t' rs'" "agreed L t'" "nsrv t' = nsrv t"
      "failed t' = failed t" "rs_me rs' = rs_me (srvs ! i)" "\<forall>j. j \<noteq> rs_me (srvs ! i) \<longrightarrow> view t' j = view t j"
      "follows senc L (length srvs) (la(i := rs_lastApplied rs')) ms"
      "rs_lastApplied rs' = (if am_SnapshotValid m then am_SnapshotIndex m else la i + 1)" by blast
  have "follows senc L (length (srvs[i := rs'])) (la(i := rs_lastApplied rs')) ms" using s(8) by simp
  from Cons.IH [OF all_ok_step [OF Cons.prems(1) i s(1-7)] this]
  obtain srvs2 t2 where r2: "run_msgs senc sdec ts (srvs[i := rs']) t' ms = Inr (srvs2, t2)" "length srvs2 = length (srvs[i := rs'])"
    "all_ok L (la_after (la(i := rs_lastApplied rs')) ms) srvs2 t2" by blast
  have "la_after la (x # ms) = la_after (la(i := rs_lastApplied rs')) ms" using s(9) x by simp
  then show ?case using i s(1) x r2 by (simp add: slice_get_def)
qed auto

end

section \<open>The tester keeps the contract\<close>

definition rt_iface :: "('c rtest, 'c) Itester" where
  "rt_iface = \<lparr>it_CheckLogs = CheckLogs, it_IngestLog = IngestLog, it_ApplyErr = ApplyErr\<rparr>"

definition rt_view :: "'c rtest \<Rightarrow> nat \<Rightarrow> 'c logs" where
  "rt_view ts i = (if i < length (rt_srvs ts) then rv_logs (rt_srvs ts ! i) else Map.empty)"

definition rt_failed :: "'c rtest \<Rightarrow> bool" where
  "rt_failed ts \<longleftrightarrow> (\<exists>s \<in> set (rt_srvs ts). rv_applyErr s \<noteq> NoErr)"

lemma find_conflict_none:
  "(\<And>s v. s \<in> set srvs \<Longrightarrow> rv_logs s (am_CommandIndex m) = Some v \<Longrightarrow> v = am_Command m) \<Longrightarrow> find_conflict i m j srvs err = err"
  by (induction srvs arbitrary: j err) (auto simp: entry_def split: option.splits)

lemma find_conflict_keeps: "err \<noteq> NoErr \<Longrightarrow> find_conflict i m j srvs err \<noteq> NoErr"
  by (induction srvs arbitrary: j err) (auto split: option.splits)

lemma find_conflict_some:
  "s \<in> set srvs \<Longrightarrow> rv_logs s (am_CommandIndex m) = Some v \<Longrightarrow> v \<noteq> am_Command m \<Longrightarrow> find_conflict i m j srvs err \<noteq> NoErr"
  by (induction srvs arbitrary: j err) (auto simp: entry_def find_conflict_keeps)

lemma failed_update:
  "i < length ss \<Longrightarrow> rv_applyErr s' = rv_applyErr (ss ! i) \<Longrightarrow>
    (\<exists>s \<in> set (ss[i := s']). rv_applyErr s \<noteq> NoErr) \<longleftrightarrow> (\<exists>s \<in> set ss. rv_applyErr s \<noteq> NoErr)"
proof -
  assume i: "i < length ss" and s: "rv_applyErr s' = rv_applyErr (ss ! i)"
  have "map rv_applyErr (ss[i := s']) = map rv_applyErr ss" using i s by (simp add: map_update list_update_same_conv)
  then have "rv_applyErr ` set (ss[i := s']) = rv_applyErr ` set ss" by (metis set_map)
  then show ?thesis by (metis (no_types, lifting) image_iff)
qed

lemma rt_view_update:
  "i < length (rt_srvs ts) \<Longrightarrow> rt_view (ts\<lparr>rt_srvs := (rt_srvs ts)[i := s], rt_maxIndex := k\<rparr>) = (rt_view ts)(i := rv_logs s)"
  "i < length (rt_srvs ts) \<Longrightarrow> rt_view (ts\<lparr>rt_srvs := (rt_srvs ts)[i := s]\<rparr>) = (rt_view ts)(i := rv_logs s)"
  by (auto simp: rt_view_def fun_eq_iff)

interpretation rt: apply_checker rt_iface rt_view "\<lambda>ts. length (rt_srvs ts)" rt_failed
proof (unfold_locales, goal_cases)
  case (1 i t m)
  have "find_conflict i m 0 (rt_srvs t) NoErr = NoErr"
    by (rule find_conflict_none) (use 1(2) in \<open>auto simp: in_set_conv_nth rt_view_def\<close>)
  then show ?case using 1(1)
    by (simp add: rt_iface_def CheckLogs_def slice_get_def Let_def rt_view_update rt_failed_def failed_update entry_def) (simp add: rt_view_def)
next
  case (2 i t j m v)
  have "find_conflict i m 0 (rt_srvs t) NoErr \<noteq> NoErr"
    by (rule find_conflict_some [of "rt_srvs t ! j"]) (use 2 in \<open>auto simp: rt_view_def\<close>)
  then show ?case using 2(1) by (simp add: rt_iface_def CheckLogs_def slice_get_def Let_def)
next
  case (3 i t l)
  then show ?case by (simp add: rt_iface_def IngestLog_def slice_get_def rt_view_update rt_failed_def failed_update)
next
  case (4 i t e)
  then show ?case by (auto simp: rt_iface_def ApplyErr_def slice_get_def rt_failed_def intro!: bexI [OF _ set_update_memI])
qed

section \<open>Servers and tester together\<close>

definition fresh_servers :: "(nat \<Rightarrow> 'c Raft) \<Rightarrow> nat \<Rightarrow> 'c rfsrv list" where
  "fresh_servers rfs n = map (\<lambda>i. \<lparr>rs_me = i, rs_lastApplied = 0, rs_raft = Some (rfs i), rs_log = Map.empty\<rparr>) [0..<n]"

definition fresh_rtest :: "nat \<Rightarrow> 'c rtest" where
  "fresh_rtest n = \<lparr>rt_srvs = replicate n \<lparr>rv_logs = Map.empty, rv_applyErr = NoErr\<rparr>, rt_maxIndex = 0\<rparr>"

lemma fresh_all_ok: "rt.all_ok L (\<lambda>_. 0) (fresh_servers rfs n) (fresh_rtest n)"
  by (simp add: rt.all_ok_def rt.agreed_def rt.srv_ok_def fresh_servers_def fresh_rtest_def rt_view_def rt_failed_def)

text \<open>C20: whenever the messages on the apply channels follow one sequence of commands \<open>L\<close>, each server taking its next command or
  a snapshot of a beginning of \<open>L\<close>, in any interleaving, no check of a server or of the tester fails, every server holds the
  commands of \<open>L\<close> up to its last applied index, and the snapshots it makes are snapshots of \<open>L\<close>.\<close>

theorem apply_checks_pass:
  assumes m: "follows senc L n (\<lambda>_. 0) ms" and L0: "L 0 = None" and codec: "\<And>s. senc s \<noteq> [] \<and> sdec (senc s) = Some s"
  shows "\<exists>srvs' t'. run_msgs senc sdec rt_iface (fresh_servers rfs n) (fresh_rtest n) ms = Inr (srvs', t') \<and> \<not> rt_failed t'
    \<and> length srvs' = n \<and> (\<forall>i < n. \<forall>k \<le> rs_lastApplied (srvs' ! i).
        (1 \<le> k \<longrightarrow> rs_log (srvs' ! i) k = Some (L k)) \<and> snapshot_of (srvs' ! i) k = good_snap L k)"
proof -
  have len: "length (fresh_servers rfs n) = n" by (simp add: fresh_servers_def)
  obtain srvs' t' where r: "run_msgs senc sdec rt_iface (fresh_servers rfs n) (fresh_rtest n) ms = Inr (srvs', t')"
    "rt.all_ok L (la_after (\<lambda>_. 0) ms) srvs' t'" "length srvs' = n"
    using rt.run_msgs_accepted [where senc = senc and sdec = sdec, OF fresh_all_ok [of L rfs n] _ L0 codec] m unfolding len by blast
  have "rs_log (srvs' ! i) k = Some (L k)" if "i < n" "k \<le> rs_lastApplied (srvs' ! i)" "1 \<le> k" for i k
    using r(2,3) that unfolding rt.all_ok_def rt.srv_ok_def by (metis option.exhaust)
  moreover have "snapshot_of (srvs' ! i) k = good_snap L k" if "i < n" "k \<le> rs_lastApplied (srvs' ! i)" for i k
    using rt.snapshot_of_good [where L = L, OF _ L0 that(2)] r(2,3) that(1) by (auto simp: rt.all_ok_def)
  moreover have "\<not> rt_failed t'" using r(2) by (simp add: rt.all_ok_def)
  ultimately show ?thesis using r(1,3) by blast
qed

text \<open>A command that differs from what some server has already reported at its index is always reported as an error, with
  and without snapshots.\<close>

theorem apply_conflict_detected:
  assumes "rs_me rs < length (rt_srvs t)" "j < length (rt_srvs t)" "rv_logs (rt_srvs t ! j) (am_CommandIndex m) = Some v" "v \<noteq> am_Command m"
    and "am_CommandValid m" "\<not> am_SnapshotValid m" "rs_raft rs \<noteq> None"
  shows "(\<exists>t'. applier_msg rt_iface rs t m = Inr t' \<and> rt_failed t')
    \<and> (\<exists>rs' t'. applierSnap_msg senc sdec rt_iface rs t m = Inr (rs', t') \<and> rt_failed t')"
proof -
  have v: "rt_view t j (am_CommandIndex m) = Some v" using assms(2,3) by (simp add: rt_view_def)
  show ?thesis using rt.conflict_reported [OF assms(1,2) v assms(4-7)] by blast
qed

text \<open>A codec for the witnesses: the index in unary, then one byte per entry.\<close>

definition demo_senc :: "unit snap \<Rightarrow> bytes" where
  "demo_senc s = (if fst s < 0 then 1 else 0) # replicate (nat \<bar>fst s\<bar>) 1 @ 0 # map (\<lambda>x. if x = None then 0 else 1) (snd s)"

definition demo_sdec :: "bytes \<Rightarrow> unit snap option" where
  "demo_sdec b = (case b of [] \<Rightarrow> None | g # r \<Rightarrow>
     Some ((if g = 1 then - 1 else 1) * int (length (takeWhile (\<lambda>x. x = 1) r)),
           map (\<lambda>x. if x = 0 then None else Some ()) (tl (dropWhile (\<lambda>x. x = 1) r))))"

lemma demo_scodec: "demo_senc s \<noteq> [] \<and> demo_sdec (demo_senc s) = Some s"
proof -
  have t: "takeWhile (\<lambda>x. x = 1) (replicate n (1 :: 8 word) @ 0 # r) = replicate n 1" "dropWhile (\<lambda>x. x = 1) (replicate n (1 :: 8 word) @ 0 # r) = 0 # r" for n r
    by (induction n) auto
  have "map ((\<lambda>x. if x = 0 then None else Some ()) \<circ> (\<lambda>x. if x = None then 0 else 1 :: 8 word)) xs = xs" for xs
    by (induction xs) auto
  then show ?thesis by (cases s) (simp add: demo_sdec_def demo_senc_def t)
qed

definition demo_cmds :: "int \<Rightarrow> unit option" where
  "demo_cmds k = (if k = 0 then None else Some ())"

definition demo_msg :: "int \<Rightarrow> unit option \<Rightarrow> unit ApplyMsg" where
  "demo_msg k c = command_msg k \<lparr>ed_Term = 1, ed_Command = c\<rparr>"

theorem apply_checks_pass_witness:
  "\<forall>rfs. \<exists>srvs' t'. run_msgs demo_senc demo_sdec rt_iface (fresh_servers rfs 2) (fresh_rtest 2)
      [(0, demo_msg 1 (Some ())), (1, demo_msg 1 (Some ())), (0, demo_msg 2 (Some ()))] = Inr (srvs', t') \<and> \<not> rt_failed t'"
proof
  fix rfs :: "nat \<Rightarrow> unit Raft"
  have "follows demo_senc demo_cmds 2 (\<lambda>_. 0) [(0, demo_msg 1 (Some ())), (1, demo_msg 1 (Some ())), (0, demo_msg 2 (Some ()))]" "demo_cmds 0 = None"
    by (simp_all add: next_cmd_def demo_msg_def command_msg_def demo_cmds_def)
  from apply_checks_pass [where sdec = demo_sdec and rfs = rfs, OF this demo_scodec]
  show "\<exists>srvs' t'. run_msgs demo_senc demo_sdec rt_iface (fresh_servers rfs 2) (fresh_rtest 2)
      [(0, demo_msg 1 (Some ())), (1, demo_msg 1 (Some ())), (0, demo_msg 2 (Some ()))] = Inr (srvs', t') \<and> \<not> rt_failed t'" by blast
qed

theorem apply_conflict_detected_witness:
  "\<forall>rf. \<exists>t'. applier_msg rt_iface \<lparr>rs_me = 0, rs_lastApplied = 0, rs_raft = Some rf, rs_log = Map.empty\<rparr>
     \<lparr>rt_srvs = [\<lparr>rv_logs = [1 \<mapsto> Some ()], rv_applyErr = NoErr\<rparr>], rt_maxIndex = 1\<rparr> (demo_msg 1 None) = Inr t' \<and> rt_failed t'"
proof
  fix rf :: "unit Raft"
  let ?rs = "\<lparr>rs_me = 0, rs_lastApplied = 0, rs_raft = Some rf, rs_log = Map.empty\<rparr>"
  let ?t = "\<lparr>rt_srvs = [\<lparr>rv_logs = [1 \<mapsto> Some ()], rv_applyErr = NoErr\<rparr>], rt_maxIndex = 1\<rparr>"
  show "\<exists>t'. applier_msg rt_iface ?rs ?t (demo_msg 1 None) = Inr t' \<and> rt_failed t'"
    using apply_conflict_detected [of ?rs ?t 0 "demo_msg 1 None" "Some ()" demo_senc demo_sdec] by (simp add: demo_msg_def command_msg_def)
qed

text \<open>A server that is started from a persisted snapshot of \<open>L\<close> holds the commands of \<open>L\<close> up to the snapshot's index.\<close>

lemma newRfsrv_restores:
  assumes p: "ReadSnapshot ps = senc (good_snap L k)" "0 \<le> k" and codec: "\<And>s. senc s \<noteq> [] \<and> sdec (senc s) = Some s"
    and mk: "Make dec now r n srv ps = Inr rf" and i: "srv < length (rt_srvs t)"
  shows "\<exists>rs t'. newRfsrv dec sdec rt_iface now r n srv ps True t = Inr (rs, t') \<and> rs_lastApplied rs = k
    \<and> (\<forall>j. 0 \<le> j \<and> j \<le> k \<longrightarrow> rs_log rs j = Some (L j)) \<and> rt_view t' srv = rs_log rs \<and> rs_raft rs = Some rf"
proof -
  let ?rs = "\<lparr>rs_me = srv, rs_lastApplied = 0, rs_raft = Some rf, rs_log = Map.empty\<rparr>"
  obtain rs1 where r: "ingestSnap sdec (senc (good_snap L k)) (-1) ?rs = (rs1, NoErr)" "rs_me rs1 = srv" "rs_raft rs1 = Some rf"
    "rs_lastApplied rs1 = k" "rs_log rs1 = (\<lambda>j. if 0 \<le> j \<and> j \<le> k then Some (L j) else None)"
    using rt.ingest_good [where sdec = sdec and senc = senc and L = L and k = k and index = "-1" and rs = ?rs] codec p(2) by auto
  obtain t1 where "it_IngestLog rt_iface t srv (rs_log rs1) = Inr t1" "rt_view t1 = (rt_view t)(srv := rs_log rs1)"
    using rt.ingest [of srv t "rs_log rs1"] i by blast
  then show ?thesis using r p(1) codec [of "good_snap L k"] mk by (simp add: newRfsrv_def Let_def)
qed

end
