(* ===== verification/Raft_Checks.thy ===== *)
theory Raft_Checks
  imports Raft_Cluster Raft_Server
begin

text \<open>
  The checks of the Raft tests, \<open>src/src/raft1/test.go\<close>: the searches for a leader and for agreement that call \<open>GetState\<close> on one
  server after the other and read the logs that the servers reported. What a server answers at the moment it is asked is an
  argument of a check. A failed check ends the test and is the value \<open>LogFatal\<close>.

  The checks are then run on the model of the cluster: the servers are asked at different moments of one run, with any steps
  between two questions.
\<close>

section \<open>Leaders and terms\<close>

text \<open>A map from terms to the servers that lead them, in an order in which Go may go through it.\<close>

type_synonym leaders = "(int \<times> nat list) list"

fun add_leader :: "int \<Rightarrow> nat \<Rightarrow> leaders \<Rightarrow> leaders" where
  "add_leader t i [] = [(t, [i])]"
| "add_leader t i ((t', js) # ls) = (if t = t' then (t', js @ [i]) # ls else (t', js) # add_leader t i ls)"

fun gather_leaders :: "(nat \<Rightarrow> bool) \<Rightarrow> (nat \<Rightarrow> int \<times> bool) \<Rightarrow> nat list \<Rightarrow> leaders \<Rightarrow> leaders" where
  "gather_leaders conn st [] ls = ls"
| "gather_leaders conn st (i # js) ls =
     gather_leaders conn st js (if conn i \<and> snd (st i) then add_leader (fst (st i)) i ls else ls)"

fun last_term :: "leaders \<Rightarrow> int \<Rightarrow> int res" where
  "last_term [] lt = Inr lt"
| "last_term ((t, js) # ls) lt =
     (if length js > 1 then Inl (LogFatal ''multiple leaders'') else last_term ls (if t > lt then t else lt))"

text \<open>\<open>leaders[term]\<close> of a term that is not there is nil.\<close>

definition leader_of :: "leaders \<Rightarrow> int \<Rightarrow> nat res" where
  "leader_of ls t = (case map_of ls t of None \<Rightarrow> Inl IndexOutOfRange | Some js \<Rightarrow> slice_get js 0)"

fun leader_iters :: "nat \<Rightarrow> nat \<Rightarrow> (nat \<Rightarrow> nat \<Rightarrow> bool) \<Rightarrow> (nat \<Rightarrow> nat \<Rightarrow> int \<times> bool) \<Rightarrow> nat \<Rightarrow> nat res" where
  "leader_iters n it conn st 0 = Inl (LogFatal ''expected one leader, got none'')"
| "leader_iters n it conn st (Suc k) =
     (let ls = gather_leaders (conn it) (st it) [0..<n] [] in
      rbind (last_term ls (-1)) (\<lambda>lt. if ls \<noteq> [] then leader_of ls lt else leader_iters n (Suc it) conn st k))"

definition checkOneLeader :: "nat \<Rightarrow> (nat \<Rightarrow> nat \<Rightarrow> bool) \<Rightarrow> (nat \<Rightarrow> nat \<Rightarrow> int \<times> bool) \<Rightarrow> nat res" where
  "checkOneLeader n conn st = leader_iters n 0 conn st 10"

fun terms_loop :: "(nat \<Rightarrow> bool) \<Rightarrow> (nat \<Rightarrow> int \<times> bool) \<Rightarrow> nat list \<Rightarrow> int \<Rightarrow> int res" where
  "terms_loop conn st [] t = Inr t"
| "terms_loop conn st (i # js) t =
     (if conn i then
        if t = -1 then terms_loop conn st js (fst (st i))
        else if t \<noteq> fst (st i) then Inl (LogFatal ''servers disagree on term'')
        else terms_loop conn st js t
      else terms_loop conn st js t)"

definition checkTerms :: "nat \<Rightarrow> (nat \<Rightarrow> bool) \<Rightarrow> (nat \<Rightarrow> int \<times> bool) \<Rightarrow> int res" where
  "checkTerms n conn st = terms_loop conn st [0..<n] (-1)"

fun no_leader_loop :: "(nat \<Rightarrow> bool) \<Rightarrow> (nat \<Rightarrow> int \<times> bool) \<Rightarrow> nat list \<Rightarrow> unit res" where
  "no_leader_loop conn st [] = Inr ()"
| "no_leader_loop conn st (i # js) =
     (if conn i \<and> snd (st i) then Inl (LogFatal ''unexpected leader found'') else no_leader_loop conn st js)"

definition checkNoLeader :: "nat \<Rightarrow> (nat \<Rightarrow> bool) \<Rightarrow> (nat \<Rightarrow> int \<times> bool) \<Rightarrow> unit res" where
  "checkNoLeader n conn st = no_leader_loop conn st [0..<n]"

section \<open>Agreement\<close>

fun committed_loop :: "int \<Rightarrow> 'c raftServer list \<Rightarrow> nat \<Rightarrow> 'c option \<Rightarrow> (nat \<times> 'c option) res" where
  "committed_loop index [] cnt cmd = Inr (cnt, cmd)"
| "committed_loop index (rs # rss) cnt cmd =
     (if rv_applyErr rs \<noteq> NoErr then Inl (LogFatal ''apply error'')
      else case entry rs index of
        Some cmd1 \<Rightarrow>
          if cnt > 0 \<and> cmd \<noteq> cmd1 then Inl (LogFatal ''committed values do not match'')
          else committed_loop index rss (cnt + 1) cmd1
      | None \<Rightarrow> committed_loop index rss cnt cmd)"

definition nCommitted :: "'c rtest \<Rightarrow> int \<Rightarrow> (nat \<times> 'c option) res" where
  "nCommitted ts index = committed_loop index (rt_srvs ts) 0 None"

definition checkNoAgreement :: "'c rtest \<Rightarrow> int \<Rightarrow> unit res" where
  "checkNoAgreement ts index =
     rbind (nCommitted ts index) (\<lambda>(n, _). if n > 0 then Inl (LogFatal ''committed but no majority'') else Inr ())"

section \<open>What the searches compute\<close>

lemma add_leader_lookup:
  "map_of (add_leader t i ls) t' = (if t' = t then Some ((case map_of ls t of None \<Rightarrow> [] | Some js \<Rightarrow> js) @ [i]) else map_of ls t')"
  by (induction ls) auto

lemma add_leader_keys: "fst ` set (add_leader t i ls) = insert t (fst ` set ls)"
proof (induction ls)
  case (Cons x ls)
  then show ?case by (cases x) (auto simp: insert_commute)
qed simp

lemma add_leader_distinct: "distinct (map fst ls) \<Longrightarrow> distinct (map fst (add_leader t i ls))"
  using add_leader_keys by (induction ls) fastforce+

lemma gather_distinct: "distinct (map fst ls) \<Longrightarrow> distinct (map fst (gather_leaders conn st js ls))"
  by (induction js arbitrary: ls) (simp_all add: add_leader_distinct)

lemma gather_lookup:
  "map_of (gather_leaders conn st js ls) t =
     (let ms = filter (\<lambda>i. conn i \<and> st i = (t, True)) js in
      if ms = [] then map_of ls t else Some ((case map_of ls t of None \<Rightarrow> [] | Some xs \<Rightarrow> xs) @ ms))"
proof (induction js arbitrary: ls)
  case (Cons i js)
  have "st i = (t, True) \<longleftrightarrow> snd (st i) \<and> t = fst (st i)" by (cases "st i") auto
  then show ?case by (auto simp: Cons.IH Let_def add_leader_lookup split: option.splits)
qed simp

lemma last_term_result:
  assumes "distinct (map fst ls)"
  shows "last_term ls lt = (if \<exists>t js. (t, js) \<in> set ls \<and> length js > 1 then Inl (LogFatal ''multiple leaders'')
    else Inr (Max (insert lt (fst ` set ls))))"
  using assms
proof (induction ls arbitrary: lt)
  case (Cons x ls)
  obtain t js where x: "x = (t, js)" by fastforce
  have "Max (insert (if t > lt then t else lt) (fst ` set ls)) = Max (insert lt (insert t (fst ` set ls)))"
    by (cases "ls = []") (simp_all add: max_def)
  then show ?case using Cons x by auto
qed simp

lemma gather_none: "gather_leaders conn st js [] = [] \<longleftrightarrow> (\<forall>i \<in> set js. \<not> (conn i \<and> snd (st i)))"
proof -
  have empty: "m = [] \<longleftrightarrow> (\<forall>t. map_of m t = None)" for m :: leaders by (cases m) (auto intro: exI [of _ "fst (hd m)"])
  have "gather_leaders conn st js [] = [] \<longleftrightarrow> (\<forall>t. filter (\<lambda>i. conn i \<and> st i = (t, True)) js = [])"
    unfolding empty by (simp add: gather_lookup Let_def)
  also have "\<dots> \<longleftrightarrow> (\<forall>i \<in> set js. \<not> (conn i \<and> snd (st i)))" by (auto simp: filter_empty_conv) (metis prod.collapse)
  finally show ?thesis .
qed

text \<open>One iteration: if nobody has two leaders of a term to show and the terms are not negative, a leader of the highest term
  is found whenever there is one.\<close>

definition leading :: "nat \<Rightarrow> (nat \<Rightarrow> bool) \<Rightarrow> (nat \<Rightarrow> int \<times> bool) \<Rightarrow> nat \<Rightarrow> bool" where
  "leading n conn st i \<longleftrightarrow> i < n \<and> conn i \<and> snd (st i)"

text \<open>What the servers answered is sane if they named at most one leader for a term and no negative term.\<close>

definition sane :: "nat \<Rightarrow> (nat \<Rightarrow> bool) \<Rightarrow> (nat \<Rightarrow> int \<times> bool) \<Rightarrow> bool" where
  "sane n conn st \<longleftrightarrow> (\<forall>i j. leading n conn st i \<longrightarrow> leading n conn st j \<longrightarrow> fst (st i) = fst (st j) \<longrightarrow> i = j)
     \<and> (\<forall>i. leading n conn st i \<longrightarrow> 0 \<le> fst (st i))"

lemma saneD:
  "sane n conn st \<Longrightarrow> leading n conn st i \<Longrightarrow> leading n conn st j \<Longrightarrow> fst (st i) = fst (st j) \<Longrightarrow> i = j"
  "sane n conn st \<Longrightarrow> leading n conn st i \<Longrightarrow> 0 \<le> fst (st i)"
  unfolding sane_def by blast+

lemma gather_key:
  "map_of (gather_leaders conn st [0..<n] []) t = Some js \<longleftrightarrow>
     js \<noteq> [] \<and> js = filter (\<lambda>i. conn i \<and> st i = (t, True)) [0..<n]"
  by (auto simp: gather_lookup Let_def)

lemma gather_member:
  "map_of (gather_leaders conn st [0..<n] []) t = Some js \<Longrightarrow> i \<in> set js \<Longrightarrow> leading n conn st i \<and> fst (st i) = t"
  by (auto simp: gather_key leading_def)

lemma gather_leading:
  assumes "leading n conn st i"
  shows "\<exists>js. map_of (gather_leaders conn st [0..<n] []) (fst (st i)) = Some js"
proof -
  have "st i = (fst (st i), True)" using assms by (cases "st i") (simp add: leading_def)
  then have "i \<in> set (filter (\<lambda>j. conn j \<and> st j = (fst (st i), True)) [0..<n])" using assms by (simp add: leading_def)
  then show ?thesis unfolding gather_key by (metis empty_iff list.set(1))
qed

lemma gather_single:
  assumes one: "sane n conn st" and js: "map_of (gather_leaders conn st [0..<n] []) t = Some js"
  shows "length js \<le> 1"
proof -
  have "i = j" if "i \<in> set js" "j \<in> set js" for i j
    using gather_member [OF js that(1)] gather_member [OF js that(2)] saneD(1) [OF one] by simp
  then have "card (set js) \<le> Suc 0" by (subst card_le_Suc0_iff_eq) auto
  moreover have "distinct js" using js unfolding gather_key by simp
  ultimately show ?thesis by (simp add: distinct_card)
qed

lemma gather_keys:
  "fst ` set (gather_leaders conn st [0..<n] []) = (\<lambda>i. fst (st i)) ` {i. leading n conn st i}"
proof (intro set_eqI iffI)
  fix t assume "t \<in> fst ` set (gather_leaders conn st [0..<n] [])"
  then obtain js where js: "map_of (gather_leaders conn st [0..<n] []) t = Some js" by (metis map_of_eq_None_iff not_Some_eq)
  then have "js \<noteq> []" using gather_key by blast
  then have "hd js \<in> set js" by simp
  from gather_member [OF js this] show "t \<in> (\<lambda>i. fst (st i)) ` {i. leading n conn st i}" by auto
next
  fix t assume "t \<in> (\<lambda>i. fst (st i)) ` {i. leading n conn st i}"
  then obtain i where i: "leading n conn st i" "t = fst (st i)" by blast
  from gather_leading [OF i(1)] show "t \<in> fst ` set (gather_leaders conn st [0..<n] [])"
    by (metis i(2) map_of_eq_None_iff option.distinct(1))
qed

lemma leader_found:
  assumes sane: "sane n conn st" and some: "leading n conn st k"
  shows "\<exists>lt i. last_term (gather_leaders conn st [0..<n] []) (-1) = Inr lt
    \<and> leader_of (gather_leaders conn st [0..<n] []) lt = Inr i \<and> leading n conn st i
    \<and> (\<forall>j. leading n conn st j \<longrightarrow> fst (st j) \<le> fst (st i))"
proof -
  define ls where "ls = gather_leaders conn st [0..<n] []"
  have d: "distinct (map fst ls)" by (simp add: ls_def gather_distinct)
  have short: "\<not> (\<exists>t js. (t, js) \<in> set ls \<and> length js > 1)"
  proof clarify
    fix t js assume "(t, js) \<in> set ls" and long: "length js > 1"
    then have js: "map_of (gather_leaders conn st [0..<n] []) t = Some js" using map_of_is_SomeI [OF d] by (simp add: ls_def)
    show False using gather_single [OF sane js] long by simp
  qed
  define lt where "lt = Max (insert (-1) (fst ` set ls))"
  have ge: "fst (st j) \<le> lt" if "leading n conn st j" for j
  proof -
    have "finite (insert (-1) (fst ` set ls))" by simp
    moreover have "fst (st j) \<in> insert (-1) (fst ` set ls)" using that unfolding ls_def gather_keys by blast
    ultimately show ?thesis unfolding lt_def by (rule Max_ge)
  qed
  have "lt \<noteq> -1" using ge [OF some] saneD(2) [OF sane some] by linarith
  moreover have "lt \<in> insert (-1) (fst ` set ls)" unfolding lt_def by (rule Max_in) auto
  ultimately obtain i0 where i0: "leading n conn st i0" "lt = fst (st i0)" unfolding ls_def gather_keys by blast
  obtain js where js: "map_of ls lt = Some js" using gather_leading [OF i0(1)] i0(2) by (auto simp: ls_def)
  then have ne: "js \<noteq> []" unfolding ls_def using gather_key by blast
  have h: "leading n conn st (hd js)" "fst (st (hd js)) = lt" using gather_member [of conn st n lt js "hd js"] js ne by (simp_all add: ls_def)
  have "leader_of ls lt = Inr (hd js)" using js ne by (simp add: leader_of_def slice_get_def idx_ok_def hd_conv_nth)
  moreover have "last_term ls (-1) = Inr lt" using last_term_result [OF d, of "-1"] short by (simp add: lt_def)
  ultimately show ?thesis using h ge unfolding ls_def by auto
qed

section \<open>The leader check on a cluster\<close>

lemma vote_step_term: "vote_step n s t \<Longrightarrow> currentTerm (nodes s i) \<le> currentTerm (nodes t i)"
proof (induction rule: vote_step.induct)
  case (reply j a rep s c now r rf' v)
  then show ?case using handleVoteReply_counts(1) [OF reply(4)] by (simp add: vote_grows_def)
qed (auto simp: grows_def dest!: ticker_grows RequestVote_grows)

lemma cluster_step_term: "cluster_step n s t \<Longrightarrow> currentTerm (nodes s i) \<le> currentTerm (nodes t i)"
proof (induction rule: cluster_step.induct)
  case (local j ev s rf')
  then show ?case using peer_step_grows by (auto simp: grows_def)
qed (auto simp: persistent_def vote_step_term)

lemma vote_step_votes: "vote_step n s t \<Longrightarrow> more_votes s t"
  by (induction rule: vote_step.induct) (auto simp: more_votes_def voted_def)

lemma cluster_step_votes: "cluster_step n s t \<Longrightarrow> more_votes s t"
  by (induction rule: cluster_step.induct) (auto simp: vote_step_votes, auto simp: more_votes_def voted_def)

lemma cluster_steps_mono:
  assumes "(cluster_step n)\<^sup>*\<^sup>* s t"
  shows "currentTerm (nodes s i) \<le> currentTerm (nodes t i)" "voters n s u c \<subseteq> voters n t u c"
  using assms
proof (induction rule: rtranclp_induct)
  case (step y z)
  { case 1 show ?case using step.IH(1) cluster_step_term [OF step.hyps(2), of i] by simp }
  { case 2 show ?case using step.IH(2) cluster_step_votes [OF step.hyps(2)] by (auto simp: more_votes_def voters_def) }
qed auto

text \<open>Election safety over time: a leader of a term now and one of the same term later are the same server.\<close>

lemma leaders_over_time:
  assumes run: "reach (cluster_init n) (cluster_step n) s" "(cluster_step n)\<^sup>*\<^sup>* s t"
    and c: "c < n" "rstate (nodes s c) = LEADER" and d: "d < n" "rstate (nodes t d) = LEADER"
    and eq: "currentTerm (nodes s c) = currentTerm (nodes t d)"
  shows "c = d"
proof -
  note inv = election.reach_inv [OF run(1)] and inv' = election.reach_inv [OF reach_steps [OF run]]
  have q: "vote_quorum n (voters n t (currentTerm (nodes s c)) c)"
    using vote_quorum_mono [OF election_invD(7) [OF inv c] cluster_steps_mono(2) [OF run(2)]] by simp
  from vq.common_member [OF q election_invD(7) [OF inv' d]]
  obtain j where "j < n" "voted t j (currentTerm (nodes s c)) c" "voted t j (currentTerm (nodes t d)) d"
    by (auto simp: voters_def)
  then show ?thesis using election_invD(5) [OF inv'] eq by metis
qed

text \<open>The states a check sees: the \<open>k\<close>th question of a check is asked in the state \<open>S k\<close>.\<close>

definition asked_along :: "nat \<Rightarrow> (nat \<Rightarrow> 'c cluster) \<Rightarrow> bool" where
  "asked_along n S \<longleftrightarrow> reach (cluster_init n) (cluster_step n) (S 0) \<and> (\<forall>k. (cluster_step n)\<^sup>*\<^sup>* (S k) (S (Suc k)))"

definition answers :: "nat \<Rightarrow> (nat \<Rightarrow> 'c cluster) \<Rightarrow> nat \<Rightarrow> nat \<Rightarrow> int \<times> bool" where
  "answers n S it i = GetState (nodes (S (it * n + i)) i)"

lemma asked_steps: "asked_along n S \<Longrightarrow> j \<le> k \<Longrightarrow> (cluster_step n)\<^sup>*\<^sup>* (S j) (S k)"
  by (induction k) (auto simp: asked_along_def le_Suc_eq intro: rtranclp_trans)

lemma answers_one_leader:
  assumes S: "asked_along n S" and i: "leading n (conn it) (answers n S it) i" and j: "leading n (conn it) (answers n S it) j"
    and eq: "fst (answers n S it i) = fst (answers n S it j)"
  shows "i = j"
proof -
  have r: "reach (cluster_init n) (cluster_step n) (S k)" for k
    using reach_steps asked_steps [OF S, of 0 k] S by (auto simp: asked_along_def)
  have same: "a = b" if "a \<le> b" "leading n (conn it) (answers n S it) a" "leading n (conn it) (answers n S it) b"
      "fst (answers n S it a) = fst (answers n S it b)" for a b
    using leaders_over_time [OF r [of "it * n + a"] asked_steps [OF S, of "it * n + a" "it * n + b"], of a b] that
    by (simp add: leading_def answers_def GetState_def)
  show ?thesis using same [of i j] same [of j i] i j eq by (cases "i \<le> j") auto
qed

lemma answers_terms:
  assumes "asked_along n S" "\<And>i. i < n \<Longrightarrow> 0 \<le> currentTerm (nodes (S 0) i)" "i < n"
  shows "0 \<le> fst (answers n S it i)"
  using cluster_steps_mono(1) [OF asked_steps [OF assms(1), of 0 "it * n + i"], of i] assms(2) [OF assms(3)]
  by (simp add: answers_def GetState_def)

lemma leader_iters_result:
  assumes sane: "\<And>it. sane n (conn it) (st it)"
  shows "(\<exists>it' i. leader_iters n it conn st k = Inr i \<and> it' < it + k \<and> leading n (conn it') (st it') i
      \<and> (\<forall>j. leading n (conn it') (st it') j \<longrightarrow> fst (st it' j) \<le> fst (st it' i)))
    \<or> leader_iters n it conn st k = Inl (LogFatal ''expected one leader, got none'')
      \<and> (\<forall>it' i. it \<le> it' \<and> it' < it + k \<longrightarrow> \<not> leading n (conn it') (st it') i)"
proof (induction k arbitrary: it)
  case (Suc k)
  show ?case
  proof (cases "\<exists>i. leading n (conn it) (st it) i")
    case True
    then obtain i0 where "leading n (conn it) (st it) i0" by blast
    from leader_found [OF sane this]
    obtain lt i where r: "last_term (gather_leaders (conn it) (st it) [0..<n] []) (- 1) = Inr lt"
      "leader_of (gather_leaders (conn it) (st it) [0..<n] []) lt = Inr i" "leading n (conn it) (st it) i"
      "\<forall>j. leading n (conn it) (st it) j \<longrightarrow> fst (st it j) \<le> fst (st it i)" by blast
    have "gather_leaders (conn it) (st it) [0..<n] [] \<noteq> []" using True unfolding gather_none by (auto simp: leading_def)
    then have "leader_iters n it conn st (Suc k) = Inr i" using r by (simp add: Let_def)
    then show ?thesis using r(3,4) by (intro disjI1 exI [of _ it] exI [of _ i]) simp
  next
    case False
    then have "gather_leaders (conn it) (st it) [0..<n] [] = []" unfolding gather_none by (auto simp: leading_def)
    then have eq: "leader_iters n it conn st (Suc k) = leader_iters n (Suc it) conn st k" by (simp add: Let_def)
    have "it = it' \<or> Suc it \<le> it'" if "it \<le> it'" for it' using that by auto
    then show ?thesis unfolding eq using Suc.IH [of "Suc it"] False by (metis add_Suc add_Suc_right)
  qed
qed auto

text \<open>C21: run against a cluster, with the servers asked one after the other at any moments of a run and any of them connected,
  \<open>checkOneLeader\<close> never reports two leaders of a term and never indexes an empty slice: it returns a connected server that was
  a leader when it was asked, of the highest term among those asked with it, or fails because none of the servers it
  asked was a leader. This is for servers that come back from a crash with the term and vote they had; a server that comes back
  without a vote it has granted can vote twice in a term, and then there can be two leaders.\<close>

theorem checkOneLeader_correct:
  assumes S: "asked_along n S" and pos: "\<And>i. i < n \<Longrightarrow> 0 \<le> currentTerm (nodes (S 0) i)"
  shows "(\<exists>it i. checkOneLeader n conn (answers n S) = Inr i \<and> it < 10 \<and> i < n \<and> conn it i \<and> rstate (nodes (S (it * n + i)) i) = LEADER
      \<and> (\<forall>j < n. conn it j \<and> rstate (nodes (S (it * n + j)) j) = LEADER
            \<longrightarrow> currentTerm (nodes (S (it * n + j)) j) \<le> currentTerm (nodes (S (it * n + i)) i)))
    \<or> checkOneLeader n conn (answers n S) = Inl (LogFatal ''expected one leader, got none'')
      \<and> (\<forall>it < 10. \<forall>i < n. conn it i \<longrightarrow> rstate (nodes (S (it * n + i)) i) \<noteq> LEADER)"
proof -
  have "sane n (conn it) (answers n S it)" for it
    unfolding sane_def using answers_one_leader [OF S, of conn it] answers_terms [OF S pos] leading_def by blast
  from leader_iters_result [of n conn "answers n S" 0 10, OF this]
  show ?thesis unfolding checkOneLeader_def leading_def answers_def GetState_def by auto
qed

theorem checkOneLeader_correct_witness:
  "\<exists>S :: nat \<Rightarrow> nat cluster. asked_along 3 S \<and> checkOneLeader 3 (\<lambda>_ i. i = 0) (answers 3 S) = Inr 0"
proof -
  obtain s where s: "(cluster_step 3)\<^sup>*\<^sup>* demo_cluster s" "rstate (nodes s 0) = LEADER" using demo_leader_steps by blast
  define S where "S k = (if k = 0 then demo_cluster else s)" for k :: nat
  have S: "asked_along 3 S"
    using s(1) reach_init [where init = "cluster_init 3" and s = demo_cluster, OF demo_cluster_init] by (simp add: asked_along_def S_def)
  have pos: "0 \<le> currentTerm (nodes (S 0) i)" for i by (simp add: S_def demo_cluster_def demo_fresh_def)
  have "rstate (nodes (S (1 * 3 + 0)) 0) = LEADER" using s(2) by (simp add: S_def)
  then have "checkOneLeader 3 (\<lambda>_ i. i = 0) (answers 3 S) = Inr 0"
    using checkOneLeader_correct [OF S pos, of "\<lambda>_ i. i = 0"] by (auto dest: spec [of _ 1])
  with S show ?thesis by blast
qed

section \<open>The agreement check on the servers\<close>

lemma committed_loop_result:
  assumes "\<forall>rs \<in> set rss. rv_applyErr rs = NoErr \<and> (\<forall>v. rv_logs rs index = Some v \<longrightarrow> v = x)" "cnt > 0 \<longrightarrow> cmd = x"
  shows "committed_loop index rss cnt cmd =
    (let k = length (filter (\<lambda>rs. rv_logs rs index \<noteq> None) rss) in Inr (cnt + k, if k > 0 then x else cmd))"
  using assms
proof (induction rss arbitrary: cnt cmd)
  case (Cons rs rss)
  show ?case
  proof (cases "rv_logs rs index")
    case None
    then show ?thesis using Cons.IH [of cnt cmd] Cons.prems by (auto simp: entry_def Let_def)
  next
    case (Some v)
    then show ?thesis using Cons.IH [of "cnt + 1" x] Cons.prems by (auto simp: entry_def Let_def)
  qed
qed simp

text \<open>After any interleaving of deliveries that follow one sequence \<open>L\<close> of commands, \<open>nCommitted\<close> does not fail at any index: it
  counts exactly the servers that hold an entry there, and the command it returns with a positive count is that of \<open>L\<close>;
  \<open>checkNoAgreement\<close> passes exactly when no server holds one.\<close>

theorem nCommitted_counts:
  assumes m: "follows senc L n (\<lambda>_. 0) ms" and L0: "L 0 = None" and codec: "\<And>s. senc s \<noteq> [] \<and> sdec (senc s) = Some s"
    and run: "run_msgs senc sdec rt_iface (fresh_servers rfs n) (fresh_rtest n) ms = Inr (srvs', t')"
  shows "nCommitted t' index = (let k = card {i. i < n \<and> rs_log (srvs' ! i) index \<noteq> None} in Inr (k, if k > 0 then L index else None))
    \<and> (checkNoAgreement t' index = Inr () \<longleftrightarrow> (\<forall>i < n. rs_log (srvs' ! i) index = None))"
proof -
  have len: "length (fresh_servers rfs n) = n" by (simp add: fresh_servers_def)
  obtain la' where ok: "rt.all_ok L la' srvs' t'" and n: "length srvs' = n"
    using rt.run_msgs_accepted [where senc = senc and sdec = sdec, OF fresh_all_ok [of L rfs n] _ L0 codec] m run unfolding len by fastforce
  have lt: "length (rt_srvs t') = n" and log: "\<And>i. i < n \<Longrightarrow> rv_logs (rt_srvs t' ! i) = rs_log (srvs' ! i)"
    using ok n by (auto simp: rt.all_ok_def rt.srv_ok_def rt_view_def)
  have "rv_applyErr rs = NoErr" if "rs \<in> set (rt_srvs t')" for rs using ok that by (auto simp: rt.all_ok_def rt_failed_def)
  moreover have "v = L index" if "rs \<in> set (rt_srvs t')" "rv_logs rs index = Some v" for rs v
    using ok that by (auto simp: rt.all_ok_def rt.agreed_def rt_view_def in_set_conv_nth)
  ultimately have "\<forall>rs \<in> set (rt_srvs t'). rv_applyErr rs = NoErr \<and> (\<forall>v. rv_logs rs index = Some v \<longrightarrow> v = L index)" by blast
  then have c: "nCommitted t' index =
      (let k = length (filter (\<lambda>rs. rv_logs rs index \<noteq> None) (rt_srvs t')) in Inr (k, if k > 0 then L index else None))"
    unfolding nCommitted_def using committed_loop_result [of "rt_srvs t'" index "L index" 0 None] by simp
  have k: "length (filter (\<lambda>rs. rv_logs rs index \<noteq> None) (rt_srvs t')) = card {i. i < n \<and> rs_log (srvs' ! i) index \<noteq> None}"
    unfolding length_filter_conv_card lt by (rule arg_cong [where f = card]) (use log in auto)
  have *: "nCommitted t' index = (let k = card {i. i < n \<and> rs_log (srvs' ! i) index \<noteq> None} in Inr (k, if k > 0 then L index else None))"
    using c unfolding k .
  have "0 < card {i. i < n \<and> rs_log (srvs' ! i) index \<noteq> None} \<longleftrightarrow> \<not> (\<forall>i < n. rs_log (srvs' ! i) index = None)"
    by (auto simp: card_gt_0_iff)
  then have "checkNoAgreement t' index = Inr () \<longleftrightarrow> (\<forall>i < n. rs_log (srvs' ! i) index = None)"
    unfolding checkNoAgreement_def * Let_def by (auto split: if_splits)
  with * show ?thesis by blast
qed

definition demo_deliveries :: "(nat \<times> unit ApplyMsg) list" where
  "demo_deliveries = [(0, demo_msg 1 (Some ())), (1, demo_msg 1 (Some ())), (0, demo_msg 2 (Some ()))]"

lemma demo_follows: "follows demo_senc demo_cmds 2 (\<lambda>_. 0) demo_deliveries"
  by (simp add: demo_deliveries_def next_cmd_def demo_msg_def command_msg_def demo_cmds_def)

theorem nCommitted_counts_witness:
  "\<forall>rfs. \<exists>srvs' t'. run_msgs demo_senc demo_sdec rt_iface (fresh_servers rfs 2) (fresh_rtest 2) demo_deliveries = Inr (srvs', t')
     \<and> nCommitted t' 2 = (let k = card {i. i < 2 \<and> rs_log (srvs' ! i) 2 \<noteq> None} in Inr (k, if k > 0 then Some () else None))"
proof
  fix rfs :: "nat \<Rightarrow> unit Raft"
  have L0: "demo_cmds 0 = None" by (simp add: demo_cmds_def)
  have len: "length (fresh_servers rfs 2) = 2" by (simp add: fresh_servers_def)
  obtain srvs' t' where r: "run_msgs demo_senc demo_sdec rt_iface (fresh_servers rfs 2) (fresh_rtest 2) demo_deliveries = Inr (srvs', t')"
    using rt.run_msgs_accepted [where senc = demo_senc and sdec = demo_sdec and srvs = "fresh_servers rfs 2", OF fresh_all_ok [of demo_cmds rfs 2] _ L0 demo_scodec]
      demo_follows unfolding len by blast
  have L2: "demo_cmds 2 = Some ()" by (simp add: demo_cmds_def)
  from nCommitted_counts [where senc = demo_senc and sdec = demo_sdec, OF demo_follows L0 demo_scodec r, of 2] r
  show "\<exists>srvs' t'. run_msgs demo_senc demo_sdec rt_iface (fresh_servers rfs 2) (fresh_rtest 2) demo_deliveries = Inr (srvs', t')
     \<and> nCommitted t' 2 = (let k = card {i. i < 2 \<and> rs_log (srvs' ! i) 2 \<noteq> None} in Inr (k, if k > 0 then Some () else None))"
    unfolding L2 by blast
qed

section \<open>Starting a command through the proxy\<close>

text \<open>A lost answer does not mean that the command was not accepted: the tester is told index 0 and no leader, and the leader's log has
  the command.\<close>

lemma rfp_Start_answer_lost:
  assumes "rs_raft rs = Some rf" "rstate rf = LEADER"
  shows "\<exists>rs' rf'. rfp_Start True False c rs = (rs', 0, 0, False) \<and> rs_raft rs' = Some rf'
    \<and> rlog rf' = rlog rf @ [\<lparr>ed_Term = currentTerm rf, ed_Command = Some c\<rparr>]"
  using assms by (simp add: rfp_Start_def StartRPC_def rs_Start_def getraft_def Start_def Let_def)

end
