(* ===== verification/Raft_One.thy ===== *)
theory Raft_One
  imports Raft_Checks
begin

text \<open>
  The two checks of \<open>src/src/raft1/test.go\<close> that wait for an agreement: \<open>one\<close>, which submits a command and waits until enough servers
  have committed it, and \<open>wait\<close>, which waits for an index. What the tester sees while it waits, of the connections, of the answers to \<open>Start\<close>
  and \<open>GetState\<close> and of its copy of the logs, is an argument, one observation for each time it looks.
\<close>

section \<open>Submitting a command and waiting for it\<close>

text \<open>The search for a server that takes the command: \<open>conn i\<close>, that server \<open>i\<close> is connected; \<open>start i\<close>, its answer to \<open>Start\<close>, or \<open>None\<close> when it
  is not running. The number \<open>starts\<close> of the server tried last goes on to the next search.\<close>

fun try_servers :: "nat \<Rightarrow> (nat \<Rightarrow> bool) \<Rightarrow> (nat \<Rightarrow> (int \<times> int \<times> bool) option) \<Rightarrow> nat \<Rightarrow> nat \<Rightarrow> nat \<times> int" where
  "try_servers n conn start starts 0 = (starts, -1)"
| "try_servers n conn start starts (Suc k) =
     (let s = (starts + 1) mod n in
      case (if conn s then start s else None) of
        Some (index1, _, ok) \<Rightarrow> if ok then (s, index1) else try_servers n conn start s k
      | None \<Rightarrow> try_servers n conn start s k)"

text \<open>The two seconds in which the tester looks for the command at \<open>index\<close>, every 20 milliseconds.\<close>

fun poll_agreement :: "'c option \<Rightarrow> nat \<Rightarrow> int \<Rightarrow> 'c rtest list \<Rightarrow> bool res" where
  "poll_agreement cmd expectedServers index [] = Inr False"
| "poll_agreement cmd expectedServers index (ts # tss) =
     rbind (nCommitted ts index) (\<lambda>(nd, cmd1).
     if nd > 0 \<and> nd \<ge> expectedServers \<and> cmd1 = cmd then Inr True else poll_agreement cmd expectedServers index tss)"

record 'c one_round =
  or_finished :: bool
  or_conn :: "nat \<Rightarrow> bool"
  or_start :: "nat \<Rightarrow> (int \<times> int \<times> bool) option"
  or_polls :: "'c rtest list"

text \<open>The rounds that fit in ten seconds; \<open>fin\<close> says whether the test is over after them.\<close>

fun one_loop :: "nat \<Rightarrow> 'c option \<Rightarrow> nat \<Rightarrow> bool \<Rightarrow> bool \<Rightarrow> nat \<Rightarrow> 'c one_round list \<Rightarrow> int res" where
  "one_loop n cmd expectedServers retry fin starts [] =
     (if \<not> fin then Inl (LogFatal ''failed to reach agreement'') else Inr (-1))"
| "one_loop n cmd expectedServers retry fin starts (r # rs) =
     (if or_finished r then Inr (-1)
      else case try_servers n (or_conn r) (or_start r) starts n of
        (starts', index) \<Rightarrow>
          if index \<noteq> -1
          then rbind (poll_agreement cmd expectedServers index (or_polls r)) (\<lambda>agreed.
               if agreed then Inr index
               else if \<not> retry then Inl (LogFatal ''failed to reach agreement'')
               else one_loop n cmd expectedServers retry fin starts' rs)
          else one_loop n cmd expectedServers retry fin starts' rs)"

definition rt_one :: "nat \<Rightarrow> 'c option \<Rightarrow> nat \<Rightarrow> bool \<Rightarrow> bool \<Rightarrow> 'c one_round list \<Rightarrow> int res" where
  "rt_one n cmd expectedServers retry fin rounds = one_loop n cmd expectedServers retry fin 0 rounds"

section \<open>Waiting for an index\<close>

text \<open>\<open>terms\<close>: what the servers answer to \<open>GetState\<close>, and \<open>None\<close> for a server that is not running.\<close>

fun moved_on :: "int \<Rightarrow> int option list \<Rightarrow> bool res" where
  "moved_on startTerm [] = Inr False"
| "moved_on startTerm (t # ts) =
     (case t of None \<Rightarrow> Inl NilDereference | Some t1 \<Rightarrow> if t1 > startTerm then Inr True else moved_on startTerm ts)"

text \<open>The iterations: \<open>Inr True\<close> when a server is in a later term, so that \<open>wait\<close> gives up.\<close>

fun wait_loop :: "int \<Rightarrow> nat \<Rightarrow> int \<Rightarrow> ('c rtest \<times> int option list) list \<Rightarrow> bool res" where
  "wait_loop index n startTerm [] = Inr False"
| "wait_loop index n startTerm ((ts, terms) # obs) =
     rbind (nCommitted ts index) (\<lambda>(nd, _).
     if nd \<ge> n then Inr False
     else rbind (if startTerm > -1 then moved_on startTerm terms else Inr False) (\<lambda>moved.
          if moved then Inr True else wait_loop index n startTerm obs))"

text \<open>\<open>None\<close> is the answer \<open>-1\<close>. \<open>final\<close> is the tester's copy of the logs after the iterations, of which there are at most 30.\<close>

definition rt_wait :: "int \<Rightarrow> nat \<Rightarrow> int \<Rightarrow> ('c rtest \<times> int option list) list \<Rightarrow> 'c rtest \<Rightarrow> 'c option option res" where
  "rt_wait index n startTerm obs final =
     rbind (wait_loop index n startTerm (take 30 obs)) (\<lambda>moved.
     if moved then Inr None
     else rbind (nCommitted final index) (\<lambda>(nd, cmd).
          if nd < n then Inl (LogFatal ''only nd decided for index'') else Inr (Some cmd)))"

section \<open>What the answers mean\<close>

text \<open>The servers that hold \<open>cmd\<close> at \<open>index\<close>.\<close>

definition holders :: "'c rtest \<Rightarrow> int \<Rightarrow> 'c option \<Rightarrow> nat" where
  "holders ts index cmd = length (filter (\<lambda>rs. entry rs index = Some cmd) (rt_srvs ts))"

lemma committed_loop_counts:
  assumes "committed_loop index rss cnt cmd = Inr (nd, cmd')" "nd > 0"
  shows "nd = cnt + length (filter (\<lambda>rs. entry rs index = Some cmd') rss) \<and> (cnt > 0 \<longrightarrow> cmd' = cmd)"
  using assms
proof (induction rss arbitrary: cnt cmd)
  case (Cons rs rss)
  show ?case
  proof (cases "entry rs index")
    case None
    then show ?thesis using Cons by (simp split: if_splits)
  next
    case (Some c)
    then have "committed_loop index rss (cnt + 1) c = Inr (nd, cmd')" "cnt > 0 \<longrightarrow> c = cmd" using Cons.prems by (auto split: if_splits)
    then show ?thesis using Cons.IH Cons.prems(2) Some by fastforce
  qed
qed simp

text \<open>A count that \<open>nCommitted\<close> returns is the number of servers that hold the command it returns.\<close>

lemma nCommitted_holders: "nCommitted ts index = Inr (nd, cmd) \<Longrightarrow> nd > 0 \<Longrightarrow> holders ts index cmd = nd"
  using committed_loop_counts [of index "rt_srvs ts" 0 None nd cmd] by (simp add: nCommitted_def holders_def)

lemma try_servers_ok:
  assumes "try_servers n conn start starts k = (s, index)" "index \<noteq> -1"
  shows "conn s \<and> (\<exists>t. start s = Some (index, t, True)) \<and> (0 < n \<longrightarrow> s < n)"
  using assms by (induction k arbitrary: starts) (auto simp: Let_def split: option.splits if_splits prod.splits)

lemma poll_agreement_ok:
  assumes "poll_agreement cmd k index tss = Inr True"
  shows "\<exists>ts \<in> set tss. k \<le> holders ts index cmd \<and> 0 < holders ts index cmd"
  using assms
proof (induction tss)
  case (Cons ts tss)
  then obtain nd cmd1 where nc: "nCommitted ts index = Inr (nd, cmd1)" by (auto simp: rbind_eq_Inr)
  show ?case
  proof (cases "nd > 0 \<and> nd \<ge> k \<and> cmd1 = cmd")
    case True
    then have "holders ts index cmd = nd" using nCommitted_holders nc by blast
    then show ?thesis using True by auto
  next
    case False
    then have "poll_agreement cmd k index tss = Inr True" using Cons.prems nc by (simp split: if_splits)
    then show ?thesis using Cons.IH by auto
  qed
qed simp

text \<open>A round in which a connected server took the command as leader and named \<open>index\<close>, and afterwards at least \<open>k\<close> servers, and at least one,
  had committed it there.\<close>

definition agreed_round :: "'c option \<Rightarrow> nat \<Rightarrow> int \<Rightarrow> 'c one_round \<Rightarrow> bool" where
  "agreed_round cmd k index r \<longleftrightarrow> \<not> or_finished r \<and> (\<exists>s t. or_conn r s \<and> or_start r s = Some (index, t, True))
     \<and> (\<exists>ts \<in> set (or_polls r). k \<le> holders ts index cmd \<and> 0 < holders ts index cmd)"

lemma one_loop_agrees:
  assumes "one_loop n cmd k retry fin starts rounds = Inr index"
  shows "index = -1 \<and> (fin \<or> (\<exists>r \<in> set rounds. or_finished r)) \<or> (\<exists>r \<in> set rounds. agreed_round cmd k index r)"
  using assms
proof (induction rounds arbitrary: starts)
  case Nil
  then show ?case by (simp split: if_splits)
next
  case (Cons r rs)
  obtain s i where t: "try_servers n (or_conn r) (or_start r) starts n = (s, i)" by fastforce
  have loop: "(if or_finished r then Inr (-1) else if i \<noteq> -1
      then rbind (poll_agreement cmd k i (or_polls r)) (\<lambda>agreed. if agreed then Inr i
        else if \<not> retry then Inl (LogFatal ''failed to reach agreement'') else one_loop n cmd k retry fin s rs)
      else one_loop n cmd k retry fin s rs) = Inr index"
    using Cons.prems unfolding one_loop.simps t prod.case .
  have "or_finished r \<and> index = -1 \<or> \<not> or_finished r \<and> i \<noteq> -1 \<and> poll_agreement cmd k i (or_polls r) = Inr True \<and> index = i
      \<or> one_loop n cmd k retry fin s rs = Inr index"
  proof (cases "or_finished r \<or> i = -1")
    case True
    then show ?thesis using loop by (auto simp del: one_loop.simps split: if_splits)
  next
    case False
    then obtain b where "poll_agreement cmd k i (or_polls r) = Inr b" using loop by (auto simp: rbind_eq_Inr simp del: one_loop.simps)
    then show ?thesis using loop False by (cases b; cases retry) (simp_all del: one_loop.simps)
  qed
  then consider (over) "or_finished r" "index = -1"
    | (here) "\<not> or_finished r" "i \<noteq> -1" "poll_agreement cmd k i (or_polls r) = Inr True" "index = i"
    | (later) "one_loop n cmd k retry fin s rs = Inr index" by blast
  then show ?case
  proof cases
    case here
    have "agreed_round cmd k index r"
      unfolding agreed_round_def here(4) using here(1) try_servers_ok [OF t here(2)] poll_agreement_ok [OF here(3)] by blast
    then show ?thesis by simp
  next
    case later
    from Cons.IH [OF this] show ?thesis by auto
  qed simp
qed

text \<open>When \<open>one\<close> returns an index, a connected server had taken the command as leader and named that index, and afterwards at least the expected
  number of servers, and at least one, had committed this very command there. It returns \<open>-1\<close> without that only when the test is over.\<close>

theorem one_agrees:
  assumes "rt_one n cmd k retry fin rounds = Inr index"
  shows "index = -1 \<and> (fin \<or> (\<exists>r \<in> set rounds. or_finished r)) \<or> (\<exists>r \<in> set rounds. agreed_round cmd k index r)"
  using one_loop_agrees assms unfolding rt_one_def by blast

text \<open>\<open>wait\<close> returns a command only when at least \<open>n\<close> servers hold it, and gives up only on a server in a later term.\<close>

theorem wait_agrees:
  assumes "rt_wait index n startTerm obs final = Inr (Some cmd)" "0 < n"
  shows "n \<le> holders final index cmd"
proof -
  obtain nd where "nCommitted final index = Inr (nd, cmd)" "n \<le> nd"
    using assms(1) by (auto simp: rt_wait_def rbind_eq_Inr split: if_splits)
  then show ?thesis using nCommitted_holders [of final index nd cmd] assms(2) by simp
qed

lemma moved_on_ok: "moved_on startTerm ts = Inr True \<Longrightarrow> \<exists>t. Some t \<in> set ts \<and> t > startTerm"
  by (induction ts) (auto split: option.splits if_splits)

theorem wait_gives_up:
  assumes "rt_wait index n startTerm obs final = Inr None"
  shows "startTerm > -1 \<and> (\<exists>(ts, terms) \<in> set obs. \<exists>t. Some t \<in> set terms \<and> t > startTerm)"
proof -
  have "wait_loop index n startTerm os = Inr True \<Longrightarrow> startTerm > -1 \<and> (\<exists>(ts, terms) \<in> set os. \<exists>t. Some t \<in> set terms \<and> t > startTerm)" for os
  proof (induction os)
    case (Cons o1 os)
    obtain ts terms where o1: "o1 = (ts, terms)" by fastforce
    then have "startTerm > -1 \<and> moved_on startTerm terms = Inr True \<or> wait_loop index n startTerm os = Inr True"
      using Cons.prems by (auto simp: rbind_eq_Inr split: if_splits)
    then show ?case using Cons.IH moved_on_ok [of startTerm terms] o1 by auto
  qed simp
  moreover have "wait_loop index n startTerm (take 30 obs) = Inr True" using assms by (auto simp: rt_wait_def rbind_eq_Inr split: if_splits)
  ultimately show ?thesis using in_set_takeD by fastforce
qed

end
