(* ===== verification/Demux.thy ===== *)
theory Demux
  imports Labrpc
begin

text \<open>
  The connection between the tester and a server process, \<open>src/src/tester1/demux\<close>: messages framed by a length on a stream of bytes
  (\<open>transport.go\<close>), the table of outstanding calls (\<open>callmap.go\<close>), the client that tags its calls and matches replies by tag
  (\<open>dmxclnt.go\<close>) and the server that answers each request in a goroutine of its own (\<open>dmxsrv.go\<close>). Tags and lengths
  are 32-bit words. The gob codec of a frame is a parameter. A stream of bytes stands for the reading end of the socket: what
  arrives before the connection breaks.
\<close>

unbundle bit_operations_syntax

section \<open>Frames\<close>

type_synonym Ttag = "32 word"

record msg =
  m_Tag :: Ttag
  m_Data :: bytes
  m_Ok :: bool

text \<open>\<open>binary.Write\<close> and \<open>binary.Read\<close> of a \<open>uint32\<close> in little-endian order\<close>

definition le32 :: "32 word \<Rightarrow> bytes" where
  "le32 w = [ucast w, ucast (drop_bit 8 w), ucast (drop_bit 16 w), ucast (drop_bit 24 w)]"

definition un_le32 :: "bytes \<Rightarrow> 32 word" where
  "un_le32 b = ucast (b ! 0) OR push_bit 8 (ucast (b ! 1)) OR push_bit 16 (ucast (b ! 2)) OR push_bit 24 (ucast (b ! 3))"

definition WriteCall :: "(msg \<Rightarrow> bytes option) \<Rightarrow> Ttag \<Rightarrow> bytes \<Rightarrow> bool \<Rightarrow> bytes res" where
  "WriteCall enc tag d ok =
     rbind (Marshall enc \<lparr>m_Tag = tag, m_Data = d, m_Ok = ok\<rparr>) (\<lambda>b. Inr (le32 (word_of_nat (length b)) @ b))"

datatype read_err = EOF | UnexpectedEOF

text \<open>\<open>io.ReadFull\<close>: nothing read is the end of the file, unless nothing was asked for.\<close>

definition ReadFull :: "nat \<Rightarrow> bytes \<Rightarrow> read_err + (bytes \<times> bytes)" where
  "ReadFull n s =
     (if n \<le> length s then Inr (take n s, drop n s) else if s = [] then Inl EOF else Inl UnexpectedEOF)"

definition ReadCall :: "(bytes \<Rightarrow> msg option) \<Rightarrow> bytes \<Rightarrow> (read_err + (Ttag \<times> bytes \<times> bool) \<times> bytes) res" where
  "ReadCall dec s =
     (case ReadFull 4 s of
        Inl e \<Rightarrow> Inr (Inl e)
      | Inr (h, s1) \<Rightarrow>
          (case ReadFull (unat (un_le32 h)) s1 of
             Inl e \<Rightarrow> Inr (Inl e)
           | Inr (b, s2) \<Rightarrow> rbind (Unmarshall dec b) (\<lambda>m. Inr (Inr ((m_Tag m, m_Data m, m_Ok m), s2)))))"

lemma le32_length [simp]: "length (le32 w) = 4"
  by (simp add: le32_def)

lemma un_le32_le32 [simp]: "un_le32 (le32 w) = w"
proof (rule bit_word_eqI)
  fix n assume "n < LENGTH(32)"
  then show "bit (un_le32 (le32 w)) n = bit w n"
    by (cases "n < 16"; cases "n < 24") (auto simp: un_le32_def le32_def bit_simps)
qed

lemma ReadFull_append [simp]: "ReadFull (length b) (b @ s) = Inr (b, s)"
  by (simp add: ReadFull_def)

lemma ReadFull_shrinks: "ReadFull n s = Inr (b, s') \<Longrightarrow> length s' = length s - n \<and> n \<le> length s"
  by (auto simp: ReadFull_def split: if_splits)

lemma ReadCall_shrinks: "ReadCall dec s = Inr (Inr (m, s')) \<Longrightarrow> length s' < length s"
  by (auto simp: ReadCall_def rbind_eq_Inr split: sum.splits prod.splits dest!: ReadFull_shrinks)

text \<open>The loop of a reader: all the messages of a stream, and the error that ends it.\<close>

function read_all :: "(bytes \<Rightarrow> msg option) \<Rightarrow> bytes \<Rightarrow> ((Ttag \<times> bytes \<times> bool) list \<times> read_err) res" where
  "read_all dec s =
     (case ReadCall dec s of
        Inl f \<Rightarrow> Inl f
      | Inr (Inl e) \<Rightarrow> Inr ([], e)
      | Inr (Inr (m, s')) \<Rightarrow> rbind (read_all dec s') (\<lambda>(ms, e). Inr (m # ms, e)))"
  by pat_completeness auto
termination by (relation "measure (\<lambda>(dec, s). length s)") (auto dest: ReadCall_shrinks)

declare read_all.simps [simp del]

fun write_all :: "(msg \<Rightarrow> bytes option) \<Rightarrow> (Ttag \<times> bytes \<times> bool) list \<Rightarrow> bytes res" where
  "write_all enc [] = Inr []"
| "write_all enc ((t, d, ok) # ms) = rbind (WriteCall enc t d ok) (\<lambda>b. rbind (write_all enc ms) (\<lambda>bs. Inr (b @ bs)))"

text \<open>A codec reads back what it writes, and what it writes fits the length.\<close>

definition frame_codec :: "(msg \<Rightarrow> bytes option) \<Rightarrow> (bytes \<Rightarrow> msg option) \<Rightarrow> bool" where
  "frame_codec enc dec \<longleftrightarrow> (\<forall>m b. enc m = Some b \<longrightarrow> dec b = Some m)"

definition fits :: "(msg \<Rightarrow> bytes option) \<Rightarrow> Ttag \<times> bytes \<times> bool \<Rightarrow> bool" where
  "fits enc x \<longleftrightarrow> (case x of (t, d, ok) \<Rightarrow> \<exists>b. enc \<lparr>m_Tag = t, m_Data = d, m_Ok = ok\<rparr> = Some b \<and> length b < 2 ^ 32)"

lemma unat_small: "n < 2 ^ 32 \<Longrightarrow> unat (word_of_nat n :: 32 word) = n"
  by (simp add: unat_of_nat take_bit_eq_mod)

lemma Read_Write:
  assumes c: "frame_codec enc dec" and f: "fits enc (t, d, ok)" and w: "WriteCall enc t d ok = Inr b"
  shows "ReadCall dec (b @ s) = Inr (Inr ((t, d, ok), s))" "length b \<ge> 4"
    and "k < length b \<Longrightarrow> ReadCall dec (take k b) = Inr (Inl EOF) \<or> ReadCall dec (take k b) = Inr (Inl UnexpectedEOF)"
proof -
  obtain x where x: "enc \<lparr>m_Tag = t, m_Data = d, m_Ok = ok\<rparr> = Some x" "length x < 2 ^ 32" using f by (auto simp: fits_def)
  have b: "b = le32 (word_of_nat (length x)) @ x" using w x(1) by (simp add: WriteCall_def Marshall_def)
  have h: "ReadFull 4 (le32 v @ y) = Inr (le32 v, y)" for v y using ReadFull_append [of "le32 v" y] by simp
  have len: "unat (word_of_nat (length x) :: 32 word) = length x" by (rule unat_small [OF x(2)])
  show "ReadCall dec (b @ s) = Inr (Inr ((t, d, ok), s))"
    using c x(1) by (simp add: ReadCall_def b h len frame_codec_def Unmarshall_def)
  show "length b \<ge> 4" by (simp add: b)
  show "ReadCall dec (take k b) = Inr (Inl EOF) \<or> ReadCall dec (take k b) = Inr (Inl UnexpectedEOF)" if k: "k < length b"
  proof (cases "k < 4")
    case True
    then show ?thesis by (auto simp: ReadCall_def ReadFull_def b)
  next
    case False
    then have "take k b = le32 (word_of_nat (length x)) @ take (k - 4) x" by (simp add: b)
    then show ?thesis using k b by (auto simp: ReadCall_def h len ReadFull_def)
  qed
qed

lemma read_write_cut:
  assumes c: "frame_codec enc dec" and f: "list_all (fits enc) ms" and w: "write_all enc ms = Inr s"
  shows "\<exists>ms' e. read_all dec (take k s) = Inr (ms', e) \<and> (\<exists>rest. ms = ms' @ rest) \<and> (length s \<le> k \<longrightarrow> ms' = ms \<and> e = EOF)"
  using f w
proof (induction ms arbitrary: s k)
  case Nil
  then have "read_all dec (take k s) = Inr ([], EOF)" by (subst read_all.simps) (simp add: ReadCall_def ReadFull_def)
  then show ?case by simp
next
  case (Cons x ms)
  obtain t d ok where x: "x = (t, d, ok)" by (cases x) auto
  obtain b bs where b: "WriteCall enc t d ok = Inr b" "write_all enc ms = Inr bs" "s = b @ bs"
    using Cons.prems(2) x by (auto simp: rbind_eq_Inr)
  have fx: "fits enc (t, d, ok)" "list_all (fits enc) ms" using Cons.prems(1) x by simp_all
  note rw = Read_Write [OF c fx(1) b(1)]
  show ?case
  proof (cases "k < length b")
    case True
    then have "take k s = take k b" using b(3) by simp
    then have "\<exists>e. read_all dec (take k s) = Inr ([], e)" using rw(3) [OF True] by (subst read_all.simps) auto
    then show ?thesis using True b(3) by auto
  next
    case False
    then have tk: "take k s = b @ take (k - length b) bs" using b(3) by simp
    obtain ms' e where r: "read_all dec (take (k - length b) bs) = Inr (ms', e)" "\<exists>rest. ms = ms' @ rest"
      "length bs \<le> k - length b \<longrightarrow> ms' = ms \<and> e = EOF" using Cons.IH [OF fx(2) b(2)] by blast
    have "read_all dec (take k s) = Inr (x # ms', e)" unfolding tk using r(1) x by (subst read_all.simps) (simp add: rw(1))
    then show ?thesis using r(2,3) False b(3) by auto
  qed
qed

text \<open>C37: what one side writes as frames of less than 2^32 bytes, the reader of the other side gets back as the same
  messages in the same order; and if the stream is cut anywhere, the messages it gets are a beginning of those written, and it
  stops with an error, never with a message nobody wrote.\<close>

theorem frames_roundtrip:
  assumes "frame_codec enc dec" "list_all (fits enc) ms"
  shows "\<exists>s. write_all enc ms = Inr s \<and> read_all dec s = Inr (ms, EOF)
    \<and> (\<forall>k. \<exists>ms' e rest. read_all dec (take k s) = Inr (ms', e) \<and> ms = ms' @ rest)"
proof -
  have "\<exists>s. write_all enc ms = Inr s" using assms(2)
    by (induction ms) (auto simp: fits_def WriteCall_def Marshall_def split: prod.splits)
  then obtain s where s: "write_all enc ms = Inr s" by blast
  have "\<exists>ms' e rest. read_all dec (take k s) = Inr (ms', e) \<and> ms = ms' @ rest" for k
    using read_write_cut [OF assms s, of k] by blast
  moreover have "read_all dec s = Inr (ms, EOF)" using read_write_cut [OF assms s, of "length s"] by auto
  ultimately show ?thesis using s by blast
qed

definition demo_menc :: "msg \<Rightarrow> bytes option" where
  "demo_menc m = Some (le32 (m_Tag m) @ (if m_Ok m then 1 else 0) # m_Data m)"

definition demo_mdec :: "bytes \<Rightarrow> msg option" where
  "demo_mdec b = (if length b < 5 then None else Some \<lparr>m_Tag = un_le32 (take 4 b), m_Data = drop 5 b, m_Ok = (b ! 4 = 1)\<rparr>)"

lemma demo_mcodec: "frame_codec demo_menc demo_mdec"
proof -
  have "demo_mdec b = Some m" if "demo_menc m = Some b" for m b
  proof -
    have b: "b = le32 (m_Tag m) @ (if m_Ok m then 1 else 0) # m_Data m" using that by (simp add: demo_menc_def)
    have n: "b ! 4 = (if m_Ok m then 1 else 0)" unfolding b by (simp add: nth_append)
    have d: "drop 5 b = m_Data m" unfolding b by simp
    show ?thesis by (cases m) (simp add: demo_mdec_def n d, simp add: b)
  qed
  then show ?thesis by (simp add: frame_codec_def)
qed

theorem frames_roundtrip_witness:
  "\<exists>s. write_all demo_menc [(1, [7, 8], True), (2, [], False)] = Inr s \<and> read_all demo_mdec s = Inr ([(1, [7, 8], True), (2, [], False)], EOF)"
proof -
  have "list_all (fits demo_menc) [(1, [7, 8], True), (2, [], False)]" by (simp add: fits_def demo_menc_def)
  from frames_roundtrip [OF demo_mcodec this] show ?thesis by blast
qed

text \<open>A frame of 2^32 bytes is written with the length 0: the reader takes its first bytes for the next frame.\<close>

lemma oversized_frame:
  assumes "enc \<lparr>m_Tag = t, m_Data = d, m_Ok = ok\<rparr> = Some b" "length b = 2 ^ 32"
  shows "WriteCall enc t d ok = Inr (le32 0 @ b)"
proof -
  have "(word_of_nat (length b) :: 32 word) = 0" unfolding assms(2) by (subst word_of_nat_eq_0_iff) simp
  then show ?thesis using assms(1) by (simp add: WriteCall_def Marshall_def)
qed

section \<open>Outstanding calls\<close>

text \<open>A reply channel is the number of the call that made it.\<close>

record callMap =
  cm_closed :: bool
  cm_calls :: "Ttag \<rightharpoonup> nat"

definition newCallMap :: callMap where
  "newCallMap = \<lparr>cm_closed = False, cm_calls = Map.empty\<rparr>"

definition cm_close :: "callMap \<Rightarrow> callMap" where
  "cm_close cm = cm\<lparr>cm_closed := True\<rparr>"

definition cm_isClosed :: "callMap \<Rightarrow> bool" where
  "cm_isClosed cm = cm_closed cm"

definition cm_put :: "Ttag \<Rightarrow> nat \<Rightarrow> callMap \<Rightarrow> callMap option" where
  "cm_put tag ch cm = (if cm_closed cm then None else Some (cm\<lparr>cm_calls := (cm_calls cm)(tag \<mapsto> ch)\<rparr>))"

definition cm_remove :: "Ttag \<Rightarrow> callMap \<Rightarrow> callMap \<times> nat option" where
  "cm_remove tag cm =
     (case cm_calls cm tag of
        Some ch \<Rightarrow> (cm\<lparr>cm_calls := (cm_calls cm)(tag := None)\<rparr>, Some ch)
      | None \<Rightarrow> (cm, None))"

text \<open>The tags of the table in some order.\<close>

definition cm_outstanding :: "callMap \<Rightarrow> Ttag list \<Rightarrow> bool" where
  "cm_outstanding cm ts \<longleftrightarrow> distinct ts \<and> set ts = dom (cm_calls cm)"

section \<open>The client\<close>

record DemuxClnt =
  dc_callmap :: callMap
  dc_nextTag :: Ttag

definition dc_tag :: "DemuxClnt \<Rightarrow> DemuxClnt \<times> Ttag" where
  "dc_tag dmx = (dmx\<lparr>dc_nextTag := dc_nextTag dmx + 1\<rparr>, dc_nextTag dmx)"

text \<open>The first tag goes to the message with the client's name.\<close>

definition NewDemuxClnt :: DemuxClnt where
  "NewDemuxClnt = fst (dc_tag \<lparr>dc_callmap = newCallMap, dc_nextTag = 0\<rparr>)"

text \<open>\<open>reply\<close> up to the hand-over on the channel it finds.\<close>

definition dc_reply :: "Ttag \<Rightarrow> DemuxClnt \<Rightarrow> (DemuxClnt \<times> nat) res" where
  "dc_reply tag dmx =
     (case cm_remove tag (dc_callmap dmx) of
        (cm, Some ch) \<Rightarrow> Inr (dmx\<lparr>dc_callmap := cm\<rparr>, ch)
      | (cm, None) \<Rightarrow> Inl (LogFatal ''no matching req''))"

definition dc_Close :: "DemuxClnt \<Rightarrow> DemuxClnt" where
  "dc_Close dmx = (if cm_isClosed (dc_callmap dmx) then dmx else dmx\<lparr>dc_callmap := cm_close (dc_callmap dmx)\<rparr>)"

definition dc_IsClosed :: "DemuxClnt \<Rightarrow> bool" where
  "dc_IsClosed dmx = cm_isClosed (dc_callmap dmx)"

section \<open>The server\<close>

record DemuxSrv =
  ds_closed :: bool
  ds_clntEnd :: string

text \<open>The first message on a connection names the client.\<close>

definition NewDemuxSrv :: "(bytes \<Rightarrow> msg option) \<Rightarrow> (bytes \<Rightarrow> string option) \<Rightarrow> bytes \<Rightarrow> (DemuxSrv \<times> bytes) res" where
  "NewDemuxSrv dec idec s =
     rbind (ReadCall dec s) (\<lambda>x. case x of
       Inl e \<Rightarrow> Inl (LogFatal ''NewDemuxSrv: ReadCall err'')
     | Inr ((_, b, _), s') \<Rightarrow> rbind (Unmarshall idec b) (\<lambda>clnt. Inr (\<lparr>ds_closed = False, ds_clntEnd = clnt\<rparr>, s')))"

definition setClosed :: "DemuxSrv \<Rightarrow> DemuxSrv \<times> bool" where
  "setClosed dmx = (dmx\<lparr>ds_closed := True\<rparr>, ds_closed dmx)"

text \<open>What the reader does when a read fails.\<close>

definition ds_read_failed :: "read_err \<Rightarrow> DemuxSrv \<Rightarrow> DemuxSrv" where
  "ds_read_failed e dmx = (if e = EOF then fst (setClosed dmx) else dmx)"

text \<open>The goroutine of a request, up to its write: the server's answer under the tag of the request.\<close>

definition ds_goroutine :: "('s \<Rightarrow> bytes \<Rightarrow> 's \<times> bytes \<times> bool) \<Rightarrow> Ttag \<Rightarrow> bytes \<Rightarrow> 's \<Rightarrow> 's \<times> (Ttag \<times> bytes \<times> bool)" where
  "ds_goroutine serve t req st = (case serve st req of (st', rep, ok) \<Rightarrow> (st', (t, rep, ok)))"

text \<open>The second component says whether the transport is closed.\<close>

definition ds_Close :: "DemuxSrv \<Rightarrow> DemuxSrv \<times> bool" where
  "ds_Close dmx = (case setClosed dmx of (dmx', c) \<Rightarrow> if c then (dmx', False) else (dmx', True))"

lemma ds_Close_once: "snd (ds_Close (fst (ds_Close dmx))) = False"
  by (simp add: ds_Close_def setClosed_def)

section \<open>RPCs over a connection\<close>

text \<open>\<open>src/src/tester1/sockrpc\<close>: a request holds the method and the argument; the server dispatches it to its services.\<close>

record RPCArgs =
  ra_Method :: string
  ra_Args :: bytes

definition SockName :: "string \<Rightarrow> string" where
  "SockName endName = ''/tmp/6.5840-'' @ endName"

definition ServeRequest :: "(bytes \<Rightarrow> RPCArgs option) \<Rightarrow> string \<Rightarrow> bytes \<Rightarrow> 's Server \<Rightarrow> ('s Server \<times> bytes \<times> bool) res" where
  "ServeRequest rdec clntEnd b srv =
     rbind (Unmarshall rdec b) (\<lambda>req. Dispatch srv (ra_Method req) clntEnd (ra_Args req))"

text \<open>The client's side: \<open>RPC\<close> before and after \<open>SendReceive\<close>, and the decoding of \<open>RPCMarshall\<close>. \<open>None\<close> is an error.\<close>

definition RPC_request :: "(RPCArgs \<Rightarrow> bytes option) \<Rightarrow> string \<Rightarrow> bytes \<Rightarrow> bytes res" where
  "RPC_request renc mthd args = Marshall renc \<lparr>ra_Method = mthd, ra_Args = args\<rparr>"

definition RPC_result :: "(bytes \<times> bool) option \<Rightarrow> bytes \<times> bool" where
  "RPC_result r = (case r of None \<Rightarrow> ([], False) | Some (rep, ok) \<Rightarrow> (rep, ok))"

definition RPCMarshall_result :: "(bytes \<Rightarrow> 'r option) \<Rightarrow> (bytes \<times> bool) option \<Rightarrow> 'r option res" where
  "RPCMarshall_result dec r =
     (case RPC_result r of (rep, ok) \<Rightarrow> if \<not> ok then Inr None else rbind (Unmarshall dec rep) (\<lambda>v. Inr (Some v)))"

end
