(* ===== verification/Demux_Calls.thy ===== *)
theory Demux_Calls
  imports Demux
begin

text \<open>
  Concurrent calls over one connection of \<open>src/src/tester1/demux\<close>: the goroutines that call \<open>SendReceive\<close>, the reader of the client,
  the reader of the server and one goroutine for each request are interleaved at their locks, their writes and the hand-over on
  the reply channel. The connection may break at any moment, and any write may get lost with it. \<open>serve\<close> is the
  server behind the connection.
\<close>

section \<open>The system\<close>

text \<open>A call of \<open>SendReceive\<close>, by the place it has reached; \<open>Done\<close> holds the result, where \<open>None\<close> is an error.\<close>

datatype phase =
    Idle | Tagged Ttag bytes | Registered Ttag bytes | Waiting Ttag bytes | Done Ttag bytes "(bytes \<times> bool) option"

text \<open>The client's reader. \<open>Handing c r None\<close>: it hands \<open>r\<close> to call \<open>c\<close> and reads on; \<open>Handing c r (Some ts)\<close>: it has given up and
  still fails the calls \<open>ts\<close>.\<close>

datatype reader = Reading | Handing nat "(bytes \<times> bool) option" "Ttag list option" | Closing | Draining "Ttag list" | Finished

record 's dsys =
  cl :: DemuxClnt
  ph :: "nat \<Rightarrow> phase"
  rd :: reader
  to_srv :: "(Ttag \<times> bytes) list"
  serving :: "(Ttag \<times> bytes) list"
  answered :: "(Ttag \<times> bytes \<times> bool) list"
  to_cl :: "(Ttag \<times> bytes \<times> bool) list"
  srv_st :: 's
  owner :: "Ttag \<rightharpoonup> nat \<times> bytes"
  issued :: nat
  execd :: "(Ttag \<times> bytes \<times> bytes \<times> bool) list"

text \<open>The last three fields are a record of the run: who got which tag, how many tags there were, and what the server has executed.\<close>

definition dsys_init :: "'s dsys \<Rightarrow> bool" where
  "dsys_init s \<longleftrightarrow> cl s = NewDemuxClnt \<and> ph s = (\<lambda>_. Idle) \<and> rd s = Reading \<and> to_srv s = [] \<and> serving s = [] \<and> answered s = []
     \<and> to_cl s = [] \<and> owner s = Map.empty \<and> issued s = 1 \<and> execd s = []"

text \<open>A connection carries less than 2^32 calls: after that the tags start again.\<close>

inductive dstep :: "('s \<Rightarrow> bytes \<Rightarrow> 's \<times> bytes \<times> bool) \<Rightarrow> 's dsys \<Rightarrow> 's dsys \<Rightarrow> bool" for serve where
  sr_tag: "ph s c = Idle \<Longrightarrow> issued s < 2 ^ 32 \<Longrightarrow> dc_tag (cl s) = (cl', t)
    \<Longrightarrow> dstep serve s (s\<lparr>cl := cl', ph := (ph s)(c := Tagged t b), owner := (owner s)(t \<mapsto> (c, b)), issued := issued s + 1\<rparr>)"
| sr_put: "ph s c = Tagged t b \<Longrightarrow> cm_put t c (dc_callmap (cl s)) = Some cm
    \<Longrightarrow> dstep serve s (s\<lparr>cl := (cl s)\<lparr>dc_callmap := cm\<rparr>, ph := (ph s)(c := Registered t b)\<rparr>)"
| sr_put_closed: "ph s c = Tagged t b \<Longrightarrow> cm_put t c (dc_callmap (cl s)) = None
    \<Longrightarrow> dstep serve s (s\<lparr>ph := (ph s)(c := Done t b None)\<rparr>)"
| sr_write: "ph s c = Registered t b
    \<Longrightarrow> dstep serve s (s\<lparr>ph := (ph s)(c := Waiting t b), to_srv := to_srv s @ [(t, b)]\<rparr>)"
| sr_write_err: "ph s c = Registered t b \<Longrightarrow> dstep serve s (s\<lparr>ph := (ph s)(c := Waiting t b)\<rparr>)"
| srv_read: "to_srv s = (t, b) # q \<Longrightarrow> dstep serve s (s\<lparr>to_srv := q, serving := (t, b) # serving s\<rparr>)"
| srv_serve: "serving s = xs @ (t, b) # ys \<Longrightarrow> ds_goroutine serve t b (srv_st s) = (st', (u, rep, ok))
    \<Longrightarrow> dstep serve s (s\<lparr>serving := xs @ ys, answered := (u, rep, ok) # answered s, srv_st := st', execd := execd s @ [(t, b, rep, ok)]\<rparr>)"
| srv_write: "answered s = xs @ m # ys \<Longrightarrow> dstep serve s (s\<lparr>answered := xs @ ys, to_cl := to_cl s @ [m]\<rparr>)"
| srv_write_err: "answered s = xs @ m # ys \<Longrightarrow> dstep serve s (s\<lparr>answered := xs @ ys\<rparr>)"
| rd_reply: "rd s = Reading \<Longrightarrow> to_cl s = (t, rep, ok) # q \<Longrightarrow> dc_reply t (cl s) = Inr (cl', c)
    \<Longrightarrow> dstep serve s (s\<lparr>to_cl := q, cl := cl', rd := Handing c (Some (rep, ok)) None\<rparr>)"
| rd_hand: "rd s = Handing c r nxt \<Longrightarrow> ph s c = Waiting t b
    \<Longrightarrow> dstep serve s (s\<lparr>ph := (ph s)(c := Done t b r), rd := (case nxt of None \<Rightarrow> Reading | Some ts \<Rightarrow> Draining ts)\<rparr>)"
| rd_fail: "rd s = Reading
    \<Longrightarrow> dstep serve s (s\<lparr>cl := (cl s)\<lparr>dc_callmap := cm_close (dc_callmap (cl s))\<rparr>, rd := Closing\<rparr>)"
| rd_outstanding: "rd s = Closing \<Longrightarrow> cm_outstanding (dc_callmap (cl s)) ts \<Longrightarrow> dstep serve s (s\<lparr>rd := Draining ts\<rparr>)"
| rd_drain: "rd s = Draining (t # ts) \<Longrightarrow> dc_reply t (cl s) = Inr (cl', c)
    \<Longrightarrow> dstep serve s (s\<lparr>cl := cl', rd := Handing c None (Some ts)\<rparr>)"
| rd_done: "rd s = Draining [] \<Longrightarrow> dstep serve s (s\<lparr>rd := Finished\<rparr>)"
| user_close: "dstep serve s (s\<lparr>cl := dc_Close (cl s)\<rparr>)"

inductive_cases dstepE: "dstep serve s t"

section \<open>The invariant\<close>

abbreviation calls :: "'s dsys \<Rightarrow> Ttag \<rightharpoonup> nat" where
  "calls s \<equiv> cm_calls (dc_callmap (cl s))"

abbreviation is_closed :: "'s dsys \<Rightarrow> bool" where
  "is_closed s \<equiv> cm_closed (dc_callmap (cl s))"

text \<open>The tags and requests of the messages on their way, and the calls that have been written.\<close>

definition flight :: "'s dsys \<Rightarrow> Ttag list" where
  "flight s = map fst (to_srv s) @ map fst (serving s) @ map fst (answered s) @ map fst (to_cl s)"

definition unserved :: "'s dsys \<Rightarrow> (Ttag \<times> bytes) list" where
  "unserved s = to_srv s @ serving s"

fun has_tag :: "phase \<Rightarrow> Ttag \<Rightarrow> bytes \<Rightarrow> bool" where
  "has_tag Idle t b = False"
| "has_tag (Tagged u d) t b = (u = t \<and> d = b)"
| "has_tag (Registered u d) t b = (u = t \<and> d = b)"
| "has_tag (Waiting u d) t b = (u = t \<and> d = b)"
| "has_tag (Done u d r) t b = (u = t \<and> d = b)"

fun pending :: "phase \<Rightarrow> Ttag \<Rightarrow> bool" where
  "pending (Registered u d) t = (u = t)"
| "pending (Waiting u d) t = (u = t)"
| "pending _ t = False"

fun written :: "phase \<Rightarrow> bool" where
  "written (Waiting t b) = True"
| "written (Done t b r) = True"
| "written _ = False"

definition sent :: "'s dsys \<Rightarrow> Ttag \<Rightarrow> bytes \<Rightarrow> bool" where
  "sent s t b \<longleftrightarrow> (case owner s t of None \<Rightarrow> False | Some (c, d) \<Rightarrow> d = b \<and> written (ph s c))"

lemma sent_fields [simp]:
  "sent (s\<lparr>to_srv := a\<rparr>) = sent s" "sent (s\<lparr>serving := a\<rparr>) = sent s" "sent (s\<lparr>answered := e\<rparr>) = sent s" "sent (s\<lparr>to_cl := e\<rparr>) = sent s"
  "sent (s\<lparr>srv_st := f\<rparr>) = sent s" "sent (s\<lparr>execd := g\<rparr>) = sent s" "sent (s\<lparr>cl := h\<rparr>) = sent s" "sent (s\<lparr>rd := k\<rparr>) = sent s"
  by (auto simp: fun_eq_iff sent_def split: option.splits)

lemma sent_cong: "owner s' = owner s \<Longrightarrow> ph s' = ph s \<Longrightarrow> sent s' = sent s"
  by (auto simp: fun_eq_iff sent_def split: option.splits)

definition tags_inv :: "'s dsys \<Rightarrow> bool" where
  "tags_inv s \<longleftrightarrow> dc_nextTag (cl s) = word_of_nat (issued s) \<and> 1 \<le> issued s \<and> issued s \<le> 2 ^ 32
     \<and> (\<forall>t. owner s t \<noteq> None \<longrightarrow> unat t < issued s) \<and> (\<forall>c t b. has_tag (ph s c) t b \<longleftrightarrow> owner s t = Some (c, b))"

definition calls_inv :: "'s dsys \<Rightarrow> bool" where
  "calls_inv s \<longleftrightarrow> (\<forall>c t. calls s t = Some c \<longrightarrow> pending (ph s c) t)
     \<and> (\<forall>c t. pending (ph s c) t \<longrightarrow> calls s t = Some c \<or> (\<exists>r nxt. rd s = Handing c r nxt))"

definition flight_inv :: "'s dsys \<Rightarrow> bool" where
  "flight_inv s \<longleftrightarrow> distinct (flight s) \<and> (\<forall>t \<in> set (flight s). \<exists>b. sent s t b) \<and> (\<forall>(t, b) \<in> set (unserved s). sent s t b)"

definition exec_inv :: "'s dsys \<Rightarrow> bool" where
  "exec_inv s \<longleftrightarrow> distinct (map fst (execd s) @ map fst (unserved s)) \<and> (\<forall>(t, b, rep, ok) \<in> set (execd s). sent s t b)
     \<and> (\<forall>(t, rep, ok) \<in> set (answered s @ to_cl s). \<exists>b. (t, b, rep, ok) \<in> set (execd s))
     \<and> (\<forall>c t b rep ok. ph s c = Done t b (Some (rep, ok)) \<longrightarrow> (t, b, rep, ok) \<in> set (execd s))"

fun reader_inv :: "'s dsys \<Rightarrow> reader \<Rightarrow> bool" where
  "reader_inv s Reading = (\<forall>t \<in> set (flight s). calls s t \<noteq> None)"
| "reader_inv s Closing = is_closed s"
| "reader_inv s (Draining ts) = (is_closed s \<and> distinct ts \<and> set ts = dom (calls s))"
| "reader_inv s Finished = (is_closed s \<and> calls s = Map.empty)"
| "reader_inv s (Handing c r None) = ((\<forall>t \<in> set (flight s). calls s t \<noteq> None)
     \<and> (\<exists>t b rep ok. ph s c = Waiting t b \<and> calls s t = None \<and> r = Some (rep, ok) \<and> (t, b, rep, ok) \<in> set (execd s)))"
| "reader_inv s (Handing c r (Some ts)) = (is_closed s \<and> distinct ts \<and> set ts = dom (calls s)
     \<and> (\<exists>t. pending (ph s c) t \<and> calls s t = None \<and> r = None))"

definition dsys_inv :: "'s dsys \<Rightarrow> bool" where
  "dsys_inv s \<longleftrightarrow> tags_inv s \<and> calls_inv s \<and> flight_inv s \<and> exec_inv s \<and> reader_inv s (rd s)"

lemmas dsys_defs = dsys_inv_def tags_inv_def calls_inv_def flight_inv_def exec_inv_def

lemma init_inv: "dsys_init s \<Longrightarrow> dsys_inv s"
  by (simp add: dsys_init_def dsys_defs flight_def unserved_def NewDemuxClnt_def dc_tag_def newCallMap_def)

lemma dsys_invD:
  assumes "dsys_inv s"
  shows "\<And>c t b. has_tag (ph s c) t b \<longleftrightarrow> owner s t = Some (c, b)"
    and "\<And>c t. calls s t = Some c \<Longrightarrow> pending (ph s c) t"
    and "\<And>c t. pending (ph s c) t \<Longrightarrow> calls s t = Some c \<or> (\<exists>r nxt. rd s = Handing c r nxt)"
    and "distinct (flight s)" "\<And>t. t \<in> set (flight s) \<Longrightarrow> \<exists>b. sent s t b" "\<And>t b. (t, b) \<in> set (unserved s) \<Longrightarrow> sent s t b"
    and "distinct (map fst (execd s) @ map fst (unserved s))" "\<And>t b rep ok. (t, b, rep, ok) \<in> set (execd s) \<Longrightarrow> sent s t b"
    and "\<And>t rep ok. (t, rep, ok) \<in> set (answered s @ to_cl s) \<Longrightarrow> \<exists>b. (t, b, rep, ok) \<in> set (execd s)"
    and "\<And>c t b rep ok. ph s c = Done t b (Some (rep, ok)) \<Longrightarrow> (t, b, rep, ok) \<in> set (execd s)"
    and "reader_inv s (rd s)"
proof -
  have i: "tags_inv s" "calls_inv s" "flight_inv s" "exec_inv s" using assms by (simp_all add: dsys_inv_def)
  from i(1) show "\<And>c t b. has_tag (ph s c) t b \<longleftrightarrow> owner s t = Some (c, b)" unfolding tags_inv_def by blast
  from i(2) show "\<And>c t. calls s t = Some c \<Longrightarrow> pending (ph s c) t"
    "\<And>c t. pending (ph s c) t \<Longrightarrow> calls s t = Some c \<or> (\<exists>r nxt. rd s = Handing c r nxt)"
    unfolding calls_inv_def by blast+
  from i(3) show "distinct (flight s)" "\<And>t. t \<in> set (flight s) \<Longrightarrow> \<exists>b. sent s t b" "\<And>t b. (t, b) \<in> set (unserved s) \<Longrightarrow> sent s t b"
    unfolding flight_inv_def by blast+
  from i(4) show "distinct (map fst (execd s) @ map fst (unserved s))" "\<And>t b rep ok. (t, b, rep, ok) \<in> set (execd s) \<Longrightarrow> sent s t b"
    "\<And>t rep ok. (t, rep, ok) \<in> set (answered s @ to_cl s) \<Longrightarrow> \<exists>b. (t, b, rep, ok) \<in> set (execd s)"
    "\<And>c t b rep ok. ph s c = Done t b (Some (rep, ok)) \<Longrightarrow> (t, b, rep, ok) \<in> set (execd s)"
    unfolding exec_inv_def by blast+
  show "reader_inv s (rd s)" using assms by (simp add: dsys_inv_def)
qed

text \<open>A change of one call's phase that keeps its tag, registered calls and messages apart.\<close>

lemma reader_inv_ph:
  assumes "reader_inv s r" "calls s' = calls s" "is_closed s' = is_closed s" "set (flight s') \<subseteq> set (flight s)" "set (execd s) \<subseteq> set (execd s')"
    and ph: "\<And>c t. pending (ph s c) t \<Longrightarrow> pending (ph s' c) t" "\<And>c t b. ph s c = Waiting t b \<Longrightarrow> ph s' c = Waiting t b"
  shows "reader_inv s' r"
proof (cases r)
  case (Handing c x nxt)
  then show ?thesis using assms(1-5) ph [of c] by (cases nxt) (auto; blast)+
qed (use assms(1-4) in auto)

lemma flight_invI:
  "distinct (flight s) \<Longrightarrow> (\<And>t. t \<in> set (flight s) \<Longrightarrow> \<exists>b. sent s t b) \<Longrightarrow> (\<And>t b. (t, b) \<in> set (unserved s) \<Longrightarrow> sent s t b) \<Longrightarrow> flight_inv s"
  by (auto simp: flight_inv_def)

lemma exec_invI:
  "distinct (map fst (execd s) @ map fst (unserved s)) \<Longrightarrow> (\<And>t b rep ok. (t, b, rep, ok) \<in> set (execd s) \<Longrightarrow> sent s t b)
    \<Longrightarrow> (\<And>t rep ok. (t, rep, ok) \<in> set (answered s @ to_cl s) \<Longrightarrow> \<exists>b. (t, b, rep, ok) \<in> set (execd s))
    \<Longrightarrow> (\<And>c t b rep ok. ph s c = Done t b (Some (rep, ok)) \<Longrightarrow> (t, b, rep, ok) \<in> set (execd s)) \<Longrightarrow> exec_inv s"
  unfolding exec_inv_def by blast

lemma calls_invI:
  "(\<And>c t. calls s t = Some c \<Longrightarrow> pending (ph s c) t)
    \<Longrightarrow> (\<And>c t. pending (ph s c) t \<Longrightarrow> calls s t = Some c \<or> (\<exists>r nxt. rd s = Handing c r nxt)) \<Longrightarrow> calls_inv s"
  unfolding calls_inv_def by blast

lemma calls_inv_ph:
  assumes "calls_inv s" "calls s' = calls s" "rd s' = rd s" "\<And>c t. pending (ph s' c) t = pending (ph s c) t"
  shows "calls_inv s'"
  using assms unfolding calls_inv_def by simp

lemma step_tag:
  assumes inv: "dsys_inv s" and c: "ph s c = Idle" "issued s < 2 ^ 32" "dc_tag (cl s) = (cl', t)"
  shows "dsys_inv (s\<lparr>cl := cl', ph := (ph s)(c := Tagged t b), owner := (owner s)(t \<mapsto> (c, b)), issued := issued s + 1\<rparr>)" (is "dsys_inv ?s")
proof -
  have cl': "cl' = (cl s)\<lparr>dc_nextTag := dc_nextTag (cl s) + 1\<rparr>" "t = dc_nextTag (cl s)" using c(3) by (auto simp: dc_tag_def)
  have nt: "dc_nextTag (cl s) = word_of_nat (issued s)" "issued s \<le> 2 ^ 32" using inv by (simp_all add: dsys_inv_def tags_inv_def)
  have ut: "unat t = issued s" using c(2) nt(1) cl'(2) by (simp add: unat_small)
  then have fresh: "owner s t = None" using inv unfolding dsys_inv_def tags_inv_def by (metis less_irrefl)
  note d = dsys_invD [OF inv]
  have no: "\<not> has_tag (ph s c') t b'" for c' b' using d(1) fresh by simp
  have own: "owner s u \<noteq> Some (c, x)" for u x using d(1) [of c u x] c(1) by simp
  have snt: "sent ?s u x = sent s u x" for u x using own [of u x] fresh c(1) by (auto simp: sent_def split: option.splits)
  have "tags_inv ?s" using inv nt ut c fresh own no unfolding dsys_inv_def tags_inv_def cl' by (auto simp: less_SucI)
  moreover have "calls_inv ?s" by (rule calls_inv_ph [of s]) (use inv c(1) in \<open>auto simp: cl' dsys_inv_def\<close>)
  moreover have "flight_inv ?s" using inv unfolding dsys_inv_def flight_inv_def snt by (simp add: flight_def unserved_def)
  moreover have "exec_inv ?s" using inv c(1) unfolding dsys_inv_def exec_inv_def snt by (simp add: unserved_def)
  moreover have "reader_inv ?s (rd ?s)" by (rule reader_inv_ph [of s]) (use d(11) c(1) in \<open>auto simp: cl' flight_def\<close>)
  ultimately show ?thesis by (simp add: dsys_inv_def)
qed

lemma cm_put_eq: "cm_put t c cm = Some cm' \<Longrightarrow> \<not> cm_closed cm \<and> cm' = cm\<lparr>cm_calls := (cm_calls cm)(t \<mapsto> c)\<rparr>"
  by (simp add: cm_put_def split: if_splits)

lemma step_put:
  assumes inv: "dsys_inv s" and c: "ph s c = Tagged t b" "cm_put t c (dc_callmap (cl s)) = Some cm"
  shows "dsys_inv (s\<lparr>cl := (cl s)\<lparr>dc_callmap := cm\<rparr>, ph := (ph s)(c := Registered t b)\<rparr>)" (is "dsys_inv ?s")
proof -
  note d = dsys_invD [OF inv]
  have cm: "\<not> is_closed s" "cm = (dc_callmap (cl s))\<lparr>cm_calls := (calls s)(t \<mapsto> c)\<rparr>" using cm_put_eq [OF c(2)] by simp_all
  have own: "owner s t = Some (c, b)" using d(1) [of c t b] c(1) by simp
  have tg: "has_tag (ph ?s c') u x = has_tag (ph s c') u x" for c' u x using c(1) by simp
  have snt: "sent ?s u x = sent s u x" for u x using c(1) by (auto simp: sent_def split: option.splits)
  have nc: "calls s t = None"
  proof (rule ccontr)
    assume "calls s t \<noteq> None"
    then obtain c' where "pending (ph s c') t" using d(2) by blast
    then have "\<exists>x. has_tag (ph s c') t x" by (cases "ph s c'") auto
    then have "c' = c" using own unfolding d(1) by simp
    then show False using \<open>pending (ph s c') t\<close> c(1) by simp
  qed
  have nh: "rd s \<noteq> Handing c r nxt" for r nxt using d(11) c(1) by (cases nxt) auto
  have "tags_inv ?s" using inv unfolding dsys_inv_def tags_inv_def tg by simp
  moreover have "calls s u \<noteq> Some c" for u using d(2) [of u c] c(1) by auto
  moreover have "\<exists>r nxt. rd s = Handing c' r nxt" if "pending (ph s c') t" for c' using d(3) [OF that] nc by auto
  ultimately have "tags_inv ?s" "calls_inv ?s" using d(2,3) c(1) unfolding calls_inv_def cm(2) by auto
  moreover have "flight_inv ?s" using inv unfolding dsys_inv_def flight_inv_def snt by (simp add: flight_def unserved_def)
  moreover have "exec_inv ?s" using inv unfolding dsys_inv_def exec_inv_def snt by (simp add: unserved_def)
  moreover have "reader_inv ?s (rd ?s)"
  proof (cases "rd s")
    case (Handing c' x nxt)
    moreover have "u \<noteq> t" if "ph s c' = Waiting u x" "c' \<noteq> c" for u x using d(1) [of c' t x] own that by auto
    ultimately show ?thesis using d(11) cm nh by (cases nxt) (auto simp: flight_def)
  qed (use d(11) cm in \<open>auto simp: flight_def\<close>)
  ultimately show ?thesis by (simp add: dsys_inv_def)
qed

text \<open>A change of a phase that keeps the tag, and makes a pending call no other kind of call.\<close>

lemma step_phase:
  assumes inv: "dsys_inv s" and tg: "\<And>u x. has_tag p u x = has_tag (ph s c) u x" and pe: "\<And>u. pending p u = pending (ph s c) u"
    and wr: "written (ph s c) \<Longrightarrow> written p" "\<And>t b. ph s c = Waiting t b \<Longrightarrow> p = Waiting t b" and dn: "\<forall>t b r. p \<noteq> Done t b (Some r)"
  shows "dsys_inv (s\<lparr>ph := (ph s)(c := p)\<rparr>)" (is "dsys_inv ?s")
proof -
  note d = dsys_invD [OF inv]
  have tg': "has_tag (ph ?s c') u x = has_tag (ph s c') u x" for c' u x using tg by simp
  have snt: "sent s u x \<Longrightarrow> sent ?s u x" for u x using wr(1) by (auto simp: sent_def split: option.splits)
  have "tags_inv ?s" using inv unfolding dsys_inv_def tags_inv_def tg' by simp
  moreover have "calls_inv ?s" by (rule calls_inv_ph [of s]) (use inv pe in \<open>auto simp: dsys_inv_def\<close>)
  moreover have fl: "flight ?s = flight s" "unserved ?s = unserved s" by (simp_all add: flight_def unserved_def)
  have "flight_inv ?s" by (rule flight_invI; unfold fl) (use d(4-6) snt in blast)+
  moreover have "(t, x, rep, ok) \<in> set (execd s)" if "ph ?s c' = Done t x (Some (rep, ok))" for c' t x rep ok
    using that dn d(10) by (auto split: if_splits)
  then have "exec_inv ?s" using d(7-9) snt by (intro exec_invI) (auto simp: fl)
  moreover have "reader_inv ?s (rd ?s)" by (rule reader_inv_ph [of s]) (use d(11) pe wr(2) in \<open>auto simp: flight_def\<close>)
  ultimately show ?thesis by (simp add: dsys_inv_def)
qed

lemma step_put_closed: "dsys_inv s \<Longrightarrow> ph s c = Tagged t b \<Longrightarrow> dsys_inv (s\<lparr>ph := (ph s)(c := Done t b None)\<rparr>)"
  by (rule step_phase) auto

lemma step_write_err: "dsys_inv s \<Longrightarrow> ph s c = Registered t b \<Longrightarrow> dsys_inv (s\<lparr>ph := (ph s)(c := Waiting t b)\<rparr>)"
  by (rule step_phase) auto

lemma registered_not_sent: "dsys_inv s \<Longrightarrow> ph s c = Registered t b \<Longrightarrow> \<not> sent s t x"
  using dsys_invD(1) [of s c t b] by (auto simp: sent_def)

lemma step_write:
  assumes inv: "dsys_inv s" and c: "ph s c = Registered t b"
  shows "dsys_inv (s\<lparr>ph := (ph s)(c := Waiting t b), to_srv := to_srv s @ [(t, b)]\<rparr>)" (is "dsys_inv ?s")
proof -
  let ?s1 = "s\<lparr>ph := (ph s)(c := Waiting t b)\<rparr>"
  have inv1: "dsys_inv ?s1" by (rule step_write_err [OF inv c])
  note d = dsys_invD [OF inv] and d1 = dsys_invD [OF inv1]
  have fl: "set (flight ?s) = insert t (set (flight s))" "flight ?s1 = flight s" "unserved ?s1 = unserved s" "set (unserved ?s) = insert (t, b) (set (unserved s))"
    by (auto simp: flight_def unserved_def)
  have nt: "t \<notin> set (flight s)" "t \<notin> fst ` set (unserved s)" "t \<notin> fst ` set (execd s)"
    using d(5,6,8) registered_not_sent [OF inv c] by fastforce+
  have own: "sent ?s t b" using d(1) [of c t b] c by (simp add: sent_def)
  have snt: "sent ?s1 u x \<Longrightarrow> sent ?s u x" for u x by (auto simp: sent_def split: option.splits)
  have "tags_inv ?s" "calls_inv ?s" using inv1 by (simp_all add: dsys_inv_def tags_inv_def calls_inv_def)
  moreover have "distinct (flight ?s)" using d(4) nt(1) by (auto simp: flight_def)
  then have "flight_inv ?s"
    by (rule flight_invI; unfold fl) (use d1(5,6) own snt in \<open>unfold fl, blast\<close>)+
  moreover have "distinct (map fst (execd s) @ map fst (unserved ?s))" using d(7) nt by (auto simp: unserved_def image_Un)
  then have "exec_inv ?s" by (intro exec_invI) (use d1(8-10) snt in auto)
  moreover have "reader_inv ?s (rd ?s)"
  proof (cases "rd s")
    case Reading
    then show ?thesis using d(3) [of c t] d(11) c fl by auto
  next
    case (Handing c' x nxt)
    have "calls s t \<noteq> None" if "nxt = None" using d(3) [of c t] d(11) c Handing that by auto
    then show ?thesis using d1(11) Handing fl by (cases nxt) auto
  qed (use d1(11) in auto)
  ultimately show ?thesis by (simp add: dsys_inv_def)
qed

text \<open>Steps of the server: messages move, none is made up.\<close>

lemma step_server:
  assumes inv: "dsys_inv s"
    and same: "cl s' = cl s" "ph s' = ph s" "rd s' = rd s" "owner s' = owner s" "issued s' = issued s"
    and fl: "distinct (flight s')" "set (flight s') \<subseteq> set (flight s)" "set (unserved s') \<subseteq> set (unserved s)"
    and ex: "exec_inv s'" "set (execd s) \<subseteq> set (execd s')"
  shows "dsys_inv s'"
proof -
  note d = dsys_invD [OF inv]
  have snt: "sent s' = sent s" by (rule sent_cong [OF same(4,2)])
  have "tags_inv s'" "calls_inv s'" using inv by (simp_all add: dsys_inv_def tags_inv_def calls_inv_def same)
  moreover have "flight_inv s'" unfolding flight_inv_def snt using fl d(5,6) by blast
  moreover have "reader_inv s' (rd s')" unfolding same(3) by (rule reader_inv_ph [of s]) (use d(11) same fl(2) ex(2) in auto)
  ultimately show ?thesis using ex(1) by (simp add: dsys_inv_def)
qed

lemma step_srv_read:
  assumes inv: "dsys_inv s" and q: "to_srv s = (t, b) # q"
  shows "dsys_inv (s\<lparr>to_srv := q, serving := (t, b) # serving s\<rparr>)"
proof -
  note d = dsys_invD [OF inv]
  have "exec_inv (s\<lparr>to_srv := q, serving := (t, b) # serving s\<rparr>)"
    by (rule exec_invI) (use d(7-10) q in \<open>auto simp: unserved_def\<close>)
  then show ?thesis by (intro step_server [OF inv]) (use d(4) q in \<open>auto simp: flight_def unserved_def\<close>)
qed

lemma step_srv_serve:
  assumes inv: "dsys_inv s" and q: "serving s = xs @ (t, b) # ys"
  shows "dsys_inv (s\<lparr>serving := xs @ ys, answered := (t, rep, ok) # answered s, srv_st := st', execd := execd s @ [(t, b, rep, ok)]\<rparr>)"
    (is "dsys_inv ?s")
proof -
  note d = dsys_invD [OF inv]
  have snt: "sent ?s = sent s" by simp
  have tb: "sent s t b" using d(6) [of t b] q by (simp add: unserved_def)
  have dist: "distinct (map fst (execd ?s) @ map fst (unserved ?s))" using d(7) q by (auto simp: unserved_def)
  have ans: "\<exists>b. (u, b, r, k) \<in> set (execd ?s)" if "(u, r, k) \<in> set (answered ?s @ to_cl ?s)" for u r k using that d(9) [of u r k] by auto
  have "exec_inv ?s" by (rule exec_invI [OF dist _ ans]) (use d(8,10) snt tb in auto)
  then show ?thesis by (intro step_server [OF inv]) (use d(4) q in \<open>auto simp: flight_def unserved_def\<close>)
qed

lemma step_srv_write:
  assumes inv: "dsys_inv s" and q: "answered s = xs @ m # ys"
  shows "dsys_inv (s\<lparr>answered := xs @ ys, to_cl := to_cl s @ [m]\<rparr>)" "dsys_inv (s\<lparr>answered := xs @ ys\<rparr>)"
proof -
  note d = dsys_invD [OF inv]
  have "exec_inv (s\<lparr>answered := xs @ ys, to_cl := to_cl s @ [m]\<rparr>)" "exec_inv (s\<lparr>answered := xs @ ys\<rparr>)"
    by (rule exec_invI; use d(7-10) q in \<open>auto simp: unserved_def\<close>)+
  then show "dsys_inv (s\<lparr>answered := xs @ ys, to_cl := to_cl s @ [m]\<rparr>)" "dsys_inv (s\<lparr>answered := xs @ ys\<rparr>)"
    by (intro step_server [OF inv]; use d(4) q in \<open>auto simp: flight_def unserved_def\<close>)+
qed

text \<open>Steps of the client's reader.\<close>

lemma dc_reply_eq:
  "dc_reply t dmx = Inr (dmx', c) \<Longrightarrow>
     cm_calls (dc_callmap dmx) t = Some c \<and> dmx' = dmx\<lparr>dc_callmap := (dc_callmap dmx)\<lparr>cm_calls := (cm_calls (dc_callmap dmx))(t := None)\<rparr>\<rparr>"
  by (auto simp: dc_reply_def cm_remove_def split: option.splits)

lemma pending_owner:
  assumes "dsys_inv s" "pending (ph s c) t"
  shows "\<exists>b. owner s t = Some (c, b) \<and> (ph s c = Registered t b \<or> ph s c = Waiting t b)"
  using dsys_invD(1) [OF assms(1), of c t] assms(2) by (cases "ph s c") auto

lemma calls_inv_remove:
  assumes inv: "dsys_inv s" and c: "calls s t = Some c" and nh: "\<And>c r nxt. rd s \<noteq> Handing c r nxt"
    and s': "ph s' = ph s" "calls s' = (calls s)(t := None)" "rd s' = Handing c r nxt"
  shows "calls_inv s'"
proof -
  note d = dsys_invD [OF inv]
  have one: "c' = c" if "pending (ph s c') t" for c'
    using pending_owner [OF inv that] pending_owner [OF inv d(2) [OF c]] by auto
  have all: "calls s u = Some c'" if "pending (ph s c') u" for c' u using d(3) [OF that] nh by blast
  show ?thesis
  proof (rule calls_invI; unfold s')
    fix c' u assume "((calls s)(t := None)) u = Some c'"
    then show "pending (ph s c') u" using d(2) by (simp split: if_splits)
  next
    fix c' u assume p: "pending (ph s c') u"
    show "((calls s)(t := None)) u = Some c' \<or> (\<exists>r' nxt'. Handing c r nxt = Handing c' r' nxt')"
      using one p all [OF p] by (cases "u = t") auto
  qed
qed

lemma step_rd_reply:
  assumes inv: "dsys_inv s" and rd: "rd s = Reading" "to_cl s = (t, rep, ok) # q" "dc_reply t (cl s) = Inr (cl', c)"
  shows "dsys_inv (s\<lparr>to_cl := q, cl := cl', rd := Handing c (Some (rep, ok)) None\<rparr>)" (is "dsys_inv ?s")
proof -
  note d = dsys_invD [OF inv]
  have c: "calls s t = Some c" "calls ?s = (calls s)(t := None)" "dc_nextTag cl' = dc_nextTag (cl s)" using dc_reply_eq [OF rd(3)] by simp_all
  have t: "t \<in> set (flight s)" "set (flight ?s) \<subseteq> set (flight s)" "t \<notin> set (flight ?s)" "distinct (flight ?s)" "unserved ?s = unserved s"
    using d(4) rd(2) by (auto simp: flight_def unserved_def)
  obtain b where b: "owner s t = Some (c, b)" "ph s c = Registered t b \<or> ph s c = Waiting t b" using pending_owner [OF inv d(2) [OF c(1)]] by blast
  then have w: "ph s c = Waiting t b" using d(5) [OF t(1)] by (auto simp: sent_def)
  have "\<exists>b. (t, b, rep, ok) \<in> set (execd s)" using d(9) [of t rep ok] rd(2) by simp
  then have ex: "(t, b, rep, ok) \<in> set (execd s)" using d(8) b(1) by (fastforce simp: sent_def)
  have "tags_inv ?s" using inv c(3) by (simp add: dsys_inv_def tags_inv_def)
  moreover have "calls_inv ?s" by (rule calls_inv_remove [OF inv c(1)]) (use rd(1) c(2) in auto)
  moreover have "flight_inv ?s" using t d(5,6) unfolding flight_inv_def by auto
  moreover have "exec_inv ?s" by (rule exec_invI) (use d(7-10) rd(2) t(5) in auto)
  moreover have "reader_inv ?s (rd ?s)" using d(11) rd(1) t(2,3) w ex c(2) by auto
  ultimately show ?thesis by (simp add: dsys_inv_def)
qed

lemma step_rd_hand:
  assumes inv: "dsys_inv s" and rd: "rd s = Handing c r nxt" "ph s c = Waiting t b"
  shows "dsys_inv (s\<lparr>ph := (ph s)(c := Done t b r), rd := (case nxt of None \<Rightarrow> Reading | Some ts \<Rightarrow> Draining ts)\<rparr>)" (is "dsys_inv ?s")
proof -
  note d = dsys_invD [OF inv]
  have nt: "calls s t = None" using d(11) rd by (cases nxt) auto
  have ex: "(t, b, rep, ok) \<in> set (execd s)" if "r = Some (rep, ok)" for rep ok using d(11) rd that by (cases nxt) auto
  have tg: "has_tag (ph ?s c') u x = has_tag (ph s c') u x" for c' u x using rd(2) by simp
  have snt: "sent ?s u x = sent s u x" for u x using rd(2) by (auto simp: sent_def split: option.splits)
  have fl: "flight ?s = flight s" "unserved ?s = unserved s" by (simp_all add: flight_def unserved_def)
  have nc: "calls s u \<noteq> Some c" for u using d(2) [of u c] rd(2) nt by auto
  have "calls_inv ?s"
  proof (rule calls_invI)
    fix c' u assume "calls ?s u = Some c'"
    then show "pending (ph ?s c') u" using d(2) [of u c'] nc [of u] by (cases "c' = c") simp_all
  next
    fix c' u assume "pending (ph ?s c') u"
    then have "pending (ph s c') u" "c' \<noteq> c" by (cases "c' = c"; simp)+
    then show "calls ?s u = Some c' \<or> (\<exists>r nxt. rd ?s = Handing c' r nxt)" using d(3) [of c' u] rd(1) by auto
  qed
  moreover have "tags_inv ?s" using inv unfolding dsys_inv_def tags_inv_def tg by simp
  moreover have "flight_inv ?s" using inv unfolding dsys_inv_def flight_inv_def fl snt by simp
  moreover have "(u, x, rep, ok) \<in> set (execd s)" if "ph ?s c' = Done u x (Some (rep, ok))" for c' u x rep ok
    using that ex d(10) by (auto split: if_splits)
  then have "exec_inv ?s" using d(7-9) snt by (intro exec_invI) (auto simp: fl)
  moreover have "reader_inv ?s (rd ?s)" using d(11) rd(1) fl by (cases nxt) auto
  ultimately show ?thesis by (simp add: dsys_inv_def)
qed

text \<open>The steps of the reader and of \<open>Close\<close> that leave calls and messages alone.\<close>

lemma step_quiet:
  assumes inv: "dsys_inv s" and same: "ph s' = ph s" "to_srv s' = to_srv s" "serving s' = serving s" "answered s' = answered s" "to_cl s' = to_cl s"
      "owner s' = owner s" "issued s' = issued s" "execd s' = execd s" "calls s' = calls s" "dc_nextTag (cl s') = dc_nextTag (cl s)"
    and nh: "(\<forall>c r nxt. rd s \<noteq> Handing c r nxt) \<or> rd s' = rd s" and rd: "reader_inv s' (rd s')"
  shows "dsys_inv s'"
proof -
  have snt: "sent s' = sent s" by (rule sent_cong [OF same(6,1)])
  have fl: "flight s' = flight s" "unserved s' = unserved s" by (simp_all add: flight_def unserved_def same)
  have "calls_inv s'"
  proof (rule calls_invI; unfold same)
    fix c t assume "pending (ph s c) t"
    from dsys_invD(3) [OF inv this] show "calls s t = Some c \<or> (\<exists>r nxt. rd s' = Handing c r nxt)" using nh by metis
  qed (rule dsys_invD(2) [OF inv])
  moreover have "tags_inv s'" using inv by (simp add: dsys_inv_def tags_inv_def same)
  moreover have "flight_inv s'" "exec_inv s'" using inv by (simp_all add: dsys_inv_def flight_inv_def exec_inv_def snt fl same)
  ultimately show ?thesis using rd by (simp add: dsys_inv_def)
qed

lemma step_rd_drain:
  assumes inv: "dsys_inv s" and rd: "rd s = Draining (t # ts)" "dc_reply t (cl s) = Inr (cl', c)"
  shows "dsys_inv (s\<lparr>cl := cl', rd := Handing c None (Some ts)\<rparr>)" (is "dsys_inv ?s")
proof -
  note d = dsys_invD [OF inv]
  have c: "calls s t = Some c" "calls ?s = (calls s)(t := None)" "dc_nextTag cl' = dc_nextTag (cl s)" "is_closed ?s = is_closed s"
    using dc_reply_eq [OF rd(2)] by simp_all
  have fl: "flight ?s = flight s" "unserved ?s = unserved s" by (simp_all add: flight_def unserved_def)
  have "calls_inv ?s" by (rule calls_inv_remove [OF inv c(1)]) (use rd(1) c(2) in auto)
  moreover have "tags_inv ?s" using inv c(3) by (simp add: dsys_inv_def tags_inv_def)
  moreover have "flight_inv ?s" "exec_inv ?s" using inv by (simp_all add: dsys_inv_def flight_inv_def exec_inv_def fl)
  moreover have "set ts = dom (calls s) - {t}" "distinct ts" "is_closed s" using d(11) rd(1) by auto
  then have "reader_inv ?s (rd ?s)" using d(2) [OF c(1)] c by auto
  ultimately show ?thesis by (simp add: dsys_inv_def)
qed

lemma close_fields:
  "cm_calls (dc_callmap (dc_Close dmx)) = cm_calls (dc_callmap dmx)" "dc_nextTag (dc_Close dmx) = dc_nextTag dmx"
  "cm_closed (dc_callmap (dc_Close dmx))"
  by (simp_all add: dc_Close_def cm_isClosed_def cm_close_def)

lemma reader_inv_close:
  assumes "reader_inv s r"
  shows "reader_inv (s\<lparr>cl := dc_Close (cl s)\<rparr>) r"
proof (cases r)
  case (Handing c x nxt)
  then show ?thesis using assms by (cases nxt) (auto simp: close_fields flight_def)
qed (use assms in \<open>auto simp: close_fields flight_def\<close>)

interpretation dmx: invariant_system dsys_init "dstep serve" dsys_inv for serve
proof
  fix s :: "'a dsys" assume "dsys_init s"
  then show "dsys_inv s" by (rule init_inv)
next
  fix s t :: "'a dsys" assume inv: "dsys_inv s" and "dstep serve s t"
  note d = dsys_invD(11) [OF inv]
  from \<open>dstep serve s t\<close> show "dsys_inv t"
  proof (cases rule: dstep.cases)
    case rd_fail
    show ?thesis unfolding rd_fail(1) by (rule step_quiet [OF inv]) (use rd_fail(2) in \<open>auto simp: cm_close_def\<close>)
  next
    case (rd_outstanding ts)
    show ?thesis unfolding rd_outstanding(1) by (rule step_quiet [OF inv]) (use rd_outstanding(2,3) d in \<open>auto simp: cm_outstanding_def\<close>)
  next
    case rd_done
    show ?thesis unfolding rd_done(1) by (rule step_quiet [OF inv]) (use rd_done(2) d in auto)
  next
    case (srv_serve xs u b ys st' v rep ok)
    have "v = u" using srv_serve(3) by (simp add: ds_goroutine_def split: prod.splits)
    then show ?thesis unfolding srv_serve(1) using step_srv_serve [OF inv srv_serve(2)] by simp
  next
    case user_close
    show ?thesis unfolding user_close(1) by (rule step_quiet [OF inv]) (use reader_inv_close [OF d] in \<open>auto simp: close_fields\<close>)
  qed (simp_all only: step_tag [OF inv] step_put [OF inv] step_put_closed [OF inv] step_write [OF inv] step_write_err [OF inv]
    step_srv_read [OF inv] step_srv_serve [OF inv] step_srv_write [OF inv] step_rd_reply [OF inv] step_rd_hand [OF inv] step_rd_drain [OF inv])
qed

section \<open>What the calls get\<close>

text \<open>The log of executions is a run of the server, one request after the other.\<close>

fun log_ok :: "('s \<Rightarrow> bytes \<Rightarrow> 's \<times> bytes \<times> bool) \<Rightarrow> 's \<Rightarrow> (Ttag \<times> bytes \<times> bytes \<times> bool) list \<Rightarrow> 's \<Rightarrow> bool" where
  "log_ok serve st [] st' = (st' = st)"
| "log_ok serve st ((t, b, rep, ok) # es) st' = (case serve st b of (st1, r) \<Rightarrow> r = (rep, ok) \<and> log_ok serve st1 es st')"

lemma log_ok_append: "log_ok serve st (es @ fs) st' \<longleftrightarrow> (\<exists>st1. log_ok serve st es st1 \<and> log_ok serve st1 fs st')"
  by (induction es arbitrary: st) (auto split: prod.splits)

lemma log_ok_step: "dstep serve s t \<Longrightarrow> log_ok serve st0 (execd s) (srv_st s) \<Longrightarrow> log_ok serve st0 (execd t) (srv_st t)"
  by (induction rule: dstep.induct) (auto simp: log_ok_append ds_goroutine_def split: prod.splits)

lemma log_ok_reach:
  assumes "reach (\<lambda>s. dsys_init s \<and> srv_st s = st0) (dstep serve) s"
  shows "reach dsys_init (dstep serve) s" "log_ok serve st0 (execd s) (srv_st s)"
  using assms
proof (induction rule: reach.induct)
  case (reach_init s)
  { case 1 show ?case using reach_init by (intro reach.intros(1)) simp }
  { case 2 show ?case using reach_init by (simp add: dsys_init_def) }
next
  case (reach_step s t)
  { case 1 show ?case using reach.intros(2) [where init = dsys_init, OF reach_step.IH(1) reach_step.hyps(2)] . }
  { case 2 show ?case by (rule log_ok_step [OF reach_step.hyps(2) reach_step.IH(2)]) }
qed

text \<open>C19: with any number of concurrent calls on a connection (less than 2^32 in all) and a connection that may break, a call
  that returns without error returns the server's answer to its own request: the log of what the server executed is a sequential
  run of the server, it has exactly one entry with the call's tag, which holds the call's request and the answer the call
  returned, and no other call has that tag.\<close>

theorem demux_replies_match:
  assumes run: "reach (\<lambda>s. dsys_init s \<and> srv_st s = st0) (dstep serve) s" and fin: "ph s c = Done t b (Some (rep, ok))"
  shows "log_ok serve st0 (execd s) (srv_st s)
    \<and> (\<exists>us vs. execd s = us @ (t, b, rep, ok) # vs \<and> t \<notin> fst ` set (us @ vs))
    \<and> (\<forall>c' b'. has_tag (ph s c') t b' \<longrightarrow> c' = c)"
proof -
  have inv: "dsys_inv s" by (rule dmx.reach_inv [OF log_ok_reach(1) [OF run]])
  note d = dsys_invD [OF inv]
  obtain us vs where e: "execd s = us @ (t, b, rep, ok) # vs" using split_list [OF d(10) [OF fin]] by blast
  have "t \<notin> fst ` set (us @ vs)" using d(7) e by auto
  moreover have "c' = c" if "has_tag (ph s c') t b'" for c' b'
    using that d(1) [of c' t b'] d(1) [of c t b] fin by simp
  ultimately show ?thesis using log_ok_reach(2) [OF run] e by blast
qed

section \<open>When the connection breaks\<close>

lemma reply_found:
  assumes inv: "dsys_inv s" and t: "calls s t \<noteq> None"
  shows "\<exists>cl' c. dc_reply t (cl s) = Inr (cl', c) \<and> calls s t = Some c"
  using t by (auto simp: dc_reply_def cm_remove_def)

lemma drain_one:
  assumes inv: "dsys_inv s" and rd: "rd s = Draining (t # ts)"
  shows "\<exists>s' c b. (dstep serve)\<^sup>*\<^sup>* s s' \<and> rd s' = Draining ts \<and> dsys_inv s' \<and> has_tag (ph s c) t b \<and> ph s' = (ph s)(c := Done t b None)"
proof -
  have "calls s t \<noteq> None" using dsys_invD(11) [OF inv] rd by auto
  from reply_found [OF inv this] obtain cl' c where r: "dc_reply t (cl s) = Inr (cl', c)" "calls s t = Some c" by blast
  let ?s1 = "s\<lparr>cl := cl', rd := Handing c None (Some ts)\<rparr>"
  have s1: "dstep serve s ?s1" by (rule dstep.rd_drain [OF rd r(1)])
  obtain b where b: "owner s t = Some (c, b)" "ph s c = Registered t b \<or> ph s c = Waiting t b"
    using pending_owner [OF inv dsys_invD(2) [OF inv r(2)]] by blast
  let ?s2 = "?s1\<lparr>ph := (ph s)(c := Waiting t b)\<rparr>"
  have s2: "(dstep serve)\<^sup>*\<^sup>* ?s1 ?s2"
  proof (cases "ph s c = Waiting t b")
    case True
    then have "(ph s)(c := Waiting t b) = ph s" by auto
    then show ?thesis by simp
  next
    case False
    then have "ph ?s1 c = Registered t b" using b(2) by simp
    from dstep.sr_write_err [OF this, of serve] show ?thesis by (simp add: r_into_rtranclp)
  qed
  let ?s3 = "?s2\<lparr>ph := (ph ?s2)(c := Done t b None), rd := (case Some ts of None \<Rightarrow> Reading | Some ts \<Rightarrow> Draining ts)\<rparr>"
  have s3: "dstep serve ?s2 ?s3" by (rule dstep.rd_hand [of ?s2 c None "Some ts" t b]) simp_all
  have steps: "(dstep serve)\<^sup>*\<^sup>* s ?s3" using s1 s2 s3 by (meson converse_rtranclp_into_rtranclp rtranclp.rtrancl_into_rtrancl)
  have "dsys_inv ?s3" using steps inv by (induction rule: rtranclp_induct) (blast intro: dmx.step_inv)+
  moreover have "has_tag (ph s c) t b" using b(2) by auto
  moreover have "ph ?s3 = (ph s)(c := Done t b None)" "rd ?s3 = Draining ts" by simp_all
  ultimately show ?thesis using steps by blast
qed

text \<open>What draining makes of a call.\<close>

fun failed_call :: "phase \<Rightarrow> phase" where
  "failed_call (Registered t b) = Done t b None"
| "failed_call (Waiting t b) = Done t b None"
| "failed_call p = p"

lemma drain_all:
  "dsys_inv s \<Longrightarrow> rd s = Draining ts \<Longrightarrow> \<exists>s'. (dstep serve)\<^sup>*\<^sup>* s s' \<and> rd s' = Finished \<and> (\<forall>c. ph s' c = failed_call (ph s c))"
proof (induction ts arbitrary: s)
  case Nil
  have "calls s = Map.empty" using dsys_invD(11) [OF Nil.prems(1)] Nil.prems(2) by auto
  then have np: "\<not> pending (ph s c) t" for c t using dsys_invD(3) [OF Nil.prems(1), of c t] Nil.prems(2) by auto
  have "failed_call (ph s c) = ph s c" for c using np [of c] by (cases "ph s c") auto
  then show ?case using dstep.rd_done [OF Nil.prems(2), of serve] by (intro exI [of _ "s\<lparr>rd := Finished\<rparr>"]) auto
next
  case (Cons t ts)
  obtain s1 c b where s1: "(dstep serve)\<^sup>*\<^sup>* s s1" "rd s1 = Draining ts" "dsys_inv s1" "has_tag (ph s c) t b" "ph s1 = (ph s)(c := Done t b None)"
    using drain_one [OF Cons.prems] by blast
  obtain s' where s': "(dstep serve)\<^sup>*\<^sup>* s1 s'" "rd s' = Finished" "\<forall>c. ph s' c = failed_call (ph s1 c)" using Cons.IH [OF s1(3,2)] by blast
  have ct: "calls s t \<noteq> None" using dsys_invD(11) [OF Cons.prems(1)] Cons.prems(2) by auto
  then obtain c0 where "pending (ph s c0) t" "calls s t = Some c0" using dsys_invD(2) [OF Cons.prems(1)] by blast
  then have "c0 = c" using pending_owner [OF Cons.prems(1)] s1(4) dsys_invD(1) [OF Cons.prems(1), of c t b] by fastforce
  then have "failed_call (ph s c) = Done t b None" using \<open>pending (ph s c0) t\<close> s1(4) by (cases "ph s c") auto
  then have "failed_call (ph s1 x) = failed_call (ph s x)" for x using s1(5) by simp
  then show ?case using s' s1(1) by (metis rtranclp_trans)
qed

text \<open>From the moment its reads fail the reader has a bounded amount of work left: it takes the list of the calls, and for each of
  them waits until the call listens.\<close>

definition broken :: "reader \<Rightarrow> bool" where
  "broken r = (case r of Reading \<Rightarrow> False | Handing _ _ nxt \<Rightarrow> nxt \<noteq> None | _ \<Rightarrow> True)"

definition work :: "'s dsys \<Rightarrow> nat" where
  "work s = (case rd s of
       Closing \<Rightarrow> 3 * card (dom (calls s)) + 2
     | Draining ts \<Rightarrow> 3 * length ts + 1
     | Handing c r (Some ts) \<Rightarrow> 3 * length ts + (case ph s c of Registered _ _ \<Rightarrow> 3 | _ \<Rightarrow> 2)
     | _ \<Rightarrow> 0)"

lemma broken_simps [simp]:
  "broken Closing" "broken (Draining ts)" "broken Finished" "\<not> broken Reading" "broken (Handing c r nxt) = (nxt \<noteq> None)"
  by (simp_all add: broken_def)

lemma broken_closed: "dsys_inv s \<Longrightarrow> broken (rd s) \<Longrightarrow> is_closed s"
  using dsys_invD(11) [of s] by (auto simp: broken_def split: reader.splits)

lemma work_cong:
  "rd s' = rd s \<Longrightarrow> calls s' = calls s \<Longrightarrow> ph s' = ph s \<Longrightarrow> work s' = work s"
  by (simp add: work_def split: reader.splits option.splits)

text \<open>No step of anybody adds to the work, or brings the reader back; a step that leaves the work as it is neither moves the
  reader nor the call that it waits for.\<close>

lemma work_step:
  assumes inv: "dsys_inv s" and st: "dstep serve s t" and br: "broken (rd s)"
  shows "broken (rd t) \<and> work t \<le> work s \<and> (work t = work s \<longrightarrow> rd t = rd s \<and> (\<forall>c r ts. rd s = Handing c r (Some ts) \<longrightarrow> ph t c = ph s c))"
  using st
proof cases
  case (sr_tag c cl' t b)
  have "cm_calls (dc_callmap cl') = calls s" using sr_tag(4) by (auto simp: dc_tag_def)
  moreover have "c' \<noteq> c" if "rd s = Handing c' r (Some ts)" for c' r ts
    using dsys_invD(11) [OF inv] that sr_tag(2) by auto
  ultimately show ?thesis using sr_tag(1) br by (auto simp: work_def split: reader.splits option.splits)
next
  case (sr_put c t b cm)
  then show ?thesis using broken_closed [OF inv br] by (simp add: cm_put_def)
next
  case (sr_put_closed c t b)
  have "c' \<noteq> c" if "rd s = Handing c' r (Some ts)" for c' r ts
    using dsys_invD(11) [OF inv] that sr_put_closed(2) by auto
  then show ?thesis using sr_put_closed(1) br by (auto simp: work_def split: reader.splits option.splits)
next
  case (sr_write c t b)
  then show ?thesis using br by (auto simp: work_def split: reader.splits option.splits)
next
  case (sr_write_err c t b)
  then show ?thesis using br by (auto simp: work_def split: reader.splits option.splits)
next
  case (rd_hand c r nxt t b)
  then show ?thesis using br by (auto simp: work_def)
next
  case (rd_outstanding ts)
  then have "length ts = card (dom (calls s))" by (auto simp: cm_outstanding_def distinct_card [symmetric])
  then show ?thesis using rd_outstanding by (simp add: work_def)
next
  case (rd_drain t ts cl' c)
  then show ?thesis by (auto simp: work_def split: phase.splits)
next
  case (user_close)
  have "calls (s\<lparr>cl := dc_Close (cl s)\<rparr>) = calls s" by (simp add: dc_Close_def cm_close_def)
  then show ?thesis using user_close br by (auto simp: work_def split: reader.splits option.splits)
qed (use br in \<open>auto simp: work_def split: reader.splits option.splits\<close>)

lemma broken_hand: "dsys_inv s \<Longrightarrow> broken (rd s) \<Longrightarrow> rd s = Handing c r nxt \<Longrightarrow> r = None"
  using dsys_invD(11) [of s] by auto

text \<open>What happens to a call once the connection is broken: it returns with an error, or stays as it is, or goes on to wait.\<close>

lemma broken_call_step:
  assumes inv: "dsys_inv s" and st: "dstep serve s t" and br: "broken (rd s)" and begun: "ph s c \<noteq> Idle"
  shows "ph t c = ph s c \<or> (\<exists>u b. ph s c = Registered u b \<and> ph t c = Waiting u b)
    \<or> (\<exists>u b. ph t c = Done u b None \<and> (ph s c = Tagged u b \<or> ph s c = Waiting u b))"
  using st
proof cases
  case (sr_put c t b cm)
  then show ?thesis using broken_closed [OF inv br] by (simp add: cm_put_def)
next
  case (rd_hand c r nxt t b)
  then show ?thesis using broken_hand [OF inv br rd_hand(2)] by auto
qed (use begun in auto)

section \<open>Runs that treat every goroutine fairly\<close>

text \<open>An infinite run, in which nothing may happen for a while; and weak fairness: the reader and every call under way move
  again and again, or are found unable to.\<close>

definition drun :: "('s \<Rightarrow> bytes \<Rightarrow> 's \<times> bytes \<times> bool) \<Rightarrow> (nat \<Rightarrow> 's dsys) \<Rightarrow> bool" where
  "drun serve \<sigma> \<longleftrightarrow> dsys_init (\<sigma> 0) \<and> (\<forall>k. dstep serve (\<sigma> k) (\<sigma> (Suc k)) \<or> \<sigma> (Suc k) = \<sigma> k)"

definition fair :: "('s \<Rightarrow> bytes \<Rightarrow> 's \<times> bytes \<times> bool) \<Rightarrow> (nat \<Rightarrow> 's dsys) \<Rightarrow> bool" where
  "fair serve \<sigma> \<longleftrightarrow>
     (\<forall>n. \<exists>k \<ge> n. rd (\<sigma> (Suc k)) \<noteq> rd (\<sigma> k) \<or> \<not> (\<exists>s'. dstep serve (\<sigma> k) s' \<and> rd s' \<noteq> rd (\<sigma> k)))
   \<and> (\<forall>c n. \<exists>k \<ge> n. ph (\<sigma> (Suc k)) c \<noteq> ph (\<sigma> k) c \<or> ph (\<sigma> k) c = Idle \<or> \<not> (\<exists>s'. dstep serve (\<sigma> k) s' \<and> ph s' c \<noteq> ph (\<sigma> k) c))"

lemma drun_step: "drun serve \<sigma> \<Longrightarrow> dstep serve (\<sigma> k) (\<sigma> (Suc k)) \<or> \<sigma> (Suc k) = \<sigma> k"
  by (simp add: drun_def)

lemma drun_inv: "drun serve \<sigma> \<Longrightarrow> dsys_inv (\<sigma> k)"
proof (induction k)
  case 0
  then show ?case by (simp add: drun_def init_inv)
next
  case (Suc k)
  then show ?case using dmx.step_inv [of "\<sigma> k" serve "\<sigma> (Suc k)"] drun_step [of serve \<sigma> k] by auto
qed

lemma drun_broken:
  assumes run: "drun serve \<sigma>" and br: "broken (rd (\<sigma> n))" and k: "n \<le> k"
  shows "broken (rd (\<sigma> k)) \<and> work (\<sigma> k) \<le> work (\<sigma> n)"
  using k
proof (induction k rule: dec_induct)
  case (step k)
  then show ?case using drun_step [OF run, of k] work_step [OF drun_inv [OF run, of k], of serve "\<sigma> (Suc k)"] by fastforce
qed (use br in simp)

lemma reader_enabled:
  assumes inv: "dsys_inv s" and rd: "rd s = Closing \<or> (\<exists>ts. rd s = Draining ts) \<or> (\<exists>c r nxt t b. rd s = Handing c r nxt \<and> ph s c = Waiting t b)"
  shows "\<exists>s'. dstep serve s s' \<and> rd s' \<noteq> rd s"
  using rd
proof (elim disjE exE conjE)
  assume c: "rd s = Closing"
  obtain ts where "distinct ts" "set ts = dom (calls s)" using finite_distinct_list [of "dom (calls s)"] by auto
  then have "dstep serve s (s\<lparr>rd := Draining ts\<rparr>)" by (intro dstep.rd_outstanding [OF c]) (simp add: cm_outstanding_def)
  then show ?thesis using c by (intro exI [of _ "s\<lparr>rd := Draining ts\<rparr>"]) simp
next
  fix ts assume d: "rd s = Draining ts"
  show ?thesis
  proof (cases ts)
    case Nil
    then show ?thesis using dstep.rd_done [of s serve] d by (intro exI [of _ "s\<lparr>rd := Finished\<rparr>"]) simp
  next
    case (Cons t us)
    then have "calls s t \<noteq> None" using dsys_invD(11) [OF inv] d by auto
    from reply_found [OF inv this] obtain cl' c where "dc_reply t (cl s) = Inr (cl', c)" by blast
    from dstep.rd_drain [OF d [unfolded Cons] this, of serve] show ?thesis using d
      by (intro exI [of _ "s\<lparr>cl := cl', rd := Handing c None (Some us)\<rparr>"]) simp
  qed
next
  fix c r nxt t b assume h: "rd s = Handing c r nxt" "ph s c = Waiting t b"
  from dstep.rd_hand [OF h, of serve] show ?thesis using h
    by (intro exI [of _ "s\<lparr>ph := (ph s)(c := Done t b r), rd := (case nxt of None \<Rightarrow> Reading | Some ts \<Rightarrow> Draining ts)\<rparr>"]) (simp split: option.splits)
qed

text \<open>While the reader is not finished the work shrinks.\<close>

lemma work_shrinks:
  assumes run: "drun serve \<sigma>" and fair: "fair serve \<sigma>" and br: "broken (rd (\<sigma> n))" and w: "rd (\<sigma> n) \<noteq> Finished"
  shows "\<exists>k \<ge> n. work (\<sigma> k) < work (\<sigma> n)"
proof (rule ccontr)
  assume "\<not> ?thesis"
  then have same: "work (\<sigma> k) = work (\<sigma> n)" if "n \<le> k" for k using drun_broken [OF run br that] that by (meson le_antisym not_le)
  have still: "rd (\<sigma> (Suc k)) = rd (\<sigma> k) \<and> (\<forall>c r ts. rd (\<sigma> k) = Handing c r (Some ts) \<longrightarrow> ph (\<sigma> (Suc k)) c = ph (\<sigma> k) c)" if "n \<le> k" for k
    using drun_step [OF run, of k] work_step [OF drun_inv [OF run, of k], of serve "\<sigma> (Suc k)"] drun_broken [OF run br that] same [of k] same [of "Suc k"] that
    by auto
  have frozen: "rd (\<sigma> k) = rd (\<sigma> n) \<and> (\<forall>c r ts. rd (\<sigma> n) = Handing c r (Some ts) \<longrightarrow> ph (\<sigma> k) c = ph (\<sigma> n) c)" if "n \<le> k" for k
    using that
  proof (induction k rule: dec_induct)
    case (step k)
    then show ?case using still [of k] by auto
  qed simp
  obtain k where k: "n \<le> k" "\<not> (\<exists>s'. dstep serve (\<sigma> k) s' \<and> rd s' \<noteq> rd (\<sigma> k))"
    using fair still unfolding fair_def by metis
  then have "\<not> (rd (\<sigma> n) = Closing \<or> (\<exists>ts. rd (\<sigma> n) = Draining ts) \<or> (\<exists>c r nxt t b. rd (\<sigma> n) = Handing c r nxt \<and> ph (\<sigma> k) c = Waiting t b))"
    using reader_enabled [OF drun_inv [OF run, of k], of serve] frozen [OF k(1)] by auto
  then obtain c r ts where h: "rd (\<sigma> n) = Handing c r (Some ts)" "\<not> (\<exists>t b. ph (\<sigma> k) c = Waiting t b)"
    using br w by (cases "rd (\<sigma> n)") auto
  then have "\<exists>t. pending (ph (\<sigma> k) c) t" using dsys_invD(11) [OF drun_inv [OF run, of k]] frozen [OF k(1)] by auto
  then obtain t b where reg: "ph (\<sigma> n) c = Registered t b" using h frozen [OF k(1)] by (cases "ph (\<sigma> n) c") auto
  have "\<exists>s'. dstep serve (\<sigma> m) s' \<and> ph s' c \<noteq> ph (\<sigma> m) c" if "n \<le> m" for m
  proof -
    have "ph (\<sigma> m) c = Registered t b" using frozen [OF that] h(1) reg by simp
    from dstep.sr_write_err [OF this, of serve] this show ?thesis by (intro exI [of _ "(\<sigma> m)\<lparr>ph := (ph (\<sigma> m))(c := Waiting t b)\<rparr>"]) simp
  qed
  moreover have "ph (\<sigma> (Suc m)) c = ph (\<sigma> m) c" "ph (\<sigma> m) c \<noteq> Idle" if "n \<le> m" for m
    using still [OF that] frozen [OF that] h(1) reg by auto
  ultimately show False using fair unfolding fair_def by blast
qed

lemma reader_finishes:
  assumes run: "drun serve \<sigma>" and fair: "fair serve \<sigma>" and br: "broken (rd (\<sigma> n))"
  shows "\<exists>k \<ge> n. rd (\<sigma> k) = Finished"
  using br
proof (induction "work (\<sigma> n)" arbitrary: n rule: less_induct)
  case less
  show ?case
  proof (cases "rd (\<sigma> n) = Finished")
    case False
    obtain k where k: "n \<le> k" "work (\<sigma> k) < work (\<sigma> n)" using work_shrinks [OF run fair less.prems False] by blast
    from less.hyps [OF k(2)] drun_broken [OF run less.prems k(1)] k(1) show ?thesis by (meson le_trans)
  qed auto
qed

lemma stays_finished:
  assumes run: "drun serve \<sigma>" and fin: "rd (\<sigma> n) = Finished" and k: "n \<le> k"
  shows "rd (\<sigma> k) = Finished"
  using k
proof (induction k rule: dec_induct)
  case (step k)
  then show ?case using drun_step [OF run, of k] by (auto elim: dstepE)
qed (use fin in simp)

lemma finished_no_pending: "dsys_inv s \<Longrightarrow> rd s = Finished \<Longrightarrow> \<forall>t. \<not> pending (ph s c) t"
  using dsys_invD(3) [of s c] dsys_invD(11) [of s] by fastforce

lemma begun_stays:
  assumes run: "drun serve \<sigma>" and begun: "ph (\<sigma> i) c \<noteq> Idle" and k: "i \<le> k"
  shows "ph (\<sigma> k) c \<noteq> Idle"
  using k
proof (induction k rule: dec_induct)
  case (step k)
  then show ?case using drun_step [OF run, of k] by (auto elim!: dstepE split: if_splits)
qed (use begun in simp)

text \<open>A call that has not returned when the connection breaks can only return with an error.\<close>

lemma broken_result:
  assumes run: "drun serve \<sigma>" and br: "broken (rd (\<sigma> n))" and k: "n \<le> k" and d: "ph (\<sigma> k) c = Done t b r" "ph (\<sigma> n) c \<noteq> Done t b r"
  shows "r = None"
  using k d
proof (induction k rule: dec_induct)
  case (step k)
  show ?case
  proof (cases "ph (\<sigma> (Suc k)) c = ph (\<sigma> k) c")
    case False
    then have st: "dstep serve (\<sigma> k) (\<sigma> (Suc k))" using drun_step [OF run, of k] by auto
    have "ph (\<sigma> k) c \<noteq> Idle" using st step.prems(1) by (auto elim!: dstepE split: if_splits)
    from broken_call_step [OF drun_inv [OF run] st _ this] drun_broken [OF run br step.hyps(1)] False step.prems show ?thesis by auto
  qed (use step in simp)
qed simp

text \<open>Once the reader is finished, a call under way returns at its next step.\<close>

lemma finished_returns:
  assumes run: "drun serve \<sigma>" and fair: "fair serve \<sigma>" and fin: "rd (\<sigma> n) = Finished" and begun: "ph (\<sigma> n) c \<noteq> Idle"
  shows "\<exists>k \<ge> n. \<exists>t b r. ph (\<sigma> k) c = Done t b r"
proof (rule ccontr)
  assume no: "\<not> ?thesis"
  have tg: "\<exists>t b. ph (\<sigma> k) c = Tagged t b" if "n \<le> k" "ph (\<sigma> k) c \<noteq> Idle" for k
    using no that finished_no_pending [OF drun_inv [OF run] stays_finished [OF run fin that(1)], of c] by (cases "ph (\<sigma> k) c") auto
  have still: "ph (\<sigma> (Suc k)) c = ph (\<sigma> k) c" if "n \<le> k" "ph (\<sigma> k) c \<noteq> Idle" for k
  proof -
    have "broken (rd (\<sigma> k))" using stays_finished [OF run fin that(1)] by simp
    from broken_call_step [OF drun_inv [OF run] _ this that(2), of serve "\<sigma> (Suc k)"] drun_step [OF run, of k] tg [OF that] no that(1)
    show ?thesis by (metis le_Suc_eq phase.distinct(9))
  qed
  have frozen: "ph (\<sigma> k) c = ph (\<sigma> n) c" if "n \<le> k" for k
    using that by (induction k rule: dec_induct) (use still begun in auto)
  have "\<exists>s'. dstep serve (\<sigma> k) s' \<and> ph s' c \<noteq> ph (\<sigma> k) c" if k: "n \<le> k" for k
  proof -
    obtain t b where "ph (\<sigma> k) c = Tagged t b" using tg [OF k] frozen [OF k] begun by auto
    moreover have "is_closed (\<sigma> k)" using broken_closed [OF drun_inv [OF run, of k]] stays_finished [OF run fin k] by simp
    ultimately have "dstep serve (\<sigma> k) ((\<sigma> k)\<lparr>ph := (ph (\<sigma> k))(c := Done t b None)\<rparr>)" by (intro dstep.sr_put_closed) (simp_all add: cm_put_def)
    then show ?thesis using \<open>ph (\<sigma> k) c = Tagged t b\<close> by (intro exI [of _ "(\<sigma> k)\<lparr>ph := (ph (\<sigma> k))(c := Done t b None)\<rparr>"]) simp
  qed
  then show False using fair still frozen begun unfolding fair_def by metis
qed

text \<open>C36: no reply, and no failure handed out by the reader, finds its call missing, so the client never stops with
  \<open>no matching req\<close>. And when the reader gives up, in every run in which the reader and the calls under way keep moving, it
  finishes, and every call, begun before or after, returns: with an error, unless it had returned before.\<close>

theorem demux_failure_drains:
  assumes run: "drun serve \<sigma>" and fair: "fair serve \<sigma>" and broke: "rd (\<sigma> n) = Closing" and begun: "ph (\<sigma> i) c \<noteq> Idle"
  shows "(\<forall>k t rep ok q. rd (\<sigma> k) = Reading \<and> to_cl (\<sigma> k) = (t, rep, ok) # q \<longrightarrow> (\<exists>cl' d. dc_reply t (cl (\<sigma> k)) = Inr (cl', d)))
    \<and> (\<forall>k t ts. rd (\<sigma> k) = Draining (t # ts) \<longrightarrow> (\<exists>cl' d. dc_reply t (cl (\<sigma> k)) = Inr (cl', d)))
    \<and> (\<exists>k \<ge> n. rd (\<sigma> k) = Finished)
    \<and> (\<exists>k \<ge> n. \<exists>t b r. ph (\<sigma> k) c = Done t b r \<and> (r = None \<or> ph (\<sigma> n) c = Done t b r))"
proof -
  note inv = drun_inv [OF run]
  have br: "broken (rd (\<sigma> n))" using broke by simp
  have rply: "\<exists>cl' d. dc_reply t (cl (\<sigma> k)) = Inr (cl', d)" if "rd (\<sigma> k) = Reading \<and> to_cl (\<sigma> k) = (t, rep, ok) # q" for k t rep ok q
    using reply_found [OF inv, of k t] dsys_invD(11) [OF inv, of k] that by (auto simp: flight_def)
  have drn: "\<exists>cl' d. dc_reply t (cl (\<sigma> k)) = Inr (cl', d)" if "rd (\<sigma> k) = Draining (t # ts)" for k t ts
    using reply_found [OF inv, of k t] dsys_invD(11) [OF inv, of k] that by auto
  obtain k where k: "n \<le> k" "rd (\<sigma> k) = Finished" using reader_finishes [OF run fair br] by blast
  have stays: "ph (\<sigma> (max i k)) c \<noteq> Idle" by (rule begun_stays [OF run begun]) simp
  have "rd (\<sigma> (max i k)) = Finished" by (rule stays_finished [OF run k(2)]) simp
  from finished_returns [OF run fair this stays] obtain m t b r where m: "max i k \<le> m" "ph (\<sigma> m) c = Done t b r" by blast
  have nm: "n \<le> m" using m(1) k(1) by simp
  have "r = None \<or> ph (\<sigma> n) c = Done t b r" using broken_result [OF run br nm m(2)] by blast
  then have "\<exists>k \<ge> n. \<exists>t b r. ph (\<sigma> k) c = Done t b r \<and> (r = None \<or> ph (\<sigma> n) c = Done t b r)" using m(2) nm by blast
  moreover have "\<exists>k \<ge> n. rd (\<sigma> k) = Finished" using k by blast
  ultimately show ?thesis using rply drn by (intro conjI allI impI) assumption+
qed

section \<open>A run\<close>

text \<open>One call of an echoing server that counts, from start to end.\<close>

definition demo_serve :: "nat \<Rightarrow> bytes \<Rightarrow> nat \<times> bytes \<times> bool" where
  "demo_serve n b = (Suc n, b, True)"

definition demo_dsys :: "nat dsys" where
  "demo_dsys = \<lparr>cl = NewDemuxClnt, ph = (\<lambda>_. Idle), rd = Reading, to_srv = [], serving = [], answered = [], to_cl = [], srv_st = 0,
     owner = Map.empty, issued = 1, execd = []\<rparr>"

lemma demo_dsys_init: "dsys_init demo_dsys"
  by (simp add: dsys_init_def demo_dsys_def)

lemma demo_call:
  "\<exists>s. (dstep demo_serve)\<^sup>*\<^sup>* demo_dsys s \<and> ph s = (\<lambda>_. Idle)(0 := Waiting 1 [7]) \<and> rd s = Reading \<and> serving s = [(1, [7])] \<and> calls s = [1 \<mapsto> 0] \<and> answered s = [] \<and> to_cl s = []"
proof -
  let ?s1 = "demo_dsys\<lparr>cl := (cl demo_dsys)\<lparr>dc_nextTag := 2\<rparr>, ph := (ph demo_dsys)(0 := Tagged 1 [7]), owner := (owner demo_dsys)(1 \<mapsto> (0, [7])), issued := issued demo_dsys + 1\<rparr>"
  have s1: "dstep demo_serve demo_dsys ?s1"
    by (rule dstep.sr_tag) (simp_all add: demo_dsys_def dc_tag_def NewDemuxClnt_def)
  let ?cm = "\<lparr>cm_closed = False, cm_calls = [1 \<mapsto> 0]\<rparr>"
  let ?s2 = "?s1\<lparr>cl := (cl ?s1)\<lparr>dc_callmap := ?cm\<rparr>, ph := (ph ?s1)(0 := Registered 1 [7])\<rparr>"
  have s2: "dstep demo_serve ?s1 ?s2"
    by (rule dstep.sr_put) (simp_all add: demo_dsys_def dc_tag_def NewDemuxClnt_def newCallMap_def cm_put_def)
  let ?s3 = "?s2\<lparr>ph := (ph ?s2)(0 := Waiting 1 [7]), to_srv := to_srv ?s2 @ [(1, [7])]\<rparr>"
  have s3: "dstep demo_serve ?s2 ?s3" by (rule dstep.sr_write) simp
  let ?s4 = "?s3\<lparr>to_srv := [], serving := (1, [7]) # serving ?s3\<rparr>"
  have s4: "dstep demo_serve ?s3 ?s4" by (rule dstep.srv_read) (simp add: demo_dsys_def)
  have "(dstep demo_serve)\<^sup>*\<^sup>* demo_dsys ?s4" using s1 s2 s3 s4 by (meson converse_rtranclp_into_rtranclp r_into_rtranclp)
  then show ?thesis by (intro exI [of _ ?s4]) (simp add: demo_dsys_def)
qed

lemma demo_returns:
  "\<exists>s. reach (\<lambda>s. dsys_init s \<and> srv_st s = 0) (dstep demo_serve) s \<and> ph s 0 = Done 1 [7] (Some ([7], True))"
proof -
  obtain s where s: "(dstep demo_serve)\<^sup>*\<^sup>* demo_dsys s" "ph s = (\<lambda>_. Idle)(0 := Waiting 1 [7])" "rd s = Reading" "serving s = [(1, [7])]" "calls s = [1 \<mapsto> 0]"
    "answered s = []" "to_cl s = []" using demo_call by blast
  let ?s1 = "s\<lparr>serving := [], answered := (1, [7], True) # answered s, srv_st := Suc (srv_st s), execd := execd s @ [(1, [7], [7], True)]\<rparr>"
  have s1: "dstep demo_serve s ?s1" using dstep.srv_serve [of s "[]" 1 "[7]" "[]" demo_serve] s(4) by (simp add: demo_serve_def ds_goroutine_def)
  let ?s2 = "?s1\<lparr>answered := [], to_cl := [(1, [7], True)]\<rparr>"
  have s2: "dstep demo_serve ?s1 ?s2" using dstep.srv_write [of ?s1 "[]" "(1, [7], True)" "[]" demo_serve] s(6,7) by simp
  let ?cl = "(cl s)\<lparr>dc_callmap := (dc_callmap (cl s))\<lparr>cm_calls := (calls s)(1 := None)\<rparr>\<rparr>"
  let ?s3 = "?s2\<lparr>to_cl := [], cl := ?cl, rd := Handing 0 (Some ([7], True)) None\<rparr>"
  have s3: "dstep demo_serve ?s2 ?s3" by (rule dstep.rd_reply [of ?s2 1 "[7]" True "[]"]) (use s(3,5) in \<open>simp_all add: dc_reply_def cm_remove_def\<close>)
  let ?s4 = "?s3\<lparr>ph := (ph ?s3)(0 := Done 1 [7] (Some ([7], True))), rd := Reading\<rparr>"
  have s4: "dstep demo_serve ?s3 ?s4" using dstep.rd_hand [of ?s3 0 "Some ([7], True)" None 1 "[7]" demo_serve] s(2) by simp
  have "(dstep demo_serve)\<^sup>*\<^sup>* s ?s4" using s1 s2 s3 s4 by (meson converse_rtranclp_into_rtranclp r_into_rtranclp)
  with s(1) have steps: "(dstep demo_serve)\<^sup>*\<^sup>* demo_dsys ?s4" by (rule rtranclp_trans)
  have "srv_st demo_dsys = 0" by (simp add: demo_dsys_def)
  then have "reach (\<lambda>s. dsys_init s \<and> srv_st s = 0) (dstep demo_serve) ?s4"
    by (intro reach_steps [OF reach_init steps]) (simp add: demo_dsys_init)
  then show ?thesis by (intro exI [of _ ?s4]) simp
qed

theorem demux_replies_match_witness:
  "\<exists>s us vs. reach (\<lambda>s. dsys_init s \<and> srv_st s = 0) (dstep demo_serve) s \<and> ph s 0 = Done 1 [7] (Some ([7], True))
     \<and> execd s = us @ (1, [7], [7], True) # vs \<and> 1 \<notin> fst ` set (us @ vs)"
proof -
  obtain s where s: "reach (\<lambda>s. dsys_init s \<and> srv_st s = 0) (dstep demo_serve) s" "ph s 0 = Done 1 [7] (Some ([7], True))"
    using demo_returns by blast
  from demux_replies_match [where c = 0, OF s] s show ?thesis by blast
qed

text \<open>A run that ends in a state in which the reader is finished and no call is under way is fair.\<close>

lemma idle_stuck:
  assumes "rd s = Finished" "\<forall>c. ph s c = Idle \<or> (\<exists>t b r. ph s c = Done t b r)" "dstep serve s s'"
  shows "rd s' = rd s \<and> (\<forall>c. ph s c \<noteq> Idle \<longrightarrow> ph s' c = ph s c)"
proof -
  have "ph s c \<noteq> Tagged t b" "ph s c \<noteq> Registered t b" "ph s c \<noteq> Waiting t b" for c t b using spec [OF assms(2), of c] by auto
  then show ?thesis using assms(3,1) by (auto elim!: dstepE)
qed

lemma finished_run:
  assumes init: "dsys_init s0" and pre: "(dstep serve)\<^sup>*\<^sup>* s0 s1" and post: "(dstep serve)\<^sup>*\<^sup>* s1 s2"
    and quiet: "rd s2 = Finished" "\<forall>c. ph s2 c = Idle \<or> (\<exists>t b r. ph s2 c = Done t b r)"
  shows "\<exists>\<sigma> n. drun serve \<sigma> \<and> fair serve \<sigma> \<and> \<sigma> n = s1"
proof -
  obtain n f where f: "f 0 = s0" "f n = s1" "\<And>i. i < n \<Longrightarrow> dstep serve (f i) (f (Suc i))"
    using pre unfolding rtranclp_power relpowp_fun_conv by blast
  obtain m g where g: "g 0 = s1" "g m = s2" "\<And>i. i < m \<Longrightarrow> dstep serve (g i) (g (Suc i))"
    using post unfolding rtranclp_power relpowp_fun_conv by blast
  define \<sigma> where "\<sigma> k = (if k \<le> n then f k else g (min (k - n) m))" for k
  have "dstep serve (\<sigma> k) (\<sigma> (Suc k)) \<or> \<sigma> (Suc k) = \<sigma> k" for k
  proof (cases "k < n")
    case False
    then have "\<sigma> k = g (min (k - n) m)" "\<sigma> (Suc k) = g (min (Suc (k - n)) m)"
      using f(2) g(1) by (auto simp: \<sigma>_def Suc_diff_le not_less le_antisym)
    then show ?thesis using g(3) [of "k - n"] by (cases "k - n < m") (simp_all add: min_def)
  qed (use f(3) in \<open>simp add: \<sigma>_def\<close>)
  then have run: "drun serve \<sigma>" using init f(1) by (simp add: drun_def \<sigma>_def)
  have last: "\<sigma> k = s2" if "n + m < k" for k using that g(2) by (simp add: \<sigma>_def)
  have "fair serve \<sigma>" unfolding fair_def
  proof (intro conjI allI)
    fix j :: nat
    have e: "\<sigma> (j + Suc (n + m)) = s2" by (rule last) simp
    show "\<exists>k\<ge>j. rd (\<sigma> (Suc k)) \<noteq> rd (\<sigma> k) \<or> \<not> (\<exists>s'. dstep serve (\<sigma> k) s' \<and> rd s' \<noteq> rd (\<sigma> k))"
      using idle_stuck [OF quiet, of serve] e by (intro exI [of _ "j + Suc (n + m)"]) auto
    fix c
    show "\<exists>k\<ge>j. ph (\<sigma> (Suc k)) c \<noteq> ph (\<sigma> k) c \<or> ph (\<sigma> k) c = Idle \<or> \<not> (\<exists>s'. dstep serve (\<sigma> k) s' \<and> ph s' c \<noteq> ph (\<sigma> k) c)"
      using idle_stuck [OF quiet, of serve] e by (intro exI [of _ "j + Suc (n + m)"]) auto
  qed
  then show ?thesis using run f(2) by (intro exI [of _ \<sigma>] exI [of _ n]) (simp add: \<sigma>_def)
qed

theorem demux_failure_drains_witness:
  "\<exists>\<sigma> n k. drun demo_serve \<sigma> \<and> rd (\<sigma> n) = Closing \<and> ph (\<sigma> n) 0 = Waiting 1 [7] \<and> n \<le> k \<and> (\<exists>t b. ph (\<sigma> k) 0 = Done t b None)"
proof -
  obtain s where s: "(dstep demo_serve)\<^sup>*\<^sup>* demo_dsys s" "ph s = (\<lambda>_. Idle)(0 := Waiting 1 [7])" "rd s = Reading" using demo_call by blast
  let ?s1 = "s\<lparr>cl := (cl s)\<lparr>dc_callmap := cm_close (dc_callmap (cl s))\<rparr>, rd := Closing\<rparr>"
  have pre: "(dstep demo_serve)\<^sup>*\<^sup>* demo_dsys ?s1" using s(1) dstep.rd_fail [OF s(3), of demo_serve] by (rule rtranclp.rtrancl_into_rtrancl)
  obtain ts where ts: "distinct ts" "set ts = dom (calls ?s1)" using finite_distinct_list [of "dom (calls ?s1)"] by auto
  have st: "dstep demo_serve ?s1 (?s1\<lparr>rd := Draining ts\<rparr>)" by (rule dstep.rd_outstanding) (use ts in \<open>simp_all add: cm_outstanding_def\<close>)
  have "dsys_inv (?s1\<lparr>rd := Draining ts\<rparr>)"
    by (rule dmx.reach_inv [where serve = demo_serve], rule reach_steps [where init = dsys_init, OF reach_init [where init = dsys_init, OF demo_dsys_init]])
      (rule rtranclp.rtrancl_into_rtrancl [OF pre st])
  from drain_all [OF this, of ts demo_serve] obtain s2 where s2: "(dstep demo_serve)\<^sup>*\<^sup>* (?s1\<lparr>rd := Draining ts\<rparr>) s2" "rd s2 = Finished"
    "\<forall>c. ph s2 c = failed_call (ph s c)" by auto
  have q: "\<forall>c. ph s2 c = Idle \<or> (\<exists>t b r. ph s2 c = Done t b r)" using s2(3) s(2) by auto
  from finished_run [OF demo_dsys_init pre converse_rtranclp_into_rtranclp [OF st s2(1)] s2(2) q]
  obtain \<sigma> n where r: "drun demo_serve \<sigma>" "fair demo_serve \<sigma>" "\<sigma> n = ?s1" by blast
  have c: "rd (\<sigma> n) = Closing" "ph (\<sigma> n) 0 = Waiting 1 [7]" using r(3) s(2) by simp_all
  have "ph (\<sigma> n) 0 \<noteq> Idle" "\<And>t b r. ph (\<sigma> n) 0 \<noteq> Done t b r" using c(2) by simp_all
  with demux_failure_drains [OF r(1,2) c(1), of n 0] obtain k t b where "n \<le> k" "ph (\<sigma> k) 0 = Done t b None" by metis
  then show ?thesis using r(1) c by blast
qed

end
