(* ===== verification/Rsm.thy ===== *)
theory Rsm
  imports Raft
begin

text \<open>
  The replicated state machine package \<open>src/src/kvraft1/rsm\<close>: the interface \<open>StateMachine\<close> that a replicated service implements
  (\<open>rsm.go\<close>), \<open>MakeRSM\<close> and \<open>Submit\<close> as they stand in the repository, where \<open>Submit\<close> always sends the client to another
  server, and the counter of the tests that implements the interface (\<open>server.go\<close>). The gob encoding of a snapshot is a parameter.
\<close>

section \<open>The interface\<close>

text \<open>What \<open>DoOp\<close>, \<open>Snapshot\<close> and \<open>Restore\<close> promise each other: a restored snapshot stands for the state it was taken of. \<open>obs\<close> is the
  part of the state the operations depend on. Operations may end the process.\<close>

locale state_machine =
  fixes DoOp :: "'req \<Rightarrow> 's \<Rightarrow> ('s \<times> 'rep) res"
    and Snap :: "'s \<Rightarrow> bytes"
    and Restor :: "bytes \<Rightarrow> 's \<Rightarrow> 's res"
    and obs :: "'s \<Rightarrow> 'o"
  assumes restore_snapshot: "\<exists>s'. Restor (Snap s) s0 = Inr s' \<and> obs s' = obs s"
    and op_obs: "obs s = obs t \<Longrightarrow> DoOp r s = Inr (s', p) \<Longrightarrow> \<exists>t'. DoOp r t = Inr (t', p) \<and> obs t' = obs s'"
begin

text \<open>A sequence of operations with their replies.\<close>

fun replay :: "'req list \<Rightarrow> 's \<Rightarrow> ('s \<times> 'rep list) res" where
  "replay [] s = Inr (s, [])"
| "replay (r # rs) s = rbind (DoOp r s) (\<lambda>(s1, p). rbind (replay rs s1) (\<lambda>(s2, ps). Inr (s2, p # ps)))"

lemma replay_obs:
  "obs s = obs t \<Longrightarrow> replay rs s = Inr (s', ps) \<Longrightarrow> \<exists>t'. replay rs t = Inr (t', ps) \<and> obs t' = obs s'"
proof (induction rs arbitrary: s t s' ps)
  case (Cons r rs)
  obtain s1 p ps1 where s1: "DoOp r s = Inr (s1, p)" "replay rs s1 = Inr (s', ps1)" "ps = p # ps1"
    using Cons.prems(2) by (auto simp: rbind_eq_Inr)
  obtain t1 where t1: "DoOp r t = Inr (t1, p)" "obs t1 = obs s1" using op_obs [OF Cons.prems(1) s1(1)] by blast
  obtain t' where t': "replay rs t1 = Inr (t', ps1)" "obs t' = obs s'" using Cons.IH [OF t1(2) [symmetric] s1(2)] by blast
  show ?case using t1(1) t' s1(3) by auto
qed auto

lemma replay_append:
  "replay (rs @ qs) s = rbind (replay rs s) (\<lambda>(s1, ps). rbind (replay qs s1) (\<lambda>(s2, ps'). Inr (s2, ps @ ps')))"
proof (induction rs arbitrary: s)
  case Nil
  show ?case by (cases "replay qs s") auto
next
  case (Cons r rs)
  show ?case
  proof (cases "DoOp r s")
    case (Inr x)
    then show ?thesis using Cons.IH by (cases x; cases "replay rs (fst x)") (auto split: prod.splits simp: rbind_def split: sum.splits)
  qed simp
qed

text \<open>A replica that installs a snapshot and executes the rest of the log answers like one that executed the whole log.\<close>

lemma snapshot_then_rest:
  assumes "replay (rs @ qs) s = Inr (s', ps)" "replay rs s = Inr (s1, ps1)"
  shows "\<exists>t1 t'. Restor (Snap s1) t0 = Inr t1 \<and> replay qs t1 = Inr (t', drop (length rs) ps) \<and> obs t' = obs s'"
proof -
  have len: "replay xs x = Inr (y, zs) \<Longrightarrow> length zs = length xs" for xs x y zs
    by (induction xs arbitrary: x y zs) (auto simp: rbind_eq_Inr)
  obtain ps2 where r: "replay qs s1 = Inr (s', ps2)" "ps = ps1 @ ps2" using assms by (auto simp: replay_append rbind_eq_Inr)
  obtain t1 where t1: "Restor (Snap s1) t0 = Inr t1" "obs t1 = obs s1" using restore_snapshot by blast
  have "drop (length rs) ps = ps2" using r(2) len [OF assms(2)] by simp
  then show ?thesis using t1 replay_obs [OF t1(2) [symmetric] r(1)] by auto
qed

end

section \<open>The counter\<close>

datatype cmd = Inc | Null | Dec

datatype crep = IncRep int | NullRep

text \<open>\<open>rsm.rf\<close> is nil when another Raft is plugged in.\<close>

record 'c RSM =
  rsm_me :: nat
  rsm_rf :: "'c Raft option"
  rsm_maxraftstate :: int

record 'c rsmSrv =
  sr_me :: nat
  sr_rsm :: "'c RSM"
  sr_counter :: int

definition MakeRSM :: "(bytes \<Rightarrow> 'c pstate option) \<Rightarrow> int \<Rightarrow> int \<Rightarrow> nat \<Rightarrow> bool \<Rightarrow> nat \<Rightarrow> Persister \<Rightarrow> int \<Rightarrow> 'c RSM res" where
  "MakeRSM dec now r n useRaftStateMachine self ps maxraftstate =
     (let rsm = \<lparr>rsm_me = self, rsm_rf = None, rsm_maxraftstate = maxraftstate\<rparr> in
      if \<not> useRaftStateMachine then rbind (Make dec now r n self ps) (\<lambda>rf. Inr (rsm\<lparr>rsm_rf := Some rf\<rparr>)) else Inr rsm)"

definition rsm_Raft :: "'c RSM \<Rightarrow> 'c Raft option" where
  "rsm_Raft rsm = rsm_rf rsm"

datatype submit_err = OK | ErrWrongLeader

definition rsm_Submit :: "cmd \<Rightarrow> 'c RSM \<Rightarrow> submit_err \<times> crep option" where
  "rsm_Submit req rsm = (ErrWrongLeader, None)"

definition newRSMSrv :: "(bytes \<Rightarrow> 'c pstate option) \<Rightarrow> int \<Rightarrow> int \<Rightarrow> nat \<Rightarrow> bool \<Rightarrow> nat \<Rightarrow> Persister \<Rightarrow> int \<Rightarrow> 'c rsmSrv res" where
  "newRSMSrv dec now r n useRaftStateMachine srv ps maxraftstate =
     rbind (MakeRSM dec now r n useRaftStateMachine srv ps maxraftstate) (\<lambda>rsm.
     Inr \<lparr>sr_me = srv, sr_rsm = rsm, sr_counter = 0\<rparr>)"

definition GetCounter :: "'c rsmSrv \<Rightarrow> int" where
  "GetCounter rs = sr_counter rs"

definition DoOp :: "cmd \<Rightarrow> 'c rsmSrv \<Rightarrow> ('c rsmSrv \<times> crep) res" where
  "DoOp req rs =
     (case req of
        Inc \<Rightarrow> let rs1 = rs\<lparr>sr_counter := sr_counter rs + 1\<rparr> in Inr (rs1, IncRep (sr_counter rs1))
      | Null \<Rightarrow> Inr (rs, NullRep)
      | Dec \<Rightarrow> Inl (LogFatal ''DoOp should execute only Inc''))"

definition sm_Snapshot :: "(int \<Rightarrow> bytes) \<Rightarrow> 'c rsmSrv \<Rightarrow> bytes" where
  "sm_Snapshot enc rs = enc (sr_counter rs)"

definition sm_Restore :: "(bytes \<Rightarrow> int option) \<Rightarrow> bytes \<Rightarrow> 'c rsmSrv \<Rightarrow> 'c rsmSrv res" where
  "sm_Restore dec data rs =
     (case dec data of None \<Rightarrow> Inl (LogFatal ''could not decode counter'') | Some n \<Rightarrow> Inr (rs\<lparr>sr_counter := n\<rparr>))"

definition srv_Submit :: "cmd \<Rightarrow> 'c rsmSrv \<Rightarrow> submit_err \<times> crep option" where
  "srv_Submit req rs = rsm_Submit req (sr_rsm rs)"

section \<open>The counter keeps the contract\<close>

locale counter_codec =
  fixes enc :: "int \<Rightarrow> bytes" and dec :: "bytes \<Rightarrow> int option"
  assumes dec_enc: "dec (enc n) = Some n"
begin
end

sublocale counter_codec \<subseteq> sm: state_machine DoOp "sm_Snapshot enc" "sm_Restore dec" sr_counter
proof (unfold_locales, goal_cases)
  case (1 s s0)
  show ?case by (simp add: sm_Snapshot_def sm_Restore_def dec_enc)
next
  case (2 s t r s' p)
  then show ?case by (cases r) (auto simp: DoOp_def)
qed

text \<open>The sign and the size of the number in unary are such a codec.\<close>

definition unary_enc :: "int \<Rightarrow> bytes" where
  "unary_enc n = (if n < 0 then 1 else 0) # replicate (nat \<bar>n\<bar>) 0"

definition unary_dec :: "bytes \<Rightarrow> int option" where
  "unary_dec b = (case b of [] \<Rightarrow> None | g # r \<Rightarrow> Some (if g = 1 then - int (length r) else int (length r)))"

interpretation unary: counter_codec unary_enc unary_dec
  by unfold_locales (simp add: unary_dec_def unary_enc_def)

section \<open>Replicas of the counter\<close>

text \<open>A replica executes the operations of its log in order.\<close>

fun run_ops :: "cmd list \<Rightarrow> 'c rsmSrv \<Rightarrow> ('c rsmSrv \<times> crep list) res" where
  "run_ops [] rs = Inr (rs, [])"
| "run_ops (r # qs) rs = rbind (DoOp r rs) (\<lambda>(rs1, p). rbind (run_ops qs rs1) (\<lambda>(rs2, ps). Inr (rs2, p # ps)))"

context counter_codec
begin

lemma run_ops_replay: "run_ops qs rs = sm.replay qs rs"
  by (induction qs arbitrary: rs) simp_all

lemma replica_catches_up:
  fixes s t0 :: "'c rsmSrv"
  assumes "run_ops (rs @ qs) s = Inr (s', ps)" "run_ops rs s = Inr (s1, ps1)"
  shows "\<exists>t1 t'. sm_Restore dec (sm_Snapshot enc s1) t0 = Inr t1 \<and> run_ops qs t1 = Inr (t', drop (length rs) ps) \<and> sr_counter t' = sr_counter s'"
  using sm.snapshot_then_rest [of rs qs s s' ps s1 ps1] assms unfolding run_ops_replay by blast

end

lemma run_ops_counts:
  "Dec \<notin> set qs \<Longrightarrow> \<exists>s' ps. run_ops qs s = Inr (s', ps) \<and> sr_counter s' = sr_counter s + int (length (filter (\<lambda>q. q = Inc) qs))"
proof (induction qs arbitrary: s)
  case (Cons q qs)
  show ?case
  proof (cases q)
    case Inc
    then show ?thesis using Cons.IH [of "s\<lparr>sr_counter := sr_counter s + 1\<rparr>"] Cons.prems by (auto simp: DoOp_def)
  next
    case Null
    then show ?thesis using Cons.IH [of s] Cons.prems by (auto simp: DoOp_def)
  qed (use Cons.prems in simp)
qed simp

text \<open>C38: a replica of the counter that restores a snapshot taken after the first operations of a log, whatever its own state was,
  and executes the rest, gives the same replies to the rest and ends with the same counter as the replica that executed the whole
  log; and that counter has grown by the number of \<open>Inc\<close>.\<close>

theorem counter_replica_catches_up:
  fixes s t0 :: "'c rsmSrv"
  assumes codec: "\<And>n. dec (enc n) = Some n" and ops: "Dec \<notin> set (rs @ qs)"
  shows "\<exists>s1 ps1 s' ps t1 t'. run_ops rs s = Inr (s1, ps1) \<and> run_ops (rs @ qs) s = Inr (s', ps)
    \<and> sm_Restore dec (sm_Snapshot enc s1) t0 = Inr t1 \<and> run_ops qs t1 = Inr (t', drop (length rs) ps) \<and> GetCounter t' = GetCounter s'
    \<and> GetCounter s' = GetCounter s + int (length (filter (\<lambda>q. q = Inc) (rs @ qs)))"
proof -
  have cc: "counter_codec enc dec" by (rule counter_codec.intro [OF codec])
  obtain s1 ps1 where r1: "run_ops rs s = Inr (s1, ps1)" using run_ops_counts [of rs s] ops by auto
  obtain s' ps where r: "run_ops (rs @ qs) s = Inr (s', ps)" "sr_counter s' = sr_counter s + int (length (filter (\<lambda>q. q = Inc) (rs @ qs)))"
    using run_ops_counts [OF ops] by blast
  show ?thesis using counter_codec.replica_catches_up [OF cc r(1) r1, of t0] r1 r by (simp add: GetCounter_def)
qed

definition demo_rsm :: "int \<Rightarrow> unit rsmSrv" where
  "demo_rsm n = \<lparr>sr_me = 0, sr_rsm = \<lparr>rsm_me = 0, rsm_rf = None, rsm_maxraftstate = -1\<rparr>, sr_counter = n\<rparr>"

theorem counter_replica_catches_up_witness:
  "\<exists>s1 ps1 t1 t' ps'. run_ops [Inc, Null] (demo_rsm 0) = Inr (s1, ps1) \<and> sm_Restore unary_dec (sm_Snapshot unary_enc s1) (demo_rsm 9) = Inr t1
     \<and> run_ops [Inc] t1 = Inr (t', ps') \<and> GetCounter t' = 2"
proof -
  have "Dec \<notin> set ([Inc, Null] @ [Inc])" by simp
  from counter_replica_catches_up [where enc = unary_enc and dec = unary_dec and s = "demo_rsm 0" and ?t0.0 = "demo_rsm 9", OF unary.dec_enc this]
  show ?thesis by (auto simp: demo_rsm_def GetCounter_def)
qed

end
