(* ===== verification/Daemon.thy ===== *)
theory Daemon
  imports Tester_Group Demux
begin

text \<open>
  The server processes of a test: the command line that the tester builds for a daemon (\<open>src/src/tester1/daemonclnt.go\<close>) and the
  daemon takes apart, the start of the daemon with the persister that the tester sends, and its control RPCs
  (\<open>daemonsrv.go\<close>). The process itself, its sockets and the ten-minute limit are left out.
\<close>

section \<open>The command line\<close>

definition options :: "bool \<Rightarrow> string list" where
  "options useRaftStateMachine = (if useRaftStateMachine then [''--raft-state-machine''] else [])"

definition daemon_args :: "string list \<Rightarrow> bool \<Rightarrow> nat \<Rightarrow> nat \<Rightarrow> string \<Rightarrow> string list \<Rightarrow> string list" where
  "daemon_args pargs useRaftStateMachine gid srv endName endNames =
     pargs @ options useRaftStateMachine @ [itoa gid, itoa srv, itoa (length endNames), endName] @ endNames"

text \<open>\<open>strconv.Atoi\<close>: an optional sign, at least one digit, and a number that fits 64 bits.\<close>

definition digits :: "string \<Rightarrow> int option" where
  "digits s = (if s \<noteq> [] \<and> list_all (\<lambda>c. \<exists>d \<in> set [0..<10]. c = digit d) s then Some (int (atoi s)) else None)"

definition Atoi :: "string \<Rightarrow> int option" where
  "Atoi s =
     (case (case s of [] \<Rightarrow> None
            | c # r \<Rightarrow> if c = CHR ''-'' then map_option uminus (digits r) else if c = CHR ''+'' then digits r else digits s) of
        None \<Rightarrow> None
      | Some n \<Rightarrow> if - (2 ^ 63) \<le> n \<and> n < 2 ^ 63 then Some n else None)"

text \<open>The loop that skips the flags: it stops at the first argument that does not begin with a dash, and an empty argument panics.\<close>

fun skip_flags :: "nat \<Rightarrow> nat \<Rightarrow> string list \<Rightarrow> nat res" where
  "skip_flags i s [] = Inr s"
| "skip_flags i s (a # as) =
     (case a of [] \<Rightarrow> Inl IndexOutOfRange
      | c # _ \<Rightarrow> if c = CHR ''-'' then skip_flags (Suc i) (i + 1) as else Inr s)"

record daemon_cfg =
  dm_gid :: int
  dm_sid :: int
  dm_tester :: string
  dm_endNames :: "string list"
  dm_endName :: string

text \<open>\<open>None\<close> is the error of \<open>Atoi\<close>.\<close>

definition num_arg :: "string list \<Rightarrow> nat \<Rightarrow> int option res" where
  "num_arg args i = rbind (slice_get args (int i)) (\<lambda>a. Inr (Atoi a))"

definition InitDaemon_args :: "string list \<Rightarrow> daemon_cfg option res" where
  "InitDaemon_args args =
     rbind (skip_flags 0 0 args) (\<lambda>s.
     rbind (num_arg args s) (\<lambda>g. case g of None \<Rightarrow> Inr None | Some gid \<Rightarrow>
     rbind (num_arg args (s + 1)) (\<lambda>i. case i of None \<Rightarrow> Inr None | Some sid \<Rightarrow>
     rbind (num_arg args (s + 2)) (\<lambda>k. case k of None \<Rightarrow> Inr None | Some nsrv \<Rightarrow>
     rbind (slice_get args (int (s + 3))) (\<lambda>testerEndName.
     rbind (slice_range args (int (s + 4)) (int (s + 4) + nsrv)) (\<lambda>endNames.
     rbind (slice_get endNames sid) (\<lambda>endName.
     Inr (Some \<lparr>dm_gid = gid, dm_sid = sid, dm_tester = testerEndName, dm_endNames = endNames, dm_endName = endName\<rparr>))))))))"

definition sockctl :: "string \<Rightarrow> string" where
  "sockctl sock = sock @ ''-ctl''"

section \<open>The command line is understood\<close>

definition is_flag :: "string \<Rightarrow> bool" where
  "is_flag a \<longleftrightarrow> (case a of [] \<Rightarrow> False | c # _ \<Rightarrow> c = CHR ''-'')"

lemma skip_flags_all:
  assumes "list_all is_flag fs" "a \<noteq> []" "hd a \<noteq> CHR ''-''"
  shows "skip_flags i i (fs @ a # as) = Inr (i + length fs)"
  using assms(1)
proof (induction fs arbitrary: i)
  case Nil
  then show ?case using assms(2,3) by (cases a) auto
next
  case (Cons f fs)
  then show ?case by (auto simp: is_flag_def split: list.splits)
qed

lemma itoa_head: "hd (itoa n) \<noteq> CHR ''-''" "hd (itoa n) \<noteq> CHR ''+''"
proof -
  obtain d where d: "d < 10" "hd (itoa n) = digit d" using itoa_digits [of "hd (itoa n)" n] by auto
  have "of_char (CHR ''+'') = (43 :: nat)" by simp
  then show "hd (itoa n) \<noteq> CHR ''-''" "hd (itoa n) \<noteq> CHR ''+''" using d digit_neq(1) of_char_digit [OF d(1)] by (auto simp del: char_of_nat)
qed

lemma Atoi_itoa: "n < 2 ^ 63 \<Longrightarrow> Atoi (itoa n) = Some (int n)"
proof -
  assume n: "n < 2 ^ 63"
  have "digits (itoa n) = Some (int n)" using itoa_digits [of _ n] by (fastforce simp: digits_def list_all_iff)
  moreover have "int n < 2 ^ 63" using n by (simp add: of_nat_less_iff [symmetric] del: of_nat_less_iff)
  ultimately show ?thesis using itoa_head [of n] by (cases "itoa n") (auto simp: Atoi_def)
qed

lemma slice_get_skip: "k < length ys \<Longrightarrow> slice_get (xs @ ys) (int (length xs + k)) = Inr (ys ! k)"
  by (simp add: slice_get_def idx_ok_def nth_append nat_int_add)

text \<open>The daemon takes apart the command line that the tester made for it: the group, the server's number, the tester's
  end-point and the names of the ends, whatever flags stand before them.\<close>

theorem daemon_args_understood:
  assumes "list_all is_flag pargs" "gid < 2 ^ 63" "srv < length endNames" "length endNames < 2 ^ 63"
  shows "InitDaemon_args (daemon_args pargs rsm gid srv endName endNames) =
    Inr (Some \<lparr>dm_gid = int gid, dm_sid = int srv, dm_tester = endName, dm_endNames = endNames, dm_endName = endNames ! srv\<rparr>)"
proof -
  let ?fs = "pargs @ options rsm"
  let ?as = "[itoa gid, itoa srv, itoa (length endNames), endName] @ endNames"
  have args: "daemon_args pargs rsm gid srv endName endNames = ?fs @ ?as" by (simp add: daemon_args_def)
  have fs: "list_all is_flag ?fs" using assms(1) by (simp add: options_def is_flag_def)
  have sk: "skip_flags 0 0 (?fs @ ?as) = Inr (length ?fs)"
    using skip_flags_all [OF fs itoa_nonempty [of gid] itoa_head(1), of 0 "tl ?as"] by simp
  have get: "slice_get (?fs @ ?as) (int (length ?fs + k)) = Inr (?as ! k)" if "k < 4" for k
    by (rule slice_get_skip) (use that in simp)
  have rng: "slice_range (?fs @ ?as) (int (length ?fs + 4)) (int (length ?fs + 4) + int (length endNames)) = Inr endNames"
    by (simp add: slice_range_def nat_add_distrib)
  have "srv < 2 ^ 63" using assms(3,4) by linarith
  then show ?thesis
    using get [of 0] get [of 1] get [of 2] get [of 3] rng sk assms(2-4) Atoi_itoa
    unfolding args InitDaemon_args_def num_arg_def by (simp add: slice_get_def idx_ok_def)
qed

theorem daemon_args_understood_witness:
  "InitDaemon_args (daemon_args [''--max-raft-state=1''] False 0 1 ''t'' [''a'', ''b'']) =
    Inr (Some \<lparr>dm_gid = 0, dm_sid = 1, dm_tester = ''t'', dm_endNames = [''a'', ''b''], dm_endName = ''b''\<rparr>)"
  using daemon_args_understood [of "[''--max-raft-state=1'']" 0 1 "[''a'', ''b'']" False "''t''"] by (simp add: is_flag_def)

section \<open>The start of a daemon\<close>

text \<open>The unbuffered channel \<open>ch\<close> joins the main goroutine of the daemon with the handlers of \<open>Init\<close>, which send the persister they
  made, and of \<open>InitWait\<close>, which receive. \<open>MExit\<close>: \<open>InitDaemon\<close> has returned.\<close>

datatype dmain = MWait | MStart | MSignal | MForever | MExit

record daemon =
  dm_pc :: dmain
  dm_persister :: "Persister option"
  dm_serving :: bool
  dm_inits :: "Persister list"
  dm_waits :: nat
  dm_inits_done :: nat
  dm_waits_done :: nat

definition new_daemon :: daemon where
  "new_daemon = \<lparr>dm_pc = MWait, dm_persister = None, dm_serving = False, dm_inits = [], dm_waits = 0, dm_inits_done = 0, dm_waits_done = 0\<rparr>"

inductive daemon_step :: "daemon \<Rightarrow> daemon \<Rightarrow> bool" where
  main_recv: "dm_pc d = MWait \<Longrightarrow> dm_inits d = xs @ p # ys
    \<Longrightarrow> daemon_step d (d\<lparr>dm_pc := MStart, dm_persister := Some p, dm_inits := xs @ ys, dm_inits_done := dm_inits_done d + 1\<rparr>)"
| main_start: "dm_pc d = MStart \<Longrightarrow> daemon_step d (d\<lparr>dm_pc := MSignal, dm_serving := True\<rparr>)"
| main_signal: "dm_pc d = MSignal \<Longrightarrow> dm_waits d = Suc k
    \<Longrightarrow> daemon_step d (d\<lparr>dm_pc := MForever, dm_waits := k, dm_waits_done := dm_waits_done d + 1\<rparr>)"
| main_exit: "dm_pc d = MForever \<Longrightarrow> dm_inits d = xs @ p # ys
    \<Longrightarrow> daemon_step d (d\<lparr>dm_pc := MExit, dm_inits := xs @ ys, dm_inits_done := dm_inits_done d + 1\<rparr>)"
| wait_recv: "dm_waits d = Suc k \<Longrightarrow> dm_inits d = xs @ p # ys
    \<Longrightarrow> daemon_step d (d\<lparr>dm_waits := k, dm_waits_done := dm_waits_done d + 1, dm_inits := xs @ ys, dm_inits_done := dm_inits_done d + 1\<rparr>)"

text \<open>The calls of the tester: \<open>Init\<close> with the contents of its persister \<open>ps\<close>, and \<open>InitWait\<close> once \<open>Init\<close> has returned, each once.\<close>

inductive tester_step :: "Persister \<Rightarrow> bool \<times> bool \<times> daemon \<Rightarrow> bool \<times> bool \<times> daemon \<Rightarrow> bool" for ps where
  call_init: "tester_step ps (False, w, d) (True, w, d\<lparr>dm_inits := dm_inits d @ [daemon_init ps]\<rparr>)"
| call_wait: "dm_inits_done d > 0 \<Longrightarrow> tester_step ps (i, False, d) (i, True, d\<lparr>dm_waits := dm_waits d + 1\<rparr>)"
| daemon: "daemon_step d d' \<Longrightarrow> tester_step ps (i, w, d) (i, w, d')"

text \<open>Where the two calls and the daemon stand with each other.\<close>

fun start_inv :: "Persister \<Rightarrow> bool \<times> bool \<times> daemon \<Rightarrow> bool" where
  "start_inv ps (i, w, d) =
     (case dm_pc d of
        MWait \<Rightarrow> \<not> w \<and> dm_inits_done d = 0 \<and> dm_waits d = 0 \<and> dm_waits_done d = 0 \<and> dm_inits d = (if i then [daemon_init ps] else [])
      | MStart \<Rightarrow> i \<and> dm_inits d = [] \<and> dm_persister d = Some (daemon_init ps) \<and> dm_waits_done d = 0 \<and> dm_waits d = (if w then 1 else 0)
      | MSignal \<Rightarrow> i \<and> dm_inits d = [] \<and> dm_persister d = Some (daemon_init ps) \<and> dm_waits_done d = 0 \<and> dm_waits d = (if w then 1 else 0) \<and> dm_serving d
      | MForever \<Rightarrow> i \<and> w \<and> dm_inits d = [] \<and> dm_persister d = Some (daemon_init ps) \<and> dm_waits d = 0 \<and> dm_serving d
      | MExit \<Rightarrow> False)"

interpretation start: invariant_system "\<lambda>s. s = (False, False, new_daemon)" "tester_step ps" "start_inv ps" for ps
proof
  show "start_inv ps s" if "s = (False, False, new_daemon)" for s using that by (simp add: new_daemon_def)
next
  fix s t assume inv: "start_inv ps s" and "tester_step ps s t"
  from this(2) show "start_inv ps t"
  proof (cases rule: tester_step.cases)
    case (call_init w d)
    then show ?thesis using inv by (auto split: dmain.splits)
  next
    case (call_wait d i)
    then show ?thesis using inv by (auto split: dmain.splits)
  next
    case (daemon d d' i w)
    from daemon(3) show ?thesis using inv unfolding daemon(1,2)
      by (cases rule: daemon_step.cases) (auto split: dmain.splits if_splits simp: append_eq_Cons_conv Cons_eq_append_conv)
  qed
qed

text \<open>When the tester's \<open>InitWait\<close> returns, the daemon has the persisted state that the tester sent with \<open>Init\<close> and its services
  are registered; and the daemon does not leave \<open>InitDaemon\<close>.\<close>

theorem InitWait_ready:
  assumes "reach (\<lambda>s. s = (False, False, new_daemon)) (tester_step ps) (i, w, d)"
  shows "dm_pc d \<noteq> MExit \<and> (dm_waits_done d > 0 \<longrightarrow> dm_serving d \<and> dm_persister d = Some (daemon_init ps))"
  using start.reach_inv [OF assms] by (auto split: dmain.splits)

theorem InitWait_ready_witness:
  "\<exists>d. reach (\<lambda>s. s = (False, False, new_daemon)) (tester_step MakePersister) (True, True, d) \<and> dm_waits_done d = 1 \<and> dm_serving d"
proof -
  let ?R = "reach (\<lambda>s. s = (False, False, new_daemon)) (tester_step MakePersister)"
  let ?p = "daemon_init MakePersister"
  define d1 where "d1 = new_daemon\<lparr>dm_inits := dm_inits new_daemon @ [?p]\<rparr>"
  define d2 where "d2 = d1\<lparr>dm_pc := MStart, dm_persister := Some ?p, dm_inits := [] @ [], dm_inits_done := dm_inits_done d1 + 1\<rparr>"
  define d3 where "d3 = d2\<lparr>dm_waits := dm_waits d2 + 1\<rparr>"
  define d4 where "d4 = d3\<lparr>dm_pc := MSignal, dm_serving := True\<rparr>"
  define d5 where "d5 = d4\<lparr>dm_pc := MForever, dm_waits := 0, dm_waits_done := dm_waits_done d4 + 1\<rparr>"
  note ds = d1_def d2_def d3_def d4_def d5_def new_daemon_def
  have "?R (False, False, new_daemon)" by (rule reach_init) simp
  then have "?R (True, False, d1)" unfolding d1_def by (rule reach_step) (rule tester_step.call_init)
  moreover have "daemon_step d1 d2" unfolding d2_def by (rule daemon_step.main_recv) (simp_all add: ds)
  ultimately have "?R (True, False, d2)" by (blast intro: reach_step tester_step.daemon)
  then have "?R (True, True, d3)" unfolding d3_def by (rule reach_step) (rule tester_step.call_wait, simp add: ds)
  moreover have "daemon_step d3 d4" unfolding d4_def by (rule daemon_step.main_start) (simp add: ds)
  ultimately have "?R (True, True, d4)" by (blast intro: reach_step tester_step.daemon)
  moreover have "daemon_step d4 d5" unfolding d5_def by (rule daemon_step.main_signal) (simp_all add: ds)
  ultimately have r: "?R (True, True, d5)" by (blast intro: reach_step tester_step.daemon)
  have w: "dm_waits_done d5 = 1" by (simp add: ds)
  then show ?thesis using InitWait_ready [OF r] r by auto
qed

section \<open>Control and forwarding\<close>

definition CheckpointPersister :: "Persister \<Rightarrow> bytes \<times> bytes" where
  "CheckpointPersister ps = (let p = Checkpoint ps in (ReadRaftState p, ReadSnapshot p))"

definition StateSize :: "Persister \<Rightarrow> nat \<times> nat" where
  "StateSize ps = (RaftStateSize ps, SnapshotSize ps)"

text \<open>The tester's side of a checkpoint puts the two parts of the reply into a new persister.\<close>

lemma checkpointPersister_reply:
  "checkpointPersister ps = (case CheckpointPersister ps of (raftstate, snap) \<Rightarrow> Save raftstate snap MakePersister)"
  by (simp add: checkpointPersister_def CheckpointPersister_def Let_def)

text \<open>A daemon's calls go to the tester, which puts them into the simulated network.\<close>

record ForwardArgs =
  fa_Method :: string
  fa_End :: string
  fa_Args :: bytes
  fa_Id :: int

record ForwardReply =
  fr_Rep :: bytes
  fr_Ok :: bool

definition tr_Forward :: "ForwardArgs \<Rightarrow> nat \<Rightarrow> nat \<Rightarrow> nat \<Rightarrow> 's Network \<Rightarrow> ('s Network \<times> ForwardReply) res" where
  "tr_Forward args roll1 roll2 roll3 net =
     rbind (LookupEnd (fa_End args) net) (\<lambda>e.
     rbind (rpc net \<lparr>rq_endname = e, rq_svcMeth = fa_Method args, rq_args = fa_Args args\<rparr> roll1 roll2 roll3) (\<lambda>(net', rep).
     case forward_result rep of (b, ok) \<Rightarrow> Inr (net', \<lparr>fr_Rep = b, fr_Ok = ok\<rparr>)))"

text \<open>\<open>id.Add(1)\<close> gives each forwarded call a number of its own. \<open>reply\<close> is what came back over the socket, if anything did.\<close>

definition ds_forward_args :: "int \<Rightarrow> string \<Rightarrow> string \<Rightarrow> bytes \<Rightarrow> int \<times> ForwardArgs" where
  "ds_forward_args idn e mthd b = (idn + 1, \<lparr>fa_Method = mthd, fa_End = e, fa_Args = b, fa_Id = idn + 1\<rparr>)"

definition ds_forward_result :: "ForwardReply option \<Rightarrow> bytes \<times> bool" where
  "ds_forward_result reply = (case reply of None \<Rightarrow> ([], False) | Some r \<Rightarrow> (fr_Rep r, fr_Ok r))"

text \<open>A forwarded call gets the answer the network gives it.\<close>

lemma forward_transparent:
  assumes "fa_End args \<in> nt_ends net" "rpc net \<lparr>rq_endname = fa_End args, rq_svcMeth = fa_Method args, rq_args = fa_Args args\<rparr> r1 r2 r3 = Inr (net', rep)"
  shows "\<exists>reply. tr_Forward args r1 r2 r3 net = Inr (net', reply) \<and> ds_forward_result (Some reply) = (rm_reply rep, rm_ok rep)"
  using assms by (simp add: tr_Forward_def LookupEnd_def forward_result_def ds_forward_result_def)

end
