(* ===== verification/Daemon_Clnt.thy ===== *)
theory Daemon_Clnt
  imports Daemon Tester_Clnts Go_Strings
begin

text \<open>
  The tester's side of a server process (\<open>src/src/tester1/daemonclnt.go\<close>) and the sockets between the two
  (\<open>src/src/tester1/sockrpc\<close>). Of the operating system, the model has the socket files in \<open>/tmp\<close>: listening on a name creates its
  file and fails when there is one, closing a listener removes the file, and a connection can be made while the file is there.
  Whether a process can be started or killed and the answers that come back over a socket are arguments.
\<close>

section \<open>Sockets\<close>

type_synonym socks = "string set"

text \<open>\<open>RPCSrv.listen\<close> up to its loop, and \<open>RPCSrv.Close\<close>.\<close>

definition srv_listen :: "string \<Rightarrow> socks \<Rightarrow> socks res" where
  "srv_listen sock h = (if SockName sock \<in> h then Inl (LogFatal ''tester listen error:'') else Inr (insert (SockName sock) h))"

definition srv_Close :: "string \<Rightarrow> socks \<Rightarrow> socks" where
  "srv_Close sock h = h - {SockName sock}"

text \<open>The loop of \<open>listen\<close>: a server per connection, until \<open>Accept\<close> fails (\<open>None\<close>).\<close>

fun accept_loop :: "'c option list \<Rightarrow> 'c list" where
  "accept_loop [] = []"
| "accept_loop (None # cs) = []"
| "accept_loop (Some c # cs) = c # accept_loop cs"

text \<open>\<open>dial\<close>: \<open>h i\<close> are the socket files at the time of the attempt \<open>i\<close>, a tenth of a second after the one before.\<close>

definition MAXRETRY :: nat where
  "MAXRETRY = 100"

fun dial_loop :: "(nat \<Rightarrow> socks) \<Rightarrow> string \<Rightarrow> nat list \<Rightarrow> nat option" where
  "dial_loop h srvEnd [] = None"
| "dial_loop h srvEnd (i # is) = (if SockName srvEnd \<in> h i then Some i else dial_loop h srvEnd is)"

definition dial :: "(nat \<Rightarrow> socks) \<Rightarrow> string \<Rightarrow> nat option" where
  "dial h srvEnd = dial_loop h srvEnd [0..<MAXRETRY]"

record RPCClnt =
  rc_clnt :: string
  rc_srvEnd :: string

text \<open>\<open>getDmx\<close> and \<open>NewRPCClnt\<close>. The test of \<open>err\<close> after \<open>NewTransport\<close> is of the error of \<open>dial\<close>, which is nil there.\<close>

definition NewRPCClnt :: "(nat \<Rightarrow> socks) \<Rightarrow> string \<Rightarrow> string \<Rightarrow> RPCClnt res" where
  "NewRPCClnt h clntEnd srvEnd =
     (case dial h srvEnd of
        None \<Rightarrow> Inl (LogFatal ''Dial'')
      | Some _ \<Rightarrow> Inr \<lparr>rc_clnt = clntEnd, rc_srvEnd = srvEnd\<rparr>)"

section \<open>Starting a daemon\<close>

text \<open>\<open>strings.LastIndex\<close>\<close>

definition LastIndex :: "string \<Rightarrow> string \<Rightarrow> int" where
  "LastIndex s sub =
     (case filter (\<lambda>i. take (length sub) (drop i s) = sub) [0..<Suc (length s) - length sub] of
        [] \<Rightarrow> -1
      | i # is \<Rightarrow> int (last (i # is)))"

definition daemon_path :: "string \<Rightarrow> string \<Rightarrow> string res" where
  "daemon_path prog cwd = rbind (slice_range cwd 0 (LastIndex cwd ''src'')) (\<lambda>p. Inr (filepath_Join [p, ''src/main'', prog]))"

record DaemonClnt =
  dc_srv :: nat
  dc_server :: string
  dc_endName :: string
  dc_rpcc :: "RPCClnt option"
  dc_rpccClnt :: RPCClnt
  dc_clnt :: Clnt

text \<open>\<open>runDaemon\<close>: \<open>cwd\<close> is the working directory, if it is known, and \<open>start\<close> says whether a process could be started. \<open>None\<close> is an error
  that is returned.\<close>

definition runDaemon :: "string option \<Rightarrow> (string \<Rightarrow> string list \<Rightarrow> bool) \<Rightarrow> (nat \<Rightarrow> socks) \<Rightarrow> bool \<Rightarrow> string \<Rightarrow> string list \<Rightarrow> string \<Rightarrow> nat \<Rightarrow> nat
    \<Rightarrow> string list \<Rightarrow> DaemonClnt option res" where
  "runDaemon cwd start h useRaftStateMachine prog pargs endName gid srv endNames =
     (case cwd of
        None \<Rightarrow> Inr None
      | Some wd \<Rightarrow>
          rbind (daemon_path prog wd) (\<lambda>bin.
          if \<not> start bin (daemon_args pargs useRaftStateMachine gid srv endName endNames) then Inr None
          else rbind (slice_get endNames (int srv)) (\<lambda>e.
               rbind (NewRPCClnt h ''tester'' (sockctl e)) (\<lambda>c.
               Inr (Some \<lparr>dc_srv = srv, dc_server = ServerName gid srv, dc_endName = e, dc_rpcc = None, dc_rpccClnt = c,
                          dc_clnt = makeClntTo None\<rparr>)))))"

text \<open>\<open>DaemonClnt.init\<close> connects to the services once the call of \<open>Init\<close> has come back, or has failed.\<close>

definition dc_init :: "(nat \<Rightarrow> socks) \<Rightarrow> DaemonClnt \<Rightarrow> DaemonClnt res" where
  "dc_init h dc = rbind (NewRPCClnt h ''tester'' (dc_endName dc)) (\<lambda>c. Inr (dc\<lparr>dc_rpcc := Some c\<rparr>))"

section \<open>Calls to a daemon\<close>

text \<open>\<open>Call\<close> and \<open>forward\<close>: \<open>r\<close> is what came back over the socket. Before \<open>init\<close> there is no connection.\<close>

definition dc_Call :: "(bytes \<Rightarrow> 'r option) \<Rightarrow> (bytes \<times> bool) option \<Rightarrow> DaemonClnt \<Rightarrow> 'r option res" where
  "dc_Call dec r dc = (case dc_rpcc dc of None \<Rightarrow> Inl NilDereference | Some _ \<Rightarrow> RPCMarshall_result dec r)"

definition dc_forward :: "(bytes \<times> bool) option \<Rightarrow> DaemonClnt \<Rightarrow> (bytes \<times> bool) res" where
  "dc_forward r dc = (case dc_rpcc dc of None \<Rightarrow> Inl NilDereference | Some _ \<Rightarrow> Inr (RPC_result r))"

definition dc_stateSize :: "(bytes \<Rightarrow> (nat \<times> nat) option) \<Rightarrow> (bytes \<times> bool) option \<Rightarrow> (nat \<times> nat) res" where
  "dc_stateSize dec r =
     rbind (RPCMarshall_result dec r) (\<lambda>reply. case reply of None \<Rightarrow> Inl (LogFatal ''StateSize: no return'') | Some s \<Rightarrow> Inr s)"

definition dc_memSize :: "(bytes \<Rightarrow> 64 word option) \<Rightarrow> (bytes \<times> bool) option \<Rightarrow> 64 word res" where
  "dc_memSize dec r =
     rbind (RPCMarshall_result dec r) (\<lambda>reply. case reply of None \<Rightarrow> Inl (LogFatal ''MemSize: no return'') | Some n \<Rightarrow> Inr n)"

definition dc_kill :: "bool \<Rightarrow> DaemonClnt \<Rightarrow> socks \<Rightarrow> socks res" where
  "dc_kill killed dc h =
     (if \<not> killed then Inl (LogFatal ''Kill err'')
      else Inr (h - {SockName (sockctl (dc_endName dc))} - {SockName (dc_endName dc)}))"

section \<open>The life of a daemon\<close>

text \<open>The sockets of the daemon itself: the control socket when \<open>InitDaemon\<close> begins, the one of its services after \<open>Init\<close>, which
  \<open>CheckpointPersister\<close> closes. The process ends at a call of \<open>log.Fatal\<close>.\<close>

datatype dlife = DBoot | DInit | DServe | DClosed | DDead

record dproc =
  dp_life :: dlife
  dp_socks :: socks

inductive life_step :: "DaemonClnt \<Rightarrow> dproc \<Rightarrow> dproc \<Rightarrow> bool" for dc where
  boot: "dp_life d = DBoot \<Longrightarrow> srv_listen (sockctl (dc_endName dc)) (dp_socks d) = Inr h \<Longrightarrow> life_step dc d \<lparr>dp_life = DInit, dp_socks = h\<rparr>"
| boot_fatal: "dp_life d = DBoot \<Longrightarrow> srv_listen (sockctl (dc_endName dc)) (dp_socks d) = Inl e \<Longrightarrow> life_step dc d (d\<lparr>dp_life := DDead\<rparr>)"
| serve: "dp_life d = DInit \<Longrightarrow> srv_listen (dc_endName dc) (dp_socks d) = Inr h \<Longrightarrow> life_step dc d \<lparr>dp_life = DServe, dp_socks = h\<rparr>"
| serve_fatal: "dp_life d = DInit \<Longrightarrow> srv_listen (dc_endName dc) (dp_socks d) = Inl e \<Longrightarrow> life_step dc d (d\<lparr>dp_life := DDead\<rparr>)"
| checkpoint: "dp_life d = DServe \<Longrightarrow> life_step dc d \<lparr>dp_life = DClosed, dp_socks = srv_Close (dc_endName dc) (dp_socks d)\<rparr>"
| restart: "dp_life d \<noteq> DDead \<Longrightarrow> dc_kill True dc (dp_socks d) = Inr h \<Longrightarrow> life_step dc d \<lparr>dp_life = DBoot, dp_socks = h\<rparr>"

definition no_socks :: "DaemonClnt \<Rightarrow> dproc \<Rightarrow> bool" where
  "no_socks dc d \<longleftrightarrow> dp_life d = DBoot \<and> SockName (dc_endName dc) \<notin> dp_socks d \<and> SockName (sockctl (dc_endName dc)) \<notin> dp_socks d"

definition life_inv :: "DaemonClnt \<Rightarrow> dproc \<Rightarrow> bool" where
  "life_inv dc d \<longleftrightarrow> dp_life d \<noteq> DDead
     \<and> (SockName (dc_endName dc) \<in> dp_socks d \<longleftrightarrow> dp_life d = DServe)
     \<and> (SockName (sockctl (dc_endName dc)) \<in> dp_socks d \<longleftrightarrow> dp_life d \<noteq> DBoot)"

lemma sockctl_neq [simp]: "SockName (sockctl e) \<noteq> SockName e" "SockName e \<noteq> SockName (sockctl e)"
  by (simp_all add: SockName_def sockctl_def)

interpretation life: invariant_system "no_socks dc" "life_step dc" "life_inv dc" for dc
proof
  show "life_inv dc d" if "no_socks dc d" for d using that by (auto simp: no_socks_def life_inv_def)
next
  fix d d' assume inv: "life_inv dc d" and "life_step dc d d'"
  from this(2) show "life_inv dc d'"
    using inv by cases (auto simp: life_inv_def srv_listen_def srv_Close_def dc_kill_def split: if_splits)
qed

text \<open>However often the tester kills a server process and starts it again, in whatever state it was, the new process can listen on its two
  sockets: \<open>kill\<close> has removed the files of the old one, and \<open>log.Fatal\<close> of \<open>listen\<close> is never reached.\<close>

theorem daemon_restarts:
  assumes "reach (no_socks dc) (life_step dc) d"
  shows "dp_life d \<noteq> DDead \<and> (dp_life d = DBoot \<longrightarrow> (\<exists>h. srv_listen (sockctl (dc_endName dc)) (dp_socks d) = Inr h))
    \<and> (dp_life d = DInit \<longrightarrow> (\<exists>h. srv_listen (dc_endName dc) (dp_socks d) = Inr h))"
  using life.reach_inv [OF assms] by (auto simp: life_inv_def srv_listen_def)

text \<open>A file that is left over stops the new process.\<close>

lemma leftover_socket_fatal: "SockName sock \<in> h \<Longrightarrow> srv_listen sock h = Inl (LogFatal ''tester listen error:'')"
  by (simp add: srv_listen_def)

section \<open>Dialling and paths\<close>

lemma dial_loop_some: "(\<exists>k. dial_loop h e is = Some k) \<longleftrightarrow> (\<exists>i \<in> set is. SockName e \<in> h i)"
  by (induction "is") auto

text \<open>A connection is made exactly when the socket is there at one of a hundred attempts; otherwise the tester ends.\<close>

theorem NewRPCClnt_spec:
  "NewRPCClnt h c e = (if \<exists>i < MAXRETRY. SockName e \<in> h i then Inr \<lparr>rc_clnt = c, rc_srvEnd = e\<rparr> else Inl (LogFatal ''Dial''))"
proof -
  have "(\<exists>k. dial h e = Some k) \<longleftrightarrow> (\<exists>i < MAXRETRY. SockName e \<in> h i)" using dial_loop_some [of h e "[0..<MAXRETRY]"] by (auto simp: dial_def)
  then show ?thesis by (cases "dial h e") (auto simp: NewRPCClnt_def)
qed

lemma LastIndex_last:
  assumes "\<forall>i. length pre < i \<longrightarrow> take (length sub) (drop i (pre @ sub @ rest)) \<noteq> sub"
  shows "LastIndex (pre @ sub @ rest) sub = int (length pre)"
proof -
  let ?P = "\<lambda>i. take (length sub) (drop i (pre @ sub @ rest)) = sub"
  have "[0..<Suc (length (pre @ sub @ rest)) - length sub] = [0..<length pre + Suc (length rest)]" by simp
  also have "\<dots> = [0..<length pre] @ length pre # [Suc (length pre)..<length pre + Suc (length rest)]"
    by (simp only: upt_add_eq_append [OF le0] upt_conv_Cons less_add_Suc1)
  finally have eq: "[0..<Suc (length (pre @ sub @ rest)) - length sub] = [0..<length pre] @ length pre # [Suc (length pre)..<length pre + Suc (length rest)]" .
  have "filter ?P [Suc (length pre)..<length pre + Suc (length rest)] = []"
    using assms by (intro filter_False ballI) (metis Suc_le_eq atLeastLessThan_iff set_upt)
  moreover have "?P (length pre)" by simp
  ultimately have "filter ?P [0..<Suc (length (pre @ sub @ rest)) - length sub] = filter ?P [0..<length pre] @ [length pre]"
    by (simp only: eq filter_append filter.simps simp_thms if_True)
  then show ?thesis unfolding LastIndex_def by (cases "filter ?P [0..<length pre]") auto
qed

text \<open>The binary of a server is looked for in \<open>src/main\<close> beside the last \<open>src\<close> of the working directory; outside of a directory with
  \<open>src\<close> in its path the tester panics.\<close>

theorem daemon_path_src:
  assumes "\<forall>i. length pre < i \<longrightarrow> take 3 (drop i (pre @ ''src'' @ rest)) \<noteq> ''src''"
  shows "daemon_path prog (pre @ ''src'' @ rest) = Inr (filepath_Join [pre, ''src/main'', prog])"
proof -
  have "LastIndex (pre @ ''src'' @ rest) ''src'' = int (length pre)"
    by (rule LastIndex_last) (use assms in \<open>simp add: numeral_3_eq_3\<close>)
  then show ?thesis by (simp add: daemon_path_def slice_range_def)
qed

theorem daemon_path_src_witness:
  "daemon_path ''raft1d'' ''/root/lab/src/raft1'' = Inr ''/root/lab/src/main/raft1d''"
proof -
  have "take 3 (drop i (''/root/lab/'' @ ''src'' @ ''/raft1'')) \<noteq> ''src''" if "length ''/root/lab/'' < i" for i
  proof (cases "i < 19")
    case True
    then have "i \<in> {11, 12, 13, 14, 15, 16, 17, 18}" using that by auto
    then show ?thesis by auto
  qed simp
  with daemon_path_src [of "''/root/lab/''" "''/raft1''" "''raft1d''"] show ?thesis by (simp add: filepath_Join_def Clean_def)
qed

lemma daemon_path_no_src:
  assumes "\<forall>i. take 3 (drop i cwd) \<noteq> ''src''"
  shows "daemon_path prog cwd = Inl SliceBounds"
proof -
  have "LastIndex cwd ''src'' = -1" using assms by (simp add: LastIndex_def numeral_3_eq_3)
  then show ?thesis by (simp add: daemon_path_def slice_range_def)
qed

end
