(* ===== verification/Spec2Isabelle.thy ===== *)
theory Spec2Isabelle
  imports Lock Kv_Model Raft_Safety Mr_Timing Shardcfg_Balance Labrpc_Net Labgob Kvtest_Run Raft_One Annotations Demux_Calls Rsm Daemon_Clnt
    "HOL-Library.Countable"
begin

text \<open>
  A verification development for the 6.5840 laboratories, a Go repository with four programs and the framework their tests run on.
  All paths below are under \<open>src/src\<close>.

  \<^bold>\<open>The program.\<close> \<open>mr\<close> is a MapReduce system: a coordinator hands out map and reduce tasks over RPC, workers execute them on files, and
  \<open>main/mrsequential.go\<close> is the sequential program they must agree with. \<open>kvsrv1\<close> is a key/value server with a version per key, a clerk that
  resends lost requests, and a lock built on the clerk. \<open>raft1\<close> is a Raft peer: elections, replication with batching and back-off, a
  background persister, snapshots, and an applier that sends committed commands to the service above. \<open>shardkv1/shardcfg\<close> computes the
  assignment of shards to groups. They talk over \<open>labrpc\<close>, a network that loses, delays and reorders, with \<open>labgob\<close> as codec; \<open>tester1\<close>
  runs servers as processes behind that network, cuts and restores links, crashes and restarts servers and records annotations;
  \<open>kvtest1\<close>, \<open>models1\<close>, \<open>raft1/server.go\<close> and \<open>raft1/test.go\<close> drive and check the tests.

  \<^bold>\<open>Conventions.\<close> A record or datatype per Go type and one definition per function, with the source's names (a prefix where two
  types share a method name). A panic or \<open>log.Fatalf\<close> is the value \<open>Inl fault\<close> of \<open>'a res\<close>; slice accesses are checked. Code that holds a
  lock is one step; where a function gives up its lock, sends on a channel or waits, it is cut there and the parts are separate
  definitions that a step relation interleaves. Times, random numbers, losses and the iteration order of Go maps are arguments.
  Integers that wrap in practice are words (the counters of the network and of the tests, hashes, tags and frame lengths); Go \<open>int\<close>
  values that count or index are integers without a bound. A slice is a list and its capacity is not modelled. Strings are ASCII. The
  codecs (gob, JSON), the comparison of a sort, and file systems are parameters, with their round-trip law as a hypothesis where it is needed.

  \<^bold>\<open>Theories.\<close>
  \<^item> \<open>Prelude\<close>: faults, checked slices, reachability, the locales \<open>invariant_system\<close> and \<open>quorum_pair\<close>, decimal numbers, lists and counting.
    \<open>Go_Strings\<close> and \<open>Random_Names\<close>: what is used of the Go library on strings and paths, and random names.
  \<^item> \<open>Kvsrv\<close> (\<open>kvsrv1/rpc\<close>, \<open>server.go\<close>, \<open>client.go\<close>): server and clerk. The locale \<open>versioned_store\<close> states what a clerk relies on and is
    interpreted on the server: a call of the clerk's \<open>Put\<close> takes effect once, at one place among the puts of the other clients, or not at all, whatever is lost or resent, its answer tells which as far as it can, and the
    retry loop ends exactly when an exchange gets through. \<open>Kv_Model\<close> (\<open>models1/kv.go\<close>): the server refines the sequential model of the
    linearizability checker, request by request. \<open>Lock\<close> (\<open>kvsrv1/lock\<close>): mutual exclusion for any number of clients, interleavings and losses.
  \<^item> \<open>Persister\<close> (\<open>tester1/persister.go\<close>), \<open>Raft\<close> (\<open>raft1/raft.go\<close>, \<open>raftapi\<close>): the whole peer. \<open>Raft_Node\<close>, \<open>Raft_Leader\<close>, \<open>Raft_Peer\<close>: the state
    invariant, which every operation keeps without a panic, and monotonicity. \<open>Raft_Replication\<close>: what an exchange of \<open>AppendEntries\<close>
    achieves, with the exact log after it. \<open>Raft_Service\<close>: votes, the commit rule with its quorum, delivery in order, snapshots, recovery.
    \<open>Raft_Cluster\<close>: election safety for any number of peers that crash and come back, and a vote that is lost in a crash.
  \<^item> \<open>Raft_Spec\<close>: the Raft protocol on whole logs as an abstract step relation, with its invariants (one leader per term, matching logs,
    whatever is chosen is in every later leader's log). \<open>Raft_Net\<close>: a cluster of the peers of \<open>raft.go\<close> with all their messages, appliers,
    snapshots, persisters and restarts, and what each operation does to the whole log. The code leaves the protocol at two places, which the
    flag \<open>lapse\<close> records: it takes over a snapshot of a newer term without adopting the term (or as a candidate), and a restart loses
    what \<open>batchPersister\<close> had not saved. The theorems on clusters hold for every state reached without a lapse. \<open>Raft_Log\<close>: the simulation of a cluster by the protocol, one
    lemma per kind of step. \<open>Raft_Safety\<close>: what follows for the peers: refinement, log matching, leader completeness, state machine
    safety, no panic, and that the leader's step back makes progress however late a refusal comes; and what happens after a snapshot of a
    newer term: an index and a term given twice, and a panic.
  \<^item> \<open>Raft_Server\<close> (\<open>raft1/server.go\<close>, \<open>proxy.go\<close>, part of \<open>test.go\<close>): the service under test with its snapshots and the tester's comparison of
    logs, joined by the locale \<open>apply_checker\<close>: deliveries that follow one sequence pass every check, and a conflicting one is always
    reported. \<open>Raft_Checks\<close> (\<open>raft1/test.go\<close>): the leader check, run on the cluster with the servers asked at different moments, never
    finds two leaders of a term if no server loses its vote in a crash; the agreement check counts right. \<open>Raft_One\<close>: \<open>one\<close> returns an index only when enough servers hold the command.
  \<^item> \<open>Rsm\<close> (\<open>kvraft1/rsm\<close>): the interface \<open>StateMachine\<close> as a locale, and the counter of the tests as its instance: a replica that restores
    a snapshot catches up.
  \<^item> \<open>Mr_Coordinator\<close> (\<open>mr/coordinator.go\<close>, \<open>rpc.go\<close>), \<open>Mr_Worker\<close> (\<open>mr/worker.go\<close>, \<open>mrapps\<close>, \<open>main/mrsequential.go\<close>), \<open>Mr_Job\<close>: no reduce task before the
    last map task, stalled tasks come back, and the outputs of a job are those of the sequential program. \<open>Mr_System\<close>, \<open>Mr_Progress\<close>: coordinator,
    worker processes and their files as one system, in which workers stop between any two system calls: a finished job has the right output and a job
    can always be finished, as long as no worker mixes up its tasks through the reply variable it reuses, which takes a task that is out for more than ten seconds; a run that does so ends with a wrong output. \<open>Mr_Tests\<close> (\<open>mr/util.go\<close>, the main
    programs): the comparison at the end of a test succeeds under the same condition. \<open>Mr_Timing\<close> (\<open>mrapps/mtiming.go\<close>, \<open>rtiming.go\<close>, \<open>jobcount.go\<close>): what these
    applications count of their fellow workers is exact.
  \<^item> \<open>Shardcfg\<close>, \<open>Shardcfg_Balance\<close> (\<open>shardkv1/shardcfg\<close>): rebalancing ends with every shard assigned and the loads within one of each
    other; join and leave pass the configuration check.
  \<^item> \<open>Labrpc\<close>, \<open>Labrpc_Net\<close> (\<open>labrpc\<close>): dispatch, and the life of many requests at once: a handler runs at most once for a request, and a
    reply is granted only while the server is registered; under long reordering it then waits for a timer, and can arrive when the server is deleted. \<open>Labgob\<close> (\<open>labgob\<close>): the search of a cyclic type graph ends and finds every field once.
  \<^item> \<open>Tester_Group\<close>, \<open>Tester_Links\<close> (\<open>tester1/group.go\<close>, \<open>srv.go\<close>), \<open>Tester_Clnts\<close> (\<open>clnts.go\<close>, \<open>config.go\<close>): links, partitions, crash and restart.
    \<open>Demux\<close>, \<open>Demux_Calls\<close> (\<open>tester1/demux\<close>, \<open>sockrpc\<close>): frames on a byte stream are read back, also from a stream that is cut; concurrent
    calls on a connection get the answers to their own requests, and when it breaks every call returns in every fair run. \<open>Daemon\<close> (\<open>daemonsrv.go\<close>,
    \<open>daemonclnt.go\<close>, \<open>testsrv.go\<close>): command line, start and forwarding of a server process. \<open>Daemon_Clnt\<close> (also \<open>sockrpc\<close>): the tester's side, and that a
    killed process finds its sockets free when it is started again. \<open>Annotations\<close> (\<open>annotation.go\<close>, \<open>annotator.go\<close>):
    the failures on the timeline are, text and times included, those of a reference that follows the calls.
  \<^item> \<open>Kvtest\<close> (\<open>kvtest1\<close>): the put loops and their checks on the key/value server; the version of a key lies between the puts known
    and possibly done, and \<open>CheckPutConcurrent\<close> accepts once the key exists. \<open>Kvtest_Append\<close>: concurrent appends always pass the check of the entries. \<open>Kv_Linear\<close>: any number of concurrent clerk calls,
    with retries and losses, leave a history that is linearizable with respect to \<open>KvModel\<close>, so \<open>checkPorcupine\<close> passes. \<open>Kvtest_Run\<close>: starting and
    stopping clients over channels, the partitioner, the end of a test.
  \<^item> This theory: properties that span the cluster of peers, its servers and the tester.

  \<^bold>\<open>Bounds and fuel.\<close> \<open>move_loop\<close> of \<open>Rebalance\<close> is a partial function, and that it returns is part of its theorem; the search of \<open>Labgob\<close>
  takes fuel, and that the fuel it is given is enough is part of its. The retry loop of the clerk and \<open>PutAtLeastOnce\<close> take the list of what happens to their messages and return \<open>None\<close> when it is
  used up; when they return is stated exactly. The readers of frames terminate because each frame takes at least four bytes. The
  leader check makes the ten attempts of the code. A connection of \<open>Demux_Calls\<close> carries less than 2^32 calls, after which tags repeat.

  \<^bold>\<open>Not modelled.\<close> \<open>kvraft1/server.go\<close> and \<open>client.go\<close>, and \<open>shardkv1\<close> apart from \<open>shardcfg\<close>, have empty bodies; \<open>Submit\<close> of \<open>rsm\<close> is modelled as the
  stub it is. Starting and killing processes, sockets, temporary files, flag parsing, the visualiser and the main programs of the
  daemons are the operating system's or glue; find, sort and cmp, which the tests of MapReduce run, are parameters. The porcupine checker is a library. In a cluster of
  \<open>Raft_Net\<close> the service takes snapshots only of what is committed. For clusters no fairness is assumed, so that a command is committed at all is not claimed.
\<close>

section \<open>From a Raft peer to its server\<close>

text \<open>Consecutive commands of \<open>L\<close> follow it.\<close>

lemma commands_follow:
  assumes "i < n" "\<And>k. k < length es \<Longrightarrow> am_CommandValid (es ! k) \<and> \<not> am_SnapshotValid (es ! k)
      \<and> am_CommandIndex (es ! k) = la i + 1 + int k \<and> am_Command (es ! k) = L (la i + 1 + int k)"
  shows "follows senc L n la (map (Pair i) es) \<and> la_after la (map (Pair i) es) i = la i + int (length es)"
  using assms(2)
proof (induction es arbitrary: la)
  case (Cons m es)
  define la1 where "la1 = la(i := la i + 1)"
  have m: "next_cmd L (la i) m" using Cons.prems [of 0] by (simp add: next_cmd_def)
  have "am_CommandValid (es ! k) \<and> \<not> am_SnapshotValid (es ! k) \<and> am_CommandIndex (es ! k) = la1 i + 1 + int k
      \<and> am_Command (es ! k) = L (la1 i + 1 + int k)" if "k < length es" for k
    using Cons.prems [of "Suc k"] that by (simp add: algebra_simps la1_def)
  then have "follows senc L n la1 (map (Pair i) es) \<and> la_after la1 (map (Pair i) es) i = la1 i + int (length es)" by (rule Cons.IH)
  moreover have "la1 i = la i + 1" by (simp add: la1_def)
  ultimately show ?case using m assms(1) by (simp add: next_cmd_def la1_def [symmetric])
qed simp

text \<open>The messages of one pass of the applier, when the deliveries so far follow \<open>L\<close> and the peer's committed entries are those of \<open>L\<close>.\<close>

lemma applier_feeds:
  assumes inv: "peer_inv rf" and snap: "snapshotIndex rf \<le> lastApplied rf"
    and log: "\<And>k e. lastApplied rf < k \<Longrightarrow> k \<le> commitIndex rf \<Longrightarrow> entry_at rf k = Some e \<Longrightarrow> ed_Command e = L k"
    and ms: "follows senc L n (\<lambda>_. 0) ms" "i < n" "la_after (\<lambda>_. 0) ms i = lastApplied rf"
    and L0: "L 0 = None" and codec: "\<And>s. senc s \<noteq> [] \<and> sdec (senc s) = Some s"
  shows "\<exists>rf' es srvs' t'. applier_pass rf = Inr rf' \<and> applied rf' = applied rf @ es
    \<and> run_msgs senc sdec rt_iface (fresh_servers rfs n) (fresh_rtest n) (ms @ map (Pair i) es) = Inr (srvs', t') \<and> \<not> rt_failed t'
    \<and> rs_lastApplied (srvs' ! i) = commitIndex rf \<and> lastApplied rf' = commitIndex rf
    \<and> (\<forall>k. 1 \<le> k \<and> k \<le> commitIndex rf \<longrightarrow> rs_log (srvs' ! i) k = Some (L k))"
proof -
  obtain rf' es where p: "applier_pass rf = Inr rf'" "applied rf' = applied rf @ es" "lastApplied rf' = commitIndex rf"
    "map am_CommandIndex es = map (\<lambda>k. lastApplied rf + 1 + int k) [0..<nat (commitIndex rf - lastApplied rf)]"
    "\<forall>m \<in> set es. am_CommandValid m \<and> map_option ed_Command (entry_at rf (am_CommandIndex m)) = Some (am_Command m)"
    and ns: "\<forall>m \<in> set es. \<not> am_SnapshotValid m"
    using applier_pass_commands [OF inv] snap by (auto simp: max_def)
  have la: "lastApplied rf \<le> commitIndex rf" using inv by (auto simp: inv_defs)
  have len: "int (length es) = commitIndex rf - lastApplied rf" using arg_cong [OF p(4), of length] la by simp
  have idx: "am_CommandIndex (es ! k) = lastApplied rf + 1 + int k" if "k < length es" for k
    using arg_cong [OF p(4), of "\<lambda>xs. xs ! k"] that len by simp
  have cmd: "am_CommandValid (es ! k) \<and> \<not> am_SnapshotValid (es ! k) \<and> am_CommandIndex (es ! k) = la_after (\<lambda>_. 0) ms i + 1 + int k
      \<and> am_Command (es ! k) = L (la_after (\<lambda>_. 0) ms i + 1 + int k)" if k: "k < length es" for k
  proof -
    have "es ! k \<in> set es" using k by simp
    moreover obtain e where "entry_at rf (am_CommandIndex (es ! k)) = Some e" "ed_Command e = am_Command (es ! k)"
      using p(5) calculation by auto
    moreover have "lastApplied rf < am_CommandIndex (es ! k)" "am_CommandIndex (es ! k) \<le> commitIndex rf" using idx [OF k] k len by auto
    ultimately show ?thesis using log p(5) ns idx [OF k] ms(3) by force
  qed
  note f = commands_follow [where senc = senc and L = L and la = "la_after (\<lambda>_. 0) ms" and es = es, OF ms(2) cmd]
  have fol: "follows senc L n (\<lambda>_. 0) (ms @ map (Pair i) es)" using ms(1) f by (simp add: follows_append)
  have la': "la_after (\<lambda>_. 0) (ms @ map (Pair i) es) i = commitIndex rf" using f len ms(3) by (simp add: la_after_append)
  have fl: "length (fresh_servers rfs n) = n" by (simp add: fresh_servers_def)
  obtain srvs' t' where r: "run_msgs senc sdec rt_iface (fresh_servers rfs n) (fresh_rtest n) (ms @ map (Pair i) es) = Inr (srvs', t')"
    "rt.all_ok L (la_after (\<lambda>_. 0) (ms @ map (Pair i) es)) srvs' t'" "length srvs' = n"
    using rt.run_msgs_accepted [where senc = senc and sdec = sdec, OF fresh_all_ok [of L rfs n] _ L0 codec] fol unfolding fl by blast
  have "\<not> rt_failed t'" "rs_lastApplied (srvs' ! i) = commitIndex rf" "rt.srv_ok L t' (srvs' ! i)" using r(2,3) ms(2) la' by (auto simp: rt.all_ok_def)
  moreover from this have "\<forall>k. 1 \<le> k \<and> k \<le> commitIndex rf \<longrightarrow> rs_log (srvs' ! i) k = Some (L k)"
    unfolding rt.srv_ok_def by (metis option.exhaust)
  ultimately show ?thesis using p(1-3) r(1) by blast
qed

text \<open>Deliveries of commands in order: each server takes the commands with index 1, 2, 3 and so on.\<close>

fun in_order :: "nat \<Rightarrow> (nat \<Rightarrow> int) \<Rightarrow> (nat \<times> 'c ApplyMsg) list \<Rightarrow> bool" where
  "in_order n la [] = True"
| "in_order n la ((i, m) # ms) = (i < n \<and> am_CommandValid m \<and> \<not> am_SnapshotValid m \<and> am_CommandIndex m = la i + 1
     \<and> in_order n (la(i := la i + 1)) ms)"

lemma in_order_follows:
  assumes "in_order n la ms" "\<And>i m. (i, m) \<in> set ms \<Longrightarrow> am_Command m = L (am_CommandIndex m)"
  shows "follows senc L n la ms"
  using assms
proof (induction ms arbitrary: la)
  case (Cons x ms)
  obtain i m where x: "x = (i, m)" by fastforce
  have "am_Command m = L (la i + 1)" using Cons.prems(2) [of i m] Cons.prems(1) x by simp
  moreover have "follows senc L n (la(i := la i + 1)) ms" 
    by (rule Cons.IH) (use Cons.prems x in \<open>auto simp: fun_upd_def\<close>)
  ultimately show ?case using Cons.prems(1) x by (simp add: next_cmd_def)
qed simp

text \<open>C12: the peers of a cluster, the servers above them and the tester fit together, for commands. Take any state a cluster reaches without a
  lapse, a peer that has no snapshot it still has to apply, and any interleaving of commands the appliers have delivered, each server getting
  its commands in order from index 1, that has brought the server of peer \<open>i\<close> to the peer's last applied index. Then the next pass of
  that peer's applier returns, no check of a server or of the tester fails on all these messages, and the server ends at the peer's
  commit index with one command per index. No message of the sequence is a snapshot: with one the checks can fail, as
  shown below.\<close>

theorem applier_feeds_server:
  assumes run: "reach (rnet_init n) (rnet_step n enc dec) s" "\<not> lapse s" and i: "i < n" "snapshotIndex (node s i) \<le> lastApplied (node s i)"
    and ms: "set ms \<subseteq> delivered s" "in_order n (\<lambda>_. 0) ms" "la_after (\<lambda>_. 0) ms i = lastApplied (node s i)"
    and codec: "\<And>s. senc s \<noteq> [] \<and> sdec (senc s) = Some s"
  shows "\<exists>rf' es srvs' t' L. applier_pass (node s i) = Inr rf' \<and> applied rf' = applied (node s i) @ es
    \<and> run_msgs senc sdec rt_iface (fresh_servers rfs n) (fresh_rtest n) (ms @ map (Pair i) es) = Inr (srvs', t') \<and> \<not> rt_failed t'
    \<and> rs_lastApplied (srvs' ! i) = commitIndex (node s i)
    \<and> (\<forall>k. 1 \<le> k \<and> k \<le> commitIndex (node s i) \<longrightarrow> rs_log (srvs' ! i) k = Some (L k))
    \<and> (\<forall>j m. (j, m) \<in> delivered s \<longrightarrow> am_Command m = L (am_CommandIndex m))"
proof -
  obtain L where L: "L 0 = None" "\<forall>i m. (i, m) \<in> delivered s \<longrightarrow> am_Command m = L (am_CommandIndex m)"
    "\<forall>i < n. \<forall>k e. snapshotIndex (node s i) < k \<and> k \<le> commitIndex (node s i) \<and> entry_at (node s i) k = Some e \<longrightarrow> ed_Command e = L k"
    using cluster_sequence [OF run] by blast
  obtain A where "sim n s A" using net_refines [OF run] by blast
  note inv = node_simD(1) [OF simD(5) [OF this i(1)]]
  have log: "ed_Command e = L k" if "lastApplied (node s i) < k" "k \<le> commitIndex (node s i)" "entry_at (node s i) k = Some e" for k e
    using L(3) i that by force
  have "follows senc L n (\<lambda>_. 0) ms" by (rule in_order_follows [OF ms(2)]) (use L(2) ms(1) in blast)
  from applier_feeds [where senc = senc and sdec = sdec and rfs = rfs and L = L, OF inv i(2) log this i(1) ms(3) L(1) codec] L(2)
  show ?thesis by blast
qed

text \<open>In the run of \<open>Raft_Safety\<close>, server 0 has the command and the applier of server 1 is about to deliver it. Any countable
  encoding of snapshots will do.\<close>

definition unary_senc :: "'c :: countable snap \<Rightarrow> bytes" where
  "unary_senc s = replicate (Suc (to_nat s)) 0"

definition unary_sdec :: "bytes \<Rightarrow> 'c :: countable snap option" where
  "unary_sdec b = Some (from_nat (length b - 1))"

lemma run_fol3_counts: "lastApplied run_fol3 = 0" "snapshotIndex run_fol3 = 0" "commitIndex run_fol3 = 1"
  by code_simp+

theorem applier_feeds_server_witness:
  "\<forall>rfs. \<exists>rf' es srvs' t'. applier_pass run_fol3 = Inr rf'
     \<and> run_msgs unary_senc unary_sdec rt_iface (fresh_servers rfs 3) (fresh_rtest 3) ([(0, command_msg 1 run_entry)] @ map (Pair 1) es) = Inr (srvs', t')
     \<and> \<not> rt_failed t' \<and> rs_lastApplied (srvs' ! 1) = 1"
proof
  fix rfs
  obtain s :: "nat net" where s: "reach (rnet_init 3) (rnet_step 3 Raft_Service.demo_enc Raft_Service.demo_dec) s" "\<not> lapse s" "node s 1 = run_fol3" "(0, command_msg 1 run_entry) \<in> delivered s"
    using run_delivers by blast
  have codec: "unary_senc s \<noteq> [] \<and> unary_sdec (unary_senc s) = Some s" for s :: "nat snap" by (simp add: unary_senc_def unary_sdec_def)
  have lt: "1 < (3 :: nat)" by simp
  have le: "snapshotIndex (node s 1) \<le> lastApplied (node s 1)" by (simp only: s(3) run_fol3_counts)
  have "set [(0, command_msg 1 run_entry)] \<subseteq> delivered s" using s(4) by simp
  moreover have "in_order 3 (\<lambda>_. 0) [(0, command_msg 1 run_entry)]"
    "la_after (\<lambda>_. 0) [(0, command_msg 1 run_entry)] 1 = lastApplied (node s 1)"
    by (simp_all only: s(3) run_fol3_counts) (simp_all add: command_msg_def)
  moreover note ms = calculation
  from applier_feeds_server [where senc = unary_senc and sdec = unary_sdec and rfs = rfs, OF s(1,2) lt le ms codec]
  show "\<exists>rf' es srvs' t'. applier_pass run_fol3 = Inr rf'
     \<and> run_msgs unary_senc unary_sdec rt_iface (fresh_servers rfs 3) (fresh_rtest 3) ([(0, command_msg 1 run_entry)] @ map (Pair 1) es) = Inr (srvs', t')
     \<and> \<not> rt_failed t' \<and> rs_lastApplied (srvs' ! 1) = 1" unfolding s(3) run_fol3_counts by blast
qed

section \<open>An old snapshot\<close>

text \<open>A command whose index is not the expected one is reported.\<close>

lemma out_of_order_reported:
  assumes "rs_me rs < length (rt_srvs t)" "rs_raft rs \<noteq> None" "am_CommandValid m" "\<not> am_SnapshotValid m" "am_CommandIndex m \<noteq> rs_lastApplied rs + 1"
  shows "\<exists>rs' t'. applierSnap_msg senc sdec rt_iface rs t m = Inr (rs', t') \<and> rt_failed t'"
proof -
  let ?rs1 = "rs\<lparr>rs_log := (rs_log rs)(am_CommandIndex m \<mapsto> am_Command m), rs_lastApplied := am_CommandIndex m\<rparr>"
  have "rs_raft ?rs1 \<noteq> None" using assms(2) by simp
  from make_snapshot_total [OF this] obtain rs2 where rs2: "make_snapshot senc (am_CommandIndex m) ?rs1 = Inr rs2" "rs_me rs2 = rs_me rs" by fastforce
  obtain t' where "it_ApplyErr rt_iface t (rs_me rs) (OutOfOrder (am_CommandIndex m)) = Inr t'" "rt_failed t'"
    using rt.reports [OF assms(1)] by blast
  then show ?thesis using assms(3-5) rs2 by (simp add: applierSnap_msg_def command_err_def report_def Let_def)
qed

text \<open>C39: \<open>InstallSnapshot\<close> compares an incoming snapshot with the peer's own snapshot only, not with what it has applied: a snapshot
  of an index between the two, of the present term, goes up the apply channel, takes the server back to that index, and because the
  peer's last applied index stays where it was, the next command it delivers is reported as out of order.\<close>

theorem old_snapshot_rolls_back:
  assumes "currentTerm rf \<le> is_Term a" "snapshotIndex rf < is_LastIncludedIndex a" "is_LastIncludedIndex a < lastApplied rf" "0 \<le> is_LastIncludedIndex a"
    and data: "is_Data a = senc (good_snap L (is_LastIncludedIndex a))" and codec: "\<And>s. senc s \<noteq> [] \<and> sdec (senc s) = Some s"
    and srv: "rs_me rs < length (rt_srvs t)" "rs_raft rs \<noteq> None"
  shows "\<exists>m rs1 t1. applied (fst (InstallSnapshot_begin rf a)) = applied rf @ [m] \<and> applierSnap_msg senc sdec rt_iface rs t m = Inr (rs1, t1)
    \<and> rs_lastApplied rs1 = is_LastIncludedIndex a
    \<and> (\<forall>rf'. InstallSnapshot_end (fst (InstallSnapshot_begin rf a)) a = Inr rf' \<longrightarrow> lastApplied rf' = lastApplied rf
        \<and> (\<forall>e. \<exists>rs2 t2. applierSnap_msg senc sdec rt_iface rs1 t1 (command_msg (lastApplied rf' + 1) e) = Inr (rs2, t2) \<and> rt_failed t2))"
proof -
  let ?k = "is_LastIncludedIndex a"
  define m where "m = (\<lparr>am_CommandValid = False, am_Command = None, am_CommandIndex = 0, am_SnapshotValid = True, am_Snapshot = is_Data a,
    am_SnapshotTerm = is_LastIncludedTerm a, am_SnapshotIndex = ?k\<rparr> :: 'a ApplyMsg)"
  have b: "applied (fst (InstallSnapshot_begin rf a)) = applied rf @ [m]" "lastApplied (fst (InstallSnapshot_begin rf a)) = lastApplied rf"
    using assms(1,2) by (simp_all add: InstallSnapshot_begin_def m_def)
  obtain rs1 where r: "ingestSnap sdec (senc (good_snap L ?k)) ?k rs = (rs1, NoErr)" "rs_me rs1 = rs_me rs" "rs_raft rs1 = rs_raft rs" "rs_lastApplied rs1 = ?k"
    using rt.ingest_good [where sdec = sdec and senc = senc and L = L and k = ?k and index = ?k and rs = rs] codec assms(4) by auto
  obtain t1 where t1: "it_IngestLog rt_iface t (rs_me rs) (rs_log rs1) = Inr t1" "length (rt_srvs t1) = length (rt_srvs t)"
    using rt.ingest [OF srv(1)] by blast
  have s: "applierSnap_msg senc sdec rt_iface rs t m = Inr (rs1, t1)"
    using r(1,2) t1(1) data by (simp add: applierSnap_msg_def m_def report_def)
  have "lastApplied rf' = lastApplied rf" if "InstallSnapshot_end (fst (InstallSnapshot_begin rf a)) a = Inr rf'" for rf'
    using that b(2) assms(3) by (auto simp: InstallSnapshot_end_def Let_def rbind_eq_Inr split: if_splits)
  moreover have "\<exists>rs2 t2. applierSnap_msg senc sdec rt_iface rs1 t1 (command_msg (lastApplied rf + 1) e) = Inr (rs2, t2) \<and> rt_failed t2" for e
    by (rule out_of_order_reported) (use srv r t1(2) assms(3) in \<open>simp_all add: command_msg_def\<close>)
  ultimately show ?thesis using b(1) s r(4) by auto
qed

text \<open>A peer with two committed commands.\<close>

definition demo_feeding :: "unit Raft" where
  "demo_feeding = \<lparr>npeers = 3, me = 1, currentTerm = 1, votedFor = -1,
     rlog = [\<lparr>ed_Term = 0, ed_Command = None\<rparr>, \<lparr>ed_Term = 1, ed_Command = Some ()\<rparr>, \<lparr>ed_Term = 1, ed_Command = Some ()\<rparr>],
     dirty = False, commitIndex = 2, lastApplied = 1, nextIndex = [3, 3, 3], matchIndex = [0, 2, 0],
     rstate = FOLLOWER, lastHeartBeat = 0, electionTimeout = 200000000, persistedLogLen = 0,
     lastSent = [None, None, None], inFlight = [False, False, False], sendSeq = [0, 0, 0],
     snapshot = [], snapshotIndex = 0, snapshotTerm = 0, applied = [], woken = {}\<rparr>"

theorem old_snapshot_rolls_back_witness:
  "\<exists>a m rs1 t1. applied (fst (InstallSnapshot_begin (demo_feeding\<lparr>lastApplied := 2\<rparr>) a)) = [m]
     \<and> applierSnap_msg demo_senc demo_sdec rt_iface \<lparr>rs_me = 0, rs_lastApplied = 2, rs_raft = Some demo_feeding, rs_log = Map.empty\<rparr> (fresh_rtest 1) m = Inr (rs1, t1)
     \<and> rs_lastApplied rs1 = 1"
proof -
  define a where "a = \<lparr>is_Term = 1, is_LeaderId = 0, is_LastIncludedIndex = 1, is_LastIncludedTerm = 1, is_Data = demo_senc (good_snap demo_cmds 1)\<rparr>"
  have h: "currentTerm (demo_feeding\<lparr>lastApplied := 2\<rparr>) \<le> is_Term a" "snapshotIndex (demo_feeding\<lparr>lastApplied := 2\<rparr>) < is_LastIncludedIndex a"
    "is_LastIncludedIndex a < lastApplied (demo_feeding\<lparr>lastApplied := 2\<rparr>)" "0 \<le> is_LastIncludedIndex a"
    "is_Data a = demo_senc (good_snap demo_cmds (is_LastIncludedIndex a))" by (simp_all add: a_def demo_feeding_def)
  let ?rs = "\<lparr>rs_me = 0, rs_lastApplied = 2, rs_raft = Some demo_feeding, rs_log = Map.empty\<rparr>"
  have srv: "rs_me ?rs < length (rt_srvs (fresh_rtest 1 :: unit rtest))" "rs_raft ?rs \<noteq> None" by (simp_all add: fresh_rtest_def)
  have ap: "applied (demo_feeding\<lparr>lastApplied := 2\<rparr>) = []" "is_LastIncludedIndex a = 1" by (simp_all add: demo_feeding_def a_def)
  from old_snapshot_rolls_back [where senc = demo_senc and sdec = demo_sdec, OF h demo_scodec srv] show ?thesis unfolding ap(1) ap(2) append_Nil by blast
qed

end
